(* ===== verification/SMM_Prelude.thy ===== *)
theory SMM_Prelude
  imports Main "HOL-Library.Word" "HOL-Library.Multiset"
begin

text \<open>
  Shared vocabulary of the smmalloc development: the machine integers of the x64 build
  (\<open>uint8_t\<close>, \<open>uint32_t\<close>, \<open>uint64_t\<close>/\<open>size_t\<close>/\<open>uintptr_t\<close>), the collections of facts the
  component theories fill, and the generic lemmas on words, lists and multisets that
  their proofs share. Nothing here models code of the repository.
\<close>

unbundle bit_operations_syntax

type_synonym u8 = "8 word"
type_synonym u32 = "32 word"
type_synonym u64 = "64 word"
type_synonym size_t = u64
type_synonym addr = u64

named_theorems span_simps \<open>rewriting of address ranges\<close>
named_theorems mem_frame \<open>what a memory write leaves unchanged\<close>
named_theorems bucket_simps \<open>unfolding of the size classes\<close>

section \<open>Words\<close>

lemma unat_u64_less: "unat (x :: u64) < 18446744073709551616"
  using unsigned_less [of x] by simp

lemma unat_u32_less: "unat (x :: u32) < 4294967296"
  using unsigned_less [of x] by simp

lemma unat_u8_less: "unat (x :: u8) < 256"
  using unsigned_less [of x] by simp

lemma unat_add_small:
  fixes a b :: "'a::len word"
  assumes "unat a + unat b < 2 ^ LENGTH('a)"
  shows "unat (a + b) = unat a + unat b"
  using assms by (simp add: unat_word_ariths)

lemma unat_diff_small:
  fixes a b :: "'a::len word"
  assumes "unat b \<le> unat a"
  shows "unat (a - b) = unat a - unat b"
  using assms by (simp add: unat_sub word_le_nat_alt)

lemma unat_mult_small:
  fixes a b :: "'a::len word"
  assumes "unat a * unat b < 2 ^ LENGTH('a)"
  shows "unat (a * b) = unat a * unat b"
  using assms by (simp add: unat_word_ariths)

lemma unat_of_nat_small:
  assumes "n < 2 ^ LENGTH('a)"
  shows "unat (word_of_nat n :: 'a::len word) = n"
  using assms by (simp add: unat_of_nat take_bit_nat_eq_self)

lemma word_eq_iff_unat: "a = b \<longleftrightarrow> unat a = unat (b :: 'a::len word)"
  by (simp add: word_unat_eq_iff)

lemma word_diff_eq_0_iff: "(a :: 'a::len word) - b = 0 \<longleftrightarrow> a = b"
  by simp

lemma unat_drop_bit: "unat (drop_bit n (w :: 'a::len word)) = unat w div 2 ^ n"
proof -
  have "unat (drop_bit n w) = drop_bit n (take_bit LENGTH('a) (unat w))"
    by (rule unsigned_drop_bit_eq)
  then show ?thesis
    by (simp only: drop_bit_eq_div take_bit_nat_eq_self [OF unsigned_less])
qed

lemma unat_push_bit_small:
  fixes w :: "'a::len word"
  assumes "unat w * 2 ^ n < 2 ^ LENGTH('a)"
  shows "unat (push_bit n w) = unat w * 2 ^ n"
proof -
  have "unat (push_bit n w) = take_bit LENGTH('a) (push_bit n (unat w))"
    by (rule unsigned_push_bit_eq)
  with assms show ?thesis
    by (simp only: push_bit_eq_mult take_bit_nat_eq_self)
qed

lemma unat_ucast_up:
  assumes "LENGTH('a) \<le> LENGTH('b)"
  shows "unat (ucast (w :: 'a::len word) :: 'b::len word) = unat w"
  using assms by (simp add: unsigned_ucast_eq take_bit_nat_eq_self unsigned_less
      order_less_le_trans [OF unsigned_less [of w] power_increasing])

lemma unat_ucast_u32_u64 [simp]: "unat (ucast (w :: u32) :: u64) = unat w"
  by (rule unat_ucast_up) simp

lemma unat_ucast_u64_u32:
  "unat (w :: u64) < 4294967296 \<Longrightarrow> unat (ucast w :: u32) = unat w"
  by (simp add: unsigned_ucast_eq take_bit_nat_eq_self)

lemma ucast_u32_u64_eq_iff [simp]: "(ucast (a :: u32) :: u64) = ucast b \<longleftrightarrow> a = b"
  by (metis unat_ucast_u32_u64 word_eq_iff_unat)

lemma unat_Suc_less: "(i :: 'a::len word) < j \<Longrightarrow> unat (i + 1) = unat i + 1"
proof -
  assume "i < j"
  then have "unat i + 1 \<le> unat j" by (simp add: word_less_nat_alt)
  also have "unat j < 2 ^ LENGTH('a)" by (rule unsigned_less)
  finally have "unat i + 1 < 2 ^ LENGTH('a)" .
  then show ?thesis by (subst unat_add_small) simp_all
qed

lemma ucast_ucast_u32 [simp]: "(ucast (ucast (x :: u32) :: u64) :: u32) = x"
  by (rule bit_word_eqI) (auto simp: bit_simps)

section \<open>Rounding up to a multiple\<close>

definition ceil_to :: "nat \<Rightarrow> nat \<Rightarrow> nat" where
  "ceil_to u n = u * ((n - 1) div u + 1)"

lemma ceil_to_ge: "0 < u \<Longrightarrow> n \<le> ceil_to u n"
proof -
  assume u: "0 < u"
  have "u * ((n - 1) div u) + (n - 1) mod u = n - 1" by (rule mult_div_mod_eq)
  moreover have "(n - 1) mod u < u" using u by simp
  moreover have "ceil_to u n = u * ((n - 1) div u) + u" by (simp add: ceil_to_def)
  ultimately show ?thesis by linarith
qed

lemma ceil_to_less: "0 < u \<Longrightarrow> 0 < n \<Longrightarrow> ceil_to u n < n + u"
proof -
  assume u: "0 < u" "0 < n"
  have "u * ((n - 1) div u) \<le> n - 1" by (rule times_div_less_eq_dividend)
  moreover have "ceil_to u n = u * ((n - 1) div u) + u" by (simp add: ceil_to_def)
  ultimately show ?thesis using u by linarith
qed

lemma ceil_to_mult: "0 < u \<Longrightarrow> 0 < k \<Longrightarrow> ceil_to u (u * k) = u * k"
proof -
  assume u: "0 < u" "0 < k"
  from u obtain l where k: "k = Suc l" by (cases k) simp_all
  have "u * k - 1 = (u - 1) + u * l" using u k by simp
  also have "((u - 1) + u * l) div u = (u - 1) div u + l" using u by (simp only: div_mult_self2)
  finally have "(u * k - 1) div u = l" using u by simp
  then show ?thesis using k by (simp add: ceil_to_def)
qed

lemma ceil_div: "0 < u \<Longrightarrow> 0 < n \<Longrightarrow> (n - 1) div u + 1 = n div u + (if n mod u = 0 then 0 else 1 :: nat)"
proof -
  assume u: "0 < u" "0 < n"
  show ?thesis
  proof (cases "n mod u = 0")
    case True
    then obtain k where n: "n = u * k" by (auto simp: mod_eq_0_iff_dvd)
    then have "u * ((n - 1) div u + 1) = u * k"
      using u ceil_to_mult [of u k] by (simp add: ceil_to_def)
    then have "(n - 1) div u + 1 = k" using u by (simp only: mult_cancel1) simp
    then show ?thesis using True u n by simp
  next
    case False
    have "n - 1 = u * (n div u) + (n mod u - 1)"
      using False mult_div_mod_eq [of u n] by linarith
    moreover have "n mod u - 1 < u" using u by (simp add: less_imp_diff_less)
    ultimately have "(n - 1) div u = n div u" using u by simp
    then show ?thesis using False by simp
  qed
qed

lemma ceil_to_pow2_dvd:
  assumes "0 < n" and "2 ^ k dvd n"
  shows "2 ^ k dvd ceil_to (2 ^ j) n"
proof (cases "k \<le> j")
  case True
  then have "(2::nat) ^ k dvd 2 ^ j" by (rule le_imp_power_dvd)
  then show ?thesis by (simp add: ceil_to_def)
next
  case False
  then have "(2::nat) ^ j dvd 2 ^ k" by (intro le_imp_power_dvd) simp
  with assms(2) obtain q where "n = 2 ^ j * q" by (meson dvd_trans dvdE)
  with assms(1) have "ceil_to (2 ^ j) n = n" using ceil_to_mult [of "2 ^ j" q] by simp
  with assms(2) show ?thesis by simp
qed

lemma unat_pow2: "k < LENGTH('a) \<Longrightarrow> unat (2 ^ k :: 'a::len word) = 2 ^ k"
  using unat_of_nat_small [where 'a = 'a, of "2 ^ k"] by simp

lemma unat_pred: "(n :: u64) \<noteq> 0 \<Longrightarrow> unat (n - 1) = unat n - 1"
  by (subst unat_diff_small) (simp_all add: Suc_le_eq unat_gt_0)

lemma bit_unat: "bit (v :: 'a::len word) k \<longleftrightarrow> odd (unat v div 2 ^ k)"
proof -
  have "bit v k \<longleftrightarrow> bit (unat v) k" by (simp add: bit_unsigned_iff)
  then show ?thesis by (simp only: bit_iff_odd)
qed

lemma unat_and_mask: "unat (v AND mask k) = unat (v :: 'a::len word) mod 2 ^ k"
  by (simp flip: take_bit_eq_mask take_bit_eq_mod add: unsigned_take_bit_eq)

lemma unat_and_3: "unat ((v :: 'a::len word) AND 3) = unat v mod 4"
  using unat_and_mask [of v 2] by (simp add: mask_eq_exp_minus_1)

lemma pred_div_mult_less: "0 < n \<Longrightarrow> (n - Suc 0) div u * u < n"
  by (rule le_less_trans [OF div_times_less_eq_dividend]) simp

lemma upt_0_62: "[0..<62] = ([0,1,2,3,4,5,6,7,8,9,10,11,12,13,14,15,16,17,18,19,20,21,22,23,24,
    25,26,27,28,29,30,31,32,33,34,35,36,37,38,39,40,41,42,43,44,45,46,47,48,49,50,51,52,53,54,55,56,
    57,58,59,60,61] :: nat list)"
  by (simp add: upt_rec)

end
