(* ===== verification/Machine_Memory.thy ===== *)
theory Machine_Memory
  imports SMM_Prelude
begin

text \<open>
  Byte-addressed memory of the x64 target. The free lists, the cache stacks, the block
  headers and the client's data all live in this one memory, so that an aliasing bug
  would show. \<open>span a n\<close> is the set of the \<open>n\<close> addresses from \<open>a\<close> on; as a set of words it
  is meaningful even across the wrap-around at \<open>2^64\<close>. Multi-byte accesses are
  little-endian. The lemmas are the round trip of a store and a load, and the frame
  facts: a store changes only its span, a load depends only on its span.
\<close>

type_synonym memory = "addr \<Rightarrow> u8"

section \<open>Address ranges\<close>

definition span :: "addr \<Rightarrow> nat \<Rightarrow> addr set" where
  "span a n = (\<lambda>i. a + word_of_nat i) ` {..<n}"

section \<open>Byte strings\<close>

primrec to_bytes :: "nat \<Rightarrow> 'a::len word \<Rightarrow> u8 list" where
  "to_bytes 0 w = []"
| "to_bytes (Suc n) w = ucast w # to_bytes n (drop_bit 8 w)"

primrec from_bytes :: "u8 list \<Rightarrow> 'a::len word" where
  "from_bytes [] = 0"
| "from_bytes (b # bs) = ucast b OR push_bit 8 (from_bytes bs)"

primrec load_bytes :: "memory \<Rightarrow> addr \<Rightarrow> nat \<Rightarrow> u8 list" where
  "load_bytes m a 0 = []"
| "load_bytes m a (Suc n) = m a # load_bytes m (a + 1) n"

primrec store_bytes :: "memory \<Rightarrow> addr \<Rightarrow> u8 list \<Rightarrow> memory" where
  "store_bytes m a [] = m"
| "store_bytes m a (b # bs) = store_bytes (m(a := b)) (a + 1) bs"

definition load32 :: "memory \<Rightarrow> addr \<Rightarrow> u32" where
  "load32 m a = from_bytes (load_bytes m a 4)"

definition load64 :: "memory \<Rightarrow> addr \<Rightarrow> u64" where
  "load64 m a = from_bytes (load_bytes m a 8)"

definition store32 :: "memory \<Rightarrow> addr \<Rightarrow> u32 \<Rightarrow> memory" where
  "store32 m a v = store_bytes m a (to_bytes 4 v)"

definition store64 :: "memory \<Rightarrow> addr \<Rightarrow> u64 \<Rightarrow> memory" where
  "store64 m a v = store_bytes m a (to_bytes 8 v)"

text \<open>\<open>std::memmove\<close>: the source is read before the destination is written, so overlapping
  ranges are copied correctly.\<close>

definition memmove :: "memory \<Rightarrow> addr \<Rightarrow> addr \<Rightarrow> size_t \<Rightarrow> memory" where
  "memmove m dst src n = store_bytes m dst (load_bytes m src (unat n))"

section \<open>Lemmas on spans\<close>

lemma span_0 [simp]: "span a 0 = {}"
  by (simp add: span_def)

lemma span_Suc: "span a (Suc n) = insert a (span (a + 1) n)"
proof -
  have "span a (Suc n) = (\<lambda>i. a + word_of_nat i) ` insert 0 (Suc ` {..<n})"
    by (simp add: span_def lessThan_Suc_eq_insert_0)
  also have "\<dots> = insert a ((\<lambda>i. a + word_of_nat (Suc i)) ` {..<n})"
    by (simp add: image_image)
  finally show ?thesis
    by (simp add: span_def add.assoc)
qed

lemma span_mono: "n \<le> k \<Longrightarrow> span a n \<subseteq> span a k"
  by (auto simp: span_def)

lemma span_offset_subset: "i + n \<le> k \<Longrightarrow> span (a + word_of_nat i) n \<subseteq> span a k"
proof
  fix x assume "i + n \<le> k" and "x \<in> span (a + word_of_nat i) n"
  then obtain j where "j < n" and x: "x = a + word_of_nat i + word_of_nat j"
    by (auto simp: span_def)
  with \<open>i + n \<le> k\<close> have "i + j < k" by simp
  moreover have "x = a + word_of_nat (i + j)" using x by (simp add: add.assoc)
  ultimately show "x \<in> span a k" unfolding span_def by blast
qed

lemma span_iff:
  "x \<in> span a n \<longleftrightarrow> unat (x - a) < n" if "n \<le> 2 ^ 64"
proof
  assume "x \<in> span a n"
  then obtain i where "i < n" and x: "x = a + word_of_nat i" by (auto simp: span_def)
  with that have "unat (word_of_nat i :: u64) = i" by (intro unat_of_nat_small) simp
  with x \<open>i < n\<close> show "unat (x - a) < n" by simp
next
  assume "unat (x - a) < n"
  moreover have "x = a + word_of_nat (unat (x - a))" by simp
  ultimately show "x \<in> span a n" unfolding span_def by blast
qed

lemma in_span_self [simp]: "a \<in> span a n \<longleftrightarrow> 0 < n"
  by (cases n) (auto simp: span_Suc)

lemma span_disjoint_nat:
  assumes "unat a + n \<le> unat b" and "unat b + k \<le> 2 ^ 64"
  shows "span a n \<inter> span b k = {}"
proof -
  have le: "n \<le> 2 ^ 64" "k \<le> 2 ^ 64" using assms by auto
  have "False" if x: "unat (x - a) < n" "unat (x - b) < k" for x
  proof -
    have xa: "x = a + (x - a)" "x = b + (x - b)" by simp_all
    have "unat x = unat a + unat (x - a)"
      using x(1) assms unat_add_small [of a "x - a"] by simp
    moreover have "unat x = unat b + unat (x - b)"
      using x(2) assms unat_add_small [of b "x - b"] by simp
    ultimately show False using x(1) assms by simp
  qed
  then show ?thesis using span_iff [OF le(1)] span_iff [OF le(2)] by blast
qed

lemma span_translate: "span (p + x) n = (\<lambda>y. p + y) ` span x n"
  by (simp add: span_def image_image add.assoc)

lemma span_translate_disjoint:
  "span (p + x) n \<inter> span (p + y) k = {} \<longleftrightarrow> span x n \<inter> span y k = {}"
proof -
  have "inj (\<lambda>y. p + y)" by (simp add: inj_def)
  then show ?thesis
    by (simp add: span_translate flip: image_Int)
qed

section \<open>Lemmas on byte strings\<close>

lemma length_to_bytes [simp]: "length (to_bytes n w) = n"
  by (induction n arbitrary: w) simp_all

lemma length_load_bytes [simp]: "length (load_bytes m a n) = n"
  by (induction n arbitrary: a) simp_all

lemma from_to_bytes: "from_bytes (to_bytes n w) = take_bit (8 * n) w"
proof (induction n arbitrary: w)
  case 0
  show ?case by simp
next
  case (Suc n)
  have "from_bytes (to_bytes (Suc n) w) = ucast (ucast w :: u8) OR push_bit 8 (take_bit (8 * n) (drop_bit 8 w))"
    by (simp add: Suc.IH)
  also have "\<dots> = take_bit (8 * Suc n) w"
    by (rule bit_word_eqI) (auto simp: bit_simps)
  finally show ?case .
qed

lemma nth_load_bytes: "i < n \<Longrightarrow> load_bytes m a n ! i = m (a + word_of_nat i)"
proof (induction n arbitrary: a i)
  case 0
  then show ?case by simp
next
  case (Suc n)
  then show ?case by (cases i) (simp_all add: add.assoc)
qed

lemma load_bytes_cong:
  "(\<And>x. x \<in> span a n \<Longrightarrow> m x = m' x) \<Longrightarrow> load_bytes m a n = load_bytes m' a n"
proof (induction n arbitrary: a)
  case 0
  show ?case by simp
next
  case (Suc n)
  then show ?case by (simp add: span_Suc)
qed

lemma store_bytes_outside:
  "x \<notin> span a (length bs) \<Longrightarrow> store_bytes m a bs x = m x"
  by (induction bs arbitrary: m a) (simp_all add: span_Suc)

lemma store_bytes_inside:
  "i < length bs \<Longrightarrow> length bs \<le> 2 ^ 64 \<Longrightarrow> store_bytes m a bs (a + word_of_nat i) = bs ! i"
proof (induction bs arbitrary: m a i)
  case Nil
  then show ?case by simp
next
  case (Cons b bs)
  show ?case
  proof (cases i)
    case 0
    have "a \<notin> span (a + 1) (length bs)"
    proof
      assume "a \<in> span (a + 1) (length bs)"
      then have "unat (a - (a + 1)) < length bs"
        using Cons.prems by (simp add: span_iff)
      then have "unat (- 1 :: u64) < length bs" by simp
      then have "18446744073709551615 < length bs" by (simp add: unsigned_minus_1_eq_mask mask_eq_exp_minus_1)
      with Cons.prems show False by simp
    qed
    then show ?thesis using 0 by (simp add: store_bytes_outside)
  next
    case (Suc j)
    then show ?thesis using Cons by (simp add: add.assoc [symmetric])
  qed
qed

lemma load_store_bytes:
  assumes "length bs \<le> 2 ^ 64" and "n = length bs"
  shows "load_bytes (store_bytes m a bs) a n = bs"
  using assms by (intro nth_equalityI) (simp_all add: nth_load_bytes store_bytes_inside)

lemma store_bytes_idem [simp]: "store_bytes m a (load_bytes m a n) = m"
  by (induction n arbitrary: a) simp_all

section \<open>Words in memory\<close>

lemma load64_store64 [simp]: "load64 (store64 m a v) a = v"
  by (simp add: load64_def store64_def load_store_bytes from_to_bytes take_bit_word_beyond_length_eq)

lemma load32_store32 [simp]: "load32 (store32 m a v) a = v"
  by (simp add: load32_def store32_def load_store_bytes from_to_bytes take_bit_word_beyond_length_eq)

lemma store64_outside [mem_frame]: "x \<notin> span a 8 \<Longrightarrow> store64 m a v x = m x"
  by (simp add: store64_def store_bytes_outside)

lemma store32_outside [mem_frame]: "x \<notin> span a 4 \<Longrightarrow> store32 m a v x = m x"
  by (simp add: store32_def store_bytes_outside)

lemma load64_cong: "(\<And>x. x \<in> span a 8 \<Longrightarrow> m x = m' x) \<Longrightarrow> load64 m a = load64 m' a"
  unfolding load64_def by (rule arg_cong [where f = from_bytes]) (rule load_bytes_cong)

lemma load32_cong: "(\<And>x. x \<in> span a 4 \<Longrightarrow> m x = m' x) \<Longrightarrow> load32 m a = load32 m' a"
  unfolding load32_def by (rule arg_cong [where f = from_bytes]) (rule load_bytes_cong)

text \<open>Two memories that agree outside a set of written addresses.\<close>

definition same_outside :: "addr set \<Rightarrow> memory \<Rightarrow> memory \<Rightarrow> bool" where
  "same_outside A m m' \<longleftrightarrow> (\<forall>x. x \<notin> A \<longrightarrow> m' x = m x)"

lemma same_outside_refl [simp, intro]: "same_outside A m m"
  by (simp add: same_outside_def)

lemma same_outside_trans [trans]:
  "same_outside A m m' \<Longrightarrow> same_outside B m' m'' \<Longrightarrow> same_outside (A \<union> B) m m''"
  by (simp add: same_outside_def)

lemma same_outside_mono: "same_outside A m m' \<Longrightarrow> A \<subseteq> B \<Longrightarrow> same_outside B m m'"
  by (auto simp: same_outside_def)

lemma same_outside_store64 [intro]: "same_outside (span a 8) m (store64 m a v)"
  by (simp add: same_outside_def mem_frame)

lemma same_outside_store32 [intro]: "same_outside (span a 4) m (store32 m a v)"
  by (simp add: same_outside_def mem_frame)

lemma same_outside_store_bytes [intro]:
  "same_outside (span a (length bs)) m (store_bytes m a bs)"
  by (simp add: same_outside_def store_bytes_outside)

lemma same_outside_memmove [intro]:
  "same_outside (span dst (unat n)) m (memmove m dst src n)"
  by (simp add: same_outside_def memmove_def store_bytes_outside)

lemma same_outside_load64:
  "same_outside A m m' \<Longrightarrow> span a 8 \<inter> A = {} \<Longrightarrow> load64 m' a = load64 m a"
  by (rule load64_cong) (auto simp: same_outside_def)

lemma same_outside_load32:
  "same_outside A m m' \<Longrightarrow> span a 4 \<inter> A = {} \<Longrightarrow> load32 m' a = load32 m a"
  by (rule load32_cong) (auto simp: same_outside_def)

lemma same_outside_load_bytes:
  "same_outside A m m' \<Longrightarrow> span a n \<inter> A = {} \<Longrightarrow> load_bytes m' a n = load_bytes m a n"
  by (rule load_bytes_cong) (auto simp: same_outside_def)

lemma memmove_copies:
  "load_bytes (memmove m dst src n) dst (unat n) = load_bytes m src (unat n)"
  using unat_u64_less [of n]
  by (simp add: memmove_def load_store_bytes less_imp_le)

end
