(* ===== verification/Partitioning.thy ===== *)
theory Partitioning
  imports SMM_Prelude
begin

text \<open>
  Alignment arithmetic and the size classes of \<^verbatim>\<open>SmMalloc/smmalloc.h\<close> (lines 112-114 and
  198-324): \<open>IsAligned\<close>, \<open>Align\<close>, \<open>Min\<close>, the small-float encoding, and the maps between
  request sizes and bucket indices for the three partitioning schemes that the header
  selects at compile time. The scheme is an argument of the model. The interface the
  allocator relies on is the locale \<open>size_classes\<close>; each scheme is an interpretation.
\<close>

section \<open>Alignment\<close>

definition IsAligned :: "size_t \<Rightarrow> size_t \<Rightarrow> bool" where
  "IsAligned v alignment =
     (let lowBits = v AND (alignment - 1) in lowBits = 0)"

definition Align :: "size_t \<Rightarrow> size_t \<Rightarrow> size_t" where
  "Align val alignment =
     (let r = (val + (alignment - 1)) AND NOT (alignment - 1) in r)"

definition Min :: "size_t \<Rightarrow> size_t \<Rightarrow> size_t" where
  "Min a b = (if a < b then a else b)"

text \<open>\<open>GetNextPow2\<close> of \<^verbatim>\<open>smmalloc.cpp\<close>, returning a signed \<open>int\<close>.\<close>

definition GetNextPow2 :: "u32 \<Rightarrow> int" where
  "GetNextPow2 n =
     (let n = n - 1;
          n = n OR drop_bit 16 n;
          n = n OR drop_bit 8 n;
          n = n OR drop_bit 4 n;
          n = n OR drop_bit 2 n;
          n = n OR drop_bit 1 n
      in sint (n + 1))"

section \<open>The small floats of the floating-point partitioning\<close>

definition SMM_MANTISSA_BITS :: nat where
  "SMM_MANTISSA_BITS = 2"

definition SMM_MANTISSA_VALUE :: u32 where
  "SMM_MANTISSA_VALUE = push_bit SMM_MANTISSA_BITS 1"

definition SMM_MANTISSA_MASK :: u32 where
  "SMM_MANTISSA_MASK = SMM_MANTISSA_VALUE - 1"

text \<open>\<open>__builtin_clz\<close>: the zero bits above the highest set bit, here counted from bit 31 down.\<close>

fun clz_below :: "nat \<Rightarrow> u32 \<Rightarrow> nat" where
  "clz_below 0 v = 0"
| "clz_below (Suc k) v = (if bit v k then 0 else Suc (clz_below k v))"

definition lzcnt_nonzero :: "u32 \<Rightarrow> u32" where
  "lzcnt_nonzero v = word_of_nat (clz_below 32 v)"

definition uintToFloatRoundUp :: "u32 \<Rightarrow> u32" where
  "uintToFloatRoundUp sz =
     (let (exp, mantissa) =
        (if sz < SMM_MANTISSA_VALUE then (0, sz)
         else
           let leadingZeros = lzcnt_nonzero sz;
               highestSetBit = 31 - leadingZeros;
               mantissaStartBit = highestSetBit - word_of_nat SMM_MANTISSA_BITS;
               exp = mantissaStartBit + 1;
               mantissa = drop_bit (unat mantissaStartBit) sz AND SMM_MANTISSA_MASK;
               lowBitsMask = push_bit (unat mantissaStartBit) 1 - 1
           in (exp, if sz AND lowBitsMask \<noteq> 0 then mantissa + 1 else mantissa))
      in push_bit SMM_MANTISSA_BITS exp + mantissa)"

definition floatToUint :: "u32 \<Rightarrow> u32" where
  "floatToUint floatValue =
     (let exponent = drop_bit SMM_MANTISSA_BITS floatValue;
          mantissa = floatValue AND SMM_MANTISSA_MASK
      in if exponent = 0 then mantissa
         else push_bit (unat (exponent - 1)) (mantissa OR SMM_MANTISSA_VALUE))"

section \<open>Bucket indices and bucket sizes\<close>

datatype partitioning = SMM_LINEAR_PARTITIONING | SMM_FLOAT_PARTITIONING | SMM_PL_PARTITIONING

definition GetBucketIndexBySize :: "partitioning \<Rightarrow> size_t \<Rightarrow> size_t" where
  "GetBucketIndexBySize sch bytesCount =
     (case sch of
        SMM_LINEAR_PARTITIONING \<Rightarrow>
          let bucketIndex = drop_bit 4 (bytesCount - 1) in bucketIndex
      | SMM_FLOAT_PARTITIONING \<Rightarrow>
          let bucketIndex0 = uintToFloatRoundUp (ucast bytesCount);
              bucketIndex = (if bucketIndex0 < 12 then 0 else bucketIndex0 - 12)
          in ucast bucketIndex
      | SMM_PL_PARTITIONING \<Rightarrow>
          let sz = bytesCount - 1;
              p0 = drop_bit 4 sz;
              p1 = 7 + drop_bit 7 sz;
              p2 = 13 + drop_bit 9 sz;
              bucketIndex = (if sz \<le> 127 then p0 else if sz > 1023 then p2 else p1)
          in bucketIndex)"

definition GetBucketSizeInBytesByIndex :: "partitioning \<Rightarrow> size_t \<Rightarrow> size_t" where
  "GetBucketSizeInBytesByIndex sch bucketIndex =
     (case sch of
        SMM_LINEAR_PARTITIONING \<Rightarrow>
          let sizeInBytes = 16 + bucketIndex * 16 in sizeInBytes
      | SMM_FLOAT_PARTITIONING \<Rightarrow>
          let bucketIndex0 = ucast bucketIndex + 12;
              sizeInBytes = floatToUint bucketIndex0
          in ucast sizeInBytes
      | SMM_PL_PARTITIONING \<Rightarrow>
          let p0 = push_bit 4 (bucketIndex + 1);
              p1 = push_bit 7 (bucketIndex - 6);
              p2 = push_bit 9 (bucketIndex - 12);
              sizeInBytes = (if bucketIndex \<le> 7 then p0 else if bucketIndex > 14 then p2 else p1)
          in sizeInBytes)"

text \<open>The request sizes the scheme is made for: the assertions of \<open>GetBucketIndexBySize\<close>
  (a positive size, and below \<open>UINT32_MAX\<close> for the floating-point scheme).\<close>

definition size_request_ok :: "partitioning \<Rightarrow> size_t \<Rightarrow> bool" where
  "size_request_ok sch n = (0 < n \<and> (sch = SMM_FLOAT_PARTITIONING \<longrightarrow> n < 0xFFFFFFFF))"

section \<open>Alignment and size classes over the naturals\<close>

lemma IsAligned_pow2: "IsAligned v (2 ^ k) \<longleftrightarrow> 2 ^ k dvd unat v"
  by (simp add: IsAligned_def Let_def and_mask_dvd_nat flip: mask_eq_exp_minus_1)

lemma unat_Align_pow2:
  assumes "k < 64" and "unat v + (2 ^ k - 1) < 2 ^ 64"
  shows "unat (Align v (2 ^ k)) = (unat v + (2 ^ k - 1)) div 2 ^ k * 2 ^ k"
proof -
  have m: "unat (2 ^ k - 1 :: u64) = 2 ^ k - 1"
    using assms(1) by (simp add: unat_diff_small unat_pow2)
  have s: "unat (v + (2 ^ k - 1)) = unat v + (2 ^ k - 1)"
    using assms(2) m by (simp add: unat_add_small)
  have "Align v (2 ^ k) = push_bit k (drop_bit k (v + (2 ^ k - 1)))"
    unfolding Align_def Let_def mask_eq_exp_minus_1 [symmetric]
    by (rule bit_word_eqI) (auto simp: bit_simps)
  moreover have "unat (drop_bit k (v + (2 ^ k - 1))) * 2 ^ k < 2 ^ LENGTH(64)"
  proof -
    have "(unat v + (2 ^ k - 1)) div 2 ^ k * 2 ^ k \<le> unat v + (2 ^ k - 1)"
      by (rule div_times_less_eq_dividend)
    then have "(unat v + (2 ^ k - 1)) div 2 ^ k * 2 ^ k < 2 ^ 64"
      using assms(2) by (rule le_less_trans)
    then show ?thesis by (simp add: unat_drop_bit s)
  qed
  ultimately show ?thesis by (simp add: unat_push_bit_small unat_drop_bit s)
qed

lemma linear_index: "n \<noteq> 0 \<Longrightarrow> unat (GetBucketIndexBySize SMM_LINEAR_PARTITIONING n) = (unat n - 1) div 16"
  by (simp add: GetBucketIndexBySize_def unat_drop_bit unat_pred)

lemma linear_size: "unat i < 2 ^ 50 \<Longrightarrow> unat (GetBucketSizeInBytesByIndex SMM_LINEAR_PARTITIONING i) = (unat i + 1) * 16"
  by (simp add: GetBucketSizeInBytesByIndex_def unat_word_ariths)

lemma pl_index: "n \<noteq> 0 \<Longrightarrow> unat (GetBucketIndexBySize SMM_PL_PARTITIONING n) =
    (if unat n \<le> 128 then (unat n - 1) div 16
     else if unat n \<le> 1024 then 7 + (unat n - 1) div 128
     else 13 + (unat n - 1) div 512)"
  using unat_u64_less [of n]
  by (auto simp add: GetBucketIndexBySize_def Let_def unat_drop_bit unat_pred word_le_nat_alt word_less_nat_alt unat_word_ariths)

lemma pl_size: "unat i < 2 ^ 50 \<Longrightarrow> unat (GetBucketSizeInBytesByIndex SMM_PL_PARTITIONING i) =
    (if unat i \<le> 7 then (unat i + 1) * 16
     else if unat i \<le> 14 then (unat i - 6) * 128
     else (unat i - 12) * 512)"
  by (auto simp add: GetBucketSizeInBytesByIndex_def Let_def word_le_nat_alt word_less_nat_alt unat_push_bit_small
     unat_add_small unat_diff_small)

lemma clz_below_spec:
  "v \<noteq> 0 \<Longrightarrow> unat v < 2 ^ k \<Longrightarrow>
     clz_below k v < k \<and> 2 ^ (k - 1 - clz_below k v) \<le> unat v \<and> unat v < 2 ^ (k - clz_below k v)"
proof (induction k)
  case 0
  then show ?case by (simp add: word_eq_iff_unat)
next
  case (Suc k)
  show ?case
  proof (cases "bit v k")
    case True
    then have "odd (unat v div 2 ^ k)" by (simp add: bit_unat)
    then have "unat v div 2 ^ k \<noteq> 0" by (intro notI) simp
    then have "2 ^ k \<le> unat v" by (simp add: div_eq_0_iff not_less)
    with True Suc.prems show ?thesis by simp
  next
    case False
    have "unat v div 2 ^ k < 2" using Suc.prems by (simp add: less_mult_imp_div_less)
    with False have "unat v div 2 ^ k = 0" by (auto simp: bit_unat less_2_cases_iff)
    then have "unat v < 2 ^ k" by (simp add: div_eq_0_iff)
    with Suc False show ?thesis by simp
  qed
qed

lemma SMM_MANTISSA [simp]: "SMM_MANTISSA_BITS = 2" "SMM_MANTISSA_VALUE = 4" "SMM_MANTISSA_MASK = 3"
  by (simp_all add: SMM_MANTISSA_BITS_def SMM_MANTISSA_VALUE_def SMM_MANTISSA_MASK_def)

lemma uintToFloat_normal:
  assumes lo: "2 ^ (m + 2) \<le> unat v" and hi: "unat v < 2 ^ (m + 3)"
  shows "unat (uintToFloatRoundUp v) = 4 * m + ((unat v - 1) div 2 ^ m + 1)"
proof -
  have v4: "\<not> v < 4" using lo le_trans [of 4 "2 ^ (m + 2)" "unat v"]
    by (simp add: word_less_nat_alt not_less)
  have "2 ^ (m + 2) < (2 :: nat) ^ 32" using lo unat_u32_less [of v] by simp
  then have "m + 2 < 32" by (rule power_less_imp_less_exp [rotated]) simp
  then have m: "m \<le> 29" by simp
  have v0: "v \<noteq> 0" using lo by auto
  define c where "c = clz_below 32 v"
  have c: "c < 32" "2 ^ (31 - c) \<le> unat v" "unat v < 2 ^ (32 - c)"
    using clz_below_spec [OF v0, of 32] unat_u32_less [of v] by (simp_all add: c_def)
  have "2 ^ (31 - c) < (2 :: nat) ^ (m + 3)" "2 ^ (m + 2) < (2 :: nat) ^ (32 - c)"
    using c(2,3) lo hi by linarith+
  then have "31 - c < m + 3" "m + 2 < 32 - c"
    by (simp_all only: power_strict_increasing_iff)
  then have cm: "c = 29 - m" using m c(1) by linarith
  have lz: "lzcnt_nonzero v = word_of_nat (29 - m)"
    by (simp add: lzcnt_nonzero_def cm flip: c_def)
  have "unat (31 - (word_of_nat (29 - m) :: u32) - 2) = m"
  proof -
    have "unat (word_of_nat (29 - m) :: u32) = 29 - m" by (rule unat_of_nat_small) simp
    moreover have "unat (word_of_nat m :: u32) = m" by (rule unat_of_nat_small) (use m in simp)
    ultimately show ?thesis using m by (simp add: unat_diff_small)
  qed
  then have st: "unat (31 - lzcnt_nonzero v - 2) = m" by (simp add: lz)
  define q where "q = unat v div 2 ^ m"
  have q: "4 \<le> q" "q < 8"
    using lo hi by (simp_all add: q_def less_eq_div_iff_mult_less_eq less_mult_imp_div_less power_add mult.commute)
  have man: "unat (drop_bit m v AND 3) = q - 4"
  proof -
    have "q mod 4 = q - 4" using q by presburger
    then show ?thesis by (simp add: unat_and_3 unat_drop_bit q_def)
  qed
  have low: "v AND (push_bit m 1 - 1) = 0 \<longleftrightarrow> unat v mod 2 ^ m = 0"
    by (simp add: word_eq_iff_unat unat_and_mask push_bit_of_1 flip: mask_eq_exp_minus_1)
  have ex: "unat (push_bit 2 (31 - lzcnt_nonzero v - 2 + 1)) = 4 * (m + 1)"
  proof -
    have "unat (31 - lzcnt_nonzero v - 2 + 1) = m + 1"
      using m st by (subst unat_add_small) simp_all
    with m show ?thesis by (subst unat_push_bit_small) simp_all
  qed
  have dv: "(unat v - 1) div 2 ^ m + 1 = q + (if unat v mod 2 ^ m = 0 then 0 else 1)"
    unfolding q_def by (rule ceil_div) (use v0 in \<open>simp_all add: unat_gt_0\<close>)
  define mant where "mant = (if v AND (push_bit m 1 - 1) \<noteq> 0 then (drop_bit m v AND 3) + 1 else drop_bit m v AND 3)"
  have mant: "unat mant = (unat v - 1) div 2 ^ m + 1 - 4"
    using man q unfolding mant_def dv low by (auto simp: unat_add_small)
  have "uintToFloatRoundUp v = push_bit 2 (31 - lzcnt_nonzero v - 2 + 1) + mant"
    using v4 st by (simp add: uintToFloatRoundUp_def Let_def mant_def)
  moreover have "(unat v - 1) div 2 ^ m + 1 \<le> 8" "4 \<le> (unat v - 1) div 2 ^ m + 1"
    unfolding dv using q by simp_all
  ultimately show ?thesis using m ex mant
    by (simp add: unat_add_small)
qed

lemma floatToUint_normal:
  assumes "4 \<le> unat f" and "unat f < 124"
  shows "unat (floatToUint f) = (4 + unat f mod 4) * 2 ^ (unat f div 4 - 1)"
proof -
  have e: "unat (drop_bit 2 f) = unat f div 4" by (simp add: unat_drop_bit)
  with assms have e0: "drop_bit 2 f \<noteq> 0" by (auto simp: word_eq_iff_unat)
  have e1: "unat (drop_bit 2 f - 1) = unat f div 4 - 1"
    using assms by (simp add: unat_diff_small e)
  have "f AND 3 OR 4 = (f AND 3) + 4"
    by (rule disjunctive_add_eq_or [symmetric]) (simp add: and.assoc)
  moreover have "unat ((f AND 3) + 4) = 4 + unat f mod 4"
    by (subst unat_add_small) (simp_all add: unat_and_3)
  ultimately have ma: "unat (f AND 3 OR 4) = 4 + unat f mod 4" by simp
  have "unat f div 4 - 1 \<le> 29" using assms by linarith
  then have "(2::nat) ^ (unat f div 4 - 1) \<le> 2 ^ 29" by (rule power_increasing) simp
  then have "(4 + unat f mod 4) * 2 ^ (unat f div 4 - 1) \<le> 7 * 2 ^ 29"
    by (intro mult_le_mono) simp_all
  then have "unat (push_bit (unat f div 4 - 1) (f AND 3 OR 4)) = (4 + unat f mod 4) * 2 ^ (unat f div 4 - 1)"
    by (subst unat_push_bit_small) (simp_all add: ma)
  then show ?thesis using e0 by (simp add: floatToUint_def e1)
qed

lemma float_size:
  assumes "unat i < 112"
  shows "unat (GetBucketSizeInBytesByIndex SMM_FLOAT_PARTITIONING i) =
           (4 + unat i mod 4) * 2 ^ (unat i div 4 + 2)"
proof -
  have "unat (ucast i + 12 :: u32) = unat i + 12"
    using assms by (subst unat_add_small) (simp_all add: unat_ucast_u64_u32)
  moreover have "(unat i + 12) mod 4 = unat i mod 4" "(unat i + 12) div 4 - 1 = unat i div 4 + 2"
    by presburger+
  ultimately have "unat (floatToUint (ucast i + 12)) = (4 + unat i mod 4) * 2 ^ (unat i div 4 + 2)"
    using assms floatToUint_normal [of "ucast i + 12"] by simp
  then show ?thesis by (simp add: GetBucketSizeInBytesByIndex_def)
qed

lemma float_index_small:
  assumes "unat n \<le> 16"
  shows "GetBucketIndexBySize SMM_FLOAT_PARTITIONING n = 0"
proof -
  have u: "unat (ucast n :: u32) = unat n" using assms by (simp add: unat_ucast_u64_u32)
  consider "unat n < 4" | "4 \<le> unat n" "unat n < 8" | "8 \<le> unat n" "unat n < 16" | "unat n = 16"
    using assms by linarith
  then have "unat (uintToFloatRoundUp (ucast n)) \<le> 12"
  proof cases
    case 1
    then have "uintToFloatRoundUp (ucast n) = ucast n"
      by (simp add: uintToFloatRoundUp_def word_less_nat_alt u)
    with 1 show ?thesis by (simp add: u)
  next
    case 2
    then show ?thesis using uintToFloat_normal [of 0 "ucast n"] by (simp add: u)
  next
    case 3
    then show ?thesis using uintToFloat_normal [of 1 "ucast n"] by (simp add: u) 
  next
    case 4
    then show ?thesis using uintToFloat_normal [of 2 "ucast n"] by (simp add: u)
  qed
  then consider "uintToFloatRoundUp (ucast n) < 12" | "uintToFloatRoundUp (ucast n) = 12"
    by (fastforce simp: word_less_nat_alt word_eq_iff_unat le_less)
  then show ?thesis by cases (simp_all add: GetBucketIndexBySize_def Let_def)
qed

lemma float_index_normal:
  assumes "2 ^ (m + 2) \<le> unat n" "unat n < 2 ^ (m + 3)" "unat n < 2 ^ 32" "2 \<le> m"
  shows "unat (GetBucketIndexBySize SMM_FLOAT_PARTITIONING n) = 4 * m + ((unat n - 1) div 2 ^ m + 1) - 12"
proof -
  have u: "unat (ucast n :: u32) = unat n" using assms by (simp add: unat_ucast_u64_u32)
  have f: "unat (uintToFloatRoundUp (ucast n)) = 4 * m + ((unat n - 1) div 2 ^ m + 1)"
    using uintToFloat_normal [of m "ucast n"] assms by (simp add: u)
  have "3 \<le> (unat n - 1) div 2 ^ m"
  proof -
    have "3 * 2 ^ m \<le> unat n - 1" using assms(1) by (simp add: power_add) 
    then show ?thesis by (simp add: less_eq_div_iff_mult_less_eq)
  qed
  then have "\<not> uintToFloatRoundUp (ucast n) < 12" using assms(4) by (simp add: word_less_nat_alt f)
  then show ?thesis by (simp add: GetBucketIndexBySize_def Let_def unat_diff_small word_less_nat_alt not_less f)
qed

section \<open>The interface of the size classes\<close>

text \<open>
  What the allocator relies on. \<open>idx\<close> maps a request size to a bucket, \<open>sz\<close> a bucket to its
  element size, for the 62 buckets of \<open>SMM_MAX_BUCKET_COUNT\<close>: the element is large enough,
  the next smaller class would not be, sizes grow strictly, and an aligned request size
  lands in a class whose element size has the same alignment.
\<close>

locale size_classes =
  fixes idx :: "size_t \<Rightarrow> size_t"
    and sz :: "size_t \<Rightarrow> size_t"
    and ok :: "size_t \<Rightarrow> bool"
  assumes fits: "ok n \<Longrightarrow> idx n < 62 \<Longrightarrow> n \<le> sz (idx n)"
    and tight: "ok n \<Longrightarrow> idx n = i + 1 \<Longrightarrow> i < 61 \<Longrightarrow> sz i < n"
    and large: "ok n \<Longrightarrow> \<not> idx n < 62 \<Longrightarrow> sz 61 < n"
    and aligned: "ok n \<Longrightarrow> idx n < 62 \<Longrightarrow> IsAligned n (2 ^ k) \<Longrightarrow> IsAligned (sz (idx n)) (2 ^ k)"
    and sz_step: "i < 61 \<Longrightarrow> sz i < sz (i + 1)"
    and sz_ok: "i < 62 \<Longrightarrow> ok (sz i)"
    and sz_first: "sz 0 = 16"
    and sz_last: "sz 61 \<le> 2 ^ 20"
begin

lemma sz_less: "i < j \<Longrightarrow> j < 62 \<Longrightarrow> sz i < sz j"
proof (induction "unat j - unat i - 1" arbitrary: j)
  case 0
  then have "j = i + 1"
    by (simp add: word_less_nat_alt word_eq_iff_unat unat_add_small)
  moreover have "i < 61" using 0 by (simp add: word_less_nat_alt)
  ultimately show ?case using sz_step by simp
next
  case (Suc d)
  have j1: "unat (j - 1) = unat j - 1"
    using Suc.prems by (simp add: unat_diff_small word_less_nat_alt)
  have "sz i < sz (j - 1)"
    using Suc by (intro Suc.hyps(1)) (simp_all add: j1 word_less_nat_alt)
  also have "sz (j - 1) < sz (j - 1 + 1)"
    using Suc.prems by (intro sz_step) (simp add: j1 word_less_nat_alt)
  finally show ?case by simp
qed

lemma sz_le: "i \<le> j \<Longrightarrow> j < 62 \<Longrightarrow> sz i \<le> sz j"
  using sz_less [of i j] by (auto simp: order.order_iff_strict)

lemma sz_bounds: "i < 62 \<Longrightarrow> 16 \<le> sz i \<and> sz i \<le> 2 ^ 20"
  using sz_le [of 0 i] sz_le [of i 61] sz_first sz_last
  by (auto simp: word_less_nat_alt word_le_nat_alt)

lemma idx_least:
  assumes "ok n" and "j < 62" and "n \<le> sz j"
  shows "idx n \<le> j"
proof (rule ccontr)
  assume gt: "\<not> idx n \<le> j"
  show False
  proof (cases "idx n < 62")
    case True
    define i where "i = idx n - 1"
    have i: "idx n = i + 1" "j \<le> i" "i < 61"
      using True gt by (auto simp: i_def word_le_nat_alt word_less_nat_alt unat_diff_small not_le)
    then have "sz j \<le> sz i" by (intro sz_le) (auto simp: word_less_nat_alt)
    also have "sz i < n" using i assms(1) by (intro tight) simp_all
    finally show False using assms(3) by simp
  next
    case False
    have "sz j \<le> sz 61" using assms(2) by (intro sz_le) (simp_all add: word_less_nat_alt word_le_nat_alt)
    also have "sz 61 < n" using False assms(1) by (rule large [rotated])
    finally show False using assms(3) by simp
  qed
qed

lemma idx_sz: 
  assumes "i < 62"
  shows "idx (sz i) = i"
proof -
  have le: "idx (sz i) \<le> i" using assms sz_ok by (intro idx_least) simp_all
  moreover have "\<not> idx (sz i) < i"
  proof
    assume lt: "idx (sz i) < i"
    have "sz i \<le> sz (idx (sz i))"
      using le assms sz_ok by (intro fits) auto
    moreover have "sz (idx (sz i)) < sz i" using lt assms by (rule sz_less)
    ultimately show False by simp
  qed
  ultimately show ?thesis by simp
qed

lemma idx_mono:
  assumes "ok n" "ok n'" "n \<le> n'" "idx n' < 62"
  shows "idx n \<le> idx n'"
  using assms fits [of n'] by (intro idx_least) auto

end

section \<open>The three schemes provide the interface\<close>

lemma size_request_ok_nonzero: "size_request_ok sch n \<Longrightarrow> n \<noteq> 0"
  by (auto simp: size_request_ok_def)

lemma linear_round:
  assumes "n \<noteq> 0" and "GetBucketIndexBySize SMM_LINEAR_PARTITIONING n < 62"
  shows "unat (GetBucketSizeInBytesByIndex SMM_LINEAR_PARTITIONING
           (GetBucketIndexBySize SMM_LINEAR_PARTITIONING n)) = ceil_to (2 ^ 4) (unat n)"
  using assms by (simp add: linear_size linear_index word_less_nat_alt ceil_to_def)

definition pl_unit :: "size_t \<Rightarrow> nat" where
  "pl_unit n = (if unat n \<le> 128 then 4 else if unat n \<le> 1024 then 7 else 9)"

lemma pl_round:
  assumes "n \<noteq> 0" and "GetBucketIndexBySize SMM_PL_PARTITIONING n < 62"
  shows "unat (GetBucketSizeInBytesByIndex SMM_PL_PARTITIONING
           (GetBucketIndexBySize SMM_PL_PARTITIONING n)) = ceil_to (2 ^ pl_unit n) (unat n)"
proof -
  have n0: "0 < unat n" using assms(1) by (simp add: unat_gt_0)
  consider "unat n \<le> 128" | "128 < unat n" "unat n \<le> 1024" | "1024 < unat n" by linarith
  then show ?thesis
  proof cases
    case 1
    then have "(unat n - 1) div 16 \<le> 7" by simp
    with 1 assms show ?thesis
      by (simp add: pl_size pl_index pl_unit_def word_less_nat_alt ceil_to_def)
  next
    case 2
    then have "1 \<le> (unat n - 1) div 128" "(unat n - 1) div 128 \<le> 7" by linarith+
    with 2 assms show ?thesis
      by (simp add: pl_size pl_index pl_unit_def word_less_nat_alt ceil_to_def)
  next
    case 3
    then have "2 \<le> (unat n - 1) div 512" by linarith
    with 3 assms show ?thesis
      by (simp add: pl_size pl_index pl_unit_def word_less_nat_alt ceil_to_def)
  qed
qed

lemma IsAligned_round:
  assumes "n \<noteq> 0" and "unat r = ceil_to (2 ^ j) (unat n)" and "IsAligned n (2 ^ k)"
  shows "IsAligned r (2 ^ k)"
  using assms by (simp add: IsAligned_pow2 ceil_to_pow2_dvd unat_gt_0)

interpretation linear: size_classes "GetBucketIndexBySize SMM_LINEAR_PARTITIONING"
  "GetBucketSizeInBytesByIndex SMM_LINEAR_PARTITIONING" "size_request_ok SMM_LINEAR_PARTITIONING"
proof (unfold_locales, goal_cases)
  case (1 n)
  then show ?case
    using ceil_to_ge [of 16 "unat n"] linear_round [of n]
    by (simp add: size_request_ok_def word_le_nat_alt word_gt_0)
next
  case (2 n i)
  then have "(unat n - 1) div 16 = unat i + 1"
    using linear_index [OF size_request_ok_nonzero [OF 2(1)]] by (simp add: unat_add_small word_less_nat_alt)
  with 2 show ?case
    by (simp add: linear_size word_less_nat_alt)
next
  case (3 n)
  then show ?case
    using linear_index [OF size_request_ok_nonzero [OF 3(1)]]
    by (simp add: linear_size word_less_nat_alt)
next
  case (4 n k)
  then show ?case
    using IsAligned_round [OF _ linear_round [of n], of k] by (simp add: size_request_ok_def word_gt_0)
next
  case (5 i)
  then show ?case by (simp add: linear_size unat_add_small word_less_nat_alt)
next
  case (6 i)
  then show ?case by (simp add: size_request_ok_def linear_size word_less_nat_alt)
next
  case 7
  show ?case by (simp add: GetBucketSizeInBytesByIndex_def)
next
  case 8
  show ?case by (simp add: GetBucketSizeInBytesByIndex_def)
qed

interpretation pl: size_classes "GetBucketIndexBySize SMM_PL_PARTITIONING"
  "GetBucketSizeInBytesByIndex SMM_PL_PARTITIONING" "size_request_ok SMM_PL_PARTITIONING"
proof (unfold_locales, goal_cases)
  case (1 n)
  then show ?case
    using ceil_to_ge [of "2 ^ pl_unit n" "unat n"] pl_round [of n]
    by (simp add: size_request_ok_def word_le_nat_alt word_gt_0)
next
  case (2 n i)
  then have "unat (GetBucketIndexBySize SMM_PL_PARTITIONING n) = unat i + 1"
    by (simp add: unat_add_small word_less_nat_alt)
  with 2 show ?case
    using pl_index [OF size_request_ok_nonzero [OF 2(1)]]
    by (auto simp: pl_size word_less_nat_alt pred_div_mult_less split: if_splits)
next
  case (3 n)
  then show ?case
    using pl_index [OF size_request_ok_nonzero [OF 3(1)]]
    by (auto simp: pl_size word_less_nat_alt split: if_splits)
next
  case (4 n k)
  then show ?case
    using IsAligned_round [OF _ pl_round [of n], of k] by (simp add: size_request_ok_def word_gt_0)
next
  case (5 i)
  then show ?case by (auto simp: pl_size unat_add_small word_less_nat_alt)
next
  case (6 i)
  then show ?case by (simp add: size_request_ok_def pl_size word_less_nat_alt)
next
  case 7
  show ?case by (simp add: GetBucketSizeInBytesByIndex_def)
next
  case 8
  show ?case by (simp add: GetBucketSizeInBytesByIndex_def)
qed

lemma float_ivl:
  assumes "16 < unat n"
  obtains m where "2 \<le> m" "2 ^ (m + 2) \<le> unat n" "unat n < 2 ^ (m + 3)"
proof -
  obtain e where e: "(2::nat) ^ e \<le> unat n" "unat n < 2 ^ (e + 1)"
    using ex_power_ivl1 [of 2 "unat n"] assms by auto
  have "(2 :: nat) ^ 4 < 2 ^ (e + 1)" using e(2) assms by simp
  then have "4 < e + 1" by (rule power_less_imp_less_exp [rotated]) simp
  then have "e = (e - 2) + 2" "2 \<le> e - 2" by simp_all
  then obtain m where "e = m + 2" "2 \<le> m" by blast
  with e show thesis by (intro that [of m]) (simp_all add: power_add)
qed

lemma float_code_size:
  assumes "4 \<le> c" "c \<le> 8" "2 \<le> m" and i: "unat i = 4 * m + c - 12" "unat i < 112"
  shows "unat (GetBucketSizeInBytesByIndex SMM_FLOAT_PARTITIONING i) = c * 2 ^ m"
proof (cases "c = 8")
  case True
  then have "unat i = 4 * (m - 1)" using assms by simp
  then have "unat (GetBucketSizeInBytesByIndex SMM_FLOAT_PARTITIONING i) = 4 * 2 ^ (m - 1 + 2)"
    using float_size [OF i(2)] by simp
  also have "\<dots> = c * 2 ^ m" using assms(3) True by (cases m) simp_all
  finally show ?thesis .
next
  case False
  then have "unat i = 4 * (m - 2) + (c - 4)" using assms by simp
  moreover have "c - 4 < 4" using False assms by simp
  ultimately have "unat i mod 4 = c - 4" "unat i div 4 = m - 2" by simp_all
  moreover have "m - 2 + 2 = m" using assms(3) by simp
  ultimately have "unat (GetBucketSizeInBytesByIndex SMM_FLOAT_PARTITIONING i) = (4 + (c - 4)) * 2 ^ m"
    using float_size [OF i(2)] by (simp only:)
  then show ?thesis using assms(1) by simp
qed

lemma float_ceil_bounds:
  assumes "2 ^ (m + 2) \<le> n" "n < 2 ^ (m + 3)"
  shows "4 \<le> (n - 1) div 2 ^ m + 1" "(n - 1) div 2 ^ m + 1 \<le> (8 :: nat)"
proof -
  have "3 * 2 ^ m \<le> n - 1" using assms(1) by (simp add: power_add)
  then show "4 \<le> (n - 1) div 2 ^ m + 1" by (simp add: less_eq_div_iff_mult_less_eq)
  have "(n - 1) div 2 ^ m < 8"
    using assms by (intro less_mult_imp_div_less) (simp add: power_add)
  then show "(n - 1) div 2 ^ m + 1 \<le> 8" by simp
qed

lemma float_round:
  assumes "n < 0xFFFFFFFF" and "16 < unat n"
    and "2 \<le> m" "2 ^ (m + 2) \<le> unat n" "unat n < 2 ^ (m + 3)"
    and "GetBucketIndexBySize SMM_FLOAT_PARTITIONING n < 62"
  shows "unat (GetBucketSizeInBytesByIndex SMM_FLOAT_PARTITIONING
           (GetBucketIndexBySize SMM_FLOAT_PARTITIONING n)) = ceil_to (2 ^ m) (unat n)"
proof -
  have "unat n < 2 ^ 32" using assms(1) by (simp add: word_less_nat_alt)
  then have "unat (GetBucketIndexBySize SMM_FLOAT_PARTITIONING n) =
      4 * m + ((unat n - 1) div 2 ^ m + 1) - 12"
    using assms by (intro float_index_normal) simp_all
  from float_code_size [OF float_ceil_bounds [OF assms(4,5)] assms(3) this] assms(6)
  show ?thesis by (simp add: ceil_to_def word_less_nat_alt)
qed

lemma float_tight:
  assumes "n < 0xFFFFFFFF" "GetBucketIndexBySize SMM_FLOAT_PARTITIONING n = i + 1" "i < 61"
  shows "GetBucketSizeInBytesByIndex SMM_FLOAT_PARTITIONING i < n"
proof -
  have i: "unat (i + 1) = unat i + 1" using assms(3) by (simp add: unat_add_small word_less_nat_alt)
  have "16 < unat n"
    using assms(2) i float_index_small [of n] by (cases "16 < unat n") auto
  then obtain m where m: "2 \<le> m" "2 ^ (m + 2) \<le> unat n" "unat n < 2 ^ (m + 3)" by (rule float_ivl)
  define c where "c = (unat n - 1) div 2 ^ m + 1"
  have c: "4 \<le> c" "c \<le> 8" unfolding c_def using float_ceil_bounds [OF m(2,3)] .
  have ic: "unat i + 1 = 4 * m + c - 12"
    using float_index_normal [OF m(2,3) _ m(1)] assms(1,2) i by (simp add: c_def word_less_nat_alt)
  have i112: "unat i < 112" using assms(3) by (simp add: word_less_nat_alt)
  have "unat (GetBucketSizeInBytesByIndex SMM_FLOAT_PARTITIONING i) < unat n"
  proof (cases "c = 4")
    case False
    have "unat (GetBucketSizeInBytesByIndex SMM_FLOAT_PARTITIONING i) = (c - 1) * 2 ^ m"
      using False c m(1) ic i112 by (intro float_code_size) simp_all
    also have "\<dots> < unat n"
      using pred_div_mult_less [of "unat n" "2 ^ m"] \<open>16 < unat n\<close> by (simp add: c_def)
    finally show ?thesis .
  next
    case True
    have m2: "3 \<le> m" using True ic by simp
    have "unat (GetBucketSizeInBytesByIndex SMM_FLOAT_PARTITIONING i) = 7 * 2 ^ (m - 1)"
      using True m2 ic i112 by (intro float_code_size) simp_all
    also have "\<dots> < 2 ^ (m + 2)" using m2 by (cases m) (simp_all add: power_add)
    also note m(2)
    finally show ?thesis .
  qed
  then show ?thesis by (simp add: word_less_nat_alt)
qed

lemma float_large:
  assumes "n < 0xFFFFFFFF" "\<not> GetBucketIndexBySize SMM_FLOAT_PARTITIONING n < 62"
  shows "655360 < unat n"
proof (rule ccontr)
  assume le: "\<not> 655360 < unat n"
  have "16 < unat n"
    using assms(2) float_index_small [of n] by (cases "16 < unat n") auto
  then obtain m where m: "2 \<le> m" "2 ^ (m + 2) \<le> unat n" "unat n < 2 ^ (m + 3)" by (rule float_ivl)
  have "(2 :: nat) ^ (m + 2) < 2 ^ 20" using m(2) le by simp
  then have "m + 2 < 20" by (rule power_less_imp_less_exp [rotated]) simp
  then have m17: "m \<le> 17" by simp
  have ix: "unat (GetBucketIndexBySize SMM_FLOAT_PARTITIONING n) = 4 * m + ((unat n - 1) div 2 ^ m + 1) - 12"
    using float_index_normal [OF m(2,3) _ m(1)] assms(1) by (simp add: word_less_nat_alt)
  show False
  proof (cases "m = 17")
    case True
    have "(unat n - 1) div 131072 \<le> 4" using le by linarith
    then show False using ix assms(2) True by (simp add: word_less_nat_alt)
  next
    case False
    then show False using ix assms(2) m17 float_ceil_bounds(2) [OF m(2,3)]
      by (simp add: word_less_nat_alt)
  qed
qed

lemma float_aligned:
  assumes "size_request_ok SMM_FLOAT_PARTITIONING n" "GetBucketIndexBySize SMM_FLOAT_PARTITIONING n < 62"
    and "IsAligned n (2 ^ k)"
  shows "IsAligned (GetBucketSizeInBytesByIndex SMM_FLOAT_PARTITIONING
           (GetBucketIndexBySize SMM_FLOAT_PARTITIONING n)) (2 ^ k)"
proof (cases "16 < unat n")
  case True
  then obtain m where m: "2 \<le> m" "2 ^ (m + 2) \<le> unat n" "unat n < 2 ^ (m + 3)" by (rule float_ivl)
  from IsAligned_round [OF size_request_ok_nonzero [OF assms(1)] float_round [OF _ True m assms(2)] assms(3)]
  show ?thesis using assms(1) by (simp add: size_request_ok_def)
next
  case False
  have d: "2 ^ k dvd unat n" using assms(3) by (simp add: IsAligned_pow2)
  then have "2 ^ k \<le> unat n"
    using size_request_ok_nonzero [OF assms(1)] by (intro dvd_imp_le) (simp_all add: unat_gt_0)
  then have "(2 :: nat) ^ k \<le> 2 ^ 4" using False by simp
  then have "k \<le> 4" by (rule power_le_imp_le_exp [rotated]) simp
  then have "(2 :: nat) ^ k dvd 2 ^ 4" by (rule le_imp_power_dvd)
  then show ?thesis
    using False float_index_small [of n] by (simp add: IsAligned_pow2 float_size)
qed

interpretation float: size_classes "GetBucketIndexBySize SMM_FLOAT_PARTITIONING"
  "GetBucketSizeInBytesByIndex SMM_FLOAT_PARTITIONING" "size_request_ok SMM_FLOAT_PARTITIONING"
proof (unfold_locales, goal_cases)
  case (1 n)
  show ?case
  proof (cases "16 < unat n")
    case True
    then obtain m where m: "2 \<le> m" "2 ^ (m + 2) \<le> unat n" "unat n < 2 ^ (m + 3)" by (rule float_ivl)
    show ?thesis
      using float_round [OF _ True m 1(2)] ceil_to_ge [of "2 ^ m" "unat n"] 1(1)
      by (simp add: word_le_nat_alt size_request_ok_def)
  next
    case False
    then show ?thesis using float_index_small [of n] by (simp add: word_le_nat_alt float_size)
  qed
next
  case (2 n i)
  then show ?case by (intro float_tight) (simp_all add: size_request_ok_def)
next
  case (3 n)
  then show ?case using float_large [of n]
    by (simp add: word_less_nat_alt float_size size_request_ok_def)
next
  case (4 n k)
  then show ?case by (rule float_aligned)
next
  case (5 i)
  define a r where "a = unat i div 4" and "r = unat i mod 4"
  have i1: "unat (i + 1) = unat i + 1" "unat i < 61" using 5 by (simp_all add: unat_add_small word_less_nat_alt)
  have "r < 4" by (simp add: r_def)
  show ?case
  proof (cases "r = 3")
    case True
    then have "(unat i + 1) mod 4 = 0" "(unat i + 1) div 4 = a + 1" unfolding a_def r_def by presburger+
    then show ?thesis using i1 True by (simp add: float_size word_less_nat_alt a_def r_def)
  next
    case False
    then have "(unat i + 1) mod 4 = r + 1" "(unat i + 1) div 4 = a" unfolding a_def r_def by presburger+
    then show ?thesis using i1 by (simp add: float_size word_less_nat_alt a_def r_def)
  qed
next
  case (6 i)
  have "unat (GetBucketSizeInBytesByIndex SMM_FLOAT_PARTITIONING i) \<le> 7 * 2 ^ 17"
  proof -
    have "unat i div 4 + 2 \<le> 17" using 6 by (simp add: word_less_nat_alt) 
    then have "(2::nat) ^ (unat i div 4 + 2) \<le> 2 ^ 17" by (rule power_increasing) simp
    then have "(4 + unat i mod 4) * 2 ^ (unat i div 4 + 2) \<le> 7 * 2 ^ 17" by (intro mult_le_mono) simp_all
    then show ?thesis using 6 by (simp add: float_size word_less_nat_alt)
  qed
  moreover have "0 < unat (GetBucketSizeInBytesByIndex SMM_FLOAT_PARTITIONING i)"
    using 6 by (simp add: float_size word_less_nat_alt)
  ultimately show ?case by (simp add: size_request_ok_def word_less_nat_alt)
next
  case 7
  show ?case by (simp add: word_eq_iff_unat float_size)
next
  case 8
  show ?case by (simp add: word_le_nat_alt float_size)
qed

interpretation classes: size_classes "GetBucketIndexBySize sch"
  "GetBucketSizeInBytesByIndex sch" "size_request_ok sch" for sch
  by (cases sch) (simp_all add: linear.size_classes_axioms float.size_classes_axioms pl.size_classes_axioms)

section \<open>The search for the next bucket with a proper alignment\<close>

text \<open>
  The inner loop of \<open>Allocator::Allocate\<close>: \<^verbatim>\<open>do { bucketIndex++; } while (!IsAligned(...))\<close>.
  It has no bound in the source. It ends because every scheme, computed in its machine
  width, has an index whose size is 0 (\<open>stop_index\<close>), and 0 is aligned to anything.
\<close>

definition stop_index :: "partitioning \<Rightarrow> size_t" where
  "stop_index sch = (case sch of
     SMM_LINEAR_PARTITIONING \<Rightarrow> 2 ^ 60 - 1 | SMM_FLOAT_PARTITIONING \<Rightarrow> 2 ^ 32 - 12 | SMM_PL_PARTITIONING \<Rightarrow> 12 + 2 ^ 55)"

lemma stop_index_size: "GetBucketSizeInBytesByIndex sch (stop_index sch) = 0"
  by (cases sch) (simp_all add: stop_index_def GetBucketSizeInBytesByIndex_def floatToUint_def)

lemma stop_index_aligned: "IsAligned (GetBucketSizeInBytesByIndex sch (stop_index sch)) alignment"
  by (simp add: stop_index_size IsAligned_def)

function next_bucket :: "partitioning \<Rightarrow> size_t \<Rightarrow> size_t \<Rightarrow> size_t" where
  "next_bucket sch alignment bucketIndex =
     (let bucketIndex' = bucketIndex + 1
      in if \<not> IsAligned (GetBucketSizeInBytesByIndex sch bucketIndex') alignment
         then next_bucket sch alignment bucketIndex'
         else bucketIndex')"
  by pat_completeness auto
termination
proof (relation "measure (\<lambda>(sch, alignment, i). unat (stop_index sch - 1 - i))", goal_cases)
  case 1
  show ?case by simp
next
  case (2 sch alignment i i')
  then have "i + 1 \<noteq> stop_index sch" using stop_index_aligned by auto
  then have "stop_index sch - 1 - i \<noteq> 0" by (metis diff_add_cancel diff_eq_eq eq_iff_diff_eq_0)
  then have "unat (stop_index sch - 1 - i - 1) < unat (stop_index sch - 1 - i)"
    using unat_pred [of "stop_index sch - 1 - i"] unat_gt_0 [of "stop_index sch - 1 - i"] by linarith
  then show ?case using 2 by (simp add: algebra_simps)
qed

declare next_bucket.simps [simp del]

lemma next_bucket_aligned: "IsAligned (GetBucketSizeInBytesByIndex sch (next_bucket sch alignment i)) alignment"
proof (induction sch alignment i rule: next_bucket.induct)
  case (1 sch alignment i)
  then show ?case by (subst next_bucket.simps) (simp add: Let_def)
qed

lemma next_bucket_greater:
  "i < stop_index sch \<Longrightarrow> i < next_bucket sch alignment i"
proof (induction sch alignment i rule: next_bucket.induct)
  case (1 sch alignment i)
  have lt: "i < i + 1" using 1(2) by (simp add: word_less_nat_alt unat_Suc_less)
  show ?case
  proof (cases "IsAligned (GetBucketSizeInBytesByIndex sch (i + 1)) alignment")
    case True
    then show ?thesis using lt by (subst next_bucket.simps) (simp add: Let_def)
  next
    case False
    then have "i + 1 \<noteq> stop_index sch" using stop_index_aligned by auto
    then have "i + 1 < stop_index sch" using 1(2) by (metis inc_le order_less_le)
    then have "i + 1 < next_bucket sch alignment (i + 1)" using 1(1) False by simp
    with lt have "i < next_bucket sch alignment (i + 1)" by (rule less_trans)
    then show ?thesis using False by (subst next_bucket.simps) (simp add: Let_def)
  qed
qed

lemma next_bucket_least:
  "i < j \<Longrightarrow> j < next_bucket sch alignment i \<Longrightarrow> \<not> IsAligned (GetBucketSizeInBytesByIndex sch j) alignment"
proof (induction sch alignment i rule: next_bucket.induct)
  case (1 sch alignment i)
  have ij: "i + 1 = j \<or> i + 1 < j" using 1(2) by (metis inc_le order_less_le)
  show ?case
  proof (cases "IsAligned (GetBucketSizeInBytesByIndex sch (i + 1)) alignment")
    case True
    then have "next_bucket sch alignment i = i + 1" by (subst next_bucket.simps) (simp add: Let_def)
    with 1(3) ij show ?thesis by auto
  next
    case False
    then have "next_bucket sch alignment i = next_bucket sch alignment (i + 1)"
      by (subst next_bucket.simps) (simp add: Let_def)
    with 1 ij False show ?thesis by auto
  qed
qed

section \<open>Further facts\<close>

lemma Align_aligned:
  "k < 64 \<Longrightarrow> unat v + (2 ^ k - 1) < 2 ^ 64 \<Longrightarrow> IsAligned (Align v (2 ^ k)) (2 ^ k)"
  by (simp add: IsAligned_pow2 unat_Align_pow2)

lemma Align_ge:
  assumes "k < 64" and "unat v + (2 ^ k - 1) < 2 ^ 64"
  shows "v \<le> Align v (2 ^ k)"
proof -
  let ?u = "2 ^ k :: nat" and ?n = "unat v"
  have "?n + (?u - 1) = (?n + (?u - 1)) div ?u * ?u + (?n + (?u - 1)) mod ?u"
    by (simp only: div_mult_mod_eq)
  moreover have "(?n + (?u - 1)) mod ?u < ?u" by simp
  ultimately have "?n \<le> (?n + (?u - 1)) div ?u * ?u" by linarith
  then show ?thesis using unat_Align_pow2 [OF assms] by (simp add: word_le_nat_alt)
qed

lemma Align_least:
  assumes "k < 64" and "unat v + (2 ^ k - 1) < 2 ^ 64" and w: "v \<le> w" "IsAligned w (2 ^ k)"
  shows "Align v (2 ^ k) \<le> w"
proof -
  let ?u = "2 ^ k :: nat" and ?n = "unat v"
  from w(2) obtain q where q: "unat w = ?u * q" by (auto simp: IsAligned_pow2)
  have "0 < ?u" by simp
  then have "?n + (?u - 1) < ?u * q + ?u"
    using w(1) q unfolding word_le_nat_alt by linarith
  then have "(?n + (?u - 1)) div ?u < q + 1"
    by (intro less_mult_imp_div_less) (simp add: algebra_simps)
  then have "(?n + (?u - 1)) div ?u * ?u \<le> q * ?u" by (intro mult_le_mono1) simp
  then show ?thesis
    using q unat_Align_pow2 [OF assms(1,2)] by (simp add: word_le_nat_alt mult.commute)
qed

lemma float_index_truncates:
  "GetBucketIndexBySize SMM_FLOAT_PARTITIONING n = GetBucketIndexBySize SMM_FLOAT_PARTITIONING (n AND mask 32)"
proof -
  have "(ucast n :: u32) = ucast (n AND mask 32)" by (rule bit_word_eqI) (auto simp: bit_simps)
  then show ?thesis by (simp add: GetBucketIndexBySize_def)
qed

definition smear :: "u32 \<Rightarrow> u32" where
  "smear n =
     (let n = n OR drop_bit 16 n;
          n = n OR drop_bit 8 n;
          n = n OR drop_bit 4 n;
          n = n OR drop_bit 2 n;
          n = n OR drop_bit 1 n
      in n)"

lemma bit_smear: "bit (smear x) i \<longleftrightarrow> (\<exists>d<32. bit x (i + d))"
proof -
  have "(\<exists>d<32. bit x (i + d)) \<longleftrightarrow> list_ex (\<lambda>d. bit x (i + d)) [0..<32]"
    by (auto simp: list_ex_iff)
  also have "\<dots> \<longleftrightarrow> bit (smear x) i"
    unfolding smear_def Let_def by (simp add: upt_rec bit_simps ac_simps, simp add: numeral_eq_Suc, blast)
  finally show ?thesis by simp
qed

lemma smear_mask:
  assumes "2 ^ h \<le> unat x" "unat x < 2 ^ (h + 1)"
  shows "smear x = mask (h + 1)"
proof (rule bit_word_eqI)
  fix i assume "i < LENGTH(32)"
  have top: "bit x h"
  proof -
    have "unat x div 2 ^ h = 1"
      using assms by (intro div_nat_eqI) simp_all
    then show ?thesis by (simp add: bit_unat)
  qed
  have above: "\<not> bit x j" if "h < j" for j
  proof -
    have "(2::nat) ^ (h + 1) \<le> 2 ^ j" using that by (intro power_increasing) simp_all
    then have "unat x div 2 ^ j = 0" using assms(2) by (simp add: div_eq_0_iff)
    then show ?thesis by (simp add: bit_unat)
  qed
  have h: "h < 32" using top bit_imp_le_length by fastforce
  show "bit (smear x) i \<longleftrightarrow> bit (mask (h + 1) :: u32) i"
  proof (cases "i \<le> h")
    case True
    then have "bit x (i + (h - i))" "h - i < 32" using top h by simp_all
    then have "bit (smear x) i" unfolding bit_smear by blast
    then show ?thesis using True \<open>i < LENGTH(32)\<close> by (simp add: bit_mask_iff)
  next
    case False
    then have "\<not> bit (smear x) i" using above by (auto simp: bit_smear)
    then show ?thesis using False by (simp add: bit_mask_iff)
  qed
qed

lemma GetNextPow2_pos:
  assumes "2 ^ h < unat n" "unat n \<le> 2 ^ (h + 1)" "h < 30"
  shows "GetNextPow2 n = 2 ^ (h + 1)"
proof -
  have n: "unat (n - 1) = unat n - 1" using assms(1) by (subst unat_diff_small) simp_all
  have "smear (n - 1) = mask (h + 1)"
    using assms n by (intro smear_mask) simp_all
  then have "GetNextPow2 n = sint (2 ^ (h + 1) :: u32)"
    by (simp add: GetNextPow2_def smear_def Let_def mask_eq_exp_minus_1)
  also have "\<dots> = 2 ^ (h + 1)"
  proof -
    have "unat (2 ^ (h + 1) :: u32) = 2 ^ (h + 1)" using assms(3) by (intro unat_pow2) simp
    then have "uint (2 ^ (h + 1) :: u32) = 2 ^ (h + 1)" by (metis of_nat_numeral of_nat_power uint_nat)
    moreover have "(2 :: int) ^ (h + 1) < 2 ^ 31" using assms(3) by (intro power_strict_increasing) simp_all
    ultimately have "uint (2 ^ (h + 1) :: u32) < 2 ^ 31" by simp
    then have "signed_take_bit 31 (uint (2 ^ (h + 1) :: u32)) = uint (2 ^ (h + 1) :: u32)"
      by (intro signed_take_bit_int_eq_self) (simp_all add: order_trans [OF _ uint_ge_0])
    with \<open>uint (2 ^ (h + 1) :: u32) = 2 ^ (h + 1)\<close> show ?thesis by (simp only: sint_uint) simp
  qed
  finally show ?thesis .
qed

section \<open>Properties\<close>

text \<open>
  (C17) A request that the scheme accepts and that lands in one of the 62 buckets fits into
  the elements of that bucket, and no smaller bucket would do: the class is the least one.
\<close>

theorem size_class_least_fit:
  assumes "size_request_ok sch n" and "GetBucketIndexBySize sch n < 62"
  shows "n \<le> GetBucketSizeInBytesByIndex sch (GetBucketIndexBySize sch n) \<and>
    (\<forall>j < 62. n \<le> GetBucketSizeInBytesByIndex sch j \<longrightarrow> GetBucketIndexBySize sch n \<le> j)"
  using classes.fits [OF assms] classes.idx_least [OF assms(1)] by blast

theorem size_class_least_fit_witness:
  "(1000 :: size_t) \<le> GetBucketSizeInBytesByIndex SMM_PL_PARTITIONING
      (GetBucketIndexBySize SMM_PL_PARTITIONING 1000) \<and>
   GetBucketIndexBySize SMM_PL_PARTITIONING 1000 = 14"
  using size_class_least_fit [of SMM_PL_PARTITIONING 1000]
  by (simp add: size_request_ok_def GetBucketIndexBySize_def GetBucketSizeInBytesByIndex_def)

text \<open>
  Looking up the element size of a bucket gives that bucket back, for all 62 buckets of each
  scheme: filling a cache of bucket \<open>i\<close> asks for exactly this size.
\<close>

theorem bucket_index_size_roundtrip:
  "i < 62 \<Longrightarrow> GetBucketIndexBySize sch (GetBucketSizeInBytesByIndex sch i) = i"
  by (rule classes.idx_sz)

theorem bucket_index_size_roundtrip_witness:
  "GetBucketIndexBySize SMM_FLOAT_PARTITIONING (GetBucketSizeInBytesByIndex SMM_FLOAT_PARTITIONING 61) = 61"
  using bucket_index_size_roundtrip [of 61 SMM_FLOAT_PARTITIONING] by simp

text \<open>
  For a power of two \<open>Align\<close> returns the least multiple at or above the value, provided the
  sum does not wrap around; both assertions of \<open>Align\<close> hold then.
\<close>

theorem Align_least_multiple:
  assumes "k < 64" and "unat v + (2 ^ k - 1) < 2 ^ 64"
  shows "IsAligned (Align v (2 ^ k)) (2 ^ k) \<and> v \<le> Align v (2 ^ k) \<and>
    (\<forall>w. v \<le> w \<longrightarrow> IsAligned w (2 ^ k) \<longrightarrow> Align v (2 ^ k) \<le> w)"
  using Align_aligned [OF assms] Align_ge [OF assms] Align_least [OF assms] by blast

theorem Align_least_multiple_witness:
  "IsAligned (Align 20 (2 ^ 4)) (2 ^ 4) \<and> Align 20 (2 ^ 4) = 32"
  using Align_least_multiple [of 4 20] by (simp add: Align_def)

text \<open>
  After the rounding done by \<open>Allocate\<close>, the element size of the chosen bucket is a multiple of
  the requested alignment (up to \<open>kMaxValidAlignment\<close>) and at least the requested size.
\<close>

theorem aligned_request_class:
  assumes "k \<le> 12" and "unat n + (2 ^ k - 1) < 2 ^ 64"
    and "size_request_ok sch (Align n (2 ^ k))" and "GetBucketIndexBySize sch (Align n (2 ^ k)) < 62"
  shows "IsAligned (GetBucketSizeInBytesByIndex sch (GetBucketIndexBySize sch (Align n (2 ^ k)))) (2 ^ k) \<and>
    n \<le> GetBucketSizeInBytesByIndex sch (GetBucketIndexBySize sch (Align n (2 ^ k)))"
proof -
  have k: "k < 64" using assms(1) by simp
  show ?thesis
    using classes.aligned [OF assms(3,4) Align_aligned [OF k assms(2)]]
      classes.fits [OF assms(3,4)] Align_ge [OF k assms(2)] by auto
qed

theorem aligned_request_class_witness:
  "IsAligned (GetBucketSizeInBytesByIndex SMM_PL_PARTITIONING
     (GetBucketIndexBySize SMM_PL_PARTITIONING (Align 20 (2 ^ 7)))) (2 ^ 7) \<and>
   GetBucketSizeInBytesByIndex SMM_PL_PARTITIONING
     (GetBucketIndexBySize SMM_PL_PARTITIONING (Align 20 (2 ^ 7))) = 128"
  using aligned_request_class [of 7 20 SMM_PL_PARTITIONING]
  by (simp add: Align_def size_request_ok_def GetBucketIndexBySize_def GetBucketSizeInBytesByIndex_def)

text \<open>
  The bucket size tables written in the comments of \<^verbatim>\<open>smmalloc.h\<close> are what the code computes,
  for all three schemes and all 62 buckets.
\<close>

theorem documented_bucket_tables:
  "map (\<lambda>i. unat (GetBucketSizeInBytesByIndex SMM_LINEAR_PARTITIONING (word_of_nat i))) [0..<62] =
     map (\<lambda>i. 16 * (i + 1)) [0..<62] \<and>
   map (\<lambda>i. unat (GetBucketSizeInBytesByIndex SMM_PL_PARTITIONING (word_of_nat i))) [0..<62] =
     [16, 32, 48, 64, 80, 96, 112, 128, 256, 384, 512, 640, 768, 896, 1024, 1536, 2048, 2560, 3072,
      3584, 4096, 4608, 5120, 5632, 6144, 6656, 7168, 7680, 8192, 8704, 9216, 9728, 10240, 10752,
      11264, 11776, 12288, 12800, 13312, 13824, 14336, 14848, 15360, 15872, 16384, 16896, 17408,
      17920, 18432, 18944, 19456, 19968, 20480, 20992, 21504, 22016, 22528, 23040, 23552, 24064,
      24576, 25088] \<and>
   map (\<lambda>i. unat (GetBucketSizeInBytesByIndex SMM_FLOAT_PARTITIONING (word_of_nat i))) [0..<62] =
     [16, 20, 24, 28, 32, 40, 48, 56, 64, 80, 96, 112, 128, 160, 192, 224, 256, 320, 384, 448, 512,
      640, 768, 896, 1024, 1280, 1536, 1792, 2048, 2560, 3072, 3584, 4096, 5120, 6144, 7168, 8192,
      10240, 12288, 14336, 16384, 20480, 24576, 28672, 32768, 40960, 49152, 57344, 65536, 81920,
      98304, 114688, 131072, 163840, 196608, 229376, 262144, 327680, 393216, 458752, 524288, 655360]"
proof (intro conjI, goal_cases)
  case 1
  show ?case by (simp add: linear_size unat_of_nat_small)
next
  case 2
  have "map (\<lambda>i. unat (GetBucketSizeInBytesByIndex SMM_PL_PARTITIONING (word_of_nat i))) [0..<62] =
      map (\<lambda>i. if i \<le> 7 then (i + 1) * 16 else if i \<le> 14 then (i - 6) * 128 else (i - 12) * 512) [0..<62]"
    by (rule map_cong [OF refl]) (simp add: pl_size unat_of_nat_small)
  then show ?case by (simp only:) (simp add: upt_0_62)
next
  case 3
  have "map (\<lambda>i. unat (GetBucketSizeInBytesByIndex SMM_FLOAT_PARTITIONING (word_of_nat i))) [0..<62] =
      map (\<lambda>i. (4 + i mod 4) * 2 ^ (i div 4 + 2)) [0..<62]"
    by (rule map_cong [OF refl]) (simp add: float_size unat_of_nat_small)
  then show ?case by (simp only:) (simp add: upt_0_62)
qed

text \<open>
  (C19) The unbounded search loop of \<open>Allocate\<close> returns for every alignment, and it returns the
  next larger bucket whose element size has that alignment.
\<close>

theorem next_bucket_search:
  assumes "i < 62"
  shows "i < next_bucket sch alignment i \<and>
    IsAligned (GetBucketSizeInBytesByIndex sch (next_bucket sch alignment i)) alignment \<and>
    (\<forall>j. i < j \<longrightarrow> j < next_bucket sch alignment i \<longrightarrow>
       \<not> IsAligned (GetBucketSizeInBytesByIndex sch j) alignment)"
proof -
  have "i < stop_index sch"
    using assms by (cases sch) (simp_all add: stop_index_def word_less_nat_alt)
  then show ?thesis
    using next_bucket_greater next_bucket_aligned next_bucket_least by blast
qed

theorem next_bucket_search_witness:
  "(7 :: size_t) < next_bucket SMM_PL_PARTITIONING 256 7 \<and> next_bucket SMM_PL_PARTITIONING 256 7 = 8"
  using next_bucket_search [of 7 SMM_PL_PARTITIONING 256]
  by (simp add: next_bucket.simps GetBucketSizeInBytesByIndex_def IsAligned_def)

text \<open>
  The floating-point scheme looks only at the low 32 bits of the size. Without the debug
  assertion a request of 4 GiB and 16 bytes is given a 16-byte element.
\<close>

theorem float_request_truncated:
  "GetBucketIndexBySize SMM_FLOAT_PARTITIONING n = GetBucketIndexBySize SMM_FLOAT_PARTITIONING (n AND mask 32) \<and>
   GetBucketSizeInBytesByIndex SMM_FLOAT_PARTITIONING
     (GetBucketIndexBySize SMM_FLOAT_PARTITIONING (2 ^ 32 + 16)) = 16"
proof
  have "(2 ^ 32 + 16 :: size_t) AND mask 32 = 16" by (simp add: mask_eq_exp_minus_1)
  then have "GetBucketIndexBySize SMM_FLOAT_PARTITIONING (2 ^ 32 + 16) = 0"
    using float_index_truncates [of "2 ^ 32 + 16"] float_index_small [of 16] by simp
  then show "GetBucketSizeInBytesByIndex SMM_FLOAT_PARTITIONING
     (GetBucketIndexBySize SMM_FLOAT_PARTITIONING (2 ^ 32 + 16)) = 16"
    by (simp add: classes.sz_first)
qed (rule float_index_truncates)

text \<open>
  \<open>GetNextPow2\<close> returns the least power of two at or above its argument, up to \<open>2^30\<close>; beyond,
  the \<open>int\<close> result no longer holds it.
\<close>

theorem GetNextPow2_least:
  assumes "0 < n" and "n \<le> 2 ^ 30"
  shows "\<exists>k. GetNextPow2 n = 2 ^ k \<and> unat n \<le> 2 ^ k \<and> (\<forall>j. unat n \<le> 2 ^ j \<longrightarrow> k \<le> j)"
proof (cases "n = 1")
  case True
  then show ?thesis by (intro exI [of _ 0]) (simp add: GetNextPow2_def)
next
  case False
  have u: "1 < unat n" "unat n \<le> 2 ^ 30"
    using False assms by (simp_all add: word_less_nat_alt word_le_nat_alt word_eq_iff_unat)
  obtain h where h: "2 ^ h \<le> unat n - 1" "unat n - 1 < 2 ^ (h + 1)"
    using ex_power_ivl1 [of 2 "unat n - 1"] u(1) by (auto simp: Suc_le_eq)
  have "(2 :: nat) ^ h < 2 ^ 30" using h(1) u by linarith
  then have h30: "h < 30" by (rule power_less_imp_less_exp [rotated]) simp
  have lo: "2 ^ h < unat n" and hi: "unat n \<le> 2 ^ (h + 1)" using h u(1) by linarith+
  have "h + 1 \<le> j" if "unat n \<le> 2 ^ j" for j
  proof -
    have "(2 :: nat) ^ h < 2 ^ j" using lo that by (rule less_le_trans)
    then have "h < j" by (rule power_less_imp_less_exp [rotated]) simp
    then show ?thesis by simp
  qed
  then show ?thesis using GetNextPow2_pos [OF lo hi h30] hi by blast
qed

theorem GetNextPow2_least_witness: "GetNextPow2 17 = 32"
  using GetNextPow2_least [of 17] by (simp add: GetNextPow2_def)

end
