(* ===== verification/Generic_Heap.thy ===== *)
theory Generic_Heap
  imports Machine_Memory Partitioning
begin

text \<open>
  \<^verbatim>\<open>smmalloc_generic.cpp\<close>: the generic allocator, which wraps \<open>std::malloc\<close> and \<open>std::free\<close> and puts a
  header with the raw pointer and the requested size in front of each block.

  The C library is modelled by what its documentation says: \<open>std::malloc\<close> returns null or a block
  that is suitably aligned and apart from every live block. Where the block lies is decided by a
  parameter \<open>env\<close>, a function of the number of the call and the size; an answer that breaks the
  documented behaviour counts as a failed call, so every behaviour of a correct \<open>malloc\<close> is given by
  some \<open>env\<close> and none is excluded.
\<close>

section \<open>The C library heap\<close>

datatype fault = Invalid_Free | Null_Access | Div_By_Zero | No_Return

record heap =
  hmem :: memory
  live :: "(addr \<times> size_t) list" \<comment> \<open>raw blocks: address and size passed to \<open>malloc\<close>\<close>
  tick :: nat \<comment> \<open>number of \<open>malloc\<close> calls\<close>

type_synonym placement = "nat \<Rightarrow> size_t \<Rightarrow> addr"

text \<open>Two blocks apart from each other. A block of no bytes has an address of its own.\<close>

definition apart :: "addr \<times> size_t \<Rightarrow> addr \<times> size_t \<Rightarrow> bool" where
  "apart b c \<longleftrightarrow> unat (fst b) + max 1 (unat (snd b)) \<le> unat (fst c) \<or>
                 unat (fst c) + max 1 (unat (snd c)) \<le> unat (fst b)"

text \<open>The first page is never handed out; \<open>Allocator::IsReadable\<close> relies on it.\<close>

definition lawful_block :: "(addr \<times> size_t) list \<Rightarrow> addr \<Rightarrow> size_t \<Rightarrow> bool" where
  "lawful_block bs p n \<longleftrightarrow> 4096 \<le> unat p \<and> 16 dvd unat p \<and> unat p + unat n < 2 ^ 64 \<and>
     list_all (apart (p, n)) bs"

definition malloc :: "placement \<Rightarrow> size_t \<Rightarrow> heap \<Rightarrow> addr \<times> heap" where
  "malloc env n h =
     (let p = env (tick h) n;
          h = h\<lparr>tick := tick h + 1\<rparr>
      in if lawful_block (live h) p n then (p, h\<lparr>live := (p, n) # live h\<rparr>) else (0, h))"

definition std_free :: "addr \<Rightarrow> heap \<Rightarrow> fault + heap" where
  "std_free p h =
     (if p = 0 then Inr h
      else if p \<in> fst ` set (live h) then Inr (h\<lparr>live := filter (\<lambda>b. fst b \<noteq> p) (live h)\<rparr>)
      else Inl Invalid_Free)"

section \<open>The generic allocator\<close>

definition kMinValidAlignment :: size_t where
  "kMinValidAlignment = 4"

text \<open>\<open>sizeof(Header)\<close>: the raw pointer at offset 0 and the size at offset 8.\<close>

definition sizeof_Header :: size_t where
  "sizeof_Header = 16"

type_synonym TInstance = addr

definition GenericAllocator_Invalid :: TInstance where
  "GenericAllocator_Invalid = 0"

definition GenericAllocator_IsValid :: "TInstance \<Rightarrow> bool" where
  "GenericAllocator_IsValid inst = True"

definition GenericAllocator_Create :: TInstance where
  "GenericAllocator_Create = 0"

definition GenericAllocator_Destroy :: "TInstance \<Rightarrow> heap \<Rightarrow> heap" where
  "GenericAllocator_Destroy inst h = h"

definition GenericAllocator_Alloc :: "placement \<Rightarrow> size_t \<Rightarrow> size_t \<Rightarrow> heap \<Rightarrow> addr \<times> heap" where
  "GenericAllocator_Alloc env bytesCount alignment h =
     (let alignment = (if alignment < kMinValidAlignment then kMinValidAlignment else alignment);
          offset = alignment - 1 + sizeof_Header;
          (p, h) = malloc env (bytesCount + offset) h
      in if p = 0 then (0, h)
         else
           (let p2 = (p + offset) AND NOT (alignment - 1);
                hdr = p2 - sizeof_Header;
                m = store64 (hmem h) hdr p;
                m = store64 m (hdr + 8) bytesCount
            in (p2, h\<lparr>hmem := m\<rparr>)))"

definition GenericAllocator_Free :: "addr \<Rightarrow> heap \<Rightarrow> fault + heap" where
  "GenericAllocator_Free p h =
     (if p = 0 then Inr h
      else (let hdr = p - sizeof_Header in std_free (load64 (hmem h) hdr) h))"

definition GenericAllocator_GetUsableSpace :: "addr \<Rightarrow> heap \<Rightarrow> size_t" where
  "GenericAllocator_GetUsableSpace p h =
     (if p = 0 then 0
      else (let hdr = p - sizeof_Header in load64 (hmem h) (hdr + 8)))"

definition GenericAllocator_Realloc ::
    "placement \<Rightarrow> addr \<Rightarrow> size_t \<Rightarrow> size_t \<Rightarrow> heap \<Rightarrow> fault + addr \<times> heap" where
  "GenericAllocator_Realloc env p bytesCount alignment h =
     (let (p2, h) = GenericAllocator_Alloc env bytesCount alignment h
      in if p2 = 0 then Inr (0, h)
         else
           (let h = (if p \<noteq> 0
                     then (let oldBlockSize = GenericAllocator_GetUsableSpace p h
                           in h\<lparr>hmem := memmove (hmem h) p2 p (min oldBlockSize bytesCount)\<rparr>)
                     else h)
            in case GenericAllocator_Free p h of
                 Inl f \<Rightarrow> Inl f
               | Inr h \<Rightarrow> Inr (p2, h)))"

section \<open>Well-formed heaps\<close>

definition raw_ok :: "addr \<times> size_t \<Rightarrow> bool" where
  "raw_ok b \<longleftrightarrow> 4096 \<le> unat (fst b) \<and> unat (fst b) + unat (snd b) < 2 ^ 64"

definition heap_wf :: "heap \<Rightarrow> bool" where
  "heap_wf h \<longleftrightarrow> list_all raw_ok (live h) \<and> sorted_wrt apart (live h)"

text \<open>The bytes of a raw block.\<close>

abbreviation raw_span :: "addr \<times> size_t \<Rightarrow> addr set" where
  "raw_span b \<equiv> span (fst b) (unat (snd b))"

lemma apart_sym: "apart b c = apart c b"
  by (auto simp: apart_def)

lemma apart_fst: "apart b c \<Longrightarrow> fst b \<noteq> fst c"
  by (auto simp: apart_def)

lemma apart_disjoint:
  assumes "apart b c" "raw_ok b" "raw_ok c"
  shows "raw_span b \<inter> raw_span c = {}"
proof -
  have "unat (fst b) + unat (snd b) \<le> unat (fst c) \<or> unat (fst c) + unat (snd c) \<le> unat (fst b)"
    using assms(1) by (auto simp: apart_def)
  then show ?thesis
    using span_disjoint_nat [of "fst b" "unat (snd b)" "fst c" "unat (snd c)"]
      span_disjoint_nat [of "fst c" "unat (snd c)" "fst b" "unat (snd b)"] assms(2,3)
    by (auto simp: raw_ok_def)
qed

lemma heap_wf_apart:
  assumes "heap_wf h" "b \<in> set (live h)" "c \<in> set (live h)" "b \<noteq> c"
  shows "apart b c"
proof -
  obtain i j where ij: "i < length (live h)" "j < length (live h)" "b = live h ! i" "c = live h ! j"
    using assms(2,3) by (auto simp: in_set_conv_nth)
  then have "i < j \<or> j < i" using assms(4) by (metis linorder_neqE_nat)
  then have "apart b c \<or> apart c b"
    using assms(1) ij sorted_wrt_nth_less [of apart "live h"] by (auto simp: heap_wf_def)
  then show ?thesis using apart_sym by blast
qed

lemma heap_wf_raw_ok: "heap_wf h \<Longrightarrow> b \<in> set (live h) \<Longrightarrow> raw_ok b"
  by (auto simp: heap_wf_def list_all_iff)

lemma heap_wf_unique: "heap_wf h \<Longrightarrow> (r, k) \<in> set (live h) \<Longrightarrow> (r, k') \<in> set (live h) \<Longrightarrow> k = k'"
  using heap_wf_apart [of h "(r, k)" "(r, k')"] apart_fst by fastforce

lemma malloc_cases:
  assumes "malloc env n h = (p, h')"
  obtains "p = 0" "h' = h\<lparr>tick := tick h + 1\<rparr>"
  | "lawful_block (live h) p n" "h' = h\<lparr>tick := tick h + 1, live := (p, n) # live h\<rparr>" "p \<noteq> 0"
proof (cases "lawful_block (live h) (env (tick h) n) n")
  case True
  then have "env (tick h) n \<noteq> 0" by (auto simp: lawful_block_def)
  then show thesis using that True assms by (auto simp: malloc_def Let_def)
next
  case False
  then show thesis using that assms by (simp add: malloc_def Let_def)
qed

lemma malloc_wf:
  assumes "heap_wf h" "malloc env n h = (p, h')"
  shows "heap_wf h'"
  using assms(2)
proof (cases rule: malloc_cases)
  case 2
  then show ?thesis using assms(1) by (auto simp: heap_wf_def lawful_block_def raw_ok_def list_all_iff)
qed (use assms(1) in \<open>simp add: heap_wf_def\<close>)

lemma std_free_live:
  assumes "heap_wf h" "(r, k) \<in> set (live h)"
  obtains h' where "std_free r h = Inr h'" "h' = h\<lparr>live := filter (\<lambda>b. fst b \<noteq> r) (live h)\<rparr>" "heap_wf h'"
    "set (live h') = set (live h) - {(r, k)}"
proof -
  have "r \<noteq> 0" using heap_wf_raw_ok [OF assms] by (auto simp: raw_ok_def)
  moreover have "heap_wf (h\<lparr>live := filter (\<lambda>b. fst b \<noteq> r) (live h)\<rparr>)"
    using assms(1) by (auto simp: heap_wf_def list_all_iff sorted_wrt_filter)
  moreover have "{b \<in> set (live h). fst b \<noteq> r} = set (live h) - {(r, k)}"
    using heap_wf_unique [OF assms(1)] assms(2) by auto
  ultimately show thesis using that assms(2) by (simp add: std_free_def rev_image_eqI)
qed


section \<open>Blocks with a header\<close>

text \<open>\<open>generic_block h p n b\<close>: the user block \<open>p\<close> of \<open>n\<close> bytes lies in the live raw block \<open>b\<close>, with
  its header right before it.\<close>

definition generic_block :: "heap \<Rightarrow> addr \<Rightarrow> size_t \<Rightarrow> addr \<times> size_t \<Rightarrow> bool" where
  "generic_block h p n b \<longleftrightarrow> b \<in> set (live h) \<and>
     load64 (hmem h) (p - 16) = fst b \<and> load64 (hmem h) (p - 8) = n \<and>
     unat (fst b) + 16 \<le> unat p \<and> unat p + unat n \<le> unat (fst b) + unat (snd b)"

lemma sub_span:
  assumes "unat r \<le> unat p" "unat p + n \<le> unat r + k" "unat r + k < 2 ^ 64"
  shows "span p n \<subseteq> span r k"
proof -
  have "p = r + word_of_nat (unat p - unat r)"
    using assms(1) by (simp add: word_eq_iff_unat unat_add_small of_nat_diff)
  moreover have "(unat p - unat r) + n \<le> k" using assms by linarith
  ultimately show ?thesis using span_offset_subset [of "unat p - unat r" n k r] by metis
qed

lemma generic_spans:
  assumes "generic_block h p n b" "raw_ok b"
  shows "span p (unat n) \<subseteq> raw_span b" "span (p - 16) 8 \<subseteq> raw_span b" "span (p - 8) 8 \<subseteq> raw_span b"
    and "span p (unat n) \<inter> span (p - 16) 8 = {}" "span p (unat n) \<inter> span (p - 8) 8 = {}"
proof -
  have g: "unat (fst b) + 16 \<le> unat p" "unat p + unat n \<le> unat (fst b) + unat (snd b)"
    and r: "unat (fst b) + unat (snd b) < 2 ^ 64"
    using assms by (auto simp: generic_block_def raw_ok_def)
  have u: "unat (p - 16) = unat p - 16" "unat (p - 8) = unat p - 8"
    using g(1) by (simp_all add: unat_diff_small word_le_nat_alt)
  show "span p (unat n) \<subseteq> raw_span b" using g r by (intro sub_span) auto
  show "span (p - 16) 8 \<subseteq> raw_span b" "span (p - 8) 8 \<subseteq> raw_span b"
    using g r u by (intro sub_span; linarith)+
  have "unat (p - 16) + 8 \<le> unat p" "unat (p - 8) + 8 \<le> unat p" "unat p + unat n \<le> 2 ^ 64" using u g r by linarith+
  then show "span p (unat n) \<inter> span (p - 16) 8 = {}" "span p (unat n) \<inter> span (p - 8) 8 = {}"
    using span_disjoint_nat [of "p - 16" 8 p "unat n"] span_disjoint_nat [of "p - 8" 8 p "unat n"] by blast+
qed

lemma generic_block_frame:
  assumes g: "generic_block h p n b" "raw_ok b" and so: "same_outside A (hmem h) (hmem h')"
    and d: "(span (p - 16) 8 \<union> span (p - 8) 8) \<inter> A = {}" and l: "b \<in> set (live h')"
  shows "generic_block h' p n b"
  using g(1) l d same_outside_load64 [OF so, of "p - 16"] same_outside_load64 [OF so, of "p - 8"]
  by (auto simp: generic_block_def)

definition min_alignment :: "size_t \<Rightarrow> size_t" where
  "min_alignment alignment = (if alignment < kMinValidAlignment then kMinValidAlignment else alignment)"

lemma GenericAllocator_Alloc_eq:
  "GenericAllocator_Alloc env bytesCount alignment h =
     (let (p, h) = malloc env (bytesCount + (min_alignment alignment + 15)) h
      in if p = 0 then (0, h)
         else (let p2 = Align (p + 16) (min_alignment alignment)
               in (p2, h\<lparr>hmem := store64 (store64 (hmem h) (p2 - 16) p) (p2 - 8) bytesCount\<rparr>)))"
proof -
  let ?al = "min_alignment alignment"
  have o: "?al - 1 + 16 = ?al + 15" and a: "p + (?al + 15) AND NOT (?al - 1) = Align (p + 16) ?al" for p
    by (simp_all add: Align_def algebra_simps)
  have q: "q - 16 + 8 = q - 8" for q :: addr by simp
  show ?thesis
    unfolding GenericAllocator_Alloc_def min_alignment_def [symmetric] sizeof_Header_def Let_def o a q ..
qed

lemma header_placement:
  fixes r n :: u64
  assumes al: "al = 2 ^ i" "i < 64" and room: "unat n + 2 ^ i + 15 < 2 ^ 64"
    and raw: "unat r + unat (n + (al + 15)) < 2 ^ 64"
  shows "unat (n + (al + 15)) = unat n + 2 ^ i + 15"
    and "unat r + 16 \<le> unat (Align (r + 16) al)" "unat (Align (r + 16) al) + unat n \<le> unat r + unat (n + (al + 15))"
    and "IsAligned (Align (r + 16) al) al"
proof -
  have a: "unat al = 2 ^ i" "unat (al + 15) = 2 ^ i + 15"
    using al room by (simp_all add: unat_pow2 unat_add_small)
  then show k: "unat (n + (al + 15)) = unat n + 2 ^ i + 15" using room by (simp add: unat_add_small)
  have one: "(1 :: nat) \<le> 2 ^ i" by simp
  then have "unat r + 16 < 2 ^ 64" using raw k by linarith
  then have r16: "unat (r + 16) = unat r + 16" by (simp add: unat_add_small)
  then have w: "unat (r + 16) + (2 ^ i - 1) < 2 ^ 64" using raw k one by linarith
  have "unat (Align (r + 16) al) = (unat (r + 16) + (2 ^ i - 1)) div 2 ^ i * 2 ^ i"
    unfolding al(1) by (rule unat_Align_pow2 [OF al(2) w])
  also have "\<dots> \<le> unat (r + 16) + (2 ^ i - 1)" by (rule div_times_less_eq_dividend)
  finally show "unat (Align (r + 16) al) + unat n \<le> unat r + unat (n + (al + 15))" using r16 k one by linarith
  show "unat r + 16 \<le> unat (Align (r + 16) al)"
    using Align_ge [OF al(2) w] r16 unfolding al(1) by (simp add: word_le_nat_alt)
  show "IsAligned (Align (r + 16) al) al" unfolding al(1) by (rule Align_aligned [OF al(2) w])
qed

lemma GenericAllocator_Alloc_cases:
  assumes wf: "heap_wf h" and al: "min_alignment alignment = 2 ^ i" "i < 64"
    and room: "unat bytesCount + 2 ^ i + 15 < 2 ^ 64"
    and run: "GenericAllocator_Alloc env bytesCount alignment h = (p, h')"
  obtains (failed) "p = 0" "hmem h' = hmem h" "live h' = live h" "heap_wf h'"
  | (served) b where "p \<noteq> 0" "generic_block h' p bytesCount b" "live h' = b # live h"
      "same_outside (raw_span b) (hmem h) (hmem h')" "heap_wf h'" "IsAligned p (min_alignment alignment)"
      "list_all (apart b) (live h)"
proof -
  let ?al = "min_alignment alignment" and ?k = "bytesCount + (min_alignment alignment + 15)"
  obtain r h1 where m: "malloc env ?k h = (r, h1)" by fastforce
  have wf1: "heap_wf h1" using malloc_wf [OF wf m] .
  from m show thesis
  proof (cases rule: malloc_cases)
    case 1
    then show thesis using failed run m wf1 by (auto simp: GenericAllocator_Alloc_eq)
  next
    case 2
    let ?p = "Align (r + 16) ?al"
    have raw: "unat r + unat ?k < 2 ^ 64" using 2(1) by (simp add: lawful_block_def)
    note H = header_placement [OF al room raw]
    have eq: "p = ?p" "h' = h1\<lparr>hmem := store64 (store64 (hmem h1) (?p - 16) r) (?p - 8) bytesCount\<rparr>"
      using run m 2(3) by (auto simp: GenericAllocator_Alloc_eq Let_def)
    have hm: "hmem h1 = hmem h" "live h1 = (r, ?k) # live h" using 2(2) by simp_all
    have u: "unat (?p - 16) = unat ?p - 16" "unat (?p - 8) = unat ?p - 8"
      using H(2) by (simp_all add: unat_diff_small word_le_nat_alt)
    have "span (?p - 16) 8 \<inter> span (?p - 8) 8 = {}"
      using u H(2,3) raw by (intro span_disjoint_nat) linarith+
    then have l: "load64 (hmem h') (?p - 16) = r" "load64 (hmem h') (?p - 8) = bytesCount"
      unfolding eq(2) by (simp_all add: same_outside_load64 [OF same_outside_store64])
    then have g: "generic_block h' p bytesCount (r, ?k)"
      unfolding generic_block_def using H(2,3) hm(2) eq by simp
    have rok: "raw_ok (r, ?k)" using raw 2(1) by (simp add: raw_ok_def lawful_block_def)
    have "same_outside (span (?p - 16) 8 \<union> span (?p - 8) 8) (hmem h) (hmem h')"
      unfolding eq(2) hm(1) [symmetric] by (auto intro: same_outside_trans)
    then have so: "same_outside (raw_span (r, ?k)) (hmem h) (hmem h')"
      using generic_spans(2,3) [OF g rok] eq(1) by (auto elim: same_outside_mono)
    have "p \<noteq> 0" using H(2) eq(1) by auto
    then show thesis
      using served [of "(r, ?k)"] g so wf1 hm H(4) 2(1) eq by (simp add: heap_wf_def lawful_block_def)
  qed
qed


text \<open>Freeing a block with a header releases its raw block and nothing else.\<close>

lemma GenericAllocator_Free_block:
  assumes wf: "heap_wf h" and g: "generic_block h p n b"
  obtains h' where "GenericAllocator_Free p h = Inr h'" "hmem h' = hmem h" "tick h' = tick h"
    "set (live h') = set (live h) - {b}" "heap_wf h'"
proof -
  have "p \<noteq> 0" using g by (auto simp: generic_block_def)
  have "(fst b, snd b) \<in> set (live h)" using g by (simp add: generic_block_def)
  from std_free_live [OF wf this] obtain h' where
    "std_free (fst b) h = Inr h'" "h' = h\<lparr>live := filter (\<lambda>c. fst c \<noteq> fst b) (live h)\<rparr>" "heap_wf h'"
    "set (live h') = set (live h) - {b}" by auto
  moreover have "GenericAllocator_Free p h = std_free (fst b) h"
    using g \<open>p \<noteq> 0\<close> by (simp add: GenericAllocator_Free_def generic_block_def sizeof_Header_def)
  ultimately show thesis using that by simp
qed

lemma GetUsableSpace_block:
  "generic_block h p n b \<Longrightarrow> GenericAllocator_GetUsableSpace p h = n"
  by (auto simp: generic_block_def GenericAllocator_GetUsableSpace_def sizeof_Header_def)

text \<open>The user bytes and the header of a block, and those of a block with another raw block, are disjoint.\<close>

lemma generic_block_apart:
  assumes wf: "heap_wf h" and g: "generic_block h p n b" and c: "c \<in> set (live h)" "b \<noteq> c"
  shows "raw_span b \<inter> raw_span c = {}"
  using assms by (intro apart_disjoint heap_wf_apart heap_wf_raw_ok) (auto simp: generic_block_def)

text \<open>A block survives changes of memory outside its header, and changes of other raw blocks.\<close>

lemma generic_block_other:
  assumes wf: "heap_wf h" and g: "generic_block h p n b" and b: "b \<in> set (live h')"
    and so: "same_outside A (hmem h) (hmem h')" and d: "raw_span b \<inter> A = {}"
  shows "generic_block h' p n b" "load_bytes (hmem h') p (unat n) = load_bytes (hmem h) p (unat n)"
proof -
  have "raw_ok b" using wf g by (auto simp: generic_block_def intro: heap_wf_raw_ok)
  note S = generic_spans [OF g this]
  have "(span (p - 16) 8 \<union> span (p - 8) 8) \<inter> A = {}" using S(2,3) d by blast
  then show "generic_block h' p n b" by (rule generic_block_frame [OF g \<open>raw_ok b\<close> so _ b])
  show "load_bytes (hmem h') p (unat n) = load_bytes (hmem h) p (unat n)"
    using S(1) d by (intro same_outside_load_bytes [OF so]) blast
qed

lemma load_bytes_take: "k \<le> n \<Longrightarrow> load_bytes m a k = take k (load_bytes m a n)"
  by (rule nth_equalityI) (auto simp: nth_load_bytes)

text \<open>Writing the user bytes of a block leaves all headers alone.\<close>

lemma generic_write:
  assumes wf: "heap_wf h" and g: "generic_block h p n b" and so: "same_outside (span p (unat n)) (hmem h) m"
  shows "generic_block (h\<lparr>hmem := m\<rparr>) p n b" "heap_wf (h\<lparr>hmem := m\<rparr>)" "same_outside (raw_span b) (hmem h) m"
    and "generic_block h q k c \<Longrightarrow> c \<noteq> b \<Longrightarrow> generic_block (h\<lparr>hmem := m\<rparr>) q k c"
proof -
  have b: "b \<in> set (live h)" "raw_ok b" using wf g by (auto simp: generic_block_def intro: heap_wf_raw_ok)
  note S = generic_spans [OF g b(2)]
  show raw: "same_outside (raw_span b) (hmem h) m" using so S(1) by (rule same_outside_mono)
  have "(span (p - 16) 8 \<union> span (p - 8) 8) \<inter> span p (unat n) = {}" using S(4,5) by blast
  then show "generic_block (h\<lparr>hmem := m\<rparr>) p n b" using so b by (intro generic_block_frame [OF g b(2)]) simp_all
  show "heap_wf (h\<lparr>hmem := m\<rparr>)" using wf by (simp add: heap_wf_def)
  assume c: "generic_block h q k c" "c \<noteq> b"
  then have "c \<in> set (live h)" by (simp add: generic_block_def)
  moreover have "raw_span c \<inter> raw_span b = {}" using generic_block_apart [OF wf c(1) b(1) c(2)] .
  ultimately show "generic_block (h\<lparr>hmem := m\<rparr>) q k c"
    using raw by (intro generic_block_other(1) [OF wf c(1)]) simp_all
qed

lemma generic_Realloc_block:
  assumes wf: "heap_wf h" and g: "generic_block h p n b"
    and al: "min_alignment alignment = 2 ^ i" "i < 64" and room: "unat bytesCount + 2 ^ i + 15 < 2 ^ 64"
  obtains (failed) h' where "GenericAllocator_Realloc env p bytesCount alignment h = Inr (0, h')"
      "hmem h' = hmem h" "live h' = live h"
  | (moved) h' p2 b2 where "GenericAllocator_Realloc env p bytesCount alignment h = Inr (p2, h')" "p2 \<noteq> 0"
      "generic_block h' p2 bytesCount b2" "set (live h') = insert b2 (set (live h) - {b})" "b2 \<notin> set (live h)"
      "IsAligned p2 (min_alignment alignment)" "heap_wf h'"
      "load_bytes (hmem h') p2 (unat (min n bytesCount)) = load_bytes (hmem h) p (unat (min n bytesCount))"
      "same_outside (raw_span b2) (hmem h) (hmem h')"
proof -
  obtain p2 h1 where r: "GenericAllocator_Alloc env bytesCount alignment h = (p2, h1)" by fastforce
  from wf al room r show thesis
  proof (cases rule: GenericAllocator_Alloc_cases)
    case failed
    then show thesis using that(1) r by (simp add: GenericAllocator_Realloc_def)
  next
    case (served b2)
    let ?k = "min n bytesCount" let ?m = "memmove (hmem h1) p2 p ?k" let ?h2 = "h1\<lparr>hmem := ?m\<rparr>"
    have b: "b \<in> set (live h)" "p \<noteq> 0" "b \<in> set (live h1)" using g served(3) by (auto simp: generic_block_def)
    have ne: "b2 \<noteq> b" "b2 \<notin> set (live h)" using served(7) b apart_fst unfolding list_all_iff by blast+
    have d: "raw_span b \<inter> raw_span b2 = {}"
      using generic_block_apart [OF served(5,2) b(3) ne(1)] by blast
    note g1 = generic_block_other [OF wf g b(3) served(4) d]
    have k: "unat ?k \<le> unat bytesCount" "unat ?k \<le> unat n" by (simp_all add: word_le_nat_alt [symmetric])
    have so2: "same_outside (span p2 (unat bytesCount)) (hmem h1) ?m"
      by (rule same_outside_mono [OF same_outside_memmove span_mono [OF k(1)]])
    note W = generic_write [OF served(5,2) so2]
    obtain h3 where f: "GenericAllocator_Free p ?h2 = Inr h3" "hmem h3 = ?m" "heap_wf h3"
      "set (live h3) = set (live ?h2) - {b}"
      by (rule GenericAllocator_Free_block [OF W(2) W(4) [OF g1(1) ne(1) [symmetric]]]) simp
    have "GenericAllocator_Realloc env p bytesCount alignment h = Inr (p2, h3)"
      using r served(1) b(2) GetUsableSpace_block [OF g1(1)] f(1) by (simp add: GenericAllocator_Realloc_def Let_def)
    moreover have "generic_block h3 p2 bytesCount b2" using W(1) f ne served(3) by (simp add: generic_block_def)
    moreover have "set (live h3) = insert b2 (set (live h) - {b})" using f(4) served(3) ne by auto
    moreover have "load_bytes (hmem h1) p (unat ?k) = load_bytes (hmem h) p (unat ?k)"
      using g1(2) load_bytes_take [OF k(2)] by metis
    then have "load_bytes (hmem h3) p2 (unat ?k) = load_bytes (hmem h) p (unat ?k)"
      using f(2) memmove_copies by simp
    moreover have "same_outside (raw_span b2) (hmem h) (hmem h3)"
      using same_outside_trans [OF served(4) W(3)] f(2) by simp
    ultimately show thesis using that(2) served(1,6) f(3) ne(2) by blast
  qed
qed


section \<open>Properties\<close>

text \<open>A heap with one block, for concrete examples.\<close>

definition demo_placement :: placement where
  "demo_placement k n = 8192 + word_of_nat k * 65536"

definition empty_heap :: heap where
  "empty_heap = \<lparr>hmem = (\<lambda>_. 0), live = [], tick = 0\<rparr>"

lemma empty_heap_wf: "heap_wf empty_heap"
  by (simp add: empty_heap_def heap_wf_def)

lemma demo_block:
  obtains h b where "GenericAllocator_Alloc demo_placement 100 64 empty_heap = (8256, h)" "heap_wf h"
    "generic_block h 8256 100 b" "live h = [b]"
proof -
  obtain p h where r: "GenericAllocator_Alloc demo_placement 100 64 empty_heap = (p, h)" by fastforce
  then have p: "p = 8256"
    by (auto simp: GenericAllocator_Alloc_eq malloc_def lawful_block_def demo_placement_def empty_heap_def
        min_alignment_def kMinValidAlignment_def Align_def Let_def split: if_splits)
  have a: "min_alignment 64 = 2 ^ 6" by (simp add: min_alignment_def kMinValidAlignment_def)
  show thesis
    by (rule GenericAllocator_Alloc_cases [OF empty_heap_wf a _ _ r]) (use that r p in \<open>auto simp: empty_heap_def\<close>)
qed

lemma alignment_64: "min_alignment 64 = 2 ^ 6"
  by (simp add: min_alignment_def kMinValidAlignment_def)

text \<open>
  (C14) \<open>GenericAllocator::Alloc\<close> returns null and changes nothing, or a block with the requested alignment
  (at least 4) that lies with its header inside a new raw block, apart from all live ones; only the
  new raw block is written. The sum of size, alignment and header must not wrap.
\<close>

theorem GenericAllocator_Alloc_block:
  assumes "heap_wf h" and "min_alignment alignment = 2 ^ i" and "i < 64"
    and "unat bytesCount + 2 ^ i + 15 < 2 ^ 64"
    and "GenericAllocator_Alloc env bytesCount alignment h = (p, h')"
  shows "heap_wf h' \<and> (p = 0 \<and> hmem h' = hmem h \<and> live h' = live h \<or>
    (\<exists>b. live h' = b # live h \<and> list_all (apart b) (live h) \<and> generic_block h' p bytesCount b \<and>
      p \<noteq> 0 \<and> IsAligned p (min_alignment alignment) \<and> same_outside (raw_span b) (hmem h) (hmem h')))"
  using assms by (rule GenericAllocator_Alloc_cases) auto

theorem GenericAllocator_Alloc_block_witness:
  "fst (GenericAllocator_Alloc demo_placement 100 64 empty_heap) = 8256 \<and>
    (\<exists>b. generic_block (snd (GenericAllocator_Alloc demo_placement 100 64 empty_heap)) 8256 100 b)"
proof -
  obtain h b where r: "GenericAllocator_Alloc demo_placement 100 64 empty_heap = (8256, h)" by (rule demo_block)
  show ?thesis using GenericAllocator_Alloc_block [OF empty_heap_wf alignment_64 _ _ r] r by auto
qed

text \<open>
  A block of the generic allocator remembers the size it was asked for, and freeing it gives back to
  the C library exactly its raw block.
\<close>

theorem GenericAllocator_Free_releases:
  assumes "heap_wf h" and "generic_block h p n b"
  shows "GenericAllocator_GetUsableSpace p h = n \<and>
    (\<exists>h'. GenericAllocator_Free p h = Inr h' \<and> heap_wf h' \<and> hmem h' = hmem h \<and> set (live h') = set (live h) - {b})"
  using GetUsableSpace_block [OF assms(2)] by (metis GenericAllocator_Free_block [OF assms])

theorem GenericAllocator_Free_releases_witness:
  "\<exists>h b. generic_block h 8256 100 b \<and> GenericAllocator_GetUsableSpace 8256 h = 100 \<and>
     (\<exists>h'. GenericAllocator_Free 8256 h = Inr h' \<and> heap_wf h' \<and> hmem h' = hmem h \<and> set (live h') = set (live h) - {b})"
proof -
  obtain h b where "heap_wf h" "generic_block h 8256 100 b" by (rule demo_block)
  then show ?thesis using GenericAllocator_Free_releases by blast
qed

text \<open>
  (C15) \<open>GenericAllocator::Realloc\<close> never faults on a live block. On failure the old block and all memory are
  as before; otherwise the new block has the requested size and alignment, starts with the old
  contents up to the smaller of the two sizes, and the old raw block is released.
\<close>

theorem GenericAllocator_Realloc_moves:
  assumes "heap_wf h" and "generic_block h p n b"
    and "min_alignment alignment = 2 ^ i" and "i < 64" and "unat bytesCount + 2 ^ i + 15 < 2 ^ 64"
  shows "\<exists>p2 h'. GenericAllocator_Realloc env p bytesCount alignment h = Inr (p2, h') \<and>
    (p2 = 0 \<and> hmem h' = hmem h \<and> live h' = live h \<or>
     (\<exists>b2. generic_block h' p2 bytesCount b2 \<and> set (live h') = insert b2 (set (live h) - {b}) \<and>
        IsAligned p2 (min_alignment alignment) \<and>
        load_bytes (hmem h') p2 (unat (min n bytesCount)) = load_bytes (hmem h) p (unat (min n bytesCount))))"
  using assms by (rule generic_Realloc_block [where env = env]) blast+

theorem GenericAllocator_Realloc_moves_witness:
  "\<exists>h b p2 h'. generic_block h 8256 100 b \<and> GenericAllocator_Realloc demo_placement 8256 200 64 h = Inr (p2, h') \<and>
    (p2 = 0 \<and> hmem h' = hmem h \<and> live h' = live h \<or>
     (\<exists>b2. generic_block h' p2 200 b2 \<and> set (live h') = insert b2 (set (live h) - {b}) \<and> IsAligned p2 64 \<and>
        load_bytes (hmem h') p2 100 = load_bytes (hmem h) 8256 100))"
proof -
  obtain h b where h: "heap_wf h" "generic_block h 8256 100 b" by (rule demo_block)
  have "min_alignment 64 = 64" by (simp add: min_alignment_def kMinValidAlignment_def)
  then show ?thesis
    using GenericAllocator_Realloc_moves [OF h alignment_64, of 200 demo_placement] h(2) by fastforce
qed

text \<open>
  The sum of size and overhead is not checked: a request of \<open>2^64 - 1\<close> bytes asks the C library for
  30 bytes only, so a call that succeeds returns a block that ends far beyond its raw block.
\<close>

theorem GenericAllocator_Alloc_wraps:
  "\<exists>p h'. GenericAllocator_Alloc demo_placement 0xFFFFFFFFFFFFFFFF 16 empty_heap = (p, h') \<and> p \<noteq> 0 \<and>
     live h' = [(8192, 30)] \<and> GenericAllocator_GetUsableSpace p h' = 0xFFFFFFFFFFFFFFFF"
  by (simp add: GenericAllocator_Alloc_eq malloc_def lawful_block_def demo_placement_def empty_heap_def
        min_alignment_def kMinValidAlignment_def Align_def Let_def GenericAllocator_GetUsableSpace_def sizeof_Header_def)

end
