(* ===== verification/Tagged_Pool.thy ===== *)
theory Tagged_Pool
  imports Machine_Memory
begin

text \<open>
  \<open>Allocator::PoolBucket\<close> (\<^verbatim>\<open>smmalloc.h\<close> 371-504, \<^verbatim>\<open>smmalloc.cpp\<close> 164-197): a pool of equal
  blocks whose free list is threaded through the blocks themselves by tagged indices.
  This theory models the operations as one thread executes them without interference
  (the compare-and-swap loops are kept); the interleaved executions are the subject of
  the theory \<open>Pool_Concurrency\<close>. The abstraction is \<open>chain\<close>: the list of block offsets
  reachable from the head. The interface to the clients is the locale \<open>lifo_pool\<close>.
\<close>

section \<open>Statistics of a bucket\<close>

record BucketStats =
  cacheHitCount :: size_t
  hitCount :: size_t
  missCount :: size_t
  freeCount :: size_t

definition BucketStats_init :: BucketStats where
  "BucketStats_init = \<lparr>cacheHitCount = 0, hitCount = 0, missCount = 0, freeCount = 0\<rparr>"

section \<open>Tagged indices\<close>

text \<open>The union \<open>TaggedIndex\<close>: the word \<open>u\<close>, whose low half is \<open>p.tag\<close> and whose high half is
  \<open>p.offset\<close> on the little-endian target.\<close>

type_synonym TaggedIndex = u64

definition TaggedIndex_Invalid :: TaggedIndex where
  "TaggedIndex_Invalid = 0xFFFFFFFFFFFFFFFF"

definition ti_tag :: "TaggedIndex \<Rightarrow> u32" where
  "ti_tag u = ucast u"

definition ti_offset :: "TaggedIndex \<Rightarrow> u32" where
  "ti_offset u = ucast (drop_bit 32 u)"

definition mk_TaggedIndex :: "u32 \<Rightarrow> u32 \<Rightarrow> TaggedIndex" where
  "mk_TaggedIndex tag offset = ucast tag OR push_bit 32 (ucast offset)"

section \<open>The bucket and its operations\<close>

record PoolBucket =
  head :: TaggedIndex
  pData :: addr
  pDataEnd :: addr \<comment> \<open>\<open>pBufferEnd\<close> of the bucket\<close>
  globalTag :: u32
  bucketStats :: BucketStats

definition PoolBucket_init :: PoolBucket where
  "PoolBucket_init =
     \<lparr>head = TaggedIndex_Invalid, pData = 0, pDataEnd = 0, globalTag = 0,
      bucketStats = BucketStats_init\<rparr>"

text \<open>\<open>std::atomic::compare_exchange_strong\<close> on a 64-bit cell: success, the cell after the
  operation, and the caller's expected value after it.\<close>

definition compare_exchange_strong :: "u64 \<Rightarrow> u64 \<Rightarrow> u64 \<Rightarrow> bool \<times> u64 \<times> u64" where
  "compare_exchange_strong cell expected desired =
     (if cell = expected then (True, desired, expected) else (False, cell, cell))"

text \<open>\<open>PoolBucket::Create\<close>. The loop is \<^verbatim>\<open>while (true)\<close>; not returning is \<open>None\<close>.\<close>

partial_function (option) Create_loop ::
    "size_t \<Rightarrow> PoolBucket \<Rightarrow> addr \<Rightarrow> memory \<Rightarrow> (PoolBucket \<times> memory) option" where
  "Create_loop elementSize b node m =
     (let nxt = node + elementSize
      in if nxt + elementSize \<le> pDataEnd b
         then
           (let nextVal = mk_TaggedIndex (globalTag b) (ucast (nxt - pData b));
                m = store64 m node nextVal
            in Create_loop elementSize (b\<lparr>globalTag := globalTag b + 1\<rparr>) nxt m)
         else Some (b, store64 m node TaggedIndex_Invalid))"

definition PoolBucket_Create ::
    "size_t \<Rightarrow> PoolBucket \<Rightarrow> memory \<Rightarrow> (PoolBucket \<times> memory) option" where
  "PoolBucket_Create elementSize b m =
     (let b = b\<lparr>globalTag := 0\<rparr>;
          node = pData b;
          headVal = mk_TaggedIndex (globalTag b) (ucast (node - pData b));
          b = b\<lparr>head := headVal\<rparr>
      in Create_loop elementSize b node m)"

text \<open>\<open>PoolBucket::Alloc\<close>. The null pointer is address 0.\<close>

function Alloc_loop :: "memory \<Rightarrow> PoolBucket \<Rightarrow> TaggedIndex \<Rightarrow> addr \<times> PoolBucket" where
  "Alloc_loop m b headValue =
     (if headValue = TaggedIndex_Invalid then (0, b)
      else
        let p = pData b + ucast (ti_offset headValue);
            nextValue = load64 m p;
            (ok, head', headValue') = compare_exchange_strong (head b) headValue nextValue
        in if ok then (p, b\<lparr>head := head'\<rparr>)
           else Alloc_loop m b headValue')"
  by pat_completeness auto
termination
  by (relation "measure (\<lambda>(m, b, headValue). if headValue = head b then 0 else 1)")
    (auto simp: compare_exchange_strong_def split: if_splits)

definition PoolBucket_Alloc :: "memory \<Rightarrow> PoolBucket \<Rightarrow> addr \<times> PoolBucket" where
  "PoolBucket_Alloc m b = Alloc_loop m b (head b)"

text \<open>\<open>PoolBucket::FreeInterval\<close>: attach the already linked blocks from \<open>pHead\<close> to \<open>pTail\<close>.\<close>

function FreeInterval_loop ::
    "memory \<Rightarrow> PoolBucket \<Rightarrow> addr \<Rightarrow> TaggedIndex \<Rightarrow> TaggedIndex \<Rightarrow> memory \<times> PoolBucket" where
  "FreeInterval_loop m b pTail nodeValue headValue =
     (let m = store64 m pTail headValue;
          (ok, head', headValue') = compare_exchange_strong (head b) headValue nodeValue
      in if ok then (m, b\<lparr>head := head'\<rparr>)
         else FreeInterval_loop m b pTail nodeValue headValue')"
  by pat_completeness auto
termination
  by (relation "measure (\<lambda>(m, b, pTail, nodeValue, headValue). if headValue = head b then 0 else 1)")
    (auto simp: compare_exchange_strong_def split: if_splits)

definition PoolBucket_FreeInterval ::
    "addr \<Rightarrow> addr \<Rightarrow> memory \<Rightarrow> PoolBucket \<Rightarrow> memory \<times> PoolBucket" where
  "PoolBucket_FreeInterval pHead pTail m b =
     (let tag = globalTag b;
          b = b\<lparr>globalTag := globalTag b + 1\<rparr>;
          nodeValue = mk_TaggedIndex tag (ucast (pHead - pData b));
          headValue = head b
      in FreeInterval_loop m b pTail nodeValue headValue)"

definition PoolBucket_IsMyAlloc :: "PoolBucket \<Rightarrow> addr \<Rightarrow> bool" where
  "PoolBucket_IsMyAlloc b p = (pData b \<le> p \<and> p < pDataEnd b)"

section \<open>The free list as a list of offsets\<close>

text \<open>\<open>chain m base h xs\<close>: following the tagged index \<open>h\<close> through memory visits the blocks at
  the offsets \<open>xs\<close> from \<open>base\<close> and ends with the invalid index. \<open>segment\<close> is the part from \<open>h\<close>
  up to, and not including, the index \<open>h'\<close>.\<close>

fun chain :: "memory \<Rightarrow> addr \<Rightarrow> TaggedIndex \<Rightarrow> u32 list \<Rightarrow> bool" where
  "chain m base h [] \<longleftrightarrow> h = TaggedIndex_Invalid"
| "chain m base h (x # xs) \<longleftrightarrow>
     h \<noteq> TaggedIndex_Invalid \<and> ti_offset h = x \<and> chain m base (load64 m (base + ucast x)) xs"

text \<open>The bytes of the free blocks that hold the links.\<close>

definition links :: "addr \<Rightarrow> u32 list \<Rightarrow> addr set" where
  "links base xs = (\<Union>x \<in> set xs. span (base + ucast x) 8)"

text \<open>The offsets of \<open>n\<close> blocks of \<open>e\<close> bytes.\<close>

definition block_offsets :: "nat \<Rightarrow> nat \<Rightarrow> u32 list" where
  "block_offsets e n = map (\<lambda>k. word_of_nat (k * e)) [0..<n]"

section \<open>Tagged index lemmas\<close>

lemma ti_offset_mk [simp]: "ti_offset (mk_TaggedIndex tag offset) = offset"
  unfolding ti_offset_def mk_TaggedIndex_def
  by (rule bit_word_eqI) (auto simp: bit_simps dest: bit_imp_le_length)

lemma ti_tag_mk [simp]: "ti_tag (mk_TaggedIndex tag offset) = tag"
  unfolding ti_tag_def mk_TaggedIndex_def by (rule bit_word_eqI) (auto simp: bit_simps)

lemma mk_ti [simp]: "mk_TaggedIndex (ti_tag u) (ti_offset u) = u"
  unfolding ti_offset_def ti_tag_def mk_TaggedIndex_def by (rule bit_word_eqI) (auto simp: bit_simps)

lemma mk_TaggedIndex_eq_iff [simp]:
  "mk_TaggedIndex t x = mk_TaggedIndex t' x' \<longleftrightarrow> t = t' \<and> x = x'"
  by (metis ti_offset_mk ti_tag_mk)

lemma ti_offset_Invalid: "ti_offset TaggedIndex_Invalid = 0xFFFFFFFF"
  by (simp add: ti_offset_def TaggedIndex_Invalid_def)

lemma mk_TaggedIndex_valid: "x \<noteq> 0xFFFFFFFF \<Longrightarrow> mk_TaggedIndex t x \<noteq> TaggedIndex_Invalid"
  by (metis ti_offset_Invalid ti_offset_mk)

section \<open>Chain lemmas\<close>

lemma links_Nil [simp]: "links base [] = {}"
  by (simp add: links_def)

lemma links_Cons [simp]: "links base (x # xs) = span (base + ucast x) 8 \<union> links base xs"
  by (simp add: links_def)

lemma links_append [simp]: "links base (xs @ ys) = links base xs \<union> links base ys"
  by (simp add: links_def)

lemma links_mono: "set xs \<subseteq> set ys \<Longrightarrow> links base xs \<subseteq> links base ys"
  by (auto simp: links_def)

lemma chain_frame:
  "same_outside A m m' \<Longrightarrow> links base xs \<inter> A = {} \<Longrightarrow> chain m' base h xs = chain m base h xs"
proof (induction xs arbitrary: h)
  case Nil
  show ?case by simp
next
  case (Cons x xs)
  have "load64 m' (base + ucast x) = load64 m (base + ucast x)"
    using Cons.prems by (intro same_outside_load64 [OF Cons.prems(1)]) auto
  moreover have "links base xs \<inter> A = {}" using Cons.prems(2) by auto
  ultimately show ?case using Cons by simp
qed

lemma chain_unique: "chain m base h xs \<Longrightarrow> chain m base h ys \<Longrightarrow> xs = ys"
proof (induction xs arbitrary: h ys)
  case Nil
  then show ?case by (cases ys) simp_all
next
  case (Cons x xs)
  then show ?case by (cases ys) auto
qed

lemma chain_Invalid [simp]: "chain m base TaggedIndex_Invalid xs \<longleftrightarrow> xs = []"
  by (cases xs) simp_all

section \<open>Alloc and FreeInterval on the chain\<close>

declare Alloc_loop.simps [simp del] FreeInterval_loop.simps [simp del]

lemma PoolBucket_Alloc_empty:
  "head b = TaggedIndex_Invalid \<Longrightarrow> PoolBucket_Alloc m b = (0, b)"
  by (simp add: PoolBucket_Alloc_def Alloc_loop.simps)

lemma PoolBucket_Alloc_nonempty:
  "head b \<noteq> TaggedIndex_Invalid \<Longrightarrow>
     PoolBucket_Alloc m b =
       (pData b + ucast (ti_offset (head b)),
        b\<lparr>head := load64 m (pData b + ucast (ti_offset (head b)))\<rparr>)"
  by (simp add: PoolBucket_Alloc_def Alloc_loop.simps compare_exchange_strong_def Let_def)

lemma PoolBucket_Alloc_chain:
  assumes "chain m (pData b) (head b) xs"
  shows "PoolBucket_Alloc m b =
    (case xs of [] \<Rightarrow> (0, b) | x # _ \<Rightarrow> (pData b + ucast x, b\<lparr>head := load64 m (pData b + ucast x)\<rparr>))"
  using assms by (cases xs) (simp_all add: PoolBucket_Alloc_empty PoolBucket_Alloc_nonempty)

lemma PoolBucket_FreeInterval_eq:
  "PoolBucket_FreeInterval pHead pTail m b =
     (store64 m pTail (head b),
      b\<lparr>globalTag := globalTag b + 1,
        head := mk_TaggedIndex (globalTag b) (ucast (pHead - pData b))\<rparr>)"
  by (simp add: PoolBucket_FreeInterval_def FreeInterval_loop.simps compare_exchange_strong_def)

section \<open>Blocks do not overlap\<close>

lemma in_block_offsets:
  "x \<in> set (block_offsets e n) \<longleftrightarrow> (\<exists>k<n. x = word_of_nat (k * e))"
  by (auto simp: block_offsets_def)

lemma length_block_offsets [simp]: "length (block_offsets e n) = n"
  by (simp add: block_offsets_def)

lemma block_index_bound:
  assumes "n * e \<le> 2 ^ 32" and "k < n" and "0 < e"
  shows "unat (word_of_nat (k * e) :: u32) = k * e" and "k * e + e \<le> 2 ^ 32"
proof -
  have "k * e + e \<le> n * e"
    using mult_le_mono1 [of "k + 1" n e] assms(2) by (simp add: add.commute)
  with assms(1) show "k * e + e \<le> 2 ^ 32" by linarith
  with assms(3) show "unat (word_of_nat (k * e) :: u32) = k * e"
    by (intro unat_of_nat_small) simp
qed

lemma block_offset_unat:
  assumes "n * e \<le> 2 ^ 32" "0 < e" "x \<in> set (block_offsets e n)"
  obtains k where "k < n" "unat x = k * e" "k * e + e \<le> 2 ^ 32"
  using assms block_index_bound by (auto simp: in_block_offsets)

lemma block_offsets_distinct:
  assumes "n * e \<le> 2 ^ 32" and "0 < e"
  shows "distinct (block_offsets e n)"
proof -
  have "inj_on (\<lambda>k. word_of_nat (k * e) :: u32) {0..<n}"
  proof (rule inj_onI)
    fix i j assume "i \<in> {0..<n}" "j \<in> {0..<n}" and eq: "word_of_nat (i * e) = (word_of_nat (j * e) :: u32)"
    then have "i * e = j * e"
      using block_index_bound(1) [OF assms(1) _ assms(2)] by (metis atLeastLessThan_iff)
    then show "i = j" using assms(2) by simp
  qed
  then show ?thesis by (simp add: block_offsets_def distinct_map)
qed

lemma block_spans_disjoint:
  assumes "n * e \<le> 2 ^ 32" "0 < e" and "x \<in> set (block_offsets e n)" "y \<in> set (block_offsets e n)" "x \<noteq> y"
    and "d \<le> e" "d' \<le> e"
  shows "span (base + ucast x) d \<inter> span (base + ucast y) d' = {}"
proof -
  from assms obtain i where i: "i < n" "unat x = i * e" "i * e + e \<le> 2 ^ 32" by (elim block_offset_unat)
  from assms obtain j where j: "j < n" "unat y = j * e" "j * e + e \<le> 2 ^ 32" by (elim block_offset_unat)
  have "i \<noteq> j" using i j assms(5) by (metis word_eq_iff_unat)
  then have "i * e + e \<le> j * e \<or> j * e + e \<le> i * e"
    using mult_le_mono1 [of "i + 1" j e] mult_le_mono1 [of "j + 1" i e] by (cases "i < j") (auto simp: add.commute)
  then have "span (ucast x) d \<inter> span (ucast y :: addr) d' = {} \<or> span (ucast y) d' \<inter> span (ucast x :: addr) d = {}"
  proof
    assume "i * e + e \<le> j * e"
    then have "span (ucast x) d \<inter> span (ucast y :: addr) d' = {}"
      using i j assms(6,7) by (intro span_disjoint_nat) simp_all
    then show ?thesis ..
  next
    assume "j * e + e \<le> i * e"
    then have "span (ucast y) d' \<inter> span (ucast x :: addr) d = {}"
      using i j assms(6,7) by (intro span_disjoint_nat) simp_all
    then show ?thesis ..
  qed
  then show ?thesis unfolding span_translate_disjoint by blast
qed

lemma block_offset_valid:
  assumes "n * e \<le> 2 ^ 32" "1 < e" "x \<in> set (block_offsets e n)"
  shows "x \<noteq> 0xFFFFFFFF"
proof -
  from assms obtain k where "unat x = k * e" "k * e + e \<le> 2 ^ 32" by (elim block_offset_unat) simp
  with assms(2) have "unat x < 4294967295" by simp
  then show ?thesis by auto
qed

text \<open>The geometry of a bucket: \<open>n\<close> blocks of \<open>e\<close> bytes, \<open>e \<ge> 8\<close> so that a link fits, the
  whole within 32-bit offsets.\<close>

definition geometry :: "nat \<Rightarrow> nat \<Rightarrow> bool" where
  "geometry e n \<longleftrightarrow> 8 \<le> e \<and> n * e \<le> 2 ^ 32"

lemma links_disjoint:
  assumes "geometry e n" "set xs \<subseteq> set (block_offsets e n)" "set ys \<subseteq> set (block_offsets e n)"
    and "set xs \<inter> set ys = {}"
  shows "links base xs \<inter> links base ys = {}"
proof -
  have "span (base + ucast x) 8 \<inter> span (base + ucast y) 8 = {}" if "x \<in> set xs" "y \<in> set ys" for x y
    using assms that by (intro block_spans_disjoint [of n e]) (auto simp: geometry_def)
  then show ?thesis unfolding links_def by blast
qed

lemma geometry_distinct: "geometry e n \<Longrightarrow> distinct (block_offsets e n)"
  by (rule block_offsets_distinct) (auto simp: geometry_def)

lemma geometry_valid: "geometry e n \<Longrightarrow> x \<in> set (block_offsets e n) \<Longrightarrow> mk_TaggedIndex t x \<noteq> TaggedIndex_Invalid"
  by (rule mk_TaggedIndex_valid, rule block_offset_valid) (auto simp: geometry_def)

lemma geometry_inj: "geometry e n \<Longrightarrow> inj_on (\<lambda>k. word_of_nat (k * e) :: u32) {..<n}"
  using geometry_distinct [of e n] by (simp add: block_offsets_def distinct_map atLeast0LessThan)

lemma geometry_small: "geometry e n \<Longrightarrow> n < 2 ^ 32"
proof -
  assume "geometry e n"
  then have "8 \<le> e" "n * e \<le> 2 ^ 32" by (auto simp: geometry_def)
  then have "n * 8 \<le> 2 ^ 32" using mult_le_mono2 [of 8 e n] by linarith
  then show ?thesis by simp
qed

lemma block_word:
  assumes "geometry e n" "k < n"
  shows "unat (word_of_nat (k * e) :: u32) = k * e"
    and "(ucast (word_of_nat (k * e) :: u32) :: u64) = word_of_nat (k * e)"
    and "(ucast (word_of_nat (k * e) :: u64) :: u32) = word_of_nat (k * e)"
proof -
  have b: "unat (word_of_nat (k * e) :: u32) = k * e" "k * e < 2 ^ 32"
    using block_index_bound [of n e k] assms by (auto simp: geometry_def)
  moreover have "unat (word_of_nat (k * e) :: u64) = k * e"
    using b(2) by (intro unat_of_nat_small) simp
  ultimately show "unat (word_of_nat (k * e) :: u32) = k * e"
    "(ucast (word_of_nat (k * e) :: u32) :: u64) = word_of_nat (k * e)"
    "(ucast (word_of_nat (k * e) :: u64) :: u32) = word_of_nat (k * e)"
    by (simp_all add: word_eq_iff_unat unat_ucast_u64_u32 del: of_nat_mult)
qed

section \<open>Attaching a linked segment\<close>

fun path :: "memory \<Rightarrow> addr \<Rightarrow> u32 list \<Rightarrow> bool" where
  "path m base [] \<longleftrightarrow> True"
| "path m base [x] \<longleftrightarrow> True"
| "path m base (x # y # xs) \<longleftrightarrow>
     load64 m (base + ucast x) \<noteq> TaggedIndex_Invalid \<and> ti_offset (load64 m (base + ucast x)) = y \<and>
     path m base (y # xs)"

lemma path_frame:
  "same_outside A m m' \<Longrightarrow> links base (butlast xs) \<inter> A = {} \<Longrightarrow> path m' base xs = path m base xs"
proof (induction xs rule: induct_list012)
  case (3 x y xs)
  have "load64 m' (base + ucast x) = load64 m (base + ucast x)"
    using 3 by (intro same_outside_load64 [of A]) auto
  then show ?case using 3 by auto
qed simp_all

lemma chain_path_append:
  "path m base (x # xs) \<Longrightarrow>
     chain m base h (x # xs @ ys) \<longleftrightarrow>
       h \<noteq> TaggedIndex_Invalid \<and> ti_offset h = x \<and>
       chain m base (load64 m (base + ucast (last (x # xs)))) ys"
proof (induction xs arbitrary: x h)
  case Nil
  show ?case by simp
next
  case (Cons y xs)
  then show ?case using Cons.IH [of y "load64 m (base + ucast x)"] by auto
qed

lemma FreeInterval_chain:
  assumes geo: "geometry e n" and xs: "xs \<noteq> []" "distinct (xs @ ys)"
    and blk: "set (xs @ ys) \<subseteq> set (block_offsets e n)"
    and p: "path m (pData b) xs" and c: "chain m (pData b) (head b) ys"
    and f: "PoolBucket_FreeInterval (pData b + ucast (hd xs)) (pData b + ucast (last xs)) m b = (m', b')"
  shows "chain m' (pData b') (head b') (xs @ ys)"
    and "pData b' = pData b" "pDataEnd b' = pDataEnd b" "bucketStats b' = bucketStats b"
    and "globalTag b' = globalTag b + 1"
    and "same_outside (span (pData b + ucast (last xs)) 8) m m'"
proof -
  let ?base = "pData b" and ?l = "last xs"
  have m': "m' = store64 m (?base + ucast ?l) (head b)"
    and b': "b' = b\<lparr>globalTag := globalTag b + 1, head := mk_TaggedIndex (globalTag b) (hd xs)\<rparr>"
    using f by (auto simp: PoolBucket_FreeInterval_eq)
  show so: "same_outside (span (?base + ucast ?l) 8) m m'" unfolding m' by blast
  show "pData b' = pData b" "pDataEnd b' = pDataEnd b" "bucketStats b' = bucketStats b"
    "globalTag b' = globalTag b + 1" by (simp_all add: b')
  have lk: "links ?base zs \<inter> span (?base + ucast ?l) 8 = {}" if "set zs \<subseteq> set (xs @ ys)" "?l \<notin> set zs" for zs
  proof -
    have "set zs \<subseteq> set (block_offsets e n)" "?l \<in> set (block_offsets e n)"
      using that(1) blk xs(1) by auto
    then show ?thesis using links_disjoint [OF geo, of zs "[?l]" ?base] that(2) by simp
  qed
  have "path m' ?base xs"
  proof -
    have "?l \<notin> set (butlast xs)"
      using xs by (metis append_butlast_last_id distinct_append disjoint_insert(2) list.set(2) inf_commute)
    then have "links ?base (butlast xs) \<inter> span (?base + ucast ?l) 8 = {}"
      by (intro lk) (auto dest: in_set_butlastD)
    with so p show ?thesis by (simp add: path_frame)
  qed
  moreover have "chain m' ?base (head b) ys"
  proof -
    have "?l \<notin> set ys" using xs by (metis disjoint_iff distinct_append last_in_set)
    then have "links ?base ys \<inter> span (?base + ucast ?l) 8 = {}" by (intro lk) auto
    with so c show ?thesis by (simp add: chain_frame)
  qed
  moreover have "load64 m' (?base + ucast ?l) = head b" by (simp add: m')
  moreover have "mk_TaggedIndex (globalTag b) (hd xs) \<noteq> TaggedIndex_Invalid"
    using geo blk xs(1) by (intro geometry_valid) auto
  ultimately show "chain m' (pData b') (head b') (xs @ ys)"
    using chain_path_append [of m' ?base "hd xs" "tl xs" "mk_TaggedIndex (globalTag b) (hd xs)" ys] xs(1)
    by (cases xs) (simp_all add: b')
qed

section \<open>Create builds the list of all blocks\<close>

fun linked :: "memory \<Rightarrow> addr \<Rightarrow> TaggedIndex \<Rightarrow> TaggedIndex list \<Rightarrow> bool" where
  "linked m base h [] \<longleftrightarrow> h = TaggedIndex_Invalid"
| "linked m base h (r # rs) \<longleftrightarrow>
     h = r \<and> r \<noteq> TaggedIndex_Invalid \<and> linked m base (load64 m (base + ucast (ti_offset r))) rs"

lemma linked_chain: "linked m base h rs \<Longrightarrow> chain m base h (map ti_offset rs)"
  by (induction rs arbitrary: h) simp_all

lemma linked_frame:
  "same_outside A m m' \<Longrightarrow> links base (map ti_offset rs) \<inter> A = {} \<Longrightarrow> linked m' base h rs = linked m base h rs"
proof (induction rs arbitrary: h)
  case Nil
  show ?case by simp
next
  case (Cons r rs)
  have "load64 m' (base + ucast (ti_offset r)) = load64 m (base + ucast (ti_offset r))"
    using Cons.prems by (intro same_outside_load64 [OF Cons.prems(1)]) auto
  moreover have "links base (map ti_offset rs) \<inter> A = {}" using Cons.prems(2) by auto
  ultimately show ?case using Cons by simp
qed

definition created_refs :: "nat \<Rightarrow> nat \<Rightarrow> TaggedIndex list" where
  "created_refs e n = mk_TaggedIndex 0 0 #
     map (\<lambda>j. mk_TaggedIndex (word_of_nat (j - 1)) (word_of_nat (j * e))) [1..<n]"

lemma Create_loop_cond:
  fixes base pEnd elementSize :: addr
  assumes e: "8 \<le> e" "unat elementSize = e"
    and fin: "unat pEnd = unat base + S" and n: "n = max 1 (S div e)"
    and room: "unat base + S + 2 * e < 2 ^ 64" and k: "k < n"
  shows "base + word_of_nat (k * e) + elementSize + elementSize \<le> pEnd \<longleftrightarrow> k + 1 < n"
proof -
  have le: "(k + 2) * e \<le> S + 2 * e"
  proof (cases "k = 0")
    case False
    then have "k + 1 \<le> S div e" using k n by auto
    then have "(k + 1) * e \<le> S" using e(1) by (simp add: less_eq_div_iff_mult_less_eq)
    then show ?thesis by simp
  qed simp
  have ew: "elementSize = word_of_nat e" using e(2) by auto
  have "base + word_of_nat (k * e) + elementSize + elementSize = base + word_of_nat ((k + 2) * e)"
    by (simp add: ew algebra_simps)
  moreover have "unat (base + word_of_nat ((k + 2) * e)) = unat base + (k + 2) * e"
  proof -
    have "unat (word_of_nat ((k + 2) * e) :: addr) = (k + 2) * e"
      using le room by (intro unat_of_nat_small) simp
    then show ?thesis using le room by (subst unat_add_small) (simp_all del: of_nat_mult of_nat_add)
  qed
  ultimately have "base + word_of_nat (k * e) + elementSize + elementSize \<le> pEnd \<longleftrightarrow> (k + 2) * e \<le> S"
    using fin by (simp only: word_le_nat_alt) simp
  also have "\<dots> \<longleftrightarrow> k + 2 \<le> S div e" using e(1) by (simp add: less_eq_div_iff_mult_less_eq)
  also have "\<dots> \<longleftrightarrow> k + 1 < n" using n by auto
  finally show ?thesis .
qed

lemma Create_loop_linked:
  assumes geo: "geometry e n" and e: "unat elementSize = e"
    and fin: "unat (pDataEnd b) = unat (pData b) + S" and n: "n = max 1 (S div e)"
    and room: "unat (pData b) + S + 2 * e < 2 ^ 64"
  shows "k < n \<Longrightarrow> pData b' = pData b \<Longrightarrow> pDataEnd b' = pDataEnd b \<Longrightarrow>
    \<exists>m'. Create_loop elementSize b' (pData b + word_of_nat (k * e)) m =
           Some (b'\<lparr>globalTag := globalTag b' + word_of_nat (n - 1 - k)\<rparr>, m') \<and>
         same_outside (links (pData b) (map (\<lambda>j. word_of_nat (j * e)) [k..<n])) m m' \<and>
         (\<forall>t. linked m' (pData b) (mk_TaggedIndex t (word_of_nat (k * e)))
            (mk_TaggedIndex t (word_of_nat (k * e)) #
             map (\<lambda>j. mk_TaggedIndex (globalTag b' + word_of_nat (j - k - 1)) (word_of_nat (j * e))) [k + 1..<n]))"
proof (induction "n - 1 - k" arbitrary: k b' m)
  case 0
  have e8: "8 \<le> e" using geo by (simp add: geometry_def)
  have nk: "n = Suc k" using 0 by simp
  then have k: "[k..<n] = [k]" "[k + 1..<n] = []" "\<not> k + 1 < n" by simp_all
  let ?node = "pData b + word_of_nat (k * e)"
  let ?m = "store64 m ?node TaggedIndex_Invalid"
  have off: "unat (word_of_nat (k * e) :: u32) = k * e" "(ucast (word_of_nat (k * e) :: u32) :: addr) = word_of_nat (k * e)"
    using block_word [OF geo 0(2)] by (simp_all del: of_nat_mult)
  have "Create_loop elementSize b' ?node m = Some (b', ?m)"
    using Create_loop_cond [OF e8 e fin n room 0(2)] k(3) 0(4)
    by (subst Create_loop.simps) (simp add: Let_def)
  moreover have "same_outside (links (pData b) [word_of_nat (k * e)]) m ?m"
    using same_outside_store64 [of ?node m TaggedIndex_Invalid] by (simp add: off del: of_nat_mult)
  moreover have "mk_TaggedIndex t (word_of_nat (k * e)) \<noteq> TaggedIndex_Invalid" for t
    using geo 0(2) by (intro geometry_valid) (auto simp: in_block_offsets)
  ultimately show ?case by (simp add: nk off del: of_nat_mult)
next
  case (Suc r)
  have e8: "8 \<le> e" using geo by (simp add: geometry_def)
  have k1: "k + 1 < n" "n - 1 - k = Suc (n - 1 - (k + 1))" using Suc(2) by simp_all
  let ?node = "pData b + word_of_nat (k * e)" and ?nxt = "pData b + word_of_nat ((k + 1) * e)"
  define b1 where "b1 = b'\<lparr>globalTag := globalTag b' + 1\<rparr>"
  define m1 where "m1 = store64 m ?node (mk_TaggedIndex (globalTag b') (word_of_nat ((k + 1) * e)))"
  have off: "(ucast (word_of_nat (j * e) :: u32) :: addr) = word_of_nat (j * e)"
    "(ucast (word_of_nat (j * e) :: addr) :: u32) = word_of_nat (j * e)" if "j < n" for j
    using block_word [OF geo that] by (simp_all del: of_nat_mult)
  have nxt: "?node + elementSize = ?nxt" using e by (auto simp: algebra_simps)
  have "\<exists>m'. Create_loop elementSize b1 ?nxt m1 =
           Some (b1\<lparr>globalTag := globalTag b1 + word_of_nat (n - 1 - (k + 1))\<rparr>, m') \<and>
         same_outside (links (pData b) (map (\<lambda>j. word_of_nat (j * e)) [k + 1..<n])) m1 m' \<and>
         (\<forall>t. linked m' (pData b) (mk_TaggedIndex t (word_of_nat ((k + 1) * e)))
            (mk_TaggedIndex t (word_of_nat ((k + 1) * e)) #
             map (\<lambda>j. mk_TaggedIndex (globalTag b1 + word_of_nat (j - (k + 1) - 1)) (word_of_nat (j * e))) [k + 1 + 1..<n]))"
    by (rule Suc(1)) (use Suc k1 in \<open>simp_all add: b1_def\<close>)
  then obtain m' where m': "Create_loop elementSize b1 ?nxt m1 =
           Some (b1\<lparr>globalTag := globalTag b1 + word_of_nat (n - 1 - (k + 1))\<rparr>, m')"
    and so: "same_outside (links (pData b) (map (\<lambda>j. word_of_nat (j * e)) [k + 1..<n])) m1 m'"
    and lk: "\<And>t. linked m' (pData b) (mk_TaggedIndex t (word_of_nat ((k + 1) * e)))
            (mk_TaggedIndex t (word_of_nat ((k + 1) * e)) #
             map (\<lambda>j. mk_TaggedIndex (globalTag b1 + word_of_nat (j - (k + 1) - 1)) (word_of_nat (j * e))) [k + 1 + 1..<n])"
    by blast
  have "(ucast (word_of_nat e + word_of_nat (k * e) :: addr) :: u32) = word_of_nat e + word_of_nat (k * e)"
    using off(2) [OF k1(1)] by (simp del: of_nat_mult)
  then have "Create_loop elementSize b' ?node m = Create_loop elementSize b1 ?nxt m1"
    using Create_loop_cond [OF e8 e fin n room Suc(3)] k1(1) Suc(4,5)
    by (subst Create_loop.simps) (simp add: Let_def nxt b1_def m1_def off del: of_nat_mult)
  then have 1: "Create_loop elementSize b' ?node m =
      Some (b'\<lparr>globalTag := globalTag b' + word_of_nat (n - 1 - k)\<rparr>, m')"
    unfolding m' k1(2) by (simp add: b1_def)
  have ups: "[k..<n] = k # [k + 1..<n]" "[k + 1..<n] = (k + 1) # [k + 1 + 1..<n]"
    using k1(1) by (simp_all add: upt_conv_Cons)
  have 2: "same_outside (links (pData b) (map (\<lambda>j. word_of_nat (j * e)) [k..<n])) m m'"
  proof -
    have "same_outside (span ?node 8) m m1" unfolding m1_def by blast
    then have "same_outside (span ?node 8 \<union> links (pData b) (map (\<lambda>j. word_of_nat (j * e)) [k + 1..<n])) m m'"
      using so by (rule same_outside_trans)
    then show ?thesis using off(1) [OF Suc(3)] by (simp add: ups(1) del: of_nat_mult)
  qed
  have "links (pData b) [word_of_nat (k * e)] \<inter> links (pData b) (map (\<lambda>j. word_of_nat (j * e)) [k + 1..<n]) = {}"
  proof (rule links_disjoint [OF geo])
    show "set [word_of_nat (k * e)] \<inter> set (map (\<lambda>j. word_of_nat (j * e) :: u32) [k + 1..<n]) = {}"
      using inj_onD [OF geometry_inj [OF geo], of k] Suc(3) by (force simp del: of_nat_mult)
  qed (use Suc(3) in \<open>auto simp: in_block_offsets\<close>)
  then have ld: "load64 m' ?node = mk_TaggedIndex (globalTag b') (word_of_nat ((k + 1) * e))"
    using same_outside_load64 [OF so, of ?node] off(1) [OF Suc(3)] by (simp add: m1_def del: of_nat_mult)
  have shift: "map (\<lambda>j. mk_TaggedIndex (globalTag b1 + word_of_nat (j - (k + 1) - 1)) (word_of_nat (j * e))) [k + 1 + 1..<n] =
      map (\<lambda>j. mk_TaggedIndex (globalTag b' + word_of_nat (j - k - 1)) (word_of_nat (j * e))) [k + 1 + 1..<n]"
  proof (rule map_cong [OF refl])
    fix j assume "j \<in> set [k + 1 + 1..<n]"
    then have "k + 2 \<le> j" by simp
    then have "j - k - 1 = Suc (j - (k + 1) - 1)" by linarith
    then show "mk_TaggedIndex (globalTag b1 + word_of_nat (j - (k + 1) - 1)) (word_of_nat (j * e)) =
      mk_TaggedIndex (globalTag b' + word_of_nat (j - k - 1)) (word_of_nat (j * e) :: u32)"
      by (simp add: b1_def)
  qed
  have 3: "linked m' (pData b) (mk_TaggedIndex t (word_of_nat (k * e)))
            (mk_TaggedIndex t (word_of_nat (k * e)) #
             map (\<lambda>j. mk_TaggedIndex (globalTag b' + word_of_nat (j - k - 1)) (word_of_nat (j * e))) [k + 1..<n])" for t
  proof -
    have "mk_TaggedIndex t (word_of_nat (k * e)) \<noteq> TaggedIndex_Invalid"
      using geo Suc(3) by (intro geometry_valid) (auto simp: in_block_offsets)
    then show ?thesis
      using lk [of "globalTag b'"] off(1) [OF Suc(3)] ld unfolding shift ups(2) by (simp del: of_nat_mult)
  qed
  from 1 2 3 show ?case by blast
qed

lemma created_refs_offsets:
  "0 < n \<Longrightarrow> map ti_offset (created_refs e n) = block_offsets e n"
  by (simp add: created_refs_def block_offsets_def upt_conv_Cons [of 0])

lemma PoolBucket_Create_linked:
  assumes geo: "geometry e n" and e: "unat elementSize = e"
    and fin: "unat (pDataEnd b) = unat (pData b) + S" and n: "n = max 1 (S div e)"
    and room: "unat (pData b) + S + 2 * e < 2 ^ 64"
  shows "\<exists>b' m'. PoolBucket_Create elementSize b m = Some (b', m') \<and>
     linked m' (pData b') (head b') (created_refs e n) \<and>
     b' = b\<lparr>head := mk_TaggedIndex 0 0, globalTag := word_of_nat (n - 1)\<rparr> \<and>
     same_outside (links (pData b) (block_offsets e n)) m m'"
proof -
  let ?b = "b\<lparr>globalTag := 0, head := mk_TaggedIndex 0 0\<rparr>"
  have "0 < n" using n by simp
  then obtain m' where m': "Create_loop elementSize ?b (pData b + word_of_nat (0 * e)) m =
        Some (?b\<lparr>globalTag := globalTag ?b + word_of_nat (n - 1 - 0)\<rparr>, m')"
      and so: "same_outside (links (pData b) (map (\<lambda>j. word_of_nat (j * e)) [0..<n])) m m'"
      and lk: "\<And>t. linked m' (pData b) (mk_TaggedIndex t (word_of_nat (0 * e)))
            (mk_TaggedIndex t (word_of_nat (0 * e)) #
             map (\<lambda>j. mk_TaggedIndex (globalTag ?b + word_of_nat (j - 0 - 1)) (word_of_nat (j * e))) [0 + 1..<n])"
    using Create_loop_linked [OF geo e fin n room, of 0 ?b m] by auto
  have "PoolBucket_Create elementSize b m = Some (?b\<lparr>globalTag := word_of_nat (n - 1)\<rparr>, m')"
    using m' by (simp add: PoolBucket_Create_def)
  moreover have "linked m' (pData b) (mk_TaggedIndex 0 0) (created_refs e n)"
    using lk [of 0] by (simp add: created_refs_def)
  ultimately show ?thesis using so
    by (simp add: block_offsets_def)
qed

lemma block_in_buffer:
  assumes "geometry e n" "n * e \<le> S" "x \<in> set (block_offsets e n)" "d \<le> e"
  shows "span (base + ucast x) d \<subseteq> span base S"
proof -
  obtain k where k: "k < n" "unat x = k * e"
    using assms(1,3) by (elim block_offset_unat [rotated 2]) (auto simp: geometry_def)
  have "k * e + e \<le> n * e" using mult_le_mono1 [of "k + 1" n e] k(1) by (simp add: add.commute)
  then have "k * e + d \<le> S" using assms(2,4) by linarith
  moreover have "word_of_nat (unat (ucast x :: addr)) = (ucast x :: addr)" by simp
  then have "(ucast x :: addr) = word_of_nat (k * e)" using k(2) by (simp del: of_nat_mult)
  ultimately show ?thesis by (simp only: span_offset_subset)
qed

lemma links_block_offsets:
  assumes "geometry e n" "n * e \<le> S"
  shows "links base (block_offsets e n) \<subseteq> span base S"
  using block_in_buffer [OF assms, of _ 8 base] assms(1) by (auto simp: links_def geometry_def)

section \<open>The interface of a pool\<close>

primrec pops :: "('s \<Rightarrow> addr \<times> 's) \<Rightarrow> nat \<Rightarrow> 's \<Rightarrow> addr list \<times> 's" where
  "pops pop 0 s = ([], s)"
| "pops pop (Suc k) s = (let (p, s1) = pop s; (ps, s2) = pops pop k s1 in (p # ps, s2))"

locale lifo_pool =
  fixes pop :: "'s \<Rightarrow> addr \<times> 's"
    and push :: "addr \<Rightarrow> 's \<Rightarrow> 's"
    and base :: "'s \<Rightarrow> addr"
    and holds :: "'s \<Rightarrow> u32 list \<Rightarrow> bool"
    and universe :: "u32 set"
  assumes holds_blocks: "holds s xs \<Longrightarrow> distinct xs \<and> set xs \<subseteq> universe"
    and pop_Nil: "holds s [] \<Longrightarrow> pop s = (0, s)"
    and pop_Cons: "holds s (x # xs) \<Longrightarrow>
      fst (pop s) = base s + ucast x \<and> holds (snd (pop s)) xs \<and> base (snd (pop s)) = base s"
    and push_Cons: "holds s xs \<Longrightarrow> x \<in> universe \<Longrightarrow> x \<notin> set xs \<Longrightarrow>
      holds (push (base s + ucast x) s) (x # xs) \<and> base (push (base s + ucast x) s) = base s"
begin

lemma pop_after_push:
  assumes "holds s xs" "x \<in> universe" "x \<notin> set xs"
  shows "fst (pop (push (base s + ucast x) s)) = base s + ucast x"
    and "holds (snd (pop (push (base s + ucast x) s))) xs"
  using push_Cons [OF assms] pop_Cons [of "push (base s + ucast x) s" x xs] by simp_all

lemma drain:
  "holds s xs \<Longrightarrow> \<exists>s'. pops pop (length xs) s = (map (\<lambda>x. base s + ucast x) xs, s') \<and>
     holds s' [] \<and> base s' = base s"
proof (induction xs arbitrary: s)
  case Nil
  then show ?case by simp
next
  case (Cons x xs)
  obtain p s1 where pop: "pop s = (p, s1)" by (cases "pop s")
  with pop_Cons [OF Cons.prems] have s1: "p = base s + ucast x" "holds s1 xs" "base s1 = base s" by simp_all
  from Cons.IH [OF s1(2)] obtain s' where
    "pops pop (length xs) s1 = (map (\<lambda>x. base s1 + ucast x) xs, s')" "holds s' []" "base s' = base s1" by blast
  then show ?case using pop s1 by simp
qed

lemma drain_then_null:
  assumes "holds s xs"
  obtains s' where "pops pop (length xs) s = (map (\<lambda>x. base s + ucast x) xs, s')" "pop s' = (0, s')"
  using drain [OF assms] pop_Nil by blast

end

section \<open>The bucket provides the interface\<close>

definition pool_pop :: "PoolBucket \<times> memory \<Rightarrow> addr \<times> (PoolBucket \<times> memory)" where
  "pool_pop s = (let (b, m) = s; (p, b') = PoolBucket_Alloc m b in (p, (b', m)))"

definition pool_push :: "addr \<Rightarrow> PoolBucket \<times> memory \<Rightarrow> PoolBucket \<times> memory" where
  "pool_push p s = (let (b, m) = s; (m', b') = PoolBucket_FreeInterval p p m b in (b', m'))"

definition pool_holds :: "nat \<Rightarrow> nat \<Rightarrow> PoolBucket \<times> memory \<Rightarrow> u32 list \<Rightarrow> bool" where
  "pool_holds e n s xs \<longleftrightarrow> geometry e n \<and> chain (snd s) (pData (fst s)) (head (fst s)) xs \<and>
     distinct xs \<and> set xs \<subseteq> set (block_offsets e n)"

interpretation bucket: lifo_pool pool_pop pool_push "\<lambda>s. pData (fst s)" "pool_holds e n" "set (block_offsets e n)"
  for e n
proof (unfold_locales, goal_cases)
  case (1 s xs)
  then show ?case by (simp add: pool_holds_def)
next
  case (2 s)
  then show ?case
    by (cases s) (simp add: pool_holds_def pool_pop_def PoolBucket_Alloc_empty)
next
  case (3 s x xs)
  then show ?case
    by (cases s) (auto simp: pool_holds_def pool_pop_def PoolBucket_Alloc_nonempty)
next
  case (4 s xs x)
  obtain b m where s: "s = (b, m)" by (cases s)
  obtain m' b' where f: "PoolBucket_FreeInterval (pData b + ucast x) (pData b + ucast x) m b = (m', b')"
    by (cases "PoolBucket_FreeInterval (pData b + ucast x) (pData b + ucast x) m b")
  from 4 have "geometry e n" "chain m (pData b) (head b) xs" "distinct (x # xs)" "set (x # xs) \<subseteq> set (block_offsets e n)"
    by (simp_all add: s pool_holds_def)
  with FreeInterval_chain(1,2) [of e n "[x]" xs m b m' b'] f show ?case
    by (simp add: s pool_push_def pool_holds_def)
qed

lemma PoolBucket_Create_chain:
  assumes "8 \<le> unat elementSize" and "unat elementSize \<le> S" and "S \<le> 2 ^ 32"
    and "unat (pDataEnd b) = unat (pData b) + S" and "unat (pData b) + 3 * S < 2 ^ 64"
  shows "\<exists>b' m'. PoolBucket_Create elementSize b m = Some (b', m') \<and>
    chain m' (pData b') (head b') (block_offsets (unat elementSize) (S div unat elementSize)) \<and>
    globalTag b' = word_of_nat (S div unat elementSize - 1) \<and> pData b' = pData b \<and>
    same_outside (span (pData b) S) m m'"
proof -
  let ?e = "unat elementSize" and ?n = "S div unat elementSize"
  have n: "?n = max 1 (S div ?e)" using assms(1,2) by (simp add: max_def less_eq_div_iff_mult_less_eq)
  have geo: "geometry ?e ?n"
    using assms(1,3) by (auto simp: geometry_def intro: le_trans [OF div_times_less_eq_dividend])
  have room: "unat (pData b) + S + 2 * ?e < 2 ^ 64" using assms(2,5) by linarith
  obtain b' m' where c: "PoolBucket_Create elementSize b m = Some (b', m')"
    and lk: "linked m' (pData b') (head b') (created_refs ?e ?n)"
    and b': "b' = b\<lparr>head := mk_TaggedIndex 0 0, globalTag := word_of_nat (?n - 1)\<rparr>"
    and so: "same_outside (links (pData b) (block_offsets ?e ?n)) m m'"
    using PoolBucket_Create_linked [OF geo refl assms(4) n room] by blast
  have "links (pData b) (block_offsets ?e ?n) \<subseteq> span (pData b) S"
    by (rule links_block_offsets [OF geo]) (rule div_times_less_eq_dividend)
  then have "same_outside (span (pData b) S) m m'" using so by (rule same_outside_mono [rotated])
  moreover have "0 < ?n" using n by simp
  ultimately show ?thesis
    using c b' linked_chain [OF lk] created_refs_offsets [of ?n ?e] by auto
qed

section \<open>Properties\<close>

text \<open>
  (C18) \<open>Create\<close> returns (its loop has no bound in the source), the free list is then exactly the
  blocks that fit into the bucket, in address order, and only bytes of the bucket are written.
\<close>

theorem PoolBucket_Create_all_blocks:
  assumes "8 \<le> unat elementSize" and "unat elementSize \<le> S" and "S \<le> 2 ^ 32"
    and "unat (pDataEnd b) = unat (pData b) + S" and "unat (pData b) + 3 * S < 2 ^ 64"
  shows "\<exists>b' m'. PoolBucket_Create elementSize b m = Some (b', m') \<and>
    chain m' (pData b') (head b') (block_offsets (unat elementSize) (S div unat elementSize)) \<and>
    globalTag b' = word_of_nat (S div unat elementSize - 1) \<and> pData b' = pData b \<and>
    same_outside (span (pData b) S) m m'"
  using assms by (rule PoolBucket_Create_chain)

theorem PoolBucket_Create_all_blocks_witness:
  "\<exists>b' m'. PoolBucket_Create 16 (PoolBucket_init\<lparr>pData := 4096, pDataEnd := 4160\<rparr>) (\<lambda>_. 0) = Some (b', m') \<and>
    chain m' (pData b') (head b') [0, 16, 32, 48]"
  using PoolBucket_Create_all_blocks [of 16 64 "PoolBucket_init\<lparr>pData := 4096, pDataEnd := 4160\<rparr>" "\<lambda>_. 0"]
  by (auto simp: block_offsets_def upt_rec)

text \<open>
  From any free list, repeated \<open>Alloc\<close> calls hand out every free block exactly once, in list
  order, at distinct addresses, and then return the null pointer.
\<close>

theorem pool_drain:
  assumes "pool_holds e n (b, m) xs"
  shows "\<exists>s'. pops pool_pop (length xs) (b, m) = (map (\<lambda>x. pData b + ucast x) xs, s') \<and>
    pool_pop s' = (0, s') \<and> distinct (map (\<lambda>x. pData b + ucast x) xs)"
proof -
  obtain s' where s': "pops pool_pop (length xs) (b, m) = (map (\<lambda>x. pData b + ucast x) xs, s')"
      "pool_pop s' = (0, s')"
    using bucket.drain_then_null [OF assms] by auto
  have "distinct xs" using bucket.holds_blocks [OF assms] by simp
  then have "distinct (map (\<lambda>x. pData b + ucast x) xs)" by (simp add: distinct_map inj_on_def)
  with s' show ?thesis by blast
qed

theorem pool_drain_witness:
  "\<exists>s'. pops pool_pop 2 (PoolBucket_init\<lparr>pData := 4096, pDataEnd := 4128, head := mk_TaggedIndex 0 16\<rparr>,
      store64 (store64 (\<lambda>_. 0) 4112 (mk_TaggedIndex 1 0)) 4096 TaggedIndex_Invalid) = ([4112, 4096], s')"
proof -
  let ?b = "PoolBucket_init\<lparr>pData := 4096, pDataEnd := 4128, head := mk_TaggedIndex 0 16\<rparr>"
  let ?m = "store64 (store64 (\<lambda>_. 0) 4112 (mk_TaggedIndex 1 0)) 4096 TaggedIndex_Invalid"
  have "span 4112 8 \<inter> span (4096 :: addr) 8 = {}"
    using span_disjoint_nat [of 4096 8 4112 8] by auto
  then have "load64 ?m 4112 = mk_TaggedIndex 1 0"
    using same_outside_load64 [OF same_outside_store64, of 4112 4096] by simp
  then have "pool_holds 16 2 (?b, ?m) [16, 0]"
    by (simp add: pool_holds_def geometry_def PoolBucket_init_def block_offsets_def mk_TaggedIndex_valid upt_rec)
  moreover have "length [16, 0 :: u32] = 2" by simp
  ultimately show ?thesis
    using pool_drain [of 16 2 ?b ?m "[16, 0]"] by (simp only:) (auto simp: PoolBucket_init_def)
qed

text \<open>
  \<open>FreeInterval\<close> puts a linked run of blocks in front of the free list; it uses one tag and
  writes only the link of the last block of the run.
\<close>

theorem FreeInterval_attaches_segment:
  assumes "geometry e n" "xs \<noteq> []" "distinct (xs @ ys)" "set (xs @ ys) \<subseteq> set (block_offsets e n)"
    and "path m (pData b) xs" "chain m (pData b) (head b) ys"
    and "PoolBucket_FreeInterval (pData b + ucast (hd xs)) (pData b + ucast (last xs)) m b = (m', b')"
  shows "chain m' (pData b') (head b') (xs @ ys) \<and> globalTag b' = globalTag b + 1 \<and>
    same_outside (span (pData b + ucast (last xs)) 8) m m'"
  using FreeInterval_chain [OF assms] by simp

theorem FreeInterval_attaches_segment_witness:
  "let b = PoolBucket_init\<lparr>pData := 4096\<rparr>; m = store64 (\<lambda>_. 0) 4096 (mk_TaggedIndex 5 16);
       (m', b') = PoolBucket_FreeInterval 4096 4112 m b
   in chain m' (pData b') (head b') [0, 16]"
proof -
  let ?b = "PoolBucket_init\<lparr>pData := 4096\<rparr>" and ?m = "store64 (\<lambda>_. 0) 4096 (mk_TaggedIndex 5 16)"
  obtain m' b' where f: "PoolBucket_FreeInterval 4096 4112 ?m ?b = (m', b')"
    by (cases "PoolBucket_FreeInterval 4096 4112 ?m ?b")
  have "chain m' (pData b') (head b') ([0, 16] @ [])"
    using FreeInterval_attaches_segment [of 16 2 "[0, 16]" "[]" ?m ?b m' b'] f
    by (simp add: geometry_def PoolBucket_init_def block_offsets_def mk_TaggedIndex_valid upt_rec)
  then show ?thesis by (simp add: f)
qed

text \<open>
  A block given back is the next one handed out, and the free list is as before.
\<close>

theorem pool_free_then_alloc:
  assumes "pool_holds e n (b, m) xs" and "x \<in> set (block_offsets e n)" and "x \<notin> set xs"
  shows "\<exists>s'. pool_pop (pool_push (pData b + ucast x) (b, m)) = (pData b + ucast x, s') \<and> pool_holds e n s' xs"
  using bucket.pop_after_push [OF assms]
  by (cases "pool_pop (pool_push (pData b + ucast x) (b, m))") simp

theorem pool_free_then_alloc_witness:
  "\<exists>s'. pool_pop (pool_push 4112 (PoolBucket_init\<lparr>pData := 4096\<rparr>, \<lambda>_. 0)) = (4112, s') \<and> pool_holds 16 2 s' []"
  using pool_free_then_alloc [of 16 2 "PoolBucket_init\<lparr>pData := 4096\<rparr>" "\<lambda>_. 0" "[]" 16]
  by (simp add: pool_holds_def geometry_def PoolBucket_init_def block_offsets_def upt_rec)

text \<open>
  When the element is larger than the bucket (small \<open>bucketSizeInBytes\<close>, high bucket index),
  \<open>Create\<close> still makes one block, and \<open>Alloc\<close> hands it out although it ends beyond the bucket.
\<close>

theorem Create_oversized_element:
  assumes "8 \<le> unat elementSize" and "S < unat elementSize" and "unat elementSize \<le> 2 ^ 32"
    and "unat (pDataEnd b) = unat (pData b) + S" and "unat (pData b) + S + 2 * unat elementSize < 2 ^ 64"
  shows "\<exists>b' m' b''. PoolBucket_Create elementSize b m = Some (b', m') \<and>
    PoolBucket_Alloc m' b' = (pData b, b'') \<and> pDataEnd b < pData b + elementSize"
proof -
  let ?e = "unat elementSize"
  have geo: "geometry ?e 1" using assms by (simp add: geometry_def)
  have n: "1 = max 1 (S div ?e)" using assms(2) by simp
  obtain b' m' where c: "PoolBucket_Create elementSize b m = Some (b', m')"
    and lk: "linked m' (pData b') (head b') (created_refs ?e 1)"
    and b': "b' = b\<lparr>head := mk_TaggedIndex 0 0, globalTag := word_of_nat (1 - 1)\<rparr>"
    using PoolBucket_Create_linked [OF geo refl assms(4) n assms(5)] by blast
  have "chain m' (pData b') (head b') [0]" using linked_chain [OF lk] by (simp add: created_refs_def)
  from PoolBucket_Alloc_chain [OF this] have "\<exists>b''. PoolBucket_Alloc m' b' = (pData b, b'')" by (simp add: b')
  moreover have "pDataEnd b < pData b + elementSize"
    using assms by (simp add: word_less_nat_alt unat_add_small)
  ultimately show ?thesis using c by blast
qed

theorem Create_oversized_element_witness:
  "\<exists>b' m' b''. PoolBucket_Create 8192 (PoolBucket_init\<lparr>pData := 4096, pDataEnd := 8192\<rparr>) (\<lambda>_. 0) = Some (b', m') \<and>
    PoolBucket_Alloc m' b' = (4096, b'') \<and> (8192 :: addr) < 4096 + 8192"
  using Create_oversized_element [of 8192 4096 "PoolBucket_init\<lparr>pData := 4096, pDataEnd := 8192\<rparr>" "\<lambda>_. 0"]
  by simp

text \<open>
  Offsets are 32 bits wide: after freeing a block that lies 4 GiB or more above \<open>pData\<close>, the
  next \<open>Alloc\<close> returns a different address, the one with the offset reduced modulo \<open>2^32\<close>.
\<close>

theorem offsets_beyond_4GiB_alias:
  assumes "PoolBucket_FreeInterval p p m b = (m', b')"
    and "mk_TaggedIndex (globalTag b) (ucast (p - pData b)) \<noteq> TaggedIndex_Invalid"
  shows "fst (PoolBucket_Alloc m' b') = pData b + ((p - pData b) AND mask 32)"
proof -
  have u: "(ucast (ucast (p - pData b) :: u32) :: addr) = (p - pData b) AND mask 32"
    by (rule bit_word_eqI) (auto simp: bit_simps)
  show ?thesis using assms
    by (auto simp: PoolBucket_FreeInterval_eq PoolBucket_Alloc_nonempty u)
qed

theorem offsets_beyond_4GiB_alias_witness:
  "let b = PoolBucket_init\<lparr>pData := 4096\<rparr>;
       (m', b') = PoolBucket_FreeInterval (4096 + 2 ^ 32) (4096 + 2 ^ 32) (\<lambda>_. 0) b
   in fst (PoolBucket_Alloc m' b') = 4096"
proof -
  let ?b = "PoolBucket_init\<lparr>pData := 4096\<rparr>" and ?p = "4096 + 2 ^ 32"
  obtain m' b' where f: "PoolBucket_FreeInterval ?p ?p (\<lambda>_. 0) ?b = (m', b')"
    by (cases "PoolBucket_FreeInterval ?p ?p (\<lambda>_. 0) ?b")
  have "fst (PoolBucket_Alloc m' b') = 4096"
    using offsets_beyond_4GiB_alias [OF f]
    by (simp add: PoolBucket_init_def mk_TaggedIndex_valid mask_eq_exp_minus_1)
  then show ?thesis using f by simp
qed

end
