(* ===== verification/Pool_Concurrency.thy ===== *)
theory Pool_Concurrency
  imports Tagged_Pool
begin

text \<open>
  Interleaved executions of \<open>PoolBucket::Alloc\<close> and \<open>PoolBucket::FreeInterval\<close> by any number of
  threads on one bucket. Every access of the source to shared memory (\<open>head.load\<close>, the read
  of the link in a block, \<open>globalTag.fetch_add\<close>, the write of the link, the two
  \<open>compare_exchange_strong\<close>) is one step of the relation \<open>pool_step\<close>; the steps of different
  threads interleave freely, and a thread that owns a block may overwrite it at any time.
  The model is sequentially consistent: the plain link accesses are not reordered.

  The fields \<open>owned\<close> and \<open>issued\<close> are ghosts: who holds which block, and how many tags have
  been taken from \<open>globalTag\<close>. The relation has a parameter \<open>P\<close> that says which linked runs of
  blocks the callers of \<open>FreeInterval\<close> pass.
\<close>

section \<open>States and steps\<close>

datatype pc =
    Idle
  | AllocLoop TaggedIndex \<comment> \<open>\<open>headValue\<close> at the top of the loop\<close>
  | AllocCas TaggedIndex addr TaggedIndex \<comment> \<open>\<open>headValue\<close>, \<open>p\<close>, \<open>nextValue\<close> before the exchange\<close>
  | FreeTag "u32 list" \<comment> \<open>\<open>FreeInterval\<close> entered with the run of blocks\<close>
  | FreeLoad "u32 list" TaggedIndex \<comment> \<open>\<open>nodeValue\<close> built, before \<open>head.load()\<close>\<close>
  | FreeStore "u32 list" TaggedIndex TaggedIndex \<comment> \<open>\<open>nodeValue\<close>, \<open>headValue\<close> before the link is written\<close>
  | FreeCas "u32 list" TaggedIndex TaggedIndex \<comment> \<open>\<open>nodeValue\<close>, \<open>headValue\<close> before the exchange\<close>

record pool_state =
  bkt :: PoolBucket
  mem :: memory
  pcs :: "nat \<Rightarrow> pc"
  owned :: "nat \<Rightarrow> u32 set"
  issued :: nat

text \<open>The blocks a thread is handing back: they belong to the operation until it succeeds.\<close>

fun pending :: "pc \<Rightarrow> u32 set" where
  "pending (FreeTag xs) = set xs"
| "pending (FreeLoad xs nv) = set xs"
| "pending (FreeStore xs nv hv) = set xs"
| "pending (FreeCas xs nv hv) = set xs"
| "pending _ = {}"

abbreviation set_pc :: "nat \<Rightarrow> pc \<Rightarrow> pool_state \<Rightarrow> pool_state" where
  "set_pc t c s \<equiv> s\<lparr>pcs := (pcs s)(t := c)\<rparr>"

abbreviation set_head :: "TaggedIndex \<Rightarrow> pool_state \<Rightarrow> pool_state" where
  "set_head h s \<equiv> s\<lparr>bkt := (bkt s)\<lparr>head := h\<rparr>\<rparr>"

text \<open>Which linked runs of blocks the callers pass to \<open>FreeInterval\<close>: \<open>Allocator::Free\<close> passes one
  block; \<open>ReturnL1CacheToMaster\<close> links its blocks with the local tags \<open>0xFFFFFF\<close>, \<open>0x1000000\<close>, \ldots\<close>

type_synonym runs = "memory \<Rightarrow> addr \<Rightarrow> u32 list \<Rightarrow> bool"

definition single_run :: runs where
  "single_run m base xs \<longleftrightarrow> length xs = 1"

definition returned_run :: runs where
  "returned_run m base xs \<longleftrightarrow>
     (\<forall>i < length xs - 1. load64 m (base + ucast (xs ! i)) =
        mk_TaggedIndex (0xFFFFFF + word_of_nat i) (xs ! (i + 1)))"

inductive pool_step :: "runs \<Rightarrow> nat \<Rightarrow> nat \<Rightarrow> pool_state \<Rightarrow> pool_state \<Rightarrow> bool"
  for P :: runs and e :: nat
where
  alloc_call: "pcs s t = Idle \<Longrightarrow> pool_step P e t s (set_pc t (AllocLoop (head (bkt s))) s)"
| alloc_null: "pcs s t = AllocLoop TaggedIndex_Invalid \<Longrightarrow> pool_step P e t s (set_pc t Idle s)"
| alloc_read: "pcs s t = AllocLoop hv \<Longrightarrow> hv \<noteq> TaggedIndex_Invalid \<Longrightarrow>
     p = pData (bkt s) + ucast (ti_offset hv) \<Longrightarrow>
     pool_step P e t s (set_pc t (AllocCas hv p (load64 (mem s) p)) s)"
| alloc_success: "pcs s t = AllocCas hv p nv \<Longrightarrow>
     compare_exchange_strong (head (bkt s)) hv nv = (True, h', hv') \<Longrightarrow>
     pool_step P e t s
       ((set_pc t Idle (set_head h' s))\<lparr>owned := (owned s)(t := insert (ti_offset hv) (owned s t))\<rparr>)"
| alloc_retry: "pcs s t = AllocCas hv p nv \<Longrightarrow>
     compare_exchange_strong (head (bkt s)) hv nv = (False, h', hv') \<Longrightarrow>
     pool_step P e t s (set_pc t (AllocLoop hv') s)"
| free_call: "pcs s t = Idle \<Longrightarrow> xs \<noteq> [] \<Longrightarrow> distinct xs \<Longrightarrow> set xs \<subseteq> owned s t \<Longrightarrow>
     P (mem s) (pData (bkt s)) xs \<Longrightarrow>
     pool_step P e t s ((set_pc t (FreeTag xs) s)\<lparr>owned := (owned s)(t := owned s t - set xs)\<rparr>)"
| free_tag: "pcs s t = FreeTag xs \<Longrightarrow>
     nv = mk_TaggedIndex (globalTag (bkt s)) (hd xs) \<Longrightarrow>
     pool_step P e t s
       ((set_pc t (FreeLoad xs nv) s)\<lparr>bkt := (bkt s)\<lparr>globalTag := globalTag (bkt s) + 1\<rparr>,
          issued := issued s + 1\<rparr>)"
| free_load: "pcs s t = FreeLoad xs nv \<Longrightarrow>
     pool_step P e t s (set_pc t (FreeStore xs nv (head (bkt s))) s)"
| free_store: "pcs s t = FreeStore xs nv hv \<Longrightarrow>
     pool_step P e t s
       ((set_pc t (FreeCas xs nv hv) s)
          \<lparr>mem := store64 (mem s) (pData (bkt s) + ucast (last xs)) hv\<rparr>)"
| free_success: "pcs s t = FreeCas xs nv hv \<Longrightarrow>
     compare_exchange_strong (head (bkt s)) hv nv = (True, h', hv') \<Longrightarrow>
     pool_step P e t s (set_pc t Idle (set_head h' s))"
| free_retry: "pcs s t = FreeCas xs nv hv \<Longrightarrow>
     compare_exchange_strong (head (bkt s)) hv nv = (False, h', hv') \<Longrightarrow>
     pool_step P e t s (set_pc t (FreeStore xs nv hv') s)"
| client_write: "pcs s t = Idle \<Longrightarrow> x \<in> owned s t \<Longrightarrow> a \<in> span (pData (bkt s) + ucast x) e \<Longrightarrow>
     pool_step P e t s (s\<lparr>mem := (mem s)(a := v)\<rparr>)"

text \<open>The states right after \<open>Create\<close>, and the states reachable from them.\<close>

definition pool_start :: "nat \<Rightarrow> nat \<Rightarrow> pool_state \<Rightarrow> bool" where
  "pool_start e n s \<longleftrightarrow> geometry e n \<and> 2 \<le> n \<and>
     linked (mem s) (pData (bkt s)) (head (bkt s)) (created_refs e n) \<and>
     globalTag (bkt s) = word_of_nat (n - 1) \<and> issued s = n - 1 \<and>
     pcs s = (\<lambda>_. Idle) \<and> owned s = (\<lambda>_. {})"

inductive pool_reachable :: "runs \<Rightarrow> nat \<Rightarrow> nat \<Rightarrow> pool_state \<Rightarrow> bool"
  for P :: runs and e :: nat and n :: nat
where
  start: "pool_start e n s \<Longrightarrow> pool_reachable P e n s"
| step: "pool_reachable P e n s \<Longrightarrow> pool_step P e t s s' \<Longrightarrow> pool_reachable P e n s'"

lemma compare_exchange_success [simp]:
  "compare_exchange_strong c ex d = (True, c', ex') \<longleftrightarrow> c = ex \<and> c' = d \<and> ex' = ex"
  by (auto simp: compare_exchange_strong_def)

lemma compare_exchange_failure [simp]:
  "compare_exchange_strong c ex d = (False, c', ex') \<longleftrightarrow> c \<noteq> ex \<and> c' = c \<and> ex' = c"
  by (auto simp: compare_exchange_strong_def)

section \<open>The invariant for single-block runs\<close>

inductive_cases pool_stepE: "pool_step P e t s s'"

text \<open>\<open>shares H F B\<close>: the items \<open>B\<close> are divided among the holders \<open>H t\<close> and the pool \<open>F\<close>.\<close>

definition shares :: "(nat \<Rightarrow> 'a set) \<Rightarrow> 'a set \<Rightarrow> 'a set \<Rightarrow> bool" where
  "shares H F B \<longleftrightarrow> (\<forall>t u. t \<noteq> u \<longrightarrow> H t \<inter> H u = {}) \<and> (\<forall>t. H t \<inter> F = {}) \<and> F \<union> (\<Union>t. H t) = B"

lemma shares_take:
  assumes "shares H (insert x F) B" "x \<notin> F"
  shows "shares (H(t := insert x (H t))) F B"
proof -
  have "(\<Union>u. (H(t := insert x (H t))) u) = insert x (\<Union>u. H u)" by (auto split: if_splits)
  moreover have "x \<notin> H u" "H u \<inter> F = {}" for u using assms(1) by (auto simp: shares_def)
  ultimately show ?thesis using assms by (auto simp: shares_def)
qed

lemma shares_give:
  assumes "shares H F B" "x \<in> H t"
  shows "shares (H(t := H t - {x})) (insert x F) B"
proof -
  have "x \<notin> H u" if "u \<noteq> t" for u using assms that by (auto simp: shares_def)
  then have "H(t := H t - {x}) = (\<lambda>u. H u - {x})" by (auto simp: fun_eq_iff)
  then show ?thesis using assms unfolding shares_def by auto
qed

abbreviation holds :: "pool_state \<Rightarrow> nat \<Rightarrow> u32 set" where
  "holds s \<equiv> (\<lambda>t. owned s t \<union> pending (pcs s t))"

text \<open>Every block is in exactly one place: in the free list \<open>rs\<close>, owned by one thread, or part of
  the \<open>FreeInterval\<close> call of one thread.\<close>

definition partitioned :: "nat \<Rightarrow> nat \<Rightarrow> pool_state \<Rightarrow> TaggedIndex list \<Rightarrow> bool" where
  "partitioned e n s rs \<longleftrightarrow>
     distinct (map ti_offset rs) \<and> (\<forall>t. owned s t \<inter> pending (pcs s t) = {}) \<and>
     shares (holds s) (ti_offset ` set rs) (set (block_offsets e n))"

fun pc_ok :: "addr \<Rightarrow> memory \<Rightarrow> nat \<Rightarrow> TaggedIndex set \<Rightarrow> TaggedIndex set \<Rightarrow> pc \<Rightarrow> bool" where
  "pc_ok base m k rs used Idle \<longleftrightarrow> True"
| "pc_ok base m k rs used (AllocLoop hv) \<longleftrightarrow> hv = TaggedIndex_Invalid \<or> hv \<in> used"
| "pc_ok base m k rs used (AllocCas hv p nv) \<longleftrightarrow>
     hv \<in> used \<and> p = base + ucast (ti_offset hv) \<and> (hv \<in> rs \<longrightarrow> nv = load64 m p)"
| "pc_ok base m k rs used (FreeTag xs) \<longleftrightarrow> length xs = 1"
| "pc_ok base m k rs used (FreeLoad xs nv) \<longleftrightarrow>
     xs = [ti_offset nv] \<and> nv \<notin> used \<and> unat (ti_tag nv) < k"
| "pc_ok base m k rs used (FreeStore xs nv hv) \<longleftrightarrow>
     xs = [ti_offset nv] \<and> nv \<notin> used \<and> unat (ti_tag nv) < k"
| "pc_ok base m k rs used (FreeCas xs nv hv) \<longleftrightarrow>
     xs = [ti_offset nv] \<and> nv \<notin> used \<and> unat (ti_tag nv) < k \<and>
     load64 m (base + ucast (ti_offset nv)) = hv"

definition pool_inv :: "nat \<Rightarrow> nat \<Rightarrow> pool_state \<Rightarrow> TaggedIndex list \<Rightarrow> TaggedIndex set \<Rightarrow> bool" where
  "pool_inv e n s rs used \<longleftrightarrow>
     geometry e n \<and> partitioned e n s rs \<and>
     linked (mem s) (pData (bkt s)) (head (bkt s)) rs \<and>
     set rs \<subseteq> used \<and> TaggedIndex_Invalid \<notin> used \<and> (\<forall>r \<in> used. unat (ti_tag r) < issued s) \<and>
     globalTag (bkt s) = word_of_nat (issued s) \<and>
     (\<forall>t. pc_ok (pData (bkt s)) (mem s) (issued s) (set rs) used (pcs s t))"

text \<open>Memory changes inside a block that a thread holds are not seen by the others.\<close>

lemma block_frame:
  assumes "geometry e n" "same_outside (span (base + ucast x) e) m m'"
    and "x \<in> set (block_offsets e n)" "y \<in> set (block_offsets e n)" "x \<noteq> y"
  shows "load64 m' (base + ucast y) = load64 m (base + ucast y)"
  using assms(2)
proof (rule same_outside_load64)
  have "span (base + ucast y) e \<inter> span (base + ucast x) e = {}"
    using assms by (intro block_spans_disjoint [of n e]) (auto simp: geometry_def)
  moreover have "span (base + ucast y) 8 \<subseteq> span (base + ucast y) e"
    using assms(1) by (intro span_mono) (simp add: geometry_def)
  ultimately show "span (base + ucast y) 8 \<inter> span (base + ucast x) e = {}" by blast
qed

lemma linked_block_frame:
  assumes "geometry e n" "same_outside (span (base + ucast x) e) m m'"
    and "x \<in> set (block_offsets e n)" "ti_offset ` set rs \<subseteq> set (block_offsets e n)" "x \<notin> ti_offset ` set rs"
  shows "linked m' base h rs = linked m base h rs"
  using assms(4,5)
proof (induction rs arbitrary: h)
  case (Cons r rs)
  have "load64 m' (base + ucast (ti_offset r)) = load64 m (base + ucast (ti_offset r))"
    using Cons.prems by (intro block_frame [OF assms(1,2,3)]) auto
  then show ?case using Cons by auto
qed simp

lemma partitioned_blocks:
  assumes "partitioned e n s rs"
  shows "ti_offset ` set rs \<subseteq> set (block_offsets e n)" "x \<in> holds s t \<Longrightarrow> x \<in> set (block_offsets e n)"
    "x \<in> holds s t \<Longrightarrow> x \<notin> ti_offset ` set rs" "x \<in> holds s t \<Longrightarrow> x \<in> holds s u \<Longrightarrow> t = u"
  using assms unfolding partitioned_def shares_def by blast+

lemma pc_ok_frame:
  assumes geo: "geometry e n" and so: "same_outside (span (base + ucast x) e) m m'"
    and x: "x \<in> set (block_offsets e n)" "x \<notin> ti_offset ` rs" "x \<notin> pending c"
    and blk: "ti_offset ` rs \<subseteq> set (block_offsets e n)" "pending c \<subseteq> set (block_offsets e n)"
    and ok: "pc_ok base m k rs used c"
  shows "pc_ok base m' k rs used c"
proof (cases c)
  case (AllocCas hv p nv)
  have "load64 m' p = load64 m p" if "hv \<in> rs"
    using AllocCas ok that x(2) blk(1) by (auto intro!: block_frame [OF geo so x(1)])
  then show ?thesis using AllocCas ok by auto
next
  case (FreeCas xs nv hv)
  have "load64 m' (base + ucast (ti_offset nv)) = load64 m (base + ucast (ti_offset nv))"
    using FreeCas ok x(3) blk(2) by (intro block_frame [OF geo so x(1)]) auto
  then show ?thesis using FreeCas ok by auto
qed (use ok in auto)

lemma pc_ok_mono:
  "pc_ok base m k rs used c \<Longrightarrow> k \<le> k' \<Longrightarrow> rs' \<subseteq> rs \<Longrightarrow> pc_ok base m k' rs' used c"
  by (cases c) auto

lemma linked_head: "linked m base h rs \<Longrightarrow> rs = [] \<longleftrightarrow> h = TaggedIndex_Invalid"
  by (cases rs) auto

lemma linked_headE:
  assumes "linked m base h rs" "h \<noteq> TaggedIndex_Invalid"
  obtains rs' where "rs = h # rs'" "linked m base (load64 m (base + ucast (ti_offset h))) rs'"
  using assms by (cases rs) auto


lemma pool_invD:
  assumes "pool_inv e n s rs used"
  shows "geometry e n" "partitioned e n s rs" "linked (mem s) (pData (bkt s)) (head (bkt s)) rs"
    "set rs \<subseteq> used" "r \<in> used \<Longrightarrow> unat (ti_tag r) < issued s"
    "globalTag (bkt s) = word_of_nat (issued s)"
    "pc_ok (pData (bkt s)) (mem s) (issued s) (set rs) used (pcs s t)"
    "TaggedIndex_Invalid \<notin> used"
  using assms by (auto simp: pool_inv_def)

lemma pool_inv_head:
  "pool_inv e n s rs used \<Longrightarrow> head (bkt s) = TaggedIndex_Invalid \<or> head (bkt s) \<in> used"
  using pool_invD(3,4) [of e n s rs used] by (cases rs) auto

text \<open>A step that only moves the program counter.\<close>

lemma pool_inv_set_pc:
  assumes inv: "pool_inv e n s rs used" and p: "pending c = pending (pcs s t)"
    and ok: "pc_ok (pData (bkt s)) (mem s) (issued s) (set rs) used c"
  shows "pool_inv e n (set_pc t c s) rs used"
proof -
  have h: "holds (set_pc t c s) = holds s" using p by (auto simp: fun_eq_iff)
  have "partitioned e n (set_pc t c s) rs"
    using pool_invD(2) [OF inv] p unfolding partitioned_def h by auto
  then show ?thesis using inv ok by (simp add: pool_inv_def)
qed

text \<open>A thread takes blocks over from itself: \<open>FreeInterval\<close> is called.\<close>

lemma pool_inv_free_call:
  assumes inv: "pool_inv e n s rs used" and "pcs s t = Idle" "set xs \<subseteq> owned s t" "length xs = 1"
  shows "pool_inv e n ((set_pc t (FreeTag xs) s)\<lparr>owned := (owned s)(t := owned s t - set xs)\<rparr>) rs used"
    (is "pool_inv e n ?s rs used")
proof -
  have h: "holds ?s = holds s" using assms(2,3) by (auto simp: fun_eq_iff)
  have "owned ?s u \<inter> pending (pcs ?s u) = {}" for u
    using pool_invD(2) [OF inv] by (auto simp: partitioned_def)
  then have "partitioned e n ?s rs"
    using pool_invD(2) [OF inv] unfolding partitioned_def h by blast
  then show ?thesis using inv assms(4) by (simp add: pool_inv_def)
qed

text \<open>A pop: by the invariant the successor read earlier is still the right one.\<close>

lemma pool_inv_pop:
  assumes inv: "pool_inv e n s rs used" and pc: "pcs s t = AllocCas hv p nv" and hd: "head (bkt s) = hv"
    and hv: "hv \<noteq> TaggedIndex_Invalid"
  shows "\<exists>rs'. rs = hv # rs' \<and> pool_inv e n
     ((set_pc t Idle (set_head nv s))\<lparr>owned := (owned s)(t := insert (ti_offset hv) (owned s t))\<rparr>) rs' used"
    (is "\<exists>rs'. _ \<and> pool_inv e n ?s rs' used")
proof -
  note I = pool_invD [OF inv]
  obtain rs' where rs: "rs = hv # rs'"
    and l: "linked (mem s) (pData (bkt s)) (load64 (mem s) (pData (bkt s) + ucast (ti_offset hv))) rs'"
    using I(3) hd hv by (auto elim: linked_headE)
  have nv: "nv = load64 (mem s) (pData (bkt s) + ucast (ti_offset hv))" using I(7) [of t] pc rs by auto
  have h: "holds ?s = (holds s)(t := insert (ti_offset hv) (holds s t))"
    using pc by (auto simp: fun_eq_iff)
  have "shares (holds ?s) (ti_offset ` set rs') (set (block_offsets e n))"
    unfolding h using I(2) rs by (intro shares_take) (auto simp: partitioned_def)
  then have part: "partitioned e n ?s rs'"
    using I(2) pc rs unfolding partitioned_def by auto
  have "pc_ok (pData (bkt s)) (mem s) (issued s) (set rs') used (pcs s u)" for u
    using I(7) [of u] rs by (elim pc_ok_mono) auto
  then have "pool_inv e n ?s rs' used"
    using I part l nv rs unfolding pool_inv_def by auto
  then show ?thesis using rs by blast
qed

text \<open>A push: the tag is new, so no other thread has the pushed index in its registers.\<close>

lemma pool_inv_push:
  assumes inv: "pool_inv e n s rs used" and pc: "pcs s t = FreeCas xs nv hv" and hd: "head (bkt s) = hv"
  shows "pool_inv e n (set_pc t Idle (set_head nv s)) (nv # rs) (insert nv used)"
    (is "pool_inv e n ?s _ _")
proof -
  note I = pool_invD [OF inv]
  have t: "xs = [ti_offset nv]" "nv \<notin> used" "unat (ti_tag nv) < issued s"
    "load64 (mem s) (pData (bkt s) + ucast (ti_offset nv)) = hv"
    using I(7) [of t] pc by auto
  have x: "ti_offset nv \<in> holds s t" using pc t(1) by auto
  have "owned s t \<inter> pending (pcs s t) = {}" using I(2) by (simp add: partitioned_def)
  then have h: "holds ?s = (holds s)(t := holds s t - {ti_offset nv})"
    using pc t(1) by (auto simp: fun_eq_iff)
  have "shares (holds ?s) (ti_offset ` set (nv # rs)) (set (block_offsets e n))"
    unfolding h using I(2) x by (auto simp: partitioned_def intro!: shares_give)
  then have part: "partitioned e n ?s (nv # rs)"
    using I(2) pc partitioned_blocks(3) [OF I(2) x] unfolding partitioned_def by auto
  have "nv \<noteq> TaggedIndex_Invalid"
    using geometry_valid [OF I(1) partitioned_blocks(2) [OF I(2) x], of "ti_tag nv"] by simp
  then have l: "linked (mem s) (pData (bkt s)) nv (nv # rs)" using I(3) hd t(4) by simp
  have "pc_ok (pData (bkt s)) (mem s) (issued s) (set (nv # rs)) (insert nv used) (pcs s u)" if "u \<noteq> t" for u
  proof -
    have "ti_offset nv \<notin> pending (pcs s u)" using partitioned_blocks(4) [OF I(2) x, of u] that by blast
    then show ?thesis using I(7) [of u] t(2) by (cases "pcs s u") auto
  qed
  then show ?thesis using I part l t unfolding pool_inv_def by auto
qed

text \<open>Writes of a thread into a block it holds.\<close>

lemma pool_inv_write:
  assumes inv: "pool_inv e n s rs used" and x: "x \<in> holds s t"
    and so: "same_outside (span (pData (bkt s) + ucast x) e) (mem s) m'"
    and own: "pending c = pending (pcs s t)" "pc_ok (pData (bkt s)) m' (issued s) (set rs) used c"
  shows "pool_inv e n ((set_pc t c s)\<lparr>mem := m'\<rparr>) rs used"
proof -
  note I = pool_invD [OF inv] and B = partitioned_blocks [OF pool_invD(2) [OF inv]]
  have "pc_ok (pData (bkt s)) m' (issued s) (set rs) used (pcs s u)" if "u \<noteq> t" for u
  proof (rule pc_ok_frame [OF I(1) so])
    show "x \<notin> pending (pcs s u)" using B(4) [OF x, of u] that by blast
    show "pending (pcs s u) \<subseteq> set (block_offsets e n)" using B(2) [of _ u] by blast
  qed (use B x I(7) in auto)
  moreover have "linked m' (pData (bkt s)) (head (bkt s)) rs"
    using I(3) linked_block_frame [OF I(1) so B(2) [OF x] B(1) B(3) [OF x]] by simp
  moreover have "partitioned e n ((set_pc t c s)\<lparr>mem := m'\<rparr>) rs"
  proof -
    have h: "holds ((set_pc t c s)\<lparr>mem := m'\<rparr>) = holds s" using own(1) by (auto simp: fun_eq_iff)
    show ?thesis using I(2) own(1) unfolding partitioned_def h by auto
  qed
  ultimately show ?thesis using I own(2) unfolding pool_inv_def by auto
qed


lemma pool_inv_free_tag:
  assumes inv: "pool_inv e n s rs used" and pc: "pcs s t = FreeTag xs" and i: "issued s < 2 ^ 32"
    and nv: "nv = mk_TaggedIndex (globalTag (bkt s)) (hd xs)"
  shows "pool_inv e n ((set_pc t (FreeLoad xs nv) s)\<lparr>bkt := (bkt s)\<lparr>globalTag := globalTag (bkt s) + 1\<rparr>,
          issued := issued s + 1\<rparr>) rs used" (is "pool_inv e n ?s rs used")
proof -
  note I = pool_invD [OF inv]
  have tag: "unat (ti_tag nv) = issued s" using I(6) i nv by (simp add: unat_of_nat_small)
  have len: "length xs = 1" using I(7) [of t] pc by simp
  have ok: "pc_ok (pData (bkt s)) (mem s) (issued s + 1) (set rs) used (FreeLoad xs nv)"
    using tag I(5) [of nv] nv len by (auto simp: length_Suc_conv)
  have "holds ?s = holds s" using pc by (auto simp: fun_eq_iff)
  moreover have "owned ?s u \<inter> pending (pcs ?s u) = {}" for u
  proof -
    have "owned s t \<inter> set xs = {}" using I(2) pc unfolding partitioned_def by (metis pending.simps(1))
    then show ?thesis using I(2) by (auto simp: partitioned_def)
  qed
  ultimately have "partitioned e n ?s rs" using I(2) unfolding partitioned_def by simp
  moreover have "pc_ok (pData (bkt s)) (mem s) (issued s + 1) (set rs) used (pcs s u)" for u
    using I(7) [of u] by (rule pc_ok_mono) auto
  ultimately show ?thesis using I ok unfolding pool_inv_def by (auto intro: less_SucI)
qed

lemma issued_mono: "pool_step P e t s s' \<Longrightarrow> issued s \<le> issued s'"
  by (erule pool_stepE) auto

text \<open>The abstract pool: a stack of free blocks and what each thread holds.\<close>

inductive stack_step :: "nat \<Rightarrow> u32 list \<times> (nat \<Rightarrow> u32 set) \<Rightarrow> u32 list \<times> (nat \<Rightarrow> u32 set) \<Rightarrow> bool"
  for t :: nat
where
  pop: "stack_step t (x # xs, H) (xs, H(t := insert x (H t)))"
| push: "x \<in> H t \<Longrightarrow> stack_step t (xs, H) (x # xs, H(t := H t - {x}))"
| stutter: "stack_step t (xs, H) (xs, H)"

definition step_ok :: "nat \<Rightarrow> nat \<Rightarrow> nat \<Rightarrow> pool_state \<Rightarrow> pool_state \<Rightarrow> TaggedIndex list \<Rightarrow> bool" where
  "step_ok e n t s s' rs \<longleftrightarrow> (\<exists>rs' used'. pool_inv e n s' rs' used' \<and>
     stack_step t (map ti_offset rs, holds s) (map ti_offset rs', holds s'))"

lemma step_ok_stutter:
  assumes "pool_inv e n s' rs used" "holds s' = holds s"
  shows "step_ok e n t s s' rs"
proof -
  have "stack_step t (map ti_offset rs, holds s) (map ti_offset rs, holds s')"
    unfolding assms(2) by (rule stutter)
  then show ?thesis using assms(1) unfolding step_ok_def by blast
qed

lemma step_ok_set_pc:
  assumes "pool_inv e n s rs used" "pending c = pending (pcs s t)"
    and "pc_ok (pData (bkt s)) (mem s) (issued s) (set rs) used c"
  shows "step_ok e n t s (set_pc t c s) rs"
  using pool_inv_set_pc [OF assms] by (rule step_ok_stutter) (use assms(2) in \<open>auto simp: fun_eq_iff\<close>)

lemma step_ok_pop:
  assumes inv: "pool_inv e n s rs used" and pc: "pcs s t = AllocCas hv p nv" and hd: "head (bkt s) = hv"
  shows "step_ok e n t s
     ((set_pc t Idle (set_head nv s))\<lparr>owned := (owned s)(t := insert (ti_offset hv) (owned s t))\<rparr>) rs"
    (is "step_ok e n t s ?s rs")
proof -
  have "hv \<noteq> TaggedIndex_Invalid" using pool_invD(7) [OF inv, of t] pool_invD(8) [OF inv] pc by auto
  then obtain rs' where rs: "rs = hv # rs'" and inv': "pool_inv e n ?s rs' used"
    using pool_inv_pop [OF inv pc hd] by blast
  have h: "holds ?s = (holds s)(t := insert (ti_offset hv) (holds s t))"
    using pc by (auto simp: fun_eq_iff)
  have "stack_step t (map ti_offset rs, holds s) (map ti_offset rs', holds ?s)"
    unfolding h rs list.map by (rule pop)
  then show ?thesis using inv' unfolding step_ok_def by blast
qed

lemma step_ok_push:
  assumes inv: "pool_inv e n s rs used" and pc: "pcs s t = FreeCas xs nv hv" and hd: "head (bkt s) = hv"
  shows "step_ok e n t s (set_pc t Idle (set_head nv s)) rs" (is "step_ok e n t s ?s rs")
proof -
  have xs: "xs = [ti_offset nv]" using pool_invD(7) [OF inv, of t] pc by auto
  have "owned s t \<inter> pending (pcs s t) = {}" using pool_invD(2) [OF inv] by (simp add: partitioned_def)
  then have h: "holds ?s = (holds s)(t := holds s t - {ti_offset nv})"
    using pc xs by (auto simp: fun_eq_iff)
  have "stack_step t (map ti_offset rs, holds s) (map ti_offset (nv # rs), holds ?s)"
    unfolding h list.map by (rule push) (use pc xs in auto)
  then show ?thesis using pool_inv_push [OF inv pc hd] unfolding step_ok_def by blast
qed

lemma step_ok_write:
  assumes "pool_inv e n s rs used" "x \<in> holds s t"
    and "same_outside (span (pData (bkt s) + ucast x) e) (mem s) m'"
    and "pending c = pending (pcs s t)" "pc_ok (pData (bkt s)) m' (issued s) (set rs) used c"
  shows "step_ok e n t s ((set_pc t c s)\<lparr>mem := m'\<rparr>) rs"
  using pool_inv_write [OF assms] by (rule step_ok_stutter) (use assms(4) in \<open>auto simp: fun_eq_iff\<close>)

lemma pool_step_ok:
  assumes st: "pool_step single_run e t s s'" and inv: "pool_inv e n s rs used"
    and i: "issued s' \<le> 2 ^ 32"
  shows "step_ok e n t s s' rs"
  using st
proof (cases rule: pool_step.cases)
  case alloc_call
  then show ?thesis using step_ok_set_pc [OF inv, of "AllocLoop (head (bkt s))" t] pool_inv_head [OF inv] by auto
next
  case alloc_null
  then show ?thesis using step_ok_set_pc [OF inv, of Idle t] by auto
next
  case (alloc_read hv p)
  then show ?thesis
    using step_ok_set_pc [OF inv, of "AllocCas hv p (load64 (mem s) p)" t] pool_invD(7) [OF inv, of t] by auto
next
  case (alloc_success hv p nv h' hv')
  then show ?thesis using step_ok_pop [OF inv alloc_success(2)] by auto
next
  case (alloc_retry hv p nv h' hv')
  then show ?thesis
    using step_ok_set_pc [OF inv, of "AllocLoop hv'" t] pool_inv_head [OF inv] by auto
next
  case (free_call xs)
  then have "holds s' = holds s" by (auto simp: fun_eq_iff)
  then show ?thesis using free_call [unfolded single_run_def] pool_inv_free_call [OF inv, of t xs] by (intro step_ok_stutter) auto
next
  case (free_tag xs nv)
  then have "holds s' = holds s" by (auto simp: fun_eq_iff)
  then show ?thesis
    using free_tag pool_inv_free_tag [OF inv free_tag(2), of nv] i by (intro step_ok_stutter) auto
next
  case (free_load xs nv)
  then show ?thesis
    using step_ok_set_pc [OF inv, of "FreeStore xs nv (head (bkt s))" t] pool_invD(7) [OF inv, of t] by auto
next
  case (free_store xs nv hv)
  have x: "xs = [ti_offset nv]" "nv \<notin> used" "unat (ti_tag nv) < issued s"
    using pool_invD(7) [OF inv, of t] free_store(2) by auto
  have "same_outside (span (pData (bkt s) + ucast (ti_offset nv)) e) (mem s)
          (store64 (mem s) (pData (bkt s) + ucast (ti_offset nv)) hv)"
    using pool_invD(1) [OF inv] by (intro same_outside_mono [OF same_outside_store64] span_mono) (simp add: geometry_def)
  from step_ok_write [OF inv _ this, of t "FreeCas xs nv hv"] show ?thesis using free_store x by auto
next
  case (free_success xs nv hv h' hv')
  then show ?thesis using step_ok_push [OF inv free_success(2)] by auto
next
  case (free_retry xs nv hv h' hv')
  then show ?thesis
    using step_ok_set_pc [OF inv, of "FreeStore xs nv hv'" t] pool_invD(7) [OF inv, of t] by auto
next
  case (client_write x a v)
  have "same_outside (span (pData (bkt s) + ucast x) e) (mem s) ((mem s)(a := v))"
    using client_write(4) by (auto simp: same_outside_def)
  from step_ok_write [OF inv _ this, of t Idle] show ?thesis using client_write by (auto simp: fun_upd_idem)
qed

lemma created_refs_props:
  assumes "geometry e n" "2 \<le> n"
  shows "map ti_offset (created_refs e n) = block_offsets e n"
    "r \<in> set (created_refs e n) \<Longrightarrow> unat (ti_tag r) < n - 1"
    "TaggedIndex_Invalid \<notin> set (created_refs e n)"
proof -
  show o: "map ti_offset (created_refs e n) = block_offsets e n"
    using assms by (intro created_refs_offsets) auto
  have "n < 2 ^ 32" using assms(1) by (rule geometry_small)
  then show "unat (ti_tag r) < n - 1" if "r \<in> set (created_refs e n)"
    using that assms(2) by (auto simp: created_refs_def unat_of_nat_small simp del: of_nat_diff of_nat_mult)
  show "TaggedIndex_Invalid \<notin> set (created_refs e n)"
  proof
    assume "TaggedIndex_Invalid \<in> set (created_refs e n)"
    then have "ti_offset TaggedIndex_Invalid \<in> set (block_offsets e n)" using o by (metis image_eqI set_map)
    then show False using geometry_valid [OF assms(1), of _ "ti_tag TaggedIndex_Invalid"] by fastforce
  qed
qed

lemma pool_start_inv: "pool_start e n s \<Longrightarrow> pool_inv e n s (created_refs e n) (set (created_refs e n))"
proof -
  assume s: "pool_start e n s"
  then have g: "geometry e n" "2 \<le> n" by (auto simp: pool_start_def)
  note C = created_refs_props [OF g]
  have "partitioned e n s (created_refs e n)"
    using s geometry_distinct [OF g(1)] C(1)
    by (auto simp: partitioned_def shares_def pool_start_def simp flip: list.set_map)
  then show ?thesis using s C unfolding pool_inv_def pool_start_def by auto
qed

lemma pool_reachable_inv:
  "pool_reachable single_run e n s \<Longrightarrow> issued s \<le> 2 ^ 32 \<Longrightarrow> \<exists>rs used. pool_inv e n s rs used"
proof (induction rule: pool_reachable.induct)
  case (start s)
  then show ?case using pool_start_inv by blast
next
  case (step s t s')
  then obtain rs used where "pool_inv e n s rs used" using issued_mono [OF step(2)] by auto
  with step show ?case using pool_step_ok unfolding step_ok_def by blast
qed

section \<open>Operations that run without interference\<close>

text \<open>What \<open>Alloc\<close>, \<open>FreeInterval\<close> and a client write of eight bytes do when thread \<open>t\<close> runs them to
  the end while no other thread moves: the sequential operations.\<close>

definition run_alloc :: "nat \<Rightarrow> pool_state \<Rightarrow> pool_state" where
  "run_alloc t s =
     (if head (bkt s) = TaggedIndex_Invalid then s
      else s\<lparr>bkt := snd (PoolBucket_Alloc (mem s) (bkt s)),
             owned := (owned s)(t := insert (ti_offset (head (bkt s))) (owned s t))\<rparr>)"

definition run_free :: "nat \<Rightarrow> u32 list \<Rightarrow> pool_state \<Rightarrow> pool_state" where
  "run_free t xs s =
     (let (m, b) = PoolBucket_FreeInterval (pData (bkt s) + ucast (hd xs)) (pData (bkt s) + ucast (last xs))
                     (mem s) (bkt s)
      in s\<lparr>bkt := b, mem := m, owned := (owned s)(t := owned s t - set xs), issued := issued s + 1\<rparr>)"

definition run_write :: "u32 \<Rightarrow> u64 \<Rightarrow> pool_state \<Rightarrow> pool_state" where
  "run_write x v s = s\<lparr>mem := store64 (mem s) (pData (bkt s) + ucast x) v\<rparr>"

lemma set_pc_Idle: "pcs s t = Idle \<Longrightarrow> (pcs s)(t := Idle) = pcs s"
  by (rule fun_upd_idem)

lemma steps3: "R a b \<Longrightarrow> R b c \<Longrightarrow> R c d \<Longrightarrow> R\<^sup>*\<^sup>* a d"
  by (elim converse_rtranclp_into_rtranclp) (rule rtranclp.rtrancl_refl)

lemma steps5: "R a b \<Longrightarrow> R b c \<Longrightarrow> R c d \<Longrightarrow> R d f \<Longrightarrow> R f g \<Longrightarrow> R\<^sup>*\<^sup>* a g"
  by (elim converse_rtranclp_into_rtranclp) (rule rtranclp.rtrancl_refl)

lemma solo_alloc:
  assumes "pcs s t = Idle"
  shows "(pool_step P e t)\<^sup>*\<^sup>* s (run_alloc t s)"
proof (cases "head (bkt s) = TaggedIndex_Invalid")
  case True
  then show ?thesis by (simp add: run_alloc_def)
next
  case False
  let ?hv = "head (bkt s)" and ?p = "pData (bkt s) + ucast (ti_offset (head (bkt s)))"
  let ?s1 = "set_pc t (AllocLoop ?hv) s" and ?s2 = "set_pc t (AllocCas ?hv ?p (load64 (mem s) ?p)) s"
  have "pool_step P e t s ?s1" using assms by (rule alloc_call)
  moreover have "pool_step P e t ?s1 ?s2" using alloc_read [of ?s1 t ?hv ?p P e] False by simp
  moreover have "pool_step P e t ?s2 (run_alloc t s)"
    using alloc_success [of ?s2 t ?hv ?p "load64 (mem s) ?p" "load64 (mem s) ?p" ?hv P e] False assms
    by (simp add: run_alloc_def PoolBucket_Alloc_nonempty set_pc_Idle)
  ultimately show ?thesis by (rule steps3)
qed

lemma solo_free:
  assumes "pcs s t = Idle" "xs \<noteq> []" "distinct xs" "set xs \<subseteq> owned s t" "P (mem s) (pData (bkt s)) xs"
  shows "(pool_step P e t)\<^sup>*\<^sup>* s (run_free t xs s)"
proof -
  let ?nv = "mk_TaggedIndex (globalTag (bkt s)) (hd xs)" and ?hv = "head (bkt s)"
  let ?s1 = "(set_pc t (FreeTag xs) s)\<lparr>owned := (owned s)(t := owned s t - set xs)\<rparr>"
  let ?s2 = "(set_pc t (FreeLoad xs ?nv) ?s1)\<lparr>bkt := (bkt s)\<lparr>globalTag := globalTag (bkt s) + 1\<rparr>, issued := issued s + 1\<rparr>"
  let ?s3 = "set_pc t (FreeStore xs ?nv ?hv) ?s2"
  let ?s4 = "(set_pc t (FreeCas xs ?nv ?hv) ?s3)\<lparr>mem := store64 (mem s) (pData (bkt s) + ucast (last xs)) ?hv\<rparr>"
  have "pool_step P e t s ?s1" using assms by (intro free_call)
  moreover have "pool_step P e t ?s1 ?s2" using free_tag [of ?s1 t xs ?nv P e] by simp
  moreover have "pool_step P e t ?s2 ?s3" using free_load [of ?s2 t xs ?nv P e] by simp
  moreover have "pool_step P e t ?s3 ?s4" using free_store [of ?s3 t xs ?nv ?hv P e] by simp
  moreover have "pool_step P e t ?s4 (set_pc t Idle (set_head ?nv ?s4))"
    by (rule free_success [of ?s4 t xs ?nv ?hv ?nv ?hv P e]) simp_all
  moreover have "set_pc t Idle (set_head ?nv ?s4) = run_free t xs s"
    using assms by (intro pool_state.equality)
      (simp_all add: run_free_def PoolBucket_FreeInterval_eq set_pc_Idle)
  ultimately show ?thesis using steps5 [of "pool_step P e t"] by metis
qed

lemma solo_write_bytes:
  assumes "pcs s t = Idle" "x \<in> owned s t" "span a (length bs) \<subseteq> span (pData (bkt s) + ucast x) e"
  shows "(pool_step P e t)\<^sup>*\<^sup>* s (s\<lparr>mem := store_bytes (mem s) a bs\<rparr>)"
  using assms
proof (induction bs arbitrary: s a)
  case Nil
  then show ?case by simp
next
  case (Cons v bs)
  let ?s = "s\<lparr>mem := (mem s)(a := v)\<rparr>"
  have a: "a \<in> span (pData (bkt s) + ucast x) e" "span (a + 1) (length bs) \<subseteq> span (pData (bkt s) + ucast x) e"
    using Cons.prems(3) by (auto simp: span_Suc)
  have "pool_step P e t s ?s" using Cons.prems(1,2) a(1) by (rule client_write)
  moreover have "(pool_step P e t)\<^sup>*\<^sup>* ?s (?s\<lparr>mem := store_bytes (mem ?s) (a + 1) bs\<rparr>)"
    using Cons.prems(1,2) a(2) by (intro Cons.IH) simp_all
  ultimately show ?case by simp
qed

lemma solo_write:
  assumes "pcs s t = Idle" "x \<in> owned s t" "8 \<le> e"
  shows "(pool_step P e t)\<^sup>*\<^sup>* s (run_write x v s)"
  unfolding run_write_def store64_def
  using solo_write_bytes [OF assms(1,2), of _ "to_bytes 8 v"] span_mono [OF assms(3)] by simp

lemma reachable_solo:
  assumes "pool_reachable P e n s" "(pool_step P e t)\<^sup>*\<^sup>* s s'"
  shows "pool_reachable P e n s'"
  using assms(2,1) by (induction rule: rtranclp_induct) (auto intro: pool_reachable.step)

section \<open>Runs with local tags\<close>

text \<open>Two threads and the four blocks at the offsets 0, 16, 32 and 48. Thread 1 takes all blocks,
  returns 0, 16, 32 and then 0, 16 as the thread cache does; thread 2 is suspended in \<open>Alloc\<close>
  between the read of the link and the exchange while thread 1 works. \<open>snap\<close> records what the
  argument follows: head, next tag, the four links, the blocks of thread 1.\<close>

lemma load64_store64_far:
  fixes x y :: u64
  assumes "unat x + 8 \<le> unat y \<and> unat y + 8 \<le> 2 ^ 64 \<or> unat y + 8 \<le> unat x \<and> unat x + 8 \<le> 2 ^ 64"
  shows "load64 (store64 m (p + x) v) (p + y) = load64 m (p + y)"
proof -
  have "span y 8 \<inter> span x 8 = {}"
    using assms span_disjoint_nat [of x 8 y 8] span_disjoint_nat [of y 8 x 8] by blast
  then have "span (p + y) 8 \<inter> span (p + x) 8 = {}" by (simp add: span_translate_disjoint)
  then show ?thesis by (rule same_outside_load64 [OF same_outside_store64])
qed

definition links4 :: "memory \<Rightarrow> addr \<Rightarrow> TaggedIndex list" where
  "links4 m p = map (\<lambda>x. load64 m (p + x)) [0, 16, 32, 48]"

definition snap :: "pool_state \<Rightarrow> TaggedIndex \<Rightarrow> u32 \<Rightarrow> TaggedIndex list \<Rightarrow> u32 set \<Rightarrow> bool" where
  "snap s h g ls W \<longleftrightarrow> pool_reachable returned_run 16 4 s \<and> pcs s 1 = Idle \<and> issued s = unat g \<and>
     head (bkt s) = h \<and> globalTag (bkt s) = g \<and> owned s 1 = W \<and>
     links4 (mem s) (pData (bkt s)) = ls"

abbreviation four :: "u32 set" where
  "four \<equiv> {0, 16, 32, 48}"

lemma four_valid: "x \<in> four \<Longrightarrow> mk_TaggedIndex g x \<noteq> TaggedIndex_Invalid"
  by (auto intro!: mk_TaggedIndex_valid)

lemma snap_link: "snap s h g ls W \<Longrightarrow> x \<in> four \<Longrightarrow> load64 (mem s) (pData (bkt s) + ucast x) = ls ! (unat x div 16)"
  by (auto simp: snap_def links4_def)

lemma store_links:
  "x \<in> four \<Longrightarrow> links4 (store64 m (p + ucast x) v) p = (links4 m p)[unat x div 16 := v]"
  using load64_store64_far [where p = p and x = 0 and m = m and v = v] load64_store64_far [where p = p and y = 0 and m = m and v = v]
  by (auto simp: load64_store64_far links4_def)

lemma snap_alloc:
  assumes s: "snap s (mk_TaggedIndex k x) g ls W" and x: "x \<in> four"
  shows "snap (run_alloc 1 s) (ls ! (unat x div 16)) g ls (insert x W)"
proof -
  have "pool_reachable returned_run 16 4 (run_alloc 1 s)"
    using s by (intro reachable_solo [OF _ solo_alloc]) (auto simp: snap_def)
  then show ?thesis
    using s snap_link [OF s x] four_valid [OF x, of k]
    by (simp add: snap_def run_alloc_def PoolBucket_Alloc_nonempty)
qed

lemma snap_write:
  assumes s: "snap s h g ls W" and x: "x \<in> four" "x \<in> W"
  shows "snap (run_write x v s) h g (ls[unat x div 16 := v]) W"
proof -
  have "pool_reachable returned_run 16 4 (run_write x v s)"
    using s x(2) by (intro reachable_solo [OF _ solo_write]) (auto simp: snap_def)
  then show ?thesis using s by (simp add: snap_def run_write_def store_links [OF x(1)])
qed

lemma snap_free:
  assumes s: "snap s h g ls W" and xs: "xs \<noteq> []" "distinct xs" "set xs \<subseteq> W" "set xs \<subseteq> four"
    and ls: "\<forall>i < length xs - 1. ls ! (unat (xs ! i) div 16) = mk_TaggedIndex (0xFFFFFF + word_of_nat i) (xs ! (i + 1))"
    and g: "unat (g + 1) = unat g + 1"
  shows "snap (run_free 1 xs s) (mk_TaggedIndex g (hd xs)) (g + 1) (ls[unat (last xs) div 16 := h]) (W - set xs)"
proof -
  have "returned_run (mem s) (pData (bkt s)) xs"
    unfolding returned_run_def
  proof (intro allI impI)
    fix i assume i: "i < length xs - 1"
    then have "xs ! i \<in> four" using xs(4) by (meson less_diff_conv add_lessD1 nth_mem subsetD)
    then show "load64 (mem s) (pData (bkt s) + ucast (xs ! i)) = mk_TaggedIndex (0xFFFFFF + word_of_nat i) (xs ! (i + 1))"
      using snap_link [OF s] ls i by simp
  qed
  then have "pool_reachable returned_run 16 4 (run_free 1 xs s)"
    using s xs by (intro reachable_solo [OF _ solo_free]) (auto simp: snap_def)
  moreover have l: "last xs \<in> four" using xs(1,4) last_in_set by blast
  ultimately show ?thesis
    using s g by (simp add: snap_def run_free_def PoolBucket_FreeInterval_eq store_links [OF l])
qed

text \<open>The concurrent system starts with a bucket that \<open>Create\<close> has built.\<close>

definition pool_of :: "PoolBucket \<Rightarrow> memory \<Rightarrow> pool_state" where
  "pool_of b m = \<lparr>bkt = b, mem = m, pcs = (\<lambda>_. Idle), owned = (\<lambda>_. {}), issued = unat (globalTag b)\<rparr>"

lemma pool_start_Create:
  assumes geo: "geometry e n" "2 \<le> n" and e: "unat elementSize = e"
    and fin: "unat (pDataEnd b) = unat (pData b) + S" and n: "n = max 1 (S div e)"
    and room: "unat (pData b) + S + 2 * e < 2 ^ 64"
    and c: "PoolBucket_Create elementSize b m = Some (b', m')"
  shows "pool_start e n (pool_of b' m')"
proof -
  obtain b1 m1 where "PoolBucket_Create elementSize b m = Some (b1, m1)"
    and lk: "linked m1 (pData b1) (head b1) (created_refs e n)"
    and b1: "b1 = b\<lparr>head := mk_TaggedIndex 0 0, globalTag := word_of_nat (n - 1)\<rparr>"
    using PoolBucket_Create_linked [OF geo(1) e fin n room] by blast
  then have eq: "b1 = b'" "m1 = m'" using c by auto
  have u: "unat (word_of_nat (n - 1) :: u32) = n - 1"
    using geometry_small [OF geo(1)] by (intro unat_of_nat_small) simp
  have g: "globalTag b' = word_of_nat (n - 1)" unfolding eq(1) [symmetric] b1 by simp
  show ?thesis using lk geo unfolding eq pool_start_def pool_of_def by (simp only: pool_state.simps g u)
qed

definition demo_bucket :: PoolBucket where
  "demo_bucket = PoolBucket_init\<lparr>pData := 4096, pDataEnd := 4160\<rparr>"

lemma demo_start:
  obtains s where "pool_start 16 4 s"
proof -
  have g: "geometry 16 4" "(4::nat) = max 1 (64 div 16)" "unat (16 :: u64) = 16" by (simp_all add: geometry_def)
  have d: "unat (pDataEnd demo_bucket) = unat (pData demo_bucket) + 64"
    "unat (pData demo_bucket) + 64 + 2 * 16 < 2 ^ 64"
    by (simp_all add: demo_bucket_def)
  obtain b' m' where c: "PoolBucket_Create 16 demo_bucket (\<lambda>_. 0) = Some (b', m')"
    using PoolBucket_Create_linked [OF g(1,3) d(1) g(2) d(2)] by blast
  have "pool_start 16 4 (pool_of b' m')"
    by (rule pool_start_Create [OF g(1) _ g(3) d(1) g(2) d(2) c]) simp
  then show thesis using that by blast
qed

lemma created_refs_4: "created_refs 16 4 =
    [mk_TaggedIndex 0 0, mk_TaggedIndex 0 16, mk_TaggedIndex 1 32, mk_TaggedIndex 2 48]"
  by (simp add: created_refs_def upt_rec)

lemma snap_start:
  assumes "pool_start 16 4 s"
  shows "snap s (mk_TaggedIndex 0 0) 3
     [mk_TaggedIndex 0 16, mk_TaggedIndex 1 32, mk_TaggedIndex 2 48, TaggedIndex_Invalid] {}"
  using assms unfolding snap_def links4_def
  by (auto simp: pool_start_def created_refs_4 intro: pool_reachable.start)

lemma run_frame [simp]:
  "pcs (run_alloc t s) = pcs s" "pcs (run_free t xs s) = pcs s" "pcs (run_write x v s) = pcs s"
  "pData (bkt (run_alloc t s)) = pData (bkt s)" "pData (bkt (run_free t xs s)) = pData (bkt s)"
  "pData (bkt (run_write x v s)) = pData (bkt s)"
  "u \<noteq> t \<Longrightarrow> owned (run_alloc t s) u = owned s u" "u \<noteq> t \<Longrightarrow> owned (run_free t xs s) u = owned s u"
  "owned (run_write x v s) = owned s"
  by (auto simp: run_alloc_def run_free_def run_write_def PoolBucket_FreeInterval_eq PoolBucket_Alloc_nonempty)

definition aba_before :: "pool_state \<Rightarrow> pool_state" where
  "aba_before s =
     (let s = run_alloc 1 (run_alloc 1 (run_alloc 1 (run_alloc 1 s)));
          s = run_write 0 (mk_TaggedIndex 0xFFFFFF 16) s;
          s = run_write 16 (mk_TaggedIndex 0x1000000 32) s
      in run_alloc 1 (run_free 1 [0, 16, 32] s))"

definition aba_meanwhile :: "pool_state \<Rightarrow> pool_state" where
  "aba_meanwhile s =
     (let s = run_alloc 1 (run_alloc 1 s);
          s = run_write 0 (mk_TaggedIndex 0xFFFFFF 16) s
      in run_alloc 1 (run_free 1 [0, 16] s))"

lemma all_less_two: "(\<forall>i < Suc (Suc 0). Q i) \<longleftrightarrow> Q 0 \<and> Q 1"
  by (auto simp: less_Suc_eq)

lemma snap_before:
  assumes "pool_start 16 4 s"
  shows "snap (aba_before s) (mk_TaggedIndex 0xFFFFFF 16) 4
     [mk_TaggedIndex 0xFFFFFF 16, mk_TaggedIndex 0x1000000 32, TaggedIndex_Invalid, TaggedIndex_Invalid] {0, 48}"
proof -
  let ?L = "[mk_TaggedIndex 0 16, mk_TaggedIndex 1 32, mk_TaggedIndex 2 48, TaggedIndex_Invalid]"
  let ?a = "run_alloc 1" and ?w = "run_write 0 (mk_TaggedIndex 0xFFFFFF 16)"
  let ?v = "run_write 16 (mk_TaggedIndex 0x1000000 32)"
  have "snap (?a s) (mk_TaggedIndex 0 16) 3 ?L {0}" using snap_alloc [OF snap_start [OF assms]] by simp
  from snap_alloc [OF this] have "snap (?a (?a s)) (mk_TaggedIndex 1 32) 3 ?L {0, 16}" by (simp add: insert_commute)
  from snap_alloc [OF this] have "snap (?a (?a (?a s))) (mk_TaggedIndex 2 48) 3 ?L {0, 16, 32}" by (simp add: insert_commute)
  from snap_alloc [OF this] have "snap (?a (?a (?a (?a s)))) TaggedIndex_Invalid 3 ?L four" by (simp add: insert_commute)
  from snap_write [OF this, of 0] have "snap (?w (?a (?a (?a (?a s))))) TaggedIndex_Invalid 3
      (?L[0 := mk_TaggedIndex 0xFFFFFF 16]) four" by simp
  from snap_write [OF this, of 16] have "snap (?v (?w (?a (?a (?a (?a s)))))) TaggedIndex_Invalid 3
      (?L[0 := mk_TaggedIndex 0xFFFFFF 16, 1 := mk_TaggedIndex 0x1000000 32]) four" by simp
  from snap_free [OF this, of "[0, 16, 32]"]
  have "snap (run_free 1 [0, 16, 32] (?v (?w (?a (?a (?a (?a s))))))) (mk_TaggedIndex 3 0) 4
      [mk_TaggedIndex 0xFFFFFF 16, mk_TaggedIndex 0x1000000 32, TaggedIndex_Invalid, TaggedIndex_Invalid] {48}"
    by (simp add: all_less_two insert_Diff_if)
  from snap_alloc [OF this] show ?thesis unfolding aba_before_def Let_def by simp
qed

lemma snap_meanwhile:
  assumes "snap s (mk_TaggedIndex 0xFFFFFF 16) 4
     [mk_TaggedIndex 0xFFFFFF 16, mk_TaggedIndex 0x1000000 32, TaggedIndex_Invalid, TaggedIndex_Invalid] {0, 48}"
  shows "snap (aba_meanwhile s) (mk_TaggedIndex 0xFFFFFF 16) 5
     [mk_TaggedIndex 0xFFFFFF 16, TaggedIndex_Invalid, TaggedIndex_Invalid, TaggedIndex_Invalid] {0, 32, 48}"
proof -
  let ?L = "[mk_TaggedIndex 0xFFFFFF 16, mk_TaggedIndex 0x1000000 32, TaggedIndex_Invalid, TaggedIndex_Invalid]"
  let ?a = "run_alloc 1" and ?w = "run_write 0 (mk_TaggedIndex 0xFFFFFF 16)"
  from snap_alloc [OF assms] have "snap (?a s) (mk_TaggedIndex 0x1000000 32) 4 ?L {0, 16, 48}" by (simp add: insert_commute)
  from snap_alloc [OF this] have "snap (?a (?a s)) TaggedIndex_Invalid 4 ?L four" by (simp add: insert_commute)
  from snap_write [OF this, of 0] have "snap (?w (?a (?a s))) TaggedIndex_Invalid 4 ?L four" by simp
  from snap_free [OF this, of "[0, 16]"]
  have "snap (run_free 1 [0, 16] (?w (?a (?a s)))) (mk_TaggedIndex 4 0) 5
      [mk_TaggedIndex 0xFFFFFF 16, TaggedIndex_Invalid, TaggedIndex_Invalid, TaggedIndex_Invalid] {32, 48}"
    by (simp add: insert_Diff_if)
  from snap_alloc [OF this] show ?thesis unfolding aba_meanwhile_def Let_def by simp
qed

lemma aba_double_owner:
  assumes st: "pool_start 16 4 s"
  shows "\<exists>s'. pool_reachable returned_run 16 4 s' \<and> issued s' = 5 \<and> 32 \<in> owned s' 1 \<and> 32 \<in> owned s' 2"
proof -
  let ?h = "mk_TaggedIndex 0xFFFFFF 16" and ?n = "mk_TaggedIndex 0x1000000 32"
  let ?s1 = "aba_before s" let ?p = "pData (bkt ?s1) + ucast (ti_offset ?h)"
  let ?s2 = "set_pc 2 (AllocLoop ?h) ?s1" and ?s3 = "set_pc 2 (AllocCas ?h ?p ?n) ?s1"
  note s1 = snap_before [OF st]
  have pc: "pcs ?s1 2 = Idle" using st by (simp add: aba_before_def Let_def pool_start_def)
  have "pool_step returned_run 16 2 ?s1 ?s2"
    using alloc_call [OF pc] s1 by (simp add: snap_def)
  moreover have "pool_step returned_run 16 2 ?s2 ?s3"
    using alloc_read [of ?s2 2 ?h ?p returned_run 16] four_valid [of 16] snap_link [OF s1, of 16] by simp
  ultimately have "pool_reachable returned_run 16 4 ?s3"
    using s1 by (auto simp: snap_def intro: pool_reachable.step)
  then have s3: "snap ?s3 ?h 4 [?h, ?n, TaggedIndex_Invalid, TaggedIndex_Invalid] {0, 48}"
    using s1 by (simp add: snap_def)
  let ?s4 = "aba_meanwhile ?s3"
  note s4 = snap_meanwhile [OF s3]
  let ?s5 = "(set_pc 2 Idle (set_head ?n ?s4))\<lparr>owned := (owned ?s4)(2 := insert 16 (owned ?s4 2))\<rparr>"
  have "pcs ?s4 2 = AllocCas ?h ?p ?n" by (simp add: aba_meanwhile_def Let_def)
  then have "pool_step returned_run 16 2 ?s4 ?s5"
    using alloc_success [of ?s4 2 ?h ?p ?n ?n ?h returned_run 16] s4 by (simp add: snap_def)
  then have s5: "pool_reachable returned_run 16 4 ?s5"
    using s4 by (auto simp: snap_def intro: pool_reachable.step)
  have "pool_reachable returned_run 16 4 (run_alloc 2 ?s5)"
    by (rule reachable_solo [OF s5 solo_alloc]) simp
  moreover have "32 \<in> owned (run_alloc 2 ?s5) 2" using four_valid [of 32] by (simp add: run_alloc_def)
  moreover have "32 \<in> owned (run_alloc 2 ?s5) 1" using s4 by (simp add: snap_def)
  moreover have "issued (run_alloc 2 ?s5) = 5" using s4 four_valid [of 32] by (simp add: snap_def run_alloc_def)
  ultimately show ?thesis by blast
qed

text \<open>Steps after which no operation has completed.\<close>

definition quiet_step :: "runs \<Rightarrow> nat \<Rightarrow> pool_state \<Rightarrow> pool_state \<Rightarrow> bool" where
  "quiet_step P e s s' \<longleftrightarrow> (\<exists>u. pool_step P e u s s' \<and> \<not> (pcs s u \<noteq> Idle \<and> pcs s' u = Idle))"

lemma quiet_head: "(quiet_step P e)\<^sup>*\<^sup>* s s' \<Longrightarrow> head (bkt s') = head (bkt s)"
  by (induction rule: rtranclp_induct) (auto simp: quiet_step_def elim!: pool_stepE)

section \<open>Properties\<close>

text \<open>
  (C10) Any number of threads call \<open>Alloc\<close> and hand single blocks back with \<open>FreeInterval\<close>, interleaved in
  any way. As long as fewer than \<open>2^32\<close> tags were taken, the free list in memory is intact and
  every block of the bucket is in exactly one place: on the free list, owned by one thread, or in
  the hands of one \<open>FreeInterval\<close> call. No block is given out twice and none is lost.
\<close>

theorem pool_exclusive_ownership:
  assumes "pool_reachable single_run e n s" and "issued s \<le> 2 ^ 32"
  shows "\<exists>free. chain (mem s) (pData (bkt s)) (head (bkt s)) free \<and> distinct free \<and>
    (\<forall>t. owned s t \<inter> pending (pcs s t) = {}) \<and>
    shares (\<lambda>t. owned s t \<union> pending (pcs s t)) (set free) (set (block_offsets e n))"
proof -
  obtain rs used where inv: "pool_inv e n s rs used" using pool_reachable_inv [OF assms] by blast
  show ?thesis
    using linked_chain [OF pool_invD(3) [OF inv]] pool_invD(2) [OF inv]
    by (intro exI [of _ "map ti_offset rs"]) (auto simp: partitioned_def)
qed

theorem pool_exclusive_ownership_witness:
  "\<exists>s. pool_reachable single_run 16 4 s \<and> owned s 7 \<noteq> {} \<and>
     (\<exists>free. chain (mem s) (pData (bkt s)) (head (bkt s)) free \<and> distinct free \<and>
       shares (\<lambda>t. owned s t \<union> pending (pcs s t)) (set free) (set (block_offsets 16 4)))"
proof -
  obtain s where s: "pool_start 16 4 s" by (rule demo_start)
  have R: "pool_reachable single_run 16 4 s" using s by (rule pool_reachable.start)
  let ?s = "run_alloc 7 s"
  have r: "pool_reachable single_run 16 4 ?s"
    using s by (intro reachable_solo [OF R solo_alloc]) (simp add: pool_start_def)
  have "issued ?s \<le> 2 ^ 32" "owned ?s 7 \<noteq> {}"
    using s four_valid [of 0 0] by (auto simp: run_alloc_def pool_start_def created_refs_4)
  then show ?thesis using pool_exclusive_ownership [OF r] r by blast
qed

text \<open>
  (C11) Each step of the interleaved system is a step of a plain stack of free blocks: the successful
  exchange of \<open>Alloc\<close> pops its first block, the successful exchange of \<open>FreeInterval\<close> pushes the
  returned block, every other step leaves the stack and the holders as they are.
\<close>

theorem pool_refines_stack:
  assumes "pool_reachable single_run e n s" and "pool_step single_run e t s s'" and "issued s' \<le> 2 ^ 32"
    and "chain (mem s) (pData (bkt s)) (head (bkt s)) xs"
  shows "\<exists>xs'. chain (mem s') (pData (bkt s')) (head (bkt s')) xs' \<and>
    stack_step t (xs, \<lambda>u. owned s u \<union> pending (pcs s u)) (xs', \<lambda>u. owned s' u \<union> pending (pcs s' u))"
proof -
  have "issued s \<le> 2 ^ 32" using issued_mono [OF assms(2)] assms(3) by simp
  then obtain rs used where inv: "pool_inv e n s rs used" using pool_reachable_inv [OF assms(1)] by blast
  have "xs = map ti_offset rs"
    using chain_unique [OF assms(4) linked_chain [OF pool_invD(3) [OF inv]]] .
  then show ?thesis
    using pool_step_ok [OF assms(2) inv assms(3)] linked_chain [OF pool_invD(3)] unfolding step_ok_def by blast
qed

theorem pool_refines_stack_witness:
  "\<exists>s s' xs'. pool_step single_run 16 3 s s' \<and> chain (mem s') (pData (bkt s')) (head (bkt s')) xs' \<and>
     stack_step 3 ([0, 16, 32, 48], \<lambda>u. owned s u \<union> pending (pcs s u)) (xs', \<lambda>u. owned s' u \<union> pending (pcs s' u))"
proof -
  obtain s where s: "pool_start 16 4 s" by (rule demo_start)
  have R: "pool_reachable single_run 16 4 s" using s by (rule pool_reachable.start)
  let ?s = "set_pc 3 (AllocLoop (head (bkt s))) s"
  have st: "pool_step single_run 16 3 s ?s" using s by (intro alloc_call) (simp add: pool_start_def)
  have "issued ?s \<le> 2 ^ 32" using s by (simp add: pool_start_def)
  moreover have "chain (mem s) (pData (bkt s)) (head (bkt s)) [0, 16, 32, 48]"
    using s linked_chain [of "mem s" "pData (bkt s)" "head (bkt s)" "created_refs 16 4"]
    by (simp add: pool_start_def created_refs_4)
  ultimately show ?thesis using pool_refines_stack [OF R st] st by blast
qed

text \<open>
  (C12) With the runs that \<open>ReturnL1CacheToMaster\<close> links, whose inner tags restart at \<open>0xFFFFFF\<close>, the
  tags no longer exclude ABA: after only five tags two threads own the same block.
\<close>

theorem returned_runs_break_exclusivity:
  "\<exists>s. pool_reachable returned_run 16 4 s \<and> issued s = 5 \<and> (\<exists>x. x \<in> owned s 1 \<and> x \<in> owned s 2)"
  using demo_start aba_double_owner by metis

text \<open>
  (C16) A thread that runs alone finishes, and its operation is the sequential \<open>Alloc\<close> or \<open>FreeInterval\<close>: three
  steps at most for the former, five for the latter, whatever the other threads were doing.
\<close>

theorem solo_operation_completes:
  assumes "pcs s t = Idle"
  shows "(pool_step P e t)\<^sup>*\<^sup>* s (run_alloc t s) \<and>
    (xs \<noteq> [] \<and> distinct xs \<and> set xs \<subseteq> owned s t \<and> P (mem s) (pData (bkt s)) xs \<longrightarrow>
      (pool_step P e t)\<^sup>*\<^sup>* s (run_free t xs s))"
  using solo_alloc [OF assms] solo_free [OF assms] by blast

theorem solo_operation_completes_witness:
  "\<exists>s. pcs s 1 = Idle \<and> owned s 1 = {0} \<and> (pool_step single_run 16 1)\<^sup>*\<^sup>* s (run_alloc 1 s) \<and>
     (pool_step single_run 16 1)\<^sup>*\<^sup>* s (run_free 1 [0] s)"
proof -
  obtain s where s: "pool_start 16 4 s" by (rule demo_start)
  let ?s = "run_alloc 1 s"
  have p: "pcs ?s 1 = Idle" using s by (simp add: pool_start_def)
  have "owned ?s 1 = {0}"
    using snap_alloc [OF snap_start [OF s]] by (simp add: snap_def)
  then have "pcs ?s 1 = Idle \<and> owned ?s 1 = {0} \<and> (pool_step single_run 16 1)\<^sup>*\<^sup>* ?s (run_alloc 1 ?s) \<and>
     (pool_step single_run 16 1)\<^sup>*\<^sup>* ?s (run_free 1 [0] ?s)"
    using solo_operation_completes [OF p, of single_run 16 "[0]"] p by (simp add: single_run_def)
  then show ?thesis by blast
qed

text \<open>
  The pool is lock-free: as long as no thread completes an operation the head stays as it is, so an
  exchange whose expected value was the head succeeds; an exchange fails only when some operation
  has completed meanwhile.
\<close>

theorem pool_lock_free:
  assumes "(quiet_step P e)\<^sup>*\<^sup>* s s'" and "pool_step P e t s' s''"
    and "pcs s' t = AllocCas (head (bkt s)) p n \<or> pcs s' t = FreeCas xs nv (head (bkt s))"
  shows "head (bkt s') = head (bkt s) \<and> pcs s'' t = Idle"
  using quiet_head [OF assms(1)] assms(2,3) by (auto elim!: pool_stepE)

theorem pool_lock_free_witness:
  "\<exists>s s' s''. (quiet_step single_run 16)\<^sup>*\<^sup>* s s' \<and> pool_step single_run 16 1 s' s'' \<and>
     head (bkt s') = head (bkt s) \<and> pcs s'' 1 = Idle"
proof -
  obtain s where s: "pool_start 16 4 s" by (rule demo_start)
  let ?h = "mk_TaggedIndex 0 0" let ?p = "pData (bkt s)" let ?n = "mk_TaggedIndex 0 16"
  let ?s = "set_pc 1 (AllocCas ?h ?p ?n) s" and ?s1 = "set_pc 2 (AllocLoop ?h) (set_pc 1 (AllocCas ?h ?p ?n) s)"
  let ?s2 = "(set_pc 1 Idle (set_head ?n ?s1))\<lparr>owned := (owned ?s1)(1 := insert (ti_offset ?h) (owned ?s1 1))\<rparr>"
  have h: "head (bkt s) = ?h" using s by (simp add: pool_start_def created_refs_4)
  have "pool_step single_run 16 2 ?s ?s1" using alloc_call [of ?s 2] s h by (simp add: pool_start_def)
  then have q: "(quiet_step single_run 16)\<^sup>*\<^sup>* ?s ?s1"
    by (intro r_into_rtranclp) (auto simp: quiet_step_def intro!: exI [of _ 2])
  have st: "pool_step single_run 16 1 ?s1 ?s2" using h by (intro alloc_success) simp_all
  have "pcs ?s1 1 = AllocCas (head (bkt ?s)) ?p ?n \<or> pcs ?s1 1 = FreeCas [] 0 (head (bkt ?s))" using h by simp
  note r = pool_lock_free [OF q st this]
  show ?thesis by (intro exI conjI, rule q, rule st, rule conjunct1 [OF r], rule conjunct2 [OF r])
qed

end
