(* ===== verification/Thread_Cache.thy ===== *)
theory Thread_Cache
  imports Pool_Concurrency
begin

text \<open>
  The per-thread cache of a bucket (\<open>sm::internal::TlsPoolBucket\<close>): a fixed array of seven offsets
  (L0) in front of a larger stack of offsets in memory (L1). Allocation and release work on the
  cache first; when L1 is full, half of it is linked up and given back to the pool bucket in one
  \<open>FreeInterval\<close> call.
\<close>

section \<open>State\<close>

definition SMM_MAX_CACHE_ITEMS_COUNT :: nat where
  "SMM_MAX_CACHE_ITEMS_COUNT = 7"

text \<open>\<open>pBucket\<close> points into the array of buckets of the allocator and is the index there.\<close>

record TlsPoolBucket =
  pBucketData :: addr
  pStorageL1 :: addr
  pBucket :: "size_t option"
  storageL0 :: "u32 list"
  maxElementsCount :: u32
  numElementsL1 :: u32
  numElementsL0 :: u8

text \<open>\<open>thread_local\<close> variables start with zeroes.\<close>

definition TlsPoolBucket_zero :: TlsPoolBucket where
  "TlsPoolBucket_zero =
     \<lparr>pBucketData = 0, pStorageL1 = 0, pBucket = None, storageL0 = replicate SMM_MAX_CACHE_ITEMS_COUNT 0,
      maxElementsCount = 0, numElementsL1 = 0, numElementsL0 = 0\<rparr>"

definition GetElementsCount :: "TlsPoolBucket \<Rightarrow> u32" where
  "GetElementsCount self = numElementsL1 self + ucast (numElementsL0 self)"

text \<open>\<open>pStorageL1[i]\<close>\<close>

abbreviation slot :: "TlsPoolBucket \<Rightarrow> u32 \<Rightarrow> addr" where
  "slot self i \<equiv> pStorageL1 self + 4 * ucast i"

section \<open>Operations\<close>

text \<open>The loop of \<open>ReturnL1CacheToMaster\<close>; the two 32-bit members of the link are written as one word.\<close>

function ReturnL1_loop ::
    "TlsPoolBucket \<Rightarrow> u32 \<Rightarrow> u32 \<Rightarrow> addr \<Rightarrow> memory \<Rightarrow> addr \<times> memory" where
  "ReturnL1_loop self i localTag pPrevBlockMemory m =
     (if i < numElementsL1 self
      then
        (let offset = load32 m (slot self i);
             m = store64 m pPrevBlockMemory (mk_TaggedIndex localTag offset);
             pBlockMemory = pBucketData self + ucast offset
         in ReturnL1_loop self (i + 1) (localTag + 1) pBlockMemory m)
      else (pPrevBlockMemory, m))"
  by pat_completeness auto
termination
  by (relation "measure (\<lambda>(self, i, localTag, p, m). unat (numElementsL1 self) - unat i)")
    (auto simp: word_less_nat_alt unat_Suc_less)

definition ReturnL1CacheToMaster ::
    "u32 \<Rightarrow> TlsPoolBucket \<Rightarrow> PoolBucket \<Rightarrow> memory \<Rightarrow> TlsPoolBucket \<times> PoolBucket \<times> memory" where
  "ReturnL1CacheToMaster cnt self bucket m =
     (if cnt = 0 then (self, bucket, m)
      else if numElementsL1 self = 0 then (self, bucket, m)
      else
        (let cnt = min cnt (numElementsL1 self);
             firstElementToReturn = numElementsL1 self - cnt;
             offset = load32 m (slot self firstElementToReturn);
             pHead = pBucketData self + ucast offset;
             (pTail, m) = ReturnL1_loop self (firstElementToReturn + 1) 0xFFFFFF pHead m;
             (m, bucket) = PoolBucket_FreeInterval pHead pTail m bucket
         in (self\<lparr>numElementsL1 := numElementsL1 self - cnt\<rparr>, bucket, m)))"

definition AllocFromCache :: "TlsPoolBucket \<Rightarrow> memory \<Rightarrow> addr \<times> TlsPoolBucket" where
  "AllocFromCache self m =
     (if numElementsL0 self > 0
      then
        (let self = self\<lparr>numElementsL0 := numElementsL0 self - 1\<rparr>;
             offset = storageL0 self ! unat (numElementsL0 self)
         in (pBucketData self + ucast offset, self))
      else if numElementsL1 self > 0
      then
        (let self = self\<lparr>numElementsL1 := numElementsL1 self - 1\<rparr>;
             offset = load32 m (slot self (numElementsL1 self))
         in (pBucketData self + ucast offset, self))
      else (0, self))"

definition ReleaseToCache ::
    "bool \<Rightarrow> addr \<Rightarrow> TlsPoolBucket \<Rightarrow> PoolBucket \<Rightarrow> memory \<Rightarrow> bool \<times> TlsPoolBucket \<times> PoolBucket \<times> memory" where
  "ReleaseToCache useCacheL0 p self bucket m =
     (if maxElementsCount self = 0 then (False, self, bucket, m)
      else
        (let offset = ucast (p - pBucketData self) :: u32
         in if useCacheL0 \<and> unat (numElementsL0 self) < SMM_MAX_CACHE_ITEMS_COUNT
            then
              (True,
               self\<lparr>storageL0 := (storageL0 self)[unat (numElementsL0 self) := offset],
                 numElementsL0 := numElementsL0 self + 1\<rparr>, bucket, m)
            else if numElementsL1 self < maxElementsCount self
            then
              (True, self\<lparr>numElementsL1 := numElementsL1 self + 1\<rparr>, bucket,
               store32 m (slot self (numElementsL1 self)) offset)
            else
              (let halfOfElements = drop_bit 1 (numElementsL1 self);
                   (self, bucket, m) = ReturnL1CacheToMaster halfOfElements self bucket m
               in (True, self\<lparr>numElementsL1 := numElementsL1 self + 1\<rparr>, bucket,
                   store32 m (slot self (numElementsL1 self)) offset))))"

declare ReturnL1_loop.simps [simp del]

section \<open>The contents of a cache\<close>

text \<open>The offsets in L1 and in L0, oldest first. The next offset to be handed out is the last one
  of \<open>cached\<close>.\<close>

definition l1_items :: "memory \<Rightarrow> TlsPoolBucket \<Rightarrow> u32 list" where
  "l1_items m self = map (\<lambda>i. load32 m (pStorageL1 self + 4 * word_of_nat i)) [0..<unat (numElementsL1 self)]"

definition l0_items :: "TlsPoolBucket \<Rightarrow> u32 list" where
  "l0_items self = take (unat (numElementsL0 self)) (storageL0 self)"

definition cached :: "memory \<Rightarrow> TlsPoolBucket \<Rightarrow> u32 list" where
  "cached m self = l1_items m self @ l0_items self"

text \<open>The memory of the L1 stack: \<open>maxElementsCount + SMM_MAX_CACHE_ITEMS_COUNT\<close> slots, so that \<open>Destroy\<close> can move
  the L0 items there.\<close>

definition storage_span :: "TlsPoolBucket \<Rightarrow> addr set" where
  "storage_span self = span (pStorageL1 self) (4 * (unat (maxElementsCount self) + SMM_MAX_CACHE_ITEMS_COUNT))"

definition cache_wf :: "nat \<Rightarrow> nat \<Rightarrow> addr \<Rightarrow> TlsPoolBucket \<Rightarrow> bool" where
  "cache_wf e n base self \<longleftrightarrow>
     length (storageL0 self) = SMM_MAX_CACHE_ITEMS_COUNT \<and> unat (numElementsL0 self) \<le> SMM_MAX_CACHE_ITEMS_COUNT \<and>
     numElementsL1 self \<le> maxElementsCount self \<and>
     (maxElementsCount self = 0 \<longrightarrow> numElementsL0 self = 0) \<and>
     (maxElementsCount self \<noteq> 0 \<longrightarrow> 2 \<le> maxElementsCount self \<and> pBucketData self = base \<and> pBucket self \<noteq> None \<and>
        unat (pStorageL1 self) + 4 * (unat (maxElementsCount self) + SMM_MAX_CACHE_ITEMS_COUNT) < 2 ^ 64 \<and>
        storage_span self \<inter> (\<Union>x \<in> set (block_offsets e n). span (base + ucast x) e) = {})"


section \<open>Lemmas on the L1 stack\<close>

lemma unat_slot:
  assumes "unat i < unat (maxElementsCount self) + 7"
    and "unat (pStorageL1 self) + 4 * (unat (maxElementsCount self) + 7) < 2 ^ 64"
  shows "unat (slot self i) = unat (pStorageL1 self) + 4 * unat i"
proof -
  have "unat (4 * ucast i :: u64) = 4 * unat i"
    using unat_u32_less [of i] by (simp add: unat_mult_small)
  then show ?thesis using assms by (simp add: unat_add_small)
qed

lemma slot_span: "unat i < unat (maxElementsCount self) + 7 \<Longrightarrow> span (slot self i) 4 \<subseteq> storage_span self"
proof -
  assume i: "unat i < unat (maxElementsCount self) + 7"
  have "(4 * ucast i :: u64) = word_of_nat (4 * unat i)" by simp
  then show ?thesis
    using span_offset_subset [of "4 * unat i" 4 "4 * (unat (maxElementsCount self) + 7)" "pStorageL1 self"] i
    unfolding storage_span_def SMM_MAX_CACHE_ITEMS_COUNT_def by simp
qed

lemma slots_disjoint:
  assumes "unat i < unat (maxElementsCount self) + 7" "unat j < unat (maxElementsCount self) + 7" "i \<noteq> j"
    and "unat (pStorageL1 self) + 4 * (unat (maxElementsCount self) + 7) < 2 ^ 64"
  shows "span (slot self i) 4 \<inter> span (slot self j) 4 = {}"
proof -
  have "unat i \<noteq> unat j" using assms(3) by (simp add: word_eq_iff_unat)
  then have "unat i < unat j \<or> unat j < unat i" by linarith
  then show ?thesis
    using span_disjoint_nat [of "slot self i" 4 "slot self j" 4] span_disjoint_nat [of "slot self j" 4 "slot self i" 4]
      unat_slot [OF assms(1,4)] unat_slot [OF assms(2,4)] assms by fastforce
qed

lemma length_l1_items [simp]: "length (l1_items m self) = unat (numElementsL1 self)"
  by (simp add: l1_items_def)

lemma nth_l1_items:
  "unat i < unat (numElementsL1 self) \<Longrightarrow> l1_items m self ! unat i = load32 m (slot self i)"
  by (simp add: l1_items_def)

lemma l1_items_cong:
  assumes "\<And>i. i < numElementsL1 self \<Longrightarrow> load32 m' (slot self i) = load32 m (slot self i)"
  shows "l1_items m' self = l1_items m self"
proof (rule nth_equalityI)
  fix k assume k: "k < length (l1_items m' self)"
  let ?i = "word_of_nat k :: u32"
  have u: "unat ?i = k" using k unat_u32_less [of "numElementsL1 self"] by (intro unat_of_nat_small) simp
  then have "load32 m' (slot self ?i) = load32 m (slot self ?i)"
    using k by (intro assms) (simp add: word_less_nat_alt)
  then show "l1_items m' self ! k = l1_items m self ! k"
    using nth_l1_items [of ?i self] k u by simp
qed simp

lemma l1_items_frame:
  assumes "same_outside A m m'" "storage_span self \<inter> A = {}" "unat (numElementsL1 self) \<le> unat (maxElementsCount self) + 7"
  shows "l1_items m' self = l1_items m self"
proof (rule l1_items_cong)
  fix i assume "i < numElementsL1 self"
  then have "unat i < unat (maxElementsCount self) + 7" using assms(3) by (simp add: word_less_nat_alt)
  then show "load32 m' (slot self i) = load32 m (slot self i)"
    using slot_span [of i self] assms(2) by (intro same_outside_load32 [OF assms(1)]) blast
qed

lemma l1_items_cong_record:
  "pStorageL1 self' = pStorageL1 self \<Longrightarrow> numElementsL1 self' = numElementsL1 self \<Longrightarrow> l1_items m self' = l1_items m self"
  by (simp add: l1_items_def)

text \<open>Popping and pushing the L1 stack.\<close>

lemma l1_items_pop:
  assumes "numElementsL1 self \<noteq> 0"
  shows "l1_items m self = l1_items m (self\<lparr>numElementsL1 := numElementsL1 self - 1\<rparr>) @
     [load32 m (slot self (numElementsL1 self - 1))]"
proof -
  have u: "unat (numElementsL1 self - 1) = unat (numElementsL1 self) - 1" "0 < unat (numElementsL1 self)"
    using assms by (simp_all add: unat_diff_small word_eq_iff_unat)
  then obtain k where k: "unat (numElementsL1 self) = Suc k" by (metis Suc_pred)
  have "word_of_nat k = (ucast (numElementsL1 self - 1) :: u64)"
    using u k unat_u32_less [of "numElementsL1 self"] by (simp add: word_eq_iff_unat unat_of_nat)
  then show ?thesis using u(1) k by (simp add: l1_items_def)
qed

lemma l1_items_push:
  assumes "unat (numElementsL1 self) < unat (maxElementsCount self) + 7" "unat (numElementsL1 self) + 1 < 2 ^ 32"
    and "unat (pStorageL1 self) + 4 * (unat (maxElementsCount self) + 7) < 2 ^ 64"
  shows "l1_items (store32 m (slot self (numElementsL1 self)) x) (self\<lparr>numElementsL1 := numElementsL1 self + 1\<rparr>) =
     l1_items m self @ [x]"
proof -
  let ?n = "numElementsL1 self" and ?m = "store32 m (slot self (numElementsL1 self)) x"
  have u: "unat (?n + 1) = unat ?n + 1" using assms(2) by (simp add: unat_add_small)
  have "?n + 1 \<noteq> 0" using u by (metis Suc_eq_plus1 nat.simps(3) unat_0)
  then have "l1_items ?m (self\<lparr>numElementsL1 := ?n + 1\<rparr>) = l1_items ?m self @ [x]"
    using l1_items_pop [of "self\<lparr>numElementsL1 := ?n + 1\<rparr>" ?m] by simp
  moreover have "l1_items ?m self = l1_items m self"
  proof (rule l1_items_cong)
    fix i assume i: "i < ?n"
    then have "unat i < unat (maxElementsCount self) + 7" "i \<noteq> ?n" using assms(1) by (auto simp: word_less_nat_alt)
    then show "load32 ?m (slot self i) = load32 m (slot self i)"
      using slots_disjoint [of i self ?n] assms by (intro same_outside_load32 [OF same_outside_store32])
  qed
  ultimately show ?thesis by simp
qed


text \<open>Popping and pushing the L0 array.\<close>

lemma l0_items_pop:
  assumes "numElementsL0 self \<noteq> 0" "unat (numElementsL0 self) \<le> length (storageL0 self)"
  shows "l0_items self = l0_items (self\<lparr>numElementsL0 := numElementsL0 self - 1\<rparr>) @
     [storageL0 self ! unat (numElementsL0 self - 1)]"
proof -
  have u: "unat (numElementsL0 self - 1) = unat (numElementsL0 self) - 1" "0 < unat (numElementsL0 self)"
    using assms(1) by (simp_all add: unat_diff_small word_eq_iff_unat)
  then obtain k where k: "unat (numElementsL0 self) = Suc k" by (metis Suc_pred)
  then show ?thesis using u(1) assms(2) by (simp add: l0_items_def take_Suc_conv_app_nth)
qed

lemma l0_items_push:
  assumes "unat (numElementsL0 self) < length (storageL0 self)" "length (storageL0 self) = 7"
  shows "l0_items (self\<lparr>storageL0 := (storageL0 self)[unat (numElementsL0 self) := x],
      numElementsL0 := numElementsL0 self + 1\<rparr>) = l0_items self @ [x]"
proof -
  have "unat (numElementsL0 self + 1) = Suc (unat (numElementsL0 self))"
    using assms by (simp add: unat_add_small)
  then show ?thesis using assms by (simp add: l0_items_def take_Suc_conv_app_nth)
qed

section \<open>Allocation from the cache\<close>

lemma nonzero_gt: "(x :: 'a::len word) \<noteq> 0 \<Longrightarrow> 0 < x"
  by (simp only: word_gt_0)

lemma cache_wf_L0: "cache_wf e n base self \<Longrightarrow> unat (numElementsL0 self) \<le> length (storageL0 self)"
  by (simp add: cache_wf_def)

lemma AllocFromCache_empty: "cached m self = [] \<Longrightarrow> AllocFromCache self m = (0, self)"
  if "cache_wf e n base self"
proof -
  assume "cached m self = []"
  then have "unat (numElementsL1 self) = 0" "unat (numElementsL0 self) = 0"
    using that length_l1_items [of m self] by (auto simp: cached_def l0_items_def cache_wf_def SMM_MAX_CACHE_ITEMS_COUNT_def)
  then have "numElementsL1 self = 0" "numElementsL0 self = 0" by (simp_all add: word_eq_iff_unat)
  then show ?thesis by (simp add: AllocFromCache_def)
qed

lemma AllocFromCache_pop:
  assumes wf: "cache_wf e n base self" and ne: "cached m self \<noteq> []"
  obtains self' where "AllocFromCache self m = (base + ucast (last (cached m self)), self')"
    "cached m self' = butlast (cached m self)" "cache_wf e n base self'"
    "storage_span self' = storage_span self" "pBucket self' = pBucket self"
proof (cases "numElementsL0 self = 0")
  case False
  let ?s = "self\<lparr>numElementsL0 := numElementsL0 self - 1\<rparr>"
  have "maxElementsCount self \<noteq> 0" using wf False by (auto simp: cache_wf_def)
  then have b: "pBucketData self = base" using wf by (simp add: cache_wf_def)
  have c: "cached m self = cached m ?s @ [storageL0 self ! unat (numElementsL0 self - 1)]"
    using l0_items_pop [OF False cache_wf_L0 [OF wf]] by (simp add: cached_def l1_items_def)
  have "unat (numElementsL0 self - 1) \<le> unat (numElementsL0 self)" using False by (simp add: unat_diff_small word_eq_iff_unat)
  then have "cache_wf e n base ?s" using wf False \<open>maxElementsCount self \<noteq> 0\<close> by (auto simp: cache_wf_def storage_span_def)
  moreover have "AllocFromCache self m = (base + ucast (storageL0 self ! unat (numElementsL0 self - 1)), ?s)"
    using nonzero_gt [OF False] b by (simp add: AllocFromCache_def Let_def)
  moreover have "storage_span ?s = storage_span self" "pBucket ?s = pBucket self" by (simp_all add: storage_span_def)
  ultimately show thesis by (intro that [of ?s]) (simp_all only: c last_snoc butlast_snoc)
next
  case True
  let ?s = "self\<lparr>numElementsL1 := numElementsL1 self - 1\<rparr>"
  have L1: "numElementsL1 self \<noteq> 0" using ne True by (auto simp: cached_def l0_items_def l1_items_def)
  then have "maxElementsCount self \<noteq> 0" using wf by (auto simp: cache_wf_def word_le_nat_alt word_eq_iff_unat)
  then have b: "pBucketData self = base" using wf by (simp add: cache_wf_def)
  have c: "cached m self = cached m ?s @ [load32 m (slot self (numElementsL1 self - 1))]"
    using l1_items_pop [OF L1, of m] True by (simp add: cached_def l0_items_def)
  have "numElementsL1 self - 1 \<le> numElementsL1 self" using L1 by (simp add: word_le_nat_alt unat_diff_small word_eq_iff_unat)
  then have "cache_wf e n base ?s" using wf True \<open>maxElementsCount self \<noteq> 0\<close> by (auto simp: cache_wf_def storage_span_def)
  moreover have "AllocFromCache self m = (base + ucast (load32 m (slot self (numElementsL1 self - 1))), ?s)"
    using True nonzero_gt [OF L1] b by (simp add: AllocFromCache_def Let_def)
  moreover have "storage_span ?s = storage_span self" "pBucket ?s = pBucket self" by (simp_all add: storage_span_def)
  ultimately show thesis by (intro that [of ?s]) (simp_all only: c last_snoc butlast_snoc)
qed


section \<open>Returning a part of L1 to the pool\<close>

text \<open>The links written by the loop, with their tags.\<close>

fun run_links :: "memory \<Rightarrow> addr \<Rightarrow> u32 \<Rightarrow> u32 list \<Rightarrow> bool" where
  "run_links m base tag (x # y # xs) \<longleftrightarrow>
     load64 m (base + ucast x) = mk_TaggedIndex tag y \<and> run_links m base (tag + 1) (y # xs)"
| "run_links m base tag _ \<longleftrightarrow> True"

lemma run_links_nth:
  "run_links m base tag xs \<Longrightarrow> i < length xs - 1 \<Longrightarrow>
     load64 m (base + ucast (xs ! i)) = mk_TaggedIndex (tag + word_of_nat i) (xs ! (i + 1))"
proof (induction m base tag xs arbitrary: i rule: run_links.induct)
  case (1 m base tag x y xs)
  then show ?case by (cases i) (auto simp: algebra_simps)
qed simp_all

lemma run_links_returned: "run_links m base 0xFFFFFF xs \<Longrightarrow> returned_run m base xs"
  by (simp add: returned_run_def run_links_nth)

lemma run_links_path:
  "run_links m base tag xs \<Longrightarrow> geometry e n \<Longrightarrow> set xs \<subseteq> set (block_offsets e n) \<Longrightarrow> path m base xs"
  by (induction m base tag xs rule: run_links.induct) (auto simp: geometry_valid)

lemma run_links_frame:
  "same_outside A m m' \<Longrightarrow> links base (butlast xs) \<inter> A = {} \<Longrightarrow> run_links m' base tag xs = run_links m base tag xs"
proof (induction m base tag xs rule: run_links.induct)
  case (1 m base tag x y xs)
  have "load64 m' (base + ucast x) = load64 m (base + ucast x)"
    using 1 by (intro same_outside_load64 [OF 1(2)]) auto
  then show ?case using 1 by auto
qed simp_all

lemma upt_unat: "i < j \<Longrightarrow> [unat i..<unat j] = unat i # [unat (i + 1)..<unat (j :: 'a::len word)]"
  by (simp add: unat_Suc_less upt_conv_Cons word_less_nat_alt)

lemma ReturnL1_loop_links:
  assumes "geometry e n" "pBucketData self = base" "unat (numElementsL1 self) \<le> unat (maxElementsCount self) + 7"
    and "storage_span self \<inter> (\<Union>x \<in> set (block_offsets e n). span (base + ucast x) e) = {}"
    and "ys = drop (unat i) (l1_items m self)" "distinct (x # ys)" "set (x # ys) \<subseteq> set (block_offsets e n)"
    and "i \<le> numElementsL1 self"
  shows "\<exists>m'. ReturnL1_loop self i tag (base + ucast x) m = (base + ucast (last (x # ys)), m') \<and>
     run_links m' base tag (x # ys) \<and> same_outside (links base (butlast (x # ys))) m m'"
  using assms(5-8)
proof (induction ys arbitrary: i tag x m)
  case Nil
  then have "\<not> i < numElementsL1 self" by (simp add: word_less_nat_alt)
  then show ?case using Nil by (simp add: ReturnL1_loop.simps)
next
  case (Cons y ys)
  have i: "i < numElementsL1 self" "unat i < unat (numElementsL1 self)"
    using Cons.prems(1) by (auto simp: word_less_nat_alt intro: ccontr)
  have y: "load32 m (slot self i) = y" "ys = drop (unat (i + 1)) (l1_items m self)"
    using Cons.prems(1) nth_l1_items [OF i(2), of m] i(2) unat_Suc_less [OF i(1)]
    by (auto simp: Cons_nth_drop_Suc [symmetric])
  let ?m = "store64 m (base + ucast x) (mk_TaggedIndex tag y)"
  have so: "same_outside (span (base + ucast x) 8) m ?m" by blast
  have xy: "x \<in> set (block_offsets e n)" "set (y # ys) \<subseteq> set (block_offsets e n)" using Cons.prems(3) by auto
  have "span (base + ucast x) 8 \<subseteq> span (base + ucast x) e" using assms(1) by (intro span_mono) (simp add: geometry_def)
  then have "storage_span self \<inter> span (base + ucast x) 8 = {}" using assms(4) xy(1) by blast
  then have l1: "l1_items ?m self = l1_items m self" using so assms(3) by (intro l1_items_frame)
  have "i + 1 \<le> numElementsL1 self" using i unat_Suc_less [OF i(1)] by (simp add: word_le_nat_alt)
  then obtain m' where m': "ReturnL1_loop self (i + 1) (tag + 1) (base + ucast y) ?m = (base + ucast (last (y # ys)), m')"
      "run_links m' base (tag + 1) (y # ys)" "same_outside (links base (butlast (y # ys))) ?m m'"
    using Cons.IH [of "i + 1" ?m y "tag + 1"] y(2) l1 Cons.prems(2,3) by auto
  have "ReturnL1_loop self i tag (base + ucast x) m = (base + ucast (last (x # y # ys)), m')"
    using i(1) y(1) m'(1) assms(2) by (simp add: ReturnL1_loop.simps [of self i])
  moreover have "links base [x] \<inter> links base (butlast (y # ys)) = {}"
    using Cons.prems(2) xy by (intro links_disjoint [OF assms(1)]) (auto dest: in_set_butlastD)
  then have "load64 m' (base + ucast x) = mk_TaggedIndex tag y"
    using same_outside_load64 [OF m'(3), of "base + ucast x"] by simp
  moreover have "same_outside (links base (butlast (x # y # ys))) m m'"
    using same_outside_trans [OF so m'(3)] by simp
  ultimately show ?case using m'(2) by simp
qed


lemma l1_items_take:
  "k \<le> numElementsL1 self \<Longrightarrow> l1_items m (self\<lparr>numElementsL1 := k\<rparr>) = take (unat k) (l1_items m self)"
  by (simp add: l1_items_def take_map word_le_nat_alt)

text \<open>\<open>pool_cache_ok\<close>: bucket and cache agree; \<open>free\<close> is the free list of the bucket.\<close>

definition pool_cache_ok :: "nat \<Rightarrow> nat \<Rightarrow> u32 list \<Rightarrow> TlsPoolBucket \<Rightarrow> PoolBucket \<Rightarrow> memory \<Rightarrow> bool" where
  "pool_cache_ok e n free self b m \<longleftrightarrow>
     geometry e n \<and> cache_wf e n (pData b) self \<and> chain m (pData b) (head b) free \<and>
     distinct (free @ cached m self) \<and> set (free @ cached m self) \<subseteq> set (block_offsets e n)"

lemma links_in_blocks:
  "geometry e n \<Longrightarrow> set xs \<subseteq> set (block_offsets e n) \<Longrightarrow>
     links base xs \<subseteq> (\<Union>x \<in> set (block_offsets e n). span (base + ucast x) e)"
  using span_mono [of 8 e] by (fastforce simp: links_def geometry_def)

text \<open>The newest part of L1, also when it has taken up the items of L0.\<close>

lemma ReturnL1_run:
  assumes geo: "geometry e n" and base: "pBucketData self = pData b"
    and max: "unat (numElementsL1 self) \<le> unat (maxElementsCount self) + 7"
    and sp: "storage_span self \<inter> (\<Union>x \<in> set (block_offsets e n). span (pData b + ucast x) e) = {}"
    and ch: "chain m (pData b) (head b) free" and dt: "distinct (free @ l1_items m self)"
    and bl: "set (free @ l1_items m self) \<subseteq> set (block_offsets e n)"
    and c: "cnt \<noteq> 0" "numElementsL1 self \<noteq> 0"
    and k: "k = unat (numElementsL1 self - min cnt (numElementsL1 self))"
  obtains b' m' where
    "ReturnL1CacheToMaster cnt self b m =
       (self\<lparr>numElementsL1 := numElementsL1 self - min cnt (numElementsL1 self)\<rparr>, b', m')"
    "chain m' (pData b') (head b') (drop k (l1_items m self) @ free)" "l1_items m' self = l1_items m self"
    "pData b' = pData b" "pDataEnd b' = pDataEnd b" "bucketStats b' = bucketStats b"
    "same_outside (links (pData b) (drop k (l1_items m self))) m m'"
    "run_links m' (pData b) 0xFFFFFF (drop k (l1_items m self))"
proof -
  let ?L = "numElementsL1 self" and ?base = "pData b" and ?l1 = "l1_items m self"
  let ?c = "min cnt (numElementsL1 self)" let ?f = "numElementsL1 self - min cnt (numElementsL1 self)"
  have fL: "?f < ?L" "k < unat ?L"
    using c k by (auto simp: word_less_nat_alt unat_diff_small min_def word_le_nat_alt word_eq_iff_unat not_le)
  define x ys where "x = ?l1 ! k" and "ys = drop (Suc k) ?l1"
  have xys: "drop k ?l1 = x # ys" using fL(2) by (simp add: x_def ys_def Cons_nth_drop_Suc)
  have x: "load32 m (slot self ?f) = x" using nth_l1_items [of ?f self m] fL k by (simp add: x_def)
  have ysf: "ys = drop (unat (?f + 1)) ?l1" using unat_Suc_less [OF fL(1)] k by (simp add: ys_def)
  have sub: "set (x # ys) \<subseteq> set ?l1" using xys set_drop_subset [of k ?l1] by simp
  have dist: "distinct (x # ys)" using dt xys distinct_drop [of ?l1 k] by simp
  have blk: "set (x # ys) \<subseteq> set (block_offsets e n)" using sub bl by auto
  have dis: "set (x # ys) \<inter> set free = {}" using sub dt by auto
  have "?f + 1 \<le> ?L" using fL unat_Suc_less [OF fL(1)] by (simp add: word_le_nat_alt word_less_nat_alt)
  from ReturnL1_loop_links [OF geo base max sp ysf dist blk this]
  obtain m1 where m1: "ReturnL1_loop self (?f + 1) 0xFFFFFF (?base + ucast x) m = (?base + ucast (last (x # ys)), m1)"
      "run_links m1 ?base 0xFFFFFF (x # ys)" "same_outside (links ?base (butlast (x # ys))) m m1" by blast
  have "links ?base free \<inter> links ?base (butlast (x # ys)) = {}"
    using geo bl blk dis by (intro links_disjoint [of e n]) (auto dest: in_set_butlastD)
  then have ch1: "chain m1 ?base (head b) free" using ch chain_frame [OF m1(3)] by simp
  obtain m' b' where f: "PoolBucket_FreeInterval (?base + ucast (hd (x # ys))) (?base + ucast (last (x # ys))) m1 b = (m', b')"
    by fastforce
  have "distinct ((x # ys) @ free)" "set ((x # ys) @ free) \<subseteq> set (block_offsets e n)" using dist dis blk dt bl by auto
  note F = FreeInterval_chain [OF geo list.discI [OF refl] this run_links_path [OF m1(2) geo blk] ch1 f]
  have so: "same_outside (links ?base (x # ys)) m m'"
  proof (rule same_outside_mono [OF same_outside_trans [OF m1(3) F(6)]])
    show "links ?base (butlast (x # ys)) \<union> span (?base + ucast (last (x # ys))) 8 \<subseteq> links ?base (x # ys)"
      by (auto simp: links_def dest: in_set_butlastD)
  qed
  have "last (x # ys) \<notin> set (butlast (x # ys))"
    using dist by (metis append_butlast_last_id distinct_append disjoint_insert(2) list.discI list.set(2) inf_commute)
  then have "links ?base (butlast (x # ys)) \<inter> links ?base [last (x # ys)] = {}"
    using geo blk by (intro links_disjoint [of e n]) (auto dest: in_set_butlastD)
  then have rl: "run_links m' ?base 0xFFFFFF (x # ys)"
    using m1(2) run_links_frame [OF F(6), where xs = "x # ys" and tag = "0xFFFFFF"] by simp
  have "storage_span self \<inter> links ?base (x # ys) = {}" using sp links_in_blocks [OF geo blk, of ?base] by blast
  then have "l1_items m' self = ?l1" using l1_items_frame [OF so _ max] by simp
  moreover have "ReturnL1CacheToMaster cnt self b m = (self\<lparr>numElementsL1 := ?f\<rparr>, b', m')"
    using c m1(1) f x base by (simp add: ReturnL1CacheToMaster_def Let_def)
  ultimately show thesis using that F so rl unfolding xys by auto
qed

lemma ReturnL1_effect:
  assumes ok: "pool_cache_ok e n free self b m" and c: "cnt \<noteq> 0" "numElementsL1 self \<noteq> 0"
    and k: "k = unat (numElementsL1 self - min cnt (numElementsL1 self))"
  obtains b' m' where
    "ReturnL1CacheToMaster cnt self b m =
       (self\<lparr>numElementsL1 := numElementsL1 self - min cnt (numElementsL1 self)\<rparr>, b', m')"
    "chain m' (pData b') (head b') (drop k (l1_items m self) @ free)" "l1_items m' self = l1_items m self"
    "pData b' = pData b" "pDataEnd b' = pDataEnd b" "bucketStats b' = bucketStats b"
    "same_outside (links (pData b) (drop k (l1_items m self))) m m'"
    "run_links m' (pData b) 0xFFFFFF (drop k (l1_items m self))"
proof -
  note O = ok [unfolded pool_cache_ok_def]
  have wf: "cache_wf e n (pData b) self" and geo: "geometry e n" using O by simp_all
  have max: "numElementsL1 self \<le> maxElementsCount self" "maxElementsCount self \<noteq> 0"
    using wf c(2) by (auto simp: cache_wf_def word_le_nat_alt word_eq_iff_unat)
  then have s: "pBucketData self = pData b" "unat (numElementsL1 self) \<le> unat (maxElementsCount self) + 7"
    "storage_span self \<inter> (\<Union>x \<in> set (block_offsets e n). span (pData b + ucast x) e) = {}"
    using wf by (auto simp: cache_wf_def word_le_nat_alt)
  have "distinct (free @ l1_items m self)" "set (free @ l1_items m self) \<subseteq> set (block_offsets e n)"
    using O by (auto simp: cached_def)
  from ReturnL1_run [OF geo s _ this c k] O show thesis by (metis that)
qed


section \<open>Release to the cache\<close>

lemma cache_wf_numL1:
  "cache_wf e n base self \<Longrightarrow> k \<le> maxElementsCount self \<Longrightarrow> cache_wf e n base (self\<lparr>numElementsL1 := k\<rparr>)"
  by (auto simp: cache_wf_def storage_span_def)

lemma cached_frame:
  assumes "cache_wf e n base self" "same_outside A m m'" "maxElementsCount self \<noteq> 0 \<longrightarrow> storage_span self \<inter> A = {}"
  shows "cached m' self = cached m self"
proof (cases "maxElementsCount self = 0")
  case True
  then have "numElementsL1 self = 0" using assms(1) by (auto simp: cache_wf_def)
  then show ?thesis by (simp add: cached_def l1_items_def)
next
  case False
  then show ?thesis using assms by (simp add: cached_def cache_wf_def l1_items_frame word_le_nat_alt)
qed

text \<open>Pushing onto L1 when there is room.\<close>

lemma L1_push:
  assumes wf: "cache_wf e n base self" and r: "numElementsL1 self < maxElementsCount self"
  shows "cached (store32 m (slot self (numElementsL1 self)) x) (self\<lparr>numElementsL1 := numElementsL1 self + 1\<rparr>) =
      l1_items m self @ [x] @ l0_items self"
    and "cache_wf e n base (self\<lparr>numElementsL1 := numElementsL1 self + 1\<rparr>)"
    and "same_outside (storage_span self) m (store32 m (slot self (numElementsL1 self)) x)"
proof -
  let ?L = "numElementsL1 self"
  have nz: "maxElementsCount self \<noteq> 0" using r by auto
  have u: "unat ?L < unat (maxElementsCount self)" "unat (?L + 1) = unat ?L + 1"
    using r unat_Suc_less [OF r] by (simp_all add: word_less_nat_alt)
  have b: "unat ?L + 1 < 2 ^ 32" using u(1) unat_u32_less [of "maxElementsCount self"] by simp
  have s: "unat (pStorageL1 self) + 4 * (unat (maxElementsCount self) + 7) < 2 ^ 64"
    using wf nz by (simp add: cache_wf_def SMM_MAX_CACHE_ITEMS_COUNT_def)
  show "cached (store32 m (slot self ?L) x) (self\<lparr>numElementsL1 := ?L + 1\<rparr>) = l1_items m self @ [x] @ l0_items self"
    using l1_items_push [OF _ b s, of m x] u(1) by (simp add: cached_def l0_items_def)
  show "cache_wf e n base (self\<lparr>numElementsL1 := ?L + 1\<rparr>)"
    using u by (intro cache_wf_numL1 [OF wf]) (simp add: word_le_nat_alt)
  have "span (slot self ?L) 4 \<subseteq> storage_span self" using u(1) by (intro slot_span) simp
  then show "same_outside (storage_span self) m (store32 m (slot self ?L) x)"
    by (rule same_outside_mono [OF same_outside_store32])
qed

lemma chain_storage:
  assumes "geometry e n" "cache_wf e n base self" "maxElementsCount self \<noteq> 0" "set free \<subseteq> set (block_offsets e n)"
    and "same_outside (storage_span self) m m'"
  shows "chain m' base h free = chain m base h free"
proof (rule chain_frame [OF assms(5)])
  show "links base free \<inter> storage_span self = {}"
    using links_in_blocks [OF assms(1,4), of base] assms(2,3) by (auto simp: cache_wf_def)
qed

lemma release_L1:
  assumes ok: "pool_cache_ok e n free self b m" and r: "numElementsL1 self < maxElementsCount self"
    and x: "x \<in> set (block_offsets e n)" "x \<notin> set (free @ cached m self)"
    and m': "m' = store32 m (slot self (numElementsL1 self)) x"
    and self': "self' = self\<lparr>numElementsL1 := numElementsL1 self + 1\<rparr>"
  shows "pool_cache_ok e n free self' b m'" "mset (cached m' self') = add_mset x (mset (cached m self))"
    "same_outside (storage_span self) m m'"
proof -
  note O = ok [unfolded pool_cache_ok_def]
  have wf: "cache_wf e n (pData b) self" and nz: "maxElementsCount self \<noteq> 0" using O r by auto
  note P = L1_push(1) [OF wf r, of m x] L1_push(2) [OF wf r] L1_push(3) [OF wf r, of m x]
  show so: "same_outside (storage_span self) m m'" unfolding m' by (rule P(3))
  have c: "cached m' self' = l1_items m self @ [x] @ l0_items self" unfolding m' self' by (rule P(1))
  then show "mset (cached m' self') = add_mset x (mset (cached m self))" by (simp add: cached_def)
  have "chain m' (pData b) (head b) free" using O chain_storage [OF _ wf nz _ so] by auto
  moreover have "cache_wf e n (pData b) self'" unfolding self' by (rule P(2))
  ultimately show "pool_cache_ok e n free self' b m'"
    using O x unfolding pool_cache_ok_def c by (auto simp: cached_def)
qed

text \<open>Giving half of a full L1 back makes room.\<close>

lemma return_half:
  assumes ok: "pool_cache_ok e n free self b m" and full: "numElementsL1 self = maxElementsCount self"
    and nz: "maxElementsCount self \<noteq> 0"
  obtains k b' m' where
    "ReturnL1CacheToMaster (drop_bit 1 (numElementsL1 self)) self b m = (self\<lparr>numElementsL1 := k\<rparr>, b', m')"
    "k < maxElementsCount self" "pool_cache_ok e n (drop (unat k) (l1_items m self) @ free) (self\<lparr>numElementsL1 := k\<rparr>) b' m'"
    "mset ((drop (unat k) (l1_items m self) @ free) @ cached m' (self\<lparr>numElementsL1 := k\<rparr>)) = mset (free @ cached m self)"
    "pData b' = pData b" "pDataEnd b' = pDataEnd b" "bucketStats b' = bucketStats b"
    "same_outside (links (pData b) (cached m self)) m m'"
proof -
  let ?L = "numElementsL1 self" and ?h = "drop_bit 1 (numElementsL1 self)"
  note O = ok [unfolded pool_cache_ok_def]
  have "2 \<le> unat ?L" using O full nz by (auto simp: cache_wf_def word_le_nat_alt)
  moreover have "unat ?h = unat ?L div 2" by (simp add: unat_drop_bit)
  ultimately have h: "0 < unat ?h" "unat ?h \<le> unat ?L" by linarith+
  then have nzs: "?h \<noteq> 0" "?L \<noteq> 0" "min ?h ?L = ?h" by (auto simp: min_def word_le_nat_alt)
  let ?k = "?L - ?h"
  have k: "unat ?k < unat ?L" using h by (simp add: unat_diff_small)
  obtain b' m' where R: "ReturnL1CacheToMaster ?h self b m = (self\<lparr>numElementsL1 := ?k\<rparr>, b', m')"
      "chain m' (pData b') (head b') (drop (unat ?k) (l1_items m self) @ free)" "l1_items m' self = l1_items m self"
      "pData b' = pData b" "pDataEnd b' = pDataEnd b" "bucketStats b' = bucketStats b"
      "same_outside (links (pData b) (drop (unat ?k) (l1_items m self))) m m'"
    using ReturnL1_effect [OF ok nzs(1,2) refl] unfolding nzs(3) by metis
  have c: "cached m' (self\<lparr>numElementsL1 := ?k\<rparr>) = take (unat ?k) (l1_items m self) @ l0_items self"
    using R(3) l1_items_take [of ?k self m'] k by (simp add: cached_def l0_items_def word_le_nat_alt)
  have "?k \<le> maxElementsCount self" using k full by (simp add: word_le_nat_alt)
  then have wf: "cache_wf e n (pData b') (self\<lparr>numElementsL1 := ?k\<rparr>)" using O R(4) cache_wf_numL1 by simp
  have ms: "mset ((drop (unat ?k) (l1_items m self) @ free) @ cached m' (self\<lparr>numElementsL1 := ?k\<rparr>)) = mset (free @ cached m self)"
  proof -
    have "mset (drop (unat ?k) (l1_items m self)) + mset (take (unat ?k) (l1_items m self)) = mset (l1_items m self)"
      by (metis append_take_drop_id mset_append union_commute)
    then show ?thesis unfolding c by (simp add: cached_def)
  qed
  then have "pool_cache_ok e n (drop (unat ?k) (l1_items m self) @ free) (self\<lparr>numElementsL1 := ?k\<rparr>) b' m'"
    using O R(2,4) wf mset_eq_setD [OF ms] mset_eq_imp_distinct_iff [OF ms] unfolding pool_cache_ok_def by simp
  moreover have "same_outside (links (pData b) (cached m self)) m m'"
    using R(7) by (rule same_outside_mono, intro links_mono) (auto simp: cached_def dest: in_set_dropD)
  ultimately show thesis using that R ms k full by (auto simp: word_less_nat_alt)
qed

lemma ReleaseToCache_effect:
  assumes ok: "pool_cache_ok e n free self b m" and nz: "maxElementsCount self \<noteq> 0"
    and x: "x \<in> set (block_offsets e n)" "x \<notin> set (free @ cached m self)"
  obtains self' b' m' free' where
    "ReleaseToCache uc (pData b + ucast x) self b m = (True, self', b', m')"
    "pool_cache_ok e n free' self' b' m'"
    "mset (free' @ cached m' self') = add_mset x (mset (free @ cached m self))"
    "pData b' = pData b" "pDataEnd b' = pDataEnd b" "bucketStats b' = bucketStats b"
    "storage_span self' = storage_span self" "maxElementsCount self' = maxElementsCount self" "pBucket self' = pBucket self"
    "same_outside (storage_span self \<union> links (pData b) (cached m self)) m m'"
proof -
  note O = ok [unfolded pool_cache_ok_def]
  let ?base = "pData b"
  have wf: "cache_wf e n ?base self" and geo: "geometry e n" using O by auto
  have base: "pBucketData self = ?base" using wf nz by (simp add: cache_wf_def)
  have off: "ucast (?base + ucast x - pBucketData self) = x" by (simp add: base)
  consider (L0) uc "unat (numElementsL0 self) < 7"
    | (L1) "\<not> (uc \<and> unat (numElementsL0 self) < 7)" "numElementsL1 self < maxElementsCount self"
    | (full) "\<not> (uc \<and> unat (numElementsL0 self) < 7)" "numElementsL1 self = maxElementsCount self"
    using wf by (force simp: cache_wf_def)
  then show thesis
  proof cases
    case L0
    let ?s = "self\<lparr>storageL0 := (storageL0 self)[unat (numElementsL0 self) := x], numElementsL0 := numElementsL0 self + 1\<rparr>"
    have u: "unat (numElementsL0 self + 1) = unat (numElementsL0 self) + 1" using L0(2) by (simp add: unat_add_small)
    have "ReleaseToCache uc (?base + ucast x) self b m = (True, ?s, b, m)"
      using L0 nz off by (simp add: ReleaseToCache_def SMM_MAX_CACHE_ITEMS_COUNT_def)
    moreover have c: "cached m ?s = cached m self @ [x]"
      using l0_items_push [of self x] L0(2) wf by (simp add: cached_def l1_items_def cache_wf_def SMM_MAX_CACHE_ITEMS_COUNT_def)
    moreover have "cache_wf e n ?base ?s" using wf nz L0(2) u
      by (auto simp: cache_wf_def SMM_MAX_CACHE_ITEMS_COUNT_def storage_span_def)
    then have "pool_cache_ok e n free ?s b m" using O x unfolding pool_cache_ok_def c by auto
    ultimately show thesis by (intro that [of ?s b m free]) (auto simp: storage_span_def)
  next
    case L1
    let ?s = "self\<lparr>numElementsL1 := numElementsL1 self + 1\<rparr>" and ?m = "store32 m (slot self (numElementsL1 self)) x"
    note R = release_L1 [OF ok L1(2) x refl refl]
    have "ReleaseToCache uc (?base + ucast x) self b m = (True, ?s, b, ?m)"
      using L1 nz off by (auto simp: ReleaseToCache_def SMM_MAX_CACHE_ITEMS_COUNT_def)
    moreover have "same_outside (storage_span self \<union> links ?base (cached m self)) m ?m"
      using R(3) by (rule same_outside_mono) simp
    ultimately show thesis using R by (intro that [of ?s b ?m free]) (auto simp: storage_span_def)
  next
    case full
    obtain k b1 m1 where H: "ReturnL1CacheToMaster (drop_bit 1 (numElementsL1 self)) self b m = (self\<lparr>numElementsL1 := k\<rparr>, b1, m1)"
      "k < maxElementsCount self"
      "pool_cache_ok e n (drop (unat k) (l1_items m self) @ free) (self\<lparr>numElementsL1 := k\<rparr>) b1 m1"
      "mset ((drop (unat k) (l1_items m self) @ free) @ cached m1 (self\<lparr>numElementsL1 := k\<rparr>)) = mset (free @ cached m self)"
      "pData b1 = pData b" "pDataEnd b1 = pDataEnd b" "bucketStats b1 = bucketStats b"
      "same_outside (links (pData b) (cached m self)) m m1"
      by (rule return_half [OF ok full(2) nz])
    let ?s1 = "self\<lparr>numElementsL1 := k\<rparr>" let ?free = "drop (unat k) (l1_items m self) @ free"
    let ?s = "self\<lparr>numElementsL1 := k + 1\<rparr>" and ?m = "store32 m1 (slot self k) x"
    note ms = H(4)
    have "set (?free @ cached m1 ?s1) = set (free @ cached m self)" using mset_eq_setD [OF ms] .
    then have "x \<notin> set (?free @ cached m1 ?s1)" using x(2) by simp
    note R = release_L1 [OF H(3) _ x(1) this, of ?m ?s]
    have "ReleaseToCache uc (?base + ucast x) self b m = (True, ?s, b1, ?m)"
      using full nz off H(1) by (auto simp: ReleaseToCache_def SMM_MAX_CACHE_ITEMS_COUNT_def)
    moreover have "same_outside (storage_span self \<union> links ?base (cached m self)) m ?m"
      using same_outside_trans [OF H(8) R(3)] H(2) by (simp add: storage_span_def Un_commute)
    ultimately show thesis using R H ms by (intro that [of ?s b1 ?m ?free]) (auto simp: storage_span_def)
  qed
qed


section \<open>Properties\<close>

text \<open>A cache of two L1 slots over a bucket of four blocks of 16 bytes, all handed out.\<close>

definition demo_cache :: TlsPoolBucket where
  "demo_cache = TlsPoolBucket_zero\<lparr>pBucketData := 4096, pStorageL1 := 65536, pBucket := Some 0, maxElementsCount := 2\<rparr>"

lemma demo_cache_ok: "pool_cache_ok 16 4 [] demo_cache demo_bucket m"
proof -
  have g: "geometry 16 4" by (simp add: geometry_def)
  have "span (4096 + ucast x) 16 \<subseteq> span 4096 64" if "x \<in> set (block_offsets 16 4)" for x :: u32
    using block_in_buffer [OF g _ that, of 64 16 4096] by simp
  moreover have "storage_span demo_cache \<inter> span 4096 64 = {}"
    using span_disjoint_nat [of 4096 64 65536 36]
    by (auto simp: storage_span_def demo_cache_def SMM_MAX_CACHE_ITEMS_COUNT_def)
  ultimately have "storage_span demo_cache \<inter> (\<Union>x \<in> set (block_offsets 16 4). span (4096 + ucast x) 16) = {}" by blast
  then have "cache_wf 16 4 4096 demo_cache"
    by (simp add: cache_wf_def demo_cache_def TlsPoolBucket_zero_def SMM_MAX_CACHE_ITEMS_COUNT_def)
  moreover have "cached m demo_cache = []"
    by (simp add: cached_def l1_items_def l0_items_def demo_cache_def TlsPoolBucket_zero_def)
  ultimately show ?thesis using g by (simp add: pool_cache_ok_def demo_bucket_def PoolBucket_init_def)
qed

lemma replicate_7: "replicate 7 x = x # replicate 6 x"
  by (simp add: eval_nat_numeral)

text \<open>
  (C13) Releasing a block to a cache of at least two L1 slots succeeds and loses nothing: the blocks of free
  list and cache together are those of before and the released one. The invariant holds again, so
  L0 and L1 stay within their capacity, and only the cache's own storage and links of cached blocks
  are written: blocks in use are untouched.
\<close>

theorem ReleaseToCache_conserves:
  assumes "pool_cache_ok e n free self b m" and "maxElementsCount self \<noteq> 0"
    and "x \<in> set (block_offsets e n)" and "x \<notin> set (free @ cached m self)"
  shows "\<exists>self' b' m' free'. ReleaseToCache useCacheL0 (pData b + ucast x) self b m = (True, self', b', m') \<and>
    pool_cache_ok e n free' self' b' m' \<and>
    mset (free' @ cached m' self') = add_mset x (mset (free @ cached m self)) \<and>
    same_outside (storage_span self \<union> links (pData b) (cached m self)) m m'"
  using assms by (rule ReleaseToCache_effect [where uc = useCacheL0]) blast

theorem ReleaseToCache_conserves_witness:
  "\<exists>self' b' m' free'. ReleaseToCache True (4096 + 16) demo_cache demo_bucket (\<lambda>_. 0) = (True, self', b', m') \<and>
    mset (free' @ cached m' self') = {#16#}"
proof -
  have "16 \<in> set (block_offsets 16 4)" by (simp add: block_offsets_def upt_rec)
  moreover have "cached m demo_cache = []" for m
    by (simp add: cached_def l1_items_def l0_items_def demo_cache_def TlsPoolBucket_zero_def)
  moreover have "maxElementsCount demo_cache \<noteq> 0" "pData demo_bucket = 4096"
    by (simp_all add: demo_cache_def demo_bucket_def)
  ultimately show ?thesis
    using ReleaseToCache_conserves [OF demo_cache_ok, of 16 "\<lambda>_. 0" True] by (simp, blast)
qed

text \<open>
  Allocation from a cache hands out the most recent item, takes it from L0 before L1, and returns null
  exactly when the cache is empty; nothing else of the cache changes.
\<close>

theorem AllocFromCache_latest:
  assumes "pool_cache_ok e n free self b m"
  shows "cached m self = [] \<and> AllocFromCache self m = (0, self) \<or>
    (\<exists>xs x self'. cached m self = xs @ [x] \<and> AllocFromCache self m = (pData b + ucast x, self') \<and>
      cached m self' = xs \<and> pool_cache_ok e n free self' b m)"
proof (cases "cached m self = []")
  case True
  then show ?thesis using AllocFromCache_empty assms by (auto simp: pool_cache_ok_def)
next
  case False
  have wf: "cache_wf e n (pData b) self" using assms by (simp add: pool_cache_ok_def)
  obtain self' where s: "AllocFromCache self m = (pData b + ucast (last (cached m self)), self')"
    "cached m self' = butlast (cached m self)" "cache_wf e n (pData b) self'"
    by (rule AllocFromCache_pop [OF wf False])
  have c: "cached m self = cached m self' @ [last (cached m self)]" using False s(2) by simp
  have "pool_cache_ok e n free self' b m"
    using assms s(3) unfolding pool_cache_ok_def by (subst (asm) (1 2) c) auto
  then show ?thesis using s(1) c by blast
qed

theorem AllocFromCache_latest_witness:
  "\<exists>self' b' m'. ReleaseToCache True 4112 demo_cache demo_bucket (\<lambda>_. 0) = (True, self', b', m') \<and>
     fst (AllocFromCache self' m') = 4112"
proof -
  obtain self' b' m' where r: "ReleaseToCache True 4112 demo_cache demo_bucket (\<lambda>_. 0) = (True, self', b', m')"
    and s: "self' = demo_cache\<lparr>storageL0 := 16 # replicate 6 0, numElementsL0 := 1\<rparr>" "b' = demo_bucket" "m' = (\<lambda>_. 0)"
    by (simp add: ReleaseToCache_def demo_cache_def TlsPoolBucket_zero_def SMM_MAX_CACHE_ITEMS_COUNT_def replicate_7)
  have c: "cached m' self' = [16]"
    by (simp add: s cached_def l1_items_def l0_items_def demo_cache_def TlsPoolBucket_zero_def)
  have "pool_cache_ok 16 4 [] self' demo_bucket m'"
    using demo_cache_ok [of m'] c unfolding pool_cache_ok_def
    by (simp add: s cache_wf_def demo_cache_def TlsPoolBucket_zero_def SMM_MAX_CACHE_ITEMS_COUNT_def
        storage_span_def block_offsets_def upt_rec demo_bucket_def)
  from AllocFromCache_latest [OF this] c have "fst (AllocFromCache self' m') = 4112"
    by (auto simp: demo_bucket_def)
  then show ?thesis using r by blast
qed

definition demo_stack :: memory where
  "demo_stack = store32 (store32 (\<lambda>_. 0) 65536 16) 65540 32"

text \<open>
  \<open>ReturnL1CacheToMaster\<close> gives the newest part of L1 back: those blocks become the front of the free
  list in their order, the older part stays cached, and apart from links of the returned blocks no
  memory is written. The links carry the local tags that restart at \<open>0xFFFFFF\<close> in every call.
\<close>

theorem ReturnL1_gives_back_newest:
  assumes "pool_cache_ok e n free self b m" and "cnt \<noteq> 0" and "numElementsL1 self \<noteq> 0"
    and "k = unat (numElementsL1 self) - min (unat cnt) (unat (numElementsL1 self))"
  shows "\<exists>self' b' m'. ReturnL1CacheToMaster cnt self b m = (self', b', m') \<and>
    chain m' (pData b) (head b') (drop k (l1_items m self) @ free) \<and>
    l1_items m' self' = take k (l1_items m self) \<and> l0_items self' = l0_items self \<and>
    run_links m' (pData b) 0xFFFFFF (drop k (l1_items m self)) \<and>
    same_outside (links (pData b) (drop k (l1_items m self))) m m'"
proof -
  let ?f = "numElementsL1 self - min cnt (numElementsL1 self)"
  have f: "k = unat ?f" "?f \<le> numElementsL1 self"
    using assms(4) by (auto simp: min_def word_le_nat_alt unat_diff_small)
  obtain b' m' where R: "ReturnL1CacheToMaster cnt self b m = (self\<lparr>numElementsL1 := ?f\<rparr>, b', m')"
    "chain m' (pData b') (head b') (drop k (l1_items m self) @ free)" "l1_items m' self = l1_items m self"
    "pData b' = pData b" "same_outside (links (pData b) (drop k (l1_items m self))) m m'"
    "run_links m' (pData b) 0xFFFFFF (drop k (l1_items m self))"
    by (rule ReturnL1_effect [OF assms(1-3) f(1)])
  then show ?thesis using l1_items_take [OF f(2), of m'] f(1) by (auto simp: l0_items_def)
qed

theorem ReturnL1_gives_back_newest_witness:
  "\<exists>self' b' m'. ReturnL1CacheToMaster 1 (demo_cache\<lparr>numElementsL1 := 2\<rparr>) demo_bucket demo_stack = (self', b', m') \<and>
     chain m' 4096 (head b') [32] \<and> l1_items m' self' = [16]"
proof -
  let ?s = "demo_cache\<lparr>numElementsL1 := 2\<rparr>"
  have "load32 demo_stack 65536 = 16"
    unfolding demo_stack_def using span_disjoint_nat [of 65536 4 65540 4]
    by (subst same_outside_load32 [OF same_outside_store32]) auto
  then have l1: "l1_items demo_stack ?s = [16, 32]"
    by (simp add: l1_items_def demo_cache_def upt_rec demo_stack_def)
  have wf: "cache_wf 16 4 4096 ?s"
    using demo_cache_ok by (intro cache_wf_numL1) (auto simp: pool_cache_ok_def demo_bucket_def demo_cache_def)
  have "l0_items ?s = []" by (simp add: l0_items_def demo_cache_def TlsPoolBucket_zero_def)
  then have ok: "pool_cache_ok 16 4 [] ?s demo_bucket demo_stack"
    using l1 wf by (simp add: pool_cache_ok_def demo_bucket_def PoolBucket_init_def cached_def geometry_def
        block_offsets_def upt_rec)
  show ?thesis
    using ReturnL1_gives_back_newest [OF ok, of 1 1] l1 by (auto simp: demo_bucket_def)
qed

text \<open>
  A cache option of one element is only excluded by a debug assertion. With a single L1 slot, half of
  the full stack is no element: the cache then holds more items than its maximum.
\<close>

theorem single_slot_cache_overfills:
  assumes "maxElementsCount self = 1" and "numElementsL1 self = 1" and "numElementsL0 self = 7"
  shows "\<exists>self' m'. ReleaseToCache useCacheL0 p self b m = (True, self', b, m') \<and>
    numElementsL1 self' = 2 \<and> maxElementsCount self' = 1"
  using assms by (simp add: ReleaseToCache_def ReturnL1CacheToMaster_def SMM_MAX_CACHE_ITEMS_COUNT_def)

theorem single_slot_cache_overfills_witness:
  "\<exists>self' m'. ReleaseToCache True 4112
      (demo_cache\<lparr>maxElementsCount := 1, numElementsL1 := 1, numElementsL0 := 7\<rparr>) demo_bucket (\<lambda>_. 0) = (True, self', demo_bucket, m') \<and>
    numElementsL1 self' = 2"
  using single_slot_cache_overfills [of "demo_cache\<lparr>maxElementsCount := 1, numElementsL1 := 1, numElementsL0 := 7\<rparr>"]
  by fastforce

end
