(* ===== verification/Allocator.thy ===== *)
theory Allocator
  imports Generic_Heap Thread_Cache
begin

text \<open>
  The class \<open>sm::Allocator\<close> of \<^verbatim>\<open>smmalloc.h\<close>: requests are routed to the thread cache, to up to four pool
  buckets and then to the generic allocator; frees are routed back by address. The state of the
  program is a \<open>world\<close>: the heap of the C library with all memory, the allocator object, and the
  thread-local cache buckets of every thread. Operations take the number \<open>t\<close> of the calling thread.
  Statistics are compiled in, assertions are not.
\<close>

section \<open>Sums as error results\<close>

definition bindE :: "'e + 'a \<Rightarrow> ('a \<Rightarrow> 'e + 'b) \<Rightarrow> 'e + 'b" where
  "bindE m f = (case m of Inl e \<Rightarrow> Inl e | Inr x \<Rightarrow> f x)"

lemma bindE_simps [simp]: "bindE (Inr x) f = f x" "bindE (Inl e) f = Inl e"
  by (simp_all add: bindE_def)

lemma bindE_Inr: "bindE m f = Inr y \<longleftrightarrow> (\<exists>x. m = Inr x \<and> f x = Inr y)"
  by (cases m) simp_all

section \<open>State\<close>

record GlobalStats =
  totalNumAllocationAttempts :: size_t
  totalAllocationsServed :: size_t
  totalAllocationsRoutedToDefaultAllocator :: size_t
  routingReasonBySize :: size_t
  routingReasonSaturation :: size_t

definition GlobalStats_init :: GlobalStats where
  "GlobalStats_init =
     \<lparr>totalNumAllocationAttempts = 0, totalAllocationsServed = 0,
      totalAllocationsRoutedToDefaultAllocator = 0, routingReasonBySize = 0, routingReasonSaturation = 0\<rparr>"

definition SMM_MAX_BUCKET_COUNT :: nat where
  "SMM_MAX_BUCKET_COUNT = 62"

definition kMaxValidAlignment :: size_t where
  "kMaxValidAlignment = 4096"

record Allocator =
  bucketsCount :: size_t
  bucketSizeInBytes :: size_t
  pBufferEnd :: addr
  bucketsDataBegin :: "addr list"
  buckets :: "PoolBucket list"
  pBuffer :: addr
  gAllocator :: TInstance
  globalStats :: GlobalStats

record world =
  wheap :: heap
  alloc :: Allocator
  tls :: "nat \<Rightarrow> TlsPoolBucket list"

abbreviation wmem :: "world \<Rightarrow> memory" where
  "wmem w \<equiv> hmem (wheap w)"

definition set_wmem :: "memory \<Rightarrow> world \<Rightarrow> world" where
  "set_wmem m w = w\<lparr>wheap := (wheap w)\<lparr>hmem := m\<rparr>\<rparr>"

definition set_bucket :: "size_t \<Rightarrow> PoolBucket \<Rightarrow> world \<Rightarrow> world" where
  "set_bucket i b w = w\<lparr>alloc := (alloc w)\<lparr>buckets := (buckets (alloc w))[unat i := b]\<rparr>\<rparr>"

definition set_tls :: "nat \<Rightarrow> size_t \<Rightarrow> TlsPoolBucket \<Rightarrow> world \<Rightarrow> world" where
  "set_tls t i c w = w\<lparr>tls := (tls w)(t := (tls w t)[unat i := c])\<rparr>"

definition upd_stats :: "(GlobalStats \<Rightarrow> GlobalStats) \<Rightarrow> world \<Rightarrow> world" where
  "upd_stats f w = w\<lparr>alloc := (alloc w)\<lparr>globalStats := f (globalStats (alloc w))\<rparr>\<rparr>"

definition upd_bucket_stats :: "size_t \<Rightarrow> (BucketStats \<Rightarrow> BucketStats) \<Rightarrow> world \<Rightarrow> world" where
  "upd_bucket_stats i f w =
     (let b = buckets (alloc w) ! unat i in set_bucket i (b\<lparr>bucketStats := f (bucketStats b)\<rparr>) w)"

definition GetTlsBucket :: "nat \<Rightarrow> size_t \<Rightarrow> world \<Rightarrow> TlsPoolBucket" where
  "GetTlsBucket t index w = tls w t ! unat index"

section \<open>Queries\<close>

definition IsReadable :: "addr \<Rightarrow> bool" where
  "IsReadable p \<longleftrightarrow> p > kMaxValidAlignment"

text \<open>Without \<open>Init\<close> the bucket size is 0 and the division faults.\<close>

definition FindBucket :: "addr \<Rightarrow> Allocator \<Rightarrow> fault + size_t" where
  "FindBucket p a =
     (let index = p - bucketsDataBegin a ! 0
      in if bucketSizeInBytes a = 0 then Inl Div_By_Zero
         else (let r = index div bucketSizeInBytes a in Inr r))"

definition GetBucketByIndex :: "size_t \<Rightarrow> Allocator \<Rightarrow> PoolBucket option" where
  "GetBucketByIndex bucketIndex a =
     (if bucketIndex \<ge> bucketsCount a then None else Some (buckets a ! unat bucketIndex))"

definition Allocator_IsMyAlloc :: "addr \<Rightarrow> Allocator \<Rightarrow> bool" where
  "Allocator_IsMyAlloc p a \<longleftrightarrow> pBuffer a \<le> p \<and> p < pBufferEnd a"

definition GetBucketIndex :: "addr \<Rightarrow> Allocator \<Rightarrow> fault + int" where
  "GetBucketIndex p a =
     (if \<not> Allocator_IsMyAlloc p a then Inr (- 1)
      else bindE (FindBucket p a)
        (\<lambda>bucketIndex. if bucketIndex \<ge> bucketsCount a then Inr (- 1)
           else Inr (sint (ucast bucketIndex :: u32))))"

definition GetBucketsCount :: "Allocator \<Rightarrow> size_t" where
  "GetBucketsCount a = bucketsCount a"

definition GetBucketElementsCount :: "partitioning \<Rightarrow> size_t \<Rightarrow> Allocator \<Rightarrow> u32" where
  "GetBucketElementsCount sch bucketIndex a =
     (if bucketIndex \<ge> bucketsCount a then 0
      else
        (let oneElementSize = GetBucketSizeInBytesByIndex sch bucketIndex
         in ucast (bucketSizeInBytes a div oneElementSize)))"

definition GetGlobalStats :: "Allocator \<Rightarrow> GlobalStats" where
  "GetGlobalStats a = globalStats a"

definition GetBucketStats :: "size_t \<Rightarrow> Allocator \<Rightarrow> BucketStats option" where
  "GetBucketStats bucketIndex a =
     (case GetBucketByIndex bucketIndex a of
        None \<Rightarrow> None
      | Some bucket \<Rightarrow> Some (bucketStats bucket))"

definition GetGenericAllocatorInstance :: "Allocator \<Rightarrow> TInstance" where
  "GetGenericAllocatorInstance a = gAllocator a"

definition GetUsableSize :: "partitioning \<Rightarrow> addr \<Rightarrow> world \<Rightarrow> fault + size_t" where
  "GetUsableSize sch p w =
     (if \<not> IsReadable p then Inr 0
      else bindE (FindBucket p (alloc w))
        (\<lambda>bucketIndex. if bucketIndex < bucketsCount (alloc w)
           then Inr (GetBucketSizeInBytesByIndex sch bucketIndex)
           else Inr (GenericAllocator_GetUsableSpace p (wheap w))))"

section \<open>Allocation\<close>

text \<open>The loop over the buckets in \<open>Allocate\<close>; not returning is \<open>None\<close>.\<close>

partial_function (option) Allocate_loop ::
    "partitioning \<Rightarrow> bool \<Rightarrow> size_t \<Rightarrow> size_t \<Rightarrow> size_t \<Rightarrow> world \<Rightarrow> (addr \<times> world) option" where
  "Allocate_loop sch enableStatistic alignment maxBucketIndex bucketIndex w =
     (if bucketIndex < maxBucketIndex
      then
        (let (pRes, b) = PoolBucket_Alloc (wmem w) (buckets (alloc w) ! unat bucketIndex);
             w = set_bucket bucketIndex b w
         in if pRes \<noteq> 0
            then
              (if enableStatistic
               then Some (pRes, upd_bucket_stats bucketIndex (\<lambda>s. s\<lparr>hitCount := hitCount s + 1\<rparr>)
                      (upd_stats (\<lambda>s. s\<lparr>totalAllocationsServed := totalAllocationsServed s + 1\<rparr>) w))
               else Some (pRes, w))
            else
              (let w = (if enableStatistic
                        then upd_bucket_stats bucketIndex (\<lambda>s. s\<lparr>missCount := missCount s + 1\<rparr>) w
                        else w)
               in Allocate_loop sch enableStatistic alignment maxBucketIndex
                    (next_bucket sch alignment bucketIndex) w))
      else Some (0, w))"

definition Allocate ::
    "partitioning \<Rightarrow> placement \<Rightarrow> bool \<Rightarrow> nat \<Rightarrow> size_t \<Rightarrow> size_t \<Rightarrow> world \<Rightarrow> fault + addr \<times> world" where
  "Allocate sch env enableStatistic t bytesCount0 alignment w =
     (if bytesCount0 = 0 then Inr (alignment, w)
      else
        (let w = (if enableStatistic
                  then upd_stats (\<lambda>s. s\<lparr>totalNumAllocationAttempts := totalNumAllocationAttempts s + 1\<rparr>) w
                  else w);
             bytesCount = Align bytesCount0 alignment;
             bucketIndex = GetBucketIndexBySize sch bytesCount;
             isValidBucket = (bucketIndex < bucketsCount (alloc w));
             (pRes, w) =
               (if isValidBucket
                then (let (p, c) = AllocFromCache (GetTlsBucket t bucketIndex w) (wmem w)
                      in (p, set_tls t bucketIndex c w))
                else (0, w))
         in if pRes \<noteq> 0
            then
              (if enableStatistic
               then Inr (pRes, upd_bucket_stats bucketIndex (\<lambda>s. s\<lparr>cacheHitCount := cacheHitCount s + 1\<rparr>)
                      (upd_stats (\<lambda>s. s\<lparr>totalAllocationsServed := totalAllocationsServed s + 1\<rparr>) w))
               else Inr (pRes, w))
            else
              (let maxBucketIndex = Min (bucketsCount (alloc w)) (bucketIndex + 4)
               in case Allocate_loop sch enableStatistic alignment maxBucketIndex bucketIndex w of
                    None \<Rightarrow> Inl No_Return
                  | Some (pRes, w) \<Rightarrow>
                      if pRes \<noteq> 0 then Inr (pRes, w)
                      else
                        (let w = (if enableStatistic
                                  then upd_stats (\<lambda>s. s\<lparr>totalAllocationsRoutedToDefaultAllocator :=
                                           totalAllocationsRoutedToDefaultAllocator s + 1\<rparr>)
                                    (if isValidBucket
                                     then upd_stats (\<lambda>s. s\<lparr>routingReasonSaturation := routingReasonSaturation s + 1\<rparr>) w
                                     else upd_stats (\<lambda>s. s\<lparr>routingReasonBySize := routingReasonBySize s + 1\<rparr>) w)
                                  else w);
                             (p, h) = GenericAllocator_Alloc env bytesCount0 alignment (wheap w)
                         in Inr (p, w\<lparr>wheap := h\<rparr>)))))"

definition Allocator_Alloc ::
    "partitioning \<Rightarrow> placement \<Rightarrow> nat \<Rightarrow> size_t \<Rightarrow> size_t \<Rightarrow> world \<Rightarrow> fault + addr \<times> world" where
  "Allocator_Alloc sch env t bytesCount alignment w = Allocate sch env True t bytesCount alignment w"

section \<open>Release\<close>

text \<open>The bucket that a cache bucket belongs to is the one of the same index in the array.\<close>

definition Allocator_Free :: "nat \<Rightarrow> addr \<Rightarrow> world \<Rightarrow> fault + world" where
  "Allocator_Free t p w =
     (if \<not> IsReadable p then Inr w
      else bindE (FindBucket p (alloc w))
        (\<lambda>bucketIndex.
           if bucketIndex < bucketsCount (alloc w)
           then
             (let w = upd_bucket_stats bucketIndex (\<lambda>s. s\<lparr>freeCount := freeCount s + 1\<rparr>) w;
                  (r, c, b, m) = ReleaseToCache True p (GetTlsBucket t bucketIndex w)
                     (buckets (alloc w) ! unat bucketIndex) (wmem w);
                  w = set_tls t bucketIndex c (set_bucket bucketIndex b (set_wmem m w))
              in if r then Inr w
                 else
                   (let (m, b) = PoolBucket_FreeInterval p p (wmem w) (buckets (alloc w) ! unat bucketIndex)
                    in Inr (set_bucket bucketIndex b (set_wmem m w))))
           else bindE (GenericAllocator_Free p (wheap w)) (\<lambda>h. Inr (w\<lparr>wheap := h\<rparr>))))"

text \<open>\<open>Realloc\<close>. The second test for a zero size in the source is never reached with zero. The copy from
  the generic block has no check of a failed allocation: it writes through null.\<close>

definition Allocator_Realloc ::
    "partitioning \<Rightarrow> placement \<Rightarrow> nat \<Rightarrow> addr \<Rightarrow> size_t \<Rightarrow> size_t \<Rightarrow> world \<Rightarrow> fault + addr \<times> world" where
  "Allocator_Realloc sch env t p bytesCount alignment w =
     (if \<not> IsReadable p then Allocator_Alloc sch env t bytesCount alignment w
      else if bytesCount = 0 then bindE (Allocator_Free t p w) (\<lambda>w. Inr (0, w))
      else bindE (FindBucket p (alloc w))
        (\<lambda>bucketIndex.
           if bucketIndex < bucketsCount (alloc w)
           then
             (let elementSize = GetBucketSizeInBytesByIndex sch bucketIndex
              in if bytesCount \<le> elementSize then Inr (p, w)
                 else bindE (Allocator_Alloc sch env t bytesCount alignment w)
                   (\<lambda>(p2, w). if p2 = 0 then Inr (0, w)
                      else
                        (let w = (if IsReadable p then set_wmem (memmove (wmem w) p2 p elementSize) w else w)
                         in bindE (Allocator_Free t p w) (\<lambda>w. Inr (p2, w)))))
           else
             (let bytesCount' = Align bytesCount alignment;
                  bucketIndex' = GetBucketIndexBySize sch bytesCount'
              in if bucketIndex' < bucketsCount (alloc w)
                 then bindE (Allocator_Alloc sch env t bytesCount alignment w)
                   (\<lambda>(p2, w).
                      let numBytes = GenericAllocator_GetUsableSpace p (wheap w)
                      in if IsReadable p \<and> p2 = 0 \<and> min numBytes bytesCount \<noteq> 0 then Inl Null_Access
                         else
                           (let w = (if IsReadable p then set_wmem (memmove (wmem w) p2 p (min numBytes bytesCount)) w else w)
                            in bindE (GenericAllocator_Free p (wheap w)) (\<lambda>h. Inr (p2, w\<lparr>wheap := h\<rparr>))))
                 else bindE (GenericAllocator_Realloc env p bytesCount alignment (wheap w))
                   (\<lambda>(p2, h). Inr (p2, w\<lparr>wheap := h\<rparr>)))))"

section \<open>Construction\<close>

text \<open>The constructor does not initialise \<open>bucketsDataBegin\<close>: its contents are a parameter.\<close>

definition Allocator_ctor :: "addr list \<Rightarrow> TInstance \<Rightarrow> Allocator" where
  "Allocator_ctor indeterminate inst =
     \<lparr>bucketsCount = 0, bucketSizeInBytes = 0, pBufferEnd = 0, bucketsDataBegin = indeterminate,
      buckets = replicate SMM_MAX_BUCKET_COUNT PoolBucket_init, pBuffer = 0, gAllocator = inst,
      globalStats = GlobalStats_init\<rparr>"

text \<open>The second loop of \<open>Init\<close>, over the bucket numbers.\<close>

fun Init_loop :: "partitioning \<Rightarrow> nat list \<Rightarrow> world \<Rightarrow> fault + world" where
  "Init_loop sch [] w = Inr w"
| "Init_loop sch (i # is) w =
     (let a = alloc w;
          bucket = buckets a ! i;
          bucket = bucket\<lparr>pData := pBuffer a + word_of_nat i * bucketSizeInBytes a\<rparr>;
          bucket = bucket\<lparr>pDataEnd := pData bucket + bucketSizeInBytes a\<rparr>;
          elementSize = GetBucketSizeInBytesByIndex sch (word_of_nat i)
      in case PoolBucket_Create elementSize bucket (wmem w) of
           None \<Rightarrow> Inl No_Return
         | Some (bucket, m) \<Rightarrow>
             Init_loop sch is
               (set_wmem m (w\<lparr>alloc := a\<lparr>buckets := (buckets a)[i := bucket],
                  bucketsDataBegin := (bucketsDataBegin a)[i := pData bucket]\<rparr>\<rparr>)))"

text \<open>A failed allocation of the buffer is not checked: \<open>Create\<close> then writes through null.\<close>

definition Allocator_Init ::
    "partitioning \<Rightarrow> placement \<Rightarrow> u32 \<Rightarrow> size_t \<Rightarrow> world \<Rightarrow> fault + world" where
  "Allocator_Init sch env bucketsCount0 bucketSizeInBytes0 w =
     (if bucketsCount (alloc w) > 0 then Inr w
      else if bucketsCount0 = 0 then Inr w
      else
        (let bucketsCount0 = (if unat bucketsCount0 \<ge> SMM_MAX_BUCKET_COUNT then 62 else bucketsCount0);
             a = (alloc w)\<lparr>bucketsCount := ucast bucketsCount0\<rparr>;
             alignmentMax = kMaxValidAlignment;
             a = a\<lparr>bucketSizeInBytes := Align bucketSizeInBytes0 kMaxValidAlignment\<rparr>;
             a = a\<lparr>bucketsDataBegin := replicate SMM_MAX_BUCKET_COUNT 0\<rparr>;
             totalBytesCount = bucketSizeInBytes a * bucketsCount a;
             (p, h) = GenericAllocator_Alloc env totalBytesCount alignmentMax (wheap w);
             a = a\<lparr>pBuffer := p\<rparr>;
             a = a\<lparr>pBufferEnd := pBuffer a + totalBytesCount + 1\<rparr>
         in if p = 0 then Inl Null_Access
            else Init_loop sch [0..<unat (bucketsCount a)] (w\<lparr>wheap := h, alloc := a\<rparr>)))"

end
