(* ===== verification/Cache_Lifecycle.thy ===== *)
theory Cache_Lifecycle
  imports Allocator
begin

text \<open>
  Creation and destruction of the thread caches (\<^verbatim>\<open>smmalloc.cpp\<close>) and the C style interface at the end of
  \<^verbatim>\<open>smmalloc.h\<close>. \<open>TlsPoolBucket::Init\<close> is called on the cache bucket that has the number of its pool
  bucket, so one index stands for both.
\<close>

section \<open>Cache buckets\<close>

datatype CacheWarmupOptions = CACHE_COLD | CACHE_WARM | CACHE_HOT

definition kDefaultTlsCacheAlignment :: size_t where
  "kDefaultTlsCacheAlignment = kMinValidAlignment"

text \<open>The first loop of \<open>Init\<close>: at most \<open>k\<close> blocks are taken and chained through \<open>CacheWarmupLink::pNext\<close>.\<close>

fun warmup_fill ::
    "partitioning \<Rightarrow> placement \<Rightarrow> nat \<Rightarrow> size_t \<Rightarrow> size_t \<Rightarrow> nat \<Rightarrow> addr \<Rightarrow> world \<Rightarrow> fault + addr \<times> world" where
  "warmup_fill sch env t bucketIndex elementSize 0 pRoot w = Inr (pRoot, w)"
| "warmup_fill sch env t bucketIndex elementSize (Suc k) pRoot w =
     bindE (Allocate sch env False t elementSize kDefaultTlsCacheAlignment w)
       (\<lambda>(p, w). if p = 0 then Inr (pRoot, w)
          else bindE (GetBucketIndex p (alloc w))
            (\<lambda>i. if i \<noteq> sint (ucast bucketIndex :: u32)
               then bindE (Allocator_Free t p w) (\<lambda>w. Inr (pRoot, w))
               else warmup_fill sch env t bucketIndex elementSize k p
                      (set_wmem (store64 (wmem w) p pRoot) w)))"

text \<open>The second loop walks the chain; not returning is \<open>None\<close>.\<close>

partial_function (option) warmup_move :: "nat \<Rightarrow> size_t \<Rightarrow> addr \<Rightarrow> world \<Rightarrow> world option" where
  "warmup_move t bucketIndex pCurrent w =
     (if pCurrent = 0 then Some w
      else
        (let pNext = load64 (wmem w) pCurrent;
             (r, c, b, m) = ReleaseToCache False pCurrent (GetTlsBucket t bucketIndex w)
                (buckets (alloc w) ! unat bucketIndex) (wmem w)
         in warmup_move t bucketIndex pNext (set_tls t bucketIndex c (set_bucket bucketIndex b (set_wmem m w)))))"

definition TlsPoolBucket_Init ::
    "partitioning \<Rightarrow> placement \<Rightarrow> nat \<Rightarrow> addr \<Rightarrow> u32 \<Rightarrow> CacheWarmupOptions \<Rightarrow> size_t \<Rightarrow> world \<Rightarrow> fault + world" where
  "TlsPoolBucket_Init sch env t pCacheStack maxElementsNum warmupOptions bucketIndex w =
     (case GetBucketByIndex bucketIndex (alloc w) of
        None \<Rightarrow> Inl Null_Access
      | Some poolBucket \<Rightarrow>
          (let self = GetTlsBucket t bucketIndex w;
               self = self\<lparr>pStorageL1 := pCacheStack, numElementsL1 := 0, numElementsL0 := 0,
                  maxElementsCount := maxElementsNum - word_of_nat SMM_MAX_CACHE_ITEMS_COUNT,
                  pBucket := Some bucketIndex, pBucketData := pData poolBucket\<rparr>;
               w = set_tls t bucketIndex self w;
               elementSize = GetBucketSizeInBytesByIndex sch bucketIndex
           in if warmupOptions = CACHE_COLD then Inr w
              else
                (let num = (if warmupOptions = CACHE_WARM then maxElementsCount self div 2 else maxElementsCount self)
                 in bindE (warmup_fill sch env t bucketIndex elementSize (unat num) 0 w)
                      (\<lambda>(pRoot, w). case warmup_move t bucketIndex pRoot w of
                         None \<Rightarrow> Inl No_Return
                       | Some w \<Rightarrow> Inr w))))"

text \<open>\<open>Destroy\<close>: L0 is moved behind L1, everything is returned, the bucket is zero again.\<close>

fun Destroy_loop :: "nat list \<Rightarrow> TlsPoolBucket \<Rightarrow> memory \<Rightarrow> TlsPoolBucket \<times> memory" where
  "Destroy_loop [] self m = (self, m)"
| "Destroy_loop (i # is) self m =
     Destroy_loop is (self\<lparr>numElementsL1 := numElementsL1 self + 1\<rparr>)
       (store32 m (slot self (numElementsL1 self)) (storageL0 self ! i))"

definition TlsPoolBucket_Destroy ::
    "TlsPoolBucket \<Rightarrow> PoolBucket \<Rightarrow> memory \<Rightarrow> addr \<times> TlsPoolBucket \<times> PoolBucket \<times> memory" where
  "TlsPoolBucket_Destroy self bucket m =
     (let (self, m) = Destroy_loop [0..<unat (numElementsL0 self)] self m;
          (self, bucket, m) =
            (if numElementsL1 self > 0 then ReturnL1CacheToMaster (numElementsL1 self) self bucket m
             else (self, bucket, m));
          r = pStorageL1 self
      in (r, self\<lparr>pStorageL1 := 0, numElementsL0 := 0, numElementsL1 := 0, maxElementsCount := 0,
               pBucket := None, pBucketData := 0\<rparr>, bucket, m))"

section \<open>Thread caches\<close>

text \<open>The loop over the options of \<open>CreateThreadCache\<close>; a failed allocation of the stack is not checked.\<close>

fun CreateThreadCache_loop ::
    "partitioning \<Rightarrow> placement \<Rightarrow> nat \<Rightarrow> CacheWarmupOptions \<Rightarrow> size_t \<Rightarrow> u32 list \<Rightarrow> world \<Rightarrow> fault + world" where
  "CreateThreadCache_loop sch env t warmupOptions i [] w = Inr w"
| "CreateThreadCache_loop sch env t warmupOptions i (elementsNum0 # options) w =
     (if i \<ge> bucketsCount (alloc w) then Inr w
      else
        (let elementsNum = elementsNum0 + word_of_nat SMM_MAX_CACHE_ITEMS_COUNT;
             (localStack, h) = GenericAllocator_Alloc env (ucast elementsNum * 4) 64 (wheap w)
         in bindE (TlsPoolBucket_Init sch env t localStack elementsNum warmupOptions i (w\<lparr>wheap := h\<rparr>))
              (CreateThreadCache_loop sch env t warmupOptions (i + 1) options)))"

definition CreateThreadCache ::
    "partitioning \<Rightarrow> placement \<Rightarrow> nat \<Rightarrow> CacheWarmupOptions \<Rightarrow> u32 list \<Rightarrow> world \<Rightarrow> fault + world" where
  "CreateThreadCache sch env t warmupOptions options w =
     CreateThreadCache_loop sch env t warmupOptions 0 options w"

fun DestroyThreadCache_loop :: "nat \<Rightarrow> nat list \<Rightarrow> world \<Rightarrow> fault + world" where
  "DestroyThreadCache_loop t [] w = Inr w"
| "DestroyThreadCache_loop t (i # is) w =
     (let (p, c, b, m) = TlsPoolBucket_Destroy (tls w t ! i) (buckets (alloc w) ! i) (wmem w);
          w = set_tls t (word_of_nat i) c (set_bucket (word_of_nat i) b (set_wmem m w))
      in bindE (GenericAllocator_Free p (wheap w)) (\<lambda>h. DestroyThreadCache_loop t is (w\<lparr>wheap := h\<rparr>)))"

definition DestroyThreadCache :: "nat \<Rightarrow> world \<Rightarrow> fault + world" where
  "DestroyThreadCache t w = DestroyThreadCache_loop t [0..<SMM_MAX_BUCKET_COUNT] w"

section \<open>The C style interface\<close>

type_synonym sm_allocator = addr

text \<open>Size and alignment of the class \<open>Allocator\<close> are given by the compiler: parameters. Constructing
  the object at null is a fault.\<close>

definition sm_allocator_create ::
    "partitioning \<Rightarrow> placement \<Rightarrow> size_t \<Rightarrow> size_t \<Rightarrow> addr list \<Rightarrow> u32 \<Rightarrow> size_t \<Rightarrow> heap \<Rightarrow>
       (nat \<Rightarrow> TlsPoolBucket list) \<Rightarrow> fault + sm_allocator \<times> world" where
  "sm_allocator_create sch env sizeofAllocator alignofAllocator indeterminate bucketsCount0 bucketSizeInBytes0 h c =
     (let inst = GenericAllocator_Create
      in if \<not> GenericAllocator_IsValid inst
         then Inr (0, \<lparr>wheap = h, alloc = Allocator_ctor indeterminate inst, tls = c\<rparr>)
         else
           (let algn = Align alignofAllocator 64;
                (pBuf, h) = GenericAllocator_Alloc env sizeofAllocator algn h
            in if pBuf = 0 then Inl Null_Access
               else bindE (Allocator_Init sch env bucketsCount0 bucketSizeInBytes0
                       \<lparr>wheap = h, alloc = Allocator_ctor indeterminate inst, tls = c\<rparr>)
                     (\<lambda>w. Inr (pBuf, w))))"

text \<open>The destructor releases the buffer through the deleter of \<open>pBuffer\<close>.\<close>

definition sm_allocator_destroy :: "sm_allocator \<Rightarrow> world \<Rightarrow> fault + heap" where
  "sm_allocator_destroy allocator w =
     (if allocator = 0 then Inr (wheap w)
      else
        (let inst = GetGenericAllocatorInstance (alloc w)
         in bindE (if pBuffer (alloc w) = 0 then Inr (wheap w)
                   else GenericAllocator_Free (pBuffer (alloc w)) (wheap w))
              (\<lambda>h. bindE (GenericAllocator_Free allocator h)
                 (\<lambda>h. Inr (GenericAllocator_Destroy inst h)))))"

definition sm_allocator_thread_cache_create ::
    "partitioning \<Rightarrow> placement \<Rightarrow> nat \<Rightarrow> sm_allocator \<Rightarrow> CacheWarmupOptions \<Rightarrow> u32 list \<Rightarrow> world \<Rightarrow> fault + world" where
  "sm_allocator_thread_cache_create sch env t allocator warmupOptions options w =
     (if allocator = 0 then Inr w else CreateThreadCache sch env t warmupOptions options w)"

definition sm_allocator_thread_cache_destroy :: "nat \<Rightarrow> sm_allocator \<Rightarrow> world \<Rightarrow> fault + world" where
  "sm_allocator_thread_cache_destroy t allocator w =
     (if allocator = 0 then Inr w else DestroyThreadCache t w)"

definition sm_malloc ::
    "partitioning \<Rightarrow> placement \<Rightarrow> nat \<Rightarrow> size_t \<Rightarrow> size_t \<Rightarrow> world \<Rightarrow> fault + addr \<times> world" where
  "sm_malloc sch env t bytesCount alignment w = Allocator_Alloc sch env t bytesCount alignment w"

definition sm_free :: "nat \<Rightarrow> addr \<Rightarrow> world \<Rightarrow> fault + world" where
  "sm_free t p w = Allocator_Free t p w"

definition sm_realloc ::
    "partitioning \<Rightarrow> placement \<Rightarrow> nat \<Rightarrow> addr \<Rightarrow> size_t \<Rightarrow> size_t \<Rightarrow> world \<Rightarrow> fault + addr \<times> world" where
  "sm_realloc sch env t p bytesCount alignment w = Allocator_Realloc sch env t p bytesCount alignment w"

definition sm_msize :: "partitioning \<Rightarrow> addr \<Rightarrow> world \<Rightarrow> fault + size_t" where
  "sm_msize sch p w = GetUsableSize sch p w"

definition sm_mbucket :: "addr \<Rightarrow> world \<Rightarrow> fault + int" where
  "sm_mbucket p w = GetBucketIndex p (alloc w)"

end
