(* ===== verification/Allocator_Invariant.thy ===== *)
theory Allocator_Invariant
  imports Cache_Lifecycle
begin

text \<open>
  The invariant of the whole allocator and its preservation by allocation and release. For every
  bucket, each block is in exactly one place: on the free list, in the cache of one thread, or in
  use. \<open>bucket_ok\<close> states this for one bucket with the caches of all threads; \<open>dead\<close> are the blocks
  that are not in use.
\<close>

section \<open>One bucket with the caches of all threads\<close>

definition bucket_ok ::
    "nat \<Rightarrow> nat \<Rightarrow> memory \<Rightarrow> PoolBucket \<Rightarrow> (nat \<Rightarrow> TlsPoolBucket) \<Rightarrow> u32 list \<Rightarrow> u32 set \<Rightarrow> bool" where
  "bucket_ok e n m b c free dead \<longleftrightarrow>
     geometry e n \<and> chain m (pData b) (head b) free \<and> distinct free \<and>
     (\<forall>t. cache_wf e n (pData b) (c t) \<and> distinct (cached m (c t))) \<and>
     shares (\<lambda>t. set (cached m (c t))) (set free) dead \<and> dead \<subseteq> set (block_offsets e n)"

lemma bucket_okD:
  assumes "bucket_ok e n m b c free dead"
  shows "geometry e n" "chain m (pData b) (head b) free" "distinct free"
    "shares (\<lambda>t. set (cached m (c t))) (set free) dead"
    "dead \<subseteq> set (block_offsets e n)" "set free \<subseteq> dead"
  using assms by (auto simp: bucket_ok_def shares_def)

lemma bucket_ok_cacheD:
  assumes "bucket_ok e n m b c free dead"
  shows "cache_wf e n (pData b) (c t)" "distinct (cached m (c t))"
    "set (cached m (c t)) \<subseteq> dead" "set free \<inter> set (cached m (c t)) = {}"
proof -
  show "cache_wf e n (pData b) (c t)" "distinct (cached m (c t))" using assms by (auto simp: bucket_ok_def)
  show "set (cached m (c t)) \<subseteq> dead" "set free \<inter> set (cached m (c t)) = {}"
    using bucket_okD(4) [OF assms] by (auto simp: shares_def)
qed

lemma bucket_ok_cache: "bucket_ok e n m b c free dead \<Longrightarrow> pool_cache_ok e n free (c t) b m"
  using bucket_okD [of e n m b c free dead] bucket_ok_cacheD [of e n m b c free dead t]
  unfolding pool_cache_ok_def by auto

lemma shares_remove_pool: "shares H (insert x F) B \<Longrightarrow> x \<notin> F \<Longrightarrow> shares H F (B - {x})"
  unfolding shares_def by blast

lemma shares_remove_holder:
  assumes "shares H F B" "x \<in> H t"
  shows "shares (H(t := H t - {x})) F (B - {x})"
proof -
  have "x \<notin> H u" if "u \<noteq> t" for u using assms that by (auto simp: shares_def)
  then have "H(t := H t - {x}) = (\<lambda>u. H u - {x})" by (auto simp: fun_eq_iff)
  moreover have "x \<notin> F" using assms by (auto simp: shares_def)
  ultimately show ?thesis using assms unfolding shares_def by auto
qed

text \<open>A pop from the free list.\<close>

lemma bucket_ok_pop:
  assumes ok: "bucket_ok e n m b c free dead"
  shows "free = [] \<and> PoolBucket_Alloc m b = (0, b) \<or>
    (\<exists>x xs. free = x # xs \<and> x \<in> dead \<and>
       PoolBucket_Alloc m b = (pData b + ucast x, b\<lparr>head := load64 m (pData b + ucast x)\<rparr>) \<and>
       bucket_ok e n m (b\<lparr>head := load64 m (pData b + ucast x)\<rparr>) c xs (dead - {x}))"
proof (cases free)
  case Nil
  then show ?thesis using bucket_okD(2) [OF ok] PoolBucket_Alloc_chain by fastforce
next
  case (Cons x xs)
  note B = bucket_okD [OF ok]
  have "shares (\<lambda>t. set (cached m (c t))) (set xs) (dead - {x})"
    using B(3,4) Cons by (intro shares_remove_pool) auto
  then have "bucket_ok e n m (b\<lparr>head := load64 m (pData b + ucast x)\<rparr>) c xs (dead - {x})"
    using ok Cons unfolding bucket_ok_def by auto
  then show ?thesis using B(2,6) Cons PoolBucket_Alloc_chain [of m b free] by auto
qed

text \<open>A pop from the cache of one thread.\<close>

lemma bucket_ok_cache_pop:
  assumes ok: "bucket_ok e n m b c free dead"
  shows "cached m (c t) = [] \<and> AllocFromCache (c t) m = (0, c t) \<or>
    (\<exists>x c'. x \<in> dead \<and> AllocFromCache (c t) m = (pData b + ucast x, c') \<and>
       storage_span c' = storage_span (c t) \<and> pBucket c' = pBucket (c t) \<and>
       maxElementsCount c' = maxElementsCount (c t) \<and> pStorageL1 c' = pStorageL1 (c t) \<and>
       bucket_ok e n m b (c(t := c')) free (dead - {x}))"
proof (cases "cached m (c t) = []")
  case True
  then show ?thesis using AllocFromCache_empty [OF bucket_ok_cacheD(1) [OF ok]] by blast
next
  case False
  note B = bucket_ok_cacheD [OF ok, of t] and S = bucket_okD(4) [OF ok]
  obtain c' where c': "AllocFromCache (c t) m = (pData b + ucast (last (cached m (c t))), c')"
    "cached m c' = butlast (cached m (c t))" "cache_wf e n (pData b) c'"
    "storage_span c' = storage_span (c t)" "pBucket c' = pBucket (c t)"
    by (rule AllocFromCache_pop [OF B(1) False])
  have f: "maxElementsCount c' = maxElementsCount (c t)" "pStorageL1 c' = pStorageL1 (c t)"
    using c'(1) by (auto simp: AllocFromCache_def Let_def split: if_splits)
  let ?x = "last (cached m (c t))"
  have x: "?x \<in> set (cached m (c t))" using False by simp
  obtain ys y where "cached m (c t) = ys @ [y]" using False by (metis rev_exhaust)
  then have set': "set (cached m c') = set (cached m (c t)) - {?x}" "distinct (cached m c')"
    using B(2) c'(2) by auto
  have "(\<lambda>u. set (cached m ((c(t := c')) u))) = (\<lambda>u. set (cached m (c u)))(t := set (cached m (c t)) - {?x})"
    by (rule ext) (simp add: set'(1))
  then have "shares (\<lambda>u. set (cached m ((c(t := c')) u))) (set free) (dead - {?x})"
    using shares_remove_holder [OF S, of ?x t] x by simp
  then have "bucket_ok e n m b (c(t := c')) free (dead - {?x})"
    using ok c'(3) set'(2) unfolding bucket_ok_def by auto
  then show ?thesis using c' f B(3) x by blast
qed


text \<open>The bytes of all blocks of a bucket, and the storage of a cache bucket that is in use.\<close>

definition blocks_span :: "nat \<Rightarrow> nat \<Rightarrow> addr \<Rightarrow> addr set" where
  "blocks_span e n base = (\<Union>x \<in> set (block_offsets e n). span (base + ucast x) e)"

definition store_span :: "TlsPoolBucket \<Rightarrow> addr set" where
  "store_span c = (if maxElementsCount c = 0 then {} else storage_span c)"

lemma cache_wf_store: "cache_wf e n base c \<Longrightarrow> store_span c \<inter> blocks_span e n base = {}"
  by (auto simp: cache_wf_def store_span_def blocks_span_def)

lemma links_blocks_span:
  "geometry e n \<Longrightarrow> set xs \<subseteq> set (block_offsets e n) \<Longrightarrow> links base xs \<subseteq> blocks_span e n base"
  unfolding blocks_span_def by (rule links_in_blocks)

lemma cached_frame':
  "cache_wf e n base c \<Longrightarrow> same_outside A m m' \<Longrightarrow> store_span c \<inter> A = {} \<Longrightarrow> cached m' c = cached m c"
  by (rule cached_frame) (auto simp: store_span_def)

text \<open>Changes of memory outside the blocks and the caches of a bucket.\<close>

lemma bucket_ok_frame:
  assumes ok: "bucket_ok e n m b c free dead" and so: "same_outside A m m'"
    and A: "blocks_span e n (pData b) \<inter> A = {}" "\<And>t. store_span (c t) \<inter> A = {}"
  shows "bucket_ok e n m' b c free dead"
proof -
  note B = bucket_okD [OF ok]
  have c: "cached m' (c t) = cached m (c t)" for t
    by (rule cached_frame' [OF bucket_ok_cacheD(1) [OF ok] so A(2)])
  have "set free \<subseteq> set (block_offsets e n)" using B(5,6) by blast
  then have "links (pData b) free \<inter> A = {}" using links_blocks_span [OF B(1)] A(1) by blast
  then have "chain m' (pData b) (head b) free" using chain_frame [OF so] B(2) by simp
  then show ?thesis using ok unfolding bucket_ok_def c by simp
qed

lemma shares_add:
  assumes "shares H F B" "x \<notin> B" "F' \<union> H' = insert x (F \<union> H t)" "F' \<inter> H' = {}"
  shows "shares (H(t := H')) F' (insert x B)"
proof -
  have sh: "H u \<inter> H v = {}" if "u \<noteq> v" for u v using assms(1) that by (simp add: shares_def)
  have fr: "H u \<inter> F = {}" and hb: "H u \<subseteq> B" for u using assms(1) by (auto simp: shares_def)
  have out: "H u \<inter> insert x (F \<union> H t) = {}" if "u \<noteq> t" for u using sh [OF that] fr [of u] hb [of u] assms(2) by blast
  have H'u: "H' \<inter> H u = {}" "F' \<inter> H u = {}" if "u \<noteq> t" for u using out [OF that] assms(3) by blast+
  have all: "F \<union> H t \<union> (\<Union>u \<in> - {t}. H u) = B"
  proof -
    have "(\<Union>u. H u) = H t \<union> (\<Union>u \<in> - {t}. H u)" by auto
    then show ?thesis using assms(1) by (simp add: shares_def Un_assoc)
  qed
  have "(\<Union>u. (H(t := H')) u) = H' \<union> (\<Union>u \<in> - {t}. H u)" by (auto split: if_splits)
  then have "F' \<union> (\<Union>u. (H(t := H')) u) = insert x (F \<union> H t) \<union> (\<Union>u \<in> - {t}. H u)"
    using assms(3) by (simp only: Un_assoc [symmetric])
  then have "F' \<union> (\<Union>u. (H(t := H')) u) = insert x B" using all by auto
  moreover have "(H(t := H')) u \<inter> (H(t := H')) v = {}" if "u \<noteq> v" for u v
    using sh [OF that] H'u(1) that by (cases "u = t"; cases "v = t") (auto simp: Int_commute)
  moreover have "(H(t := H')) u \<inter> F' = {}" for u
    using assms(4) H'u(2) [of u] by (cases "u = t") (auto simp: Int_commute)
  ultimately show ?thesis by (simp add: shares_def)
qed

text \<open>A block in use comes back to its bucket.\<close>

lemma bucket_ok_free_interval:
  assumes ok: "bucket_ok e n m b c free dead" and x: "x \<in> set (block_offsets e n)" "x \<notin> dead"
    and f: "PoolBucket_FreeInterval (pData b + ucast x) (pData b + ucast x) m b = (m', b')"
  shows "bucket_ok e n m' b' c (x # free) (insert x dead)" "pData b' = pData b"
    "pDataEnd b' = pDataEnd b" "bucketStats b' = bucketStats b" "same_outside (links (pData b) [x]) m m'"
proof -
  note B = bucket_okD [OF ok]
  have "distinct ([x] @ free)" "set ([x] @ free) \<subseteq> set (block_offsets e n)" using B(3,5,6) x by auto
  note F = FreeInterval_chain [OF B(1) _ this _ B(2), of m' b', simplified, OF f]
  show so: "same_outside (links (pData b) [x]) m m'" using F(6) by simp
  show "pData b' = pData b" "pDataEnd b' = pDataEnd b" "bucketStats b' = bucketStats b" using F by simp_all
  have l: "links (pData b) [x] \<subseteq> blocks_span e n (pData b)" using x(1) by (intro links_blocks_span [OF B(1)]) simp
  have c: "cached m' (c t) = cached m (c t)" for t
    using cache_wf_store [OF bucket_ok_cacheD(1) [OF ok, of t]] l
    by (intro cached_frame' [OF bucket_ok_cacheD(1) [OF ok] so]) blast
  have "shares ((\<lambda>t. set (cached m (c t)))(0 := set (cached m (c 0)))) (insert x (set free)) (insert x dead)"
    using B(4) x(2) bucket_ok_cacheD(3,4) [OF ok, of 0] by (intro shares_add) auto
  then have "shares (\<lambda>t. set (cached m' (c t))) (set (x # free)) (insert x dead)" unfolding c by (simp add: fun_upd_idem)
  then show "bucket_ok e n m' b' c (x # free) (insert x dead)"
    using ok F x B(5,6) unfolding bucket_ok_def c by auto
qed

lemma bucket_ok_release:
  assumes ok: "bucket_ok e n m b c free dead" and x: "x \<in> set (block_offsets e n)" "x \<notin> dead"
    and nz: "maxElementsCount (c t) \<noteq> 0"
    and sep: "\<And>u. u \<noteq> t \<Longrightarrow> store_span (c u) \<inter> store_span (c t) = {}"
  obtains c' b' m' free' where
    "ReleaseToCache useL (pData b + ucast x) (c t) b m = (True, c', b', m')"
    "bucket_ok e n m' b' (c(t := c')) free' (insert x dead)" "pData b' = pData b"
    "pDataEnd b' = pDataEnd b" "bucketStats b' = bucketStats b"
    "storage_span c' = storage_span (c t)" "maxElementsCount c' = maxElementsCount (c t)" "pBucket c' = pBucket (c t)"
    "same_outside (store_span (c t) \<union> links (pData b) (cached m (c t))) m m'"
proof -
  note B = bucket_okD [OF ok] and C = bucket_ok_cacheD [OF ok, of t]
  have "x \<notin> set (free @ cached m (c t))" using B(6) C(3) x(2) by auto
  from ReleaseToCache_effect [OF bucket_ok_cache [OF ok] nz x(1) this, of useL]
  obtain c' b' m' free' where R: "ReleaseToCache useL (pData b + ucast x) (c t) b m = (True, c', b', m')"
    "pool_cache_ok e n free' c' b' m'" "mset (free' @ cached m' c') = add_mset x (mset (free @ cached m (c t)))"
    "pData b' = pData b" "pDataEnd b' = pDataEnd b" "bucketStats b' = bucketStats b"
    "storage_span c' = storage_span (c t)" "maxElementsCount c' = maxElementsCount (c t)" "pBucket c' = pBucket (c t)"
    "same_outside (storage_span (c t) \<union> links (pData b) (cached m (c t))) m m'" by metis
  have so: "same_outside (store_span (c t) \<union> links (pData b) (cached m (c t))) m m'"
    using R(10) nz by (simp add: store_span_def)
  have "links (pData b) (cached m (c t)) \<subseteq> blocks_span e n (pData b)"
    using C(3) B(5) by (intro links_blocks_span [OF B(1)]) blast
  then have cu: "cached m' (c u) = cached m (c u)" if "u \<noteq> t" for u
    using sep [OF that] cache_wf_store [OF bucket_ok_cacheD(1) [OF ok, of u]]
    by (intro cached_frame' [OF bucket_ok_cacheD(1) [OF ok] so]) blast
  have P: "cache_wf e n (pData b') c'" "chain m' (pData b') (head b') free'" "distinct (free' @ cached m' c')"
    using R(2) by (auto simp: pool_cache_ok_def)
  have "set (free' @ cached m' c') = insert x (set (free @ cached m (c t)))"
    using mset_eq_setD [of "free' @ cached m' c'" "x # free @ cached m (c t)"] R(3) by simp
  then have "shares ((\<lambda>u. set (cached m (c u)))(t := set (cached m' c'))) (set free') (insert x dead)"
    using x(2) P(3) by (intro shares_add [OF B(4)]) auto
  moreover have "(\<lambda>u. set (cached m' ((c(t := c')) u))) = (\<lambda>u. set (cached m (c u)))(t := set (cached m' c'))"
    using cu by (auto simp: fun_eq_iff)
  ultimately have "bucket_ok e n m' b' (c(t := c')) free' (insert x dead)"
    using P R(4) B(1,5) x(1) bucket_ok_cacheD(1,2) [OF ok] cu unfolding bucket_ok_def by auto
  then show thesis using that R so by blast
qed

end
