(* ===== verification/World_Invariant.thy ===== *)
theory World_Invariant
  imports Allocator_Invariant
begin

text \<open>
  The invariant of the state of the whole program and what \<open>Alloc\<close>, \<open>Free\<close> and \<open>Realloc\<close> do on states that
  satisfy it. The parameters of \<open>world_inv\<close> are ghosts: \<open>D i\<close> the blocks of bucket \<open>i\<close> that are not in
  use, \<open>F i\<close> its free list, \<open>B\<close> the raw block of the buffer and \<open>R t i\<close> the raw block of the L1 stack of
  thread \<open>t\<close> for bucket \<open>i\<close>.
\<close>

section \<open>The invariant\<close>

abbreviation nb :: "world \<Rightarrow> nat" where
  "nb w \<equiv> unat (bucketsCount (alloc w))"

abbreviation bsz :: "world \<Rightarrow> nat" where
  "bsz w \<equiv> unat (bucketSizeInBytes (alloc w))"

definition esz :: "partitioning \<Rightarrow> nat \<Rightarrow> nat" where
  "esz sch i = unat (GetBucketSizeInBytesByIndex sch (word_of_nat i))"

definition base_of :: "world \<Rightarrow> nat \<Rightarrow> addr" where
  "base_of w i = pBuffer (alloc w) + word_of_nat (i * bsz w)"

definition caches :: "world \<Rightarrow> nat \<Rightarrow> nat \<Rightarrow> TlsPoolBucket" where
  "caches w i = (\<lambda>t. tls w t ! i)"

abbreviation in_use :: "TlsPoolBucket \<Rightarrow> bool" where
  "in_use c \<equiv> maxElementsCount c \<noteq> 0"

definition layout_ok :: "world \<Rightarrow> (nat \<Rightarrow> nat \<Rightarrow> addr \<times> size_t) \<Rightarrow> addr \<times> size_t \<Rightarrow> bool" where
  "layout_ok w R B \<longleftrightarrow>
     heap_wf (wheap w) \<and> 0 < nb w \<and> nb w \<le> 62 \<and> length (buckets (alloc w)) = 62 \<and>
     bucketsDataBegin (alloc w) ! 0 = pBuffer (alloc w) \<and>
     4096 dvd bsz w \<and> 0 < bsz w \<and> bsz w \<le> 2 ^ 32 \<and> 4096 dvd unat (pBuffer (alloc w)) \<and>
     generic_block (wheap w) (pBuffer (alloc w)) (word_of_nat (nb w * bsz w)) B \<and>
     (\<forall>t. length (tls w t) = 62) \<and>
     (\<forall>t i. i < 62 \<longrightarrow> in_use (caches w i t) \<longrightarrow> i < nb w \<and> R t i \<noteq> B \<and>
        generic_block (wheap w) (pStorageL1 (caches w i t))
          (word_of_nat (4 * (unat (maxElementsCount (caches w i t)) + 7))) (R t i)) \<and>
     (\<forall>t i u j. (t, i) \<noteq> (u, j) \<longrightarrow> i < 62 \<longrightarrow> j < 62 \<longrightarrow> in_use (caches w i t) \<longrightarrow> in_use (caches w j u) \<longrightarrow>
        R t i \<noteq> R u j)"

definition world_inv ::
    "partitioning \<Rightarrow> world \<Rightarrow> (nat \<Rightarrow> u32 set) \<Rightarrow> (nat \<Rightarrow> u32 list) \<Rightarrow> (nat \<Rightarrow> nat \<Rightarrow> addr \<times> size_t) \<Rightarrow>
       addr \<times> size_t \<Rightarrow> bool" where
  "world_inv sch w D F R B \<longleftrightarrow> layout_ok w R B \<and>
     (\<forall>i < nb w. esz sch i \<le> bsz w \<and> pData (buckets (alloc w) ! i) = base_of w i \<and>
        bucket_ok (esz sch i) (bsz w div esz sch i) (wmem w) (buckets (alloc w) ! i) (caches w i) (F i) (D i))"

section \<open>Where things lie\<close>

lemma layoutD:
  assumes "layout_ok w R B"
  shows "heap_wf (wheap w)" "0 < nb w" "nb w \<le> 62" "length (buckets (alloc w)) = 62"
    "bucketsDataBegin (alloc w) ! 0 = pBuffer (alloc w)"
    "4096 dvd bsz w" "0 < bsz w" "bsz w \<le> 2 ^ 32" "4096 dvd unat (pBuffer (alloc w))"
    "generic_block (wheap w) (pBuffer (alloc w)) (word_of_nat (nb w * bsz w)) B" "length (tls w t) = 62"
  using assms by (simp_all add: layout_ok_def)

lemma layout_store:
  assumes "layout_ok w R B" "i < 62" "in_use (caches w i t)"
  shows "i < nb w" "R t i \<noteq> B"
    "generic_block (wheap w) (pStorageL1 (caches w i t))
       (word_of_nat (4 * (unat (maxElementsCount (caches w i t)) + 7))) (R t i)"
  using assms by (auto simp: layout_ok_def)

lemma layout_distinct:
  assumes "layout_ok w R B" "(t, i) \<noteq> (u, j)" "i < 62" "j < 62" "in_use (caches w i t)" "in_use (caches w j u)"
  shows "R t i \<noteq> R u j"
  using assms unfolding layout_ok_def by blast

lemma unat_total:
  assumes "n \<le> 62" "S \<le> 2 ^ 32"
  shows "unat (word_of_nat (n * S) :: u64) = n * S"
proof -
  have "n * S \<le> 62 * 2 ^ 32" using assms by (intro mult_le_mono)
  then show ?thesis by (intro unat_of_nat_small) simp
qed

lemma buffer_end: "layout_ok w R B \<Longrightarrow> unat (pBuffer (alloc w)) + nb w * bsz w < 2 ^ 64"
  using layoutD(1,3,8,10) [of w R B] heap_wf_raw_ok [of "wheap w" B] unat_total [of "nb w" "bsz w"]
  by (auto simp: generic_block_def raw_ok_def)

lemma unat_base_of:
  assumes "layout_ok w R B" "i < nb w"
  shows "unat (base_of w i) = unat (pBuffer (alloc w)) + i * bsz w"
    and "unat (base_of w i) + bsz w \<le> unat (pBuffer (alloc w)) + nb w * bsz w"
proof -
  have "i * bsz w + bsz w \<le> nb w * bsz w" using mult_le_mono1 [of "i + 1" "nb w" "bsz w"] assms(2) by simp
  moreover have "unat (word_of_nat (i * bsz w) :: u64) = i * bsz w"
    using layoutD(3,8) [OF assms(1)] assms(2) by (intro unat_total) auto
  ultimately show "unat (base_of w i) = unat (pBuffer (alloc w)) + i * bsz w"
    "unat (base_of w i) + bsz w \<le> unat (pBuffer (alloc w)) + nb w * bsz w"
    using buffer_end [OF assms(1)] by (simp_all add: base_of_def unat_add_small del: of_nat_mult)
qed

definition region :: "world \<Rightarrow> nat \<Rightarrow> addr set" where
  "region w i = span (base_of w i) (bsz w)"

definition buffer_span :: "world \<Rightarrow> addr set" where
  "buffer_span w = span (pBuffer (alloc w)) (nb w * bsz w)"

lemma region_buffer: "layout_ok w R B \<Longrightarrow> i < nb w \<Longrightarrow> region w i \<subseteq> buffer_span w"
  unfolding region_def buffer_span_def
  using unat_base_of [of w R B i] buffer_end [of w R B] by (intro sub_span) auto

lemma regions_disjoint:
  assumes "layout_ok w R B" "i < nb w" "j < nb w" "i \<noteq> j"
  shows "region w i \<inter> region w j = {}"
proof -
  have "region w i \<inter> region w j = {}" if "i < j" "j < nb w" for i j
  proof -
    have "i * bsz w + bsz w \<le> j * bsz w" using mult_le_mono1 [of "i + 1" j "bsz w"] that by simp
    then show ?thesis
      using unat_base_of [OF assms(1), of i] unat_base_of [OF assms(1), of j] that buffer_end [OF assms(1)]
      unfolding region_def by (intro span_disjoint_nat) auto
  qed
  then show ?thesis using assms(2-4) by (metis Int_commute linorder_neqE_nat)
qed

lemma blocks_in_region:
  assumes "geometry e n" "n * e \<le> bsz w"
  shows "blocks_span e n (base_of w i) \<subseteq> region w i"
  using block_in_buffer [OF assms, of _ e "base_of w i"] by (auto simp: blocks_span_def region_def)

lemma store_in_raw:
  assumes "layout_ok w R B" "i < 62" "in_use (caches w i t)"
  shows "store_span (caches w i t) \<subseteq> span (pStorageL1 (caches w i t)) (unat (word_of_nat (4 * (unat (maxElementsCount (caches w i t)) + 7)) :: u64))"
    "store_span (caches w i t) \<subseteq> raw_span (R t i)"
proof -
  have "unat (word_of_nat (4 * (unat (maxElementsCount (caches w i t)) + 7)) :: u64) =
      4 * (unat (maxElementsCount (caches w i t)) + 7)"
    using unat_u32_less [of "maxElementsCount (caches w i t)"] by (intro unat_of_nat_small) simp
  then show s: "store_span (caches w i t) \<subseteq> span (pStorageL1 (caches w i t)) (unat (word_of_nat (4 * (unat (maxElementsCount (caches w i t)) + 7)) :: u64))"
    by (simp add: store_span_def storage_span_def SMM_MAX_CACHE_ITEMS_COUNT_def del: of_nat_mult of_nat_add)
  have g: "generic_block (wheap w) (pStorageL1 (caches w i t))
       (word_of_nat (4 * (unat (maxElementsCount (caches w i t)) + 7))) (R t i)" by (rule layout_store [OF assms])
  then have "raw_ok (R t i)" using layoutD(1) [OF assms(1)] by (auto simp: generic_block_def intro: heap_wf_raw_ok)
  then show "store_span (caches w i t) \<subseteq> raw_span (R t i)" using generic_spans(1) [OF g] s by blast
qed

lemma buffer_in_raw:
  assumes "layout_ok w R B"
  shows "buffer_span w \<subseteq> raw_span B"
proof -
  note L = layoutD [OF assms]
  have "raw_ok B" using L(1,10) by (auto simp: generic_block_def intro: heap_wf_raw_ok)
  then show ?thesis using generic_spans(1) [OF L(10)] unat_total [OF L(3,8)] by (simp add: buffer_span_def del: of_nat_mult)
qed


section \<open>Updates of one bucket\<close>

lemma world_invD:
  assumes "world_inv sch w D F R B"
  shows "layout_ok w R B"
    "i < nb w \<Longrightarrow> esz sch i \<le> bsz w" "i < nb w \<Longrightarrow> pData (buckets (alloc w) ! i) = base_of w i"
    "i < nb w \<Longrightarrow> bucket_ok (esz sch i) (bsz w div esz sch i) (wmem w) (buckets (alloc w) ! i) (caches w i) (F i) (D i)"
  using assms by (auto simp: world_inv_def)

lemma bucket_blocks_in_region:
  assumes "world_inv sch w D F R B" "i < nb w"
  shows "blocks_span (esz sch i) (bsz w div esz sch i) (base_of w i) \<subseteq> region w i"
  using bucket_okD(1) [OF world_invD(4) [OF assms]] by (rule blocks_in_region) (rule div_times_less_eq_dividend)

text \<open>The bytes that an operation of thread \<open>t\<close> on bucket \<open>i\<close> may write: its L1 stack and the bucket.\<close>

definition touched :: "world \<Rightarrow> nat \<Rightarrow> nat \<Rightarrow> addr set" where
  "touched w t i = store_span (caches w i t) \<union> region w i"

lemma raws_disjoint:
  assumes "heap_wf h" "generic_block h p n b" "generic_block h q k c" "b \<noteq> c"
  shows "raw_span b \<inter> raw_span c = {}"
  using assms(3) by (intro generic_block_apart [OF assms(1,2) _ assms(4)]) (simp add: generic_block_def)

lemma touched_raw:
  assumes "layout_ok w R B" "i < nb w" "x \<in> touched w t i"
  shows "x \<in> raw_span B \<and> x \<in> buffer_span w \<or>
    in_use (caches w i t) \<and> x \<in> raw_span (R t i) \<and> x \<in> store_span (caches w i t)"
proof -
  have "i < 62" using assms(2) layoutD(3) [OF assms(1)] by simp
  then show ?thesis
    using assms(3) region_buffer [OF assms(1,2)] buffer_in_raw [OF assms(1)] store_in_raw(2) [OF assms(1), of i t]
    by (auto simp: touched_def store_span_def split: if_splits)
qed

text \<open>Headers and user bytes of generic blocks other than the buffer and the stack are out of reach.\<close>

lemma touched_other:
  assumes L: "layout_ok w R B" and i: "i < nb w" and g: "generic_block (wheap w) q k b" "b \<noteq> B"
    and b: "in_use (caches w i t) \<Longrightarrow> b \<noteq> R t i"
  shows "raw_span b \<inter> touched w t i = {}"
proof -
  note l = layoutD [OF L]
  have i62: "i < 62" using i l(3) by simp
  have "raw_span b \<inter> raw_span B = {}" by (rule raws_disjoint [OF l(1) g(1) l(10) g(2)])
  moreover have "raw_span b \<inter> raw_span (R t i) = {}" if "in_use (caches w i t)"
    by (rule raws_disjoint [OF l(1) g(1) layout_store(3) [OF L i62 that] b [OF that]])
  ultimately show ?thesis using touched_raw [OF L i] by blast
qed

lemma touched_header:
  assumes L: "layout_ok w R B" and i: "i < nb w"
    and g: "generic_block (wheap w) q k b"
    and q: "b = B \<and> q = pBuffer (alloc w) \<or> (\<exists>u j. j < 62 \<and> in_use (caches w j u) \<and> b = R u j \<and> q = pStorageL1 (caches w j u))"
  shows "(span (q - 16) 8 \<union> span (q - 8) 8) \<inter> touched w t i = {}"
proof -
  note l = layoutD [OF L]
  have i62: "i < 62" using i l(3) by simp
  have H: "span (q - 16) 8 \<subseteq> raw_span b" "span (q - 8) 8 \<subseteq> raw_span b"
    using generic_spans(2,3) [OF g] heap_wf_raw_ok [OF l(1)] g by (auto simp: generic_block_def)
  have rok: "raw_ok B" using l(1,10) by (auto simp: generic_block_def intro: heap_wf_raw_ok)
  show ?thesis
  proof (cases "b = B")
    case True
    then have qB: "q = pBuffer (alloc w)" using q layout_store(2) [OF L] by blast
    have "(span (q - 16) 8 \<union> span (q - 8) 8) \<inter> buffer_span w = {}"
      using generic_spans(4,5) [OF l(10) rok] unat_total [OF l(3,8)]
      unfolding qB buffer_span_def by (auto simp del: of_nat_mult)
    moreover have "raw_span B \<inter> raw_span (R t i) = {}" if "in_use (caches w i t)"
      using raws_disjoint [OF l(1,10) layout_store(3) [OF L i62 that]] layout_store(2) [OF L i62 that] by metis
    ultimately show ?thesis using touched_raw [OF L i] H True by blast
  next
    case False
    then obtain u j where u: "j < 62" "in_use (caches w j u)" "b = R u j" "q = pStorageL1 (caches w j u)" using q by blast
    show ?thesis
    proof (cases "(u, j) = (t, i)")
      case False
      then have "in_use (caches w i t) \<Longrightarrow> b \<noteq> R t i"
        using layout_distinct [OF L False u(1) i62 u(2)] u(3) by simp
      then show ?thesis using touched_other [OF L i g \<open>b \<noteq> B\<close>] H by blast
    next
      case True
      note G = layout_store(3) [OF L u(1,2)]
      have "raw_ok (R u j)" using l(1) G by (auto simp: generic_block_def intro: heap_wf_raw_ok)
      then have "(span (q - 16) 8 \<union> span (q - 8) 8) \<inter> store_span (caches w i t) = {}"
        using generic_spans(4,5) [OF G] store_in_raw(1) [OF L u(1,2)] True unfolding u(4) by blast
      moreover have "raw_span b \<inter> raw_span B = {}" by (rule raws_disjoint [OF l(1) g l(10) \<open>b \<noteq> B\<close>])
      ultimately show ?thesis using touched_raw [OF L i] H by blast
    qed
  qed
qed


text \<open>A state that differs from \<open>w\<close> in memory, in bucket \<open>i\<close>, in the cache of thread \<open>t\<close> for it, and in
  statistics.\<close>

definition one_bucket_step :: "world \<Rightarrow> nat \<Rightarrow> nat \<Rightarrow> PoolBucket \<Rightarrow> TlsPoolBucket \<Rightarrow> memory \<Rightarrow> world \<Rightarrow> bool" where
  "one_bucket_step w t i b c m w' \<longleftrightarrow>
     wheap w' = (wheap w)\<lparr>hmem := m\<rparr> \<and>
     (\<exists>g. alloc w' = (alloc w)\<lparr>buckets := (buckets (alloc w))[i := b], globalStats := g\<rparr>) \<and>
     tls w' = (tls w)(t := (tls w t)[i := c])"

lemma one_bucket_stepD:
  assumes "one_bucket_step w t i b c m w'"
  shows "wmem w' = m" "live (wheap w') = live (wheap w)" "nb w' = nb w" "bsz w' = bsz w"
    "pBuffer (alloc w') = pBuffer (alloc w)" "bucketsDataBegin (alloc w') = bucketsDataBegin (alloc w)"
    "buckets (alloc w') = (buckets (alloc w))[i := b]" "heap_wf (wheap w') = heap_wf (wheap w)"
    "base_of w' j = base_of w j" "length (tls w' u) = length (tls w u)"
  using assms by (auto simp: one_bucket_step_def heap_wf_def base_of_def)

lemma one_bucket_caches:
  assumes "one_bucket_step w t i b c m w'" "length (tls w t) = 62" "i < 62"
  shows "caches w' j = (if j = i then (caches w i)(t := c) else caches w j)"
  using assms by (auto simp: one_bucket_step_def caches_def fun_eq_iff)

lemma layout_update:
  assumes L: "layout_ok w R B" and i: "i < nb w" and st: "one_bucket_step w t i b c m w'"
    and so: "same_outside (touched w t i) (wmem w) m"
    and c: "maxElementsCount c = maxElementsCount (caches w i t)" "pStorageL1 c = pStorageL1 (caches w i t)"
  shows "layout_ok w' R B"
proof -
  note l = layoutD [OF L] and S = one_bucket_stepD [OF st]
  have i62: "i < 62" using i l(3) by simp
  note C = one_bucket_caches [OF st l(11) i62]
  have f: "maxElementsCount (caches w' j u) = maxElementsCount (caches w j u)"
    "pStorageL1 (caches w' j u) = pStorageL1 (caches w j u)" for j u using c by (simp_all add: C)
  have so': "same_outside (touched w t i) (hmem (wheap w)) (hmem (wheap w'))" using so S(1) by simp
  have gb: "generic_block (wheap w') q k d"
    if "generic_block (wheap w) q k d" "(span (q - 16) 8 \<union> span (q - 8) 8) \<inter> touched w t i = {}" for q k d
    using that S(2) heap_wf_raw_ok [OF l(1), of d]
    by (intro generic_block_frame [OF that(1) _ so' that(2)]) (auto simp: generic_block_def)
  have "generic_block (wheap w') (pBuffer (alloc w')) (word_of_nat (nb w' * bsz w')) B"
    using gb [OF l(10) touched_header [OF L i l(10)]] S by (simp del: of_nat_mult)
  moreover have "generic_block (wheap w') (pStorageL1 (caches w' j u))
      (word_of_nat (4 * (unat (maxElementsCount (caches w' j u)) + 7))) (R u j)"
    if "j < 62" "in_use (caches w' j u)" for u j
  proof -
    have u: "in_use (caches w j u)" using that(2) f by simp
    note g = layout_store(3) [OF L that(1) u]
    have "(span (pStorageL1 (caches w j u) - 16) 8 \<union> span (pStorageL1 (caches w j u) - 8) 8) \<inter> touched w t i = {}"
      by (rule touched_header [OF L i g]) (use that(1) u in blast)
    from gb [OF g this] show ?thesis by (simp only: f)
  qed
  moreover have "R u j \<noteq> R v k" if "(u, j) \<noteq> (v, k)" "j < 62" "k < 62" "in_use (caches w' j u)" "in_use (caches w' k v)" for u j v k
    using layout_distinct [OF L that(1-3)] that(4,5) f by simp
  moreover have "j < nb w \<and> R u j \<noteq> B" if "j < 62" "in_use (caches w' j u)" for u j
    using layout_store(1,2) [OF L that(1)] that(2) f by simp
  ultimately show ?thesis
    unfolding layout_ok_def using S l(1-9,11) by (auto simp del: of_nat_mult of_nat_add)
qed

lemma world_inv_update:
  assumes inv: "world_inv sch w D F R B" and i: "i < nb w" and st: "one_bucket_step w t i b c m w'"
    and so: "same_outside (touched w t i) (wmem w) m"
    and c: "maxElementsCount c = maxElementsCount (caches w i t)" "pStorageL1 c = pStorageL1 (caches w i t)"
    and b: "pData b = pData (buckets (alloc w) ! i)"
    and ok: "bucket_ok (esz sch i) (bsz w div esz sch i) m b ((caches w i)(t := c)) f d"
  shows "world_inv sch w' (D(i := d)) (F(i := f)) R B"
proof -
  note I = world_invD [OF inv] and S = one_bucket_stepD [OF st]
  note L = I(1) note l = layoutD [OF L]
  have i62: "i < 62" using i l(3) by simp
  note C = one_bucket_caches [OF st l(11) i62]
  have "esz sch j \<le> bsz w' \<and> pData (buckets (alloc w') ! j) = base_of w' j \<and>
      bucket_ok (esz sch j) (bsz w' div esz sch j) (wmem w') (buckets (alloc w') ! j) (caches w' j) ((F(i := f)) j) ((D(i := d)) j)"
    if j: "j < nb w'" for j
  proof (cases "j = i")
    case True
    then show ?thesis using I(2,3) [OF i] b ok S i62 l(4) by (simp add: C)
  next
    case False
    have jn: "j < nb w" "j < 62" using j S(3) l(3) by simp_all
    have bs: "blocks_span (esz sch j) (bsz w div esz sch j) (base_of w j) \<subseteq> region w j"
      by (rule bucket_blocks_in_region [OF inv jn(1)])
    have A: "region w j \<inter> touched w t i = {}"
    proof -
      have "region w j \<inter> region w i = {}" by (rule regions_disjoint [OF L jn(1) i False])
      moreover have "region w j \<inter> store_span (caches w i t) = {}" if u: "in_use (caches w i t)"
        using region_buffer [OF L jn(1)] buffer_in_raw [OF L] store_in_raw(2) [OF L i62 u]
          raws_disjoint [OF l(1,10) layout_store(3) [OF L i62 u]] layout_store(2) [OF L i62 u] by blast
      ultimately show ?thesis by (auto simp: touched_def store_span_def split: if_splits)
    qed
    have "store_span (caches w j u) \<inter> touched w t i = {}" for u
    proof (cases "in_use (caches w j u)")
      case True
      have "in_use (caches w i t) \<Longrightarrow> R u j \<noteq> R t i"
        using layout_distinct [OF L, of u j t i] False jn(2) i62 True by simp
      then show ?thesis
        using touched_other [OF L i layout_store(3) [OF L jn(2) True] layout_store(2) [OF L jn(2) True]]
          store_in_raw(2) [OF L jn(2) True] by blast
    qed (simp add: store_span_def)
    then have "bucket_ok (esz sch j) (bsz w div esz sch j) m (buckets (alloc w) ! j) (caches w j) (F j) (D j)"
      using A bs I(3) [OF jn(1)] by (intro bucket_ok_frame [OF I(4) [OF jn(1)] so]) auto
    then show ?thesis using I(2,3) [OF jn(1)] S False by (simp add: C)
  qed
  then show ?thesis using layout_update [OF L i st so c] unfolding world_inv_def by blast
qed

end
