(* ===== verification/Allocator_Correct.thy ===== *)
theory Allocator_Correct
  imports World_Invariant
begin

text \<open>
  What \<open>Alloc\<close>, \<open>Free\<close>, \<open>Realloc\<close> and the queries of the allocator do on a state that satisfies the
  invariant.
\<close>

section \<open>Statistics do not matter\<close>

definition core :: "PoolBucket \<Rightarrow> TaggedIndex \<times> addr \<times> addr \<times> u32" where
  "core b = (head b, pData b, pDataEnd b, globalTag b)"

definition same_but_stats :: "world \<Rightarrow> world \<Rightarrow> bool" where
  "same_but_stats w w' \<longleftrightarrow>
     wheap w' = wheap w \<and> tls w' = tls w \<and> map core (buckets (alloc w')) = map core (buckets (alloc w)) \<and>
     (\<exists>g bs. alloc w' = (alloc w)\<lparr>buckets := bs, globalStats := g\<rparr>)"

lemma same_but_stats_refl [simp]: "same_but_stats w w"
  unfolding same_but_stats_def by (simp, intro exI [of _ "globalStats (alloc w)"] exI [of _ "buckets (alloc w)"]) simp

lemma same_but_stats_trans:
  assumes "same_but_stats w w'" "same_but_stats w' w''"
  shows "same_but_stats w w''"
proof -
  obtain g bs g' bs' where "alloc w' = (alloc w)\<lparr>buckets := bs, globalStats := g\<rparr>"
    "alloc w'' = (alloc w')\<lparr>buckets := bs', globalStats := g'\<rparr>"
    using assms by (auto simp: same_but_stats_def)
  then have "alloc w'' = (alloc w)\<lparr>buckets := bs', globalStats := g'\<rparr>" by simp
  then show ?thesis using assms unfolding same_but_stats_def by auto
qed

lemma same_but_statsD:
  assumes "same_but_stats w w'"
  shows "wheap w' = wheap w" "tls w' = tls w" "nb w' = nb w" "bsz w' = bsz w" "pBuffer (alloc w') = pBuffer (alloc w)"
    "bucketsCount (alloc w') = bucketsCount (alloc w)"
    "bucketsDataBegin (alloc w') = bucketsDataBegin (alloc w)" "length (buckets (alloc w')) = length (buckets (alloc w))"
    "base_of w' i = base_of w i" "caches w' = caches w"
proof -
  show "wheap w' = wheap w" "tls w' = tls w" "nb w' = nb w" "bsz w' = bsz w" "pBuffer (alloc w') = pBuffer (alloc w)"
    "bucketsCount (alloc w') = bucketsCount (alloc w)"
    "bucketsDataBegin (alloc w') = bucketsDataBegin (alloc w)" "base_of w' i = base_of w i" "caches w' = caches w"
    using assms by (auto simp: same_but_stats_def base_of_def caches_def)
  have "map core (buckets (alloc w')) = map core (buckets (alloc w))" using assms by (simp add: same_but_stats_def)
  then show "length (buckets (alloc w')) = length (buckets (alloc w))" by (rule map_eq_imp_length_eq)
qed

lemma same_but_stats_core:
  assumes "same_but_stats w w'" "i < length (buckets (alloc w))"
  shows "core (buckets (alloc w') ! i) = core (buckets (alloc w) ! i)"
  using assms same_but_statsD(8) [OF assms(1)] unfolding same_but_stats_def by (metis nth_map)

lemma bucket_ok_core: "core b' = core b \<Longrightarrow> bucket_ok e n m b' c f d = bucket_ok e n m b c f d"
  by (simp add: core_def bucket_ok_def)

lemma world_inv_stats:
  assumes "same_but_stats w w'" "world_inv sch w D F R B"
  shows "world_inv sch w' D F R B"
proof -
  note S = same_but_statsD [OF assms(1)] and I = world_invD [OF assms(2)]
  have "layout_ok w' R B" using I(1) unfolding layout_ok_def S by simp
  moreover have "esz sch i \<le> bsz w' \<and> pData (buckets (alloc w') ! i) = base_of w' i \<and>
      bucket_ok (esz sch i) (bsz w' div esz sch i) (wmem w') (buckets (alloc w') ! i) (caches w' i) (F i) (D i)"
    if "i < nb w'" for i
  proof -
    have i: "i < nb w" "i < length (buckets (alloc w))" using that S(3) layoutD(3,4) [OF I(1)] by simp_all
    have c: "core (buckets (alloc w') ! i) = core (buckets (alloc w) ! i)"
      by (rule same_but_stats_core [OF assms(1) i(2)])
    then show ?thesis using I(2-4) [OF i(1)] bucket_ok_core [OF c] by (simp add: S core_def)
  qed
  ultimately show ?thesis by (simp add: world_inv_def)
qed

lemma upd_stats_same: "same_but_stats w (upd_stats f w)"
  unfolding same_but_stats_def upd_stats_def
  by (auto intro!: exI [of _ "f (globalStats (alloc w))"] exI [of _ "buckets (alloc w)"])

lemma upd_bucket_stats_same: "same_but_stats w (upd_bucket_stats i f w)"
proof -
  let ?b = "buckets (alloc w) ! unat i"
  have "map core ((buckets (alloc w))[unat i := ?b\<lparr>bucketStats := f (bucketStats ?b)\<rparr>]) = map core (buckets (alloc w))"
  proof (rule nth_equalityI)
    fix j assume "j < length (map core ((buckets (alloc w))[unat i := ?b\<lparr>bucketStats := f (bucketStats ?b)\<rparr>]))"
    then show "map core ((buckets (alloc w))[unat i := ?b\<lparr>bucketStats := f (bucketStats ?b)\<rparr>]) ! j =
        map core (buckets (alloc w)) ! j"
      by (cases "j = unat i") (simp_all add: core_def)
  qed simp
  then show ?thesis
    unfolding same_but_stats_def upd_bucket_stats_def set_bucket_def Let_def
    by (auto intro!: exI [of _ "globalStats (alloc w)"] exI [of _ "(buckets (alloc w))[unat i := ?b\<lparr>bucketStats := f (bucketStats ?b)\<rparr>]"])
qed

lemma set_bucket_same: "set_bucket i (buckets (alloc w) ! unat i) w = w"
  by (simp add: set_bucket_def)

text \<open>What stays the same in every operation of the client.\<close>

definition same_frame :: "world \<Rightarrow> world \<Rightarrow> bool" where
  "same_frame w w' \<longleftrightarrow>
     bucketsCount (alloc w') = bucketsCount (alloc w) \<and> bucketSizeInBytes (alloc w') = bucketSizeInBytes (alloc w) \<and>
     pBuffer (alloc w') = pBuffer (alloc w) \<and>
     (\<forall>i < 62. \<forall>t. maxElementsCount (caches w' i t) = maxElementsCount (caches w i t))"

lemma same_frame_refl [simp]: "same_frame w w"
  by (simp add: same_frame_def)

lemma same_frame_trans: "same_frame w w' \<Longrightarrow> same_frame w' w'' \<Longrightarrow> same_frame w w''"
  by (simp add: same_frame_def)

lemma same_frame_heap [simp]: "same_frame w (w\<lparr>wheap := h\<rparr>)"
  by (simp add: same_frame_def caches_def)

lemma same_frame_stats: "same_but_stats w w' \<Longrightarrow> same_frame w w'"
  by (auto simp: same_frame_def same_but_stats_def caches_def)

lemma same_frame_step:
  assumes "one_bucket_step w t i b c m w'" "layout_ok w R B" "i < nb w"
    and "maxElementsCount c = maxElementsCount (caches w i t)"
  shows "same_frame w w'"
proof -
  have "i < 62" using assms(3) layoutD(3) [OF assms(2)] by simp
  from one_bucket_caches [OF assms(1) layoutD(11) [OF assms(2)] this] show ?thesis
    using assms(1,4) by (auto simp: same_frame_def one_bucket_step_def)
qed

lemma same_frameD:
  assumes "same_frame w w'"
  shows "nb w' = nb w" "bsz w' = bsz w" "base_of w' = base_of w"
  using assms by (auto simp: same_frame_def base_of_def fun_eq_iff)

section \<open>Addresses of blocks\<close>

lemma unat_word_of_nat_id: "word_of_nat (unat x) = (x :: 'a::len word)"
  by simp

lemma block_ptr:
  assumes inv: "world_inv sch w D F R B" and i: "i < nb w"
    and x: "x \<in> set (block_offsets (esz sch i) (bsz w div esz sch i))"
  shows "unat (base_of w i + ucast x) = unat (base_of w i) + unat x" "unat x + esz sch i \<le> bsz w"
    "4096 < unat (base_of w i + ucast x)" "FindBucket (base_of w i + ucast x) (alloc w) = Inr (word_of_nat i)"
proof -
  note I = world_invD [OF inv] note L = I(1) note l = layoutD [OF L]
  let ?e = "esz sch i" and ?n = "bsz w div esz sch i"
  have geo: "geometry ?e ?n" using bucket_okD(1) [OF I(4) [OF i]] .
  obtain k where k: "k < ?n" "unat x = k * ?e"
    using geo x by (elim block_offset_unat [rotated 2]) (auto simp: geometry_def)
  have "k * ?e + ?e \<le> ?n * ?e" using mult_le_mono1 [of "k + 1" ?n ?e] k(1) by simp
  then show xe: "unat x + ?e \<le> bsz w" using k(2) div_times_less_eq_dividend [of "bsz w" ?e] by linarith
  note U = unat_base_of [OF L i]
  have e0: "0 < ?e" using geo by (simp add: geometry_def)
  show p: "unat (base_of w i + ucast x) = unat (base_of w i) + unat x"
    using U xe buffer_end [OF L] e0 by (subst unat_add_small) auto
  have "4096 \<le> unat (fst B)" "unat (fst B) + 16 \<le> unat (pBuffer (alloc w))"
    using l(1,10) heap_wf_raw_ok [of "wheap w" B] by (auto simp: generic_block_def raw_ok_def)
  then show "4096 < unat (base_of w i + ucast x)" using p U by linarith
  have q: "base_of w i + ucast x - bucketsDataBegin (alloc w) ! 0 = word_of_nat (i * bsz w) + ucast x"
    by (simp add: l(5) base_of_def del: of_nat_mult)
  have "unat (word_of_nat (i * bsz w) + ucast x :: u64) = i * bsz w + unat x"
  proof -
    have "unat (word_of_nat (i * bsz w) :: u64) = i * bsz w" using l(3,8) i by (intro unat_total) auto
    moreover have "i * bsz w + unat x < 2 ^ 64" using U xe buffer_end [OF L] e0 by linarith
    ultimately show ?thesis by (simp add: unat_add_small del: of_nat_mult)
  qed
  moreover have "(i * bsz w + unat x) div bsz w = i" using xe e0 l(7) by (simp add: div_eq_0_iff)
  ultimately have "unat ((base_of w i + ucast x - bucketsDataBegin (alloc w) ! 0) div bucketSizeInBytes (alloc w)) = i"
    unfolding q unat_div by simp
  then have "(base_of w i + ucast x - bucketsDataBegin (alloc w) ! 0) div bucketSizeInBytes (alloc w) = word_of_nat i"
    by (metis unat_word_of_nat_id)
  moreover have "bucketSizeInBytes (alloc w) \<noteq> 0" using l(7) by auto
  ultimately show "FindBucket (base_of w i + ucast x) (alloc w) = Inr (word_of_nat i)"
    by (simp add: FindBucket_def Let_def del: of_nat_mult)
qed

lemma block_ptr_nonnull:
  assumes "world_inv sch w D F R B" "i < nb w" "x \<in> set (block_offsets (esz sch i) (bsz w div esz sch i))"
  shows "base_of w i + ucast x \<noteq> 0" "IsReadable (base_of w i + ucast x)"
  using block_ptr(3) [OF assms] by (auto simp: IsReadable_def kMaxValidAlignment_def word_less_nat_alt)


section \<open>Allocation\<close>

lemma one_bucket_step_trans_stats:
  "one_bucket_step w t i b c m w' \<Longrightarrow> core b' = core b \<Longrightarrow> alloc w'' = (alloc w')\<lparr>buckets := (buckets (alloc w'))[i := b'], globalStats := g\<rparr> \<Longrightarrow>
     wheap w'' = wheap w' \<Longrightarrow> tls w'' = tls w' \<Longrightarrow> one_bucket_step w t i b' c m w''"
  by (auto simp: one_bucket_step_def)

text \<open>Taking block \<open>x\<close> out of bucket \<open>j\<close>: the invariant afterwards, and nothing written.\<close>

definition takes ::
    "partitioning \<Rightarrow> world \<Rightarrow> world \<Rightarrow> nat \<Rightarrow> u32 \<Rightarrow> (nat \<Rightarrow> u32 set) \<Rightarrow> (nat \<Rightarrow> nat \<Rightarrow> addr \<times> size_t) \<Rightarrow> addr \<times> size_t \<Rightarrow> bool" where
  "takes sch w w' j x D R B \<longleftrightarrow> j < nb w \<and> x \<in> D j \<and> wheap w' = wheap w \<and> same_frame w w' \<and>
     (\<exists>F'. world_inv sch w' (D(j := D j - {x})) F' R B)"

lemma takes_stats: "takes sch w w' j x D R B \<Longrightarrow> same_but_stats w' w'' \<Longrightarrow> takes sch w w'' j x D R B"
  using world_inv_stats [of w' w''] same_but_statsD(1) [of w' w''] same_frame_stats same_frame_trans
  unfolding takes_def by metis

lemma takes_stats_before:
  assumes "same_but_stats w0 w" "takes sch w w' j x D R B"
  shows "takes sch w0 w' j x D R B"
  using assms(2) same_but_statsD(1,3) [OF assms(1)] same_frame_trans [OF same_frame_stats [OF assms(1)]]
  by (simp add: takes_def)

lemma pool_takes:
  assumes inv: "world_inv sch w D F R B" and i: "i < bucketsCount (alloc w)"
    and r: "PoolBucket_Alloc (wmem w) (buckets (alloc w) ! unat i) = (p, b)"
  shows "p = 0 \<and> set_bucket i b w = w \<or>
    (\<exists>x. p = base_of w (unat i) + ucast x \<and> p \<noteq> 0 \<and> takes sch w (set_bucket i b w) (unat i) x D R B)"
proof -
  have n: "unat i < nb w" using i by (simp add: word_less_nat_alt)
  note I = world_invD [OF inv] note ok = I(4) [OF n]
  from bucket_ok_pop [OF ok] show ?thesis
  proof
    assume "F (unat i) = [] \<and> PoolBucket_Alloc (wmem w) (buckets (alloc w) ! unat i) = (0, buckets (alloc w) ! unat i)"
    then show ?thesis using r by (simp add: set_bucket_same)
  next
    assume "\<exists>x xs. F (unat i) = x # xs \<and> x \<in> D (unat i) \<and>
       PoolBucket_Alloc (wmem w) (buckets (alloc w) ! unat i) =
         (pData (buckets (alloc w) ! unat i) + ucast x,
          (buckets (alloc w) ! unat i)\<lparr>head := load64 (wmem w) (pData (buckets (alloc w) ! unat i) + ucast x)\<rparr>) \<and>
       bucket_ok (esz sch (unat i)) (bsz w div esz sch (unat i)) (wmem w)
         ((buckets (alloc w) ! unat i)\<lparr>head := load64 (wmem w) (pData (buckets (alloc w) ! unat i) + ucast x)\<rparr>)
         (caches w (unat i)) xs (D (unat i) - {x})"
    then obtain x xs where x: "x \<in> D (unat i)" "p = base_of w (unat i) + ucast x"
        "b = (buckets (alloc w) ! unat i)\<lparr>head := load64 (wmem w) p\<rparr>"
        "bucket_ok (esz sch (unat i)) (bsz w div esz sch (unat i)) (wmem w) b (caches w (unat i)) xs (D (unat i) - {x})"
      using r I(3) [OF n] by auto
    have st: "one_bucket_step w 0 (unat i) b (caches w (unat i) 0) (wmem w) (set_bucket i b w)"
      unfolding one_bucket_step_def set_bucket_def caches_def
      by (auto intro!: exI [of _ "globalStats (alloc w)"])
    have "world_inv sch (set_bucket i b w) (D(unat i := D (unat i) - {x})) (F(unat i := xs)) R B"
      using x by (intro world_inv_update [OF inv n st]) (simp_all add: fun_upd_idem)
    moreover have "x \<in> set (block_offsets (esz sch (unat i)) (bsz w div esz sch (unat i)))"
      using bucket_okD(5) [OF ok] x(1) by blast
    ultimately show ?thesis
      using x n block_ptr_nonnull(1) [OF inv n] same_frame_step [OF st I(1) n] by (auto simp: takes_def set_bucket_def)
  qed
qed

lemma Allocate_loop_result:
  assumes "world_inv sch w D F R B" and "maxB \<le> bucketsCount (alloc w)"
    and "IsAligned (GetBucketSizeInBytesByIndex sch i) al"
  shows "\<exists>p w'. Allocate_loop sch st al maxB i w = Some (p, w') \<and>
    (p = 0 \<and> same_but_stats w w' \<or>
     (\<exists>j x. i \<le> word_of_nat j \<and> word_of_nat j < maxB \<and> IsAligned (GetBucketSizeInBytesByIndex sch (word_of_nat j)) al \<and>
        p = base_of w j + ucast x \<and> p \<noteq> 0 \<and> takes sch w w' j x D R B))"
  using assms
proof (induction "unat maxB - unat i" arbitrary: i w rule: less_induct)
  case less
  show ?case
  proof (cases "i < maxB")
    case False
    then show ?thesis by (subst Allocate_loop.simps) simp
  next
    case True
    then have ib: "i < bucketsCount (alloc w)" using less.prems(2) by simp
    have n62: "nb w \<le> 62" using layoutD(3) [OF world_invD(1) [OF less.prems(1)]] .
    obtain p b where r: "PoolBucket_Alloc (wmem w) (buckets (alloc w) ! unat i) = (p, b)" by fastforce
    let ?w = "set_bucket i b w"
    from pool_takes [OF less.prems(1) ib r] show ?thesis
    proof
      assume "\<exists>x. p = base_of w (unat i) + ucast x \<and> p \<noteq> 0 \<and> takes sch w ?w (unat i) x D R B"
      then obtain x where x: "p = base_of w (unat i) + ucast x" "p \<noteq> 0" "takes sch w ?w (unat i) x D R B" by blast
      define w' where "w' = (if st then upd_bucket_stats i (\<lambda>s. s\<lparr>hitCount := hitCount s + 1\<rparr>)
          (upd_stats (\<lambda>s. s\<lparr>totalAllocationsServed := totalAllocationsServed s + 1\<rparr>) ?w) else ?w)"
      have w': "Allocate_loop sch st al maxB i w = Some (p, w')" "same_but_stats ?w w'"
        using True r x(2) same_but_stats_trans [OF upd_stats_same upd_bucket_stats_same]
        by (subst Allocate_loop.simps, simp add: Let_def w'_def, simp add: w'_def)
      have "takes sch w w' (unat i) x D R B" by (rule takes_stats [OF x(3) w'(2)])
      then show ?thesis using w'(1) x(1,2) True less.prems(3)
        by (intro exI [of _ p] exI [of _ w'] conjI disjI2 exI [of _ "unat i"] exI [of _ x]) simp_all
    next
      assume p: "p = 0 \<and> ?w = w"
      let ?i = "next_bucket sch al i"
      let ?w1 = "if st then upd_bucket_stats i (\<lambda>s. s\<lparr>missCount := missCount s + 1\<rparr>) w else w"
      have ss: "same_but_stats w ?w1" using upd_bucket_stats_same by simp
      have "unat i < 62" using ib n62 by (simp add: word_less_nat_alt)
      then have "i < stop_index sch" by (cases sch) (simp_all add: stop_index_def word_less_nat_alt)
      then have gt: "i < ?i" by (rule next_bucket_greater)
      have eq: "Allocate_loop sch st al maxB i w = Allocate_loop sch st al maxB ?i ?w1"
        using True r p by (subst Allocate_loop.simps) (simp add: Let_def)
      have dec: "unat maxB - unat ?i < unat maxB - unat i" using True gt by (simp add: word_less_nat_alt)
      from less.hyps [OF dec world_inv_stats [OF ss less.prems(1)] _ next_bucket_aligned]
      obtain p' w' where ih: "Allocate_loop sch st al maxB ?i ?w1 = Some (p', w')"
        "p' = 0 \<and> same_but_stats ?w1 w' \<or>
         (\<exists>j x. ?i \<le> word_of_nat j \<and> word_of_nat j < maxB \<and> IsAligned (GetBucketSizeInBytesByIndex sch (word_of_nat j)) al \<and>
            p' = base_of ?w1 j + ucast x \<and> p' \<noteq> 0 \<and> takes sch ?w1 w' j x D R B)"
        using less.prems(2) same_but_statsD(6) [OF ss] by auto
      from ih(2) have "p' = 0 \<and> same_but_stats w w' \<or>
         (\<exists>j x. i \<le> word_of_nat j \<and> word_of_nat j < maxB \<and> IsAligned (GetBucketSizeInBytesByIndex sch (word_of_nat j)) al \<and>
            p' = base_of w j + ucast x \<and> p' \<noteq> 0 \<and> takes sch w w' j x D R B)"
      proof
        assume "p' = 0 \<and> same_but_stats ?w1 w'"
        then show ?thesis using same_but_stats_trans [OF ss] by blast
      next
        assume "\<exists>j x. ?i \<le> word_of_nat j \<and> word_of_nat j < maxB \<and> IsAligned (GetBucketSizeInBytesByIndex sch (word_of_nat j)) al \<and>
            p' = base_of ?w1 j + ucast x \<and> p' \<noteq> 0 \<and> takes sch ?w1 w' j x D R B"
        then obtain j x where j: "?i \<le> word_of_nat j" "word_of_nat j < maxB" "IsAligned (GetBucketSizeInBytesByIndex sch (word_of_nat j)) al"
          "p' = base_of ?w1 j + ucast x" "p' \<noteq> 0" "takes sch ?w1 w' j x D R B" by blast
        have "i \<le> word_of_nat j" using gt j(1) by (meson less_le_trans less_imp_le)
        moreover have "p' = base_of w j + ucast x" using j(4) same_but_statsD(9) [OF ss, of j] by (simp only:)
        ultimately show ?thesis using j takes_stats_before [OF ss j(6)] by blast
      qed
      then show ?thesis using eq ih(1) by (intro exI [of _ p'] exI [of _ w']) simp
    qed
  qed
qed


text \<open>Operations on generic blocks other than the buffer and the stacks.\<close>

definition infrastructure :: "world \<Rightarrow> (nat \<Rightarrow> nat \<Rightarrow> addr \<times> size_t) \<Rightarrow> addr \<times> size_t \<Rightarrow> (addr \<times> size_t) set" where
  "infrastructure w R B = insert B {R t i |t i. i < 62 \<and> in_use (caches w i t)}"

lemma world_inv_heap:
  assumes inv: "world_inv sch w D F R B" and wf: "heap_wf h" and so: "same_outside A (wmem w) (hmem h)"
    and keep: "\<And>b. b \<in> infrastructure w R B \<Longrightarrow> b \<in> set (live h) \<and> raw_span b \<inter> A = {}"
  shows "world_inv sch (w\<lparr>wheap := h\<rparr>) D F R B"
proof -
  let ?w = "w\<lparr>wheap := h\<rparr>"
  note I = world_invD [OF inv] note L = I(1) note l = layoutD [OF L]
  have c: "caches ?w = caches w" "base_of ?w = base_of w" by (simp_all add: caches_def base_of_def fun_eq_iff)
  have st: "R t i \<in> infrastructure w R B" if "i < 62" "in_use (caches w i t)" for t i
    using that by (auto simp: infrastructure_def)
  have B: "B \<in> infrastructure w R B" by (simp add: infrastructure_def)
  have g: "generic_block h q k b" if "generic_block (wheap w) q k b" "b \<in> infrastructure w R B" for q k b
    using keep [OF that(2)] by (intro generic_block_other(1) [OF l(1) that(1) _ so]) auto
  have "layout_ok ?w R B"
    using L wf g [OF l(10) B] g [OF layout_store(3) [OF L] st] unfolding layout_ok_def c by simp
  moreover have "bucket_ok (esz sch i) (bsz w div esz sch i) (hmem h) (buckets (alloc w) ! i) (caches w i) (F i) (D i)"
    if i: "i < nb w" for i
  proof (rule bucket_ok_frame [OF I(4) [OF i] so])
    have "region w i \<inter> A = {}" using region_buffer [OF L i] buffer_in_raw [OF L] keep [OF B] by blast
    then show "blocks_span (esz sch i) (bsz w div esz sch i) (pData (buckets (alloc w) ! i)) \<inter> A = {}"
      using bucket_blocks_in_region [OF inv i] I(3) [OF i] by auto
    fix t
    have i62: "i < 62" using i l(3) by simp
    show "store_span (caches w i t) \<inter> A = {}"
    proof (cases "in_use (caches w i t)")
      case True
      then show ?thesis using store_in_raw(2) [OF L i62 True] keep [OF st [OF i62 True]] by blast
    qed (simp add: store_span_def)
  qed
  ultimately show ?thesis using I(2,3) unfolding world_inv_def c by simp
qed

lemma infrastructure_live:
  assumes "layout_ok w R B" "b \<in> infrastructure w R B"
  obtains q k where "generic_block (wheap w) q k b"
  using assms layoutD(10) [OF assms(1)] layout_store(3) [OF assms(1)] by (auto simp: infrastructure_def)

lemma min_alignment_pow2: "k \<le> 12 \<Longrightarrow> min_alignment (2 ^ k) = 2 ^ max 2 k"
proof -
  assume "k \<le> 12"
  then have u: "unat (2 ^ k :: u64) = 2 ^ k" by (intro unat_pow2) simp
  have "unat (4 :: u64) = 2 ^ 2" by simp
  then have "(2 ^ k :: u64) < 4 \<longleftrightarrow> (2 :: nat) ^ k < 2 ^ 2" using u unfolding word_less_nat_alt by simp
  also have "\<dots> \<longleftrightarrow> k < 2" by (rule power_strict_increasing_iff) simp
  finally show ?thesis by (auto simp: min_alignment_def kMinValidAlignment_def max_def)
qed

lemma generic_alloc_world:
  assumes inv: "world_inv sch w D F R B" and k: "k \<le> 12" and room: "unat bytes + 4111 < 2 ^ 64"
    and r: "GenericAllocator_Alloc env bytes (2 ^ k) (wheap w) = (p, h)"
  shows "world_inv sch (w\<lparr>wheap := h\<rparr>) D F R B \<and> (p = 0 \<and> hmem h = wmem w \<and> live h = live (wheap w) \<or>
    (\<exists>b. p \<noteq> 0 \<and> b \<notin> set (live (wheap w)) \<and> live h = b # live (wheap w) \<and> generic_block h p bytes b \<and>
       IsAligned p (2 ^ k) \<and> same_outside (raw_span b) (wmem w) (hmem h)))"
proof -
  note L = world_invD(1) [OF inv] note l = layoutD [OF L]
  have "(2 :: nat) ^ max 2 k \<le> 2 ^ 12" using k by (intro power_increasing) auto
  then have room': "unat bytes + 2 ^ max 2 k + 15 < 2 ^ 64" using room by simp
  have inf: "b \<in> set (live (wheap w))" "raw_ok b" if "b \<in> infrastructure w R B" for b
    using infrastructure_live [OF L that] heap_wf_raw_ok [OF l(1)] by (metis generic_block_def)+
  have k64: "max 2 k < 64" using k by simp
  from l(1) min_alignment_pow2 [OF k] k64 room' r show ?thesis
  proof (cases rule: GenericAllocator_Alloc_cases)
    case failed
    then show ?thesis
      using inf by (intro conjI disjI1 world_inv_heap [OF inv, of h "{}"]) auto
  next
    case (served b)
    have ap: "apart b c" if "c \<in> set (live (wheap w))" for c using served(7) that by (simp add: list_all_iff)
    have nb: "b \<notin> set (live (wheap w))" using ap apart_fst by blast
    have "world_inv sch (w\<lparr>wheap := h\<rparr>) D F R B"
    proof (rule world_inv_heap [OF inv served(5,4)])
      fix c assume c: "c \<in> infrastructure w R B"
      have "raw_ok b" using heap_wf_raw_ok [OF served(5)] served(3) by simp
      then show "c \<in> set (live h) \<and> raw_span c \<inter> raw_span b = {}"
        using inf [OF c] apart_disjoint [of c b] ap [of c] apart_sym served(3) by auto
    qed
    moreover have "IsAligned p (2 ^ k)"
    proof -
      have "(2 :: nat) ^ k dvd 2 ^ max 2 k" by (rule le_imp_power_dvd) simp
      then show ?thesis using served(6) dvd_trans unfolding min_alignment_pow2 [OF k] IsAligned_pow2 by blast
    qed
    ultimately show ?thesis using served nb by blast
  qed
qed


text \<open>The cache of the calling thread.\<close>

lemma set_tls_same: "set_tls t i (GetTlsBucket t i w) w = w"
  by (simp add: set_tls_def GetTlsBucket_def)

lemma cache_takes:
  assumes inv: "world_inv sch w D F R B" and i: "i < bucketsCount (alloc w)"
    and r: "AllocFromCache (GetTlsBucket t i w) (wmem w) = (p, c)"
  shows "p = 0 \<and> set_tls t i c w = w \<or>
    (\<exists>x. p = base_of w (unat i) + ucast x \<and> p \<noteq> 0 \<and> takes sch w (set_tls t i c w) (unat i) x D R B)"
proof -
  have n: "unat i < nb w" using i by (simp add: word_less_nat_alt)
  note I = world_invD [OF inv] note ok = I(4) [OF n] note l = layoutD [OF I(1)]
  have g: "GetTlsBucket t i w = caches w (unat i) t" by (simp add: GetTlsBucket_def caches_def)
  from bucket_ok_cache_pop [OF ok, of t] show ?thesis
  proof
    assume "cached (wmem w) (caches w (unat i) t) = [] \<and>
      AllocFromCache (caches w (unat i) t) (wmem w) = (0, caches w (unat i) t)"
    then show ?thesis using r g set_tls_same [of t i w] by auto
  next
    assume "\<exists>x c'. x \<in> D (unat i) \<and>
       AllocFromCache (caches w (unat i) t) (wmem w) = (pData (buckets (alloc w) ! unat i) + ucast x, c') \<and>
       storage_span c' = storage_span (caches w (unat i) t) \<and> pBucket c' = pBucket (caches w (unat i) t) \<and>
       maxElementsCount c' = maxElementsCount (caches w (unat i) t) \<and> pStorageL1 c' = pStorageL1 (caches w (unat i) t) \<and>
       bucket_ok (esz sch (unat i)) (bsz w div esz sch (unat i)) (wmem w) (buckets (alloc w) ! unat i)
         ((caches w (unat i))(t := c')) (F (unat i)) (D (unat i) - {x})"
    then obtain x where x: "x \<in> D (unat i)" "p = base_of w (unat i) + ucast x"
        "maxElementsCount c = maxElementsCount (caches w (unat i) t)" "pStorageL1 c = pStorageL1 (caches w (unat i) t)"
        "bucket_ok (esz sch (unat i)) (bsz w div esz sch (unat i)) (wmem w) (buckets (alloc w) ! unat i)
           ((caches w (unat i))(t := c)) (F (unat i)) (D (unat i) - {x})"
      using r g I(3) [OF n] by auto
    have st: "one_bucket_step w t (unat i) (buckets (alloc w) ! unat i) c (wmem w) (set_tls t i c w)"
      unfolding one_bucket_step_def set_tls_def
      by (auto intro!: exI [of _ "globalStats (alloc w)"])
    have "world_inv sch (set_tls t i c w) (D(unat i := D (unat i) - {x})) (F(unat i := F (unat i))) R B"
      using x by (intro world_inv_update [OF inv n st]) simp_all
    moreover have "x \<in> set (block_offsets (esz sch (unat i)) (bsz w div esz sch (unat i)))"
      using bucket_okD(5) [OF ok] x(1) by blast
    ultimately show ?thesis
      using x n block_ptr_nonnull(1) [OF inv n] same_frame_step [OF st I(1) n x(3)] by (auto simp: takes_def set_tls_def)
  qed
qed

text \<open>Every block of an aligned size class is aligned.\<close>

lemma block_aligned:
  assumes inv: "world_inv sch w D F R B" and i: "i < nb w" and k: "k \<le> 12"
    and x: "x \<in> D i" and al: "IsAligned (GetBucketSizeInBytesByIndex sch (word_of_nat i)) (2 ^ k)"
  shows "IsAligned (base_of w i + ucast x) (2 ^ k)"
proof -
  note I = world_invD [OF inv] note L = I(1) note l = layoutD [OF L] note ok = I(4) [OF i]
  let ?e = "esz sch i"
  have xb: "x \<in> set (block_offsets ?e (bsz w div ?e))" using bucket_okD(5) [OF ok] x by blast
  obtain j where j: "unat x = j * ?e"
    using bucket_okD(1) [OF ok] xb by (elim block_offset_unat [rotated 2]) (auto simp: geometry_def)
  have "2 ^ k dvd ?e" using al unfolding IsAligned_pow2 esz_def .
  moreover have "(2 :: nat) ^ k dvd 4096" using le_imp_power_dvd [OF k, of "2 :: nat"] by simp
  then have "2 ^ k dvd unat (pBuffer (alloc w))" "2 ^ k dvd bsz w" using l(6,9) dvd_trans by blast+
  ultimately show ?thesis
    unfolding IsAligned_pow2 block_ptr(1) [OF inv i xb] unat_base_of(1) [OF L i] j by simp
qed

text \<open>Outcome of an allocation of \<open>n\<close> bytes aligned to \<open>2^k\<close>.\<close>

definition serves ::
    "partitioning \<Rightarrow> size_t \<Rightarrow> nat \<Rightarrow> world \<Rightarrow> addr \<Rightarrow> world \<Rightarrow> (nat \<Rightarrow> u32 set) \<Rightarrow>
       (nat \<Rightarrow> nat \<Rightarrow> addr \<times> size_t) \<Rightarrow> addr \<times> size_t \<Rightarrow> bool" where
  "serves sch n k w p w' D R B \<longleftrightarrow> same_frame w w' \<and>
     ((\<exists>j x. p = base_of w j + ucast x \<and> p \<noteq> 0 \<and> takes sch w w' j x D R B \<and> unat n \<le> esz sch j \<and> IsAligned p (2 ^ k)) \<or>
     (\<exists>b. p \<noteq> 0 \<and> b \<notin> set (live (wheap w)) \<and> live (wheap w') = b # live (wheap w) \<and>
        generic_block (wheap w') p n b \<and> IsAligned p (2 ^ k) \<and>
        same_outside (raw_span b) (wmem w) (wmem w') \<and> (\<exists>F'. world_inv sch w' D F' R B)) \<or>
     p = 0 \<and> wmem w' = wmem w \<and> live (wheap w') = live (wheap w) \<and> (\<exists>F'. world_inv sch w' D F' R B))"

lemma serves_before:
  assumes "same_but_stats w0 w" "serves sch n k w p w' D R B"
  shows "serves sch n k w0 p w' D R B"
proof -
  note S = same_but_statsD [OF assms(1)]
  have b: "base_of w = base_of w0" using S(9) by (simp add: fun_eq_iff)
  have "same_frame w0 w'"
    using assms(2) same_frame_trans [OF same_frame_stats [OF assms(1)]] by (simp add: serves_def)
  moreover have "takes sch w w' j x D R B \<Longrightarrow> takes sch w0 w' j x D R B" for j x
    by (rule takes_stats_before [OF assms(1)])
  ultimately show ?thesis using assms(2) unfolding serves_def S(1) b by blast
qed

lemma serves_after:
  assumes "same_but_stats w' w''" "serves sch n k w p w' D R B"
  shows "serves sch n k w p w'' D R B"
proof -
  have "takes sch w w' j x D R B \<Longrightarrow> takes sch w w'' j x D R B" for j x by (rule takes_stats [OF _ assms(1)])
  moreover have "world_inv sch w' D F R B \<Longrightarrow> world_inv sch w'' D F R B" for F by (rule world_inv_stats [OF assms(1)])
  moreover have "same_frame w w''"
    using assms(2) same_frame_trans [OF _ same_frame_stats [OF assms(1)]] by (simp add: serves_def)
  ultimately show ?thesis
    using assms(2) unfolding serves_def same_but_statsD(1) [OF assms(1)] by blast
qed

lemma serves_block:
  assumes inv: "world_inv sch w D F R B" and t: "takes sch w w' j x D R B" and p: "p = base_of w j + ucast x" "p \<noteq> 0"
    and k: "k \<le> 12" and al: "IsAligned (GetBucketSizeInBytesByIndex sch (word_of_nat j)) (2 ^ k)"
    and n: "n \<le> GetBucketSizeInBytesByIndex sch i" "i \<le> word_of_nat j"
  shows "serves sch n k w p w' D R B"
proof -
  have j: "j < nb w" "x \<in> D j" using t by (auto simp: takes_def)
  have "nb w \<le> 62" using layoutD(3) [OF world_invD(1) [OF inv]] .
  then have "unat (word_of_nat j :: u64) = j" using j(1) by (intro unat_of_nat_small) simp
  then have "(word_of_nat j :: u64) < 62" using j(1) \<open>nb w \<le> 62\<close> by (simp add: word_less_nat_alt)
  then have "n \<le> GetBucketSizeInBytesByIndex sch (word_of_nat j)"
    using classes.sz_le [OF n(2)] n(1) by (meson order_trans)
  then have "unat n \<le> esz sch j" by (simp add: esz_def word_le_nat_alt)
  then show ?thesis using p t block_aligned [OF inv j(1) k j(2) al] unfolding serves_def takes_def by blast
qed

lemma Allocate_serves:
  assumes inv: "world_inv sch w D F R B" and k: "k \<le> 12" and n: "n \<noteq> 0" "unat n + 4111 < 2 ^ 64"
    and ok: "size_request_ok sch (Align n (2 ^ k))"
  shows "\<exists>p w'. Allocate sch env st t n (2 ^ k) w = Inr (p, w') \<and> serves sch n k w p w' D R B"
proof -
  define w1 where "w1 = (if st then upd_stats (\<lambda>s. s\<lparr>totalNumAllocationAttempts := totalNumAllocationAttempts s + 1\<rparr>) w else w)"
  have s1: "same_but_stats w w1" using upd_stats_same by (simp add: w1_def)
  note inv1 = world_inv_stats [OF s1 inv]
  let ?a = "Align n (2 ^ k)" let ?i = "GetBucketIndexBySize sch ?a"
  have n62: "nb w1 \<le> 62" using layoutD(3) [OF world_invD(1) [OF inv1]] .
  have p2: "(2 :: nat) ^ k \<le> 2 ^ 12" using k by (intro power_increasing) auto
  then have nw: "unat n + (2 ^ k - 1) < 2 ^ 64" using n(2) by simp
  have k64: "k < 64" using k by simp
  have fit: "n \<le> GetBucketSizeInBytesByIndex sch ?i" "IsAligned (GetBucketSizeInBytesByIndex sch ?i) (2 ^ k)"
    if "?i < bucketsCount (alloc w1)"
  proof -
    have "?i < 62" using that n62 by (simp add: word_less_nat_alt)
    then show "n \<le> GetBucketSizeInBytesByIndex sch ?i" "IsAligned (GetBucketSizeInBytesByIndex sch ?i) (2 ^ k)"
      using classes.fits [OF ok] classes.aligned [OF ok _ Align_aligned [OF k64 nw]] Align_ge [OF k64 nw] by auto
  qed
  obtain p0 c where c: "AllocFromCache (GetTlsBucket t ?i w1) (wmem w1) = (p0, c)" by fastforce
  let ?max = "Min (bucketsCount (alloc w1)) (?i + 4)"
  have max: "?max \<le> bucketsCount (alloc w1)" by (auto simp: Min_def)
  have loop: "\<exists>p w'. Allocate_loop sch st (2 ^ k) ?max ?i w1 = Some (p, w') \<and>
      (p = 0 \<and> same_but_stats w1 w' \<or> p \<noteq> 0 \<and> serves sch n k w1 p w' D R B)"
  proof (cases "?i < bucketsCount (alloc w1)")
    case False
    then have "\<not> ?i < ?max" using max by auto
    then show ?thesis by (subst Allocate_loop.simps) simp
  next
    case True
    obtain p w' where R: "Allocate_loop sch st (2 ^ k) ?max ?i w1 = Some (p, w')"
      "p = 0 \<and> same_but_stats w1 w' \<or>
       (\<exists>j x. ?i \<le> word_of_nat j \<and> word_of_nat j < ?max \<and> IsAligned (GetBucketSizeInBytesByIndex sch (word_of_nat j)) (2 ^ k) \<and>
        p = base_of w1 j + ucast x \<and> p \<noteq> 0 \<and> takes sch w1 w' j x D R B)"
      using Allocate_loop_result [OF inv1 max fit(2) [OF True], of st] by blast
    then show ?thesis using serves_block [OF inv1 _ _ _ k _ fit(1) [OF True]] by blast
  qed
  then obtain p2 w2 where R: "Allocate_loop sch st (2 ^ k) ?max ?i w1 = Some (p2, w2)"
    "p2 = 0 \<and> same_but_stats w1 w2 \<or> p2 \<noteq> 0 \<and> serves sch n k w1 p2 w2 D R B" by blast
  show ?thesis
  proof (cases "?i < bucketsCount (alloc w1) \<and> p0 \<noteq> 0")
    case True
    from cache_takes [OF inv1 conjunct1 [OF True] c] True
    obtain x where x: "p0 = base_of w1 (unat ?i) + ucast x" "takes sch w1 (set_tls t ?i c w1) (unat ?i) x D R B" by blast
    have sv: "serves sch n k w1 p0 (set_tls t ?i c w1) D R B"
      using True fit x by (intro serves_block [OF inv1 x(2,1) _ k, where i = ?i]) simp_all
    define w' where "w' = (if st then upd_bucket_stats ?i (\<lambda>s. s\<lparr>cacheHitCount := cacheHitCount s + 1\<rparr>)
        (upd_stats (\<lambda>s. s\<lparr>totalAllocationsServed := totalAllocationsServed s + 1\<rparr>) (set_tls t ?i c w1)) else set_tls t ?i c w1)"
    have "same_but_stats (set_tls t ?i c w1) w'"
      using same_but_stats_trans [OF upd_stats_same upd_bucket_stats_same] by (simp add: w'_def)
    then have "serves sch n k w p0 w' D R B" using serves_before [OF s1 serves_after [OF _ sv]] by blast
    moreover have "Allocate sch env st t n (2 ^ k) w = Inr (p0, w')"
      using n(1) True c by (simp add: Allocate_def Let_def w'_def flip: w1_def)
    ultimately show ?thesis by blast
  next
    case False
    then have wc: "(if ?i < bucketsCount (alloc w1)
                then (let (p, c) = AllocFromCache (GetTlsBucket t ?i w1) (wmem w1) in (p, set_tls t ?i c w1))
                else (0, w1)) = (0, w1)"
      using cache_takes [OF inv1 _ c] c by auto
    show ?thesis
    proof (cases "p2 = 0")
      case p2: False
      then have "Allocate sch env st t n (2 ^ k) w = Inr (p2, w2)"
        using n(1) R(1) wc by (simp add: Allocate_def flip: w1_def)
      then show ?thesis using R(2) p2 serves_before [OF s1] by blast
    next
      case p2: True
      then have s2: "same_but_stats w1 w2" using R(2) by blast
      define w3 where "w3 = (if st then upd_stats (\<lambda>s. s\<lparr>totalAllocationsRoutedToDefaultAllocator :=
                 totalAllocationsRoutedToDefaultAllocator s + 1\<rparr>)
            (if ?i < bucketsCount (alloc w1)
             then upd_stats (\<lambda>s. s\<lparr>routingReasonSaturation := routingReasonSaturation s + 1\<rparr>) w2
             else upd_stats (\<lambda>s. s\<lparr>routingReasonBySize := routingReasonBySize s + 1\<rparr>) w2) else w2)"
      obtain p h where g: "GenericAllocator_Alloc env n (2 ^ k) (wheap w3) = (p, h)" by fastforce
      have "same_but_stats w2 w3"
        using same_but_stats_trans [OF upd_stats_same upd_stats_same] by (simp add: w3_def)
      then have s3: "same_but_stats w w3" using s1 s2 same_but_stats_trans by blast
      have "serves sch n k w3 p (w3\<lparr>wheap := h\<rparr>) D R B"
        using generic_alloc_world [OF world_inv_stats [OF s3 inv] k n(2) g] unfolding serves_def by auto
      moreover have "Allocate sch env st t n (2 ^ k) w = Inr (p, w3\<lparr>wheap := h\<rparr>)"
        using n(1) R(1) wc p2 g by (simp add: Allocate_def Let_def w3_def flip: w1_def)
      ultimately show ?thesis using serves_before [OF s3] by blast
    qed
  qed
qed

end
