(* ===== verification/Allocator_Blocks.thy ===== *)
theory Allocator_Blocks
  imports Allocator_Correct
begin

text \<open>
  The blocks in the hands of the client, what \<open>Free\<close> does with them, and the properties of the allocator as
  a whole.
\<close>

section \<open>Blocks of the client\<close>

lemma span_nonempty: "0 < n \<Longrightarrow> span a n \<noteq> {}"
  by (auto simp: span_def lessThan_empty_iff)

definition pool_block :: "partitioning \<Rightarrow> world \<Rightarrow> (nat \<Rightarrow> u32 set) \<Rightarrow> nat \<Rightarrow> u32 \<Rightarrow> bool" where
  "pool_block sch w D i x \<longleftrightarrow> i < nb w \<and> x \<in> set (block_offsets (esz sch i) (bsz w div esz sch i)) \<and> x \<notin> D i"

definition client_block ::
    "world \<Rightarrow> (nat \<Rightarrow> nat \<Rightarrow> addr \<times> size_t) \<Rightarrow> addr \<times> size_t \<Rightarrow> addr \<Rightarrow> size_t \<Rightarrow> addr \<times> size_t \<Rightarrow> bool" where
  "client_block w R B q k b \<longleftrightarrow> generic_block (wheap w) q k b \<and> b \<notin> infrastructure w R B \<and> k \<noteq> 0"

lemma infrastructure_same: "caches w' = caches w \<Longrightarrow> infrastructure w' R B = infrastructure w R B"
  by (simp add: infrastructure_def)

lemma client_raw:
  assumes "layout_ok w R B" "client_block w R B q k b" "c \<in> infrastructure w R B"
  shows "raw_span b \<inter> raw_span c = {}"
proof -
  obtain p n where "generic_block (wheap w) p n c" by (rule infrastructure_live [OF assms(1,3)])
  then show ?thesis
    using assms(2,3) by (intro raws_disjoint [OF layoutD(1) [OF assms(1)]]) (auto simp: client_block_def)
qed

lemma client_outside_buffer:
  assumes L: "layout_ok w R B" and c: "client_block w R B q k b"
  shows "span q (unat k) \<inter> buffer_span w = {}" "FindBucket q (alloc w) = Inr ((q - pBuffer (alloc w)) div bucketSizeInBytes (alloc w))"
    "\<not> (q - pBuffer (alloc w)) div bucketSizeInBytes (alloc w) < bucketsCount (alloc w)" "q \<noteq> 0" "IsReadable q"
proof -
  note l = layoutD [OF L]
  have g: "generic_block (wheap w) q k b" "k \<noteq> 0" using c by (auto simp: client_block_def)
  have rok: "raw_ok b" using l(1) g(1) by (auto simp: generic_block_def intro: heap_wf_raw_ok)
  have "span q (unat k) \<subseteq> raw_span b" using generic_spans(1) [OF g(1) rok] .
  moreover have "raw_span b \<inter> raw_span B = {}" by (rule client_raw [OF L c]) (simp add: infrastructure_def)
  ultimately show d: "span q (unat k) \<inter> buffer_span w = {}" using buffer_in_raw [OF L] by blast
  have "bucketSizeInBytes (alloc w) \<noteq> 0" using l(7) by auto
  then show "FindBucket q (alloc w) = Inr ((q - pBuffer (alloc w)) div bucketSizeInBytes (alloc w))"
    by (simp add: FindBucket_def l(5))
  have "q \<in> span q (unat k)" using g(2) by (simp add: unat_gt_0)
  then have "q \<notin> buffer_span w" using d by blast
  moreover have "nb w * bsz w \<le> 2 ^ 64" using buffer_end [OF L] by simp
  ultimately have "nb w * bsz w \<le> unat (q - pBuffer (alloc w))" unfolding buffer_span_def using span_iff by force
  then have "nb w \<le> unat (q - pBuffer (alloc w)) div bsz w" using l(7) by (simp add: less_eq_div_iff_mult_less_eq)
  then show "\<not> (q - pBuffer (alloc w)) div bucketSizeInBytes (alloc w) < bucketsCount (alloc w)"
    by (simp add: word_less_nat_alt unat_div)
  have "4096 < unat q" using g(1) rok by (auto simp: generic_block_def raw_ok_def)
  then show "q \<noteq> 0" "IsReadable q" by (auto simp: IsReadable_def kMaxValidAlignment_def word_less_nat_alt)
qed

section \<open>Free\<close>

lemma ReleaseToCache_storage:
  "ReleaseToCache u p self b m = (r, self', b', m') \<Longrightarrow> pStorageL1 self' = pStorageL1 self"
  by (auto simp: ReleaseToCache_def ReturnL1CacheToMaster_def Let_def split: if_splits prod.splits)

text \<open>The bytes written when thread \<open>t\<close> frees block \<open>x\<close> of bucket \<open>i\<close>: its L1 stack and links of dead blocks.\<close>

definition free_writes :: "world \<Rightarrow> nat \<Rightarrow> nat \<Rightarrow> u32 \<Rightarrow> addr set" where
  "free_writes w t i x = store_span (caches w i t) \<union> links (base_of w i) (x # cached (wmem w) (caches w i t))"

lemma free_writes_touched:
  assumes inv: "world_inv sch w D F R B" and pb: "pool_block sch w D i x"
  shows "free_writes w t i x \<subseteq> touched w t i"
proof -
  have i: "i < nb w" using pb by (simp add: pool_block_def)
  note ok = world_invD(4) [OF inv i]
  have "set (x # cached (wmem w) (caches w i t)) \<subseteq> set (block_offsets (esz sch i) (bsz w div esz sch i))"
    using bucket_okD(5) [OF ok] bucket_ok_cacheD(3) [OF ok, of t] pb by (auto simp: pool_block_def)
  then have "links (base_of w i) (x # cached (wmem w) (caches w i t)) \<subseteq> region w i"
    using links_blocks_span [OF bucket_okD(1) [OF ok]] bucket_blocks_in_region [OF inv i] by blast
  then show ?thesis by (auto simp: free_writes_def touched_def)
qed

lemma bucket_separation:
  assumes L: "layout_ok w R B" and i: "i < nb w" and u: "u \<noteq> t"
  shows "store_span (caches w i u) \<inter> store_span (caches w i t) = {}"
proof (cases "in_use (caches w i u) \<and> in_use (caches w i t)")
  case True
  have i62: "i < 62" using i layoutD(3) [OF L] by simp
  have "R u i \<noteq> R t i" using layout_distinct [OF L, of u i t i] u i62 True by simp
  then have "raw_span (R u i) \<inter> raw_span (R t i) = {}"
    using raws_disjoint [OF layoutD(1) [OF L] layout_store(3) [OF L i62] layout_store(3) [OF L i62]] True by blast
  then show ?thesis using store_in_raw(2) [OF L i62] True by blast
qed (auto simp: store_span_def)

lemma Free_pool_block:
  assumes inv: "world_inv sch w D F R B" and pb: "pool_block sch w D i x"
  shows "\<exists>w' F'. Allocator_Free t (base_of w i + ucast x) w = Inr w' \<and>
    world_inv sch w' (D(i := insert x (D i))) F' R B \<and> live (wheap w') = live (wheap w) \<and> same_frame w w' \<and>
    same_outside (free_writes w t i x) (wmem w) (wmem w')"
proof -
  have i: "i < nb w" and x: "x \<in> set (block_offsets (esz sch i) (bsz w div esz sch i))" "x \<notin> D i"
    using pb by (auto simp: pool_block_def)
  let ?p = "base_of w i + ucast x" and ?i = "word_of_nat i :: size_t"
  note l = layoutD [OF world_invD(1) [OF inv]]
  have ui: "unat ?i = i" using i l(3) by (intro unat_of_nat_small) simp
  define w1 where "w1 = upd_bucket_stats ?i (\<lambda>s. s\<lparr>freeCount := freeCount s + 1\<rparr>) w"
  have s1: "same_but_stats w w1" unfolding w1_def by (rule upd_bucket_stats_same)
  note S = same_but_statsD [OF s1] note inv1 = world_inv_stats [OF s1 inv]
  have i1: "i < nb w1" using i S(3) by simp
  note I = world_invD [OF inv1] note ok = I(4) [OF i1]
  let ?b = "buckets (alloc w1) ! i" and ?c = "caches w1 i"
  have pd: "pData ?b = base_of w i" using I(3) [OF i1] S(9) by simp
  have x1: "x \<in> set (block_offsets (esz sch i) (bsz w1 div esz sch i))" using x(1) S(4) by simp
  have rd: "IsReadable ?p" using block_ptr_nonnull(2) [OF inv i x(1)] .
  have lt: "?i < bucketsCount (alloc w)" using i ui by (simp add: word_less_nat_alt)
  have tb: "GetTlsBucket t ?i w1 = ?c t" by (simp add: GetTlsBucket_def caches_def ui)
  obtain r c' b' m' where rel: "ReleaseToCache True ?p (?c t) ?b (wmem w1) = (r, c', b', m')" by (metis prod_cases4)
  have eq: "Allocator_Free t ?p w =
     (let w2 = set_tls t ?i c' (set_bucket ?i b' (set_wmem m' w1))
      in if r then Inr w2
         else (let (m, b) = PoolBucket_FreeInterval ?p ?p (wmem w2) (buckets (alloc w2) ! i)
               in Inr (set_bucket ?i b (set_wmem m w2))))"
    using rd lt block_ptr(4) [OF inv i x(1)] rel tb by (simp add: Allocator_Free_def Let_def ui flip: w1_def)
  have step: "one_bucket_step w1 t i b c m (set_tls t ?i c (set_bucket ?i b (set_wmem m w1)))" for b c m
    by (auto simp: one_bucket_step_def set_tls_def set_bucket_def set_wmem_def ui intro!: exI [of _ "globalStats (alloc w1)"])
  have fw: "free_writes w1 t i x = free_writes w t i x" "touched w1 t i = touched w t i"
    using S by (simp_all add: free_writes_def touched_def region_def)
  have tch: "free_writes w1 t i x \<subseteq> touched w1 t i" using free_writes_touched [OF inv pb, of t] fw by simp
  show ?thesis
  proof (cases "in_use (?c t)")
    case True
    from bucket_ok_release [OF ok x1 x(2) True, of True] bucket_separation [OF I(1) i1]
    obtain c2 b2 m2 free' where R: "ReleaseToCache True (pData ?b + ucast x) (?c t) ?b (wmem w1) = (True, c2, b2, m2)"
      "bucket_ok (esz sch i) (bsz w1 div esz sch i) m2 b2 (?c(t := c2)) free' (insert x (D i))" "pData b2 = pData ?b"
      "maxElementsCount c2 = maxElementsCount (?c t)"
      "same_outside (store_span (?c t) \<union> links (pData ?b) (cached (wmem w1) (?c t))) (wmem w1) m2" by metis
    have e: "r = True" "c' = c2" "b' = b2" "m' = m2" using rel R(1) pd by simp_all
    have so: "same_outside (free_writes w1 t i x) (wmem w1) m'"
      using R(5) unfolding e by (rule same_outside_mono) (auto simp: free_writes_def pd S(9))
    let ?w2 = "set_tls t ?i c' (set_bucket ?i b' (set_wmem m' w1))"
    have "world_inv sch ?w2 (D(i := insert x (D i))) (F(i := free')) R B"
      using R e so tch ReleaseToCache_storage [OF rel]
      by (intro world_inv_update [OF inv1 i1 step]) (auto elim: same_outside_mono)
    moreover have "same_frame w ?w2"
      using same_frame_trans [OF same_frame_stats [OF s1] same_frame_step [OF step I(1) i1]] R(4) e(2) by simp
    moreover have "Allocator_Free t ?p w = Inr ?w2" using eq e by simp
    moreover have "same_outside (free_writes w t i x) (wmem w) (wmem ?w2)" "live (wheap ?w2) = live (wheap w)"
      using so fw(1) S(1) by (simp_all add: set_tls_def set_bucket_def set_wmem_def)
    ultimately show ?thesis by blast
  next
    case False
    then have e: "r = False" "c' = ?c t" "b' = ?b" "m' = wmem w1" using rel by (simp_all add: ReleaseToCache_def)
    obtain m2 b2 where f: "PoolBucket_FreeInterval ?p ?p (wmem w1) ?b = (m2, b2)" by fastforce
    note Fr = bucket_ok_free_interval [OF ok x1 x(2) f [folded pd]]
    let ?w2 = "set_tls t ?i (?c t) (set_bucket ?i b2 (set_wmem m2 w1))"
    have "set_tls t ?i c' (set_bucket ?i b' (set_wmem m' w1)) = w1"
      unfolding e by (simp add: set_tls_def set_bucket_def set_wmem_def caches_def ui)
    then have "Allocator_Free t ?p w = Inr (set_bucket ?i b2 (set_wmem m2 w1))" using eq e(1) f by (simp add: Let_def)
    moreover have "set_bucket ?i b2 (set_wmem m2 w1) = ?w2"
      by (simp add: set_tls_def set_bucket_def set_wmem_def caches_def ui)
    moreover have "same_frame w ?w2"
      using same_frame_trans [OF same_frame_stats [OF s1] same_frame_step [OF step I(1) i1]] by simp
    moreover have so: "same_outside (free_writes w1 t i x) (wmem w1) m2"
      using Fr(5) by (rule same_outside_mono) (auto simp: free_writes_def pd S(9))
    then have "world_inv sch ?w2 (D(i := insert x (D i))) (F(i := x # F i)) R B"
      using Fr tch by (intro world_inv_update [OF inv1 i1 step]) (auto elim: same_outside_mono)
    moreover have "same_outside (free_writes w t i x) (wmem w) (wmem ?w2)" "live (wheap ?w2) = live (wheap w)"
      using so fw(1) S(1) by (simp_all add: set_tls_def set_bucket_def set_wmem_def)
    ultimately show ?thesis by metis
  qed
qed


lemma Free_client_block:
  assumes inv: "world_inv sch w D F R B" and c: "client_block w R B q k b"
  shows "\<exists>w'. Allocator_Free t q w = Inr w' \<and> world_inv sch w' D F R B \<and> same_frame w w' \<and>
    wmem w' = wmem w \<and> set (live (wheap w')) = set (live (wheap w)) - {b}"
proof -
  note L = world_invD(1) [OF inv] note l = layoutD [OF L] note O = client_outside_buffer [OF L c]
  have g: "generic_block (wheap w) q k b" using c by (simp add: client_block_def)
  obtain h where h: "GenericAllocator_Free q (wheap w) = Inr h" "hmem h = wmem w" "set (live h) = set (live (wheap w)) - {b}" "heap_wf h"
    by (rule GenericAllocator_Free_block [OF l(1) g])
  have "Allocator_Free t q w = Inr (w\<lparr>wheap := h\<rparr>)" using O h(1) by (simp add: Allocator_Free_def)
  moreover have "world_inv sch (w\<lparr>wheap := h\<rparr>) D F R B"
  proof (rule world_inv_heap [OF inv h(4), of "{}"])
    show "same_outside {} (wmem w) (hmem h)" using h(2) by simp
    fix d assume d: "d \<in> infrastructure w R B"
    obtain p n where "generic_block (wheap w) p n d" by (rule infrastructure_live [OF L d])
    moreover have "d \<noteq> b" using c d by (auto simp: client_block_def)
    ultimately show "d \<in> set (live h) \<and> raw_span d \<inter> {} = {}" using h(3) by (simp add: generic_block_def)
  qed
  ultimately show ?thesis using h by auto
qed

section \<open>Which blocks the client has afterwards\<close>

lemma infrastructure_frame:
  assumes "same_frame w w'" shows "infrastructure w' R B = infrastructure w R B"
proof -
  have "i < 62 \<and> in_use (caches w' i t) \<longleftrightarrow> i < 62 \<and> in_use (caches w i t)" for i t
    using assms by (auto simp: same_frame_def)
  then show ?thesis by (simp add: infrastructure_def)
qed

lemma pool_block_frame: "same_frame w w' \<Longrightarrow> pool_block sch w' D i x = pool_block sch w D i x"
  by (simp add: pool_block_def same_frameD)

lemma pool_span:
  assumes inv: "world_inv sch w D F R B" and pb: "pool_block sch w D i x"
  shows "span (base_of w i + ucast x) (esz sch i) \<subseteq> region w i"
    "span (base_of w i + ucast x) (esz sch i) \<subseteq> buffer_span w"
proof -
  have i: "i < nb w" using pb by (simp add: pool_block_def)
  show r: "span (base_of w i + ucast x) (esz sch i) \<subseteq> region w i"
    using bucket_blocks_in_region [OF inv i] pb by (auto simp: blocks_span_def pool_block_def)
  then show "span (base_of w i + ucast x) (esz sch i) \<subseteq> buffer_span w"
    using region_buffer [OF world_invD(1) [OF inv] i] by blast
qed

text \<open>Two pool blocks are the same block or disjoint.\<close>

lemma pool_blocks_disjoint:
  assumes inv: "world_inv sch w D F R B" and i: "i < nb w" "j < nb w"
    and x: "x \<in> set (block_offsets (esz sch i) (bsz w div esz sch i))" "y \<in> set (block_offsets (esz sch j) (bsz w div esz sch j))"
    and ne: "(i, x) \<noteq> (j, y)"
  shows "span (base_of w i + ucast x) (esz sch i) \<inter> span (base_of w j + ucast y) (esz sch j) = {}"
proof (cases "i = j")
  case True
  have "geometry (esz sch i) (bsz w div esz sch i)" using bucket_okD(1) [OF world_invD(4) [OF inv i(1)]] .
  then have g: "bsz w div esz sch i * esz sch i \<le> 2 ^ 32" "0 < esz sch i" by (auto simp: geometry_def)
  show ?thesis unfolding True [symmetric]
    using x ne True by (intro block_spans_disjoint [OF g]) auto
next
  case False
  have "span (base_of w i + ucast x) (esz sch i) \<subseteq> region w i" "span (base_of w j + ucast y) (esz sch j) \<subseteq> region w j"
    using bucket_blocks_in_region [OF inv i(1)] bucket_blocks_in_region [OF inv i(2)] x by (auto simp: blocks_span_def)
  then show ?thesis using regions_disjoint [OF world_invD(1) [OF inv] i False] by blast
qed

lemma esz_pos: "world_inv sch w D F R B \<Longrightarrow> i < nb w \<Longrightarrow> 8 \<le> esz sch i"
  using bucket_okD(1) [OF world_invD(4)] by (auto simp: geometry_def)

lemma pool_ptr_eq:
  assumes inv: "world_inv sch w D F R B" and i: "i < nb w" "j < nb w"
    and x: "x \<in> set (block_offsets (esz sch i) (bsz w div esz sch i))" "y \<in> set (block_offsets (esz sch j) (bsz w div esz sch j))"
    and eq: "base_of w i + ucast x = base_of w j + ucast y"
  shows "i = j" "x = y"
proof -
  have "base_of w i + ucast x \<in> span (base_of w i + ucast x) (esz sch i) \<inter> span (base_of w j + ucast y) (esz sch j)"
    using eq esz_pos [OF inv i(1)] esz_pos [OF inv i(2)] by simp
  then have "(i, x) = (j, y)" using pool_blocks_disjoint [OF inv i x] by blast
  then show "i = j" "x = y" by auto
qed

text \<open>Blocks in use are disjoint from each other.\<close>

lemma client_span:
  assumes "layout_ok w R B" "client_block w R B q k b"
  shows "span q (unat k) \<subseteq> raw_span b"
proof -
  have g: "generic_block (wheap w) q k b" using assms(2) by (simp add: client_block_def)
  then have "raw_ok b" using layoutD(1) [OF assms(1)] by (auto simp: generic_block_def intro: heap_wf_raw_ok)
  then show ?thesis by (rule generic_spans(1) [OF g])
qed

text \<open>
  The client holds the pool blocks that are not dead and the generic blocks of a ghost set \<open>G\<close>, whose raw
  blocks are different and neither the buffer nor an L1 stack.
\<close>

type_synonym generics = "(addr \<times> size_t \<times> addr \<times> size_t) set"

definition generics_ok :: "world \<Rightarrow> (nat \<Rightarrow> nat \<Rightarrow> addr \<times> size_t) \<Rightarrow> addr \<times> size_t \<Rightarrow> generics \<Rightarrow> bool" where
  "generics_ok w R B G \<longleftrightarrow> (\<forall>(p, k, b) \<in> G. client_block w R B p k b) \<and> inj_on (\<lambda>(p, k, b). b) G"

definition client_owned :: "partitioning \<Rightarrow> world \<Rightarrow> (nat \<Rightarrow> u32 set) \<Rightarrow> generics \<Rightarrow> (addr \<times> nat) set" where
  "client_owned sch w D G =
     {(base_of w i + ucast x, esz sch i) |i x. pool_block sch w D i x} \<union> (\<lambda>(p, k, b). (p, unat k)) ` G"

definition client_holds :: "partitioning \<Rightarrow> world \<Rightarrow> (addr \<times> nat) set \<Rightarrow> bool" where
  "client_holds sch w O' \<longleftrightarrow> (\<exists>D F R B G. world_inv sch w D F R B \<and> generics_ok w R B G \<and> O' = client_owned sch w D G)"

lemma generics_okD:
  assumes "generics_ok w R B G" "(p, k, b) \<in> G"
  shows "client_block w R B p k b" "(q, j, b) \<in> G \<Longrightarrow> q = p \<and> j = k"
  using assms by (auto simp: generics_ok_def dest: inj_onD [where x = "(p, k, b)" and y = "(q, j, b)"])

lemma owned_cases [consumes 1, case_names pool generic]:
  assumes "(p, n) \<in> client_owned sch w D G"
  obtains i x where "pool_block sch w D i x" "p = base_of w i + ucast x" "n = esz sch i"
  | k b where "(p, k, b) \<in> G" "n = unat k"
  using assms by (auto simp: client_owned_def)

lemma pool_not_client:
  assumes inv: "world_inv sch w D F R B" and pb: "pool_block sch w D' i x" and c: "client_block w R B q k b"
  shows "span (base_of w i + ucast x) (esz sch i) \<inter> span q (unat k) = {}"
proof -
  have i: "i < nb w" using pb by (simp add: pool_block_def)
  have "span (base_of w i + ucast x) (esz sch i) \<subseteq> region w i"
    using bucket_blocks_in_region [OF inv i] pb by (auto simp: blocks_span_def pool_block_def)
  then show ?thesis
    using region_buffer [OF world_invD(1) [OF inv] i] client_outside_buffer(1) [OF world_invD(1) [OF inv] c] by blast
qed

lemma generics_disjoint:
  assumes inv: "world_inv sch w D F R B" and G: "generics_ok w R B G"
    and c: "(p, k, b) \<in> G" "(q, j, d) \<in> G" "p \<noteq> q \<or> k \<noteq> j"
  shows "span p (unat k) \<inter> span q (unat j) = {}"
proof -
  note L = world_invD(1) [OF inv] note C = generics_okD(1) [OF G c(1)] generics_okD(1) [OF G c(2)]
  have "b \<noteq> d" using generics_okD(2) [OF G c(1), of q j] c(2,3) by auto
  then have "raw_span b \<inter> raw_span d = {}"
    using C by (intro raws_disjoint [OF layoutD(1) [OF L]]) (auto simp: client_block_def)
  then show ?thesis using client_span [OF L C(1)] client_span [OF L C(2)] by blast
qed

lemma owned_disjoint:
  assumes inv: "world_inv sch w D F R B" and G: "generics_ok w R B G"
    and o: "(p, n) \<in> client_owned sch w D G" "(q, m) \<in> client_owned sch w D G" and ne: "(p, n) \<noteq> (q, m)"
  shows "span p n \<inter> span q m = {}"
  using o(1)
proof (cases rule: owned_cases)
  case (pool i x)
  note P = this
  from o(2) show ?thesis
  proof (cases rule: owned_cases)
    case (pool j y)
    then show ?thesis using P ne unfolding P(2,3) pool(2,3)
      by (intro pool_blocks_disjoint [OF inv]) (auto simp: pool_block_def)
  next
    case (generic k b)
    then show ?thesis using P pool_not_client [OF inv P(1) generics_okD(1) [OF G generic(1)]] by simp
  qed
next
  case (generic k b)
  note P = this
  from o(2) show ?thesis
  proof (cases rule: owned_cases)
    case (pool j y)
    then show ?thesis using P pool_not_client [OF inv pool(1) generics_okD(1) [OF G P(1)]] by (simp add: Int_commute)
  next
    case (generic j d)
    then show ?thesis using P ne generics_disjoint [OF inv G P(1) generic(1)] by auto
  qed
qed

lemma owned_pos: "world_inv sch w D F R B \<Longrightarrow> generics_ok w R B G \<Longrightarrow> (p, n) \<in> client_owned sch w D G \<Longrightarrow> 0 < n"
  using esz_pos [of sch w D F R B] by (auto elim!: owned_cases simp: pool_block_def client_block_def unat_gt_0 dest: generics_okD(1))
    fastforce

text \<open>Hence an address starts at most one block.\<close>

lemma owned_unique:
  assumes "world_inv sch w D F R B" "generics_ok w R B G" "(p, n) \<in> client_owned sch w D G" "(p, m) \<in> client_owned sch w D G"
  shows "n = m"
proof (rule ccontr)
  assume "n \<noteq> m"
  then have "span p n \<inter> span p m = {}" using owned_disjoint [OF assms] by simp
  moreover have "p \<in> span p n \<inter> span p m" using owned_pos [OF assms(1-3)] owned_pos [OF assms(1,2,4)] by simp
  ultimately show False by blast
qed

lemma generics_ok_frame:
  assumes G: "generics_ok w R B G" and f: "same_frame w w'" and L: "layout_ok w R B" and so: "same_outside A (wmem w) (wmem w')"
    and d: "\<And>p k b. (p, k, b) \<in> G \<Longrightarrow> b \<in> set (live (wheap w')) \<and> raw_span b \<inter> A = {}"
  shows "generics_ok w' R B G"
proof -
  have "client_block w' R B p k b" if m: "(p, k, b) \<in> G" for p k b
  proof -
    have c: "client_block w R B p k b" by (rule generics_okD(1) [OF G m])
    then have "generic_block (wheap w') p k b"
      using d [OF m] by (intro generic_block_other(1) [OF layoutD(1) [OF L] _ _ so]) (auto simp: client_block_def)
    then show ?thesis using c infrastructure_frame [OF f] by (simp add: client_block_def)
  qed
  then show ?thesis using G by (auto simp: generics_ok_def)
qed

section \<open>The operations on the blocks of the client\<close>

definition keeps :: "world \<Rightarrow> world \<Rightarrow> (addr \<times> nat) set \<Rightarrow> bool" where
  "keeps w w' O' \<longleftrightarrow> (\<forall>(q, m) \<in> O'. load_bytes (wmem w') q m = load_bytes (wmem w) q m)"

lemma keepsI: "same_outside A (wmem w) (wmem w') \<Longrightarrow> (\<And>q m. (q, m) \<in> O' \<Longrightarrow> span q m \<inter> A = {}) \<Longrightarrow> keeps w w' O'"
  unfolding keeps_def using same_outside_load_bytes by blast

lemma keeps_same [simp]: "wmem w' = wmem w \<Longrightarrow> keeps w w' O'"
  by (simp add: keeps_def)

lemma keeps_trans: "keeps w w1 O' \<Longrightarrow> keeps w1 w2 O' \<Longrightarrow> keeps w w2 O'"
  by (fastforce simp: keeps_def)

lemma keeps_subset: "keeps w w' O' \<Longrightarrow> P \<subseteq> O' \<Longrightarrow> keeps w w' P"
  by (auto simp: keeps_def)

lemma owned_frame: "same_frame w w' \<Longrightarrow> client_owned sch w' D G = client_owned sch w D G"
  by (simp add: client_owned_def pool_block_frame same_frameD)

lemma owned_take:
  assumes inv: "world_inv sch w D F R B" and j: "j < nb w" and x: "x \<in> D j"
  shows "client_owned sch w (D(j := D j - {x})) G = insert (base_of w j + ucast x, esz sch j) (client_owned sch w D G)"
proof -
  have "x \<in> set (block_offsets (esz sch j) (bsz w div esz sch j))"
    using bucket_okD(5) [OF world_invD(4) [OF inv j]] x by blast
  then have "pool_block sch w (D(j := D j - {x})) i y \<longleftrightarrow> pool_block sch w D i y \<or> i = j \<and> y = x" for i y
    using j by (auto simp: pool_block_def)
  then show ?thesis by (auto simp: client_owned_def)
qed

lemma taken_disjoint:
  assumes inv: "world_inv sch w D F R B" and G: "generics_ok w R B G" and j: "j < nb w" and x: "x \<in> D j"
    and o: "(q, m) \<in> client_owned sch w D G"
  shows "span q m \<inter> span (base_of w j + ucast x) (esz sch j) = {}"
proof -
  have x': "x \<in> set (block_offsets (esz sch j) (bsz w div esz sch j))"
    using bucket_okD(5) [OF world_invD(4) [OF inv j]] x by blast
  from o show ?thesis
  proof (cases rule: owned_cases)
    case (pool i y)
    then show ?thesis unfolding pool(2,3)
      using j x x' by (intro pool_blocks_disjoint [OF inv]) (auto simp: pool_block_def)
  next
    case (generic k b)
    have "pool_block sch w (\<lambda>_. {}) j x" using j x' by (simp add: pool_block_def)
    from pool_not_client [OF inv this generics_okD(1) [OF G generic(1)]] show ?thesis using generic(2) by blast
  qed
qed

lemma new_generic_disjoint:
  assumes inv: "world_inv sch w D F R B" and G: "generics_ok w R B G" and c: "client_block w R B p k b"
    and b: "\<And>q j d. (q, j, d) \<in> G \<Longrightarrow> d \<noteq> b" and o: "(q, m) \<in> client_owned sch w D G"
  shows "span q m \<inter> span p (unat k) = {}"
  using o
proof (cases rule: owned_cases)
  case (pool i y)
  then show ?thesis using pool_not_client [OF inv pool(1) c] by simp
next
  case (generic j d)
  note L = world_invD(1) [OF inv] note C = generics_okD(1) [OF G generic(1)]
  have "raw_span d \<inter> raw_span b = {}"
    using C c b [OF generic(1)] by (intro raws_disjoint [OF layoutD(1) [OF L]]) (auto simp: client_block_def)
  then show ?thesis using client_span [OF L C] client_span [OF L c] generic(2) by blast
qed

lemma serves_holds:
  assumes inv: "world_inv sch w D F R B" and G: "generics_ok w R B G" and n: "n \<noteq> 0"
    and s: "serves sch n k w p w' D R B"
  shows "keeps w w' (client_owned sch w D G) \<and>
    (p = 0 \<and> client_holds sch w' (client_owned sch w D G) \<or>
     (\<exists>m. p \<noteq> 0 \<and> IsAligned p (2 ^ k) \<and> unat n \<le> m \<and> client_holds sch w' (insert (p, m) (client_owned sch w D G)) \<and>
        (\<forall>(q, l) \<in> client_owned sch w D G. span q l \<inter> span p m = {})))"
proof -
  note L = world_invD(1) [OF inv]
  have f: "same_frame w w'" using s by (simp add: serves_def)
  consider (pool) j x where "p = base_of w j + ucast x" "p \<noteq> 0" "takes sch w w' j x D R B" "unat n \<le> esz sch j" "IsAligned p (2 ^ k)"
    | (generic) b F' where "p \<noteq> 0" "b \<notin> set (live (wheap w))" "live (wheap w') = b # live (wheap w)"
        "generic_block (wheap w') p n b" "IsAligned p (2 ^ k)" "same_outside (raw_span b) (wmem w) (wmem w')"
        "world_inv sch w' D F' R B"
    | (failed) F' where "p = 0" "wmem w' = wmem w" "live (wheap w') = live (wheap w)" "world_inv sch w' D F' R B"
    using s unfolding serves_def by blast
  then show ?thesis
  proof cases
    case pool
    then obtain F' where T: "j < nb w" "x \<in> D j" "wheap w' = wheap w" "world_inv sch w' (D(j := D j - {x})) F' R B"
      unfolding takes_def by blast
    have "generics_ok w' R B G" using G T(3) infrastructure_frame [OF f] by (auto simp: generics_ok_def client_block_def)
    moreover have "client_owned sch w' (D(j := D j - {x})) G = insert (p, esz sch j) (client_owned sch w D G)"
      unfolding owned_frame [OF f] pool(1) by (rule owned_take [where ?F = F, OF inv T(1,2)])
    ultimately have "client_holds sch w' (insert (p, esz sch j) (client_owned sch w D G))" using T(4) unfolding client_holds_def by metis
    moreover have "\<forall>(q, l) \<in> client_owned sch w D G. span q l \<inter> span p (esz sch j) = {}"
      unfolding pool(1) using taken_disjoint [OF inv G T(1,2)] by blast
    ultimately show ?thesis using pool T(3) by (intro conjI keeps_same) auto
  next
    case generic
    have live: "d \<in> set (live (wheap w)) \<and> d \<noteq> b" if "(q, j, d) \<in> G" for q j d
      using generics_okD(1) [OF G that] generic(2) by (auto simp: client_block_def generic_block_def)
    have ib: "b \<notin> infrastructure w R B"
      using infrastructure_live [OF L, of b] generic(2) by (auto simp: generic_block_def)
    have apart: "raw_span d \<inter> raw_span b = {}" if "d \<in> set (live (wheap w))" "d \<noteq> b" for d
      using that generic(3,4) generic_block_apart [OF layoutD(1) [OF world_invD(1) [OF generic(7)]] generic(4), of d] by auto
    have G': "generics_ok w' R B G"
      using live apart generic(3) by (intro generics_ok_frame [OF G f L generic(6)]) auto
    have c: "client_block w' R B p n b" using generic(4) n ib infrastructure_frame [OF f] by (simp add: client_block_def)
    have "generics_ok w' R B (insert (p, n, b) G)"
      using G' c live unfolding generics_ok_def by (auto simp: inj_on_def)
    moreover have "client_owned sch w' D (insert (p, n, b) G) = insert (p, unat n) (client_owned sch w D G)"
      unfolding owned_frame [OF f] by (auto simp: client_owned_def)
    ultimately have "client_holds sch w' (insert (p, unat n) (client_owned sch w D G))" using generic(7) unfolding client_holds_def by metis
    moreover have d: "span q l \<inter> span p (unat n) = {}" if "(q, l) \<in> client_owned sch w D G" for q l
      using new_generic_disjoint [OF generic(7) G' c, of q l] live that owned_frame [OF f] by auto
    moreover have "keeps w w' (client_owned sch w D G)"
    proof (rule keepsI [OF generic(6)])
      fix q m assume "(q, m) \<in> client_owned sch w D G"
      then show "span q m \<inter> raw_span b = {}"
      proof (cases rule: owned_cases)
        case (pool i x)
        have "raw_span B \<inter> raw_span b = {}"
          using layoutD(10) [OF L] ib by (intro apart) (auto simp: generic_block_def infrastructure_def)
        then show ?thesis using pool_span(2) [OF inv pool(1)] buffer_in_raw [OF L] pool(2,3) by blast
      next
        case (generic j d)
        then show ?thesis using client_span [OF L generics_okD(1) [OF G generic(1)]] apart live [OF generic(1)] by blast
      qed
    qed
    ultimately show ?thesis using generic(1,5) by (intro conjI disjI2 exI [of _ "unat n"]) auto
  next
    case failed
    have "generics_ok w' R B G"
      using generics_okD(1) [OF G] failed
      by (intro generics_ok_frame [OF G f L, of "{}"]) (auto simp: client_block_def generic_block_def)
    then have "client_holds sch w' (client_owned sch w D G)" using failed(4) owned_frame [OF f] unfolding client_holds_def by metis
    then show ?thesis using failed by simp
  qed
qed

text \<open>
  The outcome of a request for \<open>n\<close> bytes aligned to \<open>2^k\<close> when the client holds \<open>O'\<close>: nothing the client holds is
  changed; the result is null, or a new block that is aligned, large enough and apart from all others.
\<close>

definition alloc_outcome :: "partitioning \<Rightarrow> size_t \<Rightarrow> nat \<Rightarrow> world \<Rightarrow> (addr \<times> nat) set \<Rightarrow> addr \<Rightarrow> world \<Rightarrow> bool" where
  "alloc_outcome sch n k w O' p w' \<longleftrightarrow> same_frame w w' \<and> keeps w w' O' \<and>
    (p = 0 \<and> client_holds sch w' O' \<or>
     (\<exists>m. p \<noteq> 0 \<and> IsAligned p (2 ^ k) \<and> unat n \<le> m \<and> client_holds sch w' (insert (p, m) O') \<and>
        (\<forall>(q, l) \<in> O'. span q l \<inter> span p m = {})))"

lemma serves_outcome:
  assumes "world_inv sch w D F R B" "generics_ok w R B G" "n \<noteq> 0" "serves sch n k w p w' D R B"
  shows "alloc_outcome sch n k w (client_owned sch w D G) p w'"
  using serves_holds [OF assms] assms(4) by (simp add: alloc_outcome_def serves_def)

lemma Allocate_holds:
  assumes h: "client_holds sch w O'" and k: "k \<le> 12" and n: "n \<noteq> 0" "unat n + 4111 < 2 ^ 64"
    and ok: "size_request_ok sch (Align n (2 ^ k))"
  obtains p w' where "Allocate sch env st t n (2 ^ k) w = Inr (p, w')" "alloc_outcome sch n k w O' p w'"
proof -
  from h obtain D F R B G where I: "world_inv sch w D F R B" "generics_ok w R B G" "O' = client_owned sch w D G"
    unfolding client_holds_def by blast
  obtain p w' where "Allocate sch env st t n (2 ^ k) w = Inr (p, w')" and s: "serves sch n k w p w' D R B"
    using Allocate_serves [OF I(1) k n ok] by blast
  then show ?thesis using that serves_outcome [OF I(1,2) n(1) s] unfolding I(3) by blast
qed

lemma generic_alloc_holds:
  assumes h: "client_holds sch w O'" and k: "k \<le> 12" and n: "n \<noteq> 0" "unat n + 4111 < 2 ^ 64"
    and r: "GenericAllocator_Alloc env n (2 ^ k) (wheap w) = (p, g)"
  shows "alloc_outcome sch n k w O' p (w\<lparr>wheap := g\<rparr>)"
proof -
  from h obtain D F R B G where I: "world_inv sch w D F R B" "generics_ok w R B G" "O' = client_owned sch w D G"
    unfolding client_holds_def by blast
  have "serves sch n k w p (w\<lparr>wheap := g\<rparr>) D R B"
    using generic_alloc_world [OF I(1) k n(2) r] unfolding serves_def by auto
  then show ?thesis using serves_outcome [OF I(1,2) n(1)] unfolding I(3) by blast
qed

lemma owned_release:
  assumes inv: "world_inv sch w D F R B" and G: "generics_ok w R B G" and pb: "pool_block sch w D i x"
  shows "client_owned sch w (D(i := insert x (D i))) G = client_owned sch w D G - {(base_of w i + ucast x, esz sch i)}"
proof -
  let ?D = "D(i := insert x (D i))" and ?b = "(base_of w i + ucast x, esz sch i)"
  have m: "pool_block sch w ?D j y \<longleftrightarrow> pool_block sch w D j y \<and> (j, y) \<noteq> (i, x)" for j y
    by (auto simp: pool_block_def)
  have inj: "(j, y) = (i, x)" if "pool_block sch w D j y" "base_of w j + ucast y = base_of w i + ucast x" for j y
    using pool_ptr_eq [OF inv _ _ _ _ that(2)] that(1) pb by (auto simp: pool_block_def)
  have notG: "(p, unat k) \<noteq> ?b" if "(p, k, b) \<in> G" for p k b
  proof
    assume e: "(p, unat k) = ?b"
    have "0 < unat k" using generics_okD(1) [OF G that] by (simp add: client_block_def unat_gt_0)
    then show False using pool_not_client [OF inv pb generics_okD(1) [OF G that]] e span_nonempty by auto
  qed
  have "{(base_of w j + ucast y, esz sch j) |j y. pool_block sch w ?D j y} =
      {(base_of w j + ucast y, esz sch j) |j y. pool_block sch w D j y} - {?b}"
    unfolding m by (auto dest: inj)
  moreover have "?b \<notin> (\<lambda>(p, k, b). (p, unat k)) ` G" using notG by fastforce
  ultimately show ?thesis unfolding client_owned_def by blast
qed

lemma owned_drop:
  assumes inv: "world_inv sch w D F R B" and G: "generics_ok w R B G" and g: "(p, k, b) \<in> G"
  shows "client_owned sch w D (G - {(p, k, b)}) = client_owned sch w D G - {(p, unat k)}"
proof -
  have k: "0 < unat k" using generics_okD(1) [OF G g] by (simp add: client_block_def unat_gt_0)
  then have p: "p \<in> span p (unat k)" by simp
  have 1: "(base_of w i + ucast x, esz sch i) \<noteq> (p, unat k)" if "pool_block sch w D i x" for i x
    using pool_not_client [OF inv that generics_okD(1) [OF G g]] k span_nonempty by auto
  have 2: "(q, unat j) \<noteq> (p, unat k)" if "(q, j, d) \<in> G - {(p, k, b)}" for q j d
  proof -
    have "d \<noteq> b" using that generics_okD(2) [OF G g, of q j] by auto
    have "raw_span d \<inter> raw_span b = {}"
      using that generics_okD(1) [OF G, of q j d] generics_okD(1) [OF G g] \<open>d \<noteq> b\<close>
      by (intro raws_disjoint [OF layoutD(1) [OF world_invD(1) [OF inv]]]) (auto simp: client_block_def)
    moreover have "span q (unat j) \<subseteq> raw_span d" "span p (unat k) \<subseteq> raw_span b"
      using client_span [OF world_invD(1) [OF inv] generics_okD(1) [OF G]] that g by auto
    moreover have "span p (unat k) \<noteq> {}" using k by (rule span_nonempty)
    ultimately show ?thesis by (auto simp: Int_absorb2 subset_iff disjoint_iff)
  qed
  have "(\<lambda>(p, k, b). (p, unat k)) ` G =
      insert (p, unat k) ((\<lambda>(p, k, b). (p, unat k)) ` (G - {(p, k, b)}))"
    using arg_cong [OF insert_Diff [OF g], of "image (\<lambda>(p, k, b). (p, unat k))"] by (simp only: image_insert prod.case)
  moreover have "(p, unat k) \<notin> (\<lambda>(p, k, b). (p, unat k)) ` (G - {(p, k, b)})"
    using 2 by fastforce
  moreover have "(p, unat k) \<notin> {(base_of w i + ucast x, esz sch i) |i x. pool_block sch w D i x}"
    using 1 by fastforce
  ultimately show ?thesis unfolding client_owned_def by blast
qed

text \<open>What a free writes is apart from the blocks that stay with the client.\<close>

lemma store_raw_disjoint:
  assumes inv: "world_inv sch w D F R B" and G: "generics_ok w R B G" and i: "i < 62" "in_use (caches w i t)"
    and o: "(q, m) \<in> client_owned sch w D G"
  shows "span q m \<inter> raw_span (R t i) = {}"
  using o
proof (cases rule: owned_cases)
  case (pool j y)
  note L = world_invD(1) [OF inv]
  have "raw_span B \<inter> raw_span (R t i) = {}"
    using layout_store(2) [OF L i] by (intro raws_disjoint [OF layoutD(1,10) [OF L] layout_store(3) [OF L i]]) simp
  then show ?thesis using pool_span(2) [OF inv pool(1)] buffer_in_raw [OF L] pool(2,3) by blast
next
  case (generic k b)
  note L = world_invD(1) [OF inv] note C = generics_okD(1) [OF G generic(1)]
  have "raw_span b \<inter> raw_span (R t i) = {}" using i by (intro client_raw [OF L C]) (auto simp: infrastructure_def)
  then show ?thesis using client_span [OF L C] generic(2) by blast
qed

lemma free_writes_apart:
  assumes inv: "world_inv sch w D F R B" and G: "generics_ok w R B G" and pb: "pool_block sch w D i x"
    and o: "(q, m) \<in> client_owned sch w D G - {(base_of w i + ucast x, esz sch i)}"
  shows "span q m \<inter> free_writes w t i x = {}"
proof -
  note L = world_invD(1) [OF inv]
  have i: "i < nb w" using pb by (simp add: pool_block_def)
  have i62: "i < 62" using i layoutD(3) [OF L] by simp
  note ok = world_invD(4) [OF inv i]
  have st: "span q m \<inter> store_span (caches w i t) = {}"
  proof (cases "in_use (caches w i t)")
    case True
    then show ?thesis using store_raw_disjoint [OF inv G i62 True, of q m] o store_in_raw(2) [OF L i62 True] by blast
  qed (simp add: store_span_def)
  have ln: "span q m \<inter> span (base_of w i + ucast y) 8 = {}" if y: "y = x \<or> y \<in> D i" for y
  proof -
    have "span q m \<inter> span (base_of w i + ucast y) (esz sch i) = {}"
    proof (cases "y = x")
      case True
      have "(base_of w i + ucast x, esz sch i) \<in> client_owned sch w D G" using pb by (auto simp: client_owned_def)
      then show ?thesis using owned_disjoint [OF inv G _ _, of q m] o True by blast
    next
      case False
      then show ?thesis using taken_disjoint [OF inv G i, of y q m] y o by blast
    qed
    moreover have "span (base_of w i + ucast y) 8 \<subseteq> span (base_of w i + ucast y) (esz sch i)"
      using esz_pos [OF inv i] by (rule span_mono)
    ultimately show ?thesis by blast
  qed
  have "set (cached (wmem w) (caches w i t)) \<subseteq> D i" using bucket_ok_cacheD(3) [OF ok] .
  then show ?thesis using st ln unfolding free_writes_def links_def by fastforce
qed

lemma Free_holds:
  assumes h: "client_holds sch w O'" and o: "(p, n) \<in> O'"
  shows "\<exists>w'. Allocator_Free t p w = Inr w' \<and> client_holds sch w' (O' - {(p, n)}) \<and> keeps w w' (O' - {(p, n)})"
proof -
  from h obtain D F R B G where I: "world_inv sch w D F R B" "generics_ok w R B G" "O' = client_owned sch w D G"
    unfolding client_holds_def by blast
  note L = world_invD(1) [OF I(1)]
  from o have "(p, n) \<in> client_owned sch w D G" using I(3) by simp
  then show ?thesis
  proof (cases rule: owned_cases)
    case (pool i x)
    obtain w' F' where W: "Allocator_Free t p w = Inr w'" "world_inv sch w' (D(i := insert x (D i))) F' R B"
      "live (wheap w') = live (wheap w)" "same_frame w w'" "same_outside (free_writes w t i x) (wmem w) (wmem w')"
      using Free_pool_block [OF I(1) pool(1)] unfolding pool(2) by blast
    have "b \<in> set (live (wheap w')) \<and> raw_span b \<inter> free_writes w t i x = {}" if "(q, k, b) \<in> G" for q k b
    proof -
      have C: "client_block w R B q k b" by (rule generics_okD(1) [OF I(2) that])
      have i: "i < nb w" using pool(1) by (simp add: pool_block_def)
      have "raw_span b \<inter> touched w t i = {}"
        using C i layoutD(3) [OF L]
        by (intro touched_other [OF L i, of q k]) (auto simp: client_block_def infrastructure_def)
      then show ?thesis using free_writes_touched [OF I(1) pool(1)] C W(3) by (auto simp: client_block_def generic_block_def)
    qed
    then have "generics_ok w' R B G" by (intro generics_ok_frame [OF I(2) W(4) L W(5)])
    moreover have "client_owned sch w' (D(i := insert x (D i))) G = O' - {(p, n)}"
      using owned_release [OF I(1,2) pool(1)] owned_frame [OF W(4)] I(3) pool(2,3) by simp
    ultimately have "client_holds sch w' (O' - {(p, n)})" using W(2) unfolding client_holds_def by metis
    moreover have "keeps w w' (O' - {(p, n)})"
      using free_writes_apart [OF I(1,2) pool(1)] unfolding I(3) pool(2,3) by (rule keepsI [OF W(5)])
    ultimately show ?thesis using W(1) by blast
  next
    case (generic k b)
    note C = generics_okD(1) [OF I(2) generic(1)]
    obtain w' where W: "Allocator_Free t p w = Inr w'" "world_inv sch w' D F R B" "same_frame w w'" "wmem w' = wmem w"
      "set (live (wheap w')) = set (live (wheap w)) - {b}"
      using Free_client_block [OF I(1) C] by blast
    let ?G = "G - {(p, k, b)}"
    have "generics_ok w R B ?G" using I(2) by (auto simp: generics_ok_def inj_on_def)
    then have "generics_ok w' R B ?G"
    proof (rule generics_ok_frame [OF _ W(3) L, of _ "{}"])
      fix q j d assume d: "(q, j, d) \<in> ?G"
      then have "d \<noteq> b" using generics_okD(2) [OF I(2) generic(1), of q j] by auto
      then show "d \<in> set (live (wheap w')) \<and> raw_span d \<inter> {} = {}"
        using generics_okD(1) [OF I(2), of q j d] d W(5) by (auto simp: client_block_def generic_block_def)
    qed (simp add: W(4))
    moreover have "client_owned sch w' D ?G = O' - {(p, n)}"
      using owned_drop [OF I(1,2) generic(1)] owned_frame [OF W(3)] I(3) generic(2) by simp
    ultimately have "client_holds sch w' (O' - {(p, n)})" using W(2) unfolding client_holds_def by metis
    then show ?thesis using W(1,4) by simp
  qed
qed

section \<open>Writes of the client\<close>

lemma bucket_ok_frame_links:
  assumes ok: "bucket_ok e n m b c free dead" and so: "same_outside A m m'"
    and A: "links (pData b) free \<inter> A = {}" "\<And>t. store_span (c t) \<inter> A = {}"
  shows "bucket_ok e n m' b c free dead"
proof -
  have c: "cached m' (c t) = cached m (c t)" for t
    by (rule cached_frame' [OF bucket_ok_cacheD(1) [OF ok] so A(2)])
  have "chain m' (pData b) (head b) free" using chain_frame [OF so A(1)] bucket_okD(2) [OF ok] by simp
  then show ?thesis using ok unfolding bucket_ok_def c by simp
qed

lemma world_inv_write:
  assumes inv: "world_inv sch w D F R B" and g: "generic_block (wheap w) q k b"
    and b: "b \<in> infrastructure w R B \<Longrightarrow> q = pBuffer (alloc w) \<and> k = word_of_nat (nb w * bsz w) \<and> b = B"
    and so: "same_outside A (wmem w) m" and A: "A \<subseteq> span q (unat k)"
    and lk: "\<And>i x. i < nb w \<Longrightarrow> x \<in> D i \<Longrightarrow> span (base_of w i + ucast x) 8 \<inter> A = {}"
    and st: "\<And>i t. i < 62 \<Longrightarrow> in_use (caches w i t) \<Longrightarrow> raw_span (R t i) \<inter> A = {}"
  shows "world_inv sch (set_wmem m w) D F R B"
proof -
  let ?w = "set_wmem m w"
  note I = world_invD [OF inv] note L = I(1) note l = layoutD [OF L]
  note W = generic_write [OF l(1) g same_outside_mono [OF so A]]
  have e: "caches ?w = caches w" "base_of ?w = base_of w" "alloc ?w = alloc w" "wheap ?w = (wheap w)\<lparr>hmem := m\<rparr>" "tls ?w = tls w"
    by (simp_all add: caches_def base_of_def fun_eq_iff set_wmem_def)
  have gb: "generic_block ((wheap w)\<lparr>hmem := m\<rparr>) (pBuffer (alloc w)) (word_of_nat (nb w * bsz w)) B"
  proof (cases "b = B")
    case True then show ?thesis using b W(1) by (auto simp: infrastructure_def)
  next
    case False then show ?thesis using W(4) [OF l(10)] by simp
  qed
  have gs: "generic_block ((wheap w)\<lparr>hmem := m\<rparr>) p n (R t i)"
    if "i < 62" "in_use (caches w i t)" "generic_block (wheap w) p n (R t i)" for p n t i
  proof (rule W(4) [OF that(3)])
    have "R t i \<in> infrastructure w R B" using that by (auto simp: infrastructure_def)
    then show "R t i \<noteq> b" using b layout_store(2) [OF L that(1,2)] by auto
  qed
  have "layout_ok ?w R B" using L W(2) gb gs unfolding layout_ok_def e by simp
  moreover have "bucket_ok (esz sch i) (bsz w div esz sch i) m (buckets (alloc w) ! i) (caches w i) (F i) (D i)"
    if i: "i < nb w" for i
  proof (rule bucket_ok_frame_links [OF I(4) [OF i] so])
    have i62: "i < 62" using i l(3) by simp
    have "span (base_of w i + ucast x) 8 \<inter> A = {}" if "x \<in> set (F i)" for x
      using lk [OF i, of x] that bucket_okD(6) [OF I(4) [OF i]] by blast
    then show "links (pData (buckets (alloc w) ! i)) (F i) \<inter> A = {}" unfolding links_def I(3) [OF i] by blast
    fix t show "store_span (caches w i t) \<inter> A = {}"
    proof (cases "in_use (caches w i t)")
      case True
      then show ?thesis using store_in_raw(2) [OF L i62 True] st [OF i62 True] by blast
    qed (simp add: store_span_def)
  qed
  ultimately show ?thesis using I(2,3) unfolding world_inv_def e by simp
qed

lemma holds_write:
  assumes h: "client_holds sch w O'" and o: "(p, n) \<in> O'" and so: "same_outside (span p n) (wmem w) m"
  shows "client_holds sch (set_wmem m w) O'" "keeps w (set_wmem m w) (O' - {(p, n)})"
proof -
  let ?w = "set_wmem m w"
  from h obtain D F R B G where I: "world_inv sch w D F R B" "generics_ok w R B G" "O' = client_owned sch w D G"
    unfolding client_holds_def by blast
  note L = world_invD(1) [OF I(1)] note l = layoutD [OF L]
  have o': "(p, n) \<in> client_owned sch w D G" using o I(3) by simp
  have m: "wmem ?w = m" "live (wheap ?w) = live (wheap w)" by (simp_all add: set_wmem_def)
  have f: "same_frame w ?w" by (simp add: same_frame_def set_wmem_def caches_def)
  have lk: "span (base_of w i + ucast x) 8 \<inter> span p n = {}" if "i < nb w" "x \<in> D i" for i x
    using taken_disjoint [OF I(1,2) that o'] span_mono [OF esz_pos [OF I(1) that(1)], of "base_of w i + ucast x"] by blast
  have st: "raw_span (R t i) \<inter> span p n = {}" if "i < 62" "in_use (caches w i t)" for i t
    using store_raw_disjoint [OF I(1,2) that o'] by blast
  obtain q k b where g: "generic_block (wheap w) q k b" "span p n \<subseteq> span q (unat k)"
    "b \<in> infrastructure w R B \<Longrightarrow> q = pBuffer (alloc w) \<and> k = word_of_nat (nb w * bsz w) \<and> b = B"
    "\<And>q' k' b'. (q', k', b') \<in> G \<Longrightarrow> b' = b \<Longrightarrow> q' = q \<and> k' = k"
    using o'
  proof (cases rule: owned_cases)
    case (pool i x)
    have "span p n \<subseteq> span (pBuffer (alloc w)) (unat (word_of_nat (nb w * bsz w) :: u64))"
      using pool_span(2) [OF I(1) pool(1)] pool(2,3) unat_total [OF l(3,8)] by (simp add: buffer_span_def del: of_nat_mult)
    moreover have "b' \<noteq> B" if "(q', k', b') \<in> G" for q' k' b'
      using generics_okD(1) [OF I(2) that] by (auto simp: client_block_def infrastructure_def)
    ultimately show ?thesis by (intro that [OF l(10)]) blast+
  next
    case (generic k b)
    note C = generics_okD(1) [OF I(2) generic(1)]
    have "q' = p \<and> k' = k" if "(q', k', b') \<in> G" "b' = b" for q' k' b'
      using generics_okD(2) [OF I(2) generic(1)] that by blast
    then show ?thesis using C generic(2) by (intro that [of p k b]) (auto simp: client_block_def)
  qed
  have inv: "world_inv sch ?w D F R B" by (rule world_inv_write [OF I(1) g(1) g(3) so g(2) lk st])
  have "generics_ok ?w R B G"
  proof -
    note W = generic_write [OF l(1) g(1) same_outside_mono [OF so g(2)]]
    have "client_block ?w R B q' k' b'" if x: "(q', k', b') \<in> G" for q' k' b'
    proof -
      have C: "client_block w R B q' k' b'" by (rule generics_okD(1) [OF I(2) x])
      then have "generic_block (wheap ?w) q' k' b'"
        using W(1) W(4) [of q' k' b'] g(4) [OF x] by (cases "b' = b") (auto simp: client_block_def set_wmem_def)
      then show ?thesis using C infrastructure_frame [OF f] by (simp add: client_block_def)
    qed
    then show ?thesis using I(2) by (auto simp: generics_ok_def)
  qed
  then show "client_holds sch ?w O'" using inv owned_frame [OF f] I(3) unfolding client_holds_def by metis
  show "keeps w ?w (O' - {(p, n)})"
  proof (rule keepsI)
    show "same_outside (span p n) (wmem w) (wmem ?w)" using so m by simp
    fix q m assume "(q, m) \<in> O' - {(p, n)}"
    then show "span q m \<inter> span p n = {}" using owned_disjoint [OF I(1,2) _ o', of q m] I(3) by blast
  qed
qed

section \<open>Sizes and reallocation\<close>

lemma GetUsableSize_holds:
  assumes h: "client_holds sch w O'" and o: "(p, n) \<in> O'"
  shows "GetUsableSize sch p w = Inr (word_of_nat n) \<and> n < 2 ^ 64"
proof -
  from h obtain D F R B G where I: "world_inv sch w D F R B" "generics_ok w R B G" "O' = client_owned sch w D G"
    unfolding client_holds_def by blast
  note L = world_invD(1) [OF I(1)]
  from o have "(p, n) \<in> client_owned sch w D G" using I(3) by simp
  then show ?thesis
  proof (cases rule: owned_cases)
    case (pool i x)
    have i: "i < nb w" and x: "x \<in> set (block_offsets (esz sch i) (bsz w div esz sch i))"
      using pool(1) by (auto simp: pool_block_def)
    have "unat (word_of_nat i :: u64) = i" using i layoutD(3) [OF L] by (intro unat_of_nat_small) simp
    then have "(word_of_nat i :: u64) < bucketsCount (alloc w)" using i by (simp add: word_less_nat_alt)
    then have "GetUsableSize sch p w = Inr (GetBucketSizeInBytesByIndex sch (word_of_nat i))"
      using block_ptr(4) [OF I(1) i x] block_ptr_nonnull(2) [OF I(1) i x] pool(2) by (simp add: GetUsableSize_def)
    then show ?thesis unfolding pool(3) esz_def using unat_u64_less by simp
  next
    case (generic k b)
    note C = generics_okD(1) [OF I(2) generic(1)] note O = client_outside_buffer [OF L C]
    have "GetUsableSize sch p w = Inr k"
      using O GetUsableSpace_block [of "wheap w" p k b] C by (simp add: GetUsableSize_def client_block_def)
    then show ?thesis unfolding generic(2) using unat_u64_less by simp
  qed
qed

end
