(* ===== verification/Allocator_Realloc.thy ===== *)
theory Allocator_Realloc
  imports Allocator_Blocks
begin

text \<open>
  \<open>Allocator::Realloc\<close>: growing and shrinking of blocks in the hands of the client, on every branch.
\<close>

section \<open>Routing by address\<close>

text \<open>The address is routed to the generic allocator.\<close>

definition routes_generic :: "world \<Rightarrow> addr \<Rightarrow> bool" where
  "routes_generic w p \<longleftrightarrow> IsReadable p \<and>
     (\<exists>i. FindBucket p (alloc w) = Inr i \<and> \<not> i < bucketsCount (alloc w))"

lemma holdsE:
  assumes "client_holds sch w O'"
  obtains D F R B G where "world_inv sch w D F R B" "generics_ok w R B G" "O' = client_owned sch w D G"
  using assms unfolding client_holds_def by blast

lemma holds_route:
  assumes h: "client_holds sch w O'" and o: "(p, n) \<in> O'"
  obtains (pool) i where "IsReadable p" "FindBucket p (alloc w) = Inr i" "i < bucketsCount (alloc w)"
      "unat (GetBucketSizeInBytesByIndex sch i) = n"
  | (generic) i where "IsReadable p" "FindBucket p (alloc w) = Inr i" "\<not> i < bucketsCount (alloc w)"
      "GenericAllocator_GetUsableSpace p (wheap w) = word_of_nat n" "n < 2 ^ 64" "n \<noteq> 0"
proof -
  obtain D F R B G where I: "world_inv sch w D F R B" "generics_ok w R B G" "O' = client_owned sch w D G"
    using h by (rule holdsE)
  note L = world_invD(1) [OF I(1)]
  from o have "(p, n) \<in> client_owned sch w D G" using I(3) by simp
  then show ?thesis
  proof (cases rule: owned_cases)
    case (pool i x)
    have i: "i < nb w" and x: "x \<in> set (block_offsets (esz sch i) (bsz w div esz sch i))"
      using pool(1) by (auto simp: pool_block_def)
    have "unat (word_of_nat i :: u64) = i" using i layoutD(3) [OF L] by (intro unat_of_nat_small) simp
    then have "(word_of_nat i :: u64) < bucketsCount (alloc w)" using i by (simp add: word_less_nat_alt)
    then show ?thesis
      using block_ptr(4) [OF I(1) i x] block_ptr_nonnull(2) [OF I(1) i x] pool(2,3)
      by (intro that(1) [of "word_of_nat i"]) (simp_all add: esz_def)
  next
    case (generic k b)
    note C = generics_okD(1) [OF I(2) generic(1)] note O = client_outside_buffer [OF L C]
    have "GenericAllocator_GetUsableSpace p (wheap w) = k"
      using GetUsableSpace_block [of "wheap w" p k b] C by (simp add: client_block_def)
    moreover have "k \<noteq> 0" using C by (simp add: client_block_def)
    ultimately show ?thesis using O generic(2) unat_u64_less [of k] by (intro that(2)) (auto simp: unat_eq_zero)
  qed
qed

lemma holds_pos: "client_holds sch w O' \<Longrightarrow> (p, n) \<in> O' \<Longrightarrow> 0 < n"
  using owned_pos by (auto elim!: holdsE)

lemma route_frame:
  assumes "client_holds sch w O'" "client_holds sch w' P" "same_frame w w'"
  shows "FindBucket p (alloc w') = FindBucket p (alloc w)" "bucketsCount (alloc w') = bucketsCount (alloc w)"
proof -
  obtain D F R B G where "world_inv sch w D F R B" using assms(1) by (rule holdsE)
  then have 1: "bucketsDataBegin (alloc w) ! 0 = pBuffer (alloc w)" by (rule layoutD(5) [OF world_invD(1)])
  obtain D' F' R' B' G' where "world_inv sch w' D' F' R' B'" using assms(2) by (rule holdsE)
  then have "bucketsDataBegin (alloc w') ! 0 = pBuffer (alloc w')" by (rule layoutD(5) [OF world_invD(1)])
  then show "FindBucket p (alloc w') = FindBucket p (alloc w)" "bucketsCount (alloc w') = bucketsCount (alloc w)"
    using assms(3) 1 by (simp_all add: FindBucket_def same_frame_def)
qed

lemma Free_generic_route:
  assumes "IsReadable p" "FindBucket p (alloc w) = Inr i" "\<not> i < bucketsCount (alloc w)"
  shows "Allocator_Free t p w = bindE (GenericAllocator_Free p (wheap w)) (\<lambda>h. Inr (w\<lparr>wheap := h\<rparr>))"
  using assms by (simp add: Allocator_Free_def)

section \<open>Copy and release\<close>

lemma copy_and_free:
  assumes h: "client_holds sch w (insert (p2, m) O')" and o: "(p, n) \<in> O'" and c: "unat c \<le> n" "unat c \<le> m"
    and d: "\<forall>(q, l) \<in> O'. span q l \<inter> span p2 m = {}"
  obtains w' where "Allocator_Free t p (set_wmem (memmove (wmem w) p2 p c) w) = Inr w'"
    "client_holds sch w' (insert (p2, m) (O' - {(p, n)}))" "keeps w w' (O' - {(p, n)})"
    "load_bytes (wmem w') p2 (unat c) = load_bytes (wmem w) p (unat c)"
proof -
  let ?w = "set_wmem (memmove (wmem w) p2 p c) w"
  have so: "same_outside (span p2 m) (wmem w) (memmove (wmem w) p2 p c)"
    using same_outside_mono [OF same_outside_memmove span_mono [OF c(2)]] .
  have h2: "client_holds sch ?w (insert (p2, m) O')" by (rule holds_write(1) [OF h _ so]) simp
  have wm: "wmem ?w = memmove (wmem w) p2 p c" by (simp add: set_wmem_def)
  have "same_outside (span p2 m) (wmem w) (wmem ?w)" using so by (simp only: wm)
  then have k: "keeps w ?w O'" using d by (intro keepsI) auto
  have ne: "(p2, m) \<noteq> (p, n)"
  proof
    assume "(p2, m) = (p, n)"
    then have "span p n = {}" using d o by auto
    then show False using span_nonempty holds_pos [OF h, of p n] o by blast
  qed
  obtain w' where W: "Allocator_Free t p ?w = Inr w'" "client_holds sch w' (insert (p2, m) O' - {(p, n)})"
    "keeps ?w w' (insert (p2, m) O' - {(p, n)})"
    using Free_holds [OF h2, of p n t] o by blast
  have S: "insert (p2, m) O' - {(p, n)} = insert (p2, m) (O' - {(p, n)})" using ne by blast
  have "keeps w ?w (O' - {(p, n)})" using k by (rule keeps_subset) blast
  moreover have "keeps ?w w' (O' - {(p, n)})" using W(3) unfolding S by (rule keeps_subset) blast
  moreover have "load_bytes (wmem w') p2 m = load_bytes (wmem ?w) p2 m"
    using W(3) unfolding S by (simp add: keeps_def)
  then have "take (unat c) (load_bytes (wmem w') p2 m) = take (unat c) (load_bytes (wmem ?w) p2 m)" by simp
  then have "load_bytes (wmem w') p2 (unat c) = load_bytes (wmem ?w) p2 (unat c)"
    using c(2) load_bytes_take by metis
  ultimately have "keeps w w' (O' - {(p, n)})" "load_bytes (wmem w') p2 (unat c) = load_bytes (wmem w) p (unat c)"
    using keeps_trans [of w ?w] by (simp_all add: wm memmove_copies)
  with W(1) W(2) [unfolded S] show ?thesis by (rule that)
qed

section \<open>Realloc\<close>

text \<open>
  The outcome of moving block \<open>(p, n)\<close> of the client to at least \<open>k\<close> bytes: null with nothing changed, or a
  new aligned block with the old contents, the old block released and the others untouched.
\<close>

definition moved :: "partitioning \<Rightarrow> size_t \<Rightarrow> nat \<Rightarrow> world \<Rightarrow> (addr \<times> nat) set \<Rightarrow> addr \<Rightarrow> nat \<Rightarrow> addr \<Rightarrow> world \<Rightarrow> bool" where
  "moved sch bytes k w O' p n p2 w' \<longleftrightarrow>
     p2 = 0 \<and> client_holds sch w' O' \<and> keeps w w' O' \<or>
     (\<exists>m. p2 \<noteq> 0 \<and> IsAligned p2 (2 ^ k) \<and> unat bytes \<le> m \<and> client_holds sch w' (insert (p2, m) (O' - {(p, n)})) \<and>
        keeps w w' (O' - {(p, n)}) \<and>
        load_bytes (wmem w') p2 (min n (unat bytes)) = load_bytes (wmem w) p (min n (unat bytes)))"

lemma moved_by_copy:
  assumes h: "client_holds sch w O'" and o: "(p, n) \<in> O'" and a: "alloc_outcome sch bytes k w O' p2 w1" and p2: "p2 \<noteq> 0"
    and c: "unat c = min n (unat bytes)"
  obtains w' where "Allocator_Free t p (set_wmem (memmove (wmem w1) p2 p c) w1) = Inr w'"
    "moved sch bytes k w O' p n p2 w'"
proof -
  obtain m where A: "keeps w w1 O'" "IsAligned p2 (2 ^ k)" "unat bytes \<le> m" "client_holds sch w1 (insert (p2, m) O')"
    "\<forall>(q, l) \<in> O'. span q l \<inter> span p2 m = {}"
    using a p2 unfolding alloc_outcome_def by blast
  have "unat c \<le> n" "unat c \<le> m" using c A(3) by auto
  from copy_and_free [OF A(4) o this A(5), of t] obtain w' where
    W: "Allocator_Free t p (set_wmem (memmove (wmem w1) p2 p c) w1) = Inr w'"
    "client_holds sch w' (insert (p2, m) (O' - {(p, n)}))" "keeps w1 w' (O' - {(p, n)})"
    "load_bytes (wmem w') p2 (unat c) = load_bytes (wmem w1) p (unat c)" .
  have "keeps w w' (O' - {(p, n)})" by (rule keeps_trans [OF keeps_subset [OF A(1)] W(3)]) blast
  moreover have "load_bytes (wmem w1) p (unat c) = load_bytes (wmem w) p (unat c)"
  proof -
    have "load_bytes (wmem w1) p n = load_bytes (wmem w) p n" using A(1) o by (auto simp: keeps_def)
    then show ?thesis using \<open>unat c \<le> n\<close> load_bytes_take by metis
  qed
  ultimately have "moved sch bytes k w O' p n p2 w'"
    using W(2,4) A(2,3) p2 c unfolding moved_def by auto
  with W(1) show ?thesis by (rule that)
qed

lemma Realloc_pool:
  assumes h: "client_holds sch w O'" and o: "(p, n) \<in> O'" and k: "k \<le> 12" and b: "bytes \<noteq> 0" "unat bytes + 4111 < 2 ^ 64"
    and ok: "size_request_ok sch (Align bytes (2 ^ k))"
    and r: "IsReadable p" "FindBucket p (alloc w) = Inr i" "i < bucketsCount (alloc w)"
      "unat (GetBucketSizeInBytesByIndex sch i) = n" and big: "n < unat bytes"
  shows "\<exists>p2 w'. Allocator_Realloc sch env t p bytes (2 ^ k) w = Inr (p2, w') \<and> moved sch bytes k w O' p n p2 w'"
proof -
  obtain p2 w1 where A: "Allocator_Alloc sch env t bytes (2 ^ k) w = Inr (p2, w1)" "alloc_outcome sch bytes k w O' p2 w1"
    unfolding Allocator_Alloc_def by (rule Allocate_holds [OF h k b ok])
  have e: "Allocator_Realloc sch env t p bytes (2 ^ k) w =
      (if p2 = 0 then Inr (0, w1)
       else bindE (Allocator_Free t p (set_wmem (memmove (wmem w1) p2 p (GetBucketSizeInBytesByIndex sch i)) w1)) (\<lambda>w. Inr (p2, w)))"
    using r big b A(1) by (simp add: Allocator_Realloc_def Let_def word_le_nat_alt)
  show ?thesis
  proof (cases "p2 = 0")
    case True
    then show ?thesis using e A(2) by (auto simp: moved_def alloc_outcome_def)
  next
    case False
    have "unat (GetBucketSizeInBytesByIndex sch i) = min n (unat bytes)" using r(4) big by simp
    from moved_by_copy [OF h o A(2) False this, of t] obtain w' where
      W: "Allocator_Free t p (set_wmem (memmove (wmem w1) p2 p (GetBucketSizeInBytesByIndex sch i)) w1) = Inr w'"
        "moved sch bytes k w O' p n p2 w'" .
    show ?thesis using e False W by (intro exI [of _ p2] exI [of _ w']) simp
  qed
qed

lemma GetUsableSpace_keeps:
  assumes h: "client_holds sch w O'" and a: "alloc_outcome sch bytes k w O' p2 w1" and o: "(p, n) \<in> O'"
    and g: "IsReadable p" "FindBucket p (alloc w) = Inr i" "\<not> i < bucketsCount (alloc w)"
  shows "GenericAllocator_GetUsableSpace p (wheap w1) = word_of_nat n \<and> FindBucket p (alloc w1) = Inr i \<and>
    \<not> i < bucketsCount (alloc w1) \<and> n < 2 ^ 64"
proof -
  obtain P where P: "client_holds sch w1 P" "(p, n) \<in> P" and f: "same_frame w w1"
    using a o unfolding alloc_outcome_def by blast
  note R = route_frame [OF h P(1) f]
  from P show ?thesis
  proof (cases rule: holds_route)
    case (pool j)
    then show ?thesis using g R by simp
  next
    case (generic j)
    then show ?thesis using g R by simp
  qed
qed

text \<open>From the generic allocator to a pool: a failed request is not noticed and the copy goes through null.\<close>

lemma Realloc_to_pool:
  assumes h: "client_holds sch w O'" and o: "(p, n) \<in> O'" and k: "k \<le> 12" and b: "bytes \<noteq> 0" "unat bytes + 4111 < 2 ^ 64"
    and ok: "size_request_ok sch (Align bytes (2 ^ k))"
    and r: "IsReadable p" "FindBucket p (alloc w) = Inr i" "\<not> i < bucketsCount (alloc w)"
    and s: "GetBucketIndexBySize sch (Align bytes (2 ^ k)) < bucketsCount (alloc w)"
  shows "(\<exists>w'. Allocator_Alloc sch env t bytes (2 ^ k) w = Inr (0, w') \<and>
      Allocator_Realloc sch env t p bytes (2 ^ k) w = Inl Null_Access) \<or>
    (\<exists>p2 w'. Allocator_Realloc sch env t p bytes (2 ^ k) w = Inr (p2, w') \<and> p2 \<noteq> 0 \<and> moved sch bytes k w O' p n p2 w')"
proof -
  obtain p2 w1 where A: "Allocator_Alloc sch env t bytes (2 ^ k) w = Inr (p2, w1)" "alloc_outcome sch bytes k w O' p2 w1"
    unfolding Allocator_Alloc_def by (rule Allocate_holds [OF h k b ok])
  let ?c = "min (word_of_nat n) bytes :: size_t"
  note U = GetUsableSpace_keeps [OF h A(2) o r]
  have n: "unat (word_of_nat n :: size_t) = n" using U by (intro unat_of_nat_small) simp
  then have c: "unat ?c = min n (unat bytes)" by (simp add: min_def word_le_nat_alt)
  then have c0: "?c \<noteq> 0" using holds_pos [OF h o] b(1) by (metis min_def unat_0 not_gr0 unat_eq_zero)
  have e: "Allocator_Realloc sch env t p bytes (2 ^ k) w =
      (if p2 = 0 then Inl Null_Access
       else bindE (GenericAllocator_Free p (wheap (set_wmem (memmove (wmem w1) p2 p ?c) w1)))
              (\<lambda>h. Inr (p2, (set_wmem (memmove (wmem w1) p2 p ?c) w1)\<lparr>wheap := h\<rparr>)))"
    using r s b A(1) U c0 by (simp add: Allocator_Realloc_def Let_def)
  show ?thesis
  proof (cases "p2 = 0")
    case True
    then show ?thesis using e A(1) by simp
  next
    case False
    from moved_by_copy [OF h o A(2) False c, of t] obtain w' where
      W: "Allocator_Free t p (set_wmem (memmove (wmem w1) p2 p ?c) w1) = Inr w'" "moved sch bytes k w O' p n p2 w'" .
    have "Allocator_Free t p (set_wmem (memmove (wmem w1) p2 p ?c) w1) =
        bindE (GenericAllocator_Free p (wheap (set_wmem (memmove (wmem w1) p2 p ?c) w1)))
          (\<lambda>h. Inr ((set_wmem (memmove (wmem w1) p2 p ?c) w1)\<lparr>wheap := h\<rparr>))"
      using r(1) U by (intro Free_generic_route [of p _ i]) (simp_all add: set_wmem_def)
    then obtain g' where G': "GenericAllocator_Free p (wheap (set_wmem (memmove (wmem w1) p2 p ?c) w1)) = Inr g'"
        "w' = (set_wmem (memmove (wmem w1) p2 p ?c) w1)\<lparr>wheap := g'\<rparr>"
      using W(1) by (auto simp: bindE_def split: sum.splits)
    show ?thesis using e W(2) False G' by (intro disjI2 exI [of _ p2] exI [of _ w']) simp
  qed
qed

lemma Realloc_generic:
  assumes h: "client_holds sch w O'" and o: "(p, n) \<in> O'" and k: "k \<le> 12" and b: "bytes \<noteq> 0" "unat bytes + 4111 < 2 ^ 64"
    and r: "IsReadable p" "FindBucket p (alloc w) = Inr i" "\<not> i < bucketsCount (alloc w)"
    and s: "\<not> GetBucketIndexBySize sch (Align bytes (2 ^ k)) < bucketsCount (alloc w)"
  shows "\<exists>p2 w'. Allocator_Realloc sch env t p bytes (2 ^ k) w = Inr (p2, w') \<and> moved sch bytes k w O' p n p2 w'"
proof -
  obtain p2 g where G: "GenericAllocator_Alloc env bytes (2 ^ k) (wheap w) = (p2, g)" by fastforce
  note A = generic_alloc_holds [OF h k b G]
  let ?w1 = "w\<lparr>wheap := g\<rparr>" and ?c = "min (word_of_nat n) bytes :: size_t"
  note U = GetUsableSpace_keeps [OF h A o r]
  have p0: "p \<noteq> 0" using r(1) by (auto simp: IsReadable_def kMaxValidAlignment_def)
  have n: "unat (word_of_nat n :: size_t) = n" using U by (intro unat_of_nat_small) simp
  then have c: "unat ?c = min n (unat bytes)" by (simp add: min_def word_le_nat_alt)
  have e: "Allocator_Realloc sch env t p bytes (2 ^ k) w =
      (if p2 = 0 then Inr (0, ?w1)
       else bindE (GenericAllocator_Free p (g\<lparr>hmem := memmove (hmem g) p2 p ?c\<rparr>)) (\<lambda>h. Inr (p2, w\<lparr>wheap := h\<rparr>)))"
    using r s b G U p0 by (simp add: Allocator_Realloc_def Let_def GenericAllocator_Realloc_def bindE_def split: sum.splits)
  show ?thesis
  proof (cases "p2 = 0")
    case True
    then show ?thesis using e A by (auto simp: moved_def alloc_outcome_def)
  next
    case False
    from moved_by_copy [OF h o A False c, of t] obtain w' where
      W: "Allocator_Free t p (set_wmem (memmove (wmem ?w1) p2 p ?c) ?w1) = Inr w'" "moved sch bytes k w O' p n p2 w'" .
    have "Allocator_Free t p (set_wmem (memmove (wmem ?w1) p2 p ?c) ?w1) =
        bindE (GenericAllocator_Free p (g\<lparr>hmem := memmove (hmem g) p2 p ?c\<rparr>)) (\<lambda>h. Inr (w\<lparr>wheap := h\<rparr>))"
      using r(1) U by (subst Free_generic_route [of p _ i]) (simp_all add: set_wmem_def)
    then obtain g' where G': "GenericAllocator_Free p (g\<lparr>hmem := memmove (hmem g) p2 p ?c\<rparr>) = Inr g'" "w' = w\<lparr>wheap := g'\<rparr>"
      using W(1) by (auto simp: bindE_def split: sum.splits)
    show ?thesis using e W(2) False G' by (intro exI [of _ p2] exI [of _ w']) simp
  qed
qed

end
