(* ===== verification/Allocator_Start.thy ===== *)
theory Allocator_Start
  imports Allocator_Realloc
begin

text \<open>
  \<open>Allocator::Init\<close> builds a state in which all blocks of all buckets are free and the client holds none.
\<close>

section \<open>The loop over the buckets\<close>

definition bucket_made :: "partitioning \<Rightarrow> world \<Rightarrow> nat \<Rightarrow> bool" where
  "bucket_made sch w i \<longleftrightarrow> pData (buckets (alloc w) ! i) = base_of w i \<and> bucketsDataBegin (alloc w) ! i = base_of w i \<and>
     chain (wmem w) (base_of w i) (head (buckets (alloc w) ! i)) (block_offsets (esz sch i) (bsz w div esz sch i))"

text \<open>The parts of the state that the loop does not change.\<close>

definition same_setup :: "world \<Rightarrow> world \<Rightarrow> bool" where
  "same_setup w w' \<longleftrightarrow> tls w' = tls w \<and> live (wheap w') = live (wheap w) \<and> bucketsCount (alloc w') = bucketsCount (alloc w) \<and>
     bucketSizeInBytes (alloc w') = bucketSizeInBytes (alloc w) \<and> pBuffer (alloc w') = pBuffer (alloc w) \<and>
     length (buckets (alloc w')) = length (buckets (alloc w)) \<and>
     length (bucketsDataBegin (alloc w')) = length (bucketsDataBegin (alloc w))"

lemma same_setup_trans: "same_setup w w' \<Longrightarrow> same_setup w' w'' \<Longrightarrow> same_setup w w''"
  by (simp add: same_setup_def)

lemma same_setupD:
  assumes "same_setup w w'"
  shows "nb w' = nb w" "bsz w' = bsz w" "base_of w' = base_of w"
  using assms by (auto simp: same_setup_def base_of_def fun_eq_iff)

text \<open>\<open>N\<close> buckets of \<open>S\<close> bytes from address \<open>P\<close> on. Buffers lie far below the top of the address space, so that
  the pointer arithmetic of \<open>Create\<close> does not wrap.\<close>

definition grid_ok :: "partitioning \<Rightarrow> addr \<Rightarrow> nat \<Rightarrow> nat \<Rightarrow> bool" where
  "grid_ok sch P S N \<longleftrightarrow> N \<le> 62 \<and> S \<le> 2 ^ 32 \<and> unat P + 2 ^ 40 < 2 ^ 64 \<and> (\<forall>i < N. 8 \<le> esz sch i \<and> esz sch i \<le> S)"

lemma grid_okD:
  assumes "grid_ok sch P S N"
  shows "N \<le> 62" "S \<le> 2 ^ 32" "unat P + 2 ^ 40 < 2 ^ 64" "i < N \<Longrightarrow> 8 \<le> esz sch i \<and> esz sch i \<le> S"
  using assms by (auto simp: grid_ok_def)

lemma grid_base:
  assumes G: "grid_ok sch P S N" and i: "i < N"
  shows "unat (P + word_of_nat (i * S)) = unat P + i * S" "i * S + S \<le> N * S" "N * S \<le> 2 ^ 38"
proof -
  show "i * S + S \<le> N * S" using mult_le_mono1 [of "i + 1" N S] i by simp
  have "N * S \<le> 62 * 2 ^ 32" using grid_okD(1,2) [OF G] by (rule mult_le_mono)
  then show N: "N * S \<le> 2 ^ 38" by simp
  have "unat (word_of_nat (i * S) :: addr) = i * S" using grid_okD(1,2) [OF G] i by (intro unat_total) auto
  moreover have "unat P + i * S < 2 ^ 64" using N grid_okD(3) [OF G] \<open>i * S + S \<le> N * S\<close> by simp
  ultimately show "unat (P + word_of_nat (i * S)) = unat P + i * S" by (simp add: unat_add_small del: of_nat_mult)
qed

lemma grid_apart:
  assumes G: "grid_ok sch P S N" and "i < N" "j < N" "i \<noteq> j"
  shows "span (P + word_of_nat (i * S)) S \<inter> span (P + word_of_nat (j * S)) S = {}"
proof -
  have "i * S + S \<le> j * S \<or> j * S + S \<le> i * S"
    using assms(4) mult_le_mono1 [of "i + 1" j S] mult_le_mono1 [of "j + 1" i S] by (cases "i < j") auto
  then show ?thesis
    using grid_base [OF G assms(2)] grid_base [OF G assms(3)] grid_okD(3) [OF G]
      span_disjoint_nat [of "P + word_of_nat (i * S)" S "P + word_of_nat (j * S)" S]
      span_disjoint_nat [of "P + word_of_nat (j * S)" S "P + word_of_nat (i * S)" S]
    by (auto simp del: of_nat_mult)
qed

lemma Init_step:
  assumes G: "grid_ok sch P S N" and w: "pBuffer (alloc w) = P" "bsz w = S" "length (buckets (alloc w)) = 62" "length (bucketsDataBegin (alloc w)) = 62"
    and j: "j < N" and made: "\<And>i. i < j \<Longrightarrow> bucket_made sch w i"
  obtains w' where "Init_loop sch (j # is) w = Init_loop sch is w'" "same_setup w w'" "\<And>i. i < Suc j \<Longrightarrow> bucket_made sch w' i"
    "same_outside (span P (N * S)) (wmem w) (wmem w')"
proof -
  let ?e = "GetBucketSizeInBytesByIndex sch (word_of_nat j)"
  let ?b = "(buckets (alloc w) ! j)\<lparr>pData := P + word_of_nat (j * S), pDataEnd := P + word_of_nat (j * S) + bucketSizeInBytes (alloc w)\<rparr>"
  note g = grid_base [OF G j] note e = grid_okD(4) [OF G j, unfolded esz_def] note top = grid_okD(3) [OF G]
  have b: "base_of w i = P + word_of_nat (i * S)" for i by (simp add: base_of_def w)
  have j62: "j < 62" using j grid_okD(1) [OF G] by simp
  have pe: "unat (pDataEnd ?b) = unat (pData ?b) + S" using g w(2) top by (simp add: unat_add_small del: of_nat_mult)
  have "unat (pData ?b) + 3 * S < 2 ^ 64" using g top grid_okD(2) [OF G] by (simp del: of_nat_mult)
  from PoolBucket_Create_chain [OF _ _ grid_okD(2) [OF G] pe this, of ?e "wmem w"] e obtain b' m' where
    C: "PoolBucket_Create ?e ?b (wmem w) = Some (b', m')"
      "chain m' (pData b') (head b') (block_offsets (unat ?e) (S div unat ?e))" "pData b' = pData ?b"
      "same_outside (span (pData ?b) S) (wmem w) m'" by blast
  define w' where "w' = set_wmem m' (w\<lparr>alloc := (alloc w)\<lparr>buckets := (buckets (alloc w))[j := b'],
     bucketsDataBegin := (bucketsDataBegin (alloc w))[j := pData b']\<rparr>\<rparr>)"
  have "P + word_of_nat j * bucketSizeInBytes (alloc w) = P + word_of_nat (j * S)" using w(2) by auto
  then have "Init_loop sch (j # is) w = Init_loop sch is w'"
    using C(1) w(1) by (simp add: Let_def w'_def)
  moreover have st: "same_setup w w'" by (simp add: same_setup_def w'_def set_wmem_def)
  moreover have "bucket_made sch w' i" if "i < Suc j" for i
  proof (cases "i = j")
    case True
    then show ?thesis using C(2,3) w j62 same_setupD [OF st] by (simp add: bucket_made_def b w'_def set_wmem_def esz_def)
  next
    case False
    then have i: "i < j" using that by simp
    have m: "bucket_made sch w i" by (rule made [OF i])
    have geo: "geometry (esz sch i) (S div esz sch i)"
      using grid_okD(2,4) [OF G] i j by (auto simp: geometry_def intro: le_trans [OF div_times_less_eq_dividend])
    have "links (base_of w i) (block_offsets (esz sch i) (S div esz sch i)) \<inter> span (pData ?b) S = {}"
      using links_block_offsets [OF geo div_times_less_eq_dividend, of "base_of w i"] grid_apart [OF G, of i j] i j b by auto
    from chain_frame [OF C(4) this]
    show ?thesis using m False i j62 w same_setupD [OF st] by (simp add: bucket_made_def b w'_def set_wmem_def)
  qed
  moreover have "span (pData ?b) S \<subseteq> span P (N * S)" using span_offset_subset [OF g(2), of P] by (simp del: of_nat_mult)
  then have "same_outside (span P (N * S)) (wmem w) (wmem w')"
    using same_outside_mono [OF C(4)] by (simp add: w'_def set_wmem_def)
  ultimately show ?thesis by (rule that)
qed

lemma Init_loop_made:
  assumes "grid_ok sch P S N" and "pBuffer (alloc w) = P" "bsz w = S" "length (buckets (alloc w)) = 62" "length (bucketsDataBegin (alloc w)) = 62"
    and "j \<le> N" and "\<And>i. i < j \<Longrightarrow> bucket_made sch w i"
  shows "\<exists>w'. Init_loop sch [j..<N] w = Inr w' \<and> same_setup w w' \<and> (\<forall>i < N. bucket_made sch w' i) \<and>
    same_outside (span P (N * S)) (wmem w) (wmem w')"
  using assms
proof (induction "N - j" arbitrary: j w)
  case 0
  then have "j = N" by simp
  then show ?case using 0 by (intro exI [of _ w]) (auto simp: same_setup_def)
next
  case (Suc d)
  then have j: "j < N" by simp
  obtain w1 where W: "Init_loop sch (j # [Suc j..<N]) w = Init_loop sch [Suc j..<N] w1" "same_setup w w1"
    "\<And>i. i < Suc j \<Longrightarrow> bucket_made sch w1 i" "same_outside (span P (N * S)) (wmem w) (wmem w1)"
    using Init_step [OF Suc.prems(1-5) j Suc.prems(7), of "[Suc j..<N]"] by blast
  have "d = N - Suc j" "pBuffer (alloc w1) = P" "bsz w1 = S" "length (buckets (alloc w1)) = 62"
    "length (bucketsDataBegin (alloc w1)) = 62" "Suc j \<le> N"
    using Suc.hyps(2) Suc.prems(2-5) W(2) j by (auto simp: same_setup_def)
  from Suc.hyps(1) [OF this(1) Suc.prems(1) this(2-6) W(3)] obtain w' where
    V: "Init_loop sch [Suc j..<N] w1 = Inr w'" "same_setup w1 w'" "\<forall>i < N. bucket_made sch w' i"
    "same_outside (span P (N * S)) (wmem w1) (wmem w')" by blast
  have "Init_loop sch [j..<N] w = Inr w'" using W(1) V(1) j by (simp only: upt_conv_Cons)
  moreover have "same_outside (span P (N * S)) (wmem w) (wmem w')" using same_outside_trans [OF W(4) V(4)] by simp
  ultimately show ?case using same_setup_trans [OF W(2) V(2)] V(3) by blast
qed

section \<open>The state after Init\<close>

text \<open>No thread has a cache.\<close>

definition no_caches :: "world \<Rightarrow> bool" where
  "no_caches w \<longleftrightarrow> (\<forall>t. length (tls w t) = 62 \<and> (\<forall>c \<in> set (tls w t). length (storageL0 c) = SMM_MAX_CACHE_ITEMS_COUNT \<and>
     maxElementsCount c = 0 \<and> numElementsL1 c = 0 \<and> numElementsL0 c = 0))"

lemma no_cachesD:
  assumes "no_caches w" "i < 62"
  shows "length (storageL0 (caches w i t)) = SMM_MAX_CACHE_ITEMS_COUNT" "\<not> in_use (caches w i t)"
    "numElementsL1 (caches w i t) = 0" "numElementsL0 (caches w i t) = 0"
proof -
  have "tls w t ! i \<in> set (tls w t)" using assms by (simp add: no_caches_def)
  then show "length (storageL0 (caches w i t)) = SMM_MAX_CACHE_ITEMS_COUNT" "\<not> in_use (caches w i t)"
    "numElementsL1 (caches w i t) = 0" "numElementsL0 (caches w i t) = 0"
    using assms(1) by (auto simp: no_caches_def caches_def)
qed

lemma fresh_bucket_ok:
  assumes "no_caches w" "i < 62" "geometry e n" "chain m (pData b) (head b) (block_offsets e n)"
  shows "bucket_ok e n m b (caches w i) (block_offsets e n) (set (block_offsets e n))"
proof -
  have c: "cached m (caches w i t) = []" for t
    using no_cachesD [OF assms(1,2)] by (simp add: cached_def l1_items_def l0_items_def)
  have "cache_wf e n (pData b) (caches w i t)" for t
    using no_cachesD [OF assms(1,2), of t] by (simp add: cache_wf_def)
  then show ?thesis using assms(3,4) geometry_distinct [OF assms(3)] by (simp add: bucket_ok_def shares_def c)
qed

lemma made_world:
  assumes G: "grid_ok sch (pBuffer (alloc w)) (bsz w) (nb w)" and N: "0 < nb w" and wf: "heap_wf (wheap w)"
    and S: "4096 dvd bsz w" "0 < bsz w" and P: "4096 dvd unat (pBuffer (alloc w))"
    and g: "generic_block (wheap w) (pBuffer (alloc w)) (word_of_nat (nb w * bsz w)) B"
    and l: "length (buckets (alloc w)) = 62" and c: "no_caches w" and made: "\<And>i. i < nb w \<Longrightarrow> bucket_made sch w i"
  shows "client_holds sch w {}"
proof -
  note g' = grid_okD [OF G]
  let ?D = "\<lambda>i. set (block_offsets (esz sch i) (bsz w div esz sch i))"
  have "bucketsDataBegin (alloc w) ! 0 = pBuffer (alloc w)" using made [OF N] by (simp add: bucket_made_def base_of_def)
  moreover have "\<forall>t. length (tls w t) = 62" using c by (simp add: no_caches_def)
  ultimately have "layout_ok w (\<lambda>_ _. B) B"
    using wf N g'(1,2) l S P g no_cachesD(2) [OF c] unfolding layout_ok_def by simp
  moreover have "esz sch i \<le> bsz w \<and> pData (buckets (alloc w) ! i) = base_of w i \<and>
      bucket_ok (esz sch i) (bsz w div esz sch i) (wmem w) (buckets (alloc w) ! i) (caches w i)
        (block_offsets (esz sch i) (bsz w div esz sch i)) (?D i)" if i: "i < nb w" for i
  proof -
    have "geometry (esz sch i) (bsz w div esz sch i)"
      using g'(2,4) i by (auto simp: geometry_def intro: le_trans [OF div_times_less_eq_dividend])
    then show ?thesis using made [OF i] g'(1,4) i by (auto simp: bucket_made_def intro!: fresh_bucket_ok [OF c])
  qed
  ultimately have "world_inv sch w ?D (\<lambda>i. block_offsets (esz sch i) (bsz w div esz sch i)) (\<lambda>_ _. B) B"
    unfolding world_inv_def by blast
  moreover have "generics_ok w (\<lambda>_ _. B) B {}" by (simp add: generics_ok_def)
  moreover have "client_owned sch w ?D {} = {}" by (simp add: client_owned_def pool_block_def)
  ultimately show ?thesis unfolding client_holds_def by (intro exI conjI) (assumption, assumption, rule sym)
qed

text \<open>\<open>bucketSizeInBytes\<close> rounded up to a page.\<close>

lemma page_size:
  assumes "unat s + 4095 < 2 ^ 64"
  shows "unat (Align s 4096) = (unat s + 4095) div 4096 * 4096"
  using unat_Align_pow2 [of 12 s] assms by simp

lemma Alloc_low:
  assumes "\<And>k b. unat (env k b) < 2 ^ 47" "GenericAllocator_Alloc env bytes 4096 h = (p, h')"
  shows "unat p < 2 ^ 48"
proof -
  obtain r h1 where m: "malloc env (bytes + (min_alignment 4096 + 15)) h = (r, h1)" by fastforce
  have r: "unat r < 2 ^ 47" using m assms(1) by (auto simp: malloc_def Let_def split: if_splits)
  then have r16: "unat (r + 16) = unat r + 16" by (simp add: unat_add_small)
  have "unat (Align (r + 16) 4096) = (unat (r + 16) + 4095) div 4096 * 4096" using r r16 by (intro page_size) simp
  also have "\<dots> \<le> unat r + 16 + 4095" unfolding r16 by (rule div_times_less_eq_dividend)
  finally have "unat (Align (r + 16) 4096) < 2 ^ 48" using r by simp
  moreover have "min_alignment 4096 = 4096" by (simp add: min_alignment_def kMinValidAlignment_def)
  then have "p = 0 \<or> p = Align (r + 16) 4096"
    using assms(2) m by (simp add: GenericAllocator_Alloc_eq Let_def split: if_splits)
  ultimately show ?thesis by auto
qed

lemma Init_holds:
  assumes wf: "heap_wf (wheap w)" and a: "bucketsCount (alloc w) = 0" "length (buckets (alloc w)) = 62" and c: "no_caches w"
    and n: "n \<noteq> 0" and s: "0 < unat s" "unat s + 4095 \<le> 2 ^ 32" and env: "\<And>k b. unat (env k b) < 2 ^ 47"
    and es: "\<And>i. i < min (unat n) 62 \<Longrightarrow> 8 \<le> esz sch i \<and> esz sch i \<le> unat (Align s 4096)"
  obtains (failed) "Allocator_Init sch env n s w = Inl Null_Access"
      "fst (GenericAllocator_Alloc env (word_of_nat (min (unat n) 62 * unat (Align s 4096))) 4096 (wheap w)) = 0"
  | (ready) w' where "Allocator_Init sch env n s w = Inr w'" "client_holds sch w' {}" "nb w' = min (unat n) 62" "bsz w' = unat (Align s 4096)"
      "live (wheap w') = live (snd (GenericAllocator_Alloc env (word_of_nat (min (unat n) 62 * unat (Align s 4096))) 4096 (wheap w)))"
proof -
  let ?N = "min (unat n) 62" and ?S = "Align s 4096"
  have S: "unat ?S = (unat s + 4095) div 4096 * 4096" using s by (intro page_size) simp
  then have S': "4096 dvd unat ?S" "0 < unat ?S" "unat ?S \<le> 2 ^ 32" using s by auto
  have n0: "0 < unat n" using n by (simp add: unat_gt_0)
  let ?c = "(if unat n \<ge> SMM_MAX_BUCKET_COUNT then 62 else n) :: u32"
  have N: "unat (ucast ?c :: size_t) = ?N" "0 < ?N" using n0 by (auto simp: SMM_MAX_BUCKET_COUNT_def)
  have tot: "?S * ucast ?c = word_of_nat (?N * unat ?S)" "unat (word_of_nat (?N * unat ?S) :: size_t) = ?N * unat ?S"
  proof -
    show "unat (word_of_nat (?N * unat ?S) :: size_t) = ?N * unat ?S" using S'(3) by (intro unat_total) auto
    have "(ucast ?c :: size_t) = word_of_nat ?N" using N(1) by (metis unat_word_of_nat_id)
    then show "?S * ucast ?c = word_of_nat (?N * unat ?S)" by (simp add: mult.commute)
  qed
  obtain p h where A: "GenericAllocator_Alloc env (?S * ucast ?c) 4096 (wheap w) = (p, h)" by fastforce
  let ?a = "(alloc w)\<lparr>bucketsCount := ucast ?c, bucketSizeInBytes := ?S, bucketsDataBegin := replicate 62 0,
     pBuffer := p, pBufferEnd := p + ?S * ucast ?c + 1\<rparr>"
  let ?w = "w\<lparr>wheap := h, alloc := ?a\<rparr>"
  have e: "Allocator_Init sch env n s w = (if p = 0 then Inl Null_Access else Init_loop sch [0..<?N] ?w)"
    using A n a(1) N(1) unfolding Allocator_Init_def Let_def kMaxValidAlignment_def SMM_MAX_BUCKET_COUNT_def by simp
  have "?N * unat ?S \<le> 62 * 2 ^ 32" using S'(3) by (intro mult_le_mono) auto
  then have rm: "unat (?S * ucast ?c) + 2 ^ 12 + 15 < 2 ^ 64" unfolding tot by simp
  have al: "min_alignment 4096 = 2 ^ 12" by (simp add: min_alignment_def kMinValidAlignment_def)
  show ?thesis
  proof (rule GenericAllocator_Alloc_cases [OF wf al _ rm A])
    show "(12 :: nat) < 64" by simp
    assume "p = 0" then show ?thesis using e A tot(1) by (intro failed) simp_all
  next
    fix b assume B: "p \<noteq> 0" "generic_block h p (?S * ucast ?c) b" "live h = b # live (wheap w)" "heap_wf h"
      "IsAligned p (min_alignment 4096)"
    have al: "4096 dvd unat p" using B(5) IsAligned_pow2 [of p 12] by (simp add: min_alignment_def kMinValidAlignment_def)
    have lo: "unat p < 2 ^ 48" by (rule Alloc_low [OF env A])
    have G: "grid_ok sch p (unat ?S) ?N" using S'(3) lo es by (simp add: grid_ok_def)
    obtain w' where W: "Init_loop sch [0..<?N] ?w = Inr w'" "same_setup ?w w'" "\<forall>i < ?N. bucket_made sch w' i"
      "same_outside (span p (?N * unat ?S)) (wmem ?w) (wmem w')"
      using Init_loop_made [OF G, of ?w 0] a(2) by auto
    note st = W(2) [unfolded same_setup_def]
    have nb: "nb w' = ?N" "bsz w' = unat ?S" "pBuffer (alloc w') = p" using st N(1) by simp_all
    have wh: "wheap w' = h\<lparr>hmem := wmem w', live := live h, tick := tick (wheap w')\<rparr>" using st by simp
    have gb: "generic_block (wheap w') p (?S * ucast ?c) b" "heap_wf (wheap w')"
      using generic_write(1,2) [OF B(4,2), of "wmem w'"] W(4) st
      by (simp_all add: generic_block_def heap_wf_def tot del: of_nat_mult)
    have "client_holds sch w' {}"
    proof (rule made_world)
      show "grid_ok sch (pBuffer (alloc w')) (bsz w') (nb w')" using G nb by simp
      show "generic_block (wheap w') (pBuffer (alloc w')) (word_of_nat (nb w' * bsz w')) b" using gb(1) nb tot(1) by simp
      show "no_caches w'" using c st by (simp add: no_caches_def)
      show "length (buckets (alloc w')) = 62" using st a(2) by simp
    qed (use nb N S' al gb W(3) in auto)
    moreover have "live (wheap w') = live (snd (GenericAllocator_Alloc env (word_of_nat (?N * unat ?S)) 4096 (wheap w)))"
      using st A unfolding tot(1) by simp
    ultimately show ?thesis using e W(1) B(1) nb by (intro ready) simp_all
  qed
qed

end
