(* ===== verification/Allocator_Properties.thy ===== *)
theory Allocator_Properties
  imports Allocator_Start
begin

text \<open>
  The properties of the allocator as its clients see it: allocation, release, reallocation, sizes and start.
\<close>

section \<open>When an allocation fails\<close>

lemma wheap_upd [simp]:
  "wheap (upd_stats f w) = wheap w" "wheap (upd_bucket_stats i g w) = wheap w" "wheap (set_bucket i b w) = wheap w"
  "wheap (set_tls t i c w) = wheap w"
  by (simp_all add: upd_stats_def upd_bucket_stats_def set_bucket_def set_tls_def Let_def)

lemma Allocate_loop_heap:
  assumes "Allocate_loop sch st al maxB i w = Some r" shows "wheap (snd r) = wheap w"
proof (rule Allocate_loop.raw_induct [where P = "\<lambda>sch st al maxB i w r. wheap (snd r) = wheap w", OF _ assms], goal_cases)
  case (1 f sch st al maxB i w r)
  note ih = 1(1)
  show ?case
  proof (cases "i < maxB \<and> fst (PoolBucket_Alloc (wmem w) (buckets (alloc w) ! unat i)) = 0")
    case True
    then show ?thesis using 1(2) by (auto simp: Let_def split: prod.splits if_splits dest: ih)
  next
    case False
    then show ?thesis using 1(2) by (auto simp: Let_def split: prod.splits if_splits)
  qed
qed

lemma Allocate_null:
  assumes "Allocate sch env st t n al w = Inr (0, w')" "n \<noteq> 0"
  shows "fst (GenericAllocator_Alloc env n al (wheap w)) = 0"
  using assms
  by (auto simp: Allocate_def Let_def split: if_splits prod.splits option.splits dest!: Allocate_loop_heap)

section \<open>An example state\<close>

text \<open>One page for each of two buckets, of 16 and of 32 bytes.\<close>

definition demo_world :: world where
  "demo_world = \<lparr>wheap = empty_heap, alloc = Allocator_ctor [] 0, tls = (\<lambda>_. replicate 62 TlsPoolBucket_zero)\<rparr>"

lemma demo_world_start:
  "heap_wf (wheap demo_world)" "bucketsCount (alloc demo_world) = 0" "length (buckets (alloc demo_world)) = 62"
  "no_caches demo_world"
  by (simp_all add: demo_world_def empty_heap_wf Allocator_ctor_def SMM_MAX_BUCKET_COUNT_def no_caches_def TlsPoolBucket_zero_def)

definition low_placement :: placement where
  "low_placement k n = 8192 + 65536 * word_of_nat (k mod 1024)"

lemma low_placement_low: "unat (low_placement k n) < 2 ^ 47"
proof -
  have "unat (low_placement k n) = 8192 + 65536 * (k mod 1024)"
    by (simp add: low_placement_def unat_word_ariths unat_of_nat)
  then show ?thesis using mod_less_divisor [of 1024 k] by simp
qed

lemma demo_sizes: "i < min (unat (2 :: u32)) 62 \<Longrightarrow>
    8 \<le> esz SMM_PL_PARTITIONING i \<and> esz SMM_PL_PARTITIONING i \<le> unat (Align 4096 4096 :: size_t)"
proof -
  assume "i < min (unat (2 :: u32)) 62"
  then have "i = 0 \<or> i = 1" by auto
  then show ?thesis using pl_size [of 0] pl_size [of 1] by (auto simp: esz_def Align_def)
qed

lemma demo_buffer:
  "GenericAllocator_Alloc low_placement (word_of_nat (min (unat (2 :: u32)) 62 * unat (Align 4096 4096 :: size_t))) 4096 empty_heap =
     (12288, empty_heap\<lparr>tick := 1, live := [(8192, 12303)], hmem := store64 (store64 (hmem empty_heap) 12272 8192) 12280 8192\<rparr>)"
  by (simp add: GenericAllocator_Alloc_eq malloc_def lawful_block_def low_placement_def empty_heap_def
        min_alignment_def kMinValidAlignment_def Align_def Let_def)

lemma demo_Init:
  obtains w where "Allocator_Init SMM_PL_PARTITIONING low_placement 2 4096 demo_world = Inr w"
    "client_holds SMM_PL_PARTITIONING w {}" "live (wheap w) = [(8192, 12303)]"
proof (rule Init_holds [where sch = SMM_PL_PARTITIONING and n = 2 and s = 4096, OF demo_world_start _ _ _ low_placement_low])
  fix i assume "i < min (unat (2 :: u32)) 62"
  then show "8 \<le> esz SMM_PL_PARTITIONING i \<and> esz SMM_PL_PARTITIONING i \<le> unat (Align 4096 4096 :: size_t)" by (rule demo_sizes)
next
  fix w assume "Allocator_Init SMM_PL_PARTITIONING low_placement 2 4096 demo_world = Inr w" "client_holds SMM_PL_PARTITIONING w {}"
    "live (wheap w) = live (snd (GenericAllocator_Alloc low_placement
       (word_of_nat (min (unat (2 :: u32)) 62 * unat (Align 4096 4096 :: size_t))) 4096 (wheap demo_world)))"
  moreover from this(3) have "live (wheap w) = [(8192, 12303)]"
    unfolding demo_world_def world.simps demo_buffer by simp
  ultimately show thesis by (intro that)
next
  assume "fst (GenericAllocator_Alloc low_placement
       (word_of_nat (min (unat (2 :: u32)) 62 * unat (Align 4096 4096 :: size_t))) 4096 (wheap demo_world)) = 0"
  moreover have "wheap demo_world = empty_heap" by (simp add: demo_world_def)
  ultimately show thesis using demo_buffer by (simp only: fst_conv) simp
qed simp_all

text \<open>A state in which the client holds a block of at least 20 bytes.\<close>

lemma demo_block_held:
  obtains w p m where "client_holds SMM_PL_PARTITIONING w {(p, m)}" "20 \<le> m"
proof -
  obtain w where w: "client_holds SMM_PL_PARTITIONING w {}" "live (wheap w) = [(8192, 12303)]" by (rule demo_Init)
  let ?env = "\<lambda>_ _. 131072 :: addr"
  have "size_request_ok SMM_PL_PARTITIONING (Align 20 (2 ^ 4))" by (simp add: size_request_ok_def Align_def)
  then obtain p w' where A: "Allocate SMM_PL_PARTITIONING ?env True 0 20 (2 ^ 4) w = Inr (p, w')"
    "alloc_outcome SMM_PL_PARTITIONING 20 4 w {} p w'"
    using Allocate_holds [OF w(1), of 4 20 ?env True 0] by auto
  have "p \<noteq> 0"
  proof
    assume "p = 0"
    then have "fst (GenericAllocator_Alloc ?env 20 (2 ^ 4) (wheap w)) = 0" using A(1) by (intro Allocate_null) auto
    then show False
      using w(2) by (simp add: GenericAllocator_Alloc_eq malloc_def lawful_block_def apart_def
        min_alignment_def kMinValidAlignment_def Align_def Let_def)
  qed
  then show ?thesis using A(2) that unfolding alloc_outcome_def by auto
qed

section \<open>The contract of an allocator\<close>

text \<open>
  What a client may rely on, stated for any state: \<open>has s O'\<close> says that the client holds the blocks \<open>O'\<close>, and
  \<open>bytes s p n\<close> are the contents of a block. Sequences of requests, writes and releases keep the blocks
  apart and their contents.
\<close>

datatype request = Req_alloc size_t nat | Req_free addr

locale block_store =
  fixes has :: "'s \<Rightarrow> (addr \<times> nat) set \<Rightarrow> bool"
    and bytes :: "'s \<Rightarrow> addr \<Rightarrow> nat \<Rightarrow> u8 list"
    and get :: "size_t \<Rightarrow> nat \<Rightarrow> 's \<Rightarrow> addr \<Rightarrow> 's \<Rightarrow> bool"
    and put :: "addr \<Rightarrow> 's \<Rightarrow> 's \<Rightarrow> bool"
    and legal :: "size_t \<Rightarrow> nat \<Rightarrow> bool"
  assumes has_apart: "has s O' \<Longrightarrow> (p, n) \<in> O' \<Longrightarrow> (q, m) \<in> O' \<Longrightarrow> (p, n) \<noteq> (q, m) \<Longrightarrow> span p n \<inter> span q m = {}"
    and has_pos: "has s O' \<Longrightarrow> (p, n) \<in> O' \<Longrightarrow> 0 < n"
    and get_total: "has s O' \<Longrightarrow> legal c k \<Longrightarrow> \<exists>p s'. get c k s p s'"
    and get_block: "has s O' \<Longrightarrow> legal c k \<Longrightarrow> get c k s p s' \<Longrightarrow>
      (p = 0 \<and> has s' O' \<or> (\<exists>m \<ge> unat c. p \<noteq> 0 \<and> p \<notin> fst ` O' \<and> has s' (insert (p, m) O'))) \<and>
      (\<forall>(q, l) \<in> O'. bytes s' q l = bytes s q l)"
    and put_total: "has s O' \<Longrightarrow> (p, n) \<in> O' \<Longrightarrow> \<exists>s'. put p s s'"
    and put_block: "has s O' \<Longrightarrow> (p, n) \<in> O' \<Longrightarrow> put p s s' \<Longrightarrow>
      has s' (O' - {(p, n)}) \<and> (\<forall>(q, l) \<in> O' - {(p, n)}. bytes s' q l = bytes s q l)"
begin

text \<open>An address names at most one block.\<close>

lemma block_unique:
  assumes "has s O'" "(p, n) \<in> O'" "(p, m) \<in> O'" shows "n = m"
proof (rule ccontr)
  assume "n \<noteq> m"
  then have "span p n \<inter> span p m = {}" using has_apart [OF assms] by simp
  moreover have "p \<in> span p n \<inter> span p m" using has_pos assms by simp
  ultimately show False by blast
qed

text \<open>Runs of the client: every request is legal and only held blocks are released.\<close>

inductive run :: "'s \<Rightarrow> (addr \<times> nat) set \<Rightarrow> request list \<Rightarrow> 's \<Rightarrow> (addr \<times> nat) set \<Rightarrow> bool" where
  run_nil: "has s O' \<Longrightarrow> run s O' [] s O'"
| run_null: "run s O' rs s' P \<Longrightarrow> legal n k \<Longrightarrow> get n k s' 0 s'' \<Longrightarrow> run s O' (rs @ [Req_alloc n k]) s'' P"
| run_get: "run s O' rs s' P \<Longrightarrow> legal n k \<Longrightarrow> get n k s' p s'' \<Longrightarrow> p \<noteq> 0 \<Longrightarrow> has s'' (insert (p, m) P) \<Longrightarrow> unat n \<le> m \<Longrightarrow>
    p \<notin> fst ` P \<Longrightarrow> run s O' (rs @ [Req_alloc n k]) s'' (insert (p, m) P)"
| run_put: "run s O' rs s' P \<Longrightarrow> (p, n) \<in> P \<Longrightarrow> put p s' s'' \<Longrightarrow> run s O' (rs @ [Req_free p]) s'' (P - {(p, n)})"

lemma run_has: "run s O' rs s' P \<Longrightarrow> has s' P"
proof (induction rule: run.induct)
  case (run_null s O' rs s' P n k s'')
  then show ?case using get_block [OF run_null.IH run_null.hyps(2,3)] by simp
next
  case (run_put s O' rs s' P p n s'')
  then show ?case using put_block by blast
qed simp_all

lemma run_extends:
  assumes "run s O' rs s' P"
  shows "legal n k \<Longrightarrow> \<exists>s'' Q. run s O' (rs @ [Req_alloc n k]) s'' Q"
    and "(p, n') \<in> P \<Longrightarrow> \<exists>s'' Q. run s O' (rs @ [Req_free p]) s'' Q"
proof -
  note h = run_has [OF assms]
  show "\<exists>s'' Q. run s O' (rs @ [Req_alloc n k]) s'' Q" if l: "legal n k"
  proof -
    obtain p s'' where g: "get n k s' p s''" using get_total [OF h l] by blast
    from get_block [OF h l g] show ?thesis using run_null [OF assms l] run_get [OF assms l g] g by blast
  qed
  show "\<exists>s'' Q. run s O' (rs @ [Req_free p]) s'' Q" if "(p, n') \<in> P"
    using put_total [OF h that] run_put [OF assms that] by blast
qed

text \<open>A block that is held at the start and never released keeps its bytes.\<close>

lemma run_keeps:
  "run s O' rs s' P \<Longrightarrow> (q, l) \<in> O' \<Longrightarrow> Req_free q \<notin> set rs \<Longrightarrow> (q, l) \<in> P \<and> bytes s' q l = bytes s q l"
proof (induction rule: run.induct)
  case (run_null s O' rs s' P n k s'')
  then show ?case using get_block [OF run_has [OF run_null.hyps(1)] run_null.hyps(2,3)] by auto
next
  case (run_get s O' rs s' P n k p s'' m)
  then show ?case using get_block [OF run_has [OF run_get.hyps(1)] run_get.hyps(2,3)] by auto
next
  case (run_put s O' rs s' P p n s'')
  then have "(q, l) \<in> P - {(p, n)}" by auto
  moreover from this have "bytes s'' q l = bytes s' q l"
    using put_block [OF run_has [OF run_put.hyps(1)] run_put.hyps(2,3)] by blast
  ultimately show ?case using run_put by auto
qed simp

end

section \<open>The allocator keeps the contract\<close>

text \<open>Requests that the allocator accepts: alignments up to a page, and sizes that neither wrap nor exceed the scheme.\<close>

definition legal_request :: "partitioning \<Rightarrow> size_t \<Rightarrow> nat \<Rightarrow> bool" where
  "legal_request sch n k \<longleftrightarrow> k \<le> 12 \<and> n \<noteq> 0 \<and> unat n + 4111 < 2 ^ 64 \<and> size_request_ok sch (Align n (2 ^ k))"

text \<open>Any thread asks, and the C library answers in any way.\<close>

definition some_alloc :: "partitioning \<Rightarrow> size_t \<Rightarrow> nat \<Rightarrow> world \<Rightarrow> addr \<Rightarrow> world \<Rightarrow> bool" where
  "some_alloc sch n k w p w' \<longleftrightarrow> (\<exists>t env. Allocator_Alloc sch env t n (2 ^ k) w = Inr (p, w'))"

definition some_free :: "addr \<Rightarrow> world \<Rightarrow> world \<Rightarrow> bool" where
  "some_free p w w' \<longleftrightarrow> (\<exists>t. Allocator_Free t p w = Inr w')"

lemma legal_outcome:
  assumes "client_holds sch w O'" "legal_request sch n k"
  obtains p w' where "Allocator_Alloc sch env t n (2 ^ k) w = Inr (p, w')" "alloc_outcome sch n k w O' p w'"
  unfolding Allocator_Alloc_def
  by (rule Allocate_holds [OF assms(1), of k n env True t]) (use assms(2) that in \<open>auto simp: legal_request_def Allocator_Alloc_def\<close>)

lemma outcome_fresh:
  assumes "alloc_outcome sch n k w O' p w'"
  shows "p = 0 \<and> client_holds sch w' O' \<or> (\<exists>m \<ge> unat n. p \<noteq> 0 \<and> p \<notin> fst ` O' \<and> client_holds sch w' (insert (p, m) O'))"
proof -
  have "p \<notin> fst ` O'" if h: "client_holds sch w' (insert (p, m) O')" and d: "\<forall>(q, l) \<in> O'. span q l \<inter> span p m = {}" for m
  proof
    assume "p \<in> fst ` O'"
    then obtain l where l: "(p, l) \<in> O'" by force
    have "p \<in> span p l \<inter> span p m" using holds_pos [OF h, of p l] holds_pos [OF h, of p m] l by simp
    then show False using d l by blast
  qed
  then show ?thesis using assms unfolding alloc_outcome_def by blast
qed

lemma holds_apart:
  assumes "client_holds sch w O'" "(p, n) \<in> O'" "(q, m) \<in> O'" "(p, n) \<noteq> (q, m)"
  shows "span p n \<inter> span q m = {}"
proof -
  obtain D F R B G where "world_inv sch w D F R B" "generics_ok w R B G" "O' = client_owned sch w D G"
    using assms(1) by (rule holdsE)
  then show ?thesis using owned_disjoint assms(2-4) by blast
qed

interpretation smm: block_store "client_holds sch" "\<lambda>w. load_bytes (wmem w)" "some_alloc sch" some_free "legal_request sch" for sch
proof
  fix w O' p n q m
  assume "client_holds sch w O'" "(p, n) \<in> O'" "(q, m) \<in> O'" "(p, n) \<noteq> (q, m)"
  then show "span p n \<inter> span q m = {}" by (rule holds_apart)
next
  fix w O' p n
  assume "client_holds sch w O'" "(p, n) \<in> O'"
  then show "0 < n" by (rule holds_pos)
next
  fix w O' c k
  assume "client_holds sch w O'" "legal_request sch c k"
  then show "\<exists>p w'. some_alloc sch c k w p w'" unfolding some_alloc_def by (metis legal_outcome)
next
  fix w O' c k p w'
  assume h: "client_holds sch w O'" "legal_request sch c k" "some_alloc sch c k w p w'"
  then obtain t env where a: "Allocator_Alloc sch env t c (2 ^ k) w = Inr (p, w')" by (auto simp: some_alloc_def)
  have "alloc_outcome sch c k w O' p w'" by (rule legal_outcome [OF h(1,2), of env t]) (use a in simp)
  then show "(p = 0 \<and> client_holds sch w' O' \<or> (\<exists>m \<ge> unat c. p \<noteq> 0 \<and> p \<notin> fst ` O' \<and> client_holds sch w' (insert (p, m) O'))) \<and>
      (\<forall>(q, l) \<in> O'. load_bytes (wmem w') q l = load_bytes (wmem w) q l)"
    using outcome_fresh by (simp add: alloc_outcome_def keeps_def)
next
  fix w O' p n
  assume "client_holds sch w O'" "(p, n) \<in> O'"
  then show "\<exists>w'. some_free p w w'" unfolding some_free_def using Free_holds by blast
next
  fix w O' p n w'
  assume h: "client_holds sch w O'" "(p, n) \<in> O'" "some_free p w w'"
  then obtain t where "Allocator_Free t p w = Inr w'" by (auto simp: some_free_def)
  then show "client_holds sch w' (O' - {(p, n)}) \<and> (\<forall>(q, l) \<in> O' - {(p, n)}. load_bytes (wmem w') q l = load_bytes (wmem w) q l)"
    using Free_holds [OF h(1,2), of t] by (auto simp: keeps_def)
qed

section \<open>Properties\<close>

lemma demo_legal: "legal_request SMM_PL_PARTITIONING 20 4" "legal_request SMM_PL_PARTITIONING 100 4"
  by (simp_all add: legal_request_def size_request_ok_def Align_def)

text \<open>
  (C1) \<open>Alloc\<close> returns, for every legal request, thread and behaviour of the C library: null with the blocks of
  the client as before, or an aligned block of at least the size asked for that is apart from every
  block the client holds. The bytes of the blocks of the client are unchanged.
\<close>

theorem Alloc_fresh_block:
  assumes "client_holds sch w O'" and "legal_request sch n k"
  shows "\<exists>p w'. Allocator_Alloc sch env t n (2 ^ k) w = Inr (p, w') \<and>
    (\<forall>(q, l) \<in> O'. load_bytes (wmem w') q l = load_bytes (wmem w) q l) \<and>
    (p = 0 \<and> client_holds sch w' O' \<or>
     (\<exists>m. p \<noteq> 0 \<and> 2 ^ k dvd unat p \<and> unat n \<le> m \<and> client_holds sch w' (insert (p, m) O') \<and>
        (\<forall>(q, l) \<in> O'. span q l \<inter> span p m = {})))"
proof -
  obtain p w' where a: "Allocator_Alloc sch env t n (2 ^ k) w = Inr (p, w')" "alloc_outcome sch n k w O' p w'"
    by (rule legal_outcome [OF assms])
  show ?thesis
    using a(2) unfolding alloc_outcome_def keeps_def IsAligned_pow2 a(1) by (intro exI [of _ p] exI [of _ w']) simp
qed

theorem Alloc_fresh_block_witness:
  "\<exists>w q l. client_holds SMM_PL_PARTITIONING w {(q, l)} \<and>
    (\<exists>p w'. Allocator_Alloc SMM_PL_PARTITIONING low_placement 3 20 16 w = Inr (p, w') \<and>
      load_bytes (wmem w') q l = load_bytes (wmem w) q l)"
proof -
  obtain w q l where h: "client_holds SMM_PL_PARTITIONING w {(q, l)}" by (rule demo_block_held)
  then show ?thesis using Alloc_fresh_block [OF h demo_legal(1), of low_placement 3] by fastforce
qed

text \<open>
  (C8) \<open>Alloc\<close> of a positive size returns null only when the generic allocator fails on that request: caches
  and pools that run dry are never a reason to fail.
\<close>

theorem Alloc_fails_only_with_generic:
  assumes "Allocator_Alloc sch env t n alignment w = Inr (0, w')" and "n \<noteq> 0"
  shows "fst (GenericAllocator_Alloc env n alignment (wheap w)) = 0"
  using assms by (intro Allocate_null) (simp_all add: Allocator_Alloc_def)

lemma Allocate_loop_none: "Allocate_loop sch st al 0 i w = Some (0, w)"
  by (subst Allocate_loop.simps) simp

lemma Min_0: "Min 0 (x :: size_t) = 0"
  by (auto simp: Min_def word_gt_0)

lemma demo_no_memory: "\<exists>w'. Allocator_Alloc SMM_PL_PARTITIONING (\<lambda>_ _. 0) 0 20 16 demo_world = Inr (0, w')"
  by (simp add: Allocator_Alloc_def Allocate_def Let_def demo_world_def Allocator_ctor_def upd_stats_def Min_0 Allocate_loop_none
      GenericAllocator_Alloc_eq malloc_def lawful_block_def)

theorem Alloc_fails_only_with_generic_witness:
  "fst (GenericAllocator_Alloc (\<lambda>_ _. 0) 20 16 (wheap demo_world)) = 0"
proof -
  obtain w' where "Allocator_Alloc SMM_PL_PARTITIONING (\<lambda>_ _. 0) 0 20 16 demo_world = Inr (0, w')" using demo_no_memory by blast
  then show ?thesis using Alloc_fails_only_with_generic [of SMM_PL_PARTITIONING "\<lambda>_ _. 0" 0 20 16 demo_world w'] by simp
qed

text \<open>
  (C2) \<open>Free\<close> of a block the client holds returns without a fault, whichever thread calls it; the client then
  holds the other blocks, with the same bytes.
\<close>

theorem Free_returns_block:
  assumes "client_holds sch w O'" and "(p, n) \<in> O'"
  shows "\<exists>w'. Allocator_Free t p w = Inr w' \<and> client_holds sch w' (O' - {(p, n)}) \<and>
    (\<forall>(q, l) \<in> O' - {(p, n)}. load_bytes (wmem w') q l = load_bytes (wmem w) q l)"
  using Free_holds [OF assms, of t] by (simp add: keeps_def)

theorem Free_returns_block_witness:
  "\<exists>w p n w'. client_holds SMM_PL_PARTITIONING w {(p, n)} \<and> Allocator_Free 1 p w = Inr w' \<and> client_holds SMM_PL_PARTITIONING w' {}"
proof -
  obtain w p n where h: "client_holds SMM_PL_PARTITIONING w {(p, n)}" by (rule demo_block_held)
  then show ?thesis using Free_returns_block [OF h, of p n 1] by auto
qed

text \<open>
  (C9) \<open>GetUsableSize\<close> of a block the client holds is its size, for pool blocks and for generic blocks.
\<close>

theorem GetUsableSize_block:
  assumes "client_holds sch w O'" and "(p, n) \<in> O'"
  shows "GetUsableSize sch p w = Inr (word_of_nat n) \<and> n < 2 ^ 64"
  by (rule GetUsableSize_holds [OF assms])

theorem GetUsableSize_block_witness:
  "\<exists>w p n. client_holds SMM_PL_PARTITIONING w {(p, n)} \<and> GetUsableSize SMM_PL_PARTITIONING p w = Inr (word_of_nat n)"
proof -
  obtain w p n where h: "client_holds SMM_PL_PARTITIONING w {(p, n)}" by (rule demo_block_held)
  then show ?thesis using GetUsableSize_block [OF h, of p n] by auto
qed

text \<open>
  (C3) \<open>Realloc\<close> of a block the client holds either leaves it in place, which it does only if the block is
  large enough; or moves it, with the common bytes copied, the old block released and all other blocks
  untouched; or returns null with everything as before; or writes through null, which happens only when
  a generic block should move, the new size has a bucket, and \<open>Alloc\<close> has no memory.
\<close>

theorem Realloc_block:
  assumes "client_holds sch w O'" and "(p, n) \<in> O'" and "legal_request sch bytes k"
  shows "Allocator_Realloc sch env t p bytes (2 ^ k) w = Inr (p, w) \<and> unat bytes \<le> n \<or>
    (\<exists>p2 w'. Allocator_Realloc sch env t p bytes (2 ^ k) w = Inr (p2, w') \<and> moved sch bytes k w O' p n p2 w') \<or>
    (\<exists>w'. Allocator_Realloc sch env t p bytes (2 ^ k) w = Inl Null_Access \<and>
       Allocator_Alloc sch env t bytes (2 ^ k) w = Inr (0, w') \<and> routes_generic w p \<and>
       GetBucketIndexBySize sch (Align bytes (2 ^ k)) < bucketsCount (alloc w))"
proof -
  have l: "k \<le> 12" "bytes \<noteq> 0" "unat bytes + 4111 < 2 ^ 64" "size_request_ok sch (Align bytes (2 ^ k))"
    using assms(3) by (simp_all add: legal_request_def)
  from assms(1,2) show ?thesis
  proof (cases rule: holds_route)
    case (pool i)
    show ?thesis
    proof (cases "unat bytes \<le> n")
      case True
      then have "Allocator_Realloc sch env t p bytes (2 ^ k) w = Inr (p, w)"
        using pool l(2) by (simp add: Allocator_Realloc_def Let_def word_le_nat_alt)
      then show ?thesis using True by blast
    next
      case False
      then show ?thesis using Realloc_pool [OF assms(1,2) l pool] by auto
    qed
  next
    case (generic i)
    have r: "routes_generic w p" using generic by (auto simp: routes_generic_def)
    show ?thesis
    proof (cases "GetBucketIndexBySize sch (Align bytes (2 ^ k)) < bucketsCount (alloc w)")
      case True
      then show ?thesis using Realloc_to_pool [OF assms(1,2) l generic(1-3) True, of env t] r True by blast
    next
      case False
      then show ?thesis using Realloc_generic [OF assms(1,2) l(1-3) generic(1-3) False, of env t] by blast
    qed
  qed
qed

theorem Realloc_block_witness:
  "\<exists>w p n. client_holds SMM_PL_PARTITIONING w {(p, n)} \<and>
   (Allocator_Realloc SMM_PL_PARTITIONING low_placement 0 p 100 16 w = Inr (p, w) \<and> 100 \<le> n \<or>
    (\<exists>p2 w'. Allocator_Realloc SMM_PL_PARTITIONING low_placement 0 p 100 16 w = Inr (p2, w') \<and>
       moved SMM_PL_PARTITIONING 100 4 w {(p, n)} p n p2 w') \<or>
    (\<exists>w'. Allocator_Realloc SMM_PL_PARTITIONING low_placement 0 p 100 16 w = Inl Null_Access \<and>
       Allocator_Alloc SMM_PL_PARTITIONING low_placement 0 100 16 w = Inr (0, w') \<and> routes_generic w p))"
proof -
  obtain w p n where h: "client_holds SMM_PL_PARTITIONING w {(p, n)}" by (rule demo_block_held)
  have "(2 :: size_t) ^ 4 = 16" "unat (100 :: size_t) = 100" by simp_all
  then show ?thesis using Realloc_block [OF h _ demo_legal(2), of p n low_placement 0] h by (metis insertI1)
qed

text \<open>
  (C5) \<open>Init\<close> on a fresh allocator, with bucket sizes that hold at least one element, ends: with a write
  through null if the buffer could not be allocated, which the source does not check, or in a state in
  which the client holds no block and every operation above applies. User-space addresses are below
  \<open>2^47\<close>, so the pointer arithmetic of \<open>Create\<close> does not wrap.
\<close>

theorem Init_ready:
  assumes "heap_wf (wheap w)" and "bucketsCount (alloc w) = 0" and "length (buckets (alloc w)) = 62" and "no_caches w"
    and "n \<noteq> 0" and "0 < unat s" and "unat s + 4095 \<le> 2 ^ 32" and "\<And>k b. unat (env k b) < 2 ^ 47"
    and "\<And>i. i < min (unat n) 62 \<Longrightarrow> 8 \<le> esz sch i \<and> esz sch i \<le> unat (Align s 4096)"
  shows "Allocator_Init sch env n s w = Inl Null_Access \<and>
      fst (GenericAllocator_Alloc env (word_of_nat (min (unat n) 62 * unat (Align s 4096))) 4096 (wheap w)) = 0 \<or>
    (\<exists>w'. Allocator_Init sch env n s w = Inr w' \<and> client_holds sch w' {} \<and>
       unat (bucketsCount (alloc w')) = min (unat n) 62 \<and> bucketSizeInBytes (alloc w') = Align s 4096)"
proof (rule Init_holds [where sch = sch, OF assms(1-8)])
  fix i assume "i < min (unat n) 62"
  then show "8 \<le> esz sch i \<and> esz sch i \<le> unat (Align s 4096)" by (rule assms(9))
qed (auto simp: word_eq_iff_unat)

theorem Init_ready_witness:
  "\<exists>w. Allocator_Init SMM_PL_PARTITIONING low_placement 2 4096 demo_world = Inr w \<and> client_holds SMM_PL_PARTITIONING w {}"
proof -
  have "fst (GenericAllocator_Alloc low_placement (word_of_nat (min (unat (2 :: u32)) 62 * unat (Align 4096 4096 :: size_t))) 4096
      (wheap demo_world)) \<noteq> 0"
    unfolding demo_world_def world.simps demo_buffer by simp
  moreover have "0 < unat (4096 :: size_t)" "unat (4096 :: size_t) + 4095 \<le> 2 ^ 32" "(2 :: u32) \<noteq> 0" by simp_all
  ultimately show ?thesis
    using Init_ready [OF demo_world_start, of 2 4096 low_placement SMM_PL_PARTITIONING] low_placement_low demo_sizes by blast
qed

text \<open>
  (C4) Over every sequence of legal requests and releases of held blocks, by any threads, the blocks that
  the client holds at the end are pairwise disjoint, and a block held at the start and never released
  is still held and has the same bytes.
\<close>

theorem runs_keep_blocks:
  assumes "smm.run sch w O' rs w' P"
  shows "client_holds sch w' P \<and>
    (\<forall>(p, n) \<in> P. \<forall>(q, m) \<in> P. (p, n) \<noteq> (q, m) \<longrightarrow> span p n \<inter> span q m = {}) \<and>
    (\<forall>(q, l) \<in> O'. Req_free q \<notin> set rs \<longrightarrow> (q, l) \<in> P \<and> load_bytes (wmem w') q l = load_bytes (wmem w) q l)"
proof (intro conjI)
  show h: "client_holds sch w' P" by (rule smm.run_has [OF assms])
  show "\<forall>(p, n) \<in> P. \<forall>(q, m) \<in> P. (p, n) \<noteq> (q, m) \<longrightarrow> span p n \<inter> span q m = {}" using holds_apart [OF h] by blast
  show "\<forall>(q, l) \<in> O'. Req_free q \<notin> set rs \<longrightarrow> (q, l) \<in> P \<and> load_bytes (wmem w') q l = load_bytes (wmem w) q l"
    using smm.run_keeps [OF assms] by blast
qed

theorem runs_keep_blocks_witness:
  "\<exists>w p n w' P. smm.run SMM_PL_PARTITIONING w {(p, n)} [Req_alloc 100 4] w' P \<and>
    load_bytes (wmem w') p n = load_bytes (wmem w) p n"
proof -
  obtain w p n where h: "client_holds SMM_PL_PARTITIONING w {(p, n)}" by (rule demo_block_held)
  obtain w' P where "smm.run SMM_PL_PARTITIONING w {(p, n)} ([] @ [Req_alloc 100 4]) w' P"
    using smm.run_extends(1) [OF smm.run_nil [OF h] demo_legal(2)] by blast
  then have r: "smm.run SMM_PL_PARTITIONING w {(p, n)} [Req_alloc 100 4] w' P" by simp
  then show ?thesis using runs_keep_blocks [OF r] by fastforce
qed

text \<open>
  A request for zero bytes returns its alignment as the address and changes nothing; such an address,
  like null, is ignored by \<open>Free\<close>, has usable size 0, and \<open>Realloc\<close> treats it as a new allocation.
\<close>

theorem zero_size_blocks:
  "Allocator_Alloc sch env t 0 alignment w = Inr (alignment, w) \<and>
   (unat p \<le> 4096 \<longrightarrow> Allocator_Free t p w = Inr w \<and> GetUsableSize sch p w = Inr 0 \<and>
      Allocator_Realloc sch env t p n alignment w = Allocator_Alloc sch env t n alignment w)"
  by (auto simp: Allocator_Alloc_def Allocate_def Allocator_Free_def GetUsableSize_def Allocator_Realloc_def IsReadable_def
      kMaxValidAlignment_def word_less_nat_alt)

theorem zero_size_blocks_witness:
  "Allocator_Alloc SMM_PL_PARTITIONING low_placement 0 0 16 demo_world = Inr (16, demo_world) \<and>
   Allocator_Free 0 16 demo_world = Inr demo_world \<and> GetUsableSize SMM_PL_PARTITIONING 16 demo_world = Inr 0"
  using zero_size_blocks [of SMM_PL_PARTITIONING low_placement 0 16 demo_world 16] by simp

text \<open>
  Before \<open>Init\<close> the bucket size is zero, and \<open>Free\<close>, \<open>Realloc\<close> and \<open>GetUsableSize\<close> of any address above the first page
  divide by it.
\<close>

theorem uninitialised_division:
  assumes "bucketSizeInBytes (alloc w) = 0" and "4096 < unat p" and "n \<noteq> 0"
  shows "Allocator_Free t p w = Inl Div_By_Zero \<and> GetUsableSize sch p w = Inl Div_By_Zero \<and>
    Allocator_Realloc sch env t p n alignment w = Inl Div_By_Zero"
  using assms
  by (simp add: Allocator_Free_def GetUsableSize_def Allocator_Realloc_def FindBucket_def IsReadable_def
      kMaxValidAlignment_def word_less_nat_alt)

theorem uninitialised_division_witness:
  "Allocator_Free 0 8208 demo_world = Inl Div_By_Zero"
  using uninitialised_division [of demo_world 8208 1] by (simp add: demo_world_def Allocator_ctor_def)

text \<open>
  \<open>Realloc\<close> from the generic allocator into a pool does not check the new pointer: when \<open>Alloc\<close> has no memory
  the copy goes to address 0, although the old block is still valid.
\<close>

theorem Realloc_unchecked_null:
  assumes "routes_generic w p" and "n \<noteq> 0" and "GetBucketIndexBySize sch (Align n alignment) < bucketsCount (alloc w)"
    and "Allocator_Alloc sch env t n alignment w = Inr (0, w')" and "GenericAllocator_GetUsableSpace p (wheap w') \<noteq> 0"
  shows "Allocator_Realloc sch env t p n alignment w = Inl Null_Access"
  using assms by (auto simp: Allocator_Realloc_def routes_generic_def Let_def min_def)

text \<open>An allocator with one empty bucket, and a generic block whose header holds the size 1.\<close>

definition dry_world :: world where
  "dry_world = demo_world\<lparr>wheap := empty_heap\<lparr>hmem := store64 (\<lambda>_. 0) 65528 1\<rparr>, alloc :=
     (alloc demo_world)\<lparr>bucketsCount := 1, bucketSizeInBytes := 4096, bucketsDataBegin := [8192],
       buckets := [PoolBucket_init\<lparr>head := TaggedIndex_Invalid\<rparr>]\<rparr>\<rparr>"

lemma dry_Alloc: "\<exists>w'. Allocator_Alloc SMM_PL_PARTITIONING (\<lambda>_ _. 0) 0 16 16 dry_world = Inr (0, w') \<and>
    GenericAllocator_GetUsableSpace 65536 (wheap w') = 1"
proof -
  have i: "GetBucketIndexBySize SMM_PL_PARTITIONING (Align 16 16) = 0"
    by (simp add: GetBucketIndexBySize_def Align_def Let_def)
  have "0 < next_bucket SMM_PL_PARTITIONING 16 0" by (rule next_bucket_greater) (simp add: stop_index_def)
  then have nx: "\<not> next_bucket SMM_PL_PARTITIONING 16 0 < 1" by (simp add: word_less_nat_alt)
  have ld: "load64 (store64 (\<lambda>_. 0) 65528 (1 :: u64)) 65528 = 1" by simp
  have lp: "Allocate_loop SMM_PL_PARTITIONING True 16 1 (next_bucket SMM_PL_PARTITIONING 16 0) w = Some (0, w)" for w
    using nx by (subst Allocate_loop.simps) simp
  have lp0: "\<exists>w'. Allocate_loop SMM_PL_PARTITIONING True 16 1 0 w = Some (0, w') \<and> wheap w' = wheap w"
    if "head (buckets (alloc w) ! 0) = TaggedIndex_Invalid" for w
    using that by (subst Allocate_loop.simps) (simp add: lp PoolBucket_Alloc_def Alloc_loop.simps Let_def)
  define w1 where "w1 = upd_stats (\<lambda>s. s\<lparr>totalNumAllocationAttempts := totalNumAllocationAttempts s + 1\<rparr>) dry_world"
  have d: "bucketsCount (alloc w1) = 1" "wheap w1 = wheap dry_world" "head (buckets (alloc w1) ! 0) = TaggedIndex_Invalid"
    "AllocFromCache (GetTlsBucket 0 0 w1) m = (0, GetTlsBucket 0 0 w1)" for m
    by (simp_all add: w1_def dry_world_def upd_stats_def GetTlsBucket_def demo_world_def TlsPoolBucket_zero_def AllocFromCache_def)
  have ts: "set_tls 0 0 (GetTlsBucket 0 0 w1) w1 = w1" by (simp add: set_tls_def GetTlsBucket_def)
  obtain w2 where "Allocate_loop SMM_PL_PARTITIONING True 16 1 0 w1 = Some (0, w2)" "wheap w2 = wheap w1"
    using lp0 [OF d(3)] by blast
  moreover have "hmem (wheap dry_world) = store64 (\<lambda>_. 0) 65528 1" by (simp add: dry_world_def)
  ultimately show ?thesis using i d ts ld
    by (simp add: Allocator_Alloc_def Allocate_def Let_def Min_def GenericAllocator_Alloc_eq malloc_def lawful_block_def
        GenericAllocator_GetUsableSpace_def sizeof_Header_def flip: w1_def)
qed

theorem Realloc_unchecked_null_witness:
  "Allocator_Realloc SMM_PL_PARTITIONING (\<lambda>_ _. 0) 0 65536 16 16 dry_world = Inl Null_Access"
proof -
  obtain w' where "Allocator_Alloc SMM_PL_PARTITIONING (\<lambda>_ _. 0) 0 16 16 dry_world = Inr (0, w')"
    "GenericAllocator_GetUsableSpace 65536 (wheap w') \<noteq> 0" using dry_Alloc by auto
  moreover have "routes_generic dry_world 65536"
    by (simp add: routes_generic_def IsReadable_def kMaxValidAlignment_def FindBucket_def dry_world_def)
  moreover have "GetBucketIndexBySize SMM_PL_PARTITIONING (Align 16 16) < bucketsCount (alloc dry_world)"
    by (simp add: GetBucketIndexBySize_def Align_def Let_def dry_world_def)
  ultimately show ?thesis using Realloc_unchecked_null by simp
qed

end
