(* ===== verification/Allocator_Caches.thy ===== *)
theory Allocator_Caches
  imports Allocator_Properties
begin

text \<open>
  Creation and destruction of the thread caches keep the invariant: the client holds the same blocks afterwards,
  a new cache works for every operation, and a destroyed cache has given back its blocks and its stacks.
\<close>

section \<open>Caches that are not in use\<close>

text \<open>The state that \<open>TlsPoolBucket::Init\<close> asserts.\<close>

definition unused_cache :: "TlsPoolBucket \<Rightarrow> bool" where
  "unused_cache c \<longleftrightarrow> length (storageL0 c) = SMM_MAX_CACHE_ITEMS_COUNT \<and> numElementsL0 c = 0 \<and> numElementsL1 c = 0 \<and>
     pBucket c = None \<and> pBucketData c = 0 \<and> pStorageL1 c = 0 \<and> maxElementsCount c = 0"

lemma unused_cacheD:
  assumes "unused_cache c"
  shows "length (storageL0 c) = SMM_MAX_CACHE_ITEMS_COUNT" "numElementsL0 c = 0" "numElementsL1 c = 0"
    "pStorageL1 c = 0" "maxElementsCount c = 0" "cached m c = []" "store_span c = {}"
  using assms by (simp_all add: unused_cache_def cached_def l1_items_def l0_items_def store_span_def)

lemma unused_cache_zero: "unused_cache TlsPoolBucket_zero"
  by (simp add: unused_cache_def TlsPoolBucket_zero_def)

section \<open>Replacing the cache of one thread\<close>

lemma set_tls_caches:
  assumes "length (tls w t) = 62" "unat i < 62"
  shows "caches (set_tls t i c w) j = (if j = unat i then (caches w j)(t := c) else caches w j)"
  using assms by (auto simp: set_tls_def caches_def fun_eq_iff)

lemma set_tls_simps [simp]:
  "alloc (set_tls t i c w) = alloc w" "base_of (set_tls t i c w) = base_of w"
  by (simp_all add: set_tls_def base_of_def fun_eq_iff)

text \<open>\<open>Init\<close> puts the stack \<open>p\<close>, a new generic block with raw block \<open>b\<close>, under the cache.\<close>

lemma cache_opened:
  assumes inv: "world_inv sch w D F R B" and i: "i < nb w" and n: "\<not> in_use (caches w i t)"
    and g: "generic_block (wheap w) p (word_of_nat (4 * (unat (maxElementsCount c) + 7))) b" and b: "b \<notin> infrastructure w R B"
    and c: "2 \<le> unat (maxElementsCount c)" "pStorageL1 c = p" "pBucketData c = base_of w i" "pBucket c \<noteq> None"
      "numElementsL0 c = 0" "numElementsL1 c = 0" "length (storageL0 c) = SMM_MAX_CACHE_ITEMS_COUNT"
  shows "world_inv sch (set_tls t (word_of_nat i) c w) D F (R(t := (R t)(i := b))) B"
proof -
  let ?w = "set_tls t (word_of_nat i) c w" and ?R = "R(t := (R t)(i := b))"
  note I = world_invD [OF inv] note L = I(1) note l = layoutD [OF L]
  have i62: "i < 62" using i l(3) by simp
  have ui: "unat (word_of_nat i :: size_t) = i" using i62 by (intro unat_of_nat_small) simp
  have C: "caches ?w j = (if j = i then (caches w j)(t := c) else caches w j)" for j
    using set_tls_caches [where i = "word_of_nat i" and c = c and j = j, OF l(11)] i62 ui by simp
  have nz: "in_use c" using c(1) by auto
  have bR: "b \<noteq> B" "\<And>u j. j < 62 \<Longrightarrow> in_use (caches w j u) \<Longrightarrow> R u j \<noteq> b"
    using b by (auto simp: infrastructure_def)
  have "layout_ok ?w ?R B"
  proof -
    have g': "j < nb w \<and> ?R u j \<noteq> B \<and> generic_block (wheap w) (pStorageL1 (caches ?w j u))
        (word_of_nat (4 * (unat (maxElementsCount (caches ?w j u)) + 7))) (?R u j)"
      if "j < 62" "in_use (caches ?w j u)" for u j
    proof (cases "u = t \<and> j = i")
      case True
      then show ?thesis using g c(2) i bR(1) by (simp add: C)
    next
      case False
      then have "caches ?w j u = caches w j u" "?R u j = R u j" by (auto simp: C)
      then show ?thesis using layout_store [OF L that(1), of u] that(2) by simp
    qed
    have d: "?R u j \<noteq> ?R v k" if "(u, j) \<noteq> (v, k)" "j < 62" "k < 62" "in_use (caches ?w j u)" "in_use (caches ?w k v)" for u j v k
    proof -
      have e: "caches ?w a x = caches w a x \<and> ?R x a = R x a" if "(x, a) \<noteq> (t, i)" for x a using that by (auto simp: C)
      show ?thesis
      proof (cases "(u, j) = (t, i)")
        case True
        then have "(v, k) \<noteq> (t, i)" using that(1) by metis
        from e [OF this] show ?thesis using bR(2) [OF that(3), of v] that(5) True by (metis Pair_inject fun_upd_apply)
      next
        case False
        note F = e [OF this]
        show ?thesis
        proof (cases "(v, k) = (t, i)")
          case True
          then show ?thesis using F bR(2) [OF that(2), of u] that(4) by (metis Pair_inject fun_upd_apply)
        next
          case False
          then show ?thesis using e [OF False] F layout_distinct [OF L that(1-3)] that(4,5) by simp
        qed
      qed
    qed
    have "length (tls ?w u) = 62" for u using layoutD(11) [OF L] by (simp add: set_tls_def)
    then show ?thesis using L g' d unfolding layout_ok_def by (simp add: wheap_upd)
  qed
  moreover have "bucket_ok (esz sch j) (bsz w div esz sch j) (wmem w) (buckets (alloc w) ! j) (caches ?w j) (F j) (D j)"
    if j: "j < nb w" for j
  proof (cases "j = i")
    case False
    then show ?thesis using I(4) [OF j] by (simp add: C)
  next
    case True
    let ?e = "esz sch i" and ?n = "bsz w div esz sch i"
    note ok = I(4) [OF i]
    have rok: "raw_ok b" using l(1) g by (auto simp: generic_block_def intro: heap_wf_raw_ok)
    have u: "unat (word_of_nat (4 * (unat (maxElementsCount c) + 7)) :: u64) = 4 * (unat (maxElementsCount c) + 7)"
      using unat_u32_less [of "maxElementsCount c"] by (intro unat_of_nat_small) simp
    have st: "storage_span c \<subseteq> raw_span b"
      using generic_spans(1) [OF g rok] u c(2) by (simp add: storage_span_def SMM_MAX_CACHE_ITEMS_COUNT_def del: of_nat_mult of_nat_add)
    have "raw_span b \<inter> raw_span B = {}" by (rule raws_disjoint [OF l(1) g l(10) bR(1)])
    then have "storage_span c \<inter> blocks_span ?e ?n (base_of w i) = {}"
      using st bucket_blocks_in_region [OF inv i] region_buffer [OF L i] buffer_in_raw [OF L] by blast
    moreover have "unat p + 4 * (unat (maxElementsCount c) + 7) < 2 ^ 64"
      using g rok u by (auto simp: generic_block_def raw_ok_def simp del: of_nat_mult of_nat_add)
    ultimately have wf: "cache_wf ?e ?n (base_of w i) c"
      using c nz by (simp add: cache_wf_def SMM_MAX_CACHE_ITEMS_COUNT_def blocks_span_def word_le_nat_alt)
    have e: "cached (wmem w) c = []" using c by (simp add: cached_def l1_items_def l0_items_def)
    have o: "cached (wmem w) (caches w i t) = []"
    proof -
      have "cache_wf ?e ?n (pData (buckets (alloc w) ! i)) (caches w i t)" by (rule bucket_ok_cacheD(1) [OF ok])
      then have "numElementsL0 (caches w i t) = 0" "numElementsL1 (caches w i t) = 0" using n by (auto simp: cache_wf_def)
      then show ?thesis by (simp add: cached_def l1_items_def l0_items_def)
    qed
    have "(\<lambda>u. set (cached (wmem w) (((caches w i)(t := c)) u))) = (\<lambda>u. set (cached (wmem w) (caches w i u)))"
      using e o by (auto simp: fun_eq_iff)
    then show ?thesis
      using ok wf e I(3) [OF i] True unfolding bucket_ok_def by (auto simp: C)
  qed
  ultimately show ?thesis using I(2,3) unfolding world_inv_def by simp
qed


section \<open>Destroying a cache bucket\<close>

lemma Destroy_loop_effect:
  assumes "j \<le> z" "length (storageL0 self) = 7" "z \<le> 7" "unat (numElementsL1 self) + (z - j) \<le> unat (maxElementsCount self) + 7"
    and "unat (numElementsL1 self) + (z - j) < 2 ^ 32"
    and "unat (pStorageL1 self) + 4 * (unat (maxElementsCount self) + 7) < 2 ^ 64"
  shows "\<exists>m'. Destroy_loop [j..<z] self m = (self\<lparr>numElementsL1 := numElementsL1 self + word_of_nat (z - j)\<rparr>, m') \<and>
    l1_items m' (self\<lparr>numElementsL1 := numElementsL1 self + word_of_nat (z - j)\<rparr>) =
      l1_items m self @ drop j (take z (storageL0 self)) \<and>
    same_outside (storage_span self) m m'"
  using assms
proof (induction "z - j" arbitrary: j self m)
  case 0
  then show ?case by simp
next
  case (Suc d)
  then have j: "j < z" by simp
  let ?x = "storageL0 self ! j"
  let ?m = "store32 m (slot self (numElementsL1 self)) ?x" and ?s = "self\<lparr>numElementsL1 := numElementsL1 self + 1\<rparr>"
  have u: "unat (numElementsL1 self + 1) = unat (numElementsL1 self) + 1" using Suc.prems(5) j by (simp add: unat_add_small)
  have p: "l1_items ?m ?s = l1_items m self @ [?x]" using Suc.prems(4,5,6) j by (intro l1_items_push) auto
  have "span (slot self (numElementsL1 self)) 4 \<subseteq> storage_span self" using Suc.prems(4) j by (intro slot_span) simp
  then have so: "same_outside (storage_span self) m ?m" by (rule same_outside_mono [OF same_outside_store32])
  have w: "numElementsL1 self + 1 + word_of_nat (z - Suc j) = numElementsL1 self + word_of_nat (z - j)"
    using Suc_diff_Suc [OF j] by (metis add.assoc of_nat_Suc)
  have "d = z - Suc j" using Suc.hyps(2) by simp
  moreover have "Suc j \<le> z" "length (storageL0 ?s) = 7" "unat (numElementsL1 ?s) + (z - Suc j) \<le> unat (maxElementsCount ?s) + 7"
    "unat (numElementsL1 ?s) + (z - Suc j) < 2 ^ 32" "unat (pStorageL1 ?s) + 4 * (unat (maxElementsCount ?s) + 7) < 2 ^ 64"
    using Suc.prems u j by simp_all
  ultimately have "\<exists>m'. Destroy_loop [Suc j..<z] ?s ?m = (?s\<lparr>numElementsL1 := numElementsL1 ?s + word_of_nat (z - Suc j)\<rparr>, m') \<and>
    l1_items m' (?s\<lparr>numElementsL1 := numElementsL1 ?s + word_of_nat (z - Suc j)\<rparr>) =
      l1_items ?m ?s @ drop (Suc j) (take z (storageL0 ?s)) \<and> same_outside (storage_span ?s) ?m m'"
    using Suc.prems(3) by (intro Suc.hyps(1))
  moreover have "storage_span ?s = storage_span self" "storageL0 ?s = storageL0 self"
    "?s\<lparr>numElementsL1 := numElementsL1 ?s + word_of_nat (z - Suc j)\<rparr> = self\<lparr>numElementsL1 := numElementsL1 self + word_of_nat (z - j)\<rparr>"
    using w by (simp_all add: storage_span_def)
  ultimately obtain m' where m': "Destroy_loop [Suc j..<z] ?s ?m = (self\<lparr>numElementsL1 := numElementsL1 self + word_of_nat (z - j)\<rparr>, m')"
    "l1_items m' (self\<lparr>numElementsL1 := numElementsL1 self + word_of_nat (z - j)\<rparr>) =
      l1_items ?m ?s @ drop (Suc j) (take z (storageL0 self))" "same_outside (storage_span self) ?m m'"
    by metis
  have "drop j (take z (storageL0 self)) = ?x # drop (Suc j) (take z (storageL0 self))"
    using j Suc.prems(2,3) by (simp add: Cons_nth_drop_Suc [symmetric])
  then show ?case using m' p same_outside_trans [OF so m'(3)] j by (simp add: upt_conv_Cons)
qed

text \<open>There are fewer blocks than \<open>2^30\<close>, so the counters do not wrap.\<close>

lemma cached_few:
  assumes "pool_cache_ok e n free self b m"
  shows "unat (numElementsL1 self) + unat (numElementsL0 self) < 2 ^ 30"
proof -
  note O = assms [unfolded pool_cache_ok_def]
  have "n * 8 \<le> n * e" using O by (intro mult_le_mono2) (simp add: geometry_def)
  also have "\<dots> \<le> 2 ^ 32" using O by (simp add: geometry_def)
  finally have n: "n \<le> 2 ^ 29" by simp
  have "unat (numElementsL0 self) \<le> length (storageL0 self)" using O cache_wf_L0 by blast
  then have "length (cached m self) = unat (numElementsL1 self) + unat (numElementsL0 self)"
    by (simp add: cached_def l0_items_def)
  moreover have "length (cached m self) \<le> card (set (block_offsets e n))"
    using O card_mono [of "set (block_offsets e n)" "set (cached m self)"] distinct_card [of "cached m self"] by auto
  moreover have "card (set (block_offsets e n)) \<le> n"
    using card_length [of "block_offsets e n"] by (simp add: block_offsets_def)
  ultimately show ?thesis using n by simp
qed

lemma Destroy_effect:
  assumes ok: "pool_cache_ok e n free self b m" and u: "maxElementsCount self \<noteq> 0"
  obtains c' b' m' where "TlsPoolBucket_Destroy self b m = (pStorageL1 self, c', b', m')" "unused_cache c'"
    "chain m' (pData b) (head b') (cached m self @ free)" "pData b' = pData b"
    "same_outside (storage_span self \<union> links (pData b) (cached m self)) m m'"
proof -
  note O = ok [unfolded pool_cache_ok_def]
  have wf: "cache_wf e n (pData b) self" and geo: "geometry e n" using O by simp_all
  note W = wf [unfolded cache_wf_def SMM_MAX_CACHE_ITEMS_COUNT_def]
  let ?z = "unat (numElementsL0 self)"
  let ?s = "self\<lparr>numElementsL1 := numElementsL1 self + word_of_nat ?z\<rparr>"
  have few: "unat (numElementsL1 self) + ?z < 2 ^ 30" by (rule cached_few [OF ok])
  have uz: "unat (word_of_nat ?z :: u32) = ?z" using few by (intro unat_of_nat_small) simp
  have us: "unat (numElementsL1 ?s) = unat (numElementsL1 self) + ?z" using few uz by (simp add: unat_add_small)
  obtain m1 where D: "Destroy_loop [0..<?z] self m = (?s, m1)" "l1_items m1 ?s = cached m self"
    "same_outside (storage_span self) m m1"
    using Destroy_loop_effect [of 0 ?z self m] W u few by (auto simp: cached_def l0_items_def word_le_nat_alt)
  have st: "storage_span self \<inter> (\<Union>x \<in> set (block_offsets e n). span (pData b + ucast x) e) = {}" using W u by simp
  have ch: "chain m1 (pData b) (head b) free" using O chain_storage [OF geo wf u _ D(3)] by auto
  show thesis
  proof (cases "numElementsL1 ?s = 0")
    case True
    then have z: "numElementsL0 self = 0" "numElementsL1 self = 0" using us by (simp_all add: word_eq_iff_unat)
    then have "TlsPoolBucket_Destroy self b m = (pStorageL1 self, self\<lparr>pStorageL1 := 0, numElementsL0 := 0, numElementsL1 := 0,
        maxElementsCount := 0, pBucket := None, pBucketData := 0\<rparr>, b, m)"
      by (simp add: TlsPoolBucket_Destroy_def)
    moreover have "cached m self = []" using z by (simp add: cached_def l1_items_def l0_items_def)
    moreover have "unused_cache (self\<lparr>pStorageL1 := 0, numElementsL0 := 0, numElementsL1 := 0,
        maxElementsCount := 0, pBucket := None, pBucketData := 0\<rparr>)"
      using W by (simp add: unused_cache_def SMM_MAX_CACHE_ITEMS_COUNT_def)
    ultimately show thesis using O by (intro that [of _ b m]) auto
  next
    case False
    have k: "0 = unat (numElementsL1 ?s - min (numElementsL1 ?s) (numElementsL1 ?s))" by simp
    have "distinct (free @ l1_items m1 ?s)" "set (free @ l1_items m1 ?s) \<subseteq> set (block_offsets e n)"
      unfolding D(2) using O by auto
    moreover have "pBucketData ?s = pData b" "unat (numElementsL1 ?s) \<le> unat (maxElementsCount ?s) + 7"
      using W u us by (simp_all add: word_le_nat_alt)
    moreover have "storage_span ?s \<inter> (\<Union>x \<in> set (block_offsets e n). span (pData b + ucast x) e) = {}"
      using st by (simp add: storage_span_def)
    ultimately obtain b' m' where R: "ReturnL1CacheToMaster (numElementsL1 ?s) ?s b m1 =
        (?s\<lparr>numElementsL1 := numElementsL1 ?s - min (numElementsL1 ?s) (numElementsL1 ?s)\<rparr>, b', m')"
      "chain m' (pData b') (head b') (drop 0 (l1_items m1 ?s) @ free)" "pData b' = pData b"
      "same_outside (links (pData b) (drop 0 (l1_items m1 ?s))) m1 m'"
      using ReturnL1_run [OF geo _ _ _ ch _ _ False False k] by metis
    have "TlsPoolBucket_Destroy self b m = (pStorageL1 self, self\<lparr>pStorageL1 := 0, numElementsL0 := 0, numElementsL1 := 0,
        maxElementsCount := 0, pBucket := None, pBucketData := 0\<rparr>, b', m')"
      using D(1) R(1) nonzero_gt [OF False] by (simp add: TlsPoolBucket_Destroy_def)
    moreover have "same_outside (storage_span self \<union> links (pData b) (cached m self)) m m'"
      using same_outside_trans [OF D(3) R(4)] D(2) by simp
    moreover have "unused_cache (self\<lparr>pStorageL1 := 0, numElementsL0 := 0, numElementsL1 := 0,
        maxElementsCount := 0, pBucket := None, pBucketData := 0\<rparr>)"
      using W by (simp add: unused_cache_def SMM_MAX_CACHE_ITEMS_COUNT_def)
    moreover have "chain m' (pData b) (head b') (cached m self @ free)" using R(2,3) D(2) by simp
    ultimately show thesis using R(3) by (intro that [of _ b' m'])
  qed
qed

lemma Destroy_unused: "unused_cache c \<Longrightarrow> TlsPoolBucket_Destroy c b m = (0, c, b, m)"
  by (simp add: TlsPoolBucket_Destroy_def unused_cache_def)


section \<open>Destroying the caches of a thread\<close>

lemma store_apart:
  assumes L: "layout_ok w R B" and i: "i < nb w" and j: "j < 62" and ne: "(u, j) \<noteq> (t, i)"
  shows "store_span (caches w j u) \<inter> touched w t i = {}"
proof (cases "in_use (caches w j u)")
  case True
  have i62: "i < 62" using i layoutD(3) [OF L] by simp
  have "in_use (caches w i t) \<Longrightarrow> R u j \<noteq> R t i" using layout_distinct [OF L ne j i62 True] .
  then show ?thesis
    using touched_other [OF L i layout_store(3) [OF L j True] layout_store(2) [OF L j True]]
      store_in_raw(2) [OF L j True] by blast
qed (simp add: store_span_def)

text \<open>An empty cache is taken out of use: its raw block is no longer part of the infrastructure.\<close>

lemma cache_closed:
  assumes inv: "world_inv sch w D F R B" and i: "i < nb w" and u: "in_use (caches w i t)"
    and e: "cached (wmem w) (caches w i t) = []" and c: "unused_cache c"
  shows "world_inv sch (set_tls t (word_of_nat i) c w) D F R B"
    "infrastructure (set_tls t (word_of_nat i) c w) R B = infrastructure w R B - {R t i}"
proof -
  let ?w = "set_tls t (word_of_nat i) c w"
  note I = world_invD [OF inv] note L = I(1) note l = layoutD [OF L]
  have i62: "i < 62" using i l(3) by simp
  have ui: "unat (word_of_nat i :: size_t) = i" using i62 by (intro unat_of_nat_small) simp
  have C: "caches ?w j = (if j = i then (caches w j)(t := c) else caches w j)" for j
    using set_tls_caches [where i = "word_of_nat i" and c = c and j = j, OF l(11)] i62 ui by simp
  note U = unused_cacheD [OF c]
  have use: "in_use (caches ?w j v) \<longleftrightarrow> in_use (caches w j v) \<and> (v, j) \<noteq> (t, i)"
    and same: "in_use (caches ?w j v) \<Longrightarrow> caches ?w j v = caches w j v" for j v
    using U(5) by (auto simp: C)
  have "length (tls ?w v) = 62" for v using layoutD(11) [OF L] by (simp add: set_tls_def)
  moreover have "j < nb w \<and> R v j \<noteq> B \<and> generic_block (wheap w) (pStorageL1 (caches ?w j v))
      (word_of_nat (4 * (unat (maxElementsCount (caches ?w j v)) + 7))) (R v j)" if "j < 62" "in_use (caches ?w j v)" for v j
    using layout_store [OF L that(1)] same [OF that(2)] use that(2) by metis
  moreover have "R v j \<noteq> R x k" if "(v, j) \<noteq> (x, k)" "j < 62" "k < 62" "in_use (caches ?w j v)" "in_use (caches ?w k x)" for v j x k
    using layout_distinct [OF L that(1-3)] use that(4,5) by metis
  ultimately have "layout_ok ?w R B"
    using L unfolding layout_ok_def set_tls_simps wheap_upd by blast
  moreover have "bucket_ok (esz sch j) (bsz w div esz sch j) (wmem w) (buckets (alloc w) ! j) (caches ?w j) (F j) (D j)"
    if j: "j < nb w" for j
  proof (cases "j = i")
    case False
    then show ?thesis using I(4) [OF j] by (simp add: C)
  next
    case True
    note ok = I(4) [OF i]
    have "cache_wf (esz sch i) (bsz w div esz sch i) (pData (buckets (alloc w) ! i)) c" using U by (simp add: cache_wf_def)
    moreover have "(\<lambda>v. set (cached (wmem w) (((caches w i)(t := c)) v))) = (\<lambda>v. set (cached (wmem w) (caches w i v)))"
      using e U(6) by (auto simp: fun_eq_iff)
    ultimately show ?thesis using ok U(6) True unfolding bucket_ok_def by (auto simp: C)
  qed
  ultimately show "world_inv sch ?w D F R B" using I(2,3) unfolding world_inv_def by simp
  have "R v j \<noteq> R t i" if "j < 62" "in_use (caches w j v)" "(v, j) \<noteq> (t, i)" for v j
    using layout_distinct [OF L that(3,1) i62 that(2) u] .
  moreover have "B \<noteq> R t i" using layout_store(2) [OF L i62 u] by simp
  ultimately show "infrastructure ?w R B = infrastructure w R B - {R t i}"
    unfolding infrastructure_def use by (auto; metis)
qed

lemma Free_null [simp]: "GenericAllocator_Free 0 h = Inr h"
  by (simp add: GenericAllocator_Free_def)

text \<open>One turn of the loop. The bytes it writes: the stack, and links of the blocks that were cached.\<close>

definition destroy_writes :: "world \<Rightarrow> nat \<Rightarrow> nat \<Rightarrow> addr set" where
  "destroy_writes w t i = store_span (caches w i t) \<union> links (base_of w i) (cached (wmem w) (caches w i t))"

definition stacks :: "world \<Rightarrow> (nat \<Rightarrow> nat \<Rightarrow> addr \<times> size_t) \<Rightarrow> nat \<Rightarrow> nat set \<Rightarrow> (addr \<times> size_t) set" where
  "stacks w R t I = {R t i |i. i \<in> I \<and> in_use (caches w i t)}"

lemma destroy_writes_touched:
  assumes inv: "world_inv sch w D F R B" and i: "i < nb w"
  shows "destroy_writes w t i \<subseteq> touched w t i"
proof -
  note ok = world_invD(4) [OF inv i]
  have "set (cached (wmem w) (caches w i t)) \<subseteq> set (block_offsets (esz sch i) (bsz w div esz sch i))"
    using bucket_okD(5) [OF ok] bucket_ok_cacheD(3) [OF ok, of t] by blast
  then have "links (base_of w i) (cached (wmem w) (caches w i t)) \<subseteq> region w i"
    using links_blocks_span [OF bucket_okD(1) [OF ok]] bucket_blocks_in_region [OF inv i] by blast
  then show ?thesis by (auto simp: destroy_writes_def touched_def)
qed


lemma shares_return:
  assumes "shares H F B"
  shows "shares (H(t := {})) (H t \<union> F) B"
proof -
  have "(\<Union>u. H u) = H t \<union> (\<Union>u. (H(t := {})) u)" by auto
  moreover have "(H(t := {})) u \<inter> (H t \<union> F) = {}" for u
    using assms by (cases "u = t") (auto simp: shares_def)
  ultimately show ?thesis using assms by (auto simp: shares_def)
qed

lemma bucket_ok_return:
  assumes ok: "bucket_ok e n m b c free dead" and sep: "\<And>u. u \<noteq> t \<Longrightarrow> store_span (c u) \<inter> store_span (c t) = {}"
    and so: "same_outside (store_span (c t) \<union> links (pData b) (cached m (c t))) m m'"
    and ch: "chain m' (pData b) (head b') (cached m (c t) @ free)" and pd: "pData b' = pData b"
    and c0: "cached m' c0 = []" "cache_wf e n (pData b) c0"
  shows "bucket_ok e n m' b' (c(t := c0)) (cached m (c t) @ free) dead"
proof -
  note B = bucket_okD [OF ok] and C = bucket_ok_cacheD [OF ok]
  have "links (pData b) (cached m (c t)) \<subseteq> blocks_span e n (pData b)"
    using C(3) [of t] B(5) by (intro links_blocks_span [OF B(1)]) blast
  then have cu: "cached m' (c u) = cached m (c u)" if "u \<noteq> t" for u
    using sep [OF that] cache_wf_store [OF C(1), of u] by (intro cached_frame' [OF C(1) so]) blast
  have "(\<lambda>u. set (cached m' ((c(t := c0)) u))) = (\<lambda>u. set (cached m (c u)))(t := {})"
    using cu c0(1) by (auto simp: fun_eq_iff)
  then have "shares (\<lambda>u. set (cached m' ((c(t := c0)) u))) (set (cached m (c t) @ free)) dead"
    using shares_return [OF B(4), of t] by simp
  moreover have "distinct (cached m (c t) @ free)" using B(3) C(2,4) [of t] by auto
  moreover have "cache_wf e n (pData b') ((c(t := c0)) u) \<and> distinct (cached m' ((c(t := c0)) u))" for u
    using C(1,2) [of u] c0 cu pd by (cases "u = t") auto
  ultimately show ?thesis using B(1,5) ch pd unfolding bucket_ok_def by auto
qed

text \<open>What a thread's turn for bucket \<open>i\<close> leaves: an unused cache, its blocks in front of the free list, its stack released.\<close>

definition destroyed ::
    "partitioning \<Rightarrow> nat \<Rightarrow> nat set \<Rightarrow> world \<Rightarrow> world \<Rightarrow> (nat \<Rightarrow> u32 set) \<Rightarrow> (nat \<Rightarrow> u32 list) \<Rightarrow>
       (nat \<Rightarrow> nat \<Rightarrow> addr \<times> size_t) \<Rightarrow> addr \<times> size_t \<Rightarrow> bool" where
  "destroyed sch t I w w' D F R B \<longleftrightarrow>
     world_inv sch w' D (\<lambda>i. if i \<in> I \<and> i < nb w then cached (wmem w) (caches w i t) @ F i else F i) R B \<and>
     bucketsCount (alloc w') = bucketsCount (alloc w) \<and> bucketSizeInBytes (alloc w') = bucketSizeInBytes (alloc w) \<and>
     pBuffer (alloc w') = pBuffer (alloc w) \<and>
     (\<forall>j < 62. \<forall>u. if u = t \<and> j \<in> I then unused_cache (caches w' j u) else caches w' j u = caches w j u) \<and>
     (\<forall>u. u \<noteq> t \<longrightarrow> tls w' u = tls w u) \<and>
     set (live (wheap w')) = set (live (wheap w)) - stacks w R t I \<and>
     infrastructure w' R B = infrastructure w R B - stacks w R t I \<and>
     same_outside (\<Union>i \<in> {i \<in> I. i < nb w}. destroy_writes w t i) (wmem w) (wmem w')"

lemma destroy_step:
  assumes inv: "world_inv sch w D F R B" and i: "i < 62"
    and s: "in_use (caches w i t) \<or> unused_cache (caches w i t)"
  shows "\<exists>w'. DestroyThreadCache_loop t (i # is) w = DestroyThreadCache_loop t is w' \<and> destroyed sch t {i} w w' D F R B"
proof -
  let ?c = "caches w i t" and ?i = "word_of_nat i :: size_t" and ?b = "buckets (alloc w) ! i"
  note I = world_invD [OF inv] note L = I(1) note l = layoutD [OF L]
  have ui: "unat ?i = i" using i by (intro unat_of_nat_small) simp
  have c: "tls w t ! i = ?c" by (simp add: caches_def)
  show ?thesis
  proof (cases "in_use ?c")
    case False
    then have un: "unused_cache ?c" using s by blast
    have "set_tls t ?i ?c (set_bucket ?i ?b (set_wmem (wmem w) w)) = w"
      by (simp add: set_tls_def set_bucket_def set_wmem_def caches_def ui)
    then have "DestroyThreadCache_loop t (i # is) w = DestroyThreadCache_loop t is w"
      by (simp add: c Destroy_unused [OF un] set_wmem_def)
    moreover have "(\<lambda>j. if j \<in> {i} \<and> j < nb w then cached (wmem w) (caches w j t) @ F j else F j) = F"
      using unused_cacheD(6) [OF un] by auto
    ultimately show ?thesis
      using inv un False unfolding destroyed_def stacks_def by (intro exI [of _ w]) auto
  next
    case True
    note S = layout_store [OF L i True]
    have n: "i < nb w" by (rule S(1))
    note ok = I(4) [OF n]
    have pd: "pData ?b = base_of w i" by (rule I(3) [OF n])
    obtain c' b' m' where E: "TlsPoolBucket_Destroy ?c ?b (wmem w) = (pStorageL1 ?c, c', b', m')" "unused_cache c'"
      "chain m' (pData ?b) (head b') (cached (wmem w) ?c @ F i)" "pData b' = pData ?b"
      "same_outside (storage_span ?c \<union> links (pData ?b) (cached (wmem w) ?c)) (wmem w) m'"
      by (rule Destroy_effect [OF bucket_ok_cache [OF ok] True])
    have so: "same_outside (destroy_writes w t i) (wmem w) m'"
      using E(5) True pd by (simp add: destroy_writes_def store_span_def)
    have tch: "destroy_writes w t i \<subseteq> touched w t i" by (rule destroy_writes_touched [OF inv n])
    define c0 where "c0 = ?c\<lparr>numElementsL1 := 0, numElementsL0 := 0\<rparr>"
    let ?u = "set_bucket ?i b' (set_wmem m' w)"
    let ?w0 = "set_tls t ?i c0 ?u" and ?w1 = "set_tls t ?i c' ?u"
    have wf0: "cache_wf (esz sch i) (bsz w div esz sch i) (pData ?b) c0"
      using bucket_ok_cacheD(1) [OF ok, of t] True by (auto simp: c0_def cache_wf_def storage_span_def)
    have st: "one_bucket_step w t i b' c0 m' ?w0"
      by (auto simp: one_bucket_step_def set_tls_def set_bucket_def set_wmem_def ui intro!: exI [of _ "globalStats (alloc w)"])
    have e0: "cached m' c0 = []" by (simp add: c0_def cached_def l1_items_def l0_items_def)
    have "bucket_ok (esz sch i) (bsz w div esz sch i) m' b' ((caches w i)(t := c0)) (cached (wmem w) ?c @ F i) (D i)"
      by (rule bucket_ok_return [OF ok bucket_separation [OF L n] so [unfolded destroy_writes_def, folded pd] E(3,4) e0 wf0])
    then have inv0: "world_inv sch ?w0 (D(i := D i)) (F(i := cached (wmem w) ?c @ F i)) R B"
      using so tch E(4) by (intro world_inv_update [OF inv n st]) (auto simp: c0_def elim: same_outside_mono)
    note S0 = one_bucket_stepD [OF st] and C0 = one_bucket_caches [OF st l(11) i]
    have c0i: "caches ?w0 i t = c0" by (simp add: C0)
    have w1: "set_tls t ?i c' ?w0 = ?w1" by (simp add: set_tls_def ui)
    have n0: "i < nb ?w0" using n S0(3) by simp
    have cl: "world_inv sch ?w1 D (F(i := cached (wmem w) ?c @ F i)) R B"
      "infrastructure ?w1 R B = infrastructure ?w0 R B - {R t i}"
      using cache_closed [OF inv0 n0 _ _ E(2), of t] c0i e0 S0(1) True unfolding w1 by (simp_all add: c0_def)
    have inf: "infrastructure ?w1 R B = infrastructure w R B - {R t i}"
      unfolding cl(2) by (rule arg_cong [of _ _ "\<lambda>x. x - {R t i}"]) (rule infrastructure_frame, rule same_frame_step [OF st L n], simp add: c0_def)
    have g0: "generic_block (wheap ?w0) (pStorageL1 ?c) (word_of_nat (4 * (unat (maxElementsCount ?c) + 7))) (R t i)"
      using layout_store(3) [OF world_invD(1) [OF inv0] i, of t] True unfolding c0i by (simp add: c0_def)
    have g: "generic_block (wheap ?w1) (pStorageL1 ?c) (word_of_nat (4 * (unat (maxElementsCount ?c) + 7))) (R t i)"
      using g0 by (simp add: wheap_upd)
    note l1 = layoutD [OF world_invD(1) [OF cl(1)]]
    obtain h where h: "GenericAllocator_Free (pStorageL1 ?c) (wheap ?w1) = Inr h" "hmem h = wmem ?w1"
      "set (live h) = set (live (wheap ?w1)) - {R t i}" "heap_wf h"
      by (rule GenericAllocator_Free_block [OF l1(1) g])
    let ?w2 = "?w1\<lparr>wheap := h\<rparr>"
    have W1: "wmem ?w1 = m'" "live (wheap ?w1) = live (wheap w)" by (simp_all add: set_wmem_def wheap_upd)
    have "world_inv sch ?w2 D (F(i := cached (wmem w) ?c @ F i)) R B"
    proof (rule world_inv_heap [OF cl(1) h(4), of "{}"])
      fix d assume d: "d \<in> infrastructure ?w1 R B"
      obtain q k where "generic_block (wheap ?w1) q k d" by (rule infrastructure_live [OF world_invD(1) [OF cl(1)] d])
      then show "d \<in> set (live h) \<and> raw_span d \<inter> {} = {}" using d cl(2) h(3) by (simp add: generic_block_def)
    qed (simp add: h(2))
    moreover have "(\<lambda>j. if j \<in> {i} \<and> j < nb w then cached (wmem w) (caches w j t) @ F j else F j) = F(i := cached (wmem w) ?c @ F i)"
      using n by auto
    moreover have "DestroyThreadCache_loop t (i # is) w = DestroyThreadCache_loop t is ?w2"
      using E(1) h(1) by (simp add: c wheap_upd)
    moreover have "caches ?w2 j u = (if u = t \<and> j = i then c' else caches w j u)" if "j < 62" for j u
    proof -
      have "caches ?w1 j u = (if u = t \<and> j = i then c' else caches ?w0 j u)"
        using set_tls_caches [of ?w0 t ?i c' j] l(11) i ui S0(10) unfolding w1 by simp
      moreover have "caches ?w0 j u = (if u = t \<and> j = i then c0 else caches w j u)" by (simp add: C0)
      moreover have "caches ?w2 j u = caches ?w1 j u" by (simp add: caches_def)
      ultimately show ?thesis by simp
    qed
    moreover have "stacks w R t {i} = {R t i}" using True by (simp add: stacks_def)
    moreover have "infrastructure ?w2 R B = infrastructure ?w1 R B" by (simp add: infrastructure_def caches_def)
    moreover have "{j \<in> {i}. j < nb w} = {i}" using n by auto
    ultimately show ?thesis
      using E(2) inf h(2,3) W1 so unfolding destroyed_def
      by (intro exI [of _ ?w2]) (auto simp: set_tls_def set_bucket_def set_wmem_def)
  qed
qed


lemma destroyedD:
  assumes "destroyed sch t I w w' D F R B"
  shows "world_inv sch w' D (\<lambda>i. if i \<in> I \<and> i < nb w then cached (wmem w) (caches w i t) @ F i else F i) R B"
    "nb w' = nb w" "base_of w' = base_of w"
    "j < 62 \<Longrightarrow> (u, j) \<notin> {t} \<times> I \<Longrightarrow> caches w' j u = caches w j u"
    "j < 62 \<Longrightarrow> j \<in> I \<Longrightarrow> unused_cache (caches w' j t)"
    "same_outside (\<Union>i \<in> {i \<in> I. i < nb w}. destroy_writes w t i) (wmem w) (wmem w')"
  using assms by (auto simp: destroyed_def base_of_def fun_eq_iff)

text \<open>The turns for different buckets do not disturb each other.\<close>

lemma destroyed_other:
  assumes inv: "world_inv sch w D F R B" and d: "destroyed sch t {i} w w' D F R B" and i: "i < 62"
    and s: "in_use (caches w i t) \<or> unused_cache (caches w i t)" and j: "j < 62" "j \<noteq> i" "j < nb w"
  shows "cached (wmem w') (caches w' j t) = cached (wmem w) (caches w j t)"
proof -
  note L = world_invD(1) [OF inv]
  have c: "caches w' j t = caches w j t" using destroyedD(4) [OF d j(1)] j(2) by simp
  have "store_span (caches w j t) \<inter> (\<Union>i \<in> {k \<in> {i}. k < nb w}. destroy_writes w t i) = {}"
    using store_apart [OF L _ j(1), of i t t] destroy_writes_touched [OF inv, of i t] j(2) by auto
  then show ?thesis
    unfolding c by (rule cached_frame' [OF bucket_ok_cacheD(1) [OF world_invD(4) [OF inv j(3)]] destroyedD(6) [OF d]])
qed

lemma destroyed_insert:
  assumes inv: "world_inv sch w D F R B" and i: "i < 62" and s: "in_use (caches w i t) \<or> unused_cache (caches w i t)"
    and d1: "destroyed sch t {i} w w1 D F R B"
    and d2: "destroyed sch t I w1 w2 D (\<lambda>j. if j \<in> {i} \<and> j < nb w then cached (wmem w) (caches w j t) @ F j else F j) R B"
    and I: "i \<notin> I" "\<forall>j \<in> I. j < 62"
  shows "destroyed sch t (insert i I) w w2 D F R B"
proof -
  note D1 = destroyedD [OF d1] and D2 = destroyedD [OF d2]
  have c: "caches w1 j t = caches w j t" if "j \<in> I" for j using D1(4) [of j t] that I by auto
  have k: "cached (wmem w1) (caches w1 j t) = cached (wmem w) (caches w j t)" if "j \<in> I" "j < nb w" for j
    using destroyed_other [OF inv d1 i s, of j] that I by auto
  have "(\<lambda>j. if j \<in> I \<and> j < nb w1 then cached (wmem w1) (caches w1 j t) @
         (if j \<in> {i} \<and> j < nb w then cached (wmem w) (caches w j t) @ F j else F j)
       else if j \<in> {i} \<and> j < nb w then cached (wmem w) (caches w j t) @ F j else F j) =
      (\<lambda>j. if j \<in> insert i I \<and> j < nb w then cached (wmem w) (caches w j t) @ F j else F j)"
    using k I(1) D1(2) by (auto simp: fun_eq_iff)
  then have "world_inv sch w2 D (\<lambda>j. if j \<in> insert i I \<and> j < nb w then cached (wmem w) (caches w j t) @ F j else F j) R B"
    using D2(1) by simp
  moreover have "if u = t \<and> j \<in> insert i I then unused_cache (caches w2 j u) else caches w2 j u = caches w j u" if "j < 62" for j u
    using D1(4,5) [OF that] D2(4,5) [OF that] I by (auto split: if_splits)
  moreover have "stacks w1 R t I = stacks w R t I" "stacks w R t (insert i I) = stacks w R t {i} \<union> stacks w R t I"
    using c by (auto simp: stacks_def)
  moreover have "destroy_writes w1 t j = destroy_writes w t j" if "j \<in> I" "j < nb w" for j
    using k [OF that] c [OF that(1)] D1(3) by (simp add: destroy_writes_def)
  then have "(\<Union>j \<in> {k \<in> {i}. k < nb w}. destroy_writes w t j) \<union> (\<Union>j \<in> {k \<in> I. k < nb w1}. destroy_writes w1 t j)
      \<subseteq> (\<Union>j \<in> {k \<in> insert i I. k < nb w}. destroy_writes w t j)"
    using D1(2) by auto
  then have "same_outside (\<Union>j \<in> {k \<in> insert i I. k < nb w}. destroy_writes w t j) (wmem w) (wmem w2)"
    by (rule same_outside_mono [OF same_outside_trans [OF D1(6) D2(6)]])
  moreover have "set (live (wheap w2)) = set (live (wheap w)) - (stacks w R t {i} \<union> stacks w1 R t I)"
    "infrastructure w2 R B = infrastructure w R B - (stacks w R t {i} \<union> stacks w1 R t I)"
    using d1 d2 by (auto simp: destroyed_def)
  ultimately show ?thesis using d1 d2 unfolding destroyed_def by simp
qed

lemma destroy_loop:
  assumes "world_inv sch w D F R B" and "distinct is" and "\<forall>i \<in> set is. i < 62"
    and "\<forall>i \<in> set is. in_use (caches w i t) \<or> unused_cache (caches w i t)"
  shows "\<exists>w'. DestroyThreadCache_loop t is w = Inr w' \<and> destroyed sch t (set is) w w' D F R B"
  using assms
proof (induction "is" arbitrary: w F)
  case Nil
  then show ?case by (simp add: destroyed_def stacks_def)
next
  case (Cons i js)
  have i: "i < 62" "in_use (caches w i t) \<or> unused_cache (caches w i t)" using Cons.prems by auto
  obtain w1 where W: "DestroyThreadCache_loop t (i # js) w = DestroyThreadCache_loop t js w1"
    "destroyed sch t {i} w w1 D F R B"
    using destroy_step [OF Cons.prems(1) i] by blast
  note D = destroyedD [OF W(2)]
  have "caches w1 j t = caches w j t" if "j \<in> set js" for j using D(4) [of j t] that Cons.prems(2,3) by auto
  then have "\<forall>j \<in> set js. in_use (caches w1 j t) \<or> unused_cache (caches w1 j t)" using Cons.prems(4) by simp
  then obtain w2 where V: "DestroyThreadCache_loop t js w1 = Inr w2"
    "destroyed sch t (set js) w1 w2 D (\<lambda>j. if j \<in> {i} \<and> j < nb w then cached (wmem w) (caches w j t) @ F j else F j) R B"
    using Cons.IH [OF D(1)] Cons.prems(2,3) by auto
  have "destroyed sch t (insert i (set js)) w w2 D F R B"
    using Cons.prems(2,3) by (intro destroyed_insert [OF Cons.prems(1) i W(2) V(2)]) auto
  then show ?case using W(1) V(1) by auto
qed


section \<open>The client does not notice\<close>

lemma dead_writes_apart:
  assumes inv: "world_inv sch w D F R B" and G: "generics_ok w R B G" and i: "i < nb w" and xs: "set xs \<subseteq> D i"
    and o: "(q, m) \<in> client_owned sch w D G"
  shows "span q m \<inter> (store_span (caches w i t) \<union> links (base_of w i) xs) = {}"
proof -
  note L = world_invD(1) [OF inv]
  have i62: "i < 62" using i layoutD(3) [OF L] by simp
  have "span q m \<inter> store_span (caches w i t) = {}"
  proof (cases "in_use (caches w i t)")
    case True
    then show ?thesis using store_raw_disjoint [OF inv G i62 True o] store_in_raw(2) [OF L i62 True] by blast
  qed (simp add: store_span_def)
  moreover have "span q m \<inter> span (base_of w i + ucast y) 8 = {}" if "y \<in> set xs" for y
    using taken_disjoint [OF inv G i _ o, of y] span_mono [OF esz_pos [OF inv i], of "base_of w i + ucast y"] xs that by blast
  ultimately show ?thesis unfolding links_def by blast
qed

lemma generic_apart_touched:
  assumes L: "layout_ok w R B" and i: "i < nb w" and c: "client_block w R B q k b"
  shows "raw_span b \<inter> touched w t i = {}"
proof (rule touched_other [OF L i])
  show "generic_block (wheap w) q k b" "b \<noteq> B" using c by (auto simp: client_block_def infrastructure_def)
  show "b \<noteq> R t i" if "in_use (caches w i t)"
    using c that i layoutD(3) [OF L] by (auto simp: client_block_def infrastructure_def)
qed

lemma owned_same:
  assumes "nb w' = nb w" "bsz w' = bsz w" "base_of w' = base_of w"
  shows "client_owned sch w' D G = client_owned sch w D G"
  using assms by (simp add: client_owned_def pool_block_def)

lemma holdsI: "world_inv sch w D F R B \<Longrightarrow> generics_ok w R B G \<Longrightarrow> client_owned sch w D G = O' \<Longrightarrow> client_holds sch w O'"
  unfolding client_holds_def by blast

lemma destroyed_holds:
  assumes inv: "world_inv sch w D F R B" and G: "generics_ok w R B G" and d: "destroyed sch t I w w' D F R B"
    and I: "\<forall>i \<in> I. i < 62"
  shows "client_holds sch w' (client_owned sch w D G)" "keeps w w' (client_owned sch w D G)"
proof -
  note L = world_invD(1) [OF inv] note D = destroyedD [OF d]
  have st: "stacks w R t I \<subseteq> infrastructure w R B" using I by (auto simp: stacks_def infrastructure_def)
  have lv: "set (live (wheap w')) = set (live (wheap w)) - stacks w R t I"
    "infrastructure w' R B = infrastructure w R B - stacks w R t I" using d by (simp_all add: destroyed_def)
  have tch: "destroy_writes w t i \<subseteq> touched w t i" if "i < nb w" for i by (rule destroy_writes_touched [OF inv that])
  have "client_block w' R B q k b" if m: "(q, k, b) \<in> G" for q k b
  proof -
    have c: "client_block w R B q k b" by (rule generics_okD(1) [OF G m])
    then have b: "generic_block (wheap w) q k b" "b \<notin> infrastructure w R B" "b \<in> set (live (wheap w))"
      by (auto simp: client_block_def generic_block_def)
    have "raw_span b \<inter> (\<Union>i \<in> {i \<in> I. i < nb w}. destroy_writes w t i) = {}"
      using generic_apart_touched [OF L _ c] tch by blast
    then have "generic_block (wheap w') q k b"
      using b lv(1) st by (intro generic_block_other(1) [OF layoutD(1) [OF L] b(1) _ D(6)]) auto
    then show ?thesis using c b(2) lv(2) by (simp add: client_block_def)
  qed
  then have G': "generics_ok w' R B G" using G by (auto simp: generics_ok_def)
  have "bsz w' = bsz w" using d by (simp add: destroyed_def)
  then have "client_owned sch w' D G = client_owned sch w D G" by (rule owned_same [OF D(2) _ D(3)])
  then show "client_holds sch w' (client_owned sch w D G)" by (rule holdsI [OF D(1) G'])
  show "keeps w w' (client_owned sch w D G)"
  proof (rule keepsI [OF D(6)])
    fix q m assume o: "(q, m) \<in> client_owned sch w D G"
    have "span q m \<inter> destroy_writes w t i = {}" if i: "i < nb w" for i
      unfolding destroy_writes_def
      using bucket_ok_cacheD(3) [OF world_invD(4) [OF inv i]] by (intro dead_writes_apart [OF inv G i _ o])
    then show "span q m \<inter> (\<Union>i \<in> {i \<in> I. i < nb w}. destroy_writes w t i) = {}" by blast
  qed
qed

section \<open>What can be observed\<close>

text \<open>The free list of bucket \<open>i\<close>, first block first.\<close>

definition free_list :: "world \<Rightarrow> nat \<Rightarrow> u32 list \<Rightarrow> bool" where
  "free_list w i xs \<longleftrightarrow> chain (wmem w) (base_of w i) (head (buckets (alloc w) ! i)) xs"

lemma world_free_list: "world_inv sch w D F R B \<Longrightarrow> i < nb w \<Longrightarrow> free_list w i (F i)"
  unfolding free_list_def by (subst world_invD(3) [symmetric]) (auto intro: bucket_okD(2) [OF world_invD(4)])

lemma stacks_raw:
  assumes inv: "world_inv sch w D F R B"
  shows "set (live (wheap w)) - stacks w R t {..<62} =
    {b \<in> set (live (wheap w)). \<forall>i < 62. in_use (caches w i t) \<longrightarrow> fst b \<noteq> load64 (wmem w) (pStorageL1 (caches w i t) - 16)}"
proof -
  note L = world_invD(1) [OF inv]
  have g: "R t i \<in> set (live (wheap w))" "fst (R t i) = load64 (wmem w) (pStorageL1 (caches w i t) - 16)"
    if "i < 62" "in_use (caches w i t)" for i
    using layout_store(3) [OF L that] by (simp_all add: generic_block_def)
  have "b = R t i \<longleftrightarrow> fst b = load64 (wmem w) (pStorageL1 (caches w i t) - 16)"
    if b: "b \<in> set (live (wheap w))" and i: "i < 62" "in_use (caches w i t)" for b i
  proof
    assume f: "fst b = load64 (wmem w) (pStorageL1 (caches w i t) - 16)"
    then have "(fst b, snd b) \<in> set (live (wheap w))" "(fst b, snd (R t i)) \<in> set (live (wheap w))"
      using b g [OF i] by (metis prod.collapse)+
    then have "snd b = snd (R t i)" by (rule heap_wf_unique [OF layoutD(1) [OF L]])
    then show "b = R t i" using f g(2) [OF i] by (simp add: prod_eq_iff)
  qed (simp add: g(2) [OF i])
  then have "b \<in> stacks w R t {..<62} \<longleftrightarrow> (\<exists>i < 62. in_use (caches w i t) \<and> fst b = load64 (wmem w) (pStorageL1 (caches w i t) - 16))"
    if "b \<in> set (live (wheap w))" for b
    using that unfolding stacks_def mem_Collect_eq lessThan_iff by blast
  then show ?thesis by blast
qed

end
