(* ===== verification/Allocator_Warmup.thy ===== *)
theory Allocator_Warmup
  imports Allocator_Caches
begin

text \<open>
  \<open>CreateThreadCache\<close>: the stacks are allocated, and each cache is warmed up with blocks that \<open>Allocate\<close> takes and
  \<open>ReleaseToCache\<close> puts back. At the end stand the properties of creation and destruction.
\<close>

section \<open>What requests of a thread leave alone\<close>

definition setup_kept :: "nat \<Rightarrow> world \<Rightarrow> world \<Rightarrow> bool" where
  "setup_kept t w w' \<longleftrightarrow>
     bucketsCount (alloc w') = bucketsCount (alloc w) \<and> bucketSizeInBytes (alloc w') = bucketSizeInBytes (alloc w) \<and>
     bucketsDataBegin (alloc w') = bucketsDataBegin (alloc w) \<and> (\<forall>u. u \<noteq> t \<longrightarrow> tls w' u = tls w u) \<and>
     (\<forall>j < 62. maxElementsCount (caches w' j t) = maxElementsCount (caches w j t) \<and>
        (unused_cache (caches w j t) \<longrightarrow> caches w' j t = caches w j t))"

lemma setup_kept_refl [simp]: "setup_kept t w w"
  by (simp add: setup_kept_def)

lemma setup_kept_trans: "setup_kept t w w1 \<Longrightarrow> setup_kept t w1 w2 \<Longrightarrow> setup_kept t w w2"
  unfolding setup_kept_def by simp

text \<open>Statistics, buckets and memory do not matter.\<close>

lemma setup_kept_cong:
  assumes "tls v = tls w" and "bucketsCount (alloc v) = bucketsCount (alloc w)"
    and "bucketSizeInBytes (alloc v) = bucketSizeInBytes (alloc w)" and "bucketsDataBegin (alloc v) = bucketsDataBegin (alloc w)"
  shows "setup_kept t u v = setup_kept t u w" "setup_kept t v u = setup_kept t w u"
  using assms by (simp_all add: setup_kept_def caches_def)

lemma setup_kept_upd [simp]:
  "setup_kept t u (upd_stats f w) = setup_kept t u w" "setup_kept t (upd_stats f w) u = setup_kept t w u"
  "setup_kept t u (upd_bucket_stats i g w) = setup_kept t u w" "setup_kept t (upd_bucket_stats i g w) u = setup_kept t w u"
  "setup_kept t u (set_bucket i b w) = setup_kept t u w" "setup_kept t (set_bucket i b w) u = setup_kept t w u"
  "setup_kept t u (set_wmem m w) = setup_kept t u w" "setup_kept t (set_wmem m w) u = setup_kept t w u"
  "setup_kept t u (w\<lparr>wheap := h\<rparr>) = setup_kept t u w" "setup_kept t (w\<lparr>wheap := h\<rparr>) u = setup_kept t w u"
  by (rule setup_kept_cong; simp add: upd_stats_def upd_bucket_stats_def set_bucket_def set_wmem_def Let_def)+

lemma setup_kept_tls:
  assumes "maxElementsCount c = maxElementsCount (GetTlsBucket t i w)"
    and "unused_cache (GetTlsBucket t i w) \<Longrightarrow> c = GetTlsBucket t i w"
  shows "setup_kept t w (set_tls t i c w)"
proof -
  have "caches (set_tls t i c w) j t = (if j = unat i \<and> j < length (tls w t) then c else caches w j t)" for j
    by (cases "unat i < length (tls w t)") (auto simp: set_tls_def caches_def list_update_beyond)
  then show ?thesis using assms by (auto simp: setup_kept_def GetTlsBucket_def caches_def set_tls_def)
qed

lemma AllocFromCache_kept:
  assumes "AllocFromCache c m = (p, c')"
  shows "maxElementsCount c' = maxElementsCount c" "unused_cache c \<Longrightarrow> c' = c"
  using assms by (auto simp: AllocFromCache_def Let_def unused_cache_def split: if_splits)

lemma ReleaseToCache_kept:
  assumes "ReleaseToCache uc p c b m = (r, c', b', m')"
  shows "maxElementsCount c' = maxElementsCount c" "unused_cache c \<Longrightarrow> c' = c"
  using assms by (auto simp: ReleaseToCache_def ReturnL1CacheToMaster_def Let_def unused_cache_def split: if_splits prod.splits)

lemma Allocate_loop_kept:
  assumes "Allocate_loop sch st al maxB i w = Some r" shows "setup_kept t w (snd r)"
proof (rule Allocate_loop.raw_induct [where P = "\<lambda>sch st al maxB i w r. setup_kept t w (snd r)", OF _ assms], goal_cases)
  case (1 f sch st al maxB i w r)
  show ?case using 1(2) by (auto simp: Let_def split: prod.splits if_splits dest!: 1(1))
qed

lemma GetTlsBucket_upd [simp]:
  "GetTlsBucket t i (upd_stats f w) = GetTlsBucket t i w" "GetTlsBucket t i (upd_bucket_stats j g w) = GetTlsBucket t i w"
  "GetTlsBucket t i (set_bucket j b w) = GetTlsBucket t i w" "GetTlsBucket t i (set_wmem m w) = GetTlsBucket t i w"
  by (simp_all add: GetTlsBucket_def upd_stats_def upd_bucket_stats_def set_bucket_def set_wmem_def Let_def)

lemma cache_step_kept:
  "AllocFromCache (GetTlsBucket t i w) m = (p, c) \<Longrightarrow> setup_kept t w (set_tls t i c w)"
  "ReleaseToCache uc q (GetTlsBucket t i w) b m = (r, c, b', m') \<Longrightarrow> setup_kept t w (set_tls t i c w)"
  using AllocFromCache_kept ReleaseToCache_kept by (metis setup_kept_tls)+

lemma Allocate_kept:
  assumes "Allocate sch env st t n al w = Inr (p, w')" shows "setup_kept t w w'"
proof (cases "n = 0")
  case False
  define w1 where "w1 = (if st then upd_stats (\<lambda>s. s\<lparr>totalNumAllocationAttempts := totalNumAllocationAttempts s + 1\<rparr>) w else w)"
  let ?i = "GetBucketIndexBySize sch (Align n al)"
  obtain p1 c where c: "AllocFromCache (GetTlsBucket t ?i w1) (wmem w1) = (p1, c)" by fastforce
  define w2 where "w2 = (if ?i < bucketsCount (alloc w1) then set_tls t ?i c w1 else w1)"
  have k: "setup_kept t w w2" using cache_step_kept(1) [OF c] by (cases st) (simp_all add: w1_def w2_def)
  have "Allocate sch env st t n al w =
     (let (pRes, w) = (if ?i < bucketsCount (alloc w1) then p1 else 0, w2)
      in if pRes \<noteq> 0
            then
              (if st
               then Inr (pRes, upd_bucket_stats ?i (\<lambda>s. s\<lparr>cacheHitCount := cacheHitCount s + 1\<rparr>)
                      (upd_stats (\<lambda>s. s\<lparr>totalAllocationsServed := totalAllocationsServed s + 1\<rparr>) w))
               else Inr (pRes, w))
            else
              (let maxBucketIndex = Min (bucketsCount (alloc w)) (?i + 4)
               in case Allocate_loop sch st al maxBucketIndex ?i w of
                    None \<Rightarrow> Inl No_Return
                  | Some (pRes, w) \<Rightarrow>
                      if pRes \<noteq> 0 then Inr (pRes, w)
                      else
                        (let w = (if st
                                  then upd_stats (\<lambda>s. s\<lparr>totalAllocationsRoutedToDefaultAllocator :=
                                           totalAllocationsRoutedToDefaultAllocator s + 1\<rparr>)
                                    (if ?i < bucketsCount (alloc w1)
                                     then upd_stats (\<lambda>s. s\<lparr>routingReasonSaturation := routingReasonSaturation s + 1\<rparr>) w
                                     else upd_stats (\<lambda>s. s\<lparr>routingReasonBySize := routingReasonBySize s + 1\<rparr>) w)
                                  else w);
                             (p, h) = GenericAllocator_Alloc env n al (wheap w)
                         in Inr (p, w\<lparr>wheap := h\<rparr>))))"
    using False c by (simp add: Allocate_def Let_def w2_def flip: w1_def)
  then show ?thesis
    using assms k Allocate_loop_kept [of sch st al _ ?i w2 _ t]
    by (auto simp: Let_def split: if_splits option.splits prod.splits intro: setup_kept_trans)
qed (use assms in \<open>simp add: Allocate_def\<close>)

lemma Allocator_Free_kept:
  assumes "Allocator_Free t p w = Inr w'" shows "setup_kept t w w'"
proof -
  have "setup_kept t w (set_tls t i c (set_bucket i b (set_wmem m (upd_bucket_stats i f w))))"
    if "ReleaseToCache True p (GetTlsBucket t i (upd_bucket_stats i f w)) b0 m0 = (r, c, b, m)" for i f b0 m0 r c b m
    using cache_step_kept(2) [of True p t i "set_bucket i b (set_wmem m (upd_bucket_stats i f w))"] that by simp
  then show ?thesis
    using assms by (auto simp: Allocator_Free_def Let_def bindE_Inr split: if_splits prod.splits)
qed


section \<open>Blocks of the client in one bucket\<close>

text \<open>The address of a held block tells where it comes from.\<close>

lemma held_in_bucket:
  assumes inv: "world_inv sch w D F R B" and G: "generics_ok w R B G" and o: "(p, n) \<in> client_owned sch w D G"
    and f: "FindBucket p (alloc w) = Inr i" "i < bucketsCount (alloc w)"
  obtains x where "pool_block sch w D (unat i) x" "p = base_of w (unat i) + ucast x" "n = esz sch (unat i)"
  using o
proof (cases rule: owned_cases)
  case (pool j x)
  have j: "j < nb w" "x \<in> set (block_offsets (esz sch j) (bsz w div esz sch j))" using pool(1) by (auto simp: pool_block_def)
  have "i = word_of_nat j" using block_ptr(4) [OF inv j] f(1) pool(2) by simp
  moreover have "unat (word_of_nat j :: size_t) = j"
    using j(1) layoutD(3) [OF world_invD(1) [OF inv]] by (intro unat_of_nat_small) simp
  ultimately show thesis using that pool by simp
next
  case (generic k b)
  note O = client_outside_buffer [OF world_invD(1) [OF inv] generics_okD(1) [OF G generic(1)]]
  show thesis using O(2,3) f by simp
qed

lemma Release_pool_block:
  assumes inv: "world_inv sch w D F R B" and pb: "pool_block sch w D i x" and u: "in_use (caches w i t)"
    and r: "ReleaseToCache uc (base_of w i + ucast x) (GetTlsBucket t (word_of_nat i) w) (buckets (alloc w) ! i) (wmem w) = (r, c, b, m)"
  defines "w' \<equiv> set_tls t (word_of_nat i) c (set_bucket (word_of_nat i) b (set_wmem m w))"
  shows "\<exists>F'. world_inv sch w' (D(i := insert x (D i))) F' R B" "same_frame w w'" "live (wheap w') = live (wheap w)"
    "same_outside (free_writes w t i x) (wmem w) (wmem w')"
proof -
  note I = world_invD [OF inv] note L = I(1) note l = layoutD [OF L]
  have i: "i < nb w" and x: "x \<in> set (block_offsets (esz sch i) (bsz w div esz sch i))" "x \<notin> D i"
    using pb by (auto simp: pool_block_def)
  note ok = I(4) [OF i]
  let ?b = "buckets (alloc w) ! i" and ?c = "caches w i"
  have pd: "pData ?b = base_of w i" by (rule I(3) [OF i])
  have ui: "unat (word_of_nat i :: size_t) = i" using i l(3) by (intro unat_of_nat_small) simp
  have tb: "GetTlsBucket t (word_of_nat i) w = ?c t" by (simp add: GetTlsBucket_def caches_def ui)
  from bucket_ok_release [OF ok x u, of uc] bucket_separation [OF L i]
  obtain c2 b2 m2 free' where R: "ReleaseToCache uc (pData ?b + ucast x) (?c t) ?b (wmem w) = (True, c2, b2, m2)"
    "bucket_ok (esz sch i) (bsz w div esz sch i) m2 b2 (?c(t := c2)) free' (insert x (D i))" "pData b2 = pData ?b"
    "maxElementsCount c2 = maxElementsCount (?c t)"
    "same_outside (store_span (?c t) \<union> links (pData ?b) (cached (wmem w) (?c t))) (wmem w) m2" by metis
  have e: "c = c2" "b = b2" "m = m2" using r R(1) pd tb by simp_all
  have st: "one_bucket_step w t i b c m w'"
    by (auto simp: w'_def one_bucket_step_def set_tls_def set_bucket_def set_wmem_def ui intro!: exI [of _ "globalStats (alloc w)"])
  have so: "same_outside (free_writes w t i x) (wmem w) m"
    using R(5) unfolding e by (rule same_outside_mono) (auto simp: free_writes_def pd)
  have s: "pStorageL1 c = pStorageL1 (?c t)" using ReleaseToCache_storage [OF r] tb by simp
  have "world_inv sch w' (D(i := insert x (D i))) (F(i := free')) R B"
    using R e so s free_writes_touched [OF inv pb, of t]
    by (intro world_inv_update [OF inv i st]) (auto elim: same_outside_mono)
  then show "\<exists>F'. world_inv sch w' (D(i := insert x (D i))) F' R B" by blast
  show "same_frame w w'" using same_frame_step [OF st L i] R(4) e(1) by simp
  show "live (wheap w') = live (wheap w)" "same_outside (free_writes w t i x) (wmem w) (wmem w')"
    using so by (simp_all add: w'_def set_tls_def set_bucket_def set_wmem_def)
qed

text \<open>A held block of bucket \<open>i\<close> goes into the cache of thread \<open>t\<close>.\<close>

lemma Release_holds:
  assumes h: "client_holds sch w O'" and o: "(p, n) \<in> O'" and f: "FindBucket p (alloc w) = Inr i" "i < bucketsCount (alloc w)"
    and u: "in_use (GetTlsBucket t i w)"
    and r: "ReleaseToCache uc p (GetTlsBucket t i w) (buckets (alloc w) ! unat i) (wmem w) = (r, c, b, m)"
  defines "w' \<equiv> set_tls t i c (set_bucket i b (set_wmem m w))"
  shows "client_holds sch w' (O' - {(p, n)})" "keeps w w' (O' - {(p, n)})"
proof -
  obtain D F R B G where I: "world_inv sch w D F R B" "generics_ok w R B G" "O' = client_owned sch w D G"
    using h by (rule holdsE)
  note L = world_invD(1) [OF I(1)]
  have o': "(p, n) \<in> client_owned sch w D G" using o I(3) by simp
  obtain x where x: "pool_block sch w D (unat i) x" "p = base_of w (unat i) + ucast x" "n = esz sch (unat i)"
    by (rule held_in_bucket [OF I(1,2) o' f])
  have i: "unat i < nb w" using f(2) by (simp add: word_less_nat_alt)
  have "in_use (caches w (unat i) t)" using u by (simp add: GetTlsBucket_def caches_def)
  from Release_pool_block [OF I(1) x(1) this, of uc r c b m] r x(2)
  obtain F' where W: "world_inv sch w' (D(unat i := insert x (D (unat i)))) F' R B" "same_frame w w'"
    "live (wheap w') = live (wheap w)" "same_outside (free_writes w t (unat i) x) (wmem w) (wmem w')"
    by (auto simp: w'_def)
  have "b \<in> set (live (wheap w')) \<and> raw_span b \<inter> free_writes w t (unat i) x = {}" if "(q, k, b) \<in> G" for q k b
  proof -
    have C: "client_block w R B q k b" by (rule generics_okD(1) [OF I(2) that])
    then show ?thesis
      using generic_apart_touched [OF L i C, of t] free_writes_touched [OF I(1) x(1), of t] W(3)
      by (auto simp: client_block_def generic_block_def)
  qed
  then have G': "generics_ok w' R B G" by (intro generics_ok_frame [OF I(2) W(2) L W(4)])
  have "client_owned sch w' (D(unat i := insert x (D (unat i)))) G = O' - {(p, n)}"
    using owned_release [OF I(1,2) x(1)] owned_frame [OF W(2)] I(3) x(2,3) by simp
  then show "client_holds sch w' (O' - {(p, n)})" by (rule holdsI [OF W(1) G'])
  show "keeps w w' (O' - {(p, n)})"
    using free_writes_apart [OF I(1,2) x(1)] unfolding I(3) x(2,3) by (rule keepsI [OF W(4)])
qed


section \<open>Warming up\<close>

text \<open>The blocks that \<open>Init\<close> has taken, linked through their first word.\<close>

fun warm_chain :: "memory \<Rightarrow> addr \<Rightarrow> addr list \<Rightarrow> bool" where
  "warm_chain m r [] \<longleftrightarrow> r = 0"
| "warm_chain m r (p # ps) \<longleftrightarrow> r = p \<and> p \<noteq> 0 \<and> warm_chain m (load64 m p) ps"

abbreviation sized :: "nat \<Rightarrow> addr list \<Rightarrow> (addr \<times> nat) set" where
  "sized e ps \<equiv> (\<lambda>p. (p, e)) ` set ps"

lemma warm_chain_cong: "warm_chain m r ps \<Longrightarrow> (\<And>p. p \<in> set ps \<Longrightarrow> load64 m' p = load64 m p) \<Longrightarrow> warm_chain m' r ps"
  by (induction m r ps rule: warm_chain.induct) auto

lemma keeps_load64:
  assumes "keeps w w' X" "(p, e) \<in> X" "8 \<le> e"
  shows "load64 (wmem w') p = load64 (wmem w) p"
proof -
  have "load_bytes (wmem w') p e = load_bytes (wmem w) p e" using assms(1,2) by (auto simp: keeps_def)
  then show ?thesis using load_bytes_take [OF assms(3)] by (metis load64_def)
qed

lemma warm_chain_keeps:
  "warm_chain (wmem w) r ps \<Longrightarrow> keeps w w' (O' \<union> sized e ps) \<Longrightarrow> 8 \<le> e \<Longrightarrow> warm_chain (wmem w') r ps"
  by (erule warm_chain_cong) (rule keeps_load64 [where X = "O' \<union> sized e ps" and e = e], simp_all)

lemma setup_keptD:
  assumes "setup_kept t w w'"
  shows "FindBucket p (alloc w') = FindBucket p (alloc w)" "bucketsCount (alloc w') = bucketsCount (alloc w)"
    "unat i < 62 \<Longrightarrow> maxElementsCount (GetTlsBucket t i w') = maxElementsCount (GetTlsBucket t i w)"
  using assms by (simp_all add: setup_kept_def FindBucket_def GetTlsBucket_def caches_def)

lemma holds_62: "client_holds sch w O' \<Longrightarrow> i < bucketsCount (alloc w) \<Longrightarrow> unat i < 62"
  by (auto elim!: holdsE dest!: world_invD(1) layoutD(3) simp: word_less_nat_alt)

lemma warmup_move_holds:
  assumes "client_holds sch w (O' \<union> sized e ps)" and "distinct ps" and "\<forall>p \<in> set ps. (p, e) \<notin> O'"
    and "warm_chain (wmem w) r ps" and "8 \<le> e" and "\<forall>p \<in> set ps. FindBucket p (alloc w) = Inr i"
    and "i < bucketsCount (alloc w)" and "in_use (GetTlsBucket t i w)"
  shows "\<exists>w'. warmup_move t i r w = Some w' \<and> client_holds sch w' O' \<and> keeps w w' O' \<and> setup_kept t w w'"
  using assms
proof (induction ps arbitrary: w r)
  case Nil
  then show ?case by (simp add: warmup_move.simps)
next
  case (Cons p ps)
  note P = Cons.prems
  have r: "r = p" "p \<noteq> 0" "warm_chain (wmem w) (load64 (wmem w) p) ps" using P(4) by simp_all
  obtain b0 c b m where R: "ReleaseToCache False p (GetTlsBucket t i w) (buckets (alloc w) ! unat i) (wmem w) = (b0, c, b, m)"
    by (metis prod_cases4)
  let ?w = "set_tls t i c (set_bucket i b (set_wmem m w))" and ?X = "O' \<union> sized e (p # ps)"
  have X: "?X - {(p, e)} = O' \<union> sized e ps" using P(2,3) by auto
  have "(p, e) \<in> ?X" by simp
  note H = Release_holds [OF P(1) this _ P(7,8) R, unfolded X]
  have f: "FindBucket p (alloc w) = Inr i" using P(6) by simp
  have k: "setup_kept t w ?w"
    using cache_step_kept(2) [of False p t i "set_bucket i b (set_wmem m w)"] R by simp
  note K = setup_keptD [OF k]
  have l: "warm_chain (wmem ?w) (load64 (wmem w) p) ps" by (rule warm_chain_keeps [OF r(3) H(2) [OF f] P(5)])
  have u: "in_use (GetTlsBucket t i ?w)" using P(8) K(3) holds_62 [OF P(1,7)] by simp
  have "distinct ps" "\<forall>q \<in> set ps. (q, e) \<notin> O'" "\<forall>q \<in> set ps. FindBucket q (alloc ?w) = Inr i" "i < bucketsCount (alloc ?w)"
    using P(2,3,6,7) K(1,2) by auto
  from Cons.IH [OF H(1) [OF f] this(1,2) l P(5) this(3,4) u] obtain w' where
    w': "warmup_move t i (load64 (wmem w) p) ?w = Some w'" "client_holds sch w' O'" "keeps ?w w' O'" "setup_kept t ?w w'"
    by blast
  have "warmup_move t i r w = Some w'"
    using w'(1) R r(1,2) by (subst warmup_move.simps) (simp add: Let_def)
  moreover have "keeps w w' O'" using H(2) [OF f] w'(3) by (auto intro: keeps_trans elim: keeps_subset)
  ultimately show ?case using w'(2,4) setup_kept_trans [OF k] by blast
qed

lemma class_size:
  assumes "i < 62"
  shows "16 \<le> unat (GetBucketSizeInBytesByIndex sch i)" "unat (GetBucketSizeInBytesByIndex sch i) \<le> 2 ^ 20"
    "size_request_ok sch (Align (GetBucketSizeInBytesByIndex sch i) (2 ^ 2))"
proof -
  let ?n = "GetBucketSizeInBytesByIndex sch i"
  show b: "16 \<le> unat ?n" "unat ?n \<le> 2 ^ 20" using classes.sz_bounds [OF assms, of sch] by (simp_all add: word_le_nat_alt)
  have "unat ?n + (2 ^ 2 - 1) < 2 ^ 64" using b(2) by simp
  then have a: "unat (Align ?n (2 ^ 2)) = (unat ?n + (2 ^ 2 - 1)) div 2 ^ 2 * 2 ^ 2" by (intro unat_Align_pow2) simp_all
  also have "\<dots> \<le> unat ?n + (2 ^ 2 - 1)" by (rule div_times_less_eq_dividend)
  finally have "unat (Align ?n (2 ^ 2)) < 0xFFFFFFFF" using b(2) by simp
  moreover have "0 < unat (Align ?n (2 ^ 2))" unfolding a using b(1) by simp
  ultimately show "size_request_ok sch (Align ?n (2 ^ 2))" by (cases sch) (simp_all add: size_request_ok_def word_less_nat_alt)
qed


lemma small_sint: "i < (62 :: size_t) \<Longrightarrow> sint (ucast i :: u32) = int (unat i)"
proof -
  assume "i < 62"
  then have "unat i < 62" by (simp add: word_less_nat_alt)
  then have u: "unat (ucast i :: u32) = unat i" by (simp add: unat_ucast_u64_u32)
  then have "uint (ucast i :: u32) = int (unat i)" using u by (simp only: uint_nat)
  moreover have "signed_take_bit 31 (int k) = int k" if "k < 62" for k
    using that by (intro signed_take_bit_int_eq_self) simp_all
  from this [OF \<open>unat i < 62\<close>] have "signed_take_bit 31 (int (unat i)) = int (unat i)" .
  ultimately show ?thesis by (simp only: sint_uint) simp
qed

lemma GetBucketIndex_held:
  assumes h: "client_holds sch w O'" and i: "i < bucketsCount (alloc w)"
  obtains v where "GetBucketIndex p (alloc w) = Inr v" "v = sint (ucast i :: u32) \<Longrightarrow> FindBucket p (alloc w) = Inr i"
proof -
  obtain D F R B G where I: "world_inv sch w D F R B" using h by (rule holdsE)
  note l = layoutD [OF world_invD(1) [OF I]]
  have n: "j < bucketsCount (alloc w) \<Longrightarrow> j < 62" for j using l(3) by (simp add: word_less_nat_alt)
  have s: "sint (ucast i :: u32) = int (unat i)" by (rule small_sint [OF n [OF i]])
  have "bucketSizeInBytes (alloc w) \<noteq> 0" using l(7) by auto
  then obtain j where j: "FindBucket p (alloc w) = Inr j" by (simp add: FindBucket_def)
  show thesis
  proof (cases "Allocator_IsMyAlloc p (alloc w) \<and> j < bucketsCount (alloc w)")
    case True
    then have "GetBucketIndex p (alloc w) = Inr (sint (ucast j :: u32))" using j by (auto simp: GetBucketIndex_def)
    moreover have "sint (ucast j :: u32) = int (unat j)" using True by (intro small_sint n) simp
    ultimately show thesis using s j by (intro that) (auto simp: word_uint_eq_iff)
  next
    case False
    then have "GetBucketIndex p (alloc w) = Inr (- 1)" using j by (auto simp: GetBucketIndex_def)
    moreover have "(- 1 :: int) \<noteq> int (unat i)" by linarith
    ultimately show thesis using s that by metis
  qed
qed

lemma held_size:
  assumes "client_holds sch w O'" "(p, n) \<in> O'" "FindBucket p (alloc w) = Inr i" "i < bucketsCount (alloc w)"
  shows "n = unat (GetBucketSizeInBytesByIndex sch i)" "p \<noteq> 0"
  by (rule holds_route [OF assms(1,2)]; use assms(3,4) in \<open>auto simp: IsReadable_def\<close>)+

lemma warmup_fill_holds:
  assumes "client_holds sch w (O' \<union> sized e ps)" and "distinct ps" and "\<forall>p \<in> set ps. (p, e) \<notin> O'"
    and "warm_chain (wmem w) r ps" and "e = unat (GetBucketSizeInBytesByIndex sch i)" and "\<forall>p \<in> set ps. FindBucket p (alloc w) = Inr i"
    and "i < bucketsCount (alloc w)"
  shows "\<exists>r' w' ps'. warmup_fill sch env t i (GetBucketSizeInBytesByIndex sch i) k r w = Inr (r', w') \<and>
    client_holds sch w' (O' \<union> sized e ps') \<and> distinct ps' \<and> (\<forall>p \<in> set ps'. (p, e) \<notin> O') \<and> warm_chain (wmem w') r' ps' \<and>
    (\<forall>p \<in> set ps'. FindBucket p (alloc w') = Inr i) \<and> keeps w w' O' \<and> setup_kept t w w'"
  using assms
proof (induction k arbitrary: ps w r)
  case 0
  then show ?case by (intro exI [of _ r] exI [of _ w] exI [of _ ps]) simp
next
  case (Suc k)
  note P = Suc.prems
  let ?n = "GetBucketSizeInBytesByIndex sch i" and ?X = "O' \<union> sized e ps"
  have "i < 62" using holds_62 [OF P(1,7)] by (simp add: word_less_nat_alt)
  note n = class_size [OF this, of sch]
  have e8: "8 \<le> e" using n(1) P(5) by simp
  have n': "?n \<noteq> 0" "unat ?n + 4111 < 2 ^ 64" using n(1,2) by auto
  obtain p w1 where A: "Allocate sch env False t ?n (2 ^ 2) w = Inr (p, w1)" "alloc_outcome sch ?n 2 w ?X p w1"
    by (rule Allocate_holds [OF P(1) _ n' n(3)]) simp
  have A': "Allocate sch env False t ?n kDefaultTlsCacheAlignment w = Inr (p, w1)"
    using A(1) by (simp add: kDefaultTlsCacheAlignment_def kMinValidAlignment_def)
  have k1: "setup_kept t w w1" by (rule Allocate_kept [OF A(1)])
  note K1 = setup_keptD [OF k1]
  have kp1: "keeps w w1 ?X" using A(2) by (simp add: alloc_outcome_def)
  have l1: "warm_chain (wmem w1) r ps" by (rule warm_chain_keeps [OF P(4) kp1 e8])
  have f1: "\<forall>q \<in> set ps. FindBucket q (alloc w1) = Inr i" "i < bucketsCount (alloc w1)" using P(6,7) K1(1,2) by simp_all
  show ?case
  proof (cases "p = 0")
    case True
    then have "client_holds sch w1 ?X" using A(2) by (simp add: alloc_outcome_def)
    moreover have "warmup_fill sch env t i ?n (Suc k) r w = Inr (r, w1)" using A' True by simp
    ultimately show ?thesis
      using P(2,3) l1 f1(1) k1 keeps_subset [OF kp1]
      by (intro exI [of _ r] exI [of _ w1] exI [of _ ps]) simp
  next
    case False
    then obtain m where m: "client_holds sch w1 (insert (p, m) ?X)" "\<forall>(q, l) \<in> ?X. span q l \<inter> span p m = {}"
      using A(2) by (auto simp: alloc_outcome_def)
    have "p \<in> span p m" using holds_pos [OF m(1), of p m] by simp
    then have new: "(p, l) \<notin> ?X" for l
    proof (intro notI)
      assume l: "(p, l) \<in> ?X"
      then have "0 < l" using holds_pos [OF m(1), of p l] by simp
      then have "p \<in> span p l \<inter> span p m" using \<open>p \<in> span p m\<close> by simp
      then show False using m(2) l by fastforce
    qed
    obtain v where v: "GetBucketIndex p (alloc w1) = Inr v" "v = sint (ucast i :: u32) \<Longrightarrow> FindBucket p (alloc w1) = Inr i"
      using GetBucketIndex_held [OF m(1) f1(2), of p] by metis
    show ?thesis
    proof (cases "v = sint (ucast i :: u32)")
      case other: False
      obtain w2 where F: "Allocator_Free t p w1 = Inr w2" "client_holds sch w2 ?X" "keeps w1 w2 ?X"
        using Free_holds [OF m(1), of p m t] new by auto
      have k2: "setup_kept t w1 w2" by (rule Allocator_Free_kept [OF F(1)])
      have "warmup_fill sch env t i ?n (Suc k) r w = Inr (r, w2)" using A' False v(1) other F(1) by simp
      moreover have "warm_chain (wmem w2) r ps" by (rule warm_chain_keeps [OF l1 F(3) e8])
      moreover have "keeps w w2 O'" using keeps_trans [OF kp1 F(3)] by (rule keeps_subset) simp
      ultimately show ?thesis
        using P(2,3) F(2) f1(1) setup_keptD(1) [OF k2] setup_kept_trans [OF k1 k2]
        by (intro exI [of _ r] exI [of _ w2] exI [of _ ps]) simp
    next
      case own: True
      have fp: "FindBucket p (alloc w1) = Inr i" by (rule v(2) [OF own])
      have me: "m = e" using held_size(1) [OF m(1) _ fp f1(2)] P(5) by simp
      let ?w2 = "set_wmem (store64 (wmem w1) p r) w1"
      have so: "same_outside (span p m) (wmem w1) (store64 (wmem w1) p r)"
        using e8 me by (intro same_outside_mono [OF same_outside_store64] span_mono) simp
      note H = holds_write [OF m(1) insertI1 so]
      have X: "insert (p, m) ?X = O' \<union> sized e (p # ps)" "insert (p, m) ?X - {(p, m)} = ?X" using me new by auto
      have kp2: "keeps w1 ?w2 ?X" using H(2) unfolding X(2) .
      have "load64 (wmem ?w2) p = r" by (simp add: set_wmem_def)
      then have "warm_chain (wmem ?w2) p (p # ps)" using False warm_chain_keeps [OF l1 kp2 e8] by simp
      moreover have "distinct (p # ps)" "\<forall>q \<in> set (p # ps). (q, e) \<notin> O'" using P(2,3) new by auto
      moreover have "\<forall>q \<in> set (p # ps). FindBucket q (alloc ?w2) = Inr i" "i < bucketsCount (alloc ?w2)"
        using f1 fp by (simp_all add: set_wmem_def)
      ultimately obtain r' w' ps' where W: "warmup_fill sch env t i ?n k p ?w2 = Inr (r', w')"
        "client_holds sch w' (O' \<union> sized e ps')" "distinct ps'" "\<forall>q \<in> set ps'. (q, e) \<notin> O'" "warm_chain (wmem w') r' ps'"
        "\<forall>q \<in> set ps'. FindBucket q (alloc w') = Inr i" "keeps ?w2 w' O'" "setup_kept t ?w2 w'"
        using Suc.IH [OF H(1) [unfolded X(1)] _ _ _ P(5)] by blast
      have "warmup_fill sch env t i ?n (Suc k) r w = Inr (r', w')" using A' False v(1) own W(1) by simp
      moreover have "keeps w w' O'"
        using keeps_trans [OF keeps_trans [OF keeps_subset [OF kp1] keeps_subset [OF kp2]] W(7)] by simp
      moreover have "setup_kept t w w'" using setup_kept_trans [OF k1] W(8) by simp
      ultimately show ?thesis using W(2-6) by blast
    qed
  qed
qed


section \<open>One cache bucket\<close>

lemma stack_size:
  assumes "unat (num :: u32) = unat (o' :: u32) + 7"
  shows "unat (ucast (num :: u32) * 4 :: size_t) = 4 * (unat o' + 7)"
    "(ucast num * 4 :: size_t) = word_of_nat (4 * (unat o' + 7))"
proof -
  have "4 * unat num < 2 ^ 64" using unat_u32_less [of num] by simp
  then show u: "unat (ucast num * 4 :: size_t) = 4 * (unat o' + 7)"
    using assms by (simp add: unat_mult_small unat_ucast_u32_u64)
  show "(ucast num * 4 :: size_t) = word_of_nat (4 * (unat o' + 7))"
    unfolding u [symmetric] by simp
qed

lemma cache_created:
  assumes h: "client_holds sch w O'" and i: "i < bucketsCount (alloc w)" and un: "unused_cache (GetTlsBucket t i w)"
    and c: "unat (num :: u32) = unat o' + 7" "2 \<le> unat o'" and r: "GenericAllocator_Alloc env (ucast num * 4) 64 (wheap w) = (p, g)" "p \<noteq> 0"
    and self: "maxElementsCount self = o'" "pStorageL1 self = p" "pBucketData self = pData (buckets (alloc w) ! unat i)" "pBucket self \<noteq> None"
      "numElementsL0 self = 0" "numElementsL1 self = 0" "length (storageL0 self) = SMM_MAX_CACHE_ITEMS_COUNT"
  defines "w' \<equiv> set_tls t i self (w\<lparr>wheap := g\<rparr>)"
  shows "client_holds sch w' O'" "keeps w w' O'"
proof -
  obtain D F R B G where I: "world_inv sch w D F R B" "generics_ok w R B G" "O' = client_owned sch w D G"
    using h by (rule holdsE)
  note L = world_invD(1) [OF I(1)] note l = layoutD [OF L]
  let ?w = "w\<lparr>wheap := g\<rparr>" and ?i = "unat i"
  have n: "?i < nb w" using i by (simp add: word_less_nat_alt)
  then have i62: "?i < 62" using l(3) by simp
  note S = stack_size [OF c(1)]
  have "unat (ucast num * 4 :: size_t) + 4111 < 2 ^ 64" unfolding S(1) using unat_u32_less [of o'] by simp
  moreover have "GenericAllocator_Alloc env (ucast num * 4) (2 ^ 6) (wheap w) = (p, g)" using r(1) by simp
  ultimately obtain b where b: "b \<notin> set (live (wheap w))" "live g = b # live (wheap w)" "generic_block g p (ucast num * 4) b"
      "same_outside (raw_span b) (wmem w) (hmem g)" and inv: "world_inv sch ?w D F R B"
    using generic_alloc_world [OF I(1), of 6 "ucast num * 4" env p g] r(2) by auto
  have live: "d \<in> set (live (wheap w))" if "d \<in> infrastructure w R B" for d
    using infrastructure_live [OF L that] by (auto simp: generic_block_def)
  have bi: "b \<notin> infrastructure w R B" using live b(1) by blast
  have eq: "caches ?w = caches w" "base_of ?w = base_of w" "infrastructure ?w R B = infrastructure w R B"
    by (simp_all add: caches_def base_of_def infrastructure_def fun_eq_iff)
  have nu: "\<not> in_use (caches ?w ?i t)" using unused_cacheD(5) [OF un] by (simp add: eq GetTlsBucket_def caches_def)
  have gb: "generic_block (wheap ?w) p (word_of_nat (4 * (unat (maxElementsCount self) + 7))) b" using b(3) S(2) self(1) by simp
  let ?R = "R(t := (R t)(?i := b))"
  have W: "world_inv sch w' D F ?R B"
    unfolding w'_def
    using cache_opened [where i = ?i and t = t and c = self and p = p and b = b, OF inv] gb bi nu n self c world_invD(3) [OF I(1) n] by (auto simp: eq)
  have Rc: "caches w' j = (if j = ?i then (caches w j)(t := self) else caches w j)" for j
    using set_tls_caches [where w = ?w and t = t and i = i and c = self and j = j] l(11) i62 by (simp add: w'_def eq)
  have inf: "infrastructure w' ?R B \<subseteq> insert b (infrastructure w R B)"
    unfolding infrastructure_def by (auto simp: Rc split: if_splits)
  have "client_block w' ?R B q k d" if m: "(q, k, d) \<in> G" for q k d
  proof -
    have C: "client_block w R B q k d" by (rule generics_okD(1) [OF I(2) m])
    then have d: "generic_block (wheap w) q k d" "d \<in> set (live (wheap w))" "d \<noteq> b"
      using b(1) by (auto simp: client_block_def generic_block_def)
    have "raw_span b \<inter> raw_span d = {}"
      using d b(2,3) by (intro generic_block_apart [OF layoutD(1) [OF world_invD(1) [OF inv]], of p _ b]) auto
    then have "generic_block g q k d"
      using d(2) b(2) by (intro generic_block_other(1) [OF l(1) d(1) _ b(4)]) auto
    then show ?thesis using C d(3) inf by (auto simp: client_block_def w'_def wheap_upd)
  qed
  then have G': "generics_ok w' ?R B G" using I(2) by (auto simp: generics_ok_def)
  have "client_owned sch w' D G = O'" unfolding I(3) by (rule owned_same) (simp_all add: w'_def eq)
  then show "client_holds sch w' O'" by (rule holdsI [OF W G'])
  show "keeps w w' O'"
  proof (rule keepsI)
    show "same_outside (raw_span b) (wmem w) (wmem w')" using b(4) by (simp add: w'_def wheap_upd)
    have "in_use self" using self(1) c(2) by auto
    fix q m assume "(q, m) \<in> O'"
    then show "span q m \<inter> raw_span b = {}"
      using store_raw_disjoint [OF W G', of ?i t q m] i62 \<open>client_owned sch w' D G = O'\<close> \<open>in_use self\<close> by (simp add: Rc)
  qed
qed


text \<open>\<open>Init\<close> with any warm-up option.\<close>

lemma Init_cache_holds:
  assumes h: "client_holds sch w O'" and i: "i < bucketsCount (alloc w)" and un: "unused_cache (GetTlsBucket t i w)"
    and c: "unat (num :: u32) = unat o' + 7" "2 \<le> unat o'" and r: "GenericAllocator_Alloc env (ucast num * 4) 64 (wheap w) = (p, g)" "p \<noteq> 0"
  shows "\<exists>w' w1. TlsPoolBucket_Init sch env t p num warm i (w\<lparr>wheap := g\<rparr>) = Inr w' \<and> client_holds sch w' O' \<and> keeps w w' O' \<and>
    setup_kept t w1 w' \<and> alloc w1 = alloc w \<and> tls w1 = (tls w)(t := tls w1 t) \<and>
    (\<forall>j < 62. j \<noteq> unat i \<longrightarrow> caches w1 j t = caches w j t) \<and> maxElementsCount (GetTlsBucket t i w1) = o' \<and>
    (warm = CACHE_COLD \<longrightarrow> w' = w1 \<and> cached (wmem w') (GetTlsBucket t i w') = [])"
proof -
  let ?w = "w\<lparr>wheap := g\<rparr>"
  define self where "self = (GetTlsBucket t i ?w)\<lparr>pStorageL1 := p, numElementsL1 := 0, numElementsL0 := 0,
     maxElementsCount := num - word_of_nat SMM_MAX_CACHE_ITEMS_COUNT, pBucket := Some i, pBucketData := pData (buckets (alloc w) ! unat i)\<rparr>"
  define w1 where "w1 = set_tls t i self ?w"
  have m: "num - word_of_nat SMM_MAX_CACHE_ITEMS_COUNT = o'"
  proof -
    have "unat (o' + 7) = unat o' + 7" using c(1) unat_u32_less [of num] by (simp add: unat_add_small)
    then have "num = o' + 7" using c(1) by (simp add: word_eq_iff_unat)
    then show ?thesis by (simp add: SMM_MAX_CACHE_ITEMS_COUNT_def)
  qed
  have "length (storageL0 self) = SMM_MAX_CACHE_ITEMS_COUNT"
    using unused_cacheD(1) [OF un] by (simp add: self_def GetTlsBucket_def)
  then have H: "client_holds sch w1 O'" "keeps w w1 O'"
    using cache_created [OF h i un c r, of self] m by (simp_all add: w1_def self_def)
  obtain D F R B where inv: "world_inv sch w D F R B" using h by (rule holdsE)
  have i62: "unat i < 62" using holds_62 [OF h i] .
  have C: "caches w1 j = (if j = unat i then (caches w j)(t := self) else caches w j)" for j
    using set_tls_caches [where w = ?w and t = t and i = i and c = self and j = j] layoutD(11) [OF world_invD(1) [OF inv]] i62
    by (simp add: w1_def caches_def)
  have g1: "GetTlsBucket t i w1 = self" using C [of "unat i"] by (simp add: GetTlsBucket_def caches_def fun_eq_iff)
  have same: "alloc w1 = alloc w" "tls w1 = (tls w)(t := tls w1 t)" "bucketsCount (alloc w1) = bucketsCount (alloc w)"
    by (simp_all add: w1_def set_tls_def)
  have gb: "GetBucketByIndex i (alloc w) = Some (buckets (alloc w) ! unat i)" using i by (simp add: GetBucketByIndex_def)
  have rest: "(\<forall>j < 62. j \<noteq> unat i \<longrightarrow> caches w1 j t = caches w j t) \<and> maxElementsCount (GetTlsBucket t i w1) = o'"
    using C m by (simp add: g1) (simp add: self_def)
  show ?thesis
  proof (cases "warm = CACHE_COLD")
    case True
    have "TlsPoolBucket_Init sch env t p num warm i ?w = Inr w1"
      using gb True by (simp add: TlsPoolBucket_Init_def Let_def w1_def self_def)
    moreover have "cached (wmem w1) self = []" by (simp add: cached_def l1_items_def l0_items_def self_def)
    ultimately show ?thesis using H same(1,2) rest g1 by (intro exI [of _ w1]) simp
  next
    case False
    let ?e = "GetBucketSizeInBytesByIndex sch i"
    let ?num = "if warm = CACHE_WARM then maxElementsCount self div 2 else maxElementsCount self"
    have I: "TlsPoolBucket_Init sch env t p num warm i ?w =
        bindE (warmup_fill sch env t i ?e (unat ?num) 0 w1)
          (\<lambda>(pRoot, w). case warmup_move t i pRoot w of None \<Rightarrow> Inl No_Return | Some w \<Rightarrow> Inr w)"
      using gb False by (simp add: TlsPoolBucket_Init_def Let_def w1_def self_def cong: if_cong)
    have "client_holds sch w1 (O' \<union> sized (unat ?e) [])" using H(1) by simp
    from warmup_fill_holds [OF this, of 0 i env t "unat ?num"] i same(3)
    obtain r' w2 ps where W: "warmup_fill sch env t i ?e (unat ?num) 0 w1 = Inr (r', w2)"
      "client_holds sch w2 (O' \<union> sized (unat ?e) ps)" "distinct ps" "\<forall>p \<in> set ps. (p, unat ?e) \<notin> O'" "warm_chain (wmem w2) r' ps"
      "\<forall>p \<in> set ps. FindBucket p (alloc w2) = Inr i" "keeps w1 w2 O'" "setup_kept t w1 w2"
      by auto
    note K = setup_keptD [OF W(8)]
    have "i < 62" using i62 by (simp add: word_less_nat_alt)
    have "in_use (GetTlsBucket t i w2)" using K(3) [OF i62] rest c(2) by auto
    from warmup_move_holds [OF W(2-5) _ W(6) _ this] class_size(1) [OF \<open>i < 62\<close>, of sch] i K(2) same(3)
    obtain w' where V: "warmup_move t i r' w2 = Some w'" "client_holds sch w' O'" "keeps w2 w' O'" "setup_kept t w2 w'"
      by auto
    have "TlsPoolBucket_Init sch env t p num warm i ?w = Inr w'" using I W(1) V(1) by simp
    moreover have "keeps w w' O'" by (rule keeps_trans [OF keeps_trans [OF H(2) W(7)] V(3)])
    moreover have "setup_kept t w1 w'" by (rule setup_kept_trans [OF W(8) V(4)])
    ultimately show ?thesis using V(2) same(1,2) rest False by blast
  qed
qed


section \<open>All cache buckets of a thread\<close>

text \<open>The stack for option \<open>k\<close> could not be allocated; the source does not check it. Before, everything went well.\<close>

definition stack_refused ::
    "partitioning \<Rightarrow> placement \<Rightarrow> nat \<Rightarrow> CacheWarmupOptions \<Rightarrow> size_t \<Rightarrow> u32 list \<Rightarrow> world \<Rightarrow> (addr \<times> nat) set \<Rightarrow> nat \<Rightarrow> bool" where
  "stack_refused sch env t warm i options w O' k \<longleftrightarrow> k < length options \<and> unat i + k < nb w \<and>
     (\<exists>w1. CreateThreadCache_loop sch env t warm i (take k options) w = Inr w1 \<and> client_holds sch w1 O' \<and> keeps w w1 O' \<and>
        fst (GenericAllocator_Alloc env (ucast (options ! k + word_of_nat SMM_MAX_CACHE_ITEMS_COUNT) * 4) 64 (wheap w1)) = 0)"

lemma cached_empty: "cached m c = [] \<Longrightarrow> cached m' c = []"
  by (auto simp: cached_def l1_items_def)

text \<open>Cache \<open>j\<close> after the loop from \<open>i\<close> on.\<close>

definition cache_made ::
    "nat \<Rightarrow> CacheWarmupOptions \<Rightarrow> nat \<Rightarrow> u32 list \<Rightarrow> world \<Rightarrow> world \<Rightarrow> nat \<Rightarrow> bool" where
  "cache_made t warm i options w w' j \<longleftrightarrow>
     (if i \<le> j \<and> j < i + length options \<and> j < nb w
      then maxElementsCount (caches w' j t) = options ! (j - i) \<and> (warm = CACHE_COLD \<longrightarrow> cached (wmem w') (caches w' j t) = [])
      else maxElementsCount (caches w' j t) = maxElementsCount (caches w j t) \<and>
        (unused_cache (caches w j t) \<or> warm = CACHE_COLD \<longrightarrow> caches w' j t = caches w j t))"

lemma Create_loop_holds:
  assumes "client_holds sch w O'" and "\<forall>j < 62. unat i \<le> j \<longrightarrow> unused_cache (caches w j t)"
    and "\<forall>c \<in> set options. 2 \<le> unat c \<and> unat c + 7 < 2 ^ 32"
  shows "(\<exists>k. stack_refused sch env t warm i options w O' k) \<or>
    (\<exists>w'. CreateThreadCache_loop sch env t warm i options w = Inr w' \<and> client_holds sch w' O' \<and> keeps w w' O' \<and>
       (\<forall>u. u \<noteq> t \<longrightarrow> tls w' u = tls w u) \<and> (\<forall>j < 62. cache_made t warm (unat i) options w w' j))"
  using assms
proof (induction options arbitrary: i w)
  case Nil
  then show ?case by (auto simp: cache_made_def)
next
  case (Cons c cs)
  note P = Cons.prems
  show ?case
  proof (cases "i < bucketsCount (alloc w)")
    case False
    then have "bucketsCount (alloc w) \<le> i" "\<not> unat i < nb w" by (simp_all add: word_less_nat_alt word_le_nat_alt)
    then show ?thesis using P(1) by (intro disjI2 exI [of _ w]) (auto simp: cache_made_def)
  next
    case True
    have i62: "unat i < 62" by (rule holds_62 [OF P(1) True])
    have n: "unat i < nb w" using True by (simp add: word_less_nat_alt)
    let ?num = "c + word_of_nat SMM_MAX_CACHE_ITEMS_COUNT"
    have num: "unat ?num = unat c + 7" "2 \<le> unat c" using P(3) by (simp_all add: SMM_MAX_CACHE_ITEMS_COUNT_def unat_add_small)
    have un: "unused_cache (GetTlsBucket t i w)" using P(2) i62 by (simp add: GetTlsBucket_def caches_def)
    obtain p g where r: "GenericAllocator_Alloc env (ucast ?num * 4) 64 (wheap w) = (p, g)" by fastforce
    show ?thesis
    proof (cases "p = 0")
      case True
      then have "stack_refused sch env t warm i (c # cs) w O' 0" using r P(1) n by (simp add: stack_refused_def)
      then show ?thesis by blast
    next
      case False
      obtain w2 w1 where I: "TlsPoolBucket_Init sch env t p ?num warm i (w\<lparr>wheap := g\<rparr>) = Inr w2" "client_holds sch w2 O'" "keeps w w2 O'"
        "setup_kept t w1 w2" "alloc w1 = alloc w" "tls w1 = (tls w)(t := tls w1 t)"
        "\<forall>j < 62. j \<noteq> unat i \<longrightarrow> caches w1 j t = caches w j t" "maxElementsCount (GetTlsBucket t i w1) = c"
        "warm = CACHE_COLD \<longrightarrow> w2 = w1 \<and> cached (wmem w2) (GetTlsBucket t i w2) = []"
        using Init_cache_holds [OF P(1) True un num r False, of warm] by metis
      have L: "CreateThreadCache_loop sch env t warm i (c # ds) w = CreateThreadCache_loop sch env t warm (i + 1) ds w2" for ds
        using r I(1) leD [of "bucketsCount (alloc w)" i] \<open>i < bucketsCount (alloc w)\<close> by (auto simp: Let_def)
      have i1: "unat (i + 1) = unat i + 1" using i62 by (simp add: unat_add_small)
      have nb: "nb w2 = nb w" using setup_keptD(2) [OF I(4)] I(5) by simp
      have other: "maxElementsCount (caches w2 j t) = maxElementsCount (caches w j t)"
        "unused_cache (caches w j t) \<or> warm = CACHE_COLD \<Longrightarrow> caches w2 j t = caches w j t" if "j < 62" "j \<noteq> unat i" for j
        using I(4,7,9) that by (auto simp: setup_kept_def)
      have own: "maxElementsCount (caches w2 (unat i) t) = c" "warm = CACHE_COLD \<Longrightarrow> cached (wmem w2) (caches w2 (unat i) t) = []"
        using I(8,9) setup_keptD(3) [OF I(4) i62] by (auto simp: GetTlsBucket_def caches_def)
      have "\<forall>j < 62. unat (i + 1) \<le> j \<longrightarrow> unused_cache (caches w2 j t)" using other(2) P(2) i1 by simp
      moreover have "\<forall>d \<in> set cs. 2 \<le> unat d \<and> unat d + 7 < 2 ^ 32" using P(3) by simp
      ultimately consider (refused) k where "stack_refused sch env t warm (i + 1) cs w2 O' k"
        | (made) w' where "CreateThreadCache_loop sch env t warm (i + 1) cs w2 = Inr w'" "client_holds sch w' O'" "keeps w2 w' O'"
          "\<forall>u. u \<noteq> t \<longrightarrow> tls w' u = tls w2 u" "\<forall>j < 62. cache_made t warm (unat (i + 1)) cs w2 w' j"
        using Cons.IH [OF I(2)] by blast
      then show ?thesis
      proof cases
        case refused
        then have "stack_refused sch env t warm i (c # cs) w O' (Suc k)"
          using L [of "take k cs"] nb i1 keeps_trans [OF I(3)] by (auto simp: stack_refused_def)
        then show ?thesis by blast
      next
        case made
        have "cache_made t warm (unat i) (c # cs) w w' j" if j: "j < 62" for j
        proof (cases "j = unat i")
          case True
          have M: "cache_made t warm (unat i + 1) cs w2 w' (unat i)" using made(5) i62 i1 by simp
          then show ?thesis
            using own n True cached_empty [OF own(2), of "wmem w'"] by (simp add: cache_made_def)
        next
          case False
          have M: "cache_made t warm (unat i + 1) cs w2 w' j" using made(5) j i1 by simp
          then show ?thesis using other [OF j False] nb False by (auto simp: cache_made_def nth_Cons')
        qed
        moreover have "\<forall>u. u \<noteq> t \<longrightarrow> tls w' u = tls w u" using made(4) I(4,6) by (auto simp: setup_kept_def fun_eq_iff)
        ultimately show ?thesis using made(1,2) L keeps_trans [OF I(3) made(3)] by metis
      qed
    qed
  qed
qed


text \<open>Requests keep the state in which the caches of a thread can be destroyed.\<close>

lemma setup_kept_caches:
  assumes "setup_kept t w w'" and "\<forall>i < 62. in_use (caches w i t) \<or> unused_cache (caches w i t)"
  shows "\<forall>i < 62. in_use (caches w' i t) \<or> unused_cache (caches w' i t)"
  using assms unfolding setup_kept_def by metis

section \<open>An example\<close>

lemma Init_loop_tls: "Init_loop sch is w = Inr w' \<Longrightarrow> tls w' = tls w"
proof (induction "is" arbitrary: w)
  case (Cons i js)
  then show ?case by (fastforce simp: Let_def set_wmem_def split: option.splits)
qed simp

lemma demo_ready:
  obtains w where "client_holds SMM_PL_PARTITIONING w {}" "live (wheap w) = [(8192, 12303)]" "\<forall>j < 62. unused_cache (caches w j 0)"
proof -
  obtain w where w: "Allocator_Init SMM_PL_PARTITIONING low_placement 2 4096 demo_world = Inr w"
    "client_holds SMM_PL_PARTITIONING w {}" "live (wheap w) = [(8192, 12303)]" by (rule demo_Init)
  have "tls w = tls demo_world"
    using w(1) by (auto simp: Allocator_Init_def Let_def split: if_splits prod.splits dest!: Init_loop_tls)
  then have "\<forall>j < 62. unused_cache (caches w j 0)" using unused_cache_zero by (simp add: caches_def demo_world_def)
  then show thesis using that w by blast
qed

text \<open>There is room for the stack of one cache of two elements.\<close>

lemma demo_stack_room:
  assumes "live (wheap w) = [(8192, 12303)]"
  shows "\<not> stack_refused SMM_PL_PARTITIONING (\<lambda>_ _. 131072) 0 CACHE_HOT 0 [2] w {} k"
proof
  assume r: "stack_refused SMM_PL_PARTITIONING (\<lambda>_ _. 131072) 0 CACHE_HOT 0 [2] w {} k"
  then have "k = 0" by (simp add: stack_refused_def)
  then show False
    using r assms by (simp add: stack_refused_def SMM_MAX_CACHE_ITEMS_COUNT_def GenericAllocator_Alloc_eq malloc_def
        lawful_block_def apart_def min_alignment_def kMinValidAlignment_def Align_def Let_def)
qed

section \<open>Properties\<close>

text \<open>
  (C6) \<open>CreateThreadCache\<close> with at least two elements per cache, for a thread whose caches are unused, as the code
  asserts: unless the stack of a cache cannot be allocated, which the source does not check and before which every
  cache was set up correctly, it ends without a fault, whatever the warm-up option. Each cache then has the size asked
  for, the others stay unused, those of other threads are as before, and without warm-up the caches are empty. The blocks
  taken for the warm-up are all in the caches or free again: the client holds the same blocks with the same bytes.
\<close>

theorem CreateThreadCache_ready:
  assumes "client_holds sch w O'" and "\<forall>j < 62. unused_cache (caches w j t)"
    and "\<forall>c \<in> set options. 2 \<le> unat c \<and> unat c + 7 < 2 ^ 32"
  shows "(\<exists>k. stack_refused sch env t warm 0 options w O' k) \<or>
    (\<exists>w'. CreateThreadCache sch env t warm options w = Inr w' \<and> client_holds sch w' O' \<and>
       (\<forall>(q, l) \<in> O'. load_bytes (wmem w') q l = load_bytes (wmem w) q l) \<and> (\<forall>u. u \<noteq> t \<longrightarrow> tls w' u = tls w u) \<and>
       (\<forall>j < 62. if j < length options \<and> j < unat (bucketsCount (alloc w))
          then maxElementsCount (caches w' j t) = options ! j \<and> (warm = CACHE_COLD \<longrightarrow> cached (wmem w') (caches w' j t) = [])
          else unused_cache (caches w' j t)))"
proof (cases "\<exists>k. stack_refused sch env t warm 0 options w O' k")
  case False
  then obtain w' where W: "CreateThreadCache_loop sch env t warm 0 options w = Inr w'" "client_holds sch w' O'" "keeps w w' O'"
    "\<forall>u. u \<noteq> t \<longrightarrow> tls w' u = tls w u" "\<forall>j < 62. cache_made t warm (unat (0 :: size_t)) options w w' j"
    using Create_loop_holds [OF assms(1) _ assms(3), of 0 t env warm] assms(2) by auto
  have "if j < length options \<and> j < nb w
      then maxElementsCount (caches w' j t) = options ! j \<and> (warm = CACHE_COLD \<longrightarrow> cached (wmem w') (caches w' j t) = [])
      else unused_cache (caches w' j t)" if "j < 62" for j
    using W(5) assms(2) that by (simp add: cache_made_def split: if_splits)
  then show ?thesis using W(1-4) by (auto simp: CreateThreadCache_def keeps_def)
qed simp

theorem CreateThreadCache_ready_witness:
  "\<exists>w w'. CreateThreadCache SMM_PL_PARTITIONING (\<lambda>_ _. 131072) 0 CACHE_HOT [2] w = Inr w' \<and>
    client_holds SMM_PL_PARTITIONING w' {} \<and> maxElementsCount (caches w' 0 0) = 2"
proof -
  obtain w where w: "client_holds SMM_PL_PARTITIONING w {}" "live (wheap w) = [(8192, 12303)]" "\<forall>j < 62. unused_cache (caches w j 0)"
    by (rule demo_ready)
  obtain D F R B where "world_inv SMM_PL_PARTITIONING w D F R B" using w(1) by (rule holdsE)
  then have n: "0 < nb w" using layoutD(2) [OF world_invD(1)] by blast
  have "\<forall>c \<in> set [2 :: u32]. 2 \<le> unat c \<and> unat c + 7 < 2 ^ 32" by simp
  from CreateThreadCache_ready [OF w(1,3) this, of "\<lambda>_ _. 131072" CACHE_HOT] demo_stack_room [OF w(2)] obtain w' where
    W: "CreateThreadCache SMM_PL_PARTITIONING (\<lambda>_ _. 131072) 0 CACHE_HOT [2] w = Inr w'" "client_holds SMM_PL_PARTITIONING w' {}"
    "\<forall>j < 62. if j < length [2 :: u32] \<and> j < nb w
          then maxElementsCount (caches w' j 0) = [2] ! j \<and> (CACHE_HOT = CACHE_COLD \<longrightarrow> cached (wmem w') (caches w' j 0) = [])
          else unused_cache (caches w' j 0)" by blast
  have "maxElementsCount (caches w' 0 0) = 2" using spec [OF W(3), of 0] n by simp
  then show ?thesis using W(1,2) by blast
qed

text \<open>
  (C7) \<open>DestroyThreadCache\<close> ends without a fault for a thread whose caches are in use or untouched. The cached blocks of
  each bucket, those of L0 moved behind those of L1, come to the front of its free list, the stacks are released, and
  nothing else: the client holds the same blocks with the same bytes, the other caches are as before, and those of the
  thread are unused again.
\<close>

theorem DestroyThreadCache_returns_blocks:
  assumes "client_holds sch w O'" and "\<forall>i < 62. in_use (caches w i t) \<or> unused_cache (caches w i t)"
  shows "\<exists>w' F. DestroyThreadCache t w = Inr w' \<and> client_holds sch w' O' \<and>
    (\<forall>(q, l) \<in> O'. load_bytes (wmem w') q l = load_bytes (wmem w) q l) \<and>
    (\<forall>i < 62. unused_cache (caches w' i t)) \<and> (\<forall>u. u \<noteq> t \<longrightarrow> tls w' u = tls w u) \<and>
    (\<forall>i < unat (bucketsCount (alloc w)). free_list w i (F i) \<and> free_list w' i (cached (wmem w) (caches w i t) @ F i)) \<and>
    set (live (wheap w')) = {b \<in> set (live (wheap w)).
      \<forall>i < 62. in_use (caches w i t) \<longrightarrow> fst b \<noteq> load64 (wmem w) (pStorageL1 (caches w i t) - 16)}"
proof -
  obtain D F R B G where I: "world_inv sch w D F R B" "generics_ok w R B G" "O' = client_owned sch w D G"
    using assms(1) by (rule holdsE)
  obtain w' where W: "DestroyThreadCache t w = Inr w'" "destroyed sch t {..<62} w w' D F R B"
    using destroy_loop [OF I(1), of "[0..<62]" t] assms(2) by (auto simp: DestroyThreadCache_def SMM_MAX_BUCKET_COUNT_def lessThan_atLeast0)
  note D = destroyedD [OF W(2)] and H = destroyed_holds [OF I(1,2) W(2)]
  have "free_list w' i (cached (wmem w) (caches w i t) @ F i)" if "i < nb w" for i
    using world_free_list [OF D(1), of i] that D(2) layoutD(3) [OF world_invD(1) [OF I(1)]] by simp
  moreover have "\<forall>i < 62. unused_cache (caches w' i t)" using D(5) by simp
  moreover have "\<forall>u. u \<noteq> t \<longrightarrow> tls w' u = tls w u" using W(2) by (simp add: destroyed_def)
  moreover have "set (live (wheap w')) = set (live (wheap w)) - stacks w R t {..<62}" using W(2) by (simp add: destroyed_def)
  ultimately show ?thesis
    using W(1) H world_free_list [OF I(1)] unfolding I(3) stacks_raw [OF I(1)] keeps_def
    by (intro exI [of _ w'] exI [of _ F] conjI allI impI) simp_all
qed

theorem DestroyThreadCache_returns_blocks_witness:
  "\<exists>w w'. client_holds SMM_PL_PARTITIONING w {} \<and> in_use (caches w 0 0) \<and> DestroyThreadCache 0 w = Inr w' \<and>
    client_holds SMM_PL_PARTITIONING w' {} \<and> unused_cache (caches w' 0 0)"
proof -
  obtain v where v: "client_holds SMM_PL_PARTITIONING v {}" "live (wheap v) = [(8192, 12303)]" "\<forall>j < 62. unused_cache (caches v j 0)"
    by (rule demo_ready)
  obtain D F R B where "world_inv SMM_PL_PARTITIONING v D F R B" using v(1) by (rule holdsE)
  then have n: "0 < nb v" using layoutD(2) [OF world_invD(1)] by blast
  have "\<forall>c \<in> set [2 :: u32]. 2 \<le> unat c \<and> unat c + 7 < 2 ^ 32" by simp
  from Create_loop_holds [OF v(1) _ this, of 0 0 "\<lambda>_ _. 131072" CACHE_HOT] v(3) demo_stack_room [OF v(2)]
  obtain w where w: "client_holds SMM_PL_PARTITIONING w {}" "\<forall>j < 62. cache_made 0 CACHE_HOT (unat (0 :: size_t)) [2] v w j" by auto
  have "cache_made 0 CACHE_HOT 0 [2] v w 0" using w(2) by simp
  then have u: "in_use (caches w 0 0)" using n by (simp add: cache_made_def)
  have "in_use (caches w j 0) \<or> unused_cache (caches w j 0)" if "j < 62" for j
    using spec [OF w(2), of j] that v(3) u by (cases "j = 0") (simp_all add: cache_made_def)
  then obtain w' where "DestroyThreadCache 0 w = Inr w'" "client_holds SMM_PL_PARTITIONING w' {}" "\<forall>j < 62. unused_cache (caches w' j 0)"
    using DestroyThreadCache_returns_blocks [OF w(1)] by blast
  then show ?thesis using w(1) u by (intro exI [of _ w] exI [of _ w']) simp
qed

end
