(* ===== verification/Mi_Internal.thy ===== *)
theory Mi_Internal
  imports SMM_Prelude
begin

text \<open>
  The inline helpers of mimalloc, \<^verbatim>\<open>include/mimalloc/internal.h\<close> and the constants of \<^verbatim>\<open>types.h\<close>, for
  64-bit platforms: rounding, overflow checks, pointer encoding, bit scans, commit masks. mimalloc is one
  of the allocators that the benchmarks of the repository build and link.
\<close>

section \<open>Constants\<close>

definition MI_INTPTR_BITS :: nat where
  "MI_INTPTR_BITS = 64"

definition MI_SEGMENT_SLICE_SHIFT :: nat where
  "MI_SEGMENT_SLICE_SHIFT = 13 + 3"

definition MI_SEGMENT_SHIFT :: nat where
  "MI_SEGMENT_SHIFT = 9 + MI_SEGMENT_SLICE_SHIFT"

definition MI_SEGMENT_SIZE :: size_t where
  "MI_SEGMENT_SIZE = push_bit MI_SEGMENT_SHIFT 1"

definition MI_SEGMENT_MASK :: addr where
  "MI_SEGMENT_MASK = MI_SEGMENT_SIZE - 1"

definition MI_SEGMENT_SLICE_SIZE :: size_t where
  "MI_SEGMENT_SLICE_SIZE = push_bit MI_SEGMENT_SLICE_SHIFT 1"

definition MI_COMMIT_MASK_FIELD_COUNT :: nat where
  "MI_COMMIT_MASK_FIELD_COUNT = unat (MI_SEGMENT_SIZE div MI_SEGMENT_SLICE_SIZE) div 64"

section \<open>Rounding\<close>

definition mi_is_power_of_two :: "addr \<Rightarrow> bool" where
  "mi_is_power_of_two x \<longleftrightarrow> x AND (x - 1) = 0"

definition mi_is_aligned :: "addr \<Rightarrow> size_t \<Rightarrow> bool" where
  "mi_is_aligned p alignment \<longleftrightarrow> p mod alignment = 0"

definition mi_align_up :: "addr \<Rightarrow> size_t \<Rightarrow> addr" where
  "mi_align_up sz alignment =
     (let mask = alignment - 1
      in if alignment AND mask = 0 then (sz + mask) AND NOT mask
         else (sz + mask) div alignment * alignment)"

definition mi_align_down :: "addr \<Rightarrow> size_t \<Rightarrow> addr" where
  "mi_align_down sz alignment =
     (let mask = alignment - 1
      in if alignment AND mask = 0 then sz AND NOT mask
         else sz div alignment * alignment)"

definition mi_divide_up :: "addr \<Rightarrow> size_t \<Rightarrow> addr" where
  "mi_divide_up sz divider = (if divider = 0 then sz else (sz + divider - 1) div divider)"

fun mem_is_zero_from :: "(addr \<Rightarrow> u8) \<Rightarrow> addr \<Rightarrow> nat \<Rightarrow> bool" where
  "mem_is_zero_from m p 0 = True"
| "mem_is_zero_from m p (Suc n) = (if m p \<noteq> 0 then False else mem_is_zero_from m (p + 1) n)"

definition mi_mem_is_zero :: "(addr \<Rightarrow> u8) \<Rightarrow> addr \<Rightarrow> size_t \<Rightarrow> bool" where
  "mi_mem_is_zero m p sz = mem_is_zero_from m p (unat sz)"

definition mi_wsize_from_size :: "size_t \<Rightarrow> size_t" where
  "mi_wsize_from_size sz = (sz + 8 - 1) div 8"

section \<open>Overflow checks\<close>

text \<open>The compiler builtin, and the portable version for compilers without it.\<close>

definition mi_mul_overflow :: "size_t \<Rightarrow> size_t \<Rightarrow> bool \<times> size_t" where
  "mi_mul_overflow cnt sz = (2 ^ 64 \<le> unat cnt * unat sz, cnt * sz)"

definition MI_MUL_NO_OVERFLOW :: size_t where
  "MI_MUL_NO_OVERFLOW = push_bit (4 * 8) 1"

definition mi_mul_overflow_portable :: "size_t \<Rightarrow> size_t \<Rightarrow> bool \<times> size_t" where
  "mi_mul_overflow_portable cnt sz =
     (let total = cnt * sz
      in ((sz \<ge> MI_MUL_NO_OVERFLOW \<or> cnt \<ge> MI_MUL_NO_OVERFLOW) \<and> sz > 0 \<and> - 1 div sz < cnt, total))"

definition mi_count_size_overflow :: "size_t \<Rightarrow> size_t \<Rightarrow> bool \<times> size_t" where
  "mi_count_size_overflow cnt sz =
     (if cnt = 1 then (False, sz)
      else (let (overflow, total) = mi_mul_overflow cnt sz
            in if overflow then (True, - 1) else (False, total)))"

section \<open>Segments and thread free lists\<close>

definition mi_ptr_segment :: "addr \<Rightarrow> addr" where
  "mi_ptr_segment p = (p - 1) AND NOT MI_SEGMENT_MASK"

definition mi_is_in_same_segment :: "addr \<Rightarrow> addr \<Rightarrow> bool" where
  "mi_is_in_same_segment p q \<longleftrightarrow> mi_ptr_segment p = mi_ptr_segment q"

datatype mi_delayed_t = MI_USE_DELAYED_FREE | MI_DELAYED_FREEING | MI_NO_DELAYED_FREE | MI_NEVER_DELAYED_FREE

fun delayed_code :: "mi_delayed_t \<Rightarrow> u64" where
  "delayed_code MI_USE_DELAYED_FREE = 0"
| "delayed_code MI_DELAYED_FREEING = 1"
| "delayed_code MI_NO_DELAYED_FREE = 2"
| "delayed_code MI_NEVER_DELAYED_FREE = 3"

definition delayed_of :: "u64 \<Rightarrow> mi_delayed_t" where
  "delayed_of x =
     (if x = 0 then MI_USE_DELAYED_FREE else if x = 1 then MI_DELAYED_FREEING
      else if x = 2 then MI_NO_DELAYED_FREE else MI_NEVER_DELAYED_FREE)"

type_synonym mi_thread_free_t = u64

definition mi_tf_block :: "mi_thread_free_t \<Rightarrow> addr" where
  "mi_tf_block tf = tf AND NOT 3"

definition mi_tf_delayed :: "mi_thread_free_t \<Rightarrow> mi_delayed_t" where
  "mi_tf_delayed tf = delayed_of (tf AND 3)"

definition mi_tf_make :: "addr \<Rightarrow> mi_delayed_t \<Rightarrow> mi_thread_free_t" where
  "mi_tf_make block delayed = block OR delayed_code delayed"

definition mi_tf_set_delayed :: "mi_thread_free_t \<Rightarrow> mi_delayed_t \<Rightarrow> mi_thread_free_t" where
  "mi_tf_set_delayed tf delayed = mi_tf_make (mi_tf_block tf) delayed"

definition mi_tf_set_block :: "mi_thread_free_t \<Rightarrow> addr \<Rightarrow> mi_thread_free_t" where
  "mi_tf_set_block tf block = mi_tf_make block (mi_tf_delayed tf)"

section \<open>Encoded free list pointers\<close>

definition mi_rotl :: "u64 \<Rightarrow> u64 \<Rightarrow> u64" where
  "mi_rotl x shift0 =
     (let shift = unat shift0 mod MI_INTPTR_BITS
      in if shift = 0 then x else push_bit shift x OR drop_bit (MI_INTPTR_BITS - shift) x)"

definition mi_rotr :: "u64 \<Rightarrow> u64 \<Rightarrow> u64" where
  "mi_rotr x shift0 =
     (let shift = unat shift0 mod MI_INTPTR_BITS
      in if shift = 0 then x else drop_bit shift x OR push_bit (MI_INTPTR_BITS - shift) x)"

definition mi_ptr_decode :: "addr \<Rightarrow> u64 \<Rightarrow> u64 \<times> u64 \<Rightarrow> addr" where
  "mi_ptr_decode null x keys =
     (let p = mi_rotr (x - fst keys) (fst keys) XOR snd keys
      in if p = null then 0 else p)"

definition mi_ptr_encode :: "addr \<Rightarrow> addr \<Rightarrow> u64 \<times> u64 \<Rightarrow> u64" where
  "mi_ptr_encode null p keys =
     (let x = (if p = 0 then null else p)
      in mi_rotl (x XOR snd keys) (fst keys) + fst keys)"

section \<open>Commit masks\<close>

type_synonym mi_commit_mask_t = "size_t list"

definition mi_commit_mask_create_empty :: mi_commit_mask_t where
  "mi_commit_mask_create_empty = map (\<lambda>i. 0) [0..<MI_COMMIT_MASK_FIELD_COUNT]"

definition mi_commit_mask_create_full :: mi_commit_mask_t where
  "mi_commit_mask_create_full = map (\<lambda>i. NOT 0) [0..<MI_COMMIT_MASK_FIELD_COUNT]"

definition mi_commit_mask_is_empty :: "mi_commit_mask_t \<Rightarrow> bool" where
  "mi_commit_mask_is_empty cm = list_all (\<lambda>i. cm ! i = 0) [0..<MI_COMMIT_MASK_FIELD_COUNT]"

definition mi_commit_mask_is_full :: "mi_commit_mask_t \<Rightarrow> bool" where
  "mi_commit_mask_is_full cm = list_all (\<lambda>i. cm ! i = NOT 0) [0..<MI_COMMIT_MASK_FIELD_COUNT]"

section \<open>Memory ids\<close>

datatype mi_memkind_t = MI_MEM_NONE | MI_MEM_EXTERNAL | MI_MEM_STATIC | MI_MEM_OS | MI_MEM_OS_HUGE | MI_MEM_OS_REMAP | MI_MEM_ARENA

definition mi_memkind_is_os :: "mi_memkind_t \<Rightarrow> bool" where
  "mi_memkind_is_os memkind \<longleftrightarrow> memkind \<in> {MI_MEM_OS, MI_MEM_OS_HUGE, MI_MEM_OS_REMAP}"

datatype mi_mem_info = OS_info addr size_t | Arena_info size_t int bool

record mi_memid_t =
  mem :: mi_mem_info
  is_pinned :: bool
  initially_committed :: bool
  initially_zero :: bool
  memkind :: mi_memkind_t

definition mi_memid_create :: "mi_memkind_t \<Rightarrow> mi_memid_t" where
  "mi_memid_create kind =
     (let memid = \<lparr>mem = OS_info 0 0, is_pinned = False, initially_committed = False, initially_zero = False, memkind = MI_MEM_NONE\<rparr>
      in memid\<lparr>memkind := kind\<rparr>)"

definition mi_memid_none :: mi_memid_t where
  "mi_memid_none = mi_memid_create MI_MEM_NONE"

definition mi_memid_create_os :: "bool \<Rightarrow> bool \<Rightarrow> bool \<Rightarrow> mi_memid_t" where
  "mi_memid_create_os committed is_zero is_large =
     (mi_memid_create MI_MEM_OS)\<lparr>initially_committed := committed, initially_zero := is_zero, is_pinned := is_large\<rparr>"

section \<open>Random shuffle\<close>

definition mi_random_shuffle :: "u64 \<Rightarrow> u64" where
  "mi_random_shuffle x0 =
     (let x = (if x0 = 0 then 17 else x0);
          x = x XOR drop_bit 30 x;
          x = x * 0xbf58476d1ce4e5b9;
          x = x XOR drop_bit 27 x;
          x = x * 0x94d049bb133111eb;
          x = x XOR drop_bit 31 x
      in x)"

section \<open>Bit scans\<close>

text \<open>The compiler builtins: zero bits before the first set bit from above, and from below.\<close>

definition builtin_clzl :: "u64 \<Rightarrow> nat" where
  "builtin_clzl x = length (takeWhile (\<lambda>i. \<not> bit x i) (rev [0..<64]))"

definition builtin_ctzl :: "u64 \<Rightarrow> nat" where
  "builtin_ctzl x = length (takeWhile (\<lambda>i. \<not> bit x i) [0..<64])"

definition mi_clz :: "u64 \<Rightarrow> nat" where
  "mi_clz x = (if x = 0 then MI_INTPTR_BITS else builtin_clzl x)"

definition mi_ctz :: "u64 \<Rightarrow> nat" where
  "mi_ctz x = (if x = 0 then MI_INTPTR_BITS else builtin_ctzl x)"

definition mi_bsr :: "u64 \<Rightarrow> nat" where
  "mi_bsr x = (if x = 0 then MI_INTPTR_BITS else MI_INTPTR_BITS - 1 - mi_clz x)"

text \<open>
  The portable versions. The constants have the type \<open>unsigned long\<close>; \<open>long64\<close> says whether it has 64 bits. A
  read outside the table is \<open>None\<close>.
\<close>

definition debruijn_ctz :: "nat list" where
  "debruijn_ctz =
     [0, 1, 28, 2, 29, 14, 24, 3, 30, 22, 20, 15, 25, 17, 4, 8,
      31, 27, 13, 23, 21, 19, 16, 7, 26, 12, 18, 6, 11, 5, 10, 9]"

definition mi_ctz32 :: "bool \<Rightarrow> u32 \<Rightarrow> nat option" where
  "mi_ctz32 long64 x =
     (if x = 0 then Some 32
      else
        (let lowest = x AND (- x);
             idx = (if long64 then unat (drop_bit 27 ((ucast lowest :: u64) * 0x077CB531))
                    else unat (drop_bit 27 (lowest * 0x077CB531)))
         in if idx < 32 then Some (debruijn_ctz ! idx) else None))"

definition debruijn_clz :: "nat list" where
  "debruijn_clz =
     [31, 22, 30, 21, 18, 10, 29, 2, 20, 17, 15, 13, 9, 6, 28, 1,
      23, 19, 11, 3, 16, 14, 7, 24, 12, 4, 8, 25, 5, 26, 27, 0]"

definition mi_clz32 :: "u32 \<Rightarrow> nat" where
  "mi_clz32 x =
     (if x = 0 then 32
      else
        (let x = x OR drop_bit 1 x;
             x = x OR drop_bit 2 x;
             x = x OR drop_bit 4 x;
             x = x OR drop_bit 8 x;
             x = x OR drop_bit 16 x
         in debruijn_clz ! unat (drop_bit 27 (x * 0x07C4ACDD))))"

definition mi_clz_portable :: "u64 \<Rightarrow> nat" where
  "mi_clz_portable x =
     (if x = 0 then MI_INTPTR_BITS
      else
        (let cnt = mi_clz32 (ucast (drop_bit 32 x))
         in if cnt < 32 then cnt else 32 + mi_clz32 (ucast x)))"

definition mi_ctz_portable :: "bool \<Rightarrow> u64 \<Rightarrow> nat option" where
  "mi_ctz_portable long64 x =
     (if x = 0 then Some MI_INTPTR_BITS
      else
        (case mi_ctz32 long64 (ucast x) of
           None \<Rightarrow> None
         | Some cnt \<Rightarrow>
             if cnt < 32 then Some cnt
             else map_option (\<lambda>n. 32 + n) (mi_ctz32 long64 (ucast (drop_bit 32 x)))))"

section \<open>Lemmas on bit scans\<close>

text \<open>\<open>k\<close> is the highest set bit.\<close>

definition highest_bit :: "'a::len word \<Rightarrow> nat \<Rightarrow> bool" where
  "highest_bit x k \<longleftrightarrow> bit x k \<and> (\<forall>i > k. \<not> bit x i)"

definition lowest_bit :: "'a::len word \<Rightarrow> nat \<Rightarrow> bool" where
  "lowest_bit x k \<longleftrightarrow> bit x k \<and> (\<forall>i < k. \<not> bit x i)"

lemma word_nonzero_bit: "x \<noteq> 0 \<Longrightarrow> \<exists>k. bit (x :: 'a::len word) k"
  by (metis bit_word_eqI bit_0_eq bot_apply bot_bool_def)

lemma highest_bit_exists:
  assumes "x \<noteq> 0" obtains k where "highest_bit (x :: 'a::len word) k" "k < LENGTH('a)"
proof -
  let ?S = "{k. bit x k}"
  have b: "k < LENGTH('a)" if "bit x k" for k using that by (rule bit_imp_le_length)
  then have "?S \<subseteq> {..<LENGTH('a)}" by blast
  then have f: "finite ?S" by (rule finite_subset) simp
  have ne: "?S \<noteq> {}" using word_nonzero_bit [OF assms] by simp
  have "highest_bit x (Max ?S)" using Max_in [OF f ne] Max_ge [OF f] by (auto simp: highest_bit_def not_le [symmetric])
  moreover have "Max ?S < LENGTH('a)" using Max_in [OF f ne] b by simp
  ultimately show ?thesis by (rule that)
qed

lemma lowest_bit_exists:
  assumes "x \<noteq> 0" obtains k where "lowest_bit (x :: 'a::len word) k" "k < LENGTH('a)"
proof -
  obtain j where "bit x j" using word_nonzero_bit [OF assms] by blast
  then have "lowest_bit x (LEAST k. bit x k)" unfolding lowest_bit_def by (metis LeastI not_less_Least)
  moreover have "(LEAST k. bit x k) < LENGTH('a)" using \<open>bit x j\<close> by (metis LeastI bit_imp_le_length)
  ultimately show ?thesis by (rule that)
qed

lemma upt_split: "k < n \<Longrightarrow> [0..<n] = [0..<k] @ k # [Suc k..<n]"
  using upt_add_eq_append [of 0 k "n - k"] by (simp add: upt_conv_Cons)

lemma scan_down:
  assumes "highest_bit x k" "k < n"
  shows "length (takeWhile (\<lambda>i. \<not> bit x i) (rev [0..<n])) = n - 1 - k"
proof -
  have "takeWhile (\<lambda>i. \<not> bit x i) (rev [Suc k..<n] @ k # rev [0..<k]) = rev [Suc k..<n]"
    using assms(1) by (simp add: takeWhile_append highest_bit_def)
  then show ?thesis using upt_split [OF assms(2)] by simp
qed

lemma scan_up:
  assumes "lowest_bit x k" "k < n"
  shows "length (takeWhile (\<lambda>i. \<not> bit x i) [0..<n]) = k"
proof -
  have "takeWhile (\<lambda>i. \<not> bit x i) ([0..<k] @ k # [Suc k..<n]) = [0..<k]"
    using assms(1) by (simp add: takeWhile_append lowest_bit_def)
  then show ?thesis using upt_split [OF assms(2)] by simp
qed

lemma mi_clz_highest: "highest_bit x k \<Longrightarrow> mi_clz x = 63 - k"
  using scan_down [of x k 64] bit_imp_le_length [of x k]
  by (auto simp: mi_clz_def builtin_clzl_def highest_bit_def MI_INTPTR_BITS_def)

lemma mi_ctz_lowest: "lowest_bit x k \<Longrightarrow> mi_ctz x = k"
  using scan_up [of x k 64] bit_imp_le_length [of x k]
  by (auto simp: mi_ctz_def builtin_ctzl_def lowest_bit_def MI_INTPTR_BITS_def)

lemma mi_bsr_highest: "highest_bit x k \<Longrightarrow> mi_bsr x = k"
  using mi_clz_highest [of x k] bit_imp_le_length [of x k]
  by (auto simp: mi_bsr_def highest_bit_def MI_INTPTR_BITS_def)

section \<open>The portable bit scans\<close>

definition smeared :: "u32 \<Rightarrow> nat \<Rightarrow> nat \<Rightarrow> bool" where
  "smeared x k n \<longleftrightarrow> (\<forall>i. bit x i \<longrightarrow> i \<le> k) \<and> (\<forall>i \<le> k. k < i + n \<longrightarrow> bit x i)"

lemma smeared_step:
  assumes "smeared x k n" shows "smeared (x OR drop_bit n x) k (2 * n)"
proof -
  have "i \<le> k" if "bit (x OR drop_bit n x) i" for i
  proof -
    have "bit x i \<or> bit x (n + i)" using that by (simp add: bit_or_iff bit_drop_bit_eq)
    then show ?thesis using assms by (fastforce simp: smeared_def)
  qed
  moreover have "bit (x OR drop_bit n x) i" if i: "i \<le> k" "k < i + 2 * n" for i
  proof (cases "k < i + n")
    case True
    then show ?thesis using assms i by (simp add: smeared_def bit_or_iff)
  next
    case False
    then have "bit x (n + i)" using assms i by (auto simp: smeared_def)
    then show ?thesis by (simp add: bit_or_iff bit_drop_bit_eq)
  qed
  ultimately show ?thesis unfolding smeared_def by blast
qed

lemma smeared_mask:
  assumes "smeared x k 32" "k < 32" shows "x = mask (Suc k)"
proof (rule bit_word_eqI)
  fix i assume "i < LENGTH(32)"
  then show "bit x i \<longleftrightarrow> bit (mask (Suc k) :: u32) i"
    using assms by (auto simp: smeared_def bit_mask_iff less_Suc_eq_le)
qed

lemma clz_table: "k < 32 \<Longrightarrow> debruijn_clz ! unat (drop_bit 27 ((mask (Suc k) :: u32) * 0x07C4ACDD)) = 31 - k"
proof -
  assume "k < 32"
  then have "k \<in> set [0..<32]" by simp
  moreover have "list_all (\<lambda>k. debruijn_clz ! unat (drop_bit 27 ((mask (Suc k) :: u32) * 0x07C4ACDD)) = 31 - k) [0..<32]"
    by code_simp
  ultimately show ?thesis by (simp only: list_all_iff)
qed

lemma ctz_table: "k < 32 \<Longrightarrow> debruijn_ctz ! unat (drop_bit 27 ((2 ^ k :: u32) * 0x077CB531)) = k"
proof -
  assume "k < 32"
  then have "k \<in> set [0..<32]" by simp
  moreover have "list_all (\<lambda>k. debruijn_ctz ! unat (drop_bit 27 ((2 ^ k :: u32) * 0x077CB531)) = k) [0..<32]"
    by code_simp
  ultimately show ?thesis by (simp only: list_all_iff)
qed

lemma mi_clz32_highest:
  assumes "highest_bit x k" shows "mi_clz32 x = 31 - k"
proof -
  have k: "k < 32" using assms bit_imp_le_length [of x k] by (simp add: highest_bit_def)
  have "smeared x k 1" unfolding smeared_def
  proof (intro conjI allI impI)
    fix i assume "bit x i" then show "i \<le> k" using assms by (meson highest_bit_def not_le)
  next
    fix i assume "i \<le> k" "k < i + 1"
    then have "i = k" by simp
    then show "bit x i" using assms by (simp add: highest_bit_def)
  qed
  from smeared_step [OF smeared_step [OF smeared_step [OF smeared_step [OF smeared_step [OF this]]]]]
  have "smeared (let x = x OR drop_bit 1 x; x = x OR drop_bit 2 x; x = x OR drop_bit 4 x; x = x OR drop_bit 8 x;
     x = x OR drop_bit 16 x in x) k 32" by (simp add: Let_def)
  from smeared_mask [OF this k] show ?thesis
    using assms clz_table [OF k] unfolding mi_clz32_def Let_def by (auto simp: highest_bit_def)
qed

lemma lowest_bit_split:
  assumes "lowest_bit (x :: 'a::len word) k"
  shows "x = (x AND NOT (mask (Suc k))) + 2 ^ k" "x - 1 = (x AND NOT (mask (Suc k))) OR mask k"
proof -
  let ?h = "x AND NOT (mask (Suc k))"
  have k: "k < LENGTH('a)" using assms bit_imp_le_length by (auto simp: lowest_bit_def)
  have "x = ?h OR 2 ^ k"
  proof (rule bit_word_eqI)
    fix i assume i: "i < LENGTH('a)"
    show "bit x i \<longleftrightarrow> bit (?h OR 2 ^ k) i"
      using assms i by (cases i k rule: linorder_cases) (auto simp: lowest_bit_def bit_simps)
  qed
  moreover have "?h AND 2 ^ k = 0" by (rule bit_word_eqI) (auto simp: bit_simps)
  ultimately show x: "x = ?h + 2 ^ k" by (metis disjunctive_add_eq_or)
  have "?h AND mask k = 0" by (rule bit_word_eqI) (auto simp: bit_simps)
  then have "?h OR mask k = ?h + mask k" by (metis disjunctive_add_eq_or)
  then show "x - 1 = ?h OR mask k" using x by (simp add: mask_eq_exp_minus_1 algebra_simps)
qed

lemma lowest_bit_and_neg:
  assumes "lowest_bit (x :: 'a::len word) k" shows "x AND - x = 2 ^ k"
proof (rule bit_word_eqI)
  fix i assume i: "i < LENGTH('a)"
  have "- x = NOT ((x AND NOT (mask (Suc k))) OR mask k)"
    using lowest_bit_split(2) [OF assms] by (simp add: minus_eq_not_minus_1)
  then show "bit (x AND - x) i \<longleftrightarrow> bit (2 ^ k :: 'a word) i"
    using assms i by (cases i k rule: linorder_cases) (auto simp: lowest_bit_def bit_simps)
qed

lemma mi_ctz32_lowest:
  assumes "lowest_bit x k" shows "mi_ctz32 False x = Some k"
proof -
  have k: "k < 32" and nz: "x \<noteq> 0" using assms bit_imp_le_length [of x k] by (auto simp: lowest_bit_def)
  have "unat (drop_bit 27 ((2 ^ k :: u32) * 0x077CB531)) < 32"
    using unat_u32_less [of "2 ^ k * 0x077CB531"] by (simp add: unat_drop_bit less_mult_imp_div_less)
  then show ?thesis using nz ctz_table [OF k] lowest_bit_and_neg [OF assms] by (simp add: mi_ctz32_def)
qed

lemma highest_bit_ucast:
  assumes h: "highest_bit (x :: u64) k"
  shows "32 \<le> k \<Longrightarrow> highest_bit (ucast (drop_bit 32 x) :: u32) (k - 32)"
    and "k < 32 \<Longrightarrow> ucast (drop_bit 32 x) = (0 :: u32) \<and> highest_bit (ucast x :: u32) k"
proof -
  have k: "k < 64" using h bit_imp_le_length [of x k] by (simp add: highest_bit_def)
  show "highest_bit (ucast (drop_bit 32 x) :: u32) (k - 32)" if "32 \<le> k"
    using h k that by (auto simp: highest_bit_def bit_simps)
  show "ucast (drop_bit 32 x) = (0 :: u32) \<and> highest_bit (ucast x :: u32) k" if "k < 32"
    using h that by (auto simp: highest_bit_def bit_simps intro!: bit_word_eqI)
qed

lemma lowest_bit_ucast:
  assumes h: "lowest_bit (x :: u64) k"
  shows "32 \<le> k \<Longrightarrow> ucast x = (0 :: u32) \<and> lowest_bit (ucast (drop_bit 32 x) :: u32) (k - 32)"
    and "k < 32 \<Longrightarrow> lowest_bit (ucast x :: u32) k"
proof -
  have k: "k < 64" using h bit_imp_le_length [of x k] by (simp add: lowest_bit_def)
  show "ucast x = (0 :: u32) \<and> lowest_bit (ucast (drop_bit 32 x) :: u32) (k - 32)" if "32 \<le> k"
    using h k that by (auto simp: lowest_bit_def bit_simps intro!: bit_word_eqI)
  show "lowest_bit (ucast x :: u32) k" if "k < 32"
    using h that by (auto simp: lowest_bit_def bit_simps)
qed

lemma mi_ctz32_outside:
  assumes "6 \<le> k" "k < 32" shows "mi_ctz32 True (2 ^ k) = None"
proof -
  have l: "lowest_bit (2 ^ k :: u32) k" using assms(2) by (auto simp: lowest_bit_def bit_simps)
  have u: "unat (ucast (2 ^ k :: u32) :: u64) = 2 ^ k" using assms(2) unat_pow2 [where 'a = 32, of k] by simp
  have lo: "(2 :: nat) ^ 6 \<le> 2 ^ k" and hi: "(2 :: nat) ^ k \<le> 2 ^ 31" using assms by (intro power_increasing; simp)+
  have "unat ((ucast (2 ^ k :: u32) :: u64) * 0x077CB531) = 2 ^ k * 125613361"
    using hi unat_pow2 [where 'a = 32, of k] assms(2) by (subst unat_mult_small) simp_all
  moreover have "32 \<le> 2 ^ k * 125613361 div (2 :: nat) ^ 27" using lo by (simp add: less_eq_div_iff_mult_less_eq)
  ultimately have "\<not> unat (drop_bit 27 ((ucast (2 ^ k :: u32) :: u64) * 0x077CB531)) < 32"
    unfolding unat_drop_bit by simp
  moreover have "(2 :: u32) ^ k \<noteq> 0" using assms(2) by simp
  ultimately show ?thesis using lowest_bit_and_neg [OF l] by (simp add: mi_ctz32_def)
qed

section \<open>Lemmas on encoding and arithmetic\<close>

lemma mi_rot_bit:
  assumes "i < 64"
  shows "bit (mi_rotl x s) i \<longleftrightarrow> bit x ((i + 64 - unat s mod 64) mod 64)"
    and "bit (mi_rotr x s) i \<longleftrightarrow> bit x ((i + unat s mod 64) mod 64)"
proof -
  let ?s = "unat s mod 64"
  have s: "?s < 64" by simp
  have l: "(i + 64 - ?s) mod 64 = (if ?s \<le> i then i - ?s else i + 64 - ?s)" using assms s by (auto simp: le_mod_geq)
  have r: "(i + ?s) mod 64 = (if i + ?s < 64 then i + ?s else i + ?s - 64)" using assms s by (auto simp: le_mod_geq)
  show "bit (mi_rotl x s) i \<longleftrightarrow> bit x ((i + 64 - ?s) mod 64)"
    using assms s unfolding l mi_rotl_def MI_INTPTR_BITS_def Let_def
    by (auto simp: bit_simps add.commute [of i 64] dest: bit_imp_le_length)
  show "bit (mi_rotr x s) i \<longleftrightarrow> bit x ((i + ?s) mod 64)"
    using assms s unfolding r mi_rotr_def MI_INTPTR_BITS_def Let_def
    by (auto simp: bit_simps add.commute [of "unat s mod 64" i] dest: bit_imp_le_length)
qed

lemma mi_rotr_rotl [simp]: "mi_rotr (mi_rotl x s) s = x"
proof (rule bit_word_eqI)
  fix i assume "i < LENGTH(64)"
  then have i: "i < 64" by simp
  let ?s = "unat s mod 64"
  have s: "?s < 64" by simp
  have "((j + a) mod 64 + 64 - a) mod 64 = j" if "j < 64" "a < 64" for j a :: nat
    using that by (cases "j + a < 64") (simp_all add: le_mod_geq)
  from this [OF i s] have "((i + ?s) mod 64 + 64 - ?s) mod 64 = i" .
  then show "bit (mi_rotr (mi_rotl x s) s) i = bit x i"
    using mi_rot_bit(2) [OF i, of "mi_rotl x s" s] mi_rot_bit(1) [of "(i + ?s) mod 64" x s] by simp
qed

lemma xorshift_inj:
  assumes "x XOR drop_bit n x = y XOR drop_bit n (y :: 'a::len word)" "0 < n"
  shows "x = y"
proof (rule ccontr)
  assume "x \<noteq> y"
  then have "x XOR y \<noteq> 0" by (metis xor_self_eq xor.assoc xor.left_neutral xor.right_neutral)
  then obtain k where k: "highest_bit (x XOR y) k" "k < LENGTH('a)" by (rule highest_bit_exists)
  have "bit (x XOR drop_bit n x) k \<longleftrightarrow> bit (y XOR drop_bit n y) k" using assms(1) by simp
  moreover have "bit x k \<noteq> bit y k" using k(1) by (simp add: highest_bit_def bit_simps)
  moreover have "bit x (n + k) \<longleftrightarrow> bit y (n + k)"
  proof (cases "n + k < LENGTH('a)")
    case True
    have "\<not> bit (x XOR y) (n + k)" using k(1) assms(2) by (auto simp: highest_bit_def)
    then show ?thesis by (simp add: bit_simps)
  qed (auto dest: bit_imp_le_length)
  ultimately show False using k(2) by (auto simp: bit_simps)
qed

lemma odd_mult_inj:
  assumes "x * c = y * (c :: u64)" "c * d = 1" shows "x = y"
proof -
  have "x * (c * d) = y * (c * d)" using assms(1) by (simp only: mult.assoc [symmetric])
  then show ?thesis using assms(2) by simp
qed

section \<open>Properties\<close>

text \<open>
  The portable scans for the leading and, where \<open>unsigned long\<close> has 32 bits, the trailing zeros give the
  results of the compiler builtins for every word; with a 64-bit \<open>unsigned long\<close> the product in \<open>mi_ctz32\<close> is not cut
  to 32 bits, and it reads outside its table as soon as the lowest set bit is bit 6 or higher.
\<close>

theorem portable_bit_scans:
  "mi_clz_portable x = mi_clz x \<and> mi_ctz_portable False x = Some (mi_ctz x) \<and>
   (6 \<le> k \<longrightarrow> k < 32 \<longrightarrow> mi_ctz32 True (2 ^ k) = None)"
proof (intro conjI impI)
  show "mi_clz_portable x = mi_clz x"
  proof (cases "x = 0")
    case False
    then obtain j where j: "highest_bit x j" "j < 64" by (rule highest_bit_exists) simp
    show ?thesis
    proof (cases "32 \<le> j")
      case True
      then show ?thesis using False j mi_clz_highest [OF j(1)] mi_clz32_highest [OF highest_bit_ucast(1) [OF j(1) True]]
        by (simp add: mi_clz_portable_def Let_def)
    next
      case hi: False
      then have "j < 32" by simp
      then show ?thesis
        using False mi_clz_highest [OF j(1)] highest_bit_ucast(2) [OF j(1)] mi_clz32_highest [of "ucast x" j]
        by (simp add: mi_clz_portable_def mi_clz32_def [of 0])
    qed
  qed (simp add: mi_clz_portable_def mi_clz_def)
  show "mi_ctz_portable False x = Some (mi_ctz x)"
  proof (cases "x = 0")
    case False
    then obtain j where j: "lowest_bit x j" "j < 64" by (rule lowest_bit_exists) simp
    show ?thesis
    proof (cases "32 \<le> j")
      case True
      then show ?thesis using False j mi_ctz_lowest [OF j(1)] lowest_bit_ucast(1) [OF j(1) True]
          mi_ctz32_lowest [of "ucast (drop_bit 32 x)" "j - 32"]
        by (simp add: mi_ctz_portable_def mi_ctz32_def [of False 0])
    next
      case hi: False
      then show ?thesis
        using False mi_ctz_lowest [OF j(1)] mi_ctz32_lowest [OF lowest_bit_ucast(2) [OF j(1)]]
        by (simp add: mi_ctz_portable_def)
    qed
  qed (simp add: mi_ctz_portable_def mi_ctz_def)
  assume "6 \<le> k" "k < 32"
  then show "mi_ctz32 True (2 ^ k) = None" by (rule mi_ctz32_outside)
qed

theorem portable_bit_scans_witness:
  "mi_clz_portable 0x1000 = mi_clz 0x1000 \<and> mi_ctz32 True (2 ^ 6) = None"
  using portable_bit_scans [of "0x1000" 6] by simp

text \<open>
  A free list pointer that is decoded with the keys it was encoded with comes back, for all keys, the
  null pointer included; only the address that stands for null cannot be encoded.
\<close>

theorem mi_ptr_roundtrip:
  assumes "p \<noteq> null"
  shows "mi_ptr_decode null (mi_ptr_encode null p keys) keys = p"
  using assms by (auto simp: mi_ptr_decode_def mi_ptr_encode_def Let_def xor.assoc)

theorem mi_ptr_roundtrip_witness:
  "mi_ptr_decode 0x2000000 (mi_ptr_encode 0x2000000 0x2010040 (0x9E37, 0x79B9)) (0x9E37, 0x79B9) = 0x2010040"
  by (rule mi_ptr_roundtrip) simp

text \<open>
  \<open>mi_random_shuffle\<close> never returns zero, as \<open>mi_os_random_weak\<close> asserts, and it is injective on nonzero words.
\<close>

theorem mi_random_shuffle_nonzero:
  "mi_random_shuffle x \<noteq> 0 \<and> (x \<noteq> 0 \<longrightarrow> y \<noteq> 0 \<longrightarrow> mi_random_shuffle x = mi_random_shuffle y \<longrightarrow> x = y)"
proof -
  define f where "f = (\<lambda>x :: u64. (let x = x XOR drop_bit 30 x; x = x * 0xbf58476d1ce4e5b9; x = x XOR drop_bit 27 x;
     x = x * 0x94d049bb133111eb in x XOR drop_bit 31 x))"
  have inj: "u = v" if "f u = f v" for u v
  proof -
    have 1: "(0xbf58476d1ce4e5b9 :: u64) * 0x96DE1B173F119089 = 1" by simp
    have 2: "(0x94d049bb133111eb :: u64) * 0x319642B2D24D8EC3 = 1" by simp
    show ?thesis
      using that unfolding f_def Let_def
      by (auto dest!: xorshift_inj odd_mult_inj [OF _ 1] odd_mult_inj [OF _ 2])
  qed
  have f0: "f 0 = 0" by (simp add: f_def)
  have e: "mi_random_shuffle x = f (if x = 0 then 17 else x)" for x by (simp add: mi_random_shuffle_def f_def Let_def)
  have "f (if x = 0 then 17 else x) \<noteq> 0" using inj [of "if x = 0 then 17 else x" 0] f0 by auto
  then show ?thesis using inj e by auto
qed

theorem mi_random_shuffle_nonzero_witness:
  "mi_random_shuffle 1 \<noteq> mi_random_shuffle 2"
  using mi_random_shuffle_nonzero [of 1 2] by auto

text \<open>
  The portable overflow check of multiplication agrees with the builtin: it reports an overflow exactly
  when the product does not fit into 64 bits. \<open>mi_count_size_overflow\<close> then gives the product, or the largest size.
\<close>

theorem mul_overflow_exact:
  "mi_mul_overflow_portable c s = mi_mul_overflow c s \<and>
   mi_count_size_overflow c s = (if unat c * unat s < 2 ^ 64 then (False, c * s) else (True, - 1))"
proof
  have "(- 1 div s < c) = (2 ^ 64 - 1 < unat c * unat s)" if s: "s > 0"
  proof -
    have "0 < unat s" using s by (simp add: word_less_nat_alt)
    have "unat (- 1 :: u64) = 2 ^ 64 - 1" by (simp add: unsigned_minus_1_eq_mask mask_eq_exp_minus_1)
    then have "unat (- 1 div s) = (2 ^ 64 - 1) div unat s" by (simp add: unat_div)
    then show ?thesis using \<open>0 < unat s\<close> by (simp add: word_less_nat_alt div_less_iff_less_mult)
  qed
  moreover have "unat c * unat s < 2 ^ 64" if "s < MI_MUL_NO_OVERFLOW" "c < MI_MUL_NO_OVERFLOW"
  proof -
    have "unat s < 2 ^ 32" "unat c < 2 ^ 32" using that by (simp_all add: MI_MUL_NO_OVERFLOW_def word_less_nat_alt)
    then have "unat c * unat s < 2 ^ 32 * 2 ^ 32" by (intro mult_strict_mono) auto
    then show ?thesis by simp
  qed
  moreover have "s > 0" if "2 ^ 64 \<le> unat c * unat s" using that by (auto simp: word_gt_0)
  ultimately show "mi_mul_overflow_portable c s = mi_mul_overflow c s"
    unfolding mi_mul_overflow_portable_def mi_mul_overflow_def Let_def by (auto simp: not_le not_less intro: leI)
  show "mi_count_size_overflow c s = (if unat c * unat s < 2 ^ 64 then (False, c * s) else (True, - 1))"
    using unat_u64_less [of s] by (auto simp: mi_count_size_overflow_def mi_mul_overflow_def)
qed

end
