(* ===== verification/Mi_Random.thy ===== *)
theory Mi_Random
  imports Mi_Internal
begin

text \<open>
  mimalloc's random numbers, \<^verbatim>\<open>src/random.c\<close>: the ChaCha20 generator and its initialisation. Arrays of
  sixteen words are lists; the clock, the random source of the operating system and the address of the
  function \<open>_mi_os_random_weak\<close> are parameters.
\<close>

section \<open>ChaCha20\<close>

record mi_random_ctx_t =
  ctx_input :: "u32 list"
  ctx_output :: "u32 list"
  output_available :: int
  weak :: bool

definition MI_CHACHA_ROUNDS :: nat where
  "MI_CHACHA_ROUNDS = 20"

definition rotl :: "u32 \<Rightarrow> nat \<Rightarrow> u32" where
  "rotl x shift = push_bit shift x OR drop_bit (32 - shift) x"

definition qround :: "u32 list \<Rightarrow> nat \<Rightarrow> nat \<Rightarrow> nat \<Rightarrow> nat \<Rightarrow> u32 list" where
  "qround x a b c d =
     (let x = x[a := x ! a + x ! b]; x = x[d := rotl (x ! d XOR x ! a) 16];
          x = x[c := x ! c + x ! d]; x = x[b := rotl (x ! b XOR x ! c) 12];
          x = x[a := x ! a + x ! b]; x = x[d := rotl (x ! d XOR x ! a) 8];
          x = x[c := x ! c + x ! d]; x = x[b := rotl (x ! b XOR x ! c) 7]
      in x)"

definition double_round :: "u32 list \<Rightarrow> u32 list" where
  "double_round x =
     (let x = qround x 0 4 8 12;
          x = qround x 1 5 9 13;
          x = qround x 2 6 10 14;
          x = qround x 3 7 11 15;
          x = qround x 0 5 10 15;
          x = qround x 1 6 11 12;
          x = qround x 2 7 8 13;
          x = qround x 3 4 9 14
      in x)"

text \<open>The loop counts up by two.\<close>

definition chacha_block :: "mi_random_ctx_t \<Rightarrow> mi_random_ctx_t" where
  "chacha_block ctx =
     (let x = map (\<lambda>i. ctx_input ctx ! i) [0..<16];
          x = (double_round ^^ (MI_CHACHA_ROUNDS div 2)) x;
          ctx = ctx\<lparr>ctx_output := map (\<lambda>i. x ! i + ctx_input ctx ! i) [0..<16]\<rparr>;
          ctx = ctx\<lparr>output_available := 16\<rparr>;
          ctx = ctx\<lparr>ctx_input := (ctx_input ctx)[12 := ctx_input ctx ! 12 + 1]\<rparr>
      in if ctx_input ctx ! 12 = 0
         then
           (let ctx = ctx\<lparr>ctx_input := (ctx_input ctx)[13 := ctx_input ctx ! 13 + 1]\<rparr>
            in if ctx_input ctx ! 13 = 0
               then ctx\<lparr>ctx_input := (ctx_input ctx)[14 := ctx_input ctx ! 14 + 1]\<rparr>
               else ctx)
         else ctx)"

definition chacha_next32 :: "mi_random_ctx_t \<Rightarrow> u32 \<times> mi_random_ctx_t" where
  "chacha_next32 ctx =
     (let ctx = (if output_available ctx \<le> 0 then (chacha_block ctx)\<lparr>output_available := 16\<rparr> else ctx);
          i = nat (16 - output_available ctx);
          x = ctx_output ctx ! i;
          ctx = ctx\<lparr>ctx_output := (ctx_output ctx)[i := 0]\<rparr>;
          ctx = ctx\<lparr>output_available := output_available ctx - 1\<rparr>
      in (x, ctx))"

definition read32 :: "u8 list \<Rightarrow> nat \<Rightarrow> u32" where
  "read32 p idx32 =
     (let i = 4 * idx32
      in ucast (p ! (i + 0)) OR push_bit 8 (ucast (p ! (i + 1))) OR push_bit 16 (ucast (p ! (i + 2))) OR
         push_bit 24 (ucast (p ! (i + 3))))"

text \<open>The sixteen characters of \<^verbatim>\<open>"expand 32-byte k"\<close>.\<close>

definition sigma :: "u8 list" where
  "sigma = [0x65, 0x78, 0x70, 0x61, 0x6e, 0x64, 0x20, 0x33, 0x32, 0x2d, 0x62, 0x79, 0x74, 0x65, 0x20, 0x6b]"

definition zero_ctx :: mi_random_ctx_t where
  "zero_ctx = \<lparr>ctx_input = replicate 16 0, ctx_output = replicate 16 0, output_available = 0, weak = False\<rparr>"

text \<open>The whole context, with the flag \<open>weak\<close>, is cleared first.\<close>

definition chacha_init :: "u8 list \<Rightarrow> u64 \<Rightarrow> mi_random_ctx_t" where
  "chacha_init key nonce =
     zero_ctx\<lparr>ctx_input := map (read32 sigma) [0..<4] @ map (read32 key) [0..<8] @
        [0, 0, ucast nonce, ucast (drop_bit 32 nonce)]\<rparr>"

definition chacha_split :: "mi_random_ctx_t \<Rightarrow> u64 \<Rightarrow> mi_random_ctx_t" where
  "chacha_split ctx nonce =
     (let ctx_new = zero_ctx\<lparr>ctx_input := ctx_input ctx\<rparr>;
          ctx_new = ctx_new\<lparr>ctx_input := (ctx_input ctx_new)[12 := 0, 13 := 0, 14 := ucast nonce, 15 := ucast (drop_bit 32 nonce)]\<rparr>
      in chacha_block ctx_new)"

section \<open>The random interface\<close>

definition mi_random_is_initialized :: "mi_random_ctx_t option \<Rightarrow> bool" where
  "mi_random_is_initialized ctx = (case ctx of None \<Rightarrow> False | Some ctx \<Rightarrow> ctx_input ctx ! 0 \<noteq> 0)"

text \<open>The nonce of a new context is its address.\<close>

definition mi_random_split :: "mi_random_ctx_t \<Rightarrow> addr \<Rightarrow> mi_random_ctx_t" where
  "mi_random_split ctx ctx_new_addr = chacha_split ctx ctx_new_addr"

text \<open>C leaves open which of the two calls comes first: a parameter.\<close>

definition mi_random_next :: "bool \<Rightarrow> mi_random_ctx_t \<Rightarrow> u64 \<times> mi_random_ctx_t" where
  "mi_random_next left_first ctx =
     (let (a, ctx) = chacha_next32 ctx;
          (b, ctx) = chacha_next32 ctx;
          (hi, lo) = (if left_first then (a, b) else (b, a))
      in (push_bit 32 (ucast hi) OR ucast lo, ctx))"

definition mi_os_random_weak :: "addr \<Rightarrow> u64 \<Rightarrow> u64 \<Rightarrow> u64" where
  "mi_os_random_weak self_addr clock_now extra_seed =
     (let x = self_addr XOR extra_seed;
          x = x XOR clock_now;
          max = ((x XOR drop_bit 17 x) AND 0x0F) + 1
      in (mi_random_shuffle ^^ unat max) x)"

text \<open>The eight words of the weak key, stored in little-endian order, and the generator state after them.\<close>

fun weak_key :: "nat \<Rightarrow> u64 \<Rightarrow> u8 list" where
  "weak_key 0 x = []"
| "weak_key (Suc n) x =
     (let x = mi_random_shuffle x;
          v = ucast x :: u32
      in [ucast v, ucast (drop_bit 8 v), ucast (drop_bit 16 v), ucast (drop_bit 24 v)] @ weak_key n x)"

text \<open>The source of random bytes gives a key or fails.\<close>

definition mi_random_init_ex ::
    "addr \<Rightarrow> u64 \<Rightarrow> u8 list option \<Rightarrow> addr \<Rightarrow> bool \<Rightarrow> mi_random_ctx_t \<Rightarrow> mi_random_ctx_t" where
  "mi_random_init_ex self_addr clock_now random_buf ctx_addr use_weak ctx =
     (let (key, ctx) =
        (if use_weak \<or> random_buf = None
         then (let x = mi_os_random_weak self_addr clock_now 0 in (weak_key 8 x, ctx\<lparr>weak := True\<rparr>))
         else (the random_buf, ctx\<lparr>weak := False\<rparr>))
      in chacha_init key ctx_addr)"

definition mi_random_init :: "addr \<Rightarrow> u64 \<Rightarrow> u8 list option \<Rightarrow> addr \<Rightarrow> mi_random_ctx_t \<Rightarrow> mi_random_ctx_t" where
  "mi_random_init self_addr clock_now random_buf ctx_addr ctx =
     mi_random_init_ex self_addr clock_now random_buf ctx_addr False ctx"

definition mi_random_init_weak :: "addr \<Rightarrow> u64 \<Rightarrow> u8 list option \<Rightarrow> addr \<Rightarrow> mi_random_ctx_t \<Rightarrow> mi_random_ctx_t" where
  "mi_random_init_weak self_addr clock_now random_buf ctx_addr ctx =
     mi_random_init_ex self_addr clock_now random_buf ctx_addr True ctx"

definition mi_random_reinit_if_weak :: "addr \<Rightarrow> u64 \<Rightarrow> u8 list option \<Rightarrow> addr \<Rightarrow> mi_random_ctx_t \<Rightarrow> mi_random_ctx_t" where
  "mi_random_reinit_if_weak self_addr clock_now random_buf ctx_addr ctx =
     (if weak ctx then mi_random_init self_addr clock_now random_buf ctx_addr ctx else ctx)"

text \<open>The test vectors of RFC 8439 in the comment at the end of the file.\<close>

definition chacha_test :: bool where
  "chacha_test \<longleftrightarrow>
     qround [0x11111111, 0x01020304, 0x9b8d6f43, 0x01234567] 0 1 2 3 = [0xea2a92f4, 0xcb1cf8ce, 0x4581472e, 0x5881c4bb] \<and>
     qround
       [0x879531e0, 0xc5ecf37d, 0x516461b1, 0xc9a62f8a, 0x44c20ef3, 0x3390af7f, 0xd9fc690b, 0x2a5f714c,
        0x53372767, 0xb00a5631, 0x974c541a, 0x359e9963, 0x5c971061, 0x3d631689, 0x2098d9d6, 0x91dbd320] 2 7 8 13 =
       [0x879531e0, 0xc5ecf37d, 0xbdb886dc, 0xc9a62f8a, 0x44c20ef3, 0x3390af7f, 0xd9fc690b, 0xcfacafd2,
        0xe46bea80, 0xb00a5631, 0x974c541a, 0x359e9963, 0x5c971061, 0xccc07c79, 0x2098d9d6, 0x91dbd320] \<and>
     ctx_output (chacha_block
       \<lparr>ctx_input = [0x61707865, 0x3320646e, 0x79622d32, 0x6b206574, 0x03020100, 0x07060504, 0x0b0a0908, 0x0f0e0d0c,
          0x13121110, 0x17161514, 0x1b1a1918, 0x1f1e1d1c, 0x00000001, 0x09000000, 0x4a000000, 0x00000000],
        ctx_output = replicate 16 0, output_available = 0, weak = False\<rparr>) =
       [0xe4e7f110, 0x15593bd1, 0x1fdd0f50, 0xc47120a3, 0xc7f4d1c7, 0x0368c033, 0x9aaa2204, 0x4e6cd4c3,
        0x466482d2, 0x09aa9f07, 0x05d7c214, 0xa2028bd9, 0xd19c12b5, 0xb94e16de, 0xe883d0cb, 0x4e3c50a2]"

text \<open>Rounds as compositions of single assignments, for evaluation.\<close>

definition add_step :: "nat \<Rightarrow> nat \<Rightarrow> u32 list \<Rightarrow> u32 list" where
  "add_step a b x = x[a := x ! a + x ! b]"

definition xor_step :: "nat \<Rightarrow> nat \<Rightarrow> nat \<Rightarrow> u32 list \<Rightarrow> u32 list" where
  "xor_step d a s x = x[d := rotl (x ! d XOR x ! a) s]"

lemma qround_steps:
  "qround x a b c d = xor_step b c 7 (add_step c d (xor_step d a 8 (add_step a b
     (xor_step b c 12 (add_step c d (xor_step d a 16 (add_step a b x)))))))"
  by (simp add: qround_def add_step_def xor_step_def Let_def)

lemma double_round_steps:
  "double_round x = qround (qround (qround (qround (qround (qround (qround (qround x 0 4 8 12) 1 5 9 13) 2 6 10 14)
     3 7 11 15) 0 5 10 15) 1 6 11 12) 2 7 8 13) 3 4 9 14"
  by (simp add: double_round_def Let_def)

lemma ten_rounds: "(double_round ^^ 10) x = double_round (double_round (double_round (double_round (double_round
    (double_round (double_round (double_round (double_round (double_round x)))))))))"
  by (simp add: numeral_eq_Suc)

lemma upt_16: "[0..<16] = ([0, 1, 2, 3, 4, 5, 6, 7, 8, 9, 10, 11, 12, 13, 14, 15] :: nat list)"
  by (simp add: upt_rec)

lemmas chacha_steps = double_round_steps qround_steps add_step_def xor_step_def rotl_def

text \<open>The ten double rounds of the block test vector.\<close>

lemma rfc_round_1: "double_round
     [0x61707865, 0x3320646e, 0x79622d32, 0x6b206574, 0x3020100, 0x7060504, 0xb0a0908, 0xf0e0d0c,
      0x13121110, 0x17161514, 0x1b1a1918, 0x1f1e1d1c, 0x1, 0x9000000, 0x4a000000, 0x0] =
     [0xcd52e917, 0x85ab03b4, 0xb3457395, 0xf96de7dd, 0xc4b7cd22, 0x5c2e187a, 0xc95eb461, 0x316c801a,
      0x7bf7d740, 0x7eddd644, 0xf1a1bdf5, 0x761246ca, 0x6b0d58a3, 0x6798471a, 0xd737f167, 0xf173888d]"
  by (simp add: chacha_steps)

lemma rfc_round_2: "double_round
     [0xcd52e917, 0x85ab03b4, 0xb3457395, 0xf96de7dd, 0xc4b7cd22, 0x5c2e187a, 0xc95eb461, 0x316c801a,
      0x7bf7d740, 0x7eddd644, 0xf1a1bdf5, 0x761246ca, 0x6b0d58a3, 0x6798471a, 0xd737f167, 0xf173888d] =
     [0xcf1a7584, 0x48927ec, 0x54051fda, 0xc244ff28, 0x901d2f40, 0x7974b81c, 0x378dcfb4, 0xcd47fd0e,
      0x2dafb216, 0x27c89cd6, 0xcd3c9aa0, 0x79fc89c7, 0x10aef18d, 0x16218765, 0x68f76705, 0x4d6ee22]"
  by (simp add: chacha_steps)

lemma rfc_round_3: "double_round
     [0xcf1a7584, 0x48927ec, 0x54051fda, 0xc244ff28, 0x901d2f40, 0x7974b81c, 0x378dcfb4, 0xcd47fd0e,
      0x2dafb216, 0x27c89cd6, 0xcd3c9aa0, 0x79fc89c7, 0x10aef18d, 0x16218765, 0x68f76705, 0x4d6ee22] =
     [0x3a14032, 0x66b15927, 0x9d6b6b42, 0xb84c4109, 0xa7143ae0, 0xa09b33dd, 0xa5daaf88, 0x2fd91a73,
      0xc90c6b18, 0x5a202413, 0xc20e01b6, 0x72cd6b74, 0xba35d777, 0xb360f1bf, 0x8178315b, 0x2cd11b1a]"
  by (simp add: chacha_steps)

lemma rfc_round_4: "double_round
     [0x3a14032, 0x66b15927, 0x9d6b6b42, 0xb84c4109, 0xa7143ae0, 0xa09b33dd, 0xa5daaf88, 0x2fd91a73,
      0xc90c6b18, 0x5a202413, 0xc20e01b6, 0x72cd6b74, 0xba35d777, 0xb360f1bf, 0x8178315b, 0x2cd11b1a] =
     [0x9a2d3589, 0xb23fc4e, 0x40af3b6b, 0xceea8144, 0xa1bffc6, 0x5e5993f7, 0x9904c2e7, 0xd334718,
      0xe46c6354, 0xc9503229, 0x4fef5aa, 0xf8933f72, 0x2687d476, 0x54e65231, 0x3594ffc5, 0x2b3bb2ca]"
  by (simp add: chacha_steps)

lemma rfc_round_5: "double_round
     [0x9a2d3589, 0xb23fc4e, 0x40af3b6b, 0xceea8144, 0xa1bffc6, 0x5e5993f7, 0x9904c2e7, 0xd334718,
      0xe46c6354, 0xc9503229, 0x4fef5aa, 0xf8933f72, 0x2687d476, 0x54e65231, 0x3594ffc5, 0x2b3bb2ca] =
     [0xc53318c5, 0xca325d96, 0x7e7d11cb, 0x3404e2ca, 0x26d7cf73, 0x6088d379, 0xc0f0e9bd, 0xe310cdb9,
      0xae2ca8db, 0x42f67c72, 0x71669aca, 0x975c171d, 0x9e5ec228, 0x7d85a9f3, 0x201d0756, 0x63fa6953]"
  by (simp add: chacha_steps)

lemma rfc_round_6: "double_round
     [0xc53318c5, 0xca325d96, 0x7e7d11cb, 0x3404e2ca, 0x26d7cf73, 0x6088d379, 0xc0f0e9bd, 0xe310cdb9,
      0xae2ca8db, 0x42f67c72, 0x71669aca, 0x975c171d, 0x9e5ec228, 0x7d85a9f3, 0x201d0756, 0x63fa6953] =
     [0x4a3131a, 0x66176309, 0x415bab1, 0x61b880a2, 0x36cc86c7, 0xbf8a4465, 0xf77dd720, 0xfc0bdc90,
      0x7d13aca, 0xeb0be9af, 0x61599491, 0x918512dc, 0x33b6686d, 0x795cc671, 0xc0049972, 0xa0a81bde]"
  by (simp add: chacha_steps)

lemma rfc_round_7: "double_round
     [0x4a3131a, 0x66176309, 0x415bab1, 0x61b880a2, 0x36cc86c7, 0xbf8a4465, 0xf77dd720, 0xfc0bdc90,
      0x7d13aca, 0xeb0be9af, 0x61599491, 0x918512dc, 0x33b6686d, 0x795cc671, 0xc0049972, 0xa0a81bde] =
     [0x9b70f51f, 0x7ea8ac11, 0x21e54da9, 0xca393b2f, 0x93b08686, 0x6a4c50ae, 0x19212a5a, 0x9b032958,
      0xd839165e, 0x4c06e28a, 0xd3fde99e, 0x26acc13d, 0xa609f555, 0x2c246549, 0x95151853, 0x2c847a0d]"
  by (simp add: chacha_steps)

lemma rfc_round_8: "double_round
     [0x9b70f51f, 0x7ea8ac11, 0x21e54da9, 0xca393b2f, 0x93b08686, 0x6a4c50ae, 0x19212a5a, 0x9b032958,
      0xd839165e, 0x4c06e28a, 0xd3fde99e, 0x26acc13d, 0xa609f555, 0x2c246549, 0x95151853, 0x2c847a0d] =
     [0xca5c85dd, 0x93a4f90e, 0xd9f0df58, 0x26dd82dd, 0x982563f8, 0x712aa9ff, 0x279a61e8, 0x970f72bd,
      0x1c25931a, 0x5180bb10, 0x779c27e7, 0x54077e08, 0xa9b751fb, 0x382f3ce2, 0x8db1757d, 0xcc38080b]"
  by (simp add: chacha_steps)

lemma rfc_round_9: "double_round
     [0xca5c85dd, 0x93a4f90e, 0xd9f0df58, 0x26dd82dd, 0x982563f8, 0x712aa9ff, 0x279a61e8, 0x970f72bd,
      0x1c25931a, 0x5180bb10, 0x779c27e7, 0x54077e08, 0xa9b751fb, 0x382f3ce2, 0x8db1757d, 0xcc38080b] =
     [0xb6b87de6, 0x9a016148, 0x93859815, 0x4915e6cc, 0xdc33c122, 0x98e18fa3, 0x5ffbe8fc, 0xf7154b8b,
      0x28c1fcb3, 0xc4b38f9d, 0x83e2f5d7, 0x7d24b98b, 0x21078b22, 0xb193e7a3, 0xb2f49389, 0x6cde6026]"
  by (simp add: chacha_steps)

lemma rfc_round_10: "double_round
     [0xb6b87de6, 0x9a016148, 0x93859815, 0x4915e6cc, 0xdc33c122, 0x98e18fa3, 0x5ffbe8fc, 0xf7154b8b,
      0x28c1fcb3, 0xc4b38f9d, 0x83e2f5d7, 0x7d24b98b, 0x21078b22, 0xb193e7a3, 0xb2f49389, 0x6cde6026] =
     [0x837778ab, 0xe238d763, 0xa67ae21e, 0x5950bb2f, 0xc4f2d0c7, 0xfc62bb2f, 0x8fa018fc, 0x3f5ec7b7,
      0x335271c2, 0xf29489f3, 0xeabda8fc, 0x82e46ebd, 0xd19c12b4, 0xb04e16de, 0x9e83d0cb, 0x4e3c50a2]"
  by (simp add: chacha_steps)

lemmas rfc_rounds = rfc_round_1 rfc_round_2 rfc_round_3 rfc_round_4 rfc_round_5 rfc_round_6 rfc_round_7 rfc_round_8 rfc_round_9 rfc_round_10

section \<open>Properties\<close>

text \<open>
  The implementation gives the test vectors of RFC 8439 that the file lists: the quarter round on four
  words and inside the matrix, and the output of a whole block.
\<close>

theorem chacha_test_vectors: "chacha_test"
proof -
  have r: "MI_CHACHA_ROUNDS div 2 = 10" by (simp add: MI_CHACHA_ROUNDS_def)
  have o: "ctx_output (chacha_block c) = map (\<lambda>i. y ! i + ctx_input c ! i) [0..<16]"
    if "map (\<lambda>i. ctx_input c ! i) [0..<16] = x" "(double_round ^^ 10) x = y" for c x y
    using that unfolding chacha_block_def Let_def r by simp
  have v: "(double_round ^^ 10)
       [0x61707865, 0x3320646e, 0x79622d32, 0x6b206574, 0x3020100, 0x7060504, 0xb0a0908, 0xf0e0d0c,
        0x13121110, 0x17161514, 0x1b1a1918, 0x1f1e1d1c, 0x1, 0x9000000, 0x4a000000, 0x0] =
       [0x837778ab, 0xe238d763, 0xa67ae21e, 0x5950bb2f, 0xc4f2d0c7, 0xfc62bb2f, 0x8fa018fc, 0x3f5ec7b7,
        0x335271c2, 0xf29489f3, 0xeabda8fc, 0x82e46ebd, 0xd19c12b4, 0xb04e16de, 0x9e83d0cb, 0x4e3c50a2]"
    by (simp only: ten_rounds rfc_rounds)
  have "ctx_output (chacha_block
       \<lparr>ctx_input = [0x61707865, 0x3320646e, 0x79622d32, 0x6b206574, 0x03020100, 0x07060504, 0x0b0a0908, 0x0f0e0d0c,
          0x13121110, 0x17161514, 0x1b1a1918, 0x1f1e1d1c, 0x00000001, 0x09000000, 0x4a000000, 0x00000000],
        ctx_output = replicate 16 0, output_available = 0, weak = False\<rparr>) =
       [0xe4e7f110, 0x15593bd1, 0x1fdd0f50, 0xc47120a3, 0xc7f4d1c7, 0x0368c033, 0x9aaa2204, 0x4e6cd4c3,
        0x466482d2, 0x09aa9f07, 0x05d7c214, 0xa2028bd9, 0xd19c12b5, 0xb94e16de, 0xe883d0cb, 0x4e3c50a2]"
    by (subst o [OF _ v]) (simp_all add: upt_16)
  then show ?thesis unfolding chacha_test_def by (simp add: qround_steps add_step_def xor_step_def rotl_def)
qed

text \<open>
  (C37) The flag \<open>weak\<close> never survives initialisation: \<open>mi_random_init_ex\<close> sets it and \<open>chacha_init\<close> then clears the whole
  context, so \<open>mi_random_reinit_if_weak\<close> leaves a context with a weak key as it is even when the system
  could give a strong one.
\<close>

theorem weak_key_never_replaced:
  "let ctx = mi_random_init_weak f c buf a ctx0
   in \<not> weak ctx \<and> mi_random_reinit_if_weak f' c' (Some key) a ctx = ctx \<and> \<not> weak (mi_random_init f c None a ctx0)"
  by (simp add: mi_random_init_weak_def mi_random_init_ex_def chacha_init_def zero_ctx_def mi_random_reinit_if_weak_def
      mi_random_init_def Let_def)

text \<open>Well-formed contexts.\<close>

definition ctx_ok :: "mi_random_ctx_t \<Rightarrow> bool" where
  "ctx_ok ctx \<longleftrightarrow> length (ctx_input ctx) = 16 \<and> length (ctx_output ctx) = 16 \<and>
     0 \<le> output_available ctx \<and> output_available ctx \<le> 16 \<and>
     (\<forall>i < 16 - nat (output_available ctx). ctx_output ctx ! i = 0 \<or> output_available ctx = 0)"

end
