(* ===== verification/Mi_Bitmap.thy ===== *)
theory Mi_Bitmap
  imports Mi_Internal
begin

text \<open>
  mimalloc's concurrent bitmaps, \<^verbatim>\<open>src/bitmap.c\<close> and \<^verbatim>\<open>src/bitmap.h\<close>. A bitmap is a list of 64-bit fields. The other
  threads are an interference function: it may change the bitmap before each atomic access of the thread
  whose code is modelled, and the state counts those accesses. Field indices, bit indices and counts are
  natural numbers: they are bounded by the size of the bitmap in bits. The loops around a compare-and-swap
  need not end under interference; they are partial functions.
\<close>

section \<open>Atomic accesses\<close>

type_synonym fields = "u64 list"
type_synonym bm_state = "nat \<times> fields"
type_synonym interference = "nat \<Rightarrow> fields \<Rightarrow> fields"

definition interfere :: "interference \<Rightarrow> bm_state \<Rightarrow> bm_state" where
  "interfere env s = (let (t, b) = s in (Suc t, env t b))"

definition mi_atomic_load :: "interference \<Rightarrow> nat \<Rightarrow> bm_state \<Rightarrow> u64 \<times> bm_state" where
  "mi_atomic_load env f s = (let (t, b) = interfere env s in (b ! f, (t, b)))"

definition mi_atomic_store :: "interference \<Rightarrow> nat \<Rightarrow> u64 \<Rightarrow> bm_state \<Rightarrow> bm_state" where
  "mi_atomic_store env f x s = (let (t, b) = interfere env s in (t, b[f := x]))"

text \<open>A failed exchange gives the value it found in place of the expected one.\<close>

definition mi_atomic_cas :: "interference \<Rightarrow> nat \<Rightarrow> u64 \<Rightarrow> u64 \<Rightarrow> bm_state \<Rightarrow> bool \<times> u64 \<times> bm_state" where
  "mi_atomic_cas env f expected desired s =
     (let (t, b) = interfere env s
      in if b ! f = expected then (True, expected, (t, b[f := desired])) else (False, b ! f, (t, b)))"

definition mi_atomic_and :: "interference \<Rightarrow> nat \<Rightarrow> u64 \<Rightarrow> bm_state \<Rightarrow> u64 \<times> bm_state" where
  "mi_atomic_and env f x s = (let (t, b) = interfere env s in (b ! f, (t, b[f := b ! f AND x])))"

definition mi_atomic_or :: "interference \<Rightarrow> nat \<Rightarrow> u64 \<Rightarrow> bm_state \<Rightarrow> u64 \<times> bm_state" where
  "mi_atomic_or env f x s = (let (t, b) = interfere env s in (b ! f, (t, b[f := b ! f OR x])))"

section \<open>Indices and masks\<close>

definition MI_BITMAP_FIELD_BITS :: nat where
  "MI_BITMAP_FIELD_BITS = 8 * 8"

definition MI_BITMAP_FIELD_FULL :: u64 where
  "MI_BITMAP_FIELD_FULL = NOT 0"

definition mi_bitmap_index_create :: "nat \<Rightarrow> nat \<Rightarrow> nat" where
  "mi_bitmap_index_create idx bitidx = idx * MI_BITMAP_FIELD_BITS + bitidx"

definition mi_bitmap_index_create_from_bit :: "nat \<Rightarrow> nat" where
  "mi_bitmap_index_create_from_bit full_bitidx =
     mi_bitmap_index_create (full_bitidx div MI_BITMAP_FIELD_BITS) (full_bitidx mod MI_BITMAP_FIELD_BITS)"

definition mi_bitmap_index_field :: "nat \<Rightarrow> nat" where
  "mi_bitmap_index_field bitmap_idx = bitmap_idx div MI_BITMAP_FIELD_BITS"

definition mi_bitmap_index_bit_in_field :: "nat \<Rightarrow> nat" where
  "mi_bitmap_index_bit_in_field bitmap_idx = bitmap_idx mod MI_BITMAP_FIELD_BITS"

definition mi_bitmap_index_bit :: "nat \<Rightarrow> nat" where
  "mi_bitmap_index_bit bitmap_idx = bitmap_idx"

definition mi_bitmap_mask :: "nat \<Rightarrow> nat \<Rightarrow> u64" where
  "mi_bitmap_mask cnt bitidx =
     (if cnt \<ge> MI_BITMAP_FIELD_BITS then MI_BITMAP_FIELD_FULL
      else if cnt = 0 then 0
      else push_bit bitidx (push_bit cnt 1 - 1))"

section \<open>Sequences inside a field\<close>

text \<open>The result \<^term>\<open>Some i\<close> is \<open>true\<close> with \<open>*bitmap_idx = i\<close>.\<close>

partial_function (option) claim_field_loop ::
    "interference \<Rightarrow> nat \<Rightarrow> nat \<Rightarrow> nat \<Rightarrow> u64 \<Rightarrow> nat \<Rightarrow> u64 \<Rightarrow> bm_state \<Rightarrow> (nat option \<times> bm_state) option" where
  "claim_field_loop env idx cnt bitidx_max fmap bitidx m s =
     (if bitidx \<le> bitidx_max then
        (let mapm = fmap AND m
         in if mapm = 0 then
              (let newmap = fmap OR m;
                   (ok, fmap, s) = mi_atomic_cas env idx fmap newmap s
               in if \<not> ok then claim_field_loop env idx cnt bitidx_max fmap bitidx m s
                  else Some (Some (mi_bitmap_index_create idx bitidx), s))
            else
              (let shift = (if cnt = 1 then 1 else MI_INTPTR_BITS - mi_clz mapm - bitidx)
               in claim_field_loop env idx cnt bitidx_max fmap (bitidx + shift) (push_bit shift m) s))
      else Some (None, s))"

definition mi_bitmap_try_find_claim_field ::
    "interference \<Rightarrow> nat \<Rightarrow> nat \<Rightarrow> bm_state \<Rightarrow> (nat option \<times> bm_state) option" where
  "mi_bitmap_try_find_claim_field env idx cnt s =
     (let (fmap, s) = mi_atomic_load env idx s
      in if fmap = MI_BITMAP_FIELD_FULL then Some (None, s)
         else
           (let bmask = mi_bitmap_mask cnt 0;
                bitidx_max = MI_BITMAP_FIELD_BITS - cnt;
                bitidx = mi_ctz (NOT fmap);
                m = push_bit bitidx bmask
            in claim_field_loop env idx cnt bitidx_max fmap bitidx m s))"

fun find_from_loop :: "interference \<Rightarrow> nat \<Rightarrow> nat \<Rightarrow> nat \<Rightarrow> nat \<Rightarrow> bm_state \<Rightarrow> (nat option \<times> bm_state) option" where
  "find_from_loop env bitmap_fields cnt idx 0 s = Some (None, s)"
| "find_from_loop env bitmap_fields cnt idx (Suc left) s =
     (let idx = (if idx \<ge> bitmap_fields then 0 else idx)
      in Option.bind (mi_bitmap_try_find_claim_field env idx cnt s)
        (\<lambda>(r, s). if r \<noteq> None then Some (r, s) else find_from_loop env bitmap_fields cnt (idx + 1) left s))"

definition mi_bitmap_try_find_from_claim ::
    "interference \<Rightarrow> nat \<Rightarrow> nat \<Rightarrow> nat \<Rightarrow> bm_state \<Rightarrow> (nat option \<times> bm_state) option" where
  "mi_bitmap_try_find_from_claim env bitmap_fields start_field_idx cnt s =
     find_from_loop env bitmap_fields cnt start_field_idx bitmap_fields s"

definition mi_bitmap_unclaim :: "interference \<Rightarrow> nat \<Rightarrow> nat \<Rightarrow> bm_state \<Rightarrow> bool \<times> bm_state" where
  "mi_bitmap_unclaim env cnt bitmap_idx s =
     (let idx = mi_bitmap_index_field bitmap_idx;
          bitidx = mi_bitmap_index_bit_in_field bitmap_idx;
          bmask = mi_bitmap_mask cnt bitidx;
          (prev, s) = mi_atomic_and env idx (NOT bmask) s
      in (prev AND bmask = bmask, s))"

text \<open>The predicate \<open>pred\<close> with its argument; \<^const>\<open>None\<close> is the null pointer.\<close>

fun find_from_pred_loop ::
    "interference \<Rightarrow> (nat \<Rightarrow> bool) option \<Rightarrow> nat \<Rightarrow> nat \<Rightarrow> nat \<Rightarrow> nat \<Rightarrow> bm_state \<Rightarrow> (nat option \<times> bm_state) option" where
  "find_from_pred_loop env pred bitmap_fields cnt idx 0 s = Some (None, s)"
| "find_from_pred_loop env pred bitmap_fields cnt idx (Suc left) s =
     (let idx = (if idx \<ge> bitmap_fields then 0 else idx)
      in Option.bind (mi_bitmap_try_find_claim_field env idx cnt s)
        (\<lambda>(r, s). case r of
           Some bitmap_idx \<Rightarrow>
             if (case pred of None \<Rightarrow> True | Some p \<Rightarrow> p bitmap_idx) then Some (Some bitmap_idx, s)
             else
               (let (_, s) = mi_bitmap_unclaim env cnt bitmap_idx s
                in find_from_pred_loop env pred bitmap_fields cnt (idx + 1) left s)
         | None \<Rightarrow> find_from_pred_loop env pred bitmap_fields cnt (idx + 1) left s))"

definition mi_bitmap_try_find_from_claim_pred ::
    "interference \<Rightarrow> nat \<Rightarrow> nat \<Rightarrow> nat \<Rightarrow> (nat \<Rightarrow> bool) option \<Rightarrow> bm_state \<Rightarrow> (nat option \<times> bm_state) option" where
  "mi_bitmap_try_find_from_claim_pred env bitmap_fields start_field_idx cnt pred s =
     find_from_pred_loop env pred bitmap_fields cnt start_field_idx bitmap_fields s"

text \<open>The second result is \<open>*any_zero\<close>.\<close>

definition mi_bitmap_claim :: "interference \<Rightarrow> nat \<Rightarrow> nat \<Rightarrow> bm_state \<Rightarrow> (bool \<times> bool) \<times> bm_state" where
  "mi_bitmap_claim env cnt bitmap_idx s =
     (let idx = mi_bitmap_index_field bitmap_idx;
          bitidx = mi_bitmap_index_bit_in_field bitmap_idx;
          bmask = mi_bitmap_mask cnt bitidx;
          (prev, s) = mi_atomic_or env idx bmask s
      in ((prev AND bmask = 0, prev AND bmask \<noteq> bmask), s))"

text \<open>The second result is \<open>*any_ones\<close>.\<close>

definition mi_bitmap_is_claimedx :: "interference \<Rightarrow> nat \<Rightarrow> nat \<Rightarrow> bm_state \<Rightarrow> (bool \<times> bool) \<times> bm_state" where
  "mi_bitmap_is_claimedx env cnt bitmap_idx s =
     (let idx = mi_bitmap_index_field bitmap_idx;
          bitidx = mi_bitmap_index_bit_in_field bitmap_idx;
          bmask = mi_bitmap_mask cnt bitidx;
          (field, s) = mi_atomic_load env idx s
      in ((field AND bmask = bmask, field AND bmask \<noteq> 0), s))"

text \<open>
  The loop that sets \<open>bmask\<close> in a field as long as none of its bits is set; the loops for the initial and the final
  field of a sequence across fields have the same body.
\<close>

partial_function (option) claim_bits_loop :: "interference \<Rightarrow> nat \<Rightarrow> u64 \<Rightarrow> u64 \<Rightarrow> bm_state \<Rightarrow> (bool \<times> bm_state) option" where
  "claim_bits_loop env f bmask expected s =
     (if expected AND bmask \<noteq> 0 then Some (False, s)
      else
        (let (ok, expected, s) = mi_atomic_cas env f expected (expected OR bmask) s
         in if \<not> ok then claim_bits_loop env f bmask expected s else Some (True, s)))"

definition mi_bitmap_try_claim :: "interference \<Rightarrow> nat \<Rightarrow> nat \<Rightarrow> bm_state \<Rightarrow> (bool \<times> bm_state) option" where
  "mi_bitmap_try_claim env cnt bitmap_idx s =
     (let idx = mi_bitmap_index_field bitmap_idx;
          bitidx = mi_bitmap_index_bit_in_field bitmap_idx;
          bmask = mi_bitmap_mask cnt bitidx;
          (expected, s) = mi_atomic_load env idx s
      in claim_bits_loop env idx bmask expected s)"

definition mi_bitmap_is_claimed :: "interference \<Rightarrow> nat \<Rightarrow> nat \<Rightarrow> bm_state \<Rightarrow> bool \<times> bm_state" where
  "mi_bitmap_is_claimed env cnt bitmap_idx s =
     (let ((all_ones, _), s) = mi_bitmap_is_claimedx env cnt bitmap_idx s in (all_ones, s))"

definition mi_bitmap_is_any_claimed :: "interference \<Rightarrow> nat \<Rightarrow> nat \<Rightarrow> bm_state \<Rightarrow> bool \<times> bm_state" where
  "mi_bitmap_is_any_claimed env cnt bitmap_idx s =
     (let ((_, any_ones), s) = mi_bitmap_is_claimedx env cnt bitmap_idx s in (any_ones, s))"

section \<open>Sequences across fields\<close>

text \<open>The scan ahead: the last field of the sequence and the mask in it.\<close>

function scan_ahead :: "interference \<Rightarrow> nat \<Rightarrow> nat \<Rightarrow> nat \<Rightarrow> u64 \<Rightarrow> bm_state \<Rightarrow> (nat \<times> u64) option \<times> bm_state" where
  "scan_ahead env cnt found field bmask s =
     (if found < cnt then
        (let field = field + 1;
             (fmap, s) = mi_atomic_load env field s;
             mask_bits = (if found + MI_BITMAP_FIELD_BITS \<le> cnt then MI_BITMAP_FIELD_BITS else cnt - found);
             bmask = mi_bitmap_mask mask_bits 0
         in if fmap AND bmask \<noteq> 0 then (None, s)
            else scan_ahead env cnt (found + mask_bits) field bmask s)
      else (Some (field, bmask), s))"
  by pat_completeness auto
termination
  by (relation "measure (\<lambda>(env, cnt, found, field, bmask, s). cnt - found)") (auto simp: MI_BITMAP_FIELD_BITS_def)

text \<open>The intermediate fields: whether all were claimed, and the field where the loop stopped.\<close>

function claim_mid :: "interference \<Rightarrow> nat \<Rightarrow> nat \<Rightarrow> bm_state \<Rightarrow> bool \<times> nat \<times> bm_state" where
  "claim_mid env final_field field s =
     (let field = field + 1
      in if field < final_field then
           (let (ok, _, s) = mi_atomic_cas env field 0 MI_BITMAP_FIELD_FULL s
            in if \<not> ok then (False, field, s) else claim_mid env final_field field s)
         else (True, field, s))"
  by pat_completeness auto
termination
  by (relation "measure (\<lambda>(env, final_field, field, s). final_field - field)") auto

text \<open>Rolling back the intermediate fields below the field where claiming failed.\<close>

function rollback_mid :: "interference \<Rightarrow> nat \<Rightarrow> nat \<Rightarrow> bm_state \<Rightarrow> bm_state" where
  "rollback_mid env initial_field field s =
     (if initial_field + 1 < field
      then rollback_mid env initial_field (field - 1) (mi_atomic_store env (field - 1) 0 s)
      else s)"
  by pat_completeness auto
termination
  by (relation "measure (\<lambda>(env, initial_field, field, s). field)") auto

partial_function (option) rollback_initial :: "interference \<Rightarrow> nat \<Rightarrow> u64 \<Rightarrow> u64 \<Rightarrow> bm_state \<Rightarrow> bm_state option" where
  "rollback_initial env field initial_mask fmap s =
     (let newmap = fmap AND NOT initial_mask;
          (ok, fmap, s) = mi_atomic_cas env field fmap newmap s
      in if \<not> ok then rollback_initial env field initial_mask fmap s else Some s)"

text \<open>The part from the label \<open>rollback\<close> to the retry, for a claim that failed at \<open>field\<close>.\<close>

definition rollback_claim :: "interference \<Rightarrow> nat \<Rightarrow> u64 \<Rightarrow> nat \<Rightarrow> bm_state \<Rightarrow> bm_state option" where
  "rollback_claim env initial_field initial_mask field s =
     (let s = rollback_mid env initial_field field s
      in if initial_field < field
         then (let (fmap, s) = mi_atomic_load env initial_field s in rollback_initial env initial_field initial_mask fmap s)
         else Some s)"

text \<open>The claim of the range: success, or the field where it failed.\<close>

definition claim_range ::
    "interference \<Rightarrow> nat \<Rightarrow> u64 \<Rightarrow> nat \<Rightarrow> u64 \<Rightarrow> bm_state \<Rightarrow> (nat option \<times> bm_state) option" where
  "claim_range env initial_field initial_mask final_field final_mask s =
     (let (fmap, s) = mi_atomic_load env initial_field s
      in Option.bind (claim_bits_loop env initial_field initial_mask fmap s)
        (\<lambda>(ok, s).
          if \<not> ok then Some (Some initial_field, s)
          else
            (let (ok, field, s) = claim_mid env final_field initial_field s
             in if \<not> ok then Some (Some field, s)
                else
                  (let (fmap, s) = mi_atomic_load env field s
                   in Option.bind (claim_bits_loop env field final_mask fmap s)
                     (\<lambda>(ok, s). if \<not> ok then Some (Some field, s) else Some (None, s))))))"

function mi_bitmap_try_find_claim_field_across ::
    "interference \<Rightarrow> nat \<Rightarrow> nat \<Rightarrow> nat \<Rightarrow> nat \<Rightarrow> bm_state \<Rightarrow> (nat option \<times> bm_state) option" where
  "mi_bitmap_try_find_claim_field_across env bitmap_fields idx cnt retries s =
     (let (fmap, s) = mi_atomic_load env idx s;
          initial = mi_clz fmap
      in if initial = 0 then Some (None, s)
         else if initial \<ge> cnt then mi_bitmap_try_find_claim_field env idx cnt s
         else if unat (mi_divide_up (word_of_nat (cnt - initial)) (word_of_nat MI_BITMAP_FIELD_BITS)) \<ge> bitmap_fields - idx
         then Some (None, s)
         else
           (case scan_ahead env cnt initial idx 0 s of
              (None, s) \<Rightarrow> Some (None, s)
            | (Some (final_field, final_mask), s) \<Rightarrow>
                (let initial_idx = MI_BITMAP_FIELD_BITS - initial;
                     initial_mask = mi_bitmap_mask initial initial_idx
                 in Option.bind (claim_range env idx initial_mask final_field final_mask s)
                   (\<lambda>(failed, s). case failed of
                      None \<Rightarrow> Some (Some (mi_bitmap_index_create idx initial_idx), s)
                    | Some field \<Rightarrow>
                        Option.bind (rollback_claim env idx initial_mask field s)
                          (\<lambda>s. if retries \<le> 2
                             then mi_bitmap_try_find_claim_field_across env bitmap_fields idx cnt (retries + 1) s
                             else Some (None, s))))))"
  by pat_completeness auto
termination
  by (relation "measure (\<lambda>(env, bitmap_fields, idx, cnt, retries, s). 3 - retries)") auto

fun find_from_across_loop ::
    "interference \<Rightarrow> nat \<Rightarrow> nat \<Rightarrow> nat \<Rightarrow> nat \<Rightarrow> bm_state \<Rightarrow> (nat option \<times> bm_state) option" where
  "find_from_across_loop env bitmap_fields cnt idx 0 s = Some (None, s)"
| "find_from_across_loop env bitmap_fields cnt idx (Suc left) s =
     (let idx = (if idx \<ge> bitmap_fields then 0 else idx)
      in Option.bind
        (if cnt \<le> MI_BITMAP_FIELD_BITS then mi_bitmap_try_find_claim_field env idx cnt s else Some (None, s))
        (\<lambda>(r, s).
          if r \<noteq> None then Some (r, s)
          else
            Option.bind (mi_bitmap_try_find_claim_field_across env bitmap_fields idx cnt 0 s)
              (\<lambda>(r, s). if r \<noteq> None then Some (r, s) else find_from_across_loop env bitmap_fields cnt (idx + 1) left s)))"

definition mi_bitmap_try_find_from_claim_across ::
    "interference \<Rightarrow> nat \<Rightarrow> nat \<Rightarrow> nat \<Rightarrow> bm_state \<Rightarrow> (nat option \<times> bm_state) option" where
  "mi_bitmap_try_find_from_claim_across env bitmap_fields start_field_idx cnt s =
     (if cnt \<le> 2 then mi_bitmap_try_find_from_claim env bitmap_fields start_field_idx cnt s
      else find_from_across_loop env bitmap_fields cnt start_field_idx bitmap_fields s)"

text \<open>The result is the count of the middle fields and the three masks.\<close>

definition mi_bitmap_mask_across :: "nat \<Rightarrow> nat \<Rightarrow> nat \<times> u64 \<times> u64 \<times> u64" where
  "mi_bitmap_mask_across bitmap_idx cnt =
     (let bitidx = mi_bitmap_index_bit_in_field bitmap_idx
      in if bitidx + cnt \<le> MI_BITMAP_FIELD_BITS then (0, mi_bitmap_mask cnt bitidx, 0, 0)
         else
           (let pre_bits = MI_BITMAP_FIELD_BITS - bitidx;
                pre_mask = mi_bitmap_mask pre_bits bitidx;
                cnt = cnt - pre_bits;
                mid_count = cnt div MI_BITMAP_FIELD_BITS;
                mid_mask = MI_BITMAP_FIELD_FULL;
                cnt = cnt mod MI_BITMAP_FIELD_BITS;
                post_mask = (if cnt = 0 then 0 else mi_bitmap_mask cnt 0)
            in (mid_count, pre_mask, mid_mask, post_mask)))"

fun unclaim_mid :: "interference \<Rightarrow> u64 \<Rightarrow> nat \<Rightarrow> nat \<Rightarrow> bool \<Rightarrow> bm_state \<Rightarrow> bool \<times> nat \<times> bm_state" where
  "unclaim_mid env mid_mask 0 field all_one s = (all_one, field, s)"
| "unclaim_mid env mid_mask (Suc mid_count) field all_one s =
     (let (prev, s) = mi_atomic_and env field (NOT mid_mask) s
      in unclaim_mid env mid_mask mid_count (field + 1) (if prev AND mid_mask \<noteq> mid_mask then False else all_one) s)"

definition mi_bitmap_unclaim_across :: "interference \<Rightarrow> nat \<Rightarrow> nat \<Rightarrow> bm_state \<Rightarrow> bool \<times> bm_state" where
  "mi_bitmap_unclaim_across env cnt bitmap_idx s =
     (let field = mi_bitmap_index_field bitmap_idx;
          (mid_count, pre_mask, mid_mask, post_mask) = mi_bitmap_mask_across bitmap_idx cnt;
          all_one = True;
          (prev, s) = mi_atomic_and env field (NOT pre_mask) s;
          field = field + 1;
          all_one = (if prev AND pre_mask \<noteq> pre_mask then False else all_one);
          (all_one, field, s) = unclaim_mid env mid_mask mid_count field all_one s
      in if post_mask \<noteq> 0 then
           (let (prev, s) = mi_atomic_and env field (NOT post_mask) s
            in (if prev AND post_mask \<noteq> post_mask then False else all_one, s))
         else (all_one, s))"

fun claim_mid_bits ::
    "interference \<Rightarrow> u64 \<Rightarrow> nat \<Rightarrow> nat \<Rightarrow> bool \<Rightarrow> bool \<Rightarrow> bm_state \<Rightarrow> bool \<times> bool \<times> nat \<times> bm_state" where
  "claim_mid_bits env mid_mask 0 field all_zero any_zero s = (all_zero, any_zero, field, s)"
| "claim_mid_bits env mid_mask (Suc mid_count) field all_zero any_zero s =
     (let (prev, s) = mi_atomic_or env field mid_mask s
      in claim_mid_bits env mid_mask mid_count (field + 1)
           (if prev AND mid_mask \<noteq> 0 then False else all_zero)
           (if prev AND mid_mask \<noteq> mid_mask then True else any_zero) s)"

definition mi_bitmap_claim_across :: "interference \<Rightarrow> nat \<Rightarrow> nat \<Rightarrow> bm_state \<Rightarrow> (bool \<times> bool) \<times> bm_state" where
  "mi_bitmap_claim_across env cnt bitmap_idx s =
     (let field = mi_bitmap_index_field bitmap_idx;
          (mid_count, pre_mask, mid_mask, post_mask) = mi_bitmap_mask_across bitmap_idx cnt;
          all_zero = True;
          any_zero = False;
          (prev, s) = mi_atomic_or env field pre_mask s;
          field = field + 1;
          all_zero = (if prev AND pre_mask \<noteq> 0 then False else all_zero);
          any_zero = (if prev AND pre_mask \<noteq> pre_mask then True else any_zero);
          (all_zero, any_zero, field, s) = claim_mid_bits env mid_mask mid_count field all_zero any_zero s
      in if post_mask \<noteq> 0 then
           (let (prev, s) = mi_atomic_or env field post_mask s
            in ((if prev AND post_mask \<noteq> 0 then False else all_zero,
                 if prev AND post_mask \<noteq> post_mask then True else any_zero), s))
         else ((all_zero, any_zero), s))"

fun claimed_mid ::
    "interference \<Rightarrow> u64 \<Rightarrow> nat \<Rightarrow> nat \<Rightarrow> bool \<Rightarrow> bool \<Rightarrow> bm_state \<Rightarrow> bool \<times> bool \<times> nat \<times> bm_state" where
  "claimed_mid env mid_mask 0 field all_ones any_ones s = (all_ones, any_ones, field, s)"
| "claimed_mid env mid_mask (Suc mid_count) field all_ones any_ones s =
     (let (prev, s) = mi_atomic_load env field s
      in claimed_mid env mid_mask mid_count (field + 1)
           (if prev AND mid_mask \<noteq> mid_mask then False else all_ones)
           (if prev AND mid_mask \<noteq> 0 then True else any_ones) s)"

definition mi_bitmap_is_claimedx_across :: "interference \<Rightarrow> nat \<Rightarrow> nat \<Rightarrow> bm_state \<Rightarrow> (bool \<times> bool) \<times> bm_state" where
  "mi_bitmap_is_claimedx_across env cnt bitmap_idx s =
     (let field = mi_bitmap_index_field bitmap_idx;
          (mid_count, pre_mask, mid_mask, post_mask) = mi_bitmap_mask_across bitmap_idx cnt;
          all_ones = True;
          any_ones = False;
          (prev, s) = mi_atomic_load env field s;
          field = field + 1;
          all_ones = (if prev AND pre_mask \<noteq> pre_mask then False else all_ones);
          any_ones = (if prev AND pre_mask \<noteq> 0 then True else any_ones);
          (all_ones, any_ones, field, s) = claimed_mid env mid_mask mid_count field all_ones any_ones s
      in if post_mask \<noteq> 0 then
           (let (prev, s) = mi_atomic_load env field s
            in ((if prev AND post_mask \<noteq> post_mask then False else all_ones,
                 if prev AND post_mask \<noteq> 0 then True else any_ones), s))
         else ((all_ones, any_ones), s))"

definition mi_bitmap_is_claimed_across :: "interference \<Rightarrow> nat \<Rightarrow> nat \<Rightarrow> bm_state \<Rightarrow> bool \<times> bm_state" where
  "mi_bitmap_is_claimed_across env cnt bitmap_idx s =
     (let ((all_ones, _), s) = mi_bitmap_is_claimedx_across env cnt bitmap_idx s in (all_ones, s))"

definition mi_bitmap_is_any_claimed_across :: "interference \<Rightarrow> nat \<Rightarrow> nat \<Rightarrow> bm_state \<Rightarrow> bool \<times> bm_state" where
  "mi_bitmap_is_any_claimed_across env cnt bitmap_idx s =
     (let ((_, any_ones), s) = mi_bitmap_is_claimedx_across env cnt bitmap_idx s in (any_ones, s))"

declare scan_ahead.simps [simp del] claim_mid.simps [simp del] rollback_mid.simps [simp del]
  mi_bitmap_try_find_claim_field_across.simps [simp del]

lemmas atomic_defs = interfere_def mi_atomic_load_def mi_atomic_store_def mi_atomic_cas_def mi_atomic_and_def mi_atomic_or_def

section \<open>A bitmap as a set of bits\<close>

definition claimed :: "fields \<Rightarrow> nat set" where
  "claimed b = {k. k div 64 < length b \<and> bit (b ! (k div 64)) (k mod 64)}"

definition bit_range :: "nat \<Rightarrow> nat \<Rightarrow> nat set" where
  "bit_range i cnt = {i..<i + cnt}"

text \<open>A thread that runs alone.\<close>

definition solo :: interference where
  "solo = (\<lambda>t b. b)"

lemma mi_bitmap_mask_bit:
  assumes "k + cnt \<le> 64"
  shows "bit (mi_bitmap_mask cnt k) i \<longleftrightarrow> k \<le> i \<and> i < k + cnt"
proof -
  have "push_bit cnt 1 - 1 = (mask cnt :: u64)" by (simp add: mask_eq_exp_minus_1 push_bit_eq_mult)
  then show ?thesis
    using assms unfolding mi_bitmap_mask_def MI_BITMAP_FIELD_BITS_def MI_BITMAP_FIELD_FULL_def
    by (auto simp: bit_simps)
qed

lemma bits_64: "MI_BITMAP_FIELD_BITS = 64"
  by (simp add: MI_BITMAP_FIELD_BITS_def)

lemma div_mod_64: "i div 64 * 64 + i mod 64 = (i :: nat)" "i mod 64 < (64 :: nat)"
  by simp_all

lemma claimed_at: "f < length b \<Longrightarrow> j < 64 \<Longrightarrow> f * 64 + j \<in> claimed b \<longleftrightarrow> bit (b ! f) j"
  by (simp add: claimed_def)

lemma claimed_eqI:
  assumes "length b = length b'" "claimed b = claimed b'"
  shows "b = b'"
proof (rule nth_equalityI [OF assms(1)])
  fix f assume f: "f < length b"
  show "b ! f = b' ! f"
  proof (rule bit_word_eqI)
    fix j assume "j < LENGTH(64)"
    then show "bit (b ! f) j \<longleftrightarrow> bit (b' ! f) j"
      using claimed_at [OF f, of j] claimed_at [of f b' j] f assms by simp
  qed
qed

lemma range_in_field:
  assumes "k + cnt \<le> 64"
  shows "x \<in> bit_range (f * 64 + k) cnt \<longleftrightarrow> x div 64 = f \<and> k \<le> x mod 64 \<and> x mod 64 < k + cnt"
proof
  assume "x \<in> bit_range (f * 64 + k) cnt"
  then have "f * 64 + k \<le> x" "x < f * 64 + k + cnt" by (simp_all add: bit_range_def)
  moreover define r where "r = x - f * 64"
  ultimately have "x = f * 64 + r" "k \<le> r" "r < k + cnt" by linarith+
  then show "x div 64 = f \<and> k \<le> x mod 64 \<and> x mod 64 < k + cnt" using assms by simp
next
  assume x: "x div 64 = f \<and> k \<le> x mod 64 \<and> x mod 64 < k + cnt"
  then show "x \<in> bit_range (f * 64 + k) cnt"
    using div_mult_mod_eq [of x 64] unfolding bit_range_def atLeastLessThan_iff by linarith
qed

lemma field_set:
  assumes "f < length b" "k + cnt \<le> 64"
  shows "claimed (b[f := b ! f OR mi_bitmap_mask cnt k]) = claimed b \<union> bit_range (f * 64 + k) cnt"
  using assms unfolding set_eq_iff Un_iff range_in_field [OF assms(2)]
  by (auto simp: claimed_def nth_list_update bit_or_iff mi_bitmap_mask_bit)

lemma field_clear:
  assumes "f < length b" "k + cnt \<le> 64"
  shows "claimed (b[f := b ! f AND NOT (mi_bitmap_mask cnt k)]) = claimed b - bit_range (f * 64 + k) cnt"
  using assms unfolding set_eq_iff Diff_iff range_in_field [OF assms(2)]
  by (auto simp: claimed_def nth_list_update bit_and_iff bit_not_iff mi_bitmap_mask_bit)

lemma field_all:
  assumes "f < length b" "k + cnt \<le> 64"
  shows "b ! f AND mi_bitmap_mask cnt k = mi_bitmap_mask cnt k \<longleftrightarrow> bit_range (f * 64 + k) cnt \<subseteq> claimed b"
proof
  assume e: "b ! f AND mi_bitmap_mask cnt k = mi_bitmap_mask cnt k"
  have "bit (b ! f) j" if "k \<le> j" "j < k + cnt" for j
    using arg_cong [OF e, of "\<lambda>x. bit x j"] that assms(2) by (simp add: bit_and_iff mi_bitmap_mask_bit)
  then show "bit_range (f * 64 + k) cnt \<subseteq> claimed b"
    unfolding subset_iff range_in_field [OF assms(2)] using assms(1) by (auto simp: claimed_def)
next
  assume s: "bit_range (f * 64 + k) cnt \<subseteq> claimed b"
  have "bit (b ! f) j" if "k \<le> j" "j < k + cnt" for j
  proof -
    have "f * 64 + j \<in> bit_range (f * 64 + k) cnt" using that by (simp add: bit_range_def)
    then show ?thesis using s claimed_at [OF assms(1)] that assms(2) by auto
  qed
  then show "b ! f AND mi_bitmap_mask cnt k = mi_bitmap_mask cnt k"
    using assms(2) by (intro bit_word_eqI) (auto simp: bit_and_iff mi_bitmap_mask_bit)
qed

lemma field_none:
  assumes "f < length b" "k + cnt \<le> 64"
  shows "b ! f AND mi_bitmap_mask cnt k = 0 \<longleftrightarrow> bit_range (f * 64 + k) cnt \<inter> claimed b = {}"
proof
  assume e: "b ! f AND mi_bitmap_mask cnt k = 0"
  have "\<not> bit (b ! f) j" if "k \<le> j" "j < k + cnt" for j
    using arg_cong [OF e, of "\<lambda>x. bit x j"] that assms(2) by (simp add: bit_and_iff mi_bitmap_mask_bit)
  then show "bit_range (f * 64 + k) cnt \<inter> claimed b = {}"
    unfolding disjoint_iff range_in_field [OF assms(2)] using assms(1) by (auto simp: claimed_def)
next
  assume s: "bit_range (f * 64 + k) cnt \<inter> claimed b = {}"
  have "\<not> bit (b ! f) j" if "k \<le> j" "j < k + cnt" for j
  proof -
    have "f * 64 + j \<in> bit_range (f * 64 + k) cnt" using that by (simp add: bit_range_def)
    then show ?thesis using s claimed_at [OF assms(1)] that assms(2) by auto
  qed
  then show "b ! f AND mi_bitmap_mask cnt k = 0"
    using assms(2) by (intro bit_word_eqI) (auto simp: bit_and_iff mi_bitmap_mask_bit)
qed

lemma index_parts: "mi_bitmap_index_field i * 64 + mi_bitmap_index_bit_in_field i = i"
  "mi_bitmap_index_field i = i div 64" "mi_bitmap_index_bit_in_field i = i mod 64"
  by (simp_all add: mi_bitmap_index_field_def mi_bitmap_index_bit_in_field_def MI_BITMAP_FIELD_BITS_def)

lemma mid_mask: "MI_BITMAP_FIELD_FULL = mi_bitmap_mask 64 0"
  by (simp add: mi_bitmap_mask_def MI_BITMAP_FIELD_BITS_def)

section \<open>The contract of the two interfaces\<close>

text \<open>
  A client sees a set of bits. Whether a sequence is admissible depends on the number of fields; the operations
  take the count and the index of the first bit.
\<close>

locale claim_map =
  fixes valid :: "nat \<Rightarrow> nat \<Rightarrow> nat \<Rightarrow> bool"
    and claim :: "nat \<Rightarrow> nat \<Rightarrow> bm_state \<Rightarrow> (bool \<times> bool) \<times> bm_state"
    and unclaim :: "nat \<Rightarrow> nat \<Rightarrow> bm_state \<Rightarrow> bool \<times> bm_state"
    and query :: "nat \<Rightarrow> nat \<Rightarrow> bm_state \<Rightarrow> (bool \<times> bool) \<times> bm_state"
  assumes claim_law: "valid (length b) cnt i \<Longrightarrow> claim cnt i (t, b) = (r, (t', b')) \<Longrightarrow>
      r = (bit_range i cnt \<inter> claimed b = {}, \<not> bit_range i cnt \<subseteq> claimed b) \<and>
      length b' = length b \<and> claimed b' = claimed b \<union> bit_range i cnt"
    and unclaim_law: "valid (length b) cnt i \<Longrightarrow> unclaim cnt i (t, b) = (a, (t', b')) \<Longrightarrow>
      a = (bit_range i cnt \<subseteq> claimed b) \<and> length b' = length b \<and> claimed b' = claimed b - bit_range i cnt"
    and query_law: "valid (length b) cnt i \<Longrightarrow> query cnt i (t, b) = (r, (t', b')) \<Longrightarrow>
      r = (bit_range i cnt \<subseteq> claimed b, bit_range i cnt \<inter> claimed b \<noteq> {}) \<and> b' = b"
begin

lemma claim_unclaim_restores:
  assumes v: "valid (length b) cnt i" and c: "claim cnt i (t, b) = ((True, az), (t1, b1))"
    and u: "unclaim cnt i (t1, b1) = (a, (t2, b2))"
  shows "a \<and> b2 = b"
proof -
  note c = claim_law [OF v c]
  have v1: "valid (length b1) cnt i" using v c by simp
  note u = unclaim_law [OF v1 u]
  have "claimed b2 = claimed b" using c u by blast
  then show ?thesis using c u by (auto intro: claimed_eqI)
qed

lemma claim_then_query:
  assumes v: "valid (length b) cnt i" and c: "claim cnt i (t, b) = (r, (t1, b1))"
    and v': "valid (length b) cnt' i'" and q: "query cnt' i' (t1, b1) = ((al, an), (t2, b2))"
  shows "(bit_range i' cnt' \<subseteq> bit_range i cnt \<longrightarrow> al) \<and>
    (bit_range i' cnt' \<inter> bit_range i cnt = {} \<longrightarrow>
       al = (bit_range i' cnt' \<subseteq> claimed b) \<and> an = (bit_range i' cnt' \<inter> claimed b \<noteq> {}))"
proof -
  note c = claim_law [OF v c]
  have v1: "valid (length b1) cnt' i'" using v' c by simp
  note q = query_law [OF v1 q]
  show ?thesis using c q by auto
qed

end

definition in_field :: "nat \<Rightarrow> nat \<Rightarrow> nat \<Rightarrow> bool" where
  "in_field n cnt i \<longleftrightarrow> i mod 64 + cnt \<le> 64 \<and> i div 64 < n"

definition in_bitmap :: "nat \<Rightarrow> nat \<Rightarrow> nat \<Rightarrow> bool" where
  "in_bitmap n cnt i \<longleftrightarrow> 0 < cnt \<and> i + cnt \<le> 64 * n"

lemma index_range: "bit_range (i div 64 * 64 + i mod 64) cnt = bit_range i cnt"
  by (simp add: mult.commute)

interpretation field_bits: claim_map in_field "mi_bitmap_claim solo" "mi_bitmap_unclaim solo" "mi_bitmap_is_claimedx solo"
proof unfold_locales
  fix b :: fields and cnt i t r t' b' a
  assume v: "in_field (length b) cnt i"
  then have f: "i div 64 < length b" "i mod 64 + cnt \<le> 64" by (simp_all add: in_field_def)
  note rs = field_set [OF f, unfolded index_range] field_clear [OF f, unfolded index_range]
    field_all [OF f, unfolded index_range] field_none [OF f, unfolded index_range]
  show "mi_bitmap_claim solo cnt i (t, b) = (r, (t', b')) \<Longrightarrow>
      r = (bit_range i cnt \<inter> claimed b = {}, \<not> bit_range i cnt \<subseteq> claimed b) \<and>
      length b' = length b \<and> claimed b' = claimed b \<union> bit_range i cnt"
    by (auto simp: mi_bitmap_claim_def index_parts(2,3) atomic_defs solo_def rs Let_def)
  show "mi_bitmap_unclaim solo cnt i (t, b) = (a, (t', b')) \<Longrightarrow>
      a = (bit_range i cnt \<subseteq> claimed b) \<and> length b' = length b \<and> claimed b' = claimed b - bit_range i cnt"
    by (auto simp: mi_bitmap_unclaim_def index_parts(2,3) atomic_defs solo_def rs Let_def)
  show "mi_bitmap_is_claimedx solo cnt i (t, b) = (r, (t', b')) \<Longrightarrow>
      r = (bit_range i cnt \<subseteq> claimed b, bit_range i cnt \<inter> claimed b \<noteq> {}) \<and> b' = b"
    by (auto simp: mi_bitmap_is_claimedx_def index_parts(2,3) atomic_defs solo_def rs Let_def)
qed

text \<open>Inside a field the functions for sequences across fields do what those for a single field do.\<close>

lemma across_in_field:
  assumes "i mod 64 + cnt \<le> 64"
  shows "mi_bitmap_claim_across env cnt i s = mi_bitmap_claim env cnt i s"
    "mi_bitmap_unclaim_across env cnt i s = mi_bitmap_unclaim env cnt i s"
    "mi_bitmap_is_claimedx_across env cnt i s = mi_bitmap_is_claimedx env cnt i s"
  using assms
  by (simp_all add: mi_bitmap_claim_across_def mi_bitmap_claim_def mi_bitmap_unclaim_across_def mi_bitmap_unclaim_def
      mi_bitmap_is_claimedx_across_def mi_bitmap_is_claimedx_def mi_bitmap_mask_across_def index_parts(2,3)
      MI_BITMAP_FIELD_BITS_def Let_def split: prod.splits)

text \<open>
  A sequence that starts at bit \<open>k\<close> of field \<open>q\<close> and crosses fields: \<open>n\<close> whole fields and \<open>c\<close> bits after the rest of the
  first field.
\<close>

definition crossing :: "nat \<Rightarrow> nat \<Rightarrow> nat \<Rightarrow> nat \<Rightarrow> bool" where
  "crossing k cnt n c \<longleftrightarrow> k < 64 \<and> cnt = (64 - k) + n * 64 + c \<and> c < 64 \<and> 64 < k + cnt"

lemma crossing_exists:
  assumes "64 < k + cnt" "k < 64" obtains n c where "crossing k cnt n c"
proof
  have "64 - k \<le> cnt" using assms by linarith
  moreover have "(cnt - (64 - k)) div 64 * 64 + (cnt - (64 - k)) mod 64 = cnt - (64 - k)"
    by (rule div_mult_mod_eq)
  ultimately show "crossing k cnt ((cnt - (64 - k)) div 64) ((cnt - (64 - k)) mod 64)"
    unfolding crossing_def using assms by simp
qed

lemma crossing_masks:
  assumes "crossing k cnt n c"
  shows "mi_bitmap_mask_across (q * 64 + k) cnt =
    (n, mi_bitmap_mask (64 - k) k, mi_bitmap_mask 64 0, mi_bitmap_mask c 0)"
proof -
  have c: "cnt - (64 - k) = n * 64 + c" "\<not> k + cnt \<le> 64" "c < 64" "(q * 64 + k) mod 64 = k"
    using assms by (auto simp: crossing_def)
  then have d: "(n * 64 + c) div 64 = n" "(n * 64 + c) mod 64 = c" by simp_all
  have z: "(if c = 0 then 0 else mi_bitmap_mask c 0) = mi_bitmap_mask c 0"
    by (simp add: mi_bitmap_mask_def MI_BITMAP_FIELD_BITS_def)
  show ?thesis
    unfolding mi_bitmap_mask_across_def index_parts(2,3) bits_64 Let_def c(4) c(1) d z mid_mask
    using c(2) by simp
qed

lemma crossing_range:
  assumes "crossing k cnt n c"
  shows "bit_range (q * 64 + k) cnt = bit_range (q * 64 + k) (64 - k) \<union>
    bit_range ((q + 1) * 64) (n * 64) \<union> bit_range ((q + 1 + n) * 64 + 0) c"
  using assms by (auto simp: bit_range_def crossing_def)

lemma crossing_apart:
  assumes "crossing k cnt n c"
  shows "bit_range (q * 64 + k) (64 - k) \<inter> bit_range ((q + 1) * 64) (n * 64) = {}"
    "bit_range (q * 64 + k) (64 - k) \<inter> bit_range ((q + 1 + n) * 64 + 0) c = {}"
    "bit_range ((q + 1) * 64) (n * 64) \<inter> bit_range ((q + 1 + n) * 64 + 0) c = {}"
  using assms by (auto simp: bit_range_def crossing_def)

lemma crossing_bound:
  assumes "crossing k cnt n c" "q * 64 + k + cnt \<le> 64 * len"
  shows "q < len" "q + 1 + n \<le> len" "c \<noteq> 0 \<Longrightarrow> q + 1 + n < len"
  using assms by (auto simp: crossing_def)

lemma range_0 [simp]: "bit_range i 0 = {}"
  by (simp add: bit_range_def)

lemma mask_zero: "c < 64 \<Longrightarrow> mi_bitmap_mask c 0 = 0 \<longleftrightarrow> c = 0"
proof
  assume c: "c < 64" and z: "mi_bitmap_mask c 0 = 0"
  have "\<not> bit (mi_bitmap_mask c 0) 0" unfolding z by simp
  then show "c = 0" using c mi_bitmap_mask_bit [of 0 c 0] by simp
qed (simp add: mi_bitmap_mask_def MI_BITMAP_FIELD_BITS_def)

lemma range_Suc: "bit_range (f * 64) (Suc n * 64) = bit_range (f * 64 + 0) 64 \<union> bit_range ((f + 1) * 64) (n * 64)"
  by (auto simp: bit_range_def)

lemma range_apart: "bit_range (f * 64 + 0) 64 \<inter> bit_range ((f + 1) * 64) m = {}"
  by (auto simp: bit_range_def)

lemma unclaim_mid_spec:
  assumes "f + n \<le> length b" "unclaim_mid solo (mi_bitmap_mask 64 0) n f a (t, b) = (a', f', (t', b'))"
  shows "a' = (a \<and> bit_range (f * 64) (n * 64) \<subseteq> claimed b) \<and> f' = f + n \<and> length b' = length b \<and>
    claimed b' = claimed b - bit_range (f * 64) (n * 64)"
  using assms
proof (induction n arbitrary: f a t b)
  case 0
  then show ?case by (simp add: bit_range_def)
next
  case (Suc n)
  let ?b = "b[f := b ! f AND NOT (mi_bitmap_mask 64 0)]"
  have f: "f < length b" "0 + 64 \<le> (64 :: nat)" using Suc.prems(1) by simp_all
  have "unclaim_mid solo (mi_bitmap_mask 64 0) n (f + 1) (a \<and> b ! f AND mi_bitmap_mask 64 0 = mi_bitmap_mask 64 0)
      (Suc t, ?b) = (a', f', (t', b'))"
    using Suc.prems(2) by (simp add: atomic_defs solo_def Let_def split: if_splits)
  from Suc.IH [OF _ this] Suc.prems(1)
  show ?case unfolding range_Suc field_clear [OF f] field_all [OF f] using range_apart [of f] by auto
qed

lemma claim_mid_bits_spec:
  assumes "f + n \<le> length b" "claim_mid_bits solo (mi_bitmap_mask 64 0) n f al an (t, b) = (al', an', f', (t', b'))"
  shows "al' = (al \<and> bit_range (f * 64) (n * 64) \<inter> claimed b = {}) \<and>
    an' = (an \<or> \<not> bit_range (f * 64) (n * 64) \<subseteq> claimed b) \<and> f' = f + n \<and> length b' = length b \<and>
    claimed b' = claimed b \<union> bit_range (f * 64) (n * 64)"
  using assms
proof (induction n arbitrary: f al an t b)
  case 0
  then show ?case by (simp add: bit_range_def)
next
  case (Suc n)
  let ?b = "b[f := b ! f OR mi_bitmap_mask 64 0]"
  have f: "f < length b" "0 + 64 \<le> (64 :: nat)" using Suc.prems(1) by simp_all
  have "claim_mid_bits solo (mi_bitmap_mask 64 0) n (f + 1) (al \<and> b ! f AND mi_bitmap_mask 64 0 = 0)
      (an \<or> b ! f AND mi_bitmap_mask 64 0 \<noteq> mi_bitmap_mask 64 0) (Suc t, ?b) = (al', an', f', (t', b'))"
    using Suc.prems(2) by (simp add: atomic_defs solo_def Let_def split: if_splits)
  from Suc.IH [OF _ this] Suc.prems(1)
  show ?case unfolding range_Suc field_set [OF f] field_all [OF f] field_none [OF f] using range_apart [of f] by auto
qed

lemma claimed_mid_spec:
  assumes "f + n \<le> length b" "claimed_mid solo (mi_bitmap_mask 64 0) n f al an (t, b) = (al', an', f', (t', b'))"
  shows "al' = (al \<and> bit_range (f * 64) (n * 64) \<subseteq> claimed b) \<and>
    an' = (an \<or> bit_range (f * 64) (n * 64) \<inter> claimed b \<noteq> {}) \<and> f' = f + n \<and> b' = b"
  using assms
proof (induction n arbitrary: f al an t)
  case 0
  then show ?case by (simp add: bit_range_def)
next
  case (Suc n)
  have f: "f < length b" "0 + 64 \<le> (64 :: nat)" using Suc.prems(1) by simp_all
  have "claimed_mid solo (mi_bitmap_mask 64 0) n (f + 1) (al \<and> b ! f AND mi_bitmap_mask 64 0 = mi_bitmap_mask 64 0)
      (an \<or> b ! f AND mi_bitmap_mask 64 0 \<noteq> 0) (Suc t, b) = (al', an', f', (t', b'))"
    using Suc.prems(2) by (simp add: atomic_defs solo_def Let_def split: if_splits)
  from Suc.IH [OF _ this] Suc.prems(1)
  show ?case unfolding range_Suc field_all [OF f] field_none [OF f] by auto
qed

lemma three_parts:
  assumes "A \<inter> B = {}" "A \<inter> C = {}" "B \<inter> C = {}"
  shows "A \<subseteq> X \<and> B \<subseteq> X - A \<and> C \<subseteq> X - A - B \<longleftrightarrow> A \<union> B \<union> C \<subseteq> X"
    "A \<inter> X = {} \<and> B \<inter> (X \<union> A) = {} \<and> C \<inter> (X \<union> A \<union> B) = {} \<longleftrightarrow> (A \<union> B \<union> C) \<inter> X = {}"
    "A \<subseteq> X \<and> B \<subseteq> X \<union> A \<and> C \<subseteq> X \<union> A \<union> B \<longleftrightarrow> A \<union> B \<union> C \<subseteq> X"
  using assms by blast+

lemma unclaim_across_crossing:
  assumes x: "crossing k cnt n c" and l: "q * 64 + k + cnt \<le> 64 * length b"
    and r: "mi_bitmap_unclaim_across solo cnt (q * 64 + k) (t, b) = (a, (t', b'))"
  shows "a = (bit_range (q * 64 + k) cnt \<subseteq> claimed b) \<and> length b' = length b \<and>
    claimed b' = claimed b - bit_range (q * 64 + k) cnt"
proof -
  note bd = crossing_bound [OF x l] and ap = crossing_apart [OF x, of q]
  have k: "(q * 64 + k) div 64 = q" "(q * 64 + k) mod 64 = k" "c < 64" using x by (simp_all add: crossing_def)
  have f: "q < length b" "k + (64 - k) \<le> 64" using bd(1) x by (simp_all add: crossing_def)
  let ?b1 = "b[q := b ! q AND NOT (mi_bitmap_mask (64 - k) k)]"
  obtain a2 f2 t2 b2 where mid: "unclaim_mid solo (mi_bitmap_mask 64 0) n (q + 1)
      (b ! q AND mi_bitmap_mask (64 - k) k = mi_bitmap_mask (64 - k) k) (Suc t, ?b1) = (a2, f2, (t2, b2))"
    by (metis prod.exhaust)
  have len: "q + 1 + n \<le> length ?b1" using bd(2) by simp
  note mid' = unclaim_mid_spec [OF len mid, unfolded field_clear [OF f] field_all [OF f]]
  have r': "(if c \<noteq> 0 then (a2 \<and> b2 ! f2 AND mi_bitmap_mask c 0 = mi_bitmap_mask c 0,
        (Suc t2, b2[f2 := b2 ! f2 AND NOT (mi_bitmap_mask c 0)])) else (a2, (t2, b2))) = (a, (t', b'))"
    using r mid k unfolding mi_bitmap_unclaim_across_def crossing_masks [OF x] index_parts(2,3) Let_def
    by (simp add: atomic_defs solo_def mask_zero cong: if_cong split: if_splits)
  show ?thesis
  proof (cases "c = 0")
    case True
    then have "a = a2" "b' = b2" "bit_range ((q + 1 + n) * 64 + 0) c = {}" using r' by simp_all
    then show ?thesis using mid' ap unfolding crossing_range [OF x] by auto
  next
    case False
    have f2: "f2 < length b2" "0 + c \<le> 64" "f2 = q + 1 + n" using mid' bd(3) [OF False] k by simp_all
    have e: "a = (a2 \<and> b2 ! f2 AND mi_bitmap_mask c 0 = mi_bitmap_mask c 0)"
      "b' = b2[f2 := b2 ! f2 AND NOT (mi_bitmap_mask c 0)]" using r' False by simp_all
    have "claimed b' = claimed b2 - bit_range (f2 * 64 + 0) c" "a = (a2 \<and> bit_range (f2 * 64 + 0) c \<subseteq> claimed b2)"
      "length b' = length b2"
      unfolding e by (rule field_clear [OF f2(1,2)], simp only: field_all [OF f2(1,2)], simp)
    then show ?thesis
      using mid' three_parts(1) [OF ap, of "claimed b"] unfolding crossing_range [OF x] f2(3) by (auto simp: Diff_Un)
  qed
qed

lemma claim_across_crossing:
  assumes x: "crossing k cnt n c" and l: "q * 64 + k + cnt \<le> 64 * length b"
    and r: "mi_bitmap_claim_across solo cnt (q * 64 + k) (t, b) = (a, (t', b'))"
  shows "a = (bit_range (q * 64 + k) cnt \<inter> claimed b = {}, \<not> bit_range (q * 64 + k) cnt \<subseteq> claimed b) \<and>
    length b' = length b \<and> claimed b' = claimed b \<union> bit_range (q * 64 + k) cnt"
proof -
  note bd = crossing_bound [OF x l] and ap = crossing_apart [OF x, of q]
  have k: "(q * 64 + k) div 64 = q" "(q * 64 + k) mod 64 = k" "c < 64" using x by (simp_all add: crossing_def)
  have f: "q < length b" "k + (64 - k) \<le> 64" using bd(1) x by (simp_all add: crossing_def)
  let ?b1 = "b[q := b ! q OR mi_bitmap_mask (64 - k) k]"
  obtain al an f2 t2 b2 where mid: "claim_mid_bits solo (mi_bitmap_mask 64 0) n (q + 1)
      (b ! q AND mi_bitmap_mask (64 - k) k = 0) (b ! q AND mi_bitmap_mask (64 - k) k \<noteq> mi_bitmap_mask (64 - k) k)
      (Suc t, ?b1) = (al, an, f2, (t2, b2))"
    by (metis prod.exhaust)
  have len: "q + 1 + n \<le> length ?b1" using bd(2) by simp
  note mid' = claim_mid_bits_spec [OF len mid, unfolded field_set [OF f] field_all [OF f] field_none [OF f]]
  have r': "(if c \<noteq> 0 then ((al \<and> b2 ! f2 AND mi_bitmap_mask c 0 = 0, an \<or> b2 ! f2 AND mi_bitmap_mask c 0 \<noteq> mi_bitmap_mask c 0),
        (Suc t2, b2[f2 := b2 ! f2 OR mi_bitmap_mask c 0])) else ((al, an), (t2, b2))) = (a, (t', b'))"
    using r mid k unfolding mi_bitmap_claim_across_def crossing_masks [OF x] index_parts(2,3) Let_def
    by (simp add: atomic_defs solo_def mask_zero cong: if_cong split: if_splits)
  show ?thesis
  proof (cases "c = 0")
    case True
    then have "a = (al, an)" "b' = b2" "bit_range ((q + 1 + n) * 64 + 0) c = {}" using r' by simp_all
    then show ?thesis using mid' ap unfolding crossing_range [OF x] by auto
  next
    case False
    have f2: "f2 < length b2" "0 + c \<le> 64" "f2 = q + 1 + n" using mid' bd(3) [OF False] k by simp_all
    have e: "a = (al \<and> b2 ! f2 AND mi_bitmap_mask c 0 = 0, an \<or> b2 ! f2 AND mi_bitmap_mask c 0 \<noteq> mi_bitmap_mask c 0)"
      "b' = b2[f2 := b2 ! f2 OR mi_bitmap_mask c 0]" using r' False by simp_all
    have "claimed b' = claimed b2 \<union> bit_range (f2 * 64 + 0) c" "length b' = length b2"
      "a = (al \<and> bit_range (f2 * 64 + 0) c \<inter> claimed b2 = {}, an \<or> \<not> bit_range (f2 * 64 + 0) c \<subseteq> claimed b2)"
      unfolding e by (rule field_set [OF f2(1,2)], simp, simp only: field_all [OF f2(1,2)] field_none [OF f2(1,2)])
    with mid' have "length b' = length b" "claimed b' = claimed b \<union> bit_range (q * 64 + k) (64 - k) \<union>
        bit_range ((q + 1) * 64) (n * 64) \<union> bit_range (f2 * 64 + 0) c"
      "fst a = (bit_range (q * 64 + k) (64 - k) \<inter> claimed b = {} \<and>
        bit_range ((q + 1) * 64) (n * 64) \<inter> (claimed b \<union> bit_range (q * 64 + k) (64 - k)) = {} \<and>
        bit_range (f2 * 64 + 0) c \<inter> (claimed b \<union> bit_range (q * 64 + k) (64 - k) \<union> bit_range ((q + 1) * 64) (n * 64)) = {})"
      "snd a = (\<not> (bit_range (q * 64 + k) (64 - k) \<subseteq> claimed b \<and>
        bit_range ((q + 1) * 64) (n * 64) \<subseteq> claimed b \<union> bit_range (q * 64 + k) (64 - k) \<and>
        bit_range (f2 * 64 + 0) c \<subseteq> claimed b \<union> bit_range (q * 64 + k) (64 - k) \<union> bit_range ((q + 1) * 64) (n * 64)))"
      by (simp, simp, simp, simp, argo)
    then show ?thesis
      unfolding crossing_range [OF x] f2(3) three_parts(2,3) [OF ap] by (simp add: prod_eq_iff Un_assoc)
  qed
qed

lemma claimed_across_crossing:
  assumes x: "crossing k cnt n c" and l: "q * 64 + k + cnt \<le> 64 * length b"
    and r: "mi_bitmap_is_claimedx_across solo cnt (q * 64 + k) (t, b) = (a, (t', b'))"
  shows "a = (bit_range (q * 64 + k) cnt \<subseteq> claimed b, bit_range (q * 64 + k) cnt \<inter> claimed b \<noteq> {}) \<and> b' = b"
proof -
  note bd = crossing_bound [OF x l] and ap = crossing_apart [OF x, of q]
  have k: "(q * 64 + k) div 64 = q" "(q * 64 + k) mod 64 = k" "c < 64" using x by (simp_all add: crossing_def)
  have f: "q < length b" "k + (64 - k) \<le> 64" using bd(1) x by (simp_all add: crossing_def)
  obtain al an f2 t2 b2 where mid: "claimed_mid solo (mi_bitmap_mask 64 0) n (q + 1)
      (b ! q AND mi_bitmap_mask (64 - k) k = mi_bitmap_mask (64 - k) k) (b ! q AND mi_bitmap_mask (64 - k) k \<noteq> 0)
      (Suc t, b) = (al, an, f2, (t2, b2))"
    by (metis prod.exhaust)
  have len: "q + 1 + n \<le> length b" using bd(2) by simp
  note mid' = claimed_mid_spec [OF len mid, unfolded field_all [OF f] field_none [OF f]]
  have r': "(if c \<noteq> 0 then ((al \<and> b2 ! f2 AND mi_bitmap_mask c 0 = mi_bitmap_mask c 0, an \<or> b2 ! f2 AND mi_bitmap_mask c 0 \<noteq> 0),
        (Suc t2, b2)) else ((al, an), (t2, b2))) = (a, (t', b'))"
    using r mid k unfolding mi_bitmap_is_claimedx_across_def crossing_masks [OF x] index_parts(2,3) Let_def
    by (simp add: atomic_defs solo_def mask_zero cong: if_cong split: if_splits)
  show ?thesis
  proof (cases "c = 0")
    case True
    then have "a = (al, an)" "b' = b2" "bit_range ((q + 1 + n) * 64 + 0) c = {}" using r' by simp_all
    then show ?thesis using mid' unfolding crossing_range [OF x] by auto
  next
    case False
    have f2: "f2 < length b" "0 + c \<le> 64" "f2 = q + 1 + n" "b2 = b" using mid' bd(3) [OF False] k by simp_all
    have e: "a = (al \<and> b ! f2 AND mi_bitmap_mask c 0 = mi_bitmap_mask c 0, an \<or> b ! f2 AND mi_bitmap_mask c 0 \<noteq> 0)"
      "b' = b" using r' False f2(4) by (auto simp only: prod.inject if_True not_False_eq_True)
    have "a = (al \<and> bit_range (f2 * 64 + 0) c \<subseteq> claimed b, an \<or> bit_range (f2 * 64 + 0) c \<inter> claimed b \<noteq> {})"
      unfolding e by (simp only: field_all [OF f2(1,2)] field_none [OF f2(1,2)])
    then show ?thesis using mid' e(2) unfolding crossing_range [OF x] f2(3) by auto
  qed
qed

interpretation across_bits: claim_map in_bitmap "mi_bitmap_claim_across solo" "mi_bitmap_unclaim_across solo"
  "mi_bitmap_is_claimedx_across solo"
proof unfold_locales
  fix b :: fields and cnt i t r t' b' a
  assume v: "in_bitmap (length b) cnt i"
  define q k where "q = i div 64" and "k = i mod 64"
  have i: "i = q * 64 + k" and k: "k < 64" by (simp_all add: q_def k_def)
  have l: "q * 64 + k + cnt \<le> 64 * length b" using v i by (simp add: in_bitmap_def)
  have inf: "in_field (length b) cnt i" if "k + cnt \<le> 64"
  proof -
    have "0 < cnt" using v by (simp add: in_bitmap_def)
    then have "q < length b" using l by linarith
    then show ?thesis using that by (simp add: in_field_def q_def k_def)
  qed
  have thin: "i mod 64 + cnt \<le> 64" if "k + cnt \<le> 64" using that by (simp add: k_def)
  have wide: "\<exists>n c. crossing k cnt n c" if "\<not> k + cnt \<le> 64" using that k by (meson crossing_exists not_le)
  show "mi_bitmap_claim_across solo cnt i (t, b) = (r, (t', b')) \<Longrightarrow>
      r = (bit_range i cnt \<inter> claimed b = {}, \<not> bit_range i cnt \<subseteq> claimed b) \<and>
      length b' = length b \<and> claimed b' = claimed b \<union> bit_range i cnt"
    using field_bits.claim_law [OF inf] across_in_field(1) [OF thin] claim_across_crossing [OF _ l] wide i by metis
  show "mi_bitmap_unclaim_across solo cnt i (t, b) = (a, (t', b')) \<Longrightarrow>
      a = (bit_range i cnt \<subseteq> claimed b) \<and> length b' = length b \<and> claimed b' = claimed b - bit_range i cnt"
    using field_bits.unclaim_law [OF inf] across_in_field(2) [OF thin] unclaim_across_crossing [OF _ l] wide i by metis
  show "mi_bitmap_is_claimedx_across solo cnt i (t, b) = (r, (t', b')) \<Longrightarrow>
      r = (bit_range i cnt \<subseteq> claimed b, bit_range i cnt \<inter> claimed b \<noteq> {}) \<and> b' = b"
    using field_bits.query_law [OF inf] across_in_field(3) [OF thin] claimed_across_crossing [OF _ l] wide i by metis
qed

end
