(* ===== verification/Mi_Bitmap_Search.thy ===== *)
theory Mi_Bitmap_Search
  imports Mi_Bitmap
begin

text \<open>
  What the searches of \<^verbatim>\<open>src/bitmap.c\<close> find: first fit in a field, alone and under interference, and the completeness
  of the searches over all fields by a thread that runs alone.
\<close>

section \<open>Search in a field\<close>

definition field_free :: "u64 \<Rightarrow> nat \<Rightarrow> nat \<Rightarrow> bool" where
  "field_free x p cnt \<longleftrightarrow> (\<forall>j < cnt. \<not> bit x (p + j))"

text \<open>What \<open>n\<close> steps of the other threads from step \<open>t\<close> on make of the bitmap.\<close>

fun env_run :: "interference \<Rightarrow> nat \<Rightarrow> nat \<Rightarrow> fields \<Rightarrow> fields" where
  "env_run env t 0 b = b"
| "env_run env t (Suc n) b = env_run env (Suc t) n (env t b)"

lemma mask_shift: "p + cnt \<le> 64 \<Longrightarrow> push_bit p (mi_bitmap_mask cnt 0) = mi_bitmap_mask cnt p"
  by (rule bit_word_eqI) (auto simp: bit_simps mi_bitmap_mask_bit)

lemma field_free_mask: "p + cnt \<le> 64 \<Longrightarrow> x AND mi_bitmap_mask cnt p = 0 \<longleftrightarrow> field_free x p cnt"
proof
  assume p: "p + cnt \<le> 64" and z: "x AND mi_bitmap_mask cnt p = 0"
  show "field_free x p cnt" unfolding field_free_def
    using arg_cong [OF z, of "\<lambda>y. bit y (p + j)" for j] p by (auto simp: bit_and_iff mi_bitmap_mask_bit)
next
  assume p: "p + cnt \<le> 64" and f: "field_free x p cnt"
  have "\<not> bit x i" if "p \<le> i" "i < p + cnt" for i
    using f [unfolded field_free_def, rule_format, of "i - p"] that by simp
  then show "x AND mi_bitmap_mask cnt p = 0"
    using p by (intro bit_word_eqI) (auto simp: bit_and_iff mi_bitmap_mask_bit)
qed

text \<open>The next bit index skips only positions whose sequence contains the highest set bit found.\<close>

lemma skip_to_next:
  assumes "p + cnt \<le> 64" "x AND mi_bitmap_mask cnt p \<noteq> 0"
  defines "sh \<equiv> (if cnt = 1 then 1 else MI_INTPTR_BITS - mi_clz (x AND mi_bitmap_mask cnt p) - p)"
  shows "0 < sh" "\<And>q. p \<le> q \<Longrightarrow> q < p + sh \<Longrightarrow> \<not> field_free x q cnt"
proof -
  obtain h where h: "highest_bit (x AND mi_bitmap_mask cnt p) h" using highest_bit_exists [OF assms(2)] .
  then have b: "bit x h" "p \<le> h" "h < p + cnt" using assms(1) by (auto simp: highest_bit_def bit_and_iff mi_bitmap_mask_bit)
  have "mi_clz (x AND mi_bitmap_mask cnt p) = 63 - h" by (rule mi_clz_highest [OF h])
  then have sh: "sh = h + 1 - p" using b assms(1) unfolding sh_def MI_INTPTR_BITS_def by (cases "cnt = 1") auto
  show "0 < sh" using sh b by simp
  fix q assume "p \<le> q" "q < p + sh"
  then have "q \<le> h" "h < q + cnt" using sh b by simp_all
  then show "\<not> field_free x q cnt" unfolding field_free_def using b(1) by (metis add_less_cancel_left le_add_diff_inverse)
qed

definition fit_result :: "fields \<Rightarrow> nat \<Rightarrow> nat \<Rightarrow> nat option \<Rightarrow> fields \<Rightarrow> bool" where
  "fit_result b idx cnt r b' \<longleftrightarrow>
     (case r of
        None \<Rightarrow> b' = b \<and> (\<forall>p. p + cnt \<le> 64 \<longrightarrow> \<not> field_free (b ! idx) p cnt)
      | Some i \<Rightarrow> (\<exists>p. i = mi_bitmap_index_create idx p \<and> p + cnt \<le> 64 \<and> field_free (b ! idx) p cnt \<and>
          (\<forall>q < p. \<not> field_free (b ! idx) q cnt) \<and> b' = b[idx := b ! idx OR mi_bitmap_mask cnt p]))"

lemma claim_field_loop_solo:
  assumes "0 < cnt" "cnt \<le> 64" "idx < length b" "\<forall>q < p. q + cnt \<le> 64 \<longrightarrow> \<not> field_free (b ! idx) q cnt"
  shows "\<exists>r t' b'. claim_field_loop solo idx cnt (64 - cnt) (b ! idx) p (push_bit p (mi_bitmap_mask cnt 0)) (t, b) =
    Some (r, (t', b')) \<and> fit_result b idx cnt r b'"
  using assms(4)
proof (induction "64 - p" arbitrary: p rule: less_induct)
  case less
  let ?m = "push_bit p (mi_bitmap_mask cnt 0)"
  show ?case
  proof (cases "p + cnt \<le> 64")
    case out: False
    then have "\<not> field_free (b ! idx) q cnt" if "q + cnt \<le> 64" for q using less.prems that by simp
    moreover have "\<not> p \<le> 64 - cnt" using out assms(2) by simp
    ultimately show ?thesis by (subst claim_field_loop.simps) (simp add: fit_result_def)
  next
    case p: True
    note m = mask_shift [OF p]
    have le: "p \<le> 64 - cnt" using p by simp
    show ?thesis
    proof (cases "b ! idx AND mi_bitmap_mask cnt p = 0")
      case True
      then have "field_free (b ! idx) p cnt" using field_free_mask [OF p] by simp
      moreover have "\<forall>q < p. \<not> field_free (b ! idx) q cnt" using less.prems p by simp
      ultimately have "fit_result b idx cnt (Some (mi_bitmap_index_create idx p)) (b[idx := b ! idx OR mi_bitmap_mask cnt p])"
        using p unfolding fit_result_def by auto
      then show ?thesis using True le
        by (subst claim_field_loop.simps) (simp add: m Let_def atomic_defs solo_def)
    next
      case False
      let ?sh = "if cnt = 1 then 1 else MI_INTPTR_BITS - mi_clz (b ! idx AND mi_bitmap_mask cnt p) - p"
      note sk = skip_to_next [OF p False]
      have "\<forall>q < p + ?sh. q + cnt \<le> 64 \<longrightarrow> \<not> field_free (b ! idx) q cnt" using less.prems sk(2) not_le by blast
      moreover have "64 - (p + ?sh) < 64 - p" using sk(1) p assms(1) by linarith
      ultimately obtain r t' b' where ih: "claim_field_loop solo idx cnt (64 - cnt) (b ! idx) (p + ?sh)
          (push_bit (p + ?sh) (mi_bitmap_mask cnt 0)) (t, b) = Some (r, (t', b'))" "fit_result b idx cnt r b'"
        using less.hyps [of "p + ?sh"] by blast
      have "push_bit ?sh (mi_bitmap_mask cnt p) = push_bit (p + ?sh) (mi_bitmap_mask cnt 0)"
        unfolding m [symmetric] by (simp add: add.commute)
      then have "claim_field_loop solo idx cnt (64 - cnt) (b ! idx) p ?m (t, b) = Some (r, (t', b'))"
        using False le ih(1) by (subst claim_field_loop.simps) (simp add: m Let_def)
      then show ?thesis using ih(2) by blast
    qed
  qed
qed

lemma claim_field_solo:
  assumes "0 < cnt" "cnt \<le> 64" "idx < length b"
  shows "\<exists>r t' b'. mi_bitmap_try_find_claim_field solo idx cnt (t, b) = Some (r, (t', b')) \<and> fit_result b idx cnt r b'"
proof (cases "b ! idx = MI_BITMAP_FIELD_FULL")
  case True
  have "bit (b ! idx) p" if "p + cnt \<le> 64" for p
    using that assms(1) unfolding True MI_BITMAP_FIELD_FULL_def by (simp add: bit_simps)
  then have "fit_result b idx cnt None b" using assms(1) unfolding fit_result_def field_free_def by (auto intro: exI [of _ 0])
  then show ?thesis using True by (simp add: mi_bitmap_try_find_claim_field_def atomic_defs solo_def)
next
  case False
  then have "NOT (b ! idx) \<noteq> 0" unfolding MI_BITMAP_FIELD_FULL_def by (metis bit.double_compl)
  then obtain k where k: "lowest_bit (NOT (b ! idx)) k" "k < 64" by (rule lowest_bit_exists) simp
  have "\<not> field_free (b ! idx) q cnt" if "q < k" for q
  proof -
    have "bit (b ! idx) q" using k that by (auto simp: lowest_bit_def bit_simps)
    then show ?thesis using assms(1) unfolding field_free_def by (metis add.right_neutral)
  qed
  then have "\<forall>q < mi_ctz (NOT (b ! idx)). q + cnt \<le> 64 \<longrightarrow> \<not> field_free (b ! idx) q cnt"
    by (simp add: mi_ctz_lowest [OF k(1)])
  from claim_field_loop_solo [OF assms this, of "Suc t"] show ?thesis using False
    by (simp add: mi_bitmap_try_find_claim_field_def atomic_defs solo_def bits_64 Let_def)
qed

text \<open>Under interference: one atomic exchange takes a free sequence, and nothing else is written.\<close>

definition atomic_result :: "interference \<Rightarrow> nat \<Rightarrow> fields \<Rightarrow> nat \<Rightarrow> nat \<Rightarrow> nat option \<Rightarrow> nat \<Rightarrow> fields \<Rightarrow> bool" where
  "atomic_result env t b idx cnt r t' b' \<longleftrightarrow> t \<le> t' \<and>
     (let c = env_run env t (t' - t) b
      in case r of
           None \<Rightarrow> b' = c
         | Some i \<Rightarrow> (\<exists>p. i = mi_bitmap_index_create idx p \<and> p + cnt \<le> 64 \<and> field_free (c ! idx) p cnt \<and>
             b' = c[idx := c ! idx OR mi_bitmap_mask cnt p]))"

lemma atomic_result_step:
  "atomic_result env (Suc t) (env t b) idx cnt r t' b' \<Longrightarrow> atomic_result env t b idx cnt r t' b'"
proof -
  assume a: "atomic_result env (Suc t) (env t b) idx cnt r t' b'"
  then have "Suc t \<le> t'" by (simp add: atomic_result_def)
  then have "env_run env t (t' - t) b = env_run env (Suc t) (t' - Suc t) (env t b)"
    by (metis Suc_diff_Suc env_run.simps(2) Suc_le_eq)
  then show ?thesis using a by (simp add: atomic_result_def)
qed

lemma claim_field_loop_atomic:
  assumes "claim_field_loop env idx cnt (64 - cnt) x p m s = Some r" "cnt \<le> 64" "m = push_bit p (mi_bitmap_mask cnt 0)"
  shows "atomic_result env (fst s) (snd s) idx cnt (fst r) (fst (snd r)) (snd (snd r))"
proof -
  have "n = 64 - cnt \<longrightarrow> cnt \<le> 64 \<longrightarrow> m = push_bit p (mi_bitmap_mask cnt 0) \<longrightarrow>
      atomic_result env (fst s) (snd s) idx cnt (fst r) (fst (snd r)) (snd (snd r))"
    if "claim_field_loop env idx cnt n x p m s = Some r" for n
    using that
  proof (induction rule: claim_field_loop.raw_induct [rotated, consumes 1])
    case (1 loop env idx cnt n x p m s r)
    show ?case
    proof (intro impI)
      assume n: "n = 64 - cnt" and c: "cnt \<le> 64" and m: "m = push_bit p (mi_bitmap_mask cnt 0)"
      obtain t b where s: "s = (t, b)" by fastforce
      show "atomic_result env (fst s) (snd s) idx cnt (fst r) (fst (snd r)) (snd (snd r))"
      proof (cases "p \<le> n")
        case False
        then show ?thesis using 1(2) s by (auto simp: atomic_result_def)
      next
        case le: True
        then have p: "p + cnt \<le> 64" using n c by simp
        note mm = mask_shift [OF p]
        show ?thesis
        proof (cases "x AND m = 0")
          case free: True
          show ?thesis
          proof (cases "env t b ! idx = x")
            case True
            then have "r = (Some (mi_bitmap_index_create idx p), (Suc t, (env t b)[idx := x OR m]))"
              using 1(2) s le free by (simp add: atomic_defs Let_def)
            moreover have "field_free x p cnt" using free field_free_mask [OF p] mm m by simp
            ultimately show ?thesis unfolding atomic_result_def s m mm using True p by (auto simp: Let_def)
          next
            case False
            then have "loop env idx cnt n (env t b ! idx) p m (Suc t, env t b) = Some r"
              using 1(2) s le free by (simp add: atomic_defs Let_def)
            from 1(1) [OF this] n c m show ?thesis using s by (auto intro: atomic_result_step)
          qed
        next
          case False
          let ?sh = "if cnt = 1 then 1 else MI_INTPTR_BITS - mi_clz (x AND m) - p"
          have "loop env idx cnt n x (p + ?sh) (push_bit ?sh m) s = Some r" using 1(2) le False by (simp add: Let_def)
          from 1(1) [OF this] n c m show ?thesis by (simp add: add.commute)
        qed
      qed
    qed
  qed
  then show ?thesis using assms by blast
qed

lemma claim_field_atomic:
  assumes "mi_bitmap_try_find_claim_field env idx cnt (t, b) = Some (r, (t', b'))" "cnt \<le> 64"
  shows "atomic_result env t b idx cnt r t' b'"
proof (cases "env t b ! idx = MI_BITMAP_FIELD_FULL")
  case True
  then have "r = None" "t' = Suc t" "b' = env t b"
    using assms(1) by (auto simp: mi_bitmap_try_find_claim_field_def atomic_defs)
  then show ?thesis by (simp add: atomic_result_def)
next
  case False
  then have "claim_field_loop env idx cnt (64 - cnt) (env t b ! idx) (mi_ctz (NOT (env t b ! idx)))
      (push_bit (mi_ctz (NOT (env t b ! idx))) (mi_bitmap_mask cnt 0)) (Suc t, env t b) = Some (r, (t', b'))"
    using assms(1) by (simp add: mi_bitmap_try_find_claim_field_def atomic_defs bits_64 Let_def)
  from claim_field_loop_atomic [OF this assms(2) refl] show ?thesis by (auto intro: atomic_result_step)
qed

section \<open>Search over the fields\<close>

text \<open>A sequence was free and is taken, nothing else changed.\<close>

definition takes :: "fields \<Rightarrow> nat \<Rightarrow> nat \<Rightarrow> fields \<Rightarrow> bool" where
  "takes b cnt i b' \<longleftrightarrow> i + cnt \<le> 64 * length b \<and> bit_range i cnt \<inter> claimed b = {} \<and>
     length b' = length b \<and> claimed b' = claimed b \<union> bit_range i cnt"

definition search_result :: "bool \<Rightarrow> fields \<Rightarrow> nat \<Rightarrow> nat option \<Rightarrow> fields \<Rightarrow> bool" where
  "search_result fits b cnt r b' \<longleftrightarrow> (case r of None \<Rightarrow> b' = b \<and> \<not> fits | Some i \<Rightarrow> takes b cnt i b')"

text \<open>A free sequence that starts in a field, and one that ends in the same field.\<close>

definition starts_in :: "fields \<Rightarrow> nat \<Rightarrow> nat \<Rightarrow> bool" where
  "starts_in b cnt f \<longleftrightarrow> (\<exists>i. i div 64 = f \<and> i + cnt \<le> 64 * length b \<and> bit_range i cnt \<inter> claimed b = {})"

definition fits_in :: "fields \<Rightarrow> nat \<Rightarrow> nat \<Rightarrow> bool" where
  "fits_in b cnt f \<longleftrightarrow> (\<exists>i. i div 64 = f \<and> i mod 64 + cnt \<le> 64 \<and> bit_range i cnt \<inter> claimed b = {})"

lemma fits_in_free:
  assumes "f < length b" "0 < cnt"
  shows "fits_in b cnt f \<longleftrightarrow> (\<exists>p. p + cnt \<le> 64 \<and> field_free (b ! f) p cnt)"
proof
  assume "fits_in b cnt f"
  then obtain i where i: "i div 64 = f" "i mod 64 + cnt \<le> 64" "bit_range i cnt \<inter> claimed b = {}"
    by (auto simp: fits_in_def)
  then have "field_free (b ! f) (i mod 64) cnt"
    using field_none [OF assms(1) i(2)] field_free_mask [OF i(2)] index_range [of i cnt] by simp
  then show "\<exists>p. p + cnt \<le> 64 \<and> field_free (b ! f) p cnt" using i(2) by blast
next
  assume "\<exists>p. p + cnt \<le> 64 \<and> field_free (b ! f) p cnt"
  then obtain p where p: "p + cnt \<le> 64" "field_free (b ! f) p cnt" by blast
  then have "bit_range (f * 64 + p) cnt \<inter> claimed b = {}" using field_none [OF assms(1) p(1)] field_free_mask [OF p(1)] by simp
  then show "fits_in b cnt f" unfolding fits_in_def using p(1) assms(2) by (intro exI [of _ "f * 64 + p"]) simp
qed

locale field_try =
  fixes attempt :: "nat \<Rightarrow> nat \<Rightarrow> nat \<Rightarrow> bm_state \<Rightarrow> (nat option \<times> bm_state) option"
    and admissible :: "nat \<Rightarrow> nat \<Rightarrow> bool"
    and fits :: "fields \<Rightarrow> nat \<Rightarrow> nat \<Rightarrow> bool"
    and loop :: "nat \<Rightarrow> nat \<Rightarrow> nat \<Rightarrow> nat \<Rightarrow> bm_state \<Rightarrow> (nat option \<times> bm_state) option"
  assumes attempt_law: "admissible (length b) cnt \<Longrightarrow> f < length b \<Longrightarrow>
      \<exists>r t' b'. attempt (length b) cnt f (t, b) = Some (r, (t', b')) \<and> search_result (fits b cnt f) b cnt r b'"
    and loop_0: "loop n cnt idx 0 s = Some (None, s)"
    and loop_Suc: "loop n cnt idx (Suc left) s =
      (let idx = (if idx \<ge> n then 0 else idx)
       in Option.bind (attempt n cnt idx s)
         (\<lambda>(r, s). if r \<noteq> None then Some (r, s) else loop n cnt (idx + 1) left s))"
begin

lemma loop_result:
  assumes "admissible (length b) cnt" "0 < length b" "idx0 = (if length b \<le> idx then 0 else idx)"
  shows "\<exists>r t' b'. loop (length b) cnt idx left (t, b) = Some (r, (t', b')) \<and>
    search_result (\<exists>j < left. fits b cnt ((idx0 + j) mod length b)) b cnt r b'"
  using assms(3)
proof (induction left arbitrary: idx idx0 t)
  case 0
  then show ?case by (simp add: loop_0 search_result_def)
next
  case (Suc left)
  let ?n = "length b"
  have i0: "idx0 < ?n" using Suc.prems assms(2) by simp
  obtain r t1 b1 where a: "attempt ?n cnt idx0 (t, b) = Some (r, (t1, b1))" "search_result (fits b cnt idx0) b cnt r b1"
    using attempt_law [OF assms(1) i0] by blast
  show ?case
  proof (cases r)
    case (Some i)
    have "loop ?n cnt idx (Suc left) (t, b) = Some (r, (t1, b1))"
      using a(1) Some unfolding loop_Suc Suc.prems [symmetric] by (simp add: Let_def Suc.prems)
    then show ?thesis using a(2) Some by (auto simp: search_result_def)
  next
    case None
    then have b1: "b1 = b" and nf: "\<not> fits b cnt idx0" using a(2) by (simp_all add: search_result_def)
    obtain r' t' b' where ih: "loop ?n cnt (idx0 + 1) left (t1, b) = Some (r', (t', b'))"
      "search_result (\<exists>j < left. fits b cnt (((if ?n \<le> idx0 + 1 then 0 else idx0 + 1) + j) mod ?n)) b cnt r' b'"
      using Suc.IH [OF refl, of "idx0 + 1" t1] by blast
    have "((if ?n \<le> idx0 + 1 then 0 else idx0 + 1) + j) mod ?n = (idx0 + Suc j) mod ?n" for j
    proof (cases "idx0 + 1 = ?n")
      case True
      then have "idx0 + Suc j = j + ?n" by simp
      then show ?thesis using True by (simp only: mod_add_self2) simp
    qed (use i0 in simp)
    then have "(\<exists>j < left. fits b cnt (((if ?n \<le> idx0 + 1 then 0 else idx0 + 1) + j) mod ?n)) \<longleftrightarrow>
        (\<exists>j < Suc left. fits b cnt ((idx0 + j) mod ?n))"
      using nf i0 by (auto simp: less_Suc_eq_0_disj)
    moreover have "loop ?n cnt idx (Suc left) (t, b) = Some (r', (t', b'))"
      using a(1) None b1 ih(1) unfolding loop_Suc by (simp add: Let_def Suc.prems)
    ultimately show ?thesis using ih(2) by auto
  qed
qed

lemma search_all:
  assumes "admissible (length b) cnt" "0 < length b"
  shows "\<exists>r t' b'. loop (length b) cnt start (length b) (t, b) = Some (r, (t', b')) \<and>
    search_result (\<exists>f < length b. fits b cnt f) b cnt r b'"
proof -
  let ?n = "length b"
  define s where "s = (if ?n \<le> start then 0 else start)"
  have s: "s < ?n" using assms(2) by (simp add: s_def)
  have "(\<exists>j < ?n. fits b cnt ((s + j) mod ?n)) \<longleftrightarrow> (\<exists>f < ?n. fits b cnt f)"
  proof
    assume "\<exists>f < ?n. fits b cnt f"
    then obtain f where f: "f < ?n" "fits b cnt f" by blast
    define j where "j = (f + ?n - s) mod ?n"
    have "(s + j) mod ?n = (s + (f + ?n - s)) mod ?n" unfolding j_def by (simp add: mod_add_right_eq)
    also have "\<dots> = f" using s f(1) by simp
    finally have "fits b cnt ((s + j) mod ?n)" using f(2) by simp
    moreover have "j < ?n" using assms(2) by (simp add: j_def)
    ultimately show "\<exists>j < ?n. fits b cnt ((s + j) mod ?n)" by blast
  next
    assume "\<exists>j < ?n. fits b cnt ((s + j) mod ?n)"
    then show "\<exists>f < ?n. fits b cnt f" using assms(2) mod_less_divisor by blast
  qed
  then show ?thesis using loop_result [OF assms s_def, of ?n t] by simp
qed

end

lemma fit_takes:
  assumes "fit_result b f cnt r b'" "f < length b" "0 < cnt"
  shows "search_result (fits_in b cnt f) b cnt r b'"
proof (cases r)
  case None
  then show ?thesis using assms by (auto simp: fit_result_def search_result_def fits_in_free)
next
  case (Some i)
  then obtain p where p: "i = f * 64 + p" "p + cnt \<le> 64" "field_free (b ! f) p cnt"
    "b' = b[f := b ! f OR mi_bitmap_mask cnt p]"
    using assms(1) by (auto simp: fit_result_def mi_bitmap_index_create_def bits_64)
  have "bit_range i cnt \<inter> claimed b = {}" using field_none [OF assms(2) p(2)] field_free_mask [OF p(2)] p(1,3) by simp
  moreover have "claimed b' = claimed b \<union> bit_range i cnt" using field_set [OF assms(2) p(2)] p(1,4) by simp
  moreover have "i + cnt \<le> 64 * length b" using p(1,2) assms(2) by simp
  ultimately show ?thesis using Some p(4) by (simp add: search_result_def takes_def)
qed

interpretation in_fields: field_try "\<lambda>n cnt f. mi_bitmap_try_find_claim_field solo f cnt" "\<lambda>n cnt. 0 < cnt \<and> cnt \<le> 64"
  fits_in "\<lambda>n cnt. find_from_loop solo n cnt"
proof unfold_locales
  fix b :: fields and cnt f t :: nat
  assume "0 < cnt \<and> cnt \<le> 64" "f < length b"
  then show "\<exists>r t' b'. mi_bitmap_try_find_claim_field solo f cnt (t, b) = Some (r, (t', b')) \<and>
      search_result (fits_in b cnt f) b cnt r b'"
    using claim_field_solo [of cnt f b t] fit_takes by blast
qed simp_all

section \<open>Search across fields\<close>

lemma claim_bits_solo:
  "claim_bits_loop solo f m (b ! f) (t, b) =
     Some (if b ! f AND m = 0 then (True, (Suc t, b[f := b ! f OR m])) else (False, (t, b)))"
  by (subst claim_bits_loop.simps) (simp add: atomic_defs solo_def Let_def)

lemma top_zeros:
  "mi_clz x \<le> 64" "\<And>j. 64 - mi_clz x \<le> j \<Longrightarrow> \<not> bit x j" "mi_clz x < 64 \<Longrightarrow> bit x (63 - mi_clz x)"
proof -
  have "mi_clz x \<le> 64 \<and> (\<forall>j. 64 - mi_clz x \<le> j \<longrightarrow> \<not> bit x j) \<and> (mi_clz x < 64 \<longrightarrow> bit x (63 - mi_clz x))"
  proof (cases "x = 0")
    case False
    then obtain k where k: "highest_bit x k" "k < 64" by (rule highest_bit_exists) simp
    then show ?thesis using mi_clz_highest [OF k(1)] by (auto simp: highest_bit_def)
  qed (simp add: mi_clz_def MI_INTPTR_BITS_def)
  then show "mi_clz x \<le> 64" "\<And>j. 64 - mi_clz x \<le> j \<Longrightarrow> \<not> bit x j" "mi_clz x < 64 \<Longrightarrow> bit x (63 - mi_clz x)"
    by blast+
qed

lemma range_split: "bit_range (f * 64) (Suc n * 64 + l) = bit_range (f * 64 + 0) 64 \<union> bit_range ((f + 1) * 64) (n * 64 + l)"
  by (auto simp: bit_range_def)

lemma scan_ahead_solo:
  assumes "cnt = found + (n * 64 + l)" "0 < l" "l \<le> 64" "f + 1 + n < length b"
  shows "\<exists>t'. scan_ahead solo cnt found f m (t, b) =
    (if bit_range ((f + 1) * 64) (n * 64 + l) \<inter> claimed b = {} then Some (f + 1 + n, mi_bitmap_mask l 0) else None, (t', b))"
  using assms
proof (induction n arbitrary: found f m t)
  case 0
  have mb: "(if found + 64 \<le> cnt then 64 else cnt - found) = l" using "0.prems" by auto
  have f: "f + 1 < length b" "0 + l \<le> 64" using "0.prems" by simp_all
  have e: "scan_ahead solo cnt (found + l) (f + 1) (mi_bitmap_mask l 0) (Suc t, b) =
      (Some (f + 1, mi_bitmap_mask l 0), (Suc t, b))"
    by (subst scan_ahead.simps) (simp add: "0.prems"(1))
  have "scan_ahead solo cnt found f m (t, b) =
      (if b ! (f + 1) AND mi_bitmap_mask l 0 \<noteq> 0 then (None, (Suc t, b))
       else scan_ahead solo cnt (found + l) (f + 1) (mi_bitmap_mask l 0) (Suc t, b))"
    using "0.prems"(1-3)
    by (cases "l = 64"; subst scan_ahead.simps; simp add: bits_64 Let_def atomic_defs solo_def)
  then show ?case using field_none [OF f] e by auto
next
  case (Suc n)
  have mb: "(if found + 64 \<le> cnt then 64 else cnt - found) = 64" using Suc.prems by auto
  have f: "f + 1 < length b" "0 + 64 \<le> (64 :: nat)" using Suc.prems by simp_all
  obtain t' where ih: "scan_ahead solo cnt (found + 64) (f + 1) (mi_bitmap_mask 64 0) (Suc t, b) =
      (if bit_range ((f + 1 + 1) * 64) (n * 64 + l) \<inter> claimed b = {} then Some (f + 1 + 1 + n, mi_bitmap_mask l 0) else None,
       (t', b))"
    using Suc.IH [of "found + 64" "f + 1" "mi_bitmap_mask 64 0" "Suc t"] Suc.prems by auto
  have "scan_ahead solo cnt found f m (t, b) =
      (if b ! (f + 1) AND mi_bitmap_mask 64 0 \<noteq> 0 then (None, (Suc t, b))
       else scan_ahead solo cnt (found + 64) (f + 1) (mi_bitmap_mask 64 0) (Suc t, b))"
    using Suc.prems(1,2) by (subst scan_ahead.simps) (simp add: bits_64 mb Let_def atomic_defs solo_def)
  then show ?case unfolding range_split using field_none [OF f] ih by (auto simp: Int_Un_distrib2)
qed

lemma claim_mid_solo:
  assumes "f + 1 + n \<le> length b" "bit_range ((f + 1) * 64) (n * 64) \<inter> claimed b = {}"
  shows "\<exists>t' b'. claim_mid solo (f + 1 + n) f (t, b) = (True, f + 1 + n, (t', b')) \<and>
    length b' = length b \<and> claimed b' = claimed b \<union> bit_range ((f + 1) * 64) (n * 64)"
  using assms
proof (induction n arbitrary: f t b)
  case 0
  then show ?case by (subst claim_mid.simps) simp
next
  case (Suc n)
  have f: "f + 1 < length b" "0 + 64 \<le> (64 :: nat)" using Suc.prems(1) by simp_all
  have ap: "bit_range ((f + 1) * 64 + 0) 64 \<inter> claimed b = {}" "bit_range ((f + 1 + 1) * 64) (n * 64) \<inter> claimed b = {}"
    using Suc.prems(2) unfolding range_Suc by auto
  have z: "b ! (f + 1) = 0"
    using field_none [OF f] ap(1) by (simp add: mi_bitmap_mask_def MI_BITMAP_FIELD_BITS_def MI_BITMAP_FIELD_FULL_def)
  let ?b = "b[f + 1 := MI_BITMAP_FIELD_FULL]"
  have cb: "claimed ?b = claimed b \<union> bit_range ((f + 1) * 64 + 0) 64" using field_set [OF f] z by (simp add: mid_mask)
  have "bit_range ((f + 1 + 1) * 64) (n * 64) \<inter> claimed ?b = {}" unfolding cb using ap(2) range_apart [of "f + 1"] by blast
  then obtain t' b' where ih: "claim_mid solo (f + 1 + 1 + n) (f + 1) (Suc t, ?b) = (True, f + 1 + 1 + n, (t', b'))"
    "length b' = length ?b" "claimed b' = claimed ?b \<union> bit_range ((f + 1 + 1) * 64) (n * 64)"
    using Suc.IH [of "f + 1" ?b "Suc t"] Suc.prems(1) by auto
  have "claim_mid solo (f + 1 + Suc n) f (t, b) = claim_mid solo (f + 1 + 1 + n) (f + 1) (Suc t, ?b)"
    using z by (subst claim_mid.simps) (simp add: Let_def atomic_defs solo_def)
  then show ?case using ih cb unfolding range_Suc by auto
qed

lemma claim_range_solo:
  assumes "0 < k" "k \<le> 64" "0 < l" "l \<le> 64" "f + 1 + n < length b"
    and fr: "bit_range (f * 64 + (64 - k)) (k + n * 64 + l) \<inter> claimed b = {}"
  shows "\<exists>t' b'. claim_range solo f (mi_bitmap_mask k (64 - k)) (f + 1 + n) (mi_bitmap_mask l 0) (t, b) = Some (None, (t', b')) \<and>
    length b' = length b \<and> claimed b' = claimed b \<union> bit_range (f * 64 + (64 - k)) (k + n * 64 + l)"
proof -
  let ?A = "bit_range (f * 64 + (64 - k)) k" and ?B = "bit_range ((f + 1) * 64) (n * 64)"
    and ?C = "bit_range ((f + 1 + n) * 64 + 0) l"
  have sp: "bit_range (f * 64 + (64 - k)) (k + n * 64 + l) = ?A \<union> ?B \<union> ?C" using assms(1,2) by (auto simp: bit_range_def)
  have ap: "?A \<inter> ?B = {}" "?A \<inter> ?C = {}" "?B \<inter> ?C = {}" using assms(1,2) by (auto simp: bit_range_def)
  have d: "?A \<inter> claimed b = {}" "?B \<inter> claimed b = {}" "?C \<inter> claimed b = {}" using fr unfolding sp by blast+
  have f: "f < length b" "(64 - k) + k \<le> 64" using assms by simp_all
  let ?b1 = "b[f := b ! f OR mi_bitmap_mask k (64 - k)]"
  have c1: "claimed ?b1 = claimed b \<union> ?A" using field_set [OF f] by simp
  have z1: "b ! f AND mi_bitmap_mask k (64 - k) = 0" using field_none [OF f] d(1) by simp
  have "?B \<inter> claimed ?b1 = {}" unfolding c1 using d ap by blast
  then obtain t2 b2 where m: "claim_mid solo (f + 1 + n) f (Suc (Suc t), ?b1) = (True, f + 1 + n, (t2, b2))"
    "length b2 = length ?b1" "claimed b2 = claimed ?b1 \<union> ?B"
    using claim_mid_solo [of f n ?b1 "Suc (Suc t)"] assms(5) by auto
  have f2: "f + 1 + n < length b2" "0 + l \<le> 64" using m(2) assms by simp_all
  have "?C \<inter> claimed b2 = {}" unfolding m(3) c1 using d ap by blast
  then have z2: "b2 ! (f + 1 + n) AND mi_bitmap_mask l 0 = 0" using field_none [OF f2] by simp
  let ?b3 = "b2[f + 1 + n := b2 ! (f + 1 + n) OR mi_bitmap_mask l 0]"
  have l1: "mi_atomic_load solo f (t, b) = (b ! f, (Suc t, b))"
    and l2: "mi_atomic_load solo (f + 1 + n) (t2, b2) = (b2 ! (f + 1 + n), (Suc t2, b2))"
    by (simp_all add: atomic_defs solo_def)
  have "claim_range solo f (mi_bitmap_mask k (64 - k)) (f + 1 + n) (mi_bitmap_mask l 0) (t, b) = Some (None, (Suc (Suc t2), ?b3))"
    unfolding claim_range_def l1 Let_def split claim_bits_solo bind.bind_lunit using z1 m(1) l2 z2
    by (simp add: claim_bits_solo)
  moreover have "claimed ?b3 = claimed b \<union> (?A \<union> ?B \<union> ?C)" using field_set [OF f2] m(3) c1 by (simp add: Un_assoc)
  moreover have "length ?b3 = length b" using m(2) by simp
  ultimately show ?thesis unfolding sp by blast
qed

lemma divide_up_64:
  assumes "r < 2 ^ 63"
  shows "unat (mi_divide_up (word_of_nat r) (word_of_nat MI_BITMAP_FIELD_BITS)) = (r + 63) div 64"
proof -
  have r: "unat (word_of_nat r :: u64) = r" using assms by (simp add: unat_of_nat_small)
  have "unat ((word_of_nat r :: u64) + 64 - 1) = r + 63" unfolding add_diff_eq [symmetric]
    using assms r by (subst unat_add_small) simp_all
  then show ?thesis by (simp add: mi_divide_up_def bits_64 unat_div)
qed

text \<open>A free sequence that leaves the field starts among the zero bits at its top.\<close>

lemma crossing_start:
  assumes "i div 64 = f" "f < length b" "64 < i mod 64 + cnt" "bit_range i cnt \<inter> claimed b = {}"
  shows "64 - mi_clz (b ! f) \<le> i mod 64"
proof (rule ccontr)
  assume less: "\<not> 64 - mi_clz (b ! f) \<le> i mod 64"
  then have c: "mi_clz (b ! f) < 64" by linarith
  let ?j = "63 - mi_clz (b ! f)"
  have i: "i = f * 64 + i mod 64" using assms(1) div_mod_64(1) [of i] by simp
  have "i mod 64 \<le> ?j" "?j < 64" using less c by simp_all
  then have "i \<le> f * 64 + ?j" "f * 64 + ?j < i + cnt" using assms(3) i by linarith+
  then have "f * 64 + ?j \<in> bit_range i cnt" by (simp add: bit_range_def)
  moreover have "f * 64 + ?j \<in> claimed b" using claimed_at [OF assms(2), of ?j] top_zeros(3) [OF c] by simp
  ultimately show False using assms(4) by blast
qed

lemma starts_in_cases:
  assumes "f < length b" "0 < cnt" "\<not> fits_in b cnt f"
  shows "starts_in b cnt f \<longleftrightarrow> 0 < mi_clz (b ! f) \<and> f * 64 + (64 - mi_clz (b ! f)) + cnt \<le> 64 * length b \<and>
    bit_range (f * 64 + (64 - mi_clz (b ! f))) cnt \<inter> claimed b = {}"
proof
  let ?k = "mi_clz (b ! f)"
  assume "starts_in b cnt f"
  then obtain i where i: "i div 64 = f" "i + cnt \<le> 64 * length b" "bit_range i cnt \<inter> claimed b = {}"
    by (auto simp: starts_in_def)
  have x: "64 < i mod 64 + cnt"
  proof (rule ccontr)
    assume "\<not> 64 < i mod 64 + cnt"
    then have "i mod 64 + cnt \<le> 64" by simp
    then show False using assms(3) i(1,3) unfolding fits_in_def by blast
  qed
  note s = crossing_start [OF i(1) assms(1) x i(3)]
  have im: "i = f * 64 + i mod 64" "i mod 64 < 64" using i(1) div_mod_64 [of i] by simp_all
  have "0 < ?k" using s im(2) by linarith
  moreover have "f * 64 + (64 - ?k) + cnt \<le> 64 * length b" using s im(1) i(2) by linarith
  moreover have "bit_range (f * 64 + (64 - ?k)) cnt \<inter> claimed b = {}"
  proof -
    have "x \<notin> claimed b" if "f * 64 + (64 - ?k) \<le> x" "x < i" for x
    proof -
      have "x = f * 64 + (x - f * 64)" "x - f * 64 < 64" "64 - ?k \<le> x - f * 64" using that im by linarith+
      then show ?thesis using claimed_at [OF assms(1), of "x - f * 64"] top_zeros(2) [of "b ! f" "x - f * 64"] by simp
    qed
    moreover have "x \<notin> claimed b" if "i \<le> x" "x < f * 64 + (64 - ?k) + cnt" for x
    proof -
      have "x < i + cnt" using that s im(1) by linarith
      then show ?thesis using that(1) i(3) by (auto simp: bit_range_def)
    qed
    ultimately show ?thesis unfolding bit_range_def disjoint_iff atLeastLessThan_iff by (meson not_le)
  qed
  ultimately show "0 < ?k \<and> f * 64 + (64 - ?k) + cnt \<le> 64 * length b \<and> bit_range (f * 64 + (64 - ?k)) cnt \<inter> claimed b = {}"
    by blast
next
  let ?k = "mi_clz (b ! f)"
  assume a: "0 < ?k \<and> f * 64 + (64 - ?k) + cnt \<le> 64 * length b \<and> bit_range (f * 64 + (64 - ?k)) cnt \<inter> claimed b = {}"
  then have "64 - ?k < 64" by simp
  then have "(f * 64 + (64 - ?k)) div 64 = f" by (metis add.commute add.right_neutral div_less div_mult_self1 zero_neq_numeral)
  then show "starts_in b cnt f" using a unfolding starts_in_def by blast
qed

lemma claim_across_solo:
  assumes f: "f < length b" and c: "0 < cnt" "cnt < 2 ^ 63" and nf: "\<not> fits_in b cnt f"
  shows "\<exists>r t' b'. mi_bitmap_try_find_claim_field_across solo (length b) f cnt retries (t, b) = Some (r, (t', b')) \<and>
    search_result (starts_in b cnt f) b cnt r b'"
proof -
  let ?k = "mi_clz (b ! f)"
  note st = starts_in_cases [OF f c(1) nf]
  have k: "?k \<le> 64" by (rule top_zeros(1))
  have l: "mi_atomic_load solo f (t, b) = (b ! f, (Suc t, b))" by (simp add: atomic_defs solo_def)
  have kc: "?k < cnt" if "0 < ?k"
  proof (rule ccontr)
    assume "\<not> ?k < cnt"
    then have "64 - ?k + cnt \<le> 64" "field_free (b ! f) (64 - ?k) cnt" using k top_zeros(2) by (auto simp: field_free_def)
    then show False using nf fits_in_free [OF f c(1)] by blast
  qed
  have dv: "unat (mi_divide_up (word_of_nat (cnt - ?k)) (word_of_nat MI_BITMAP_FIELD_BITS)) = (cnt - ?k + 63) div 64"
    using c(2) by (intro divide_up_64) simp
  show ?thesis
  proof (cases "0 < ?k")
    case False
    then show ?thesis using st by (subst mi_bitmap_try_find_claim_field_across.simps) (simp add: l search_result_def)
  next
    case pos: True
    note kc = kc [OF pos]
    define n l where "n = (cnt - ?k - 1) div 64" and "l = (cnt - ?k - 1) mod 64 + 1"
    have nl: "cnt = ?k + (n * 64 + l)" "0 < l" "l \<le> 64" using kc div_mod_64 [of "cnt - ?k - 1"] by (auto simp: n_def l_def)
    have d: "(cnt - ?k + 63) div 64 = n + 1" using nl by simp
    show ?thesis
    proof (cases "length b - f \<le> n + 1")
      case True
      then have "\<not> f * 64 + (64 - ?k) + cnt \<le> 64 * length b" using nl f k by linarith
      then have "\<not> starts_in b cnt f" using st by blast
      then show ?thesis using True pos kc dv d
        by (subst mi_bitmap_try_find_claim_field_across.simps) (simp add: l_def [symmetric] l search_result_def)
    next
      case False
      then have fn: "f + 1 + n < length b" by simp
      obtain t1 where sc: "scan_ahead solo cnt ?k f 0 (Suc t, b) =
          (if bit_range ((f + 1) * 64) (n * 64 + l) \<inter> claimed b = {} then Some (f + 1 + n, mi_bitmap_mask l 0) else None, (t1, b))"
        using scan_ahead_solo [OF nl fn] by blast
      have sp: "bit_range (f * 64 + (64 - ?k)) cnt = bit_range (f * 64 + (64 - ?k)) ?k \<union> bit_range ((f + 1) * 64) (n * 64 + l)"
        using nl k by (auto simp: bit_range_def)
      have "bit_range (f * 64 + (64 - ?k)) ?k \<inter> claimed b = {}"
        using field_none [OF f, of "64 - ?k" ?k] field_free_mask [of "64 - ?k" ?k "b ! f"] top_zeros(2) [of "b ! f"] k
        by (simp add: field_free_def)
      then have st': "starts_in b cnt f \<longleftrightarrow> bit_range ((f + 1) * 64) (n * 64 + l) \<inter> claimed b = {}"
        unfolding st sp using pos nl fn k by auto
      show ?thesis
      proof (cases "starts_in b cnt f")
        case True
        have eq: "cnt = ?k + n * 64 + l" using nl(1) by simp
        have fr: "bit_range (f * 64 + (64 - ?k)) (?k + n * 64 + l) \<inter> claimed b = {}" using True st eq by simp
        obtain t2 b2 where cr: "claim_range solo f (mi_bitmap_mask ?k (64 - ?k)) (f + 1 + n) (mi_bitmap_mask l 0) (t1, b) =
            Some (None, (t2, b2))" "length b2 = length b" "claimed b2 = claimed b \<union> bit_range (f * 64 + (64 - ?k)) cnt"
          using claim_range_solo [OF pos k nl(2,3) fn fr, of t1] eq by metis
        have "mi_bitmap_try_find_claim_field_across solo (length b) f cnt retries (t, b) =
            Some (Some (f * 64 + (64 - ?k)), (t2, b2))"
          using False pos kc dv d sc True st' cr(1)
          by (subst mi_bitmap_try_find_claim_field_across.simps)
            (simp add: l Let_def bits_64 mi_bitmap_index_create_def del: mult_Suc)
        moreover have "search_result (starts_in b cnt f) b cnt (Some (f * 64 + (64 - ?k))) b2"
          using cr True st by (simp add: search_result_def takes_def)
        ultimately show ?thesis by blast
      next
        case no: False
        then show ?thesis using False pos kc dv d sc st'
          by (subst mi_bitmap_try_find_claim_field_across.simps) (simp add: l Let_def search_result_def del: mult_Suc)
      qed
    qed
  qed
qed

definition attempt_across :: "nat \<Rightarrow> nat \<Rightarrow> nat \<Rightarrow> bm_state \<Rightarrow> (nat option \<times> bm_state) option" where
  "attempt_across n cnt f s =
     Option.bind (if cnt \<le> 64 then mi_bitmap_try_find_claim_field solo f cnt s else Some (None, s))
       (\<lambda>(r, s). if r \<noteq> None then Some (r, s) else mi_bitmap_try_find_claim_field_across solo n f cnt 0 s)"

lemma fits_starts: "f < length b \<Longrightarrow> fits_in b cnt f \<Longrightarrow> starts_in b cnt f"
proof -
  assume f: "f < length b" and fi: "fits_in b cnt f"
  then obtain i where i: "i div 64 = f" "i mod 64 + cnt \<le> 64" "bit_range i cnt \<inter> claimed b = {}"
    by (auto simp: fits_in_def)
  have "i = f * 64 + i mod 64" using i(1) div_mod_64(1) [of i] by simp
  then have "i + cnt \<le> 64 * length b" using i(2) f by linarith
  then show ?thesis using i unfolding starts_in_def by blast
qed

interpretation across_fields: field_try attempt_across "\<lambda>n cnt. 0 < cnt \<and> cnt < 2 ^ 63" starts_in
  "\<lambda>n cnt. find_from_across_loop solo n cnt"
proof unfold_locales
  fix b :: fields and cnt f t :: nat
  assume c: "0 < cnt \<and> cnt < 2 ^ 63" and f: "f < length b"
  show "\<exists>r t' b'. attempt_across (length b) cnt f (t, b) = Some (r, (t', b')) \<and>
      search_result (starts_in b cnt f) b cnt r b'"
  proof (cases "cnt \<le> 64")
    case True
    obtain r t1 b1 where a: "mi_bitmap_try_find_claim_field solo f cnt (t, b) = Some (r, (t1, b1))"
      "search_result (fits_in b cnt f) b cnt r b1"
      using in_fields.attempt_law [of cnt f b t] True c f by auto
    show ?thesis
    proof (cases r)
      case None
      then have "b1 = b" "\<not> fits_in b cnt f" using a(2) by (simp_all add: search_result_def)
      then show ?thesis using a(1) None True claim_across_solo [of f b cnt 0 t1] c f by (auto simp: attempt_across_def)
    next
      case (Some i)
      then show ?thesis using a True by (auto simp: attempt_across_def search_result_def)
    qed
  next
    case False
    then have "\<not> fits_in b cnt f" by (auto simp: fits_in_def)
    then show ?thesis using False claim_across_solo [of f b cnt 0 t] c f by (auto simp: attempt_across_def)
  qed
next
  show "find_from_across_loop solo n cnt idx (Suc left) s =
      (let idx = (if idx \<ge> n then 0 else idx)
       in Option.bind (attempt_across n cnt idx s)
         (\<lambda>(r, s). if r \<noteq> None then Some (r, s) else find_from_across_loop solo n cnt (idx + 1) left s))"
    for n cnt idx left s
    by (auto simp: attempt_across_def bits_64 Let_def bind_assoc split: prod.splits option.splits
        intro!: Option.bind_cong)
qed simp_all

section \<open>Properties\<close>

text \<open>
  (C30) \<open>mi_bitmap_try_find_claim_field\<close> is first fit: run alone it returns, and either takes the lowest sequence of
  \<open>cnt\<close> zero bits of the field, setting exactly these bits, or fails and changes nothing because there is none.
  Under every interference of other threads a successful call makes one change only, an atomic exchange
  that sets the returned bits at a moment when all of them are zero; a call that fails writes nothing.
\<close>

theorem claim_field_first_fit:
  assumes "0 < cnt" "cnt \<le> 64" "idx < length b"
  shows "(\<exists>r t' b'. mi_bitmap_try_find_claim_field solo idx cnt (t, b) = Some (r, (t', b')) \<and> fit_result b idx cnt r b') \<and>
    (\<forall>env r t' b'. mi_bitmap_try_find_claim_field env idx cnt (t, b) = Some (r, (t', b')) \<longrightarrow>
       atomic_result env t b idx cnt r t' b')"
  using claim_field_solo [OF assms] claim_field_atomic [OF _ assms(2)] by blast

theorem claim_field_first_fit_witness:
  "\<exists>r t' b'. mi_bitmap_try_find_claim_field solo 0 2 (0, [0b1011]) = Some (r, (t', b')) \<and> fit_result [0b1011] 0 2 r b'"
  using claim_field_first_fit [of 2 0 "[0b1011]" 0] by simp

text \<open>
  (C36) Bits that were free and are claimed, inside a field or across fields, are given back by the matching
  unclaim: it reports that all of them were set and the bitmap is as before.
\<close>

theorem claim_unclaim_roundtrip:
  assumes "0 < cnt" "i + cnt \<le> 64 * length b"
  shows "(case mi_bitmap_claim_across solo cnt i (t, b) of ((all_zero, _), s) \<Rightarrow>
      all_zero = (bit_range i cnt \<inter> claimed b = {}) \<and>
      (all_zero \<longrightarrow> fst (mi_bitmap_unclaim_across solo cnt i s) \<and> snd (snd (mi_bitmap_unclaim_across solo cnt i s)) = b)) \<and>
    (i mod 64 + cnt \<le> 64 \<longrightarrow>
      mi_bitmap_claim_across solo cnt i (t, b) = mi_bitmap_claim solo cnt i (t, b) \<and>
      mi_bitmap_unclaim_across solo cnt i (t, b) = mi_bitmap_unclaim solo cnt i (t, b))"
proof -
  have v: "in_bitmap (length b) cnt i" using assms by (simp add: in_bitmap_def)
  obtain al an t1 b1 where c: "mi_bitmap_claim_across solo cnt i (t, b) = ((al, an), (t1, b1))" by (metis prod.exhaust)
  obtain a t2 b2 where u: "mi_bitmap_unclaim_across solo cnt i (t1, b1) = (a, (t2, b2))" by (metis prod.exhaust)
  have "al = (bit_range i cnt \<inter> claimed b = {})" using across_bits.claim_law [OF v c] by simp
  moreover have "a \<and> b2 = b" if al using across_bits.claim_unclaim_restores [OF v _ u] c that by simp
  ultimately show ?thesis using c u across_in_field(1,2) [of i cnt solo "(t, b)"] by auto
qed

theorem claim_unclaim_roundtrip_witness:
  "fst (fst (mi_bitmap_claim_across solo 70 3 (0, [7, 0]))) \<and>
   (case mi_bitmap_claim_across solo 70 3 (0, [7, 0]) of (_, s) \<Rightarrow> snd (snd (mi_bitmap_unclaim_across solo 70 3 s)) = [7, 0])"
proof -
  have "bit_range 3 70 \<inter> claimed [7, 0] = {}"
  proof -
    have "\<not> bit (7 :: u64) (k mod 64)" if "3 \<le> k" "k div 64 = 0" for k :: nat
    proof -
      have k: "k mod 64 = k" and m: "(7 :: u64) = mask 3" using that by (simp_all add: mask_eq_exp_minus_1)
      show ?thesis unfolding k m bit_mask_iff using that(1) by simp
    qed
    note nb = this
    have "False" if "3 \<le> k" "k \<in> claimed [7, 0]" for k
    proof -
      have "k div 64 = 0 \<or> k div 64 = 1" "bit ([7, 0 :: u64] ! (k div 64)) (k mod 64)"
        using that(2) unfolding claimed_def by auto
      then show False using nb [OF that(1)] by auto
    qed
    then show ?thesis unfolding bit_range_def by auto
  qed
  then show ?thesis using claim_unclaim_roundtrip [of 70 3 "[7, 0]" 0] by (auto split: prod.splits)
qed

end
