(* ===== verification/Mi_Bitmap_Shared.thy ===== *)
theory Mi_Bitmap_Shared
  imports Mi_Bitmap_Search
begin

text \<open>
  The searches of \<^verbatim>\<open>src/bitmap.c\<close> among other threads that claim and release bits too. A claim across fields sets
  the bits field by field and takes them back when a later field turns out to be in use; what is shown here is that
  no bit of another thread is touched and that no bit is left behind.

  To say whose bits are whose, the list of fields is taken twice as long as the bitmap: field \<open>n + f\<close> is a note of
  the bits of field \<open>f\<close> that the other threads hold. Only the interference writes the notes; the code never
  looks beyond the \<open>n\<close> fields of the bitmap.
\<close>

section \<open>Whose bits\<close>

text \<open>What the others hold is set in the bitmap; the rest of the set bits is held by this thread.\<close>

definition shared :: "nat \<Rightarrow> fields \<Rightarrow> bool" where
  "shared n b \<longleftrightarrow> length b = 2 * n \<and> (\<forall>f < n. b ! (n + f) AND NOT (b ! f) = 0)"

definition own_bits :: "nat \<Rightarrow> fields \<Rightarrow> fields" where
  "own_bits n b = map (\<lambda>f. b ! f AND NOT (b ! (n + f))) [0..<n]"

text \<open>The other threads take free bits and release bits they hold, in any order and at any time.\<close>

definition fair_others :: "nat \<Rightarrow> interference \<Rightarrow> bool" where
  "fair_others n env \<longleftrightarrow> (\<forall>t b. shared n b \<longrightarrow> shared n (env t b) \<and> own_bits n (env t b) = own_bits n b)"

definition owns :: "nat \<Rightarrow> nat set \<Rightarrow> fields \<Rightarrow> bool" where
  "owns n C b \<longleftrightarrow> shared n b \<and> claimed (own_bits n b) = C"

lemma length_own_bits [simp]: "length (own_bits n b) = n"
  by (simp add: own_bits_def)

lemma own_field: "f < n \<Longrightarrow> own_bits n b ! f = b ! f AND NOT (b ! (n + f))"
  by (simp add: own_bits_def)

lemma owns_env: "fair_others n env \<Longrightarrow> owns n C b \<Longrightarrow> owns n C (env t b)"
  by (simp add: fair_others_def owns_def)

lemma owns_env_run: "fair_others n env \<Longrightarrow> owns n C b \<Longrightarrow> owns n C (env_run env t k b)"
  by (induction env t k b rule: env_run.induct) (simp_all add: owns_env)

lemma owns_load: "fair_others n env \<Longrightarrow> owns n C (snd s) \<Longrightarrow> owns n C (snd (snd (mi_atomic_load env f s)))"
  by (cases s) (simp add: atomic_defs owns_env)

text \<open>A write of a field, seen bit by bit.\<close>

lemma own_bits_write:
  assumes "shared n b" "f < n"
  shows "own_bits n (b[f := x]) = (own_bits n b)[f := x AND NOT (b ! (n + f))]"
proof (rule nth_equalityI)
  fix g assume "g < length (own_bits n (b[f := x]))"
  then have g: "g < n" by simp
  have "n + g \<noteq> f" "f < length b" using assms by (simp_all add: shared_def)
  then show "own_bits n (b[f := x]) ! g = (own_bits n b)[f := x AND NOT (b ! (n + f))] ! g"
    using g by (cases "g = f") (simp_all add: own_field)
qed simp

lemma shared_write:
  assumes "shared n b" "f < n" "b ! (n + f) AND NOT x = 0"
  shows "shared n (b[f := x])"
proof -
  have "(b[f := x]) ! (n + g) AND NOT ((b[f := x]) ! g) = 0" if "g < n" for g
  proof -
    have "n + g \<noteq> f" "f < length b" using assms by (simp_all add: shared_def)
    then show ?thesis using assms that by (cases "g = f") (simp_all add: shared_def)
  qed
  then show ?thesis using assms(1) by (simp add: shared_def)
qed

lemma owns_set:
  assumes "owns n C b" "f < n" "k + cnt \<le> 64" "b ! f AND mi_bitmap_mask cnt k = 0"
  shows "owns n (C \<union> bit_range (f * 64 + k) cnt) (b[f := b ! f OR mi_bitmap_mask cnt k])"
    "bit_range (f * 64 + k) cnt \<inter> C = {}"
proof -
  let ?m = "mi_bitmap_mask cnt k" and ?o = "b ! (n + f)"
  have sh: "shared n b" and C: "claimed (own_bits n b) = C" using assms(1) by (simp_all add: owns_def)
  have sub: "?o AND NOT (b ! f) = 0" using sh assms(2) by (simp add: shared_def)
  have bits: "bit ?o i \<Longrightarrow> bit (b ! f) i" "bit (b ! f) i \<Longrightarrow> \<not> bit ?m i" if "i < 64" for i
    using arg_cong [OF sub, of "\<lambda>x. bit x i"] arg_cong [OF assms(4), of "\<lambda>x. bit x i"] that
    by (auto simp: bit_simps)
  have "?o AND NOT (b ! f OR ?m) = 0" using bits by (intro bit_word_eqI) (auto simp: bit_simps)
  then have "shared n (b[f := b ! f OR ?m])" by (rule shared_write [OF sh assms(2)])
  moreover have "(b ! f OR ?m) AND NOT ?o = own_bits n b ! f OR ?m"
    using bits assms(2) by (intro bit_word_eqI) (auto simp: bit_simps own_field)
  then have "own_bits n (b[f := b ! f OR ?m]) = (own_bits n b)[f := own_bits n b ! f OR ?m]"
    unfolding own_bits_write [OF sh assms(2)] by simp
  ultimately show "owns n (C \<union> bit_range (f * 64 + k) cnt) (b[f := b ! f OR ?m])"
    unfolding owns_def using field_set [of f "own_bits n b" k cnt] assms(2,3) C by simp
  have "own_bits n b ! f AND ?m = 0" using bits assms(2) by (intro bit_word_eqI) (auto simp: bit_simps own_field)
  then show "bit_range (f * 64 + k) cnt \<inter> C = {}" using field_none [of f "own_bits n b" k cnt] assms(2,3) C by simp
qed

lemma owns_clear:
  assumes "owns n C b" "f < n" "k + cnt \<le> 64" "bit_range (f * 64 + k) cnt \<subseteq> C"
  shows "owns n (C - bit_range (f * 64 + k) cnt) (b[f := b ! f AND NOT (mi_bitmap_mask cnt k)])"
    "b ! f AND mi_bitmap_mask cnt k = mi_bitmap_mask cnt k"
proof -
  let ?m = "mi_bitmap_mask cnt k" and ?o = "b ! (n + f)"
  have sh: "shared n b" and C: "claimed (own_bits n b) = C" using assms(1) by (simp_all add: owns_def)
  have sub: "?o AND NOT (b ! f) = 0" using sh assms(2) by (simp add: shared_def)
  have own: "own_bits n b ! f AND ?m = ?m" using field_all [of f "own_bits n b" k cnt] assms C by simp
  have bits: "bit ?o i \<Longrightarrow> bit (b ! f) i" "bit ?m i \<Longrightarrow> bit (b ! f) i \<and> \<not> bit ?o i" if "i < 64" for i
    using arg_cong [OF sub, of "\<lambda>x. bit x i"] arg_cong [OF own, of "\<lambda>x. bit x i"] that assms(2)
    by (auto simp: bit_simps own_field)
  have "?o AND NOT (b ! f AND NOT ?m) = 0" using bits by (intro bit_word_eqI) (auto simp: bit_simps)
  then have "shared n (b[f := b ! f AND NOT ?m])" by (rule shared_write [OF sh assms(2)])
  moreover have "(b ! f AND NOT ?m) AND NOT ?o = own_bits n b ! f AND NOT ?m"
    using assms(2) by (intro bit_word_eqI) (auto simp: bit_simps own_field)
  then have "own_bits n (b[f := b ! f AND NOT ?m]) = (own_bits n b)[f := own_bits n b ! f AND NOT ?m]"
    unfolding own_bits_write [OF sh assms(2)] by simp
  ultimately show "owns n (C - bit_range (f * 64 + k) cnt) (b[f := b ! f AND NOT ?m])"
    unfolding owns_def using field_clear [of f "own_bits n b" k cnt] assms(2,3) C by simp
  show "b ! f AND ?m = ?m" using bits by (intro bit_word_eqI) (auto simp: bit_simps)
qed

section \<open>The steps of a claim\<close>

lemma claim_bits_owns:
  assumes "claim_bits_loop env f (mi_bitmap_mask cnt k) x s = Some r"
    and env: "fair_others n env" and f: "f < n" "k + cnt \<le> 64" and own: "owns n C (snd s)"
  shows "if fst r then bit_range (f * 64 + k) cnt \<inter> C = {} \<and> owns n (C \<union> bit_range (f * 64 + k) cnt) (snd (snd r))
    else owns n C (snd (snd r))"
proof -
  have "m = mi_bitmap_mask cnt k \<longrightarrow> e = env \<longrightarrow> g = f \<longrightarrow> owns n C (snd s) \<longrightarrow>
      (if fst r then bit_range (f * 64 + k) cnt \<inter> C = {} \<and> owns n (C \<union> bit_range (f * 64 + k) cnt) (snd (snd r))
       else owns n C (snd (snd r)))"
    if "claim_bits_loop e g m x s = Some r" for e g m
    using that
  proof (induction rule: claim_bits_loop.raw_induct [rotated, consumes 1])
    case (1 loop e g m x s r)
    show ?case
    proof (intro impI)
      assume m: "m = mi_bitmap_mask cnt k" and e: "e = env" "g = f" and o: "owns n C (snd s)"
      obtain t b where s: "s = (t, b)" by fastforce
      have ob: "owns n C (env t b)" using owns_env [OF env] o s by simp
      show "if fst r then bit_range (f * 64 + k) cnt \<inter> C = {} \<and> owns n (C \<union> bit_range (f * 64 + k) cnt) (snd (snd r))
          else owns n C (snd (snd r))"
      proof (cases "x AND m = 0")
        case False
        then show ?thesis using 1(2) o by auto
      next
        case free: True
        show ?thesis
        proof (cases "env t b ! f = x")
          case True
          then have "r = (True, (Suc t, (env t b)[f := env t b ! f OR mi_bitmap_mask cnt k]))"
            using 1(2) s free m e by (simp add: atomic_defs Let_def)
          then show ?thesis using owns_set [OF ob f] free True m by simp
        next
          case False
          then have "loop e g m (env t b ! f) (Suc t, env t b) = Some r"
            using 1(2) s free e by (simp add: atomic_defs Let_def)
          from 1(1) [OF this] show ?thesis using m e ob by simp
        qed
      qed
    qed
  qed
  then show ?thesis using assms(1) own by blast
qed

lemma full_mask: "MI_BITMAP_FIELD_FULL = mi_bitmap_mask 64 0" "NOT (mi_bitmap_mask 64 0) = 0"
  "x AND mi_bitmap_mask 64 0 = x"
  by (simp_all add: mi_bitmap_mask_def bits_64 MI_BITMAP_FIELD_FULL_def)

text \<open>The intermediate fields: those before the field where the loop stopped are claimed.\<close>

lemma claim_mid_owns:
  assumes "claim_mid env fin f s = (ok, g, s')" "fair_others n env" "f < fin" "fin < n" "owns n C (snd s)"
  shows "\<exists>j. g = f + 1 + j \<and> g \<le> fin \<and> (ok \<longrightarrow> g = fin) \<and> bit_range ((f + 1) * 64) (j * 64) \<inter> C = {} \<and>
    owns n (C \<union> bit_range ((f + 1) * 64) (j * 64)) (snd s')"
  using assms
proof (induction "fin - f" arbitrary: f s C)
  case 0
  then show ?case by simp
next
  case (Suc d)
  obtain t b where s: "s = (t, b)" by fastforce
  have ob: "owns n C (env t b)" using owns_env [OF Suc.prems(2)] Suc.prems(5) s by simp
  show ?case
  proof (cases "f + 1 = fin")
    case True
    then have "ok = True \<and> g = f + 1 \<and> s' = s" using Suc.prems(1) by (subst (asm) claim_mid.simps) (simp add: Let_def)
    then show ?thesis using Suc.prems True by (intro exI [of _ 0]) simp
  next
    case inner: False
    then have lt: "f + 1 < fin" using Suc.prems(3) by simp
    show ?thesis
    proof (cases "env t b ! (f + 1) = 0")
      case False
      then have "ok = False \<and> g = f + 1 \<and> s' = (Suc t, env t b)"
        using Suc.prems(1) lt s by (subst (asm) claim_mid.simps) (auto simp: Let_def atomic_defs)
      then show ?thesis using ob lt by (intro exI [of _ 0]) simp
    next
      case True
      let ?b = "(env t b)[f + 1 := MI_BITMAP_FIELD_FULL]"
      have run: "claim_mid env fin (f + 1) (Suc t, ?b) = (ok, g, s')"
        using Suc.prems(1) lt s True by (subst (asm) claim_mid.simps) (simp add: Let_def atomic_defs)
      have f: "f + 1 < n" "0 + 64 \<le> (64 :: nat)" using lt Suc.prems(4) by simp_all
      have set: "owns n (C \<union> bit_range ((f + 1) * 64 + 0) 64) ?b" "bit_range ((f + 1) * 64 + 0) 64 \<inter> C = {}"
        using owns_set [OF ob f] True by (simp_all add: full_mask(1))
      have "d = fin - (f + 1)" using Suc.hyps(2) by simp
      from Suc.hyps(1) [OF this run Suc.prems(2) lt Suc.prems(4), unfolded snd_conv, OF set(1)]
      obtain j where j: "g = f + 1 + 1 + j" "g \<le> fin" "ok \<longrightarrow> g = fin"
        "bit_range ((f + 1 + 1) * 64) (j * 64) \<inter> (C \<union> bit_range ((f + 1) * 64 + 0) 64) = {}"
        "owns n (C \<union> bit_range ((f + 1) * 64 + 0) 64 \<union> bit_range ((f + 1 + 1) * 64) (j * 64)) (snd s')" by blast
      have "g = f + 1 + Suc j" using j(1) by simp
      moreover have "bit_range ((f + 1) * 64) (Suc j * 64) \<inter> C = {}" unfolding range_Suc using set(2) j(4) by blast
      moreover have "owns n (C \<union> bit_range ((f + 1) * 64) (Suc j * 64)) (snd s')" unfolding range_Suc using j(5) by (simp only: Un_assoc)
      ultimately show ?thesis using j(2,3) by blast
    qed
  qed
qed

text \<open>The rollback gives back exactly what was claimed.\<close>

lemma rollback_mid_owns:
  assumes "fair_others n env" "f + 1 + j \<le> n" "owns n C (snd s)" "bit_range ((f + 1) * 64) (j * 64) \<subseteq> C"
  shows "owns n (C - bit_range ((f + 1) * 64) (j * 64)) (snd (rollback_mid env f (f + 1 + j) s))"
  using assms(2-)
proof (induction j arbitrary: C s)
  case 0
  then show ?case by (subst rollback_mid.simps) simp
next
  case (Suc j)
  obtain t b where s: "s = (t, b)" by fastforce
  have ob: "owns n C (env t b)" using owns_env [OF assms(1)] Suc.prems(2) s by simp
  have f: "f + 1 + j < n" "0 + 64 \<le> (64 :: nat)" using Suc.prems(1) by simp_all
  let ?R = "bit_range ((f + 1 + j) * 64 + 0) 64" and ?b = "(env t b)[f + 1 + j := 0]"
  have sp: "bit_range ((f + 1) * 64) (Suc j * 64) = bit_range ((f + 1) * 64) (j * 64) \<union> ?R"
    "bit_range ((f + 1) * 64) (j * 64) \<inter> ?R = {}" by (auto simp: bit_range_def)
  have "owns n (C - ?R) ?b" using owns_clear(1) [OF ob f] Suc.prems(3) unfolding sp by (simp add: full_mask)
  then have "owns n (C - ?R - bit_range ((f + 1) * 64) (j * 64)) (snd (rollback_mid env f (f + 1 + j) (Suc t, ?b)))"
    using Suc.IH [of "C - ?R" "(Suc t, ?b)"] Suc.prems(1,3) sp by auto
  moreover have "rollback_mid env f (f + 1 + Suc j) s = rollback_mid env f (f + 1 + j) (Suc t, ?b)"
    using s by (subst rollback_mid.simps) (simp add: atomic_defs Let_def)
  moreover have "C - ?R - bit_range ((f + 1) * 64) (j * 64) = C - bit_range ((f + 1) * 64) (Suc j * 64)" unfolding sp by blast
  ultimately show ?case by metis
qed

lemma rollback_initial_owns:
  assumes "rollback_initial env f (mi_bitmap_mask cnt k) x s = Some s'"
    and env: "fair_others n env" and f: "f < n" "k + cnt \<le> 64"
    and own: "owns n C (snd s)" and sub: "bit_range (f * 64 + k) cnt \<subseteq> C"
  shows "owns n (C - bit_range (f * 64 + k) cnt) (snd s')"
proof -
  have "m = mi_bitmap_mask cnt k \<longrightarrow> e = env \<longrightarrow> g = f \<longrightarrow> owns n C (snd s) \<longrightarrow>
      owns n (C - bit_range (f * 64 + k) cnt) (snd s')"
    if "rollback_initial e g m x s = Some s'" for e g m
    using that
  proof (induction rule: rollback_initial.raw_induct [rotated, consumes 1])
    case (1 loop e g m x s s')
    show ?case
    proof (intro impI)
      assume m: "m = mi_bitmap_mask cnt k" and e: "e = env" "g = f" and o: "owns n C (snd s)"
      obtain t b where s: "s = (t, b)" by fastforce
      have ob: "owns n C (env t b)" using owns_env [OF env] o s by simp
      show "owns n (C - bit_range (f * 64 + k) cnt) (snd s')"
      proof (cases "env t b ! f = x")
        case True
        then have "s' = (Suc t, (env t b)[f := env t b ! f AND NOT (mi_bitmap_mask cnt k)])"
          using 1(2) s m e by (simp add: atomic_defs Let_def)
        then show ?thesis using owns_clear(1) [OF ob f sub] by simp
      next
        case False
        then have "loop e g m (env t b ! f) (Suc t, env t b) = Some s'" using 1(2) s e by (simp add: atomic_defs Let_def)
        from 1(1) [OF this] show ?thesis using m e ob by simp
      qed
    qed
  qed
  then show ?thesis using assms(1) own by blast
qed

text \<open>A claim of a range succeeds with all of it, or stops at a field with what came before it.\<close>

lemma claim_range_owns:
  assumes run: "claim_range env f (mi_bitmap_mask k (64 - k)) (f + 1 + m) (mi_bitmap_mask l 0) s = Some (failed, s')"
    and env: "fair_others n env" and k: "0 < k" "k \<le> 64" and l: "l \<le> 64" and n: "f + 1 + m < n" and own: "owns n C (snd s)"
  defines "A \<equiv> bit_range (f * 64 + (64 - k)) k"
  shows "case failed of
      None \<Rightarrow> bit_range (f * 64 + (64 - k)) (k + m * 64 + l) \<inter> C = {} \<and>
        owns n (C \<union> bit_range (f * 64 + (64 - k)) (k + m * 64 + l)) (snd s')
    | Some g \<Rightarrow> g = f \<and> owns n C (snd s') \<or>
        (\<exists>j. g = f + 1 + j \<and> g < n \<and> (A \<union> bit_range ((f + 1) * 64) (j * 64)) \<inter> C = {} \<and>
          owns n (C \<union> A \<union> bit_range ((f + 1) * 64) (j * 64)) (snd s'))"
proof -
  have f: "f < n" "64 - k + k \<le> 64" using n k by simp_all
  obtain x s1 where l1: "mi_atomic_load env f s = (x, s1)" by (meson surj_pair)
  have o1: "owns n C (snd s1)" using owns_load [OF env own, of f] l1 by simp
  obtain ok s2 where c1: "claim_bits_loop env f (mi_bitmap_mask k (64 - k)) x s1 = Some (ok, s2)"
    using run l1 by (cases "claim_bits_loop env f (mi_bitmap_mask k (64 - k)) x s1") (auto simp: claim_range_def)
  note b1 = claim_bits_owns [OF c1 env f o1, folded A_def]
  show ?thesis
  proof (cases ok)
    case False
    then show ?thesis using run l1 c1 b1 by (auto simp: claim_range_def)
  next
    case True
    then have b1: "A \<inter> C = {}" "owns n (C \<union> A) (snd s2)" using b1 by simp_all
    obtain ok2 g s3 where c2: "claim_mid env (f + 1 + m) f s2 = (ok2, g, s3)" by (metis prod.exhaust)
    obtain j where j: "g = f + 1 + j" "g \<le> f + 1 + m" "ok2 \<longrightarrow> g = f + 1 + m"
      "bit_range ((f + 1) * 64) (j * 64) \<inter> (C \<union> A) = {}" "owns n (C \<union> A \<union> bit_range ((f + 1) * 64) (j * 64)) (snd s3)"
      using claim_mid_owns [OF c2 env _ n b1(2)] by auto
    show ?thesis
    proof (cases ok2)
      case False
      then have "failed = Some g" "s' = s3" using run l1 c1 c2 \<open>ok\<close> by (auto simp: claim_range_def)
      moreover have "(A \<union> bit_range ((f + 1) * 64) (j * 64)) \<inter> C = {}" using b1(1) j(4) by blast
      ultimately show ?thesis using j n by auto
    next
      case ok2: True
      then have jm: "j = m" using j by simp
      obtain y s4 where l2: "mi_atomic_load env g s3 = (y, s4)" by (meson surj_pair)
      have o4: "owns n (C \<union> A \<union> bit_range ((f + 1) * 64) (j * 64)) (snd s4)" using owns_load [OF env j(5), of g] l2 by simp
      obtain ok3 s5 where c3: "claim_bits_loop env g (mi_bitmap_mask l 0) y s4 = Some (ok3, s5)"
        using run l1 c1 c2 l2 \<open>ok\<close> ok2 by (cases "claim_bits_loop env g (mi_bitmap_mask l 0) y s4") (auto simp: claim_range_def)
      have res: "failed = (if ok3 then None else Some g)" "s' = s5"
        using run l1 c1 c2 l2 c3 \<open>ok\<close> ok2 by (auto simp: claim_range_def split: if_splits)
      have g: "g < n" "0 + l \<le> 64" using j(2) n l by simp_all
      note b3 = claim_bits_owns [OF c3 env g o4]
      have sp: "bit_range (f * 64 + (64 - k)) (k + m * 64 + l) = A \<union> bit_range ((f + 1) * 64) (m * 64) \<union> bit_range (g * 64 + 0) l"
        using k j(1) jm by (auto simp: A_def bit_range_def)
      show ?thesis
      proof (cases ok3)
        case True
        then have "bit_range (f * 64 + (64 - k)) (k + m * 64 + l) \<inter> C = {}"
          "owns n (C \<union> bit_range (f * 64 + (64 - k)) (k + m * 64 + l)) (snd s')"
          using b3 b1(1) j(4) jm res(2) unfolding sp by (auto simp: Un_assoc)
        then show ?thesis using True res(1) by simp
      next
        case False
        moreover have "(A \<union> bit_range ((f + 1) * 64) (j * 64)) \<inter> C = {}" using b1(1) j(4) by blast
        ultimately show ?thesis using b3 res j g(1) by auto
      qed
    qed
  qed
qed

lemma rollback_claim_owns:
  assumes run: "rollback_claim env f (mi_bitmap_mask k (64 - k)) g s = Some s'" and env: "fair_others n env"
    and k: "0 < k" "k \<le> 64" "f < n"
  shows "g = f \<Longrightarrow> owns n C (snd s) \<Longrightarrow> owns n C (snd s')"
    "g = f + 1 + j \<Longrightarrow> g < n \<Longrightarrow>
      (bit_range (f * 64 + (64 - k)) k \<union> bit_range ((f + 1) * 64) (j * 64)) \<inter> C = {} \<Longrightarrow>
      owns n (C \<union> bit_range (f * 64 + (64 - k)) k \<union> bit_range ((f + 1) * 64) (j * 64)) (snd s) \<Longrightarrow> owns n C (snd s')"
proof -
  assume g: "g = f" and own: "owns n C (snd s)"
  then have "s' = s" using run by (simp add: rollback_claim_def rollback_mid.simps)
  then show "owns n C (snd s')" using own by simp
next
  let ?A = "bit_range (f * 64 + (64 - k)) k" and ?B = "bit_range ((f + 1) * 64) (j * 64)"
  assume g: "g = f + 1 + j" "g < n" and d: "(?A \<union> ?B) \<inter> C = {}" and own: "owns n (C \<union> ?A \<union> ?B) (snd s)"
  have ab: "?A \<inter> ?B = {}" using k by (auto simp: bit_range_def)
  let ?s1 = "rollback_mid env f g s"
  have "owns n (C \<union> ?A \<union> ?B - ?B) (snd ?s1)"
    unfolding g(1) by (rule rollback_mid_owns [OF env _ own]) (use g in auto)
  moreover have "C \<union> ?A \<union> ?B - ?B = C \<union> ?A" using d ab by blast
  ultimately have o1: "owns n (C \<union> ?A) (snd ?s1)" by simp
  obtain x s2 where l: "mi_atomic_load env f ?s1 = (x, s2)" by (meson surj_pair)
  have o2: "owns n (C \<union> ?A) (snd s2)" using owns_load [OF env o1, of f] l by simp
  have ri: "rollback_initial env f (mi_bitmap_mask k (64 - k)) x s2 = Some s'"
    using run l g(1) by (simp add: rollback_claim_def)
  have "owns n (C \<union> ?A - ?A) (snd s')" by (rule rollback_initial_owns [OF ri env k(3) _ o2]) (use k in auto)
  moreover have "C \<union> ?A - ?A = C" using d by blast
  ultimately show "owns n C (snd s')" by simp
qed

section \<open>The searches\<close>

text \<open>Success adds a sequence that was free, failure leaves this thread with what it had.\<close>

definition search_among :: "nat \<Rightarrow> nat set \<Rightarrow> nat \<Rightarrow> nat option \<Rightarrow> fields \<Rightarrow> bool" where
  "search_among n C cnt r b \<longleftrightarrow>
     (case r of
        None \<Rightarrow> owns n C b
      | Some i \<Rightarrow> i + cnt \<le> 64 * n \<and> bit_range i cnt \<inter> C = {} \<and> owns n (C \<union> bit_range i cnt) b)"

lemma claim_field_among:
  assumes "mi_bitmap_try_find_claim_field env f cnt s = Some (r, s')" "fair_others n env" "cnt \<le> 64" "f < n" "owns n C (snd s)"
  shows "search_among n C cnt r (snd s')"
proof -
  obtain t b t' b' where s: "s = (t, b)" "s' = (t', b')" by fastforce
  define c where "c = env_run env t (t' - t) b"
  have a: "case r of None \<Rightarrow> b' = c
      | Some i \<Rightarrow> \<exists>p. i = mi_bitmap_index_create f p \<and> p + cnt \<le> 64 \<and> field_free (c ! f) p cnt \<and>
          b' = c[f := c ! f OR mi_bitmap_mask cnt p]"
    using claim_field_atomic [of env f cnt t b r t' b'] assms(1,3) s unfolding atomic_result_def c_def Let_def by simp
  have o: "owns n C c" unfolding c_def using owns_env_run [OF assms(2)] assms(5) s by simp
  show ?thesis
  proof (cases r)
    case None
    then show ?thesis using a o s by (simp add: search_among_def)
  next
    case (Some i)
    then obtain p where p: "i = f * 64 + p" "p + cnt \<le> 64" "field_free (c ! f) p cnt" "b' = c[f := c ! f OR mi_bitmap_mask cnt p]"
      using a by (auto simp: mi_bitmap_index_create_def bits_64)
    then have "c ! f AND mi_bitmap_mask cnt p = 0" using field_free_mask by simp
    note w = owns_set [OF o assms(4) p(2) this]
    have "i + cnt \<le> 64 * n" using p(1,2) assms(4) by simp
    then show ?thesis using Some w p(1,4) s by (simp add: search_among_def)
  qed
qed

lemma scan_ahead_among:
  assumes "scan_ahead env cnt found f m s = (r, s')" "fair_others n env" "owns n C (snd s)"
    "cnt = found + (k * 64 + l)" "0 < l" "l \<le> 64"
  shows "owns n C (snd s') \<and> (r = None \<or> r = Some (f + 1 + k, mi_bitmap_mask l 0))"
  using assms
proof (induction k arbitrary: found f m s)
  case 0
  obtain x s1 where ld: "mi_atomic_load env (f + 1) s = (x, s1)" by (meson surj_pair)
  have o: "owns n C (snd s1)" using owns_load [OF "0.prems"(2,3), of "f + 1"] ld by simp
  have mb: "(if found + 64 \<le> cnt then 64 else cnt - found) = l" using "0.prems" by auto
  have e: "scan_ahead env cnt (found + l) (f + 1) (mi_bitmap_mask l 0) s1 = (Some (f + 1, mi_bitmap_mask l 0), s1)"
    by (subst scan_ahead.simps) (simp add: "0.prems"(4))
  have "scan_ahead env cnt found f m s = (if x AND mi_bitmap_mask l 0 \<noteq> 0 then (None, s1)
      else scan_ahead env cnt (found + l) (f + 1) (mi_bitmap_mask l 0) s1)"
    using "0.prems"(4-6) ld by (cases "l = 64"; subst scan_ahead.simps; simp add: bits_64 Let_def)
  then show ?case using "0.prems"(1) o e by (auto split: if_splits)
next
  case (Suc k)
  obtain x s1 where ld: "mi_atomic_load env (f + 1) s = (x, s1)" by (meson surj_pair)
  have o: "owns n C (snd s1)" using owns_load [OF Suc.prems(2,3), of "f + 1"] ld by simp
  have mb: "(if found + 64 \<le> cnt then 64 else cnt - found) = 64" using Suc.prems by auto
  have st: "scan_ahead env cnt found f m s = (if x AND mi_bitmap_mask 64 0 \<noteq> 0 then (None, s1)
      else scan_ahead env cnt (found + 64) (f + 1) (mi_bitmap_mask 64 0) s1)"
    using Suc.prems(4) ld mb by (subst scan_ahead.simps) (simp add: bits_64 Let_def)
  show ?case
  proof (cases "x AND mi_bitmap_mask 64 0 = 0")
    case True
    then have "scan_ahead env cnt (found + 64) (f + 1) (mi_bitmap_mask 64 0) s1 = (r, s')" using st Suc.prems(1) by simp
    from Suc.IH [OF this Suc.prems(2) o] Suc.prems(4-6) show ?thesis by simp
  next
    case False
    then show ?thesis using st Suc.prems(1) o by simp
  qed
qed

lemma claim_across_among:
  assumes "mi_bitmap_try_find_claim_field_across env n f cnt retries s = Some (r, s')"
    and env: "fair_others n env" and f: "f < n" and c: "0 < cnt" "cnt < 2 ^ 63" and own: "owns n C (snd s)"
  shows "search_among n C cnt r (snd s')"
  using assms(1) own
proof (induction "3 - retries" arbitrary: retries s rule: less_induct)
  case less
  obtain x s1 where ld: "mi_atomic_load env f s = (x, s1)" by (meson surj_pair)
  have o1: "owns n C (snd s1)" using owns_load [OF env less.prems(2), of f] ld by simp
  let ?k = "mi_clz x"
  have k64: "?k \<le> 64" by (rule top_zeros(1))
  note st = less.prems(1) [unfolded mi_bitmap_try_find_claim_field_across.simps [of env n f cnt retries s] ld Let_def split bits_64]
  have dv: "unat (mi_divide_up (word_of_nat (cnt - ?k)) (word_of_nat 64)) = (cnt - ?k + 63) div 64"
    using divide_up_64 [of "cnt - ?k"] c(2) by (simp add: bits_64)
  consider "?k = 0" | "0 < ?k" "cnt \<le> ?k" | "0 < ?k" "?k < cnt" by linarith
  then show ?case
  proof cases
    case 1
    then show ?thesis using st o1 by (auto simp: search_among_def)
  next
    case 2
    then show ?thesis using st claim_field_among [OF _ env _ f o1] k64 by auto
  next
    case 3
    define m l where "m = (cnt - ?k - 1) div 64" and "l = (cnt - ?k - 1) mod 64 + 1"
    have nl: "cnt = ?k + (m * 64 + l)" "0 < l" "l \<le> 64" using 3 div_mod_64 [of "cnt - ?k - 1"] by (auto simp: m_def l_def)
    have d: "(cnt - ?k + 63) div 64 = m + 1" using nl by simp
    show ?thesis
    proof (cases "n - f \<le> m + 1")
      case True
      then show ?thesis using st 3 dv d o1 by (auto simp: search_among_def)
    next
      case False
      then have fm: "f + 1 + m < n" by simp
      obtain sr s2 where sc: "scan_ahead env cnt ?k f 0 s1 = (sr, s2)" by (meson surj_pair)
      note sa = scan_ahead_among [OF sc env o1 nl]
      show ?thesis
      proof (cases sr)
        case None
        then show ?thesis using st 3 dv d False sc sa by (auto simp: search_among_def)
      next
        case (Some q)
        then have sr: "sr = Some (f + 1 + m, mi_bitmap_mask l 0)" and o2: "owns n C (snd s2)" using sa by auto
        have st': "Option.bind (claim_range env f (mi_bitmap_mask ?k (64 - ?k)) (f + 1 + m) (mi_bitmap_mask l 0) s2)
            (\<lambda>(failed, s). case failed of
                None \<Rightarrow> Some (Some (mi_bitmap_index_create f (64 - ?k)), s)
              | Some field \<Rightarrow> Option.bind (rollback_claim env f (mi_bitmap_mask ?k (64 - ?k)) field s)
                  (\<lambda>s. if retries \<le> 2 then mi_bitmap_try_find_claim_field_across env n f cnt (retries + 1) s
                     else Some (None, s))) = Some (r, s')"
          using st 3 dv d False sc sr by (simp add: Let_def)
        then obtain failed s3 where cr: "claim_range env f (mi_bitmap_mask ?k (64 - ?k)) (f + 1 + m) (mi_bitmap_mask l 0) s2 = Some (failed, s3)"
          by (auto simp: bind_eq_Some_conv)
        note co = claim_range_owns [OF cr env 3(1) k64 nl(3) fm o2]
        show ?thesis
        proof (cases failed)
          case None
          then have "r = Some (f * 64 + (64 - ?k))" "s' = s3" using st' cr by (auto simp: mi_bitmap_index_create_def bits_64)
          moreover have "f * 64 + (64 - ?k) + cnt \<le> 64 * n" using fm nl 3 k64 by linarith
          ultimately show ?thesis using co None nl(1) by (simp add: search_among_def add.assoc)
        next
          case (Some g)
          then obtain s4 where rb: "rollback_claim env f (mi_bitmap_mask ?k (64 - ?k)) g s3 = Some s4"
            and go: "(if retries \<le> 2 then mi_bitmap_try_find_claim_field_across env n f cnt (retries + 1) s4 else Some (None, s4)) = Some (r, s')"
            using st' cr by (auto simp: bind_eq_Some_conv)
          note rc = rollback_claim_owns [OF rb env 3(1) k64 f]
          have o4: "owns n C (snd s4)" using co Some rc(1) rc(2) by fastforce
          show ?thesis
          proof (cases "retries \<le> 2")
            case True
            then have "3 - (retries + 1) < 3 - retries" by simp
            from less.hyps [OF this _ o4] go True show ?thesis by simp
          next
            case False
            then show ?thesis using go o4 by (simp add: search_among_def)
          qed
        qed
      qed
    qed
  qed
qed

lemma find_from_among:
  assumes "find_from_loop env n cnt idx left s = Some (r, s')" "fair_others n env" "cnt \<le> 64" "0 < n" "owns n C (snd s)"
  shows "search_among n C cnt r (snd s')"
  using assms
proof (induction left arbitrary: idx s)
  case 0
  then show ?case by (auto simp: search_among_def)
next
  case (Suc left)
  define f where "f = (if n \<le> idx then 0 else idx)"
  have f: "f < n" using Suc.prems(4) by (simp add: f_def)
  obtain r1 s1 where a: "mi_bitmap_try_find_claim_field env f cnt s = Some (r1, s1)"
    "(if r1 \<noteq> None then Some (r1, s1) else find_from_loop env n cnt (f + 1) left s1) = Some (r, s')"
    using Suc.prems(1) unfolding find_from_loop.simps Let_def f_def [symmetric] by (auto simp: bind_eq_Some_conv)
  note o = claim_field_among [OF a(1) Suc.prems(2,3) f Suc.prems(5)]
  show ?case
  proof (cases r1)
    case None
    then have "owns n C (snd s1)" using o by (simp add: search_among_def)
    from Suc.IH [OF _ Suc.prems(2-4) this] a(2) None show ?thesis by simp
  next
    case (Some i)
    then show ?thesis using a(2) o by simp
  qed
qed

lemma find_across_among:
  assumes "find_from_across_loop env n cnt idx left s = Some (r, s')" "fair_others n env" "0 < cnt" "cnt < 2 ^ 63" "0 < n"
    "owns n C (snd s)"
  shows "search_among n C cnt r (snd s')"
  using assms
proof (induction left arbitrary: idx s)
  case 0
  then show ?case by (auto simp: search_among_def)
next
  case (Suc left)
  define f where "f = (if n \<le> idx then 0 else idx)"
  have f: "f < n" using Suc.prems(5) by (simp add: f_def)
  obtain r1 s1 where a: "(if cnt \<le> 64 then mi_bitmap_try_find_claim_field env f cnt s else Some (None, s)) = Some (r1, s1)"
    "(if r1 \<noteq> None then Some (r1, s1) else Option.bind (mi_bitmap_try_find_claim_field_across env n f cnt 0 s1)
        (\<lambda>(r, s). if r \<noteq> None then Some (r, s) else find_from_across_loop env n cnt (f + 1) left s)) = Some (r, s')"
    using Suc.prems(1) unfolding find_from_across_loop.simps Let_def f_def [symmetric] bits_64 by (auto simp: bind_eq_Some_conv)
  have o: "search_among n C cnt r1 (snd s1)"
  proof (cases "cnt \<le> 64")
    case True
    then show ?thesis using a(1) claim_field_among [OF _ Suc.prems(2) True f Suc.prems(6)] by simp
  next
    case False
    then show ?thesis using a(1) Suc.prems(6) by (auto simp: search_among_def)
  qed
  show ?case
  proof (cases r1)
    case None
    then have o1: "owns n C (snd s1)" using o by (simp add: search_among_def)
    obtain r2 s2 where b: "mi_bitmap_try_find_claim_field_across env n f cnt 0 s1 = Some (r2, s2)"
      "(if r2 \<noteq> None then Some (r2, s2) else find_from_across_loop env n cnt (f + 1) left s2) = Some (r, s')"
      using a(2) None by (auto simp: bind_eq_Some_conv)
    note o2 = claim_across_among [OF b(1) Suc.prems(2) f Suc.prems(3,4) o1]
    show ?thesis
    proof (cases r2)
      case None
      then have "owns n C (snd s2)" using o2 by (simp add: search_among_def)
      from Suc.IH [OF _ Suc.prems(2-5) this] b(2) None show ?thesis by simp
    next
      case (Some i)
      then show ?thesis using b(2) o2 by simp
    qed
  next
    case (Some i)
    then show ?thesis using a(2) o by simp
  qed
qed

lemma across_among:
  assumes "mi_bitmap_try_find_from_claim_across env n start cnt s = Some (r, s')" "fair_others n env" "0 < cnt" "cnt < 2 ^ 63" "0 < n"
    "owns n C (snd s)"
  shows "search_among n C cnt r (snd s')"
proof (cases "cnt \<le> 2")
  case True
  then show ?thesis using assms find_from_among [OF _ assms(2) _ assms(5,6)]
    by (simp add: mi_bitmap_try_find_from_claim_across_def mi_bitmap_try_find_from_claim_def)
next
  case False
  then show ?thesis using assms find_across_among [OF _ assms(2-6)] by (simp add: mi_bitmap_try_find_from_claim_across_def)
qed

section \<open>Property\<close>

lemma claim_across_alone:
  assumes "0 < cnt" "cnt < 2 ^ 63" "0 < length b"
  shows "\<exists>r t' b'. mi_bitmap_try_find_from_claim_across solo (length b) start cnt (t, b) = Some (r, (t', b')) \<and>
    (case r of
       Some i \<Rightarrow> takes b cnt i b'
     | None \<Rightarrow> b' = b \<and> (\<forall>i. i + cnt \<le> 64 * length b \<longrightarrow> 2 < cnt \<or> i mod 64 + cnt \<le> 64 \<longrightarrow>
         bit_range i cnt \<inter> claimed b \<noteq> {}))"
proof (cases "cnt \<le> 2")
  case True
  obtain r t' b' where r: "find_from_loop solo (length b) cnt start (length b) (t, b) = Some (r, (t', b'))"
    "search_result (\<exists>f < length b. fits_in b cnt f) b cnt r b'"
    using in_fields.search_all [of cnt b start t] assms True by auto
  have "(\<forall>i. i + cnt \<le> 64 * length b \<longrightarrow> 2 < cnt \<or> i mod 64 + cnt \<le> 64 \<longrightarrow> bit_range i cnt \<inter> claimed b \<noteq> {})"
    if "\<not> (\<exists>f < length b. fits_in b cnt f)"
  proof (intro allI impI)
    fix i assume i: "i + cnt \<le> 64 * length b" "2 < cnt \<or> i mod 64 + cnt \<le> 64"
    then have "i div 64 < length b" using assms(1) by (simp add: div_less_iff_less_mult)
    then show "bit_range i cnt \<inter> claimed b \<noteq> {}" using that i(2) True unfolding fits_in_def by auto
  qed
  then show ?thesis using r True
    by (auto simp: mi_bitmap_try_find_from_claim_across_def mi_bitmap_try_find_from_claim_def search_result_def split: option.splits)
next
  case False
  obtain r t' b' where r: "find_from_across_loop solo (length b) cnt start (length b) (t, b) = Some (r, (t', b'))"
    "search_result (\<exists>f < length b. starts_in b cnt f) b cnt r b'"
    using across_fields.search_all [of cnt b start t] assms by auto
  have "bit_range i cnt \<inter> claimed b \<noteq> {}" if "\<not> (\<exists>f < length b. starts_in b cnt f)" "i + cnt \<le> 64 * length b" for i
  proof -
    have "i div 64 < length b" using assms(1) that(2) by (simp add: div_less_iff_less_mult)
    then show ?thesis using that unfolding starts_in_def by auto
  qed
  then show ?thesis using r False
    by (auto simp: mi_bitmap_try_find_from_claim_across_def search_result_def split: option.splits)
qed

text \<open>
  (C31) \<open>mi_bitmap_try_find_from_claim_across\<close> run alone returns: a result is a free sequence inside the bitmap whose
  bits, and no others, are set now; if it fails the bitmap is unchanged and has no free sequence of \<open>cnt\<close> bits,
  whatever fields it would cross (for \<open>cnt \<le> 2\<close>, where the code looks inside fields only, none that lies in one
  field). Among other threads that take free bits and release their own at any moment, a call that returns has
  left the others' bits alone, and the bits of this thread are those it had and, on success, the sequence found, none of which it had:
  a claim that failed half-way, any number of times, has been taken back completely.
\<close>

theorem claim_across_complete:
  assumes "0 < cnt" "cnt < 2 ^ 63" "0 < length b"
  shows "(\<exists>r t' b'. mi_bitmap_try_find_from_claim_across solo (length b) start cnt (t, b) = Some (r, (t', b')) \<and>
    (case r of
       Some i \<Rightarrow> takes b cnt i b'
     | None \<Rightarrow> b' = b \<and> (\<forall>i. i + cnt \<le> 64 * length b \<longrightarrow> 2 < cnt \<or> i mod 64 + cnt \<le> 64 \<longrightarrow>
         bit_range i cnt \<inter> claimed b \<noteq> {}))) \<and>
    (\<forall>env s r s'. fair_others (length b) env \<longrightarrow> shared (length b) (snd s) \<longrightarrow>
       mi_bitmap_try_find_from_claim_across env (length b) start cnt s = Some (r, s') \<longrightarrow>
       shared (length b) (snd s') \<and>
       (case r of
          Some i \<Rightarrow> takes (own_bits (length b) (snd s)) cnt i (own_bits (length b) (snd s'))
        | None \<Rightarrow> own_bits (length b) (snd s') = own_bits (length b) (snd s)))"
proof (intro conjI allI impI claim_across_alone [OF assms])
  fix env s r s'
  let ?n = "length b"
  assume env: "fair_others ?n env" and sh: "shared ?n (snd s)"
    and run: "mi_bitmap_try_find_from_claim_across env ?n start cnt s = Some (r, s')"
  have "owns ?n (claimed (own_bits ?n (snd s))) (snd s)" using sh by (simp add: owns_def)
  from across_among [OF run env assms this]
  have a: "search_among ?n (claimed (own_bits ?n (snd s))) cnt r (snd s')" .
  then show "shared ?n (snd s')" by (auto simp: search_among_def owns_def split: option.splits)
  show "case r of Some i \<Rightarrow> takes (own_bits ?n (snd s)) cnt i (own_bits ?n (snd s'))
    | None \<Rightarrow> own_bits ?n (snd s') = own_bits ?n (snd s)"
    using a by (auto simp: search_among_def owns_def takes_def intro: claimed_eqI split: option.splits)
qed

text \<open>A rival that takes a bit of the second field between the scan and the claim, so that the claim is rolled back.\<close>

definition rival :: interference where
  "rival t b = (if t = 4 \<and> b ! 1 = 0 then b[1 := 1, 3 := 1] else b)"

declare claim_bits_loop.simps [code] claim_field_loop.simps [code] rollback_initial.simps [code]

lemma rival_run: "mi_bitmap_try_find_from_claim_across rival 2 0 70 (0, [0, 0, 0, 0]) = Some (None, (10, [0, 1, 0, 1]))"
  by code_simp

lemma rival_fair: "fair_others 2 rival" "shared 2 [0, 0, 0, 0]"
proof -
  have f: "f < 2 \<longleftrightarrow> f = 0 \<or> f = 1" for f :: nat by auto
  show "fair_others 2 rival" unfolding fair_others_def
  proof (intro allI impI)
    fix t :: nat and b :: fields
    assume sh: "shared 2 b"
    then obtain w x y z where b: "b = [w, x, y, z]" by (auto simp: shared_def numeral_eq_Suc length_Suc_conv)
    have "z = 0" if "x = 0" using sh that b by (simp add: shared_def f)
    then show "shared 2 (rival t b) \<and> own_bits 2 (rival t b) = own_bits 2 b"
      using sh b by (auto simp: rival_def shared_def own_bits_def f upt_rec)
  qed
  show "shared 2 [0, 0, 0, 0]" by (simp add: shared_def f)
qed

theorem claim_across_complete_witness:
  "(\<exists>r t' b'. mi_bitmap_try_find_from_claim_across solo 2 1 70 (0, [1, 0]) = Some (r, (t', b')) \<and>
    (case r of
       Some i \<Rightarrow> takes [1, 0] 70 i b'
     | None \<Rightarrow> b' = [1, 0] \<and> (\<forall>i. i + 70 \<le> 64 * 2 \<longrightarrow> 2 < (70 :: nat) \<or> i mod 64 + 70 \<le> 64 \<longrightarrow>
         bit_range i 70 \<inter> claimed [1, 0] \<noteq> {}))) \<and>
   mi_bitmap_try_find_from_claim_across rival 2 0 70 (0, [0, 0, 0, 0]) = Some (None, (10, [0, 1, 0, 1])) \<and>
   shared 2 [0, 1, 0, 1] \<and> own_bits 2 [0, 1, 0, 1] = own_bits 2 [0, 0, 0, 0]"
proof -
  have l: "length [1, 0 :: u64] = 2" by simp
  have s: "\<exists>r t' b'. mi_bitmap_try_find_from_claim_across solo 2 1 70 (0, [1, 0]) = Some (r, (t', b')) \<and>
    (case r of
       Some i \<Rightarrow> takes [1, 0] 70 i b'
     | None \<Rightarrow> b' = [1, 0] \<and> (\<forall>i. i + 70 \<le> 64 * 2 \<longrightarrow> 2 < (70 :: nat) \<or> i mod 64 + 70 \<le> 64 \<longrightarrow>
         bit_range i 70 \<inter> claimed [1, 0] \<noteq> {}))"
    using claim_across_complete [of 70 "[1, 0]" 1 0, unfolded l] by simp
  have "shared 2 (snd (10 :: nat, [0, 1, 0, 1])) \<and>
      own_bits 2 (snd (10 :: nat, [0, 1, 0, 1])) = own_bits 2 (snd (0 :: nat, [0, 0, 0, 0]))"
    using claim_across_complete [of 70 "[1, 0]" 0 0, unfolded l] rival_run rival_fair by fastforce
  then show ?thesis using s rival_run by simp
qed

end
