(* ===== verification/Mi_Page.thy ===== *)
theory Mi_Page
  imports Mi_Internal
begin

text \<open>
  The pages of mimalloc: the free lists of one page, \<^verbatim>\<open>src/page.c\<close> with the parts of \<^verbatim>\<open>src/alloc.c\<close> that take a block
  from a page and give it back. The blocks of a free list are linked through their first word; the map \<open>nxt\<close>
  gives, for a block, the pointer that \<open>mi_block_next\<close> reads, \<open>0\<close> for null. Builds differ in how that pointer is encoded;
  \<open>Mi_Internal\<close> shows that decoding undoes the encoding. Other threads are an interference function, which
  may change the state before every atomic access; the state counts these accesses. A weak exchange may
  fail without reason, at the accesses for which \<open>spurious\<close> holds. Debug checks are left out.
\<close>

type_synonym u16 = "16 word"
type_synonym next_map = "addr \<Rightarrow> addr"

record mi_page_t =
  slice_count :: u32
  slice_offset :: u32
  is_committed :: bool
  is_zero_init :: bool
  capacity :: u16
  reserved :: u16
  in_full :: bool
  has_aligned :: bool
  free_is_zero :: bool
  retire_expire :: "7 word"
  free :: addr
  used :: u32
  xblock_size :: u32
  local_free :: addr
  xthread_free :: mi_thread_free_t
  xheap :: addr
  page_next :: addr
  page_prev :: addr

definition mi_block_next :: "next_map \<Rightarrow> addr \<Rightarrow> addr" where
  "mi_block_next nxt block = nxt block"

definition mi_block_set_next :: "addr \<Rightarrow> addr \<Rightarrow> next_map \<Rightarrow> next_map" where
  "mi_block_set_next block next nxt = nxt(block := next)"

section \<open>Page helpers\<close>

definition MI_HUGE_BLOCK_SIZE :: u32 where
  "MI_HUGE_BLOCK_SIZE = 2 * (1024 * 1024 * 1024)"

definition mi_page_block_at :: "addr \<Rightarrow> size_t \<Rightarrow> size_t \<Rightarrow> addr" where
  "mi_page_block_at page_start block_size i = page_start + i * block_size"

text \<open>\<open>psize\<close> is the size that \<open>_mi_segment_page_start\<close> finds for the page.\<close>

definition mi_page_block_size :: "size_t \<Rightarrow> mi_page_t \<Rightarrow> size_t" where
  "mi_page_block_size psize p = (if xblock_size p < MI_HUGE_BLOCK_SIZE then ucast (xblock_size p) else psize)"

definition mi_page_thread_free :: "mi_page_t \<Rightarrow> addr" where
  "mi_page_thread_free p = xthread_free p AND NOT 3"

definition mi_page_thread_free_flag :: "mi_page_t \<Rightarrow> mi_delayed_t" where
  "mi_page_thread_free_flag p = delayed_of (xthread_free p AND 3)"

definition mi_page_set_heap :: "addr \<Rightarrow> mi_page_t \<Rightarrow> mi_page_t" where
  "mi_page_set_heap heap p = p\<lparr>xheap := heap\<rparr>"

definition mi_page_all_free :: "mi_page_t \<Rightarrow> bool" where
  "mi_page_all_free p \<longleftrightarrow> used p = 0"

definition mi_page_has_any_available :: "mi_page_t \<Rightarrow> bool" where
  "mi_page_has_any_available p \<longleftrightarrow> used p < ucast (reserved p) \<or> mi_page_thread_free p \<noteq> 0"

definition mi_page_immediate_available :: "mi_page_t \<Rightarrow> bool" where
  "mi_page_immediate_available p \<longleftrightarrow> free p \<noteq> 0"

text \<open>The subtraction is unsigned: \<open>reserved\<close> is promoted to \<open>int\<close> and then converted for \<open>used\<close>.\<close>

definition mi_page_mostly_used :: "mi_page_t option \<Rightarrow> bool" where
  "mi_page_mostly_used page =
     (case page of None \<Rightarrow> True
      | Some p \<Rightarrow> (let frac = reserved p div 8 in ucast (reserved p) - used p \<le> (ucast frac :: u32)))"

section \<open>Atomic accesses to the thread free list\<close>

text \<open>\<open>delayed\<close> is the list head \<open>thread_delayed_free\<close> of the heap that owns the page.\<close>

record page_state =
  clock :: nat
  page :: mi_page_t
  nxt :: next_map
  delayed :: addr

type_synonym page_env = "nat \<Rightarrow> page_state \<Rightarrow> page_state"

definition others :: "page_env \<Rightarrow> page_state \<Rightarrow> page_state" where
  "others env s = (env (clock s) s)\<lparr>clock := Suc (clock s)\<rparr>"

definition tf_load :: "page_env \<Rightarrow> page_state \<Rightarrow> mi_thread_free_t \<times> page_state" where
  "tf_load env s = (let s = others env s in (xthread_free (page s), s))"

definition tf_cas_weak ::
    "page_env \<Rightarrow> (nat \<Rightarrow> bool) \<Rightarrow> mi_thread_free_t \<Rightarrow> mi_thread_free_t \<Rightarrow> page_state \<Rightarrow> bool \<times> mi_thread_free_t \<times> page_state" where
  "tf_cas_weak env spurious expected desired s =
     (let s' = others env s; v = xthread_free (page s')
      in if v = expected \<and> \<not> spurious (clock s)
         then (True, expected, s'\<lparr>page := (page s')\<lparr>xthread_free := desired\<rparr>\<rparr>)
         else (False, v, s'))"

definition delayed_load :: "page_env \<Rightarrow> page_state \<Rightarrow> addr \<times> page_state" where
  "delayed_load env s = (let s = others env s in (delayed s, s))"

definition delayed_cas_weak ::
    "page_env \<Rightarrow> (nat \<Rightarrow> bool) \<Rightarrow> addr \<Rightarrow> addr \<Rightarrow> page_state \<Rightarrow> bool \<times> addr \<times> page_state" where
  "delayed_cas_weak env spurious expected desired s =
     (let s' = others env s
      in if delayed s' = expected \<and> \<not> spurious (clock s) then (True, expected, s'\<lparr>delayed := desired\<rparr>)
         else (False, delayed s', s'))"

section \<open>The delayed-free flag\<close>

partial_function (option) try_use_delayed_loop ::
    "page_env \<Rightarrow> (nat \<Rightarrow> bool) \<Rightarrow> mi_delayed_t \<Rightarrow> bool \<Rightarrow> nat \<Rightarrow> page_state \<Rightarrow> (bool \<times> page_state) option" where
  "try_use_delayed_loop env spurious delay override_never yield_count s =
     (let (tfree, s) = tf_load env s;
          tfreex = mi_tf_set_delayed tfree delay;
          old_delay = mi_tf_delayed tfree
      in if old_delay = MI_DELAYED_FREEING then
           (if yield_count \<ge> 4 then Some (False, s)
            else try_use_delayed_loop env spurious delay override_never (yield_count + 1) s)
         else if delay = old_delay then Some (True, s)
         else if \<not> override_never \<and> old_delay = MI_NEVER_DELAYED_FREE then Some (True, s)
         else
           (let (ok, _, s) = tf_cas_weak env spurious tfree tfreex s
            in if \<not> ok then try_use_delayed_loop env spurious delay override_never yield_count s else Some (True, s)))"

definition mi_page_try_use_delayed_free ::
    "page_env \<Rightarrow> (nat \<Rightarrow> bool) \<Rightarrow> mi_delayed_t \<Rightarrow> bool \<Rightarrow> page_state \<Rightarrow> (bool \<times> page_state) option" where
  "mi_page_try_use_delayed_free env spurious delay override_never s =
     try_use_delayed_loop env spurious delay override_never 0 s"

partial_function (option) mi_page_use_delayed_free ::
    "page_env \<Rightarrow> (nat \<Rightarrow> bool) \<Rightarrow> mi_delayed_t \<Rightarrow> bool \<Rightarrow> page_state \<Rightarrow> page_state option" where
  "mi_page_use_delayed_free env spurious delay override_never s =
     Option.bind (mi_page_try_use_delayed_free env spurious delay override_never s)
       (\<lambda>(ok, s). if \<not> ok then mi_page_use_delayed_free env spurious delay override_never s else Some s)"

section \<open>Collecting the free lists\<close>

datatype mi_error = EFAULT | ENOMEM | EOVERFLOW

partial_function (option) take_thread_free ::
    "page_env \<Rightarrow> (nat \<Rightarrow> bool) \<Rightarrow> mi_thread_free_t \<Rightarrow> page_state \<Rightarrow> (addr \<times> page_state) option" where
  "take_thread_free env spurious tfree s =
     (let head = mi_tf_block tfree;
          tfreex = mi_tf_set_block tfree 0;
          (ok, tfree, s) = tf_cas_weak env spurious tfree tfreex s
      in if \<not> ok then take_thread_free env spurious tfree s else Some (head, s))"

text \<open>The loop that finds the tail, with the count of the blocks it has seen.\<close>

function count_tail :: "next_map \<Rightarrow> nat \<Rightarrow> nat \<Rightarrow> addr \<Rightarrow> nat \<times> addr" where
  "count_tail nx max_count cnt tail =
     (let next = mi_block_next nx tail
      in if next \<noteq> 0 \<and> cnt \<le> max_count then count_tail nx max_count (cnt + 1) next else (cnt, tail))"
  by pat_completeness auto
termination
  by (relation "measure (\<lambda>(nx, max_count, cnt, tail). max_count + 1 - cnt)") auto

text \<open>The first result is the error that is reported.\<close>

definition mi_page_thread_free_collect ::
    "page_env \<Rightarrow> (nat \<Rightarrow> bool) \<Rightarrow> page_state \<Rightarrow> (mi_error option \<times> page_state) option" where
  "mi_page_thread_free_collect env spurious s =
     (let (tfree, s) = tf_load env s
      in Option.bind (take_thread_free env spurious tfree s)
        (\<lambda>(head, s).
          if head = 0 then Some (None, s)
          else
            (let max_count = unat (capacity (page s));
                 (cnt, tail) = count_tail (nxt s) max_count 1 head
             in if cnt > max_count then Some (Some EFAULT, s)
                else
                  (let s = s\<lparr>nxt := mi_block_set_next tail (local_free (page s)) (nxt s)\<rparr>;
                       p = (page s)\<lparr>local_free := head\<rparr>;
                       p = p\<lparr>used := used p - word_of_nat cnt\<rparr>
                   in Some (None, s\<lparr>page := p\<rparr>)))))"

partial_function (option) find_tail :: "next_map \<Rightarrow> addr \<Rightarrow> addr option" where
  "find_tail nx tail =
     (let next = mi_block_next nx tail in if next \<noteq> 0 then find_tail nx next else Some tail)"

definition mi_page_free_collect ::
    "page_env \<Rightarrow> (nat \<Rightarrow> bool) \<Rightarrow> bool \<Rightarrow> page_state \<Rightarrow> (mi_error option \<times> page_state) option" where
  "mi_page_free_collect env spurious force s =
     Option.bind
       (if force then mi_page_thread_free_collect env spurious s
        else
          (let (tfree, s) = tf_load env s
           in if tfree AND NOT 3 \<noteq> 0 then mi_page_thread_free_collect env spurious s else Some (None, s)))
       (\<lambda>(err, s).
         let p = page s
         in if local_free p \<noteq> 0 then
              (if free p = 0
               then Some (err, s\<lparr>page := p\<lparr>free := local_free p, local_free := 0, free_is_zero := False\<rparr>\<rparr>)
               else if force then
                 Option.bind (find_tail (nxt s) (local_free p))
                   (\<lambda>tail. Some (err, s\<lparr>nxt := mi_block_set_next tail (free p) (nxt s),
                      page := p\<lparr>free := local_free p, local_free := 0, free_is_zero := False\<rparr>\<rparr>))
               else Some (err, s))
            else Some (err, s))"

section \<open>Taking and freeing a block\<close>

text \<open>
  The result is the block and the number of its bytes that are zeroed from its start; \<^const>\<open>None\<close> is the call of
  \<open>_mi_malloc_generic\<close>.
\<close>

definition mi_page_malloc :: "bool \<Rightarrow> mi_page_t \<Rightarrow> next_map \<Rightarrow> (addr \<times> size_t) option \<times> mi_page_t \<times> next_map" where
  "mi_page_malloc zero p nx =
     (let block = free p
      in if block = 0 then (None, p, nx)
         else
           (let p = p\<lparr>used := used p + 1\<rparr>;
                p = p\<lparr>free := mi_block_next nx block\<rparr>
            in if zero then
                 (if free_is_zero p then (Some (block, 8), p, mi_block_set_next block 0 nx)
                  else (Some (block, ucast (xblock_size p)), p, mi_block_set_next block 0 nx))
               else (Some (block, 0), p, nx)))"

text \<open>The list operations of a free by the owning thread.\<close>

definition push_local_free :: "addr \<Rightarrow> mi_page_t \<Rightarrow> next_map \<Rightarrow> mi_page_t \<times> next_map" where
  "push_local_free block p nx =
     (let nx = mi_block_set_next block (local_free p) nx;
          p = p\<lparr>local_free := block\<rparr>;
          p = p\<lparr>used := used p - 1\<rparr>
      in (p, nx))"

text \<open>A free by another thread: whether the heap has to be told, and the state.\<close>

partial_function (option) push_thread_free ::
    "page_env \<Rightarrow> (nat \<Rightarrow> bool) \<Rightarrow> addr \<Rightarrow> mi_thread_free_t \<Rightarrow> page_state \<Rightarrow> (bool \<times> page_state) option" where
  "push_thread_free env spurious block tfree s =
     (let use_delayed = (mi_tf_delayed tfree = MI_USE_DELAYED_FREE);
          s = (if use_delayed then s else s\<lparr>nxt := mi_block_set_next block (mi_tf_block tfree) (nxt s)\<rparr>);
          tfreex = (if use_delayed then mi_tf_set_delayed tfree MI_DELAYED_FREEING else mi_tf_set_block tfree block);
          (ok, tfree, s) = tf_cas_weak env spurious tfree tfreex s
      in if \<not> ok then push_thread_free env spurious block tfree s else Some (use_delayed, s))"

partial_function (option) push_delayed ::
    "page_env \<Rightarrow> (nat \<Rightarrow> bool) \<Rightarrow> addr \<Rightarrow> addr \<Rightarrow> page_state \<Rightarrow> page_state option" where
  "push_delayed env spurious block dfree s =
     (let s = s\<lparr>nxt := mi_block_set_next block dfree (nxt s)\<rparr>;
          (ok, dfree, s) = delayed_cas_weak env spurious dfree block s
      in if \<not> ok then push_delayed env spurious block dfree s else Some s)"

partial_function (option) reset_delayed_freeing ::
    "page_env \<Rightarrow> (nat \<Rightarrow> bool) \<Rightarrow> mi_thread_free_t \<Rightarrow> page_state \<Rightarrow> page_state option" where
  "reset_delayed_freeing env spurious tfree s =
     (let tfreex = mi_tf_set_delayed tfree MI_NO_DELAYED_FREE;
          (ok, tfree, s) = tf_cas_weak env spurious tfree tfreex s
      in if \<not> ok then reset_delayed_freeing env spurious tfree s else Some s)"

text \<open>For a page outside the huge segments.\<close>

definition mi_free_block_mt :: "page_env \<Rightarrow> (nat \<Rightarrow> bool) \<Rightarrow> addr \<Rightarrow> page_state \<Rightarrow> page_state option" where
  "mi_free_block_mt env spurious block s =
     (let (tfree, s) = tf_load env s
      in Option.bind (push_thread_free env spurious block tfree s)
        (\<lambda>(use_delayed, s).
          if use_delayed then
            (let s = others env s; heap = xheap (page s)
             in Option.bind
               (if heap \<noteq> 0 then (let (dfree, s) = delayed_load env s in push_delayed env spurious block dfree s) else Some s)
               (\<lambda>s. let (tfree, s) = tf_load env s in reset_delayed_freeing env spurious tfree s))
          else Some s))"

section \<open>Extending the free list\<close>

definition MI_MAX_SLICE_SHIFT :: nat where
  "MI_MAX_SLICE_SHIFT = 6"

definition MI_MIN_SLICES :: nat where
  "MI_MIN_SLICES = 2"

fun slice_shift :: "nat \<Rightarrow> nat \<Rightarrow> nat" where
  "slice_shift extent 0 = 0"
| "slice_shift extent (Suc shift) = (if drop_bit (Suc shift) extent = 0 then slice_shift extent shift else Suc shift)"

partial_function (option) next_slice :: "nat list \<Rightarrow> nat \<Rightarrow> nat \<Rightarrow> nat option" where
  "next_slice counts slice_cnt next =
     (if counts ! next = 0
      then next_slice counts slice_cnt (let next = next + 1 in if next = slice_cnt then 0 else next)
      else Some next)"

text \<open>The rounds from \<open>i\<close> on; the first argument counts the rounds that are left.\<close>

fun secure_rounds ::
    "nat \<Rightarrow> nat \<Rightarrow> size_t \<Rightarrow> nat \<Rightarrow> u64 \<Rightarrow> nat \<Rightarrow> addr list \<Rightarrow> nat list \<Rightarrow> next_map \<Rightarrow> (nat \<times> addr list \<times> next_map) option" where
  "secure_rounds 0 i bsize slice_cnt rnd current blocks counts nx = Some (current, blocks, nx)"
| "secure_rounds (Suc n) i bsize slice_cnt rnd current blocks counts nx =
     (let round = i mod 8;
          rnd = (if round = 0 then mi_random_shuffle rnd else rnd);
          next = unat (drop_bit (8 * round) rnd AND word_of_nat (slice_cnt - 1))
      in Option.bind (next_slice counts slice_cnt next)
        (\<lambda>next.
          let counts = counts[next := counts ! next - 1];
              block = blocks ! current;
              blocks = blocks[current := block + bsize];
              nx = mi_block_set_next block (blocks ! next) nx
          in secure_rounds n (i + 1) bsize slice_cnt rnd next blocks counts nx))"

text \<open>\<open>r\<close> is the number that \<open>_mi_heap_random_next\<close> gives.\<close>

definition mi_page_free_list_extend_secure ::
    "u64 \<Rightarrow> addr \<Rightarrow> size_t \<Rightarrow> nat \<Rightarrow> mi_page_t \<Rightarrow> next_map \<Rightarrow> (mi_page_t \<times> next_map) option" where
  "mi_page_free_list_extend_secure r page_area bsize extent p nx =
     (let shift = slice_shift extent MI_MAX_SLICE_SHIFT;
          slice_cnt = 2 ^ shift;
          slice_extend = extent div slice_cnt;
          blocks = map (\<lambda>i. mi_page_block_at page_area bsize (ucast (capacity p) + word_of_nat (i * slice_extend))) [0..<slice_cnt];
          counts = replicate slice_cnt slice_extend;
          counts = counts[slice_cnt - 1 := counts ! (slice_cnt - 1) + extent mod slice_cnt];
          current = unat (r mod word_of_nat slice_cnt);
          counts = counts[current := counts ! current - 1];
          free_start = blocks ! current;
          rnd = mi_random_shuffle (r OR 1)
      in Option.bind (secure_rounds (extent - 1) 1 bsize slice_cnt rnd current blocks counts nx)
        (\<lambda>(current, blocks, nx). Some (p\<lparr>free := free_start\<rparr>, mi_block_set_next (blocks ! current) (free p) nx)))"

partial_function (option) link_blocks :: "size_t \<Rightarrow> addr \<Rightarrow> addr \<Rightarrow> next_map \<Rightarrow> next_map option" where
  "link_blocks bsize last_block block nx =
     (if block \<le> last_block
      then (let next = block + bsize in link_blocks bsize last_block next (mi_block_set_next block next nx))
      else Some nx)"

definition mi_page_free_list_extend ::
    "addr \<Rightarrow> size_t \<Rightarrow> nat \<Rightarrow> mi_page_t \<Rightarrow> next_map \<Rightarrow> (mi_page_t \<times> next_map) option" where
  "mi_page_free_list_extend page_area bsize extent p nx =
     (let start = mi_page_block_at page_area bsize (ucast (capacity p));
          last_block = mi_page_block_at page_area bsize (ucast (capacity p) + word_of_nat extent - 1)
      in Option.bind (link_blocks bsize last_block start nx)
        (\<lambda>nx. Some (p\<lparr>free := start\<rparr>, mi_block_set_next last_block (free p) nx)))"

definition MI_MAX_EXTEND_SIZE :: nat where
  "MI_MAX_EXTEND_SIZE = 4 * 1024"

definition MI_MIN_EXTEND :: "nat \<Rightarrow> nat" where
  "MI_MIN_EXTEND secure = (if secure > 0 then 8 * secure else 4)"

text \<open>\<open>secure\<close> is \<open>MI_SECURE\<close>; \<open>page_area\<close> and \<open>page_size\<close> are what \<open>_mi_page_start\<close> gives.\<close>

definition mi_page_extend_free ::
    "nat \<Rightarrow> u64 \<Rightarrow> addr \<Rightarrow> size_t \<Rightarrow> mi_page_t \<Rightarrow> next_map \<Rightarrow> (mi_page_t \<times> next_map) option" where
  "mi_page_extend_free secure r page_area page_size p nx =
     (if secure \<le> 2 \<and> free p \<noteq> 0 then Some (p, nx)
      else if capacity p \<ge> reserved p then Some (p, nx)
      else
        (let bsize = (if xblock_size p < MI_HUGE_BLOCK_SIZE then ucast (xblock_size p) else page_size);
             extent = unat (reserved p) - unat (capacity p);
             max_extend = (if unat bsize \<ge> MI_MAX_EXTEND_SIZE then MI_MIN_EXTEND secure
                           else MI_MAX_EXTEND_SIZE div unat (ucast bsize :: u32));
             max_extend = (if max_extend < MI_MIN_EXTEND secure then MI_MIN_EXTEND secure else max_extend);
             extent = (if extent > max_extend then max_extend else extent)
         in Option.bind
           (if extent < MI_MIN_SLICES \<or> secure = 0 then mi_page_free_list_extend page_area bsize extent p nx
            else mi_page_free_list_extend_secure r page_area bsize extent p nx)
           (\<lambda>(p, nx). Some (p\<lparr>capacity := capacity p + word_of_nat extent\<rparr>, nx))))"

definition mi_page_init ::
    "nat \<Rightarrow> u64 \<Rightarrow> addr \<Rightarrow> addr \<Rightarrow> size_t \<Rightarrow> size_t \<Rightarrow> mi_page_t \<Rightarrow> next_map \<Rightarrow> (mi_page_t \<times> next_map) option" where
  "mi_page_init secure r heap page_area page_size block_size p nx =
     (let p = mi_page_set_heap heap p;
          p = p\<lparr>xblock_size := (if block_size < ucast MI_HUGE_BLOCK_SIZE then ucast block_size else MI_HUGE_BLOCK_SIZE)\<rparr>;
          p = p\<lparr>reserved := ucast (page_size div block_size)\<rparr>;
          p = p\<lparr>free_is_zero := is_zero_init p\<rparr>
      in mi_page_extend_free secure r page_area page_size p nx)"

end
