(* ===== verification/Mi_Page_Lists.thy ===== *)
theory Mi_Page_Lists
  imports Mi_Page
begin

text \<open>
  The free lists of a page and their blocks: each block below the capacity is in exactly one of the three
  free lists or in use, and every operation of \<open>Mi_Page\<close> keeps that.
\<close>

section \<open>Lists of blocks\<close>

fun blocks_from :: "next_map \<Rightarrow> addr \<Rightarrow> addr list \<Rightarrow> bool" where
  "blocks_from nx p [] \<longleftrightarrow> p = 0"
| "blocks_from nx p (x # xs) \<longleftrightarrow> p = x \<and> x \<noteq> 0 \<and> blocks_from nx (nx x) xs"

text \<open>A part of a list: from \<open>p\<close> through \<open>xs\<close> to \<open>q\<close>.\<close>

fun segment :: "next_map \<Rightarrow> addr \<Rightarrow> addr list \<Rightarrow> addr \<Rightarrow> bool" where
  "segment nx p [] q \<longleftrightarrow> p = q"
| "segment nx p (x # xs) q \<longleftrightarrow> p = x \<and> x \<noteq> 0 \<and> segment nx (nx x) xs q"

lemma blocks_from_0 [simp]: "blocks_from nx 0 xs \<longleftrightarrow> xs = []"
  by (cases xs) auto

lemma blocks_from_unique: "blocks_from nx p xs \<Longrightarrow> blocks_from nx p ys \<Longrightarrow> xs = ys"
  by (induction xs arbitrary: p ys) (auto, (case_tac ys; auto)+)

lemma blocks_from_hd: "blocks_from nx p xs \<Longrightarrow> p \<noteq> 0 \<Longrightarrow> xs = p # tl xs"
  by (cases xs) auto

lemma blocks_from_iff: "blocks_from nx p xs \<Longrightarrow> p = 0 \<longleftrightarrow> xs = []"
  by (cases xs) auto

lemma blocks_from_suffix: "blocks_from nx p (xs @ y # ys) \<Longrightarrow> blocks_from nx y (y # ys)"
  by (induction xs arbitrary: p) auto

lemma blocks_from_distinct: "blocks_from nx p xs \<Longrightarrow> distinct xs"
proof (induction xs arbitrary: p)
  case (Cons x xs)
  have "x \<notin> set xs"
  proof
    assume "x \<in> set xs"
    then obtain ys zs where e: "xs = ys @ x # zs" by (meson split_list)
    have "blocks_from nx x (x # zs)" using Cons.prems blocks_from_suffix [of nx p "x # ys" x zs] e by simp
    moreover have "blocks_from nx x (x # xs)" using Cons.prems by simp
    ultimately have "x # zs = x # xs" by (rule blocks_from_unique)
    then show False using e by simp
  qed
  then show ?case using Cons by auto
qed simp

lemma blocks_from_frame: "blocks_from nx p xs \<Longrightarrow> (\<And>x. x \<in> set xs \<Longrightarrow> nx' x = nx x) \<Longrightarrow> blocks_from nx' p xs"
  by (induction xs arbitrary: p) auto

lemma segment_frame: "segment nx p xs q \<Longrightarrow> (\<And>x. x \<in> set xs \<Longrightarrow> nx' x = nx x) \<Longrightarrow> segment nx' p xs q"
  by (induction xs arbitrary: p) auto

lemma segment_snoc: "segment nx p (xs @ [y]) q \<longleftrightarrow> segment nx p xs y \<and> y \<noteq> 0 \<and> nx y = q"
  by (induction xs arbitrary: p) auto

lemma segment_blocks: "segment nx p xs q \<Longrightarrow> blocks_from nx q ys \<Longrightarrow> blocks_from nx p (xs @ ys)"
  by (induction xs arbitrary: p) auto

lemma blocks_segment: "blocks_from nx p (xs @ [y]) \<Longrightarrow> segment nx p xs y"
  by (induction xs arbitrary: p) auto

text \<open>Linking the last block of one list to another list.\<close>

lemma blocks_from_append:
  assumes a: "blocks_from nx p xs" "xs \<noteq> []" and b: "blocks_from nx q ys" and d: "set xs \<inter> set ys = {}"
  shows "blocks_from (nx(last xs := q)) p (xs @ ys)"
proof -
  obtain zs y where e: "xs = zs @ [y]" using a(2) by (metis rev_exhaust)
  have dx: "y \<notin> set zs" using blocks_from_distinct [OF a(1)] e by auto
  have "segment nx p zs y" using blocks_segment a(1) e by blast
  then have "segment (nx(y := q)) p zs y" by (rule segment_frame) (use dx in auto)
  moreover have "y \<noteq> 0" using blocks_from_suffix [of nx p zs y "[]"] a(1) e by simp
  moreover have "blocks_from (nx(y := q)) q ys" using b d e by (auto intro: blocks_from_frame)
  ultimately show ?thesis using e segment_blocks [of "nx(y := q)" p "zs @ [y]" q ys] by (simp add: segment_snoc)
qed

declare count_tail.simps [simp del]

lemma count_tail_ok:
  "blocks_from nx p (p # xs) \<Longrightarrow> c + length xs \<le> m \<Longrightarrow> count_tail nx m c p = (c + length xs, last (p # xs))"
proof (induction xs arbitrary: c p)
  case Nil
  then show ?case by (subst count_tail.simps) (simp add: mi_block_next_def)
next
  case (Cons x xs)
  then have "count_tail nx m (c + 1) x = (c + 1 + length xs, last (x # xs))" by (intro Cons.IH) auto
  then show ?case using Cons.prems by (subst count_tail.simps) (simp add: mi_block_next_def Let_def)
qed

lemma count_tail_over:
  "blocks_from nx p (p # xs) \<Longrightarrow> m < c + length xs \<Longrightarrow> m < fst (count_tail nx m c p)"
proof (induction xs arbitrary: c p)
  case Nil
  then show ?case by (subst count_tail.simps) (simp add: mi_block_next_def)
next
  case (Cons x xs)
  show ?case
  proof (cases "c \<le> m")
    case True
    have "m < fst (count_tail nx m (c + 1) x)" using Cons.prems by (intro Cons.IH) auto
    then show ?thesis using Cons.prems True by (subst count_tail.simps) (simp add: mi_block_next_def Let_def)
  qed (subst count_tail.simps, simp add: mi_block_next_def)
qed

lemma find_tail_last: "blocks_from nx p (p # xs) \<Longrightarrow> find_tail nx p = Some (last (p # xs))"
  by (induction xs arbitrary: p) (subst find_tail.simps, auto simp: mi_block_next_def Let_def)+

section \<open>The word of the thread free list\<close>

lemma delayed_code_bits: "delayed_code d AND NOT 3 = 0" "delayed_of (delayed_code d AND 3) = d"
  by (cases d; simp add: delayed_of_def)+

lemma tf_make_simps:
  assumes "b AND 3 = 0"
  shows "mi_tf_block (mi_tf_make b d) = b" "mi_tf_delayed (mi_tf_make b d) = d"
proof -
  have "(b OR delayed_code d) AND NOT 3 = (b AND NOT 3) OR (delayed_code d AND NOT 3)" by (rule bit.conj_disj_distrib2)
  moreover have "b AND NOT 3 = b"
  proof (rule bit_word_eqI)
    fix i
    have "\<not> bit (b AND 3) i" using assms by simp
    then show "bit (b AND NOT 3) i = bit b i"
      unfolding bit_and_iff bit_not_iff using bit_imp_possible_bit [of b i] by blast
  qed
  ultimately show "mi_tf_block (mi_tf_make b d) = b"
    unfolding mi_tf_block_def mi_tf_make_def by (simp only: delayed_code_bits or.right_neutral)
  have "(b OR delayed_code d) AND 3 = (b AND 3) OR (delayed_code d AND 3)" by (rule bit.conj_disj_distrib2)
  then show "mi_tf_delayed (mi_tf_make b d) = d" using assms by (simp add: mi_tf_delayed_def mi_tf_make_def delayed_code_bits)
qed

lemma tf_block_low [simp]: "mi_tf_block t AND 3 = 0"
  by (simp add: mi_tf_block_def and.assoc)

lemma tf_set_simps:
  "mi_tf_block (mi_tf_set_delayed t d) = mi_tf_block t" "mi_tf_delayed (mi_tf_set_delayed t d) = d"
  "b AND 3 = 0 \<Longrightarrow> mi_tf_block (mi_tf_set_block t b) = b" "b AND 3 = 0 \<Longrightarrow> mi_tf_delayed (mi_tf_set_block t b) = mi_tf_delayed t"
  by (simp_all add: mi_tf_set_delayed_def mi_tf_set_block_def tf_make_simps)

lemma thread_free_block: "mi_page_thread_free p = mi_tf_block (xthread_free p)"
  by (simp add: mi_page_thread_free_def mi_tf_block_def)

lemma thread_free_flag: "mi_page_thread_free_flag p = mi_tf_delayed (xthread_free p)"
  by (simp add: mi_page_thread_free_flag_def mi_tf_delayed_def)

section \<open>The blocks of a page\<close>

definition block_addr :: "addr \<Rightarrow> size_t \<Rightarrow> nat \<Rightarrow> addr" where
  "block_addr area bsize j = mi_page_block_at area bsize (word_of_nat j)"

definition area_ok :: "addr \<Rightarrow> size_t \<Rightarrow> nat \<Rightarrow> bool" where
  "area_ok area bsize n \<longleftrightarrow> 0 < unat bsize \<and> 0 < unat area \<and> 4 dvd unat area \<and> 4 dvd unat bsize \<and>
     unat area + n * unat bsize < 2 ^ 64"

lemma block_addr_unat:
  assumes "area_ok area bsize n" "j \<le> n"
  shows "unat (block_addr area bsize j) = unat area + j * unat bsize"
proof -
  have le: "j * unat bsize \<le> n * unat bsize" using assms(2) by simp
  have lt: "j * unat bsize < 2 ^ 64" "unat area + j * unat bsize < 2 ^ 64" using assms(1) le unfolding area_ok_def by linarith+
  have "j \<le> j * unat bsize" using assms(1) by (simp add: area_ok_def)
  then have "j < 2 ^ 64" using lt by linarith
  then have j: "unat (word_of_nat j :: u64) = j" by (intro unat_of_nat_small) simp
  have m: "unat (word_of_nat j * bsize) = j * unat bsize" using lt j by (subst unat_mult_small) simp_all
  show ?thesis unfolding block_addr_def mi_page_block_at_def using lt m by (subst unat_add_small) simp_all
qed

lemma block_addr_inj:
  assumes "area_ok area bsize n" "i \<le> n" "j \<le> n"
  shows "block_addr area bsize i = block_addr area bsize j \<longleftrightarrow> i = j"
proof
  assume "block_addr area bsize i = block_addr area bsize j"
  then have "unat area + i * unat bsize = unat area + j * unat bsize"
    using block_addr_unat [OF assms(1,2)] block_addr_unat [OF assms(1,3)] by metis
  moreover have "0 < unat bsize" using assms(1) by (simp add: area_ok_def)
  ultimately show "i = j" by simp
qed simp

lemma block_addr_nonzero:
  assumes "area_ok area bsize n" "j \<le> n" shows "block_addr area bsize j \<noteq> 0"
proof
  assume "block_addr area bsize j = 0"
  then have "unat area + j * unat bsize = 0" using block_addr_unat [OF assms] by simp
  then show False using assms(1) by (simp add: area_ok_def)
qed

lemma block_addr_low:
  assumes "area_ok area bsize n" "j \<le> n" shows "block_addr area bsize j AND 3 = 0"
proof -
  have "4 dvd unat area + j * unat bsize" using assms(1) by (simp add: area_ok_def)
  then have "unat (block_addr area bsize j AND 3) = 0"
    unfolding unat_and_3 block_addr_unat [OF assms] by simp
  then show ?thesis by (simp only: word_eq_iff_unat unsigned_0)
qed

lemma block_addr_Suc: "block_addr area bsize j + bsize = block_addr area bsize (Suc j)"
  by (simp add: block_addr_def mi_page_block_at_def algebra_simps)

definition page_addrs :: "addr \<Rightarrow> size_t \<Rightarrow> nat \<Rightarrow> addr set" where
  "page_addrs area bsize n = block_addr area bsize ` {..<n}"

text \<open>
  The three free lists \<open>fs\<close>, \<open>ls\<close>, \<open>ts\<close> and the blocks \<open>live\<close> in use are the blocks of the page, each once. Of the blocks
  that count as used, those in the thread free list are free already.
\<close>

definition page_ok :: "addr \<Rightarrow> size_t \<Rightarrow> mi_page_t \<Rightarrow> next_map \<Rightarrow> addr list \<Rightarrow> addr list \<Rightarrow> addr list \<Rightarrow> addr list \<Rightarrow> bool" where
  "page_ok area bsize p nx fs ls ts live \<longleftrightarrow>
     area_ok area bsize (unat (reserved p)) \<and> capacity p \<le> reserved p \<and>
     blocks_from nx (free p) fs \<and> blocks_from nx (local_free p) ls \<and> blocks_from nx (mi_page_thread_free p) ts \<and>
     distinct (fs @ ls @ ts @ live) \<and> set (fs @ ls @ ts @ live) = page_addrs area bsize (unat (capacity p)) \<and>
     unat (used p) = length live + length ts"

lemma page_addrs_card:
  assumes "area_ok area bsize m" "n \<le> m" shows "card (page_addrs area bsize n) = n"
proof -
  have "inj_on (block_addr area bsize) {..<n}"
    using block_addr_inj [OF assms(1)] assms(2) by (auto simp: inj_on_def)
  then show ?thesis unfolding page_addrs_def by (simp add: card_image)
qed

lemma page_ok_capacity:
  assumes "page_ok area bsize p nx fs ls ts live"
  shows "length fs + length ls + length ts + length live = unat (capacity p)"
proof -
  have le: "unat (capacity p) \<le> unat (reserved p)" using assms by (simp add: page_ok_def word_le_nat_alt)
  have "card (set (fs @ ls @ ts @ live)) = unat (capacity p)"
    using assms page_addrs_card [OF _ le, of area bsize] unfolding page_ok_def by metis
  moreover have "card (set (fs @ ls @ ts @ live)) = length (fs @ ls @ ts @ live)"
    using assms unfolding page_ok_def by (intro distinct_card) blast
  ultimately show ?thesis by simp
qed

text \<open>The count that \<open>mi_page_is_valid_init\<close> checks.\<close>

lemma page_ok_used:
  "page_ok area bsize p nx fs ls ts live \<Longrightarrow> unat (used p) + length fs + length ls = unat (capacity p)"
  using page_ok_capacity [of area bsize p nx fs ls ts live] by (simp add: page_ok_def)

section \<open>A thread alone\<close>

definition alone :: page_env where
  "alone = (\<lambda>t s. s)"

definition never :: "nat \<Rightarrow> bool" where
  "never = (\<lambda>t. False)"

lemmas tf_defs = others_def tf_load_def tf_cas_weak_def delayed_load_def delayed_cas_weak_def alone_def never_def

definition page_holds :: "addr \<Rightarrow> size_t \<Rightarrow> page_state \<Rightarrow> addr list \<Rightarrow> addr list \<Rightarrow> addr list \<Rightarrow> addr list \<Rightarrow> bool" where
  "page_holds area bsize s fs ls ts live \<longleftrightarrow> page_ok area bsize (page s) (nxt s) fs ls ts live"

lemma unat_u32_sub: "n \<le> unat (x :: u32) \<Longrightarrow> unat (x - word_of_nat n) = unat x - n"
proof -
  assume n: "n \<le> unat x"
  then have "n < 2 ^ 32" using unat_u32_less [of x] by simp
  then have "unat (word_of_nat n :: u32) = n" by (intro unat_of_nat_small) simp
  then show ?thesis using n by (subst unat_diff_small) simp_all
qed

lemma thread_free_collect_alone:
  assumes ok: "page_holds area bsize s fs ls ts live"
  shows "\<exists>s'. mi_page_thread_free_collect alone never s = Some (None, s') \<and>
    page_holds area bsize s' fs (ts @ ls) [] live \<and> xheap (page s') = xheap (page s) \<and>
    mi_page_thread_free_flag (page s') = mi_page_thread_free_flag (page s) \<and> delayed s' = delayed s \<and>
    (\<forall>x. x \<notin> set ts \<longrightarrow> nxt s' x = nxt s x)"
proof -
  let ?p = "page s" and ?t = "xthread_free (page s)"
  note ok = ok [unfolded page_holds_def]
  have ch: "blocks_from (nxt s) (free ?p) fs" "blocks_from (nxt s) (local_free ?p) ls" "blocks_from (nxt s) (mi_tf_block ?t) ts"
    and d: "distinct (fs @ ls @ ts @ live)" using ok by (simp_all add: page_ok_def thread_free_block)
  let ?q = "?p\<lparr>xthread_free := mi_tf_set_block ?t 0\<rparr>"
  have tk: "take_thread_free alone never ?t (s\<lparr>clock := Suc (clock s)\<rparr>) =
      Some (mi_tf_block ?t, s\<lparr>clock := Suc (Suc (clock s)), page := ?q\<rparr>)"
    by (subst take_thread_free.simps) (simp add: tf_defs Let_def)
  have c: "mi_page_thread_free_collect alone never s =
      (if mi_tf_block ?t = 0 then Some (None, s\<lparr>clock := Suc (Suc (clock s)), page := ?q\<rparr>)
       else
         (let (cnt, tail) = count_tail (nxt s) (unat (capacity ?p)) 1 (mi_tf_block ?t)
          in if cnt > unat (capacity ?p) then Some (Some EFAULT, s\<lparr>clock := Suc (Suc (clock s)), page := ?q\<rparr>)
             else Some (None, s\<lparr>clock := Suc (Suc (clock s)), nxt := (nxt s)(tail := local_free ?p),
                page := ?q\<lparr>local_free := mi_tf_block ?t, used := used ?p - word_of_nat cnt\<rparr>\<rparr>)))"
    unfolding mi_page_thread_free_collect_def using tk
    by (simp add: tf_load_def others_def alone_def mi_block_set_next_def Let_def split: prod.splits)
  show ?thesis
  proof (cases "ts = []")
    case True
    then have "mi_tf_block ?t = 0" using ch(3) by simp
    then show ?thesis using c ok True
      by (simp add: page_holds_def page_ok_def thread_free_block thread_free_flag tf_set_simps)
  next
    case False
    then obtain us where us: "ts = mi_tf_block ?t # us" "mi_tf_block ?t \<noteq> 0" using ch(3) by (cases ts) auto
    have len: "length ts \<le> unat (capacity ?p)" using page_ok_capacity [OF ok] by simp
    have ct: "count_tail (nxt s) (unat (capacity ?p)) 1 (mi_tf_block ?t) = (length ts, last ts)"
      using count_tail_ok [of "nxt s" "mi_tf_block ?t" us 1 "unat (capacity ?p)"] ch(3) us len by simp
    let ?s = "s\<lparr>clock := Suc (Suc (clock s)), nxt := (nxt s)(last ts := local_free ?p),
        page := ?q\<lparr>local_free := mi_tf_block ?t, used := used ?p - word_of_nat (length ts)\<rparr>\<rparr>"
    have r: "mi_page_thread_free_collect alone never s = Some (None, ?s)"
      using c ct us(2) len by simp
    have lt: "last ts \<in> set ts" using False by simp
    have "blocks_from (nxt ?s) (mi_tf_block ?t) (ts @ ls)"
      using blocks_from_append [OF ch(3) False ch(2)] d by (auto simp: disjoint_iff)
    moreover have "blocks_from (nxt ?s) (free ?p) fs"
      using ch(1) lt d by (auto intro!: blocks_from_frame [of "nxt s"])
    moreover have "unat (used ?p - word_of_nat (length ts)) = length live"
      using ok by (subst unat_u32_sub) (simp_all add: page_ok_def)
    ultimately have "page_holds area bsize ?s fs (ts @ ls) [] live"
      using ok d by (auto simp: page_holds_def page_ok_def thread_free_block tf_set_simps)
    then show ?thesis using r lt by (auto simp: thread_free_flag tf_set_simps)
  qed
qed

text \<open>A corrupted list: more blocks than the page has.\<close>

lemma thread_free_collect_corrupted:
  assumes "blocks_from (nxt s) (mi_page_thread_free (page s)) ts" "unat (capacity (page s)) < length ts"
  shows "\<exists>s'. mi_page_thread_free_collect alone never s = Some (Some EFAULT, s') \<and> mi_page_thread_free (page s') = 0 \<and>
    free (page s') = free (page s) \<and> local_free (page s') = local_free (page s) \<and> used (page s') = used (page s)"
proof -
  let ?p = "page s" and ?t = "xthread_free (page s)"
  obtain us where us: "ts = mi_tf_block ?t # us" "mi_tf_block ?t \<noteq> 0"
    using assms by (cases ts) (auto simp: thread_free_block)
  have over: "unat (capacity ?p) < fst (count_tail (nxt s) (unat (capacity ?p)) 1 (mi_tf_block ?t))"
    using count_tail_over [of "nxt s" "mi_tf_block ?t" us "unat (capacity ?p)" 1] assms us by (simp add: thread_free_block)
  have "take_thread_free alone never ?t (s\<lparr>clock := Suc (clock s)\<rparr>) =
      Some (mi_tf_block ?t, s\<lparr>clock := Suc (Suc (clock s)), page := ?p\<lparr>xthread_free := mi_tf_set_block ?t 0\<rparr>\<rparr>)"
    by (subst take_thread_free.simps) (simp add: tf_defs Let_def)
  then have "mi_page_thread_free_collect alone never s =
      Some (Some EFAULT, s\<lparr>clock := Suc (Suc (clock s)), page := ?p\<lparr>xthread_free := mi_tf_set_block ?t 0\<rparr>\<rparr>)"
    unfolding mi_page_thread_free_collect_def using over us(2)
    by (auto simp: tf_load_def others_def alone_def Let_def split: prod.splits)
  then show ?thesis by (simp add: thread_free_block tf_set_simps)
qed

text \<open>Which lists a collection ends with.\<close>

definition collected :: "bool \<Rightarrow> addr list \<Rightarrow> addr list \<Rightarrow> addr list \<times> addr list" where
  "collected force fs ls = (if ls = [] then (fs, []) else if fs = [] then (ls, []) else if force then (ls @ fs, []) else (fs, ls))"

lemma collect_local:
  assumes ok: "page_holds area bsize s fs ls ts live"
  defines "p \<equiv> page s"
  shows "\<exists>s'. (if local_free p \<noteq> 0 then
       (if free p = 0
        then Some (err, s\<lparr>page := p\<lparr>free := local_free p, local_free := 0, free_is_zero := False\<rparr>\<rparr>)
        else if force then
          Option.bind (find_tail (nxt s) (local_free p))
            (\<lambda>tail. Some (err, s\<lparr>nxt := mi_block_set_next tail (free p) (nxt s),
               page := p\<lparr>free := local_free p, local_free := 0, free_is_zero := False\<rparr>\<rparr>))
        else Some (err, s))
     else Some (err, s)) = Some (err, s') \<and>
    page_holds area bsize s' (fst (collected force fs ls)) (snd (collected force fs ls)) ts live \<and>
    xthread_free (page s') = xthread_free p \<and> delayed s' = delayed s"
proof -
  note ok = ok [unfolded page_holds_def, folded p_def]
  have ch: "blocks_from (nxt s) (free p) fs" "blocks_from (nxt s) (local_free p) ls" "blocks_from (nxt s) (mi_page_thread_free p) ts"
    and d: "distinct (fs @ ls @ ts @ live)" using ok by (simp_all add: page_ok_def)
  note z = blocks_from_iff [OF ch(1)] blocks_from_iff [OF ch(2)]
  have th: "mi_page_thread_free (p\<lparr>free := x, local_free := y, free_is_zero := w\<rparr>) = mi_page_thread_free p" for x y w
    by (simp add: mi_page_thread_free_def)
  consider "ls = []" | "ls \<noteq> []" "fs = []" | "ls \<noteq> []" "fs \<noteq> []" "force" | "ls \<noteq> []" "fs \<noteq> []" "\<not> force" by blast
  then show ?thesis
  proof cases
    case 3
    obtain us where us: "ls = local_free p # us" using 3 ch(2) by (cases ls) auto
    have ft: "find_tail (nxt s) (local_free p) = Some (last ls)" using find_tail_last ch(2) us by metis
    have l: "last ls \<in> set ls" using 3 by simp
    have "blocks_from ((nxt s)(last ls := free p)) (local_free p) (ls @ fs)"
      using blocks_from_append [OF ch(2) _ ch(1)] 3 d by auto
    moreover have "blocks_from ((nxt s)(last ls := free p)) (mi_page_thread_free p) ts"
      using ch(3) l d by (auto intro!: blocks_from_frame [of "nxt s"])
    ultimately have "page_ok area bsize (p\<lparr>free := local_free p, local_free := 0, free_is_zero := False\<rparr>)
        ((nxt s)(last ls := free p)) (ls @ fs) [] ts live"
      using ok d by (auto simp: page_ok_def th)
    then show ?thesis using 3 z ft by (auto simp: page_holds_def collected_def mi_block_set_next_def)
  qed (use ok z in \<open>auto simp: page_holds_def collected_def p_def page_ok_def mi_page_thread_free_def\<close>)
qed

lemma free_collect_alone:
  assumes ok: "page_holds area bsize s fs ls ts live"
  shows "\<exists>s'. mi_page_free_collect alone never force s = Some (None, s') \<and>
    page_holds area bsize s' (fst (collected force fs (ts @ ls))) (snd (collected force fs (ts @ ls))) [] live \<and>
    mi_page_thread_free_flag (page s') = mi_page_thread_free_flag (page s) \<and> delayed s' = delayed s"
proof -
  have th: "mi_page_thread_free (page s) = 0 \<longleftrightarrow> ts = []"
    using ok blocks_from_iff [of "nxt s" "mi_page_thread_free (page s)" ts] by (simp add: page_holds_def page_ok_def)
  have clk: "page_holds area bsize (s\<lparr>clock := c\<rparr>) fs ls ts live" for c using ok by (simp add: page_holds_def)
  have "\<exists>s1. (if force then mi_page_thread_free_collect alone never s
        else
          (let (tfree, s) = tf_load alone s
           in if tfree AND NOT 3 \<noteq> 0 then mi_page_thread_free_collect alone never s else Some (None, s))) = Some (None, s1) \<and>
      page_holds area bsize s1 fs (ts @ ls) [] live \<and>
      mi_page_thread_free_flag (page s1) = mi_page_thread_free_flag (page s) \<and> delayed s1 = delayed s"
  proof (cases "force \<or> ts \<noteq> []")
    case True
    let ?s = "if force then s else s\<lparr>clock := Suc (clock s)\<rparr>"
    have "page_holds area bsize ?s fs ls ts live" using ok clk by auto
    from thread_free_collect_alone [OF this] show ?thesis using True th
      by (auto simp: tf_load_def others_def alone_def mi_page_thread_free_def Let_def split: if_splits)
  next
    case False
    then show ?thesis using th clk by (simp add: tf_load_def others_def alone_def mi_page_thread_free_def)
  qed
  then obtain s1 where s1: "(if force then mi_page_thread_free_collect alone never s
        else
          (let (tfree, s) = tf_load alone s
           in if tfree AND NOT 3 \<noteq> 0 then mi_page_thread_free_collect alone never s else Some (None, s))) = Some (None, s1)"
    "page_holds area bsize s1 fs (ts @ ls) [] live"
    "mi_page_thread_free_flag (page s1) = mi_page_thread_free_flag (page s)" "delayed s1 = delayed s"
    by blast
  from collect_local [OF s1(2), of None force] s1 show ?thesis
    unfolding mi_page_free_collect_def s1(1) by (auto simp: Let_def thread_free_flag)
qed

lemma page_malloc_ok:
  assumes ok: "page_ok area bsize p nx fs ls ts live"
  shows "case mi_page_malloc zero p nx of (r, p', nx') \<Rightarrow>
    (case fs of
       [] \<Rightarrow> r = None \<and> p' = p \<and> nx' = nx
     | b # fs' \<Rightarrow> (\<exists>z. r = Some (b, z)) \<and> page_ok area bsize p' nx' fs' ls ts (b # live))"
proof (cases fs)
  case Nil
  then show ?thesis using ok by (simp add: mi_page_malloc_def page_ok_def)
next
  case (Cons b fs')
  have b: "free p = b" "b \<noteq> 0" "blocks_from nx (nx b) fs'" using ok Cons by (auto simp: page_ok_def)
  have d: "b \<notin> set fs'" "b \<notin> set ls" "b \<notin> set ts" using ok Cons by (auto simp: page_ok_def)
  have used: "unat (used p + 1) = Suc (unat (used p))"
  proof -
    have "unat (used p) \<le> unat (capacity p)" using page_ok_used [OF ok] by simp
    then have "unat (used p) < 2 ^ 16" using unsigned_less [of "capacity p", where 'a = nat] by simp
    then show ?thesis by (subst unat_add_small) simp_all
  qed
  have th: "mi_page_thread_free (p\<lparr>used := u, free := f\<rparr>) = mi_page_thread_free p" for u f
    by (simp add: mi_page_thread_free_def)
  have "page_ok area bsize (p\<lparr>used := used p + 1, free := nx b\<rparr>) nx fs' ls ts (b # live)"
    using ok b d used Cons by (auto simp: page_ok_def th)
  moreover have "page_ok area bsize (p\<lparr>used := used p + 1, free := nx b\<rparr>) (nx(b := 0)) fs' ls ts (b # live)"
    using calculation d by (auto simp: page_ok_def th intro!: blocks_from_frame [of nx])
  ultimately show ?thesis using Cons b by (auto simp: mi_page_malloc_def mi_block_next_def mi_block_set_next_def Let_def)
qed

lemma push_local_free_ok:
  assumes ok: "page_ok area bsize p nx fs ls ts live" and b: "b \<in> set live"
  shows "case push_local_free b p nx of (p', nx') \<Rightarrow> page_ok area bsize p' nx' fs (b # ls) ts (remove1 b live)"
proof -
  have d: "b \<notin> set fs" "b \<notin> set ls" "b \<notin> set ts" "distinct live" using ok b by (auto simp: page_ok_def)
  have "b \<in> page_addrs area bsize (unat (capacity p))" using ok b by (auto simp: page_ok_def)
  then obtain j where j: "b = block_addr area bsize j" "j < unat (capacity p)" by (auto simp: page_addrs_def)
  have "unat (capacity p) \<le> unat (reserved p)" using ok by (simp add: page_ok_def word_le_nat_alt)
  then have nz: "b \<noteq> 0" using j block_addr_nonzero [of area bsize "unat (reserved p)" j] ok by (simp add: page_ok_def)
  have lp: "0 < length live" using b by (auto intro: length_pos_if_in_set)
  then have pos: "0 < unat (used p)" using ok by (auto simp: page_ok_def)
  then have "unat (used p - 1) = unat (used p) - 1" using unat_u32_sub [of 1 "used p"] by simp
  then have used: "unat (used p - 1) = length live - 1 + length ts"
    using ok lp unfolding page_ok_def by linarith
  have th: "mi_page_thread_free (p\<lparr>local_free := l, used := u\<rparr>) = mi_page_thread_free p" for l u
    by (simp add: mi_page_thread_free_def)
  have fr: "blocks_from (nx(b := v)) h xs" if "blocks_from nx h xs" "b \<notin> set xs" for v h xs
    using that by (auto intro: blocks_from_frame)
  have st: "set (fs @ (b # ls) @ ts @ remove1 b live) = set (fs @ ls @ ts @ live)" using b d(4) by auto
  show ?thesis unfolding push_local_free_def mi_block_set_next_def Let_def
    using ok d nz used b st fr by (auto simp: page_ok_def th length_remove1)
qed

section \<open>Frees by other threads\<close>

lemma block_of_page:
  assumes "page_ok area bsize p nx fs ls ts live" "b \<in> set live"
  shows "b \<noteq> 0" "b AND 3 = 0"
proof -
  have "b \<in> page_addrs area bsize (unat (capacity p))" using assms by (auto simp: page_ok_def)
  then obtain j where j: "b = block_addr area bsize j" "j < unat (capacity p)" by (auto simp: page_addrs_def)
  moreover have "unat (capacity p) \<le> unat (reserved p)" using assms by (simp add: page_ok_def word_le_nat_alt)
  ultimately show "b \<noteq> 0" "b AND 3 = 0"
    using block_addr_nonzero [of area bsize "unat (reserved p)" j] block_addr_low [of area bsize "unat (reserved p)" j] assms(1)
    by (simp_all add: page_ok_def)
qed

text \<open>Without the flag that asks for delayed freeing the block goes to the thread free list of the page.\<close>

lemma free_block_mt_thread_list:
  assumes ok: "page_holds area bsize s fs ls ts live" and b: "b \<in> set live"
    and fl: "mi_page_thread_free_flag (page s) \<noteq> MI_USE_DELAYED_FREE"
  shows "\<exists>s'. mi_free_block_mt alone never b s = Some s' \<and> page_holds area bsize s' fs ls (b # ts) (remove1 b live) \<and>
    mi_page_thread_free_flag (page s') = mi_page_thread_free_flag (page s) \<and> delayed s' = delayed s"
proof -
  note ok' = ok [unfolded page_holds_def]
  let ?p = "page s" and ?t = "xthread_free (page s)"
  note nz = block_of_page [OF ok' b]
  have d: "b \<notin> set fs" "b \<notin> set ls" "b \<notin> set ts" "distinct live" using ok' b by (auto simp: page_ok_def)
  let ?s = "s\<lparr>clock := Suc (Suc (clock s)), nxt := (nxt s)(b := mi_tf_block ?t),
      page := ?p\<lparr>xthread_free := mi_tf_set_block ?t b\<rparr>\<rparr>"
  have fl': "mi_tf_delayed ?t \<noteq> MI_USE_DELAYED_FREE" using fl by (simp add: thread_free_flag)
  have "push_thread_free alone never b ?t (s\<lparr>clock := Suc (clock s)\<rparr>) = Some (False, ?s)"
    using fl' by (subst push_thread_free.simps) (simp add: tf_defs mi_block_set_next_def Let_def)
  then have r: "mi_free_block_mt alone never b s = Some ?s"
    by (simp add: mi_free_block_mt_def tf_load_def others_def alone_def)
  have fr: "blocks_from ((nxt s)(b := v)) h xs" if "blocks_from (nxt s) h xs" "b \<notin> set xs" for v h xs
    using that by (auto intro: blocks_from_frame)
  have st: "set (fs @ ls @ (b # ts) @ remove1 b live) = set (fs @ ls @ ts @ live)" using b d(4) by auto
  have lp: "0 < length live" using b by (auto intro: length_pos_if_in_set)
  have "page_holds area bsize ?s fs ls (b # ts) (remove1 b live)"
    using ok' d nz b st fr lp by (auto simp: page_holds_def page_ok_def thread_free_block tf_set_simps length_remove1)
  then show ?thesis using r nz by (auto simp: thread_free_flag tf_set_simps)
qed

text \<open>
  With it the block goes to the delayed free list of the heap, where it still counts as used, and the flag
  changes so that later frees go to the page.
\<close>

lemma free_block_mt_delayed:
  assumes ok: "page_holds area bsize s fs ls ts live" and b: "b \<in> set live"
    and fl: "mi_page_thread_free_flag (page s) = MI_USE_DELAYED_FREE" and h: "xheap (page s) \<noteq> 0"
    and ds: "blocks_from (nxt s) (delayed s) ds" "b \<notin> set ds"
  shows "\<exists>s'. mi_free_block_mt alone never b s = Some s' \<and> page_holds area bsize s' fs ls ts live \<and>
    mi_page_thread_free_flag (page s') = MI_NO_DELAYED_FREE \<and> blocks_from (nxt s') (delayed s') (b # ds)"
proof -
  note ok' = ok [unfolded page_holds_def]
  let ?p = "page s" and ?t = "xthread_free (page s)" and ?c = "clock s"
  note nz = block_of_page [OF ok' b]
  have fl': "mi_tf_delayed ?t = MI_USE_DELAYED_FREE" using fl by (simp add: thread_free_flag)
  have d: "b \<notin> set fs" "b \<notin> set ls" "b \<notin> set ts" using ok' b by (auto simp: page_ok_def)
  let ?t1 = "mi_tf_set_delayed ?t MI_DELAYED_FREEING" and ?t2 = "mi_tf_set_delayed (mi_tf_set_delayed ?t MI_DELAYED_FREEING) MI_NO_DELAYED_FREE"
  have a: "push_thread_free alone never b ?t (s\<lparr>clock := Suc ?c\<rparr>) =
      Some (True, s\<lparr>clock := Suc (Suc ?c), page := ?p\<lparr>xthread_free := ?t1\<rparr>\<rparr>)"
    using fl' by (subst push_thread_free.simps) (simp add: tf_defs Let_def)
  have e: "push_delayed alone never b (delayed u) (u\<lparr>clock := k\<rparr>) =
      Some (u\<lparr>clock := Suc k, nxt := (nxt u)(b := delayed u), delayed := b\<rparr>)" for u k
    by (subst push_delayed.simps) (simp add: tf_defs mi_block_set_next_def Let_def)
  have g: "reset_delayed_freeing alone never (xthread_free (page u)) (u\<lparr>clock := k\<rparr>) =
      Some (u\<lparr>clock := Suc k, page := (page u)\<lparr>xthread_free := mi_tf_set_delayed (xthread_free (page u)) MI_NO_DELAYED_FREE\<rparr>\<rparr>)"
    for u k by (subst reset_delayed_freeing.simps) (simp add: tf_defs Let_def)
  have "\<exists>k. mi_free_block_mt alone never b s =
      Some (s\<lparr>clock := k, nxt := (nxt s)(b := delayed s), page := ?p\<lparr>xthread_free := ?t2\<rparr>, delayed := b\<rparr>)"
  proof -
    let ?u = "s\<lparr>clock := Suc (Suc ?c), page := ?p\<lparr>xthread_free := ?t1\<rparr>\<rparr>"
    let ?v = "?u\<lparr>clock := 5 + ?c, nxt := (nxt s)(b := delayed s), delayed := b\<rparr>"
    have "push_delayed alone never b (delayed s) (?u\<lparr>clock := 4 + ?c\<rparr>) = Some ?v" using e [of ?u "4 + ?c"] by simp
    moreover have "reset_delayed_freeing alone never ?t1 (?v\<lparr>clock := 6 + ?c\<rparr>) =
        Some (?v\<lparr>clock := 7 + ?c, page := ?p\<lparr>xthread_free := ?t2\<rparr>\<rparr>)" using g [of ?v "6 + ?c"] by simp
    ultimately show ?thesis using a h
      by (intro exI [of _ "7 + ?c"]) (simp add: mi_free_block_mt_def tf_load_def delayed_load_def others_def alone_def numeral_eq_Suc Let_def)
  qed
  then obtain k where r: "mi_free_block_mt alone never b s =
      Some (s\<lparr>clock := k, nxt := (nxt s)(b := delayed s), page := ?p\<lparr>xthread_free := ?t2\<rparr>, delayed := b\<rparr>)" ..
  have fr: "blocks_from ((nxt s)(b := v)) h xs" if "blocks_from (nxt s) h xs" "b \<notin> set xs" for v h xs
    using that by (auto intro: blocks_from_frame)
  have "page_ok area bsize (?p\<lparr>xthread_free := ?t2\<rparr>) ((nxt s)(b := delayed s)) fs ls ts live"
    using ok' d fr by (auto simp: page_ok_def thread_free_block tf_set_simps)
  moreover have "blocks_from ((nxt s)(b := delayed s)) b (b # ds)" using ds fr nz by simp
  ultimately show ?thesis unfolding r by (auto simp: page_holds_def thread_free_flag tf_set_simps)
qed

end
