(* ===== verification/Mi_Page_Extend.thy ===== *)
theory Mi_Page_Extend
  imports Mi_Page_Lists
begin

text \<open>
  Extending the free list of a page, sequentially and in random order: the new blocks come to the front of
  the free list, each exactly once.
\<close>

section \<open>The choice of the next slice\<close>

lemma next_slice_found:
  assumes "k < n" "i < n" "counts ! i \<noteq> 0"
  shows "\<exists>j. next_slice counts n k = Some j \<and> j < n \<and> counts ! j \<noteq> 0"
proof -
  have "\<exists>d. counts ! ((k + d) mod n) \<noteq> 0"
    using assms by (intro exI [of _ "i + n - k"]) simp
  then obtain d where d: "counts ! ((k + d) mod n) \<noteq> 0" by blast
  show ?thesis using assms(1) d
  proof (induction d arbitrary: k)
    case 0
    then show ?case by (subst next_slice.simps) simp
  next
    case (Suc d)
    let ?k = "if k + 1 = n then 0 else k + 1"
    show ?case
    proof (cases "counts ! k = 0")
      case True
      have "?k < n" using Suc.prems(1) by auto
      moreover have "(?k + d) mod n = (k + Suc d) mod n"
      proof (cases "k + 1 = n")
        case True
        then have "k + Suc d = d + n" by simp
        then show ?thesis using True by (simp only: mod_add_self2) simp
      qed simp
      ultimately obtain j where "next_slice counts n ?k = Some j" "j < n" "counts ! j \<noteq> 0"
        using Suc.IH [of ?k] Suc.prems(2) by auto
      then show ?thesis using True by (subst next_slice.simps) (auto simp: Let_def split: if_splits)
    next
      case False
      then show ?thesis using Suc.prems(1) by (subst next_slice.simps) simp
    qed
  qed
qed

lemma slice_shift_le: "slice_shift e s \<le> s" "0 < e \<Longrightarrow> 2 ^ slice_shift e s \<le> e"
proof (induction s)
  case (Suc s)
  { case 1 show ?case using Suc(1) by simp }
  { case 2 show ?case using Suc(2) [OF 2] by (simp add: drop_bit_eq_div div_eq_0_iff not_less) }
qed simp_all

lemma slice_index: "s < 64 \<Longrightarrow> unat (x AND word_of_nat (2 ^ s - 1) :: u64) < 2 ^ s"
proof -
  assume "s < 64"
  have "word_of_nat (2 ^ s - 1) = (mask s :: u64)" by (simp add: mask_eq_exp_minus_1 of_nat_diff)
  then show ?thesis by (simp add: unat_and_mask)
qed

section \<open>Random threading\<close>

text \<open>
  The state of the rounds: \<open>pos ! i\<close> is the index of the first block of slice \<open>i\<close> that has no successor yet; the block of the
  current slice is in the list already. The slices start at \<open>lo i\<close> and end at \<open>lo (Suc i)\<close>; \<open>vs\<close> are the blocks linked so far.
\<close>

definition rounds_inv ::
    "addr \<Rightarrow> size_t \<Rightarrow> nat \<Rightarrow> (nat \<Rightarrow> nat) \<Rightarrow> addr \<Rightarrow> nat \<Rightarrow> nat list \<Rightarrow> nat list \<Rightarrow> nat list \<Rightarrow> next_map \<Rightarrow> next_map \<Rightarrow> bool" where
  "rounds_inv area bsize n lo start current pos counts vs nx0 nx \<longleftrightarrow>
     current < n \<and> length pos = n \<and> length counts = n \<and>
     (\<forall>i < n. lo i \<le> pos ! i \<and> pos ! i + counts ! i + (if i = current then 1 else 0) = lo (Suc i)) \<and>
     distinct vs \<and> set vs = {j. \<exists>i < n. lo i \<le> j \<and> j < pos ! i} \<and>
     segment nx start (map (block_addr area bsize) vs) (block_addr area bsize (pos ! current)) \<and>
     (\<forall>x. x \<notin> block_addr area bsize ` {lo 0..<lo n} \<longrightarrow> nx x = nx0 x)"

lemma lo_mono:
  assumes "\<And>i. i < n \<Longrightarrow> lo i \<le> lo (Suc i)" "i \<le> j" "j \<le> n"
  shows "lo i \<le> (lo j :: nat)"
  using assms(2,3)
proof (induction j rule: dec_induct)
  case (step k)
  then show ?case using assms(1) [of k] by simp
qed simp

lemma rounds_inv_lo:
  assumes "rounds_inv area bsize n lo start current pos counts vs nx0 nx" "i \<le> j" "j \<le> n"
  shows "lo i \<le> lo j"
proof (rule lo_mono [OF _ assms(2,3)])
  fix i assume "i < n"
  then have "lo i \<le> pos ! i \<and> pos ! i + counts ! i + (if i = current then 1 else 0) = lo (Suc i)"
    using assms(1) unfolding rounds_inv_def by blast
  then show "lo i \<le> lo (Suc i)" by linarith
qed

text \<open>The block of the current slice is not linked yet.\<close>

lemma current_fresh:
  assumes inv: "rounds_inv area bsize n lo start current pos counts vs nx0 nx"
  shows "pos ! current \<notin> set vs" "lo 0 \<le> pos ! current" "pos ! current < lo n"
proof -
  have c: "current < n" "lo current \<le> pos ! current" "pos ! current < lo (Suc current)"
    using inv by (auto simp: rounds_inv_def)
  show "lo 0 \<le> pos ! current" using rounds_inv_lo [OF inv, of 0 current] c by linarith
  show "pos ! current < lo n" using rounds_inv_lo [OF inv, of "Suc current" n] c by linarith
  show "pos ! current \<notin> set vs"
  proof
    assume "pos ! current \<in> set vs"
    then obtain i where i: "i < n" "lo i \<le> pos ! current" "pos ! current < pos ! i" using inv by (auto simp: rounds_inv_def)
    have e: "pos ! i \<le> lo (Suc i)" using inv i(1) by (auto simp: rounds_inv_def)
    consider "i < current" | "i = current" | "current < i" by linarith
    then show False
    proof cases
      case 1
      then show ?thesis using rounds_inv_lo [OF inv, of "Suc i" current] c e i by linarith
    next
      case 3
      then show ?thesis using rounds_inv_lo [OF inv, of "Suc current" i] c i by linarith
    qed (use i in simp)
  qed
qed

lemma rounds_step:
  assumes inv: "rounds_inv area bsize n lo start current pos counts vs nx0 nx"
    and nxt: "next < n" "counts ! next \<noteq> 0" and ao: "area_ok area bsize m" "lo n \<le> m"
  defines "pos' \<equiv> pos[current := Suc (pos ! current)]"
  shows "rounds_inv area bsize n lo start next pos' (counts[next := counts ! next - 1]) (vs @ [pos ! current]) nx0
    (nx(block_addr area bsize (pos ! current) := block_addr area bsize (pos' ! next)))"
proof -
  let ?A = "block_addr area bsize" and ?c = "pos ! current"
  note cf = current_fresh [OF inv]
  have c: "current < n" "length pos = n" "length counts = n" using inv by (auto simp: rounds_inv_def)
  have vb: "j < lo n" if "j \<in> set vs" for j
  proof -
    obtain i where i: "i < n" "j < pos ! i" using inv \<open>j \<in> set vs\<close> by (auto simp: rounds_inv_def)
    have "pos ! i \<le> lo (Suc i)" using inv i(1) by (auto simp: rounds_inv_def)
    then show ?thesis using rounds_inv_lo [OF inv, of "Suc i" n] i by simp
  qed
  have new: "?A ?c \<notin> ?A ` set vs"
  proof
    assume "?A ?c \<in> ?A ` set vs"
    then obtain j where "j \<in> set vs" "?A ?c = ?A j" by blast
    then show False using block_addr_inj [OF ao(1), of ?c j] cf vb [of j] ao(2) by auto
  qed
  have nz: "?A ?c \<noteq> 0" using block_addr_nonzero [OF ao(1)] cf(3) ao(2) by simp
  have slices: "\<forall>i < n. lo i \<le> pos' ! i \<and> pos' ! i + (counts[next := counts ! next - 1]) ! i + (if i = next then 1 else 0) = lo (Suc i)"
  proof (intro allI impI)
    fix i assume i: "i < n"
    then have "lo i \<le> pos ! i" "pos ! i + counts ! i + (if i = current then 1 else 0) = lo (Suc i)"
      using inv by (auto simp: rounds_inv_def)
    then show "lo i \<le> pos' ! i \<and> pos' ! i + (counts[next := counts ! next - 1]) ! i + (if i = next then 1 else 0) = lo (Suc i)"
      using i c nxt by (auto simp: pos'_def nth_list_update)
  qed
  have "set (vs @ [?c]) = {j. \<exists>i < n. lo i \<le> j \<and> j < pos' ! i}"
  proof -
    have "lo current \<le> ?c" using inv c by (auto simp: rounds_inv_def)
    moreover have "set vs = {j. \<exists>i < n. lo i \<le> j \<and> j < pos ! i}" using inv by (simp add: rounds_inv_def)
    ultimately show ?thesis using c by (auto simp: pos'_def nth_list_update less_Suc_eq)
  qed
  moreover have "segment (nx(?A ?c := ?A (pos' ! next))) start (map ?A vs) (?A ?c)"
  proof (rule segment_frame)
    show "segment nx start (map ?A vs) (?A ?c)" using inv by (simp add: rounds_inv_def)
    show "\<And>x. x \<in> set (map ?A vs) \<Longrightarrow> (nx(?A ?c := ?A (pos' ! next))) x = nx x"
      using new by (metis fun_upd_apply list.set_map)
  qed
  moreover have "?A ?c \<in> ?A ` {lo 0..<lo n}" using cf by auto
  ultimately show ?thesis
    using inv nxt c cf(1) slices nz unfolding rounds_inv_def by (auto simp: segment_snoc pos'_def)
qed

lemma secure_rounds_all:
  assumes "rounds_inv area bsize n lo start current pos counts vs nx0 nx" "sum_list counts = k"
    "area_ok area bsize m" "lo n \<le> m" "n = 2 ^ s" "s < 64"
  shows "\<exists>current' pos' vs' nx'. secure_rounds k i bsize n rnd current (map (block_addr area bsize) pos) counts nx =
      Some (current', map (block_addr area bsize) pos', nx') \<and>
    rounds_inv area bsize n lo start current' pos' (replicate n 0) vs' nx0 nx'"
  using assms(1,2)
proof (induction k arbitrary: i rnd current pos counts vs nx)
  case 0
  then have "counts = replicate n 0" by (auto simp: rounds_inv_def intro!: replicate_eqI)
  then show ?case using "0.prems"(1) by auto
next
  case (Suc k)
  let ?A = "block_addr area bsize"
  let ?rnd = "if i mod 8 = 0 then mi_random_shuffle rnd else rnd"
  let ?k = "unat (drop_bit (8 * (i mod 8)) ?rnd AND word_of_nat (n - 1))"
  have len: "length pos = n" "length counts = n" "current < n" using Suc.prems(1) by (auto simp: rounds_inv_def)
  have k: "?k < n" using slice_index [OF assms(6)] assms(5) by simp
  obtain j where j: "j < n" "counts ! j \<noteq> 0"
    using Suc.prems(2) len(2) by (metis Zero_not_Suc in_set_conv_nth sum_list_eq_0_iff)
  obtain nx1 where ns: "next_slice counts n ?k = Some nx1" "nx1 < n" "counts ! nx1 \<noteq> 0"
    using next_slice_found [OF k j] by blast
  let ?c = "pos ! current"
  define pos1 where "pos1 = pos[current := Suc ?c]"
  let ?cs = "counts[nx1 := counts ! nx1 - 1]"
  have sum: "sum_list ?cs = k" using Suc.prems(2) ns(2,3) len(2) by (simp add: sum_list_update)
  note inv = rounds_step [OF Suc.prems(1) ns(2,3) assms(3,4), folded pos1_def]
  from Suc.IH [OF inv sum, of "i + 1" ?rnd] obtain current' pos' vs' nx' where
    ih: "secure_rounds k (i + 1) bsize n ?rnd nx1 (map ?A pos1) ?cs (nx(?A ?c := ?A (pos1 ! nx1))) =
      Some (current', map ?A pos', nx')" "rounds_inv area bsize n lo start current' pos' (replicate n 0) vs' nx0 nx'"
    by blast
  have b: "(map ?A pos)[current := map ?A pos ! current + bsize] = map ?A pos1"
    using len by (simp add: pos1_def map_update block_addr_Suc)
  have "secure_rounds (Suc k) i bsize n rnd current (map ?A pos) counts nx =
      secure_rounds k (i + 1) bsize n ?rnd nx1 (map ?A pos1) ?cs (nx(?A ?c := ?A (pos1 ! nx1)))"
    using ns b len by (simp add: Let_def mi_block_set_next_def pos1_def)
  then show ?case using ih by auto
qed

text \<open>At the end every block of the slices is linked.\<close>

lemma rounds_done:
  assumes inv: "rounds_inv area bsize n lo start current pos (replicate n 0) vs nx0 nx"
  shows "distinct (vs @ [pos ! current])" "set (vs @ [pos ! current]) = {lo 0..<lo n}"
proof -
  note cf = current_fresh [OF inv]
  show "distinct (vs @ [pos ! current])" using cf inv by (simp add: rounds_inv_def)
  have p: "lo i \<le> pos ! i" "pos ! i = (if i = current then lo (Suc i) - 1 else lo (Suc i))" "i = current \<Longrightarrow> pos ! i < lo (Suc i)"
    if "i < n" for i
  proof -
    have "lo i \<le> pos ! i" "pos ! i + replicate n 0 ! i + (if i = current then 1 else 0) = lo (Suc i)"
      using inv that by (auto simp: rounds_inv_def)
    then show "lo i \<le> pos ! i" "pos ! i = (if i = current then lo (Suc i) - 1 else lo (Suc i))" "i = current \<Longrightarrow> pos ! i < lo (Suc i)"
      using that by (auto split: if_splits)
  qed
  have vs: "set vs = {j. \<exists>i < n. lo i \<le> j \<and> j < pos ! i}" and c: "current < n" using inv by (simp_all add: rounds_inv_def)
  show "set (vs @ [pos ! current]) = {lo 0..<lo n}"
  proof (intro set_eqI iffI)
    fix j assume "j \<in> set (vs @ [pos ! current])"
    then consider i where "i < n" "lo i \<le> j" "j < pos ! i" | "j = pos ! current" using vs by auto
    then show "j \<in> {lo 0..<lo n}"
    proof cases
      case 1
      have "pos ! i \<le> lo (Suc i)" using p(2) [OF 1(1)] by simp
      then show ?thesis using 1 rounds_inv_lo [OF inv, of 0 i] rounds_inv_lo [OF inv, of "Suc i" n] by simp
    qed (use cf in simp)
  next
    fix j assume j: "j \<in> {lo 0..<lo n}"
    have "\<exists>i < k. lo i \<le> j \<and> j < lo (Suc i)" if "lo 0 \<le> j" "j < lo k" for k
      using that(2)
    proof (induction k)
      case (Suc k)
      then show ?case by (cases "j < lo k") (auto simp: less_Suc_eq)
    qed (use that in simp)
    then obtain i where i: "i < n" "lo i \<le> j" "j < lo (Suc i)" using j by auto
    show "j \<in> set (vs @ [pos ! current])"
    proof (cases "j < pos ! i")
      case True
      then show ?thesis using vs i by auto
    next
      case False
      then have "i = current \<and> j = pos ! i" using p(2,3) [OF i(1)] i by (cases "i = current") auto
      then show ?thesis by simp
    qed
  qed
qed

text \<open>A permutation of the new blocks comes before the old free list.\<close>

definition extends_free :: "addr \<Rightarrow> size_t \<Rightarrow> nat \<Rightarrow> mi_page_t \<Rightarrow> next_map \<Rightarrow> mi_page_t \<Rightarrow> next_map \<Rightarrow> bool" where
  "extends_free area bsize n p nx p' nx' \<longleftrightarrow>
     (\<exists>h js. p' = p\<lparr>free := h\<rparr> \<and> distinct js \<and> set js = {unat (capacity p)..<unat (capacity p) + n} \<and>
       (\<forall>fs. blocks_from nx (free p) fs \<longrightarrow> set fs \<inter> block_addr area bsize ` set js = {} \<longrightarrow>
          blocks_from nx' h (map (block_addr area bsize) js @ fs)) \<and>
       (\<forall>x. x \<notin> block_addr area bsize ` set js \<longrightarrow> nx' x = nx x))"

lemma free_list_extend_secure_ok:
  assumes "0 < n" "area_ok area bsize m" "unat (capacity p) + n \<le> m"
  shows "\<exists>p' nx'. mi_page_free_list_extend_secure r area bsize n p nx = Some (p', nx') \<and> extends_free area bsize n p nx p' nx'"
proof -
  let ?A = "block_addr area bsize" and ?cap = "unat (capacity p)"
  define s where "s = slice_shift n MI_MAX_SLICE_SHIFT"
  define k where "k = (2 :: nat) ^ s"
  define q where "q = n div k"
  define lo where "lo = (\<lambda>i. if i < k then ?cap + i * q else ?cap + n)"
  have s: "s < 64" "k \<le> n" "0 < k"
    using slice_shift_le(1) [of n MI_MAX_SLICE_SHIFT] slice_shift_le(2) [OF assms(1), of MI_MAX_SLICE_SHIFT]
    by (simp_all add: s_def k_def MI_MAX_SLICE_SHIFT_def)
  have q: "0 < q" "n = k * q + n mod k" using s by (simp_all add: q_def div_greater_zero_iff)
  define pos where "pos = map lo [0..<k]"
  define cs0 where "cs0 = (replicate k q)[k - 1 := q + n mod k]"
  define cur where "cur = unat (r mod word_of_nat k)"
  define cs where "cs = cs0[cur := cs0 ! cur - 1]"
  have cur: "cur < k"
  proof -
    have "k < 2 ^ 64" unfolding k_def using s(1) by (intro power_strict_increasing) simp_all
    then have "unat (word_of_nat k :: u64) = k" by (intro unat_of_nat_small) simp
    then show ?thesis using s(3) by (simp add: cur_def unat_mod)
  qed
  have len: "length pos = k" "length cs0 = k" "length cs = k" by (simp_all add: pos_def cs0_def cs_def)
  have c0: "cs0 ! i = (if i = k - 1 then q + n mod k else q)" if "i < k" for i using that by (simp add: cs0_def nth_list_update)
  have lo1: "lo i + cs0 ! i = lo (Suc i)" if "i < k" for i
  proof (cases "Suc i < k")
    case True
    then show ?thesis using that c0 by (simp add: lo_def)
  next
    case False
    then have i: "k = Suc i" using that by simp
    then have "n = i * q + q + n mod k" using q(2) by (simp add: add.commute)
    then show ?thesis using that c0 [OF that] i by (simp add: lo_def)
  qed
  have inv: "rounds_inv area bsize k lo (?A (pos ! cur)) cur pos cs [] nx nx"
  proof -
    have "lo i \<le> pos ! i \<and> pos ! i + cs ! i + (if i = cur then 1 else 0) = lo (Suc i)" if "i < k" for i
    proof -
      have "0 < cs0 ! i" using c0 [OF that] q(1) by auto
      moreover have "pos ! i = lo i" using that by (simp add: pos_def)
      ultimately show ?thesis using lo1 [OF that] that len by (cases "i = cur") (simp_all add: cs_def)
    qed
    moreover have "{j. \<exists>i < k. lo i \<le> j \<and> j < pos ! i} = {}" by (auto simp: pos_def)
    ultimately show ?thesis using cur len by (simp add: rounds_inv_def)
  qed
  have sum: "sum_list cs = n - 1"
  proof -
    have t: "sum_list cs0 = n"
      using s(3) q(2) unfolding cs0_def by (subst sum_list_update) (simp_all add: sum_list_replicate)
    have "0 < cs0 ! cur" using c0 [OF cur] q(1) by auto
    then show ?thesis using t cur len by (simp add: cs_def sum_list_update)
  qed
  have lon: "lo k = ?cap + n" "lo 0 = ?cap" using s(3) by (simp_all add: lo_def)
  obtain cur' pos' vs nx1 where sr: "secure_rounds (n - 1) 1 bsize k (mi_random_shuffle (r OR 1)) cur (map ?A pos) cs nx =
      Some (cur', map ?A pos', nx1)" "rounds_inv area bsize k lo (?A (pos ! cur)) cur' pos' (replicate k 0) vs nx nx1"
  proof -
    have lm: "lo k \<le> m" using lon assms(3) by simp
    from secure_rounds_all [OF inv sum assms(2) lm k_def s(1), of 1 "mi_random_shuffle (r OR 1)"] show ?thesis
      using that by blast
  qed
  note dn = rounds_done [OF sr(2)] and cf = current_fresh [OF sr(2)]
  have cur': "cur' < k" "length pos' = k" using sr(2) by (auto simp: rounds_inv_def)
  let ?nx = "nx1(?A (pos' ! cur') := free p)" and ?js = "vs @ [pos' ! cur']"
  have bl: "map (\<lambda>i. mi_page_block_at area bsize (ucast (capacity p) + word_of_nat (i * q))) [0..<k] = map ?A pos"
    by (simp add: pos_def lo_def block_addr_def)
  have ex: "mi_page_free_list_extend_secure r area bsize n p nx = Some (p\<lparr>free := ?A (pos ! cur)\<rparr>, ?nx)"
    unfolding mi_page_free_list_extend_secure_def Let_def s_def [symmetric] k_def [symmetric] q_def [symmetric] bl
    using sr(1) cur cur' len s(3) by (simp add: cs_def cs0_def cur_def [symmetric] mi_block_set_next_def)
  have keep: "?nx x = nx x" if "x \<notin> ?A ` set ?js" for x
  proof -
    have "x \<noteq> ?A (pos' ! cur')" using that by auto
    moreover have "nx1 x = nx x" using sr(2) that unfolding rounds_inv_def dn(2) lon by blast
    ultimately show ?thesis by simp
  qed
  have "blocks_from ?nx (?A (pos ! cur)) (map ?A ?js @ fs)"
    if fs: "blocks_from nx (free p) fs" "set fs \<inter> ?A ` set ?js = {}" for fs
  proof -
    have new: "?A (pos' ! cur') \<notin> ?A ` set vs"
    proof
      assume "?A (pos' ! cur') \<in> ?A ` set vs"
      then obtain j where j: "j \<in> set vs" "?A (pos' ! cur') = ?A j" by blast
      then have "j < lo k" using dn(2) by auto
      then show False using j block_addr_inj [OF assms(2), of "pos' ! cur'" j] cf lon assms(3) by auto
    qed
    have "segment nx1 (?A (pos ! cur)) (map ?A vs) (?A (pos' ! cur'))" using sr(2) by (simp add: rounds_inv_def)
    then have "segment ?nx (?A (pos ! cur)) (map ?A vs) (?A (pos' ! cur'))"
      by (rule segment_frame) (use new in \<open>metis fun_upd_apply list.set_map\<close>)
    moreover have "?A (pos' ! cur') \<noteq> 0" using block_addr_nonzero [OF assms(2)] cf(3) lon assms(3) by simp
    ultimately have "segment ?nx (?A (pos ! cur)) (map ?A ?js) (free p)" by (simp add: segment_snoc)
    moreover have "blocks_from ?nx (free p) fs"
    proof (rule blocks_from_frame [OF fs(1)])
      fix x assume "x \<in> set fs"
      then have "x \<notin> ?A ` set ?js" using fs(2) by blast
      then show "?nx x = nx x" by (rule keep)
    qed
    ultimately show ?thesis by (rule segment_blocks)
  qed
  note lst = this
  have "extends_free area bsize n p nx (p\<lparr>free := ?A (pos ! cur)\<rparr>) ?nx"
    unfolding extends_free_def
  proof (intro exI [of _ "?A (pos ! cur)"] exI [of _ ?js] conjI allI impI)
    show "set ?js = {?cap..<?cap + n}" using dn(2) lon by simp
  qed (use dn(1) lst keep in blast)+
  then show ?thesis using ex by blast
qed

section \<open>Sequential extension\<close>

lemma link_blocks_seq:
  assumes "area_ok area bsize m" "i + n \<le> m" "0 < n"
  shows "\<exists>nx'. link_blocks bsize (block_addr area bsize (i + n - 1)) (block_addr area bsize i) nx = Some nx' \<and>
    segment nx' (block_addr area bsize i) (map (block_addr area bsize) [i..<i + n]) (block_addr area bsize (i + n)) \<and>
    (\<forall>x. x \<notin> block_addr area bsize ` {i..<i + n} \<longrightarrow> nx' x = nx x)"
  using assms(2,3)
proof (induction n arbitrary: i nx)
  case (Suc n)
  let ?A = "block_addr area bsize"
  have less: "?A a \<le> ?A b \<longleftrightarrow> a \<le> b" if "a \<le> m" "b \<le> m" for a b
  proof -
    have "0 < unat bsize" using assms(1) by (simp add: area_ok_def)
    then show ?thesis unfolding word_le_nat_alt block_addr_unat [OF assms(1) that(1)] block_addr_unat [OF assms(1) that(2)] by simp
  qed
  have inj: "?A a = ?A b \<longleftrightarrow> a = b" if "a \<le> m" "b \<le> m" for a b by (rule block_addr_inj [OF assms(1) that])
  have nz: "?A i \<noteq> 0" using block_addr_nonzero [OF assms(1), of i] Suc.prems by simp
  let ?nx = "nx(?A i := ?A (Suc i))"
  have step: "link_blocks bsize (?A (i + n)) (?A i) nx = link_blocks bsize (?A (i + n)) (?A (Suc i)) ?nx"
    using less [of i "i + n"] Suc.prems by (subst link_blocks.simps) (simp add: mi_block_set_next_def block_addr_Suc Let_def)
  show ?case
  proof (cases n)
    case 0
    have "link_blocks bsize (?A i) (?A (Suc i)) ?nx = Some ?nx"
      using less [of "Suc i" i] Suc.prems by (subst link_blocks.simps) simp
    then show ?thesis using step 0 nz by (auto simp: image_iff)
  next
    case (Suc n')
    obtain nx' where ih: "link_blocks bsize (?A (Suc i + n - 1)) (?A (Suc i)) ?nx = Some nx'"
      "segment nx' (?A (Suc i)) (map ?A [Suc i..<Suc i + n]) (?A (Suc i + n))"
      "\<forall>x. x \<notin> ?A ` {Suc i..<Suc i + n} \<longrightarrow> nx' x = ?nx x"
    proof -
      have "Suc i + n \<le> m" "0 < n" using Suc.prems Suc by simp_all
      from Suc.IH [OF this, of ?nx] show ?thesis using that by blast
    qed
    have "?A i \<notin> ?A ` {Suc i..<Suc i + n}"
    proof
      assume "?A i \<in> ?A ` {Suc i..<Suc i + n}"
      then obtain j where "j \<in> {Suc i..<Suc i + n}" "?A i = ?A j" by blast
      then show False using inj [of i j] Suc.prems by simp
    qed
    then have "nx' (?A i) = ?A (Suc i)" using ih(3) by auto
    moreover have "[i..<i + Suc n] = i # [Suc i..<Suc i + n]" by (simp add: upt_rec)
    moreover have "nx' x = nx x" if "x \<notin> ?A ` {i..<i + Suc n}" for x
    proof -
      have "x \<noteq> ?A i" "x \<notin> ?A ` {Suc i..<Suc i + n}" using that by auto
      then show ?thesis using ih(3) by simp
    qed
    ultimately show ?thesis using step ih(1,2) nz by auto
  qed
qed simp

lemma free_list_extend_ok:
  assumes "0 < n" "area_ok area bsize m" "unat (capacity p) + n \<le> m"
  shows "\<exists>p' nx'. mi_page_free_list_extend area bsize n p nx = Some (p', nx') \<and> extends_free area bsize n p nx p' nx'"
proof -
  let ?A = "block_addr area bsize" and ?c = "unat (capacity p)"
  obtain nx1 where l: "link_blocks bsize (?A (?c + n - 1)) (?A ?c) nx = Some nx1"
    "segment nx1 (?A ?c) (map ?A [?c..<?c + n]) (?A (?c + n))" "\<forall>x. x \<notin> ?A ` {?c..<?c + n} \<longrightarrow> nx1 x = nx x"
    using link_blocks_seq [OF assms(2,3,1)] by blast
  obtain n' where n': "n = Suc n'" using assms(1) by (cases n) simp_all
  let ?last = "?A (?c + n')" and ?nx = "nx1(?A (?c + n') := free p)"
  have a: "mi_page_block_at area bsize (ucast (capacity p)) = ?A ?c" by (simp add: block_addr_def)
  have b: "mi_page_block_at area bsize (ucast (capacity p) + word_of_nat n - 1) = ?last" by (simp add: block_addr_def n')
  have ex: "mi_page_free_list_extend area bsize n p nx = Some (p\<lparr>free := ?A ?c\<rparr>, ?nx)"
    unfolding mi_page_free_list_extend_def Let_def a b using l(1) n' by (simp add: mi_block_set_next_def)
  have js: "map ?A [?c..<?c + n] = map ?A [?c..<?c + n'] @ [?last]" by (simp add: n')
  have new: "?last \<notin> set (map ?A [?c..<?c + n'])"
  proof
    assume "?last \<in> set (map ?A [?c..<?c + n'])"
    then obtain j where "j < ?c + n'" "?last = ?A j" by auto
    then show False using block_addr_inj [OF assms(2), of "?c + n'" j] assms(3) n' by simp
  qed
  have "blocks_from ?nx (?A ?c) (map ?A [?c..<?c + n] @ fs)"
    if fs: "blocks_from nx (free p) fs" "set fs \<inter> ?A ` {?c..<?c + n} = {}" for fs
  proof -
    have "segment nx1 (?A ?c) (map ?A [?c..<?c + n']) ?last" "?last \<noteq> 0" using l(2) unfolding js segment_snoc by auto
    moreover have "segment ?nx (?A ?c) (map ?A [?c..<?c + n']) ?last"
      by (rule segment_frame [OF calculation(1)]) (use new in \<open>metis fun_upd_apply\<close>)
    ultimately have "segment ?nx (?A ?c) (map ?A [?c..<?c + n]) (free p)" unfolding js segment_snoc by simp
    moreover have "blocks_from ?nx (free p) fs"
      by (rule blocks_from_frame [OF fs(1)]) (use fs(2) l(3) n' in \<open>auto simp: disjoint_iff image_iff\<close>)
    ultimately show ?thesis by (rule segment_blocks)
  qed
  moreover have "?nx x = nx x" if "x \<notin> ?A ` {?c..<?c + n}" for x using that l(3) n' by (auto simp: image_iff)
  ultimately have "extends_free area bsize n p nx (p\<lparr>free := ?A ?c\<rparr>) ?nx"
    unfolding extends_free_def by (intro exI [of _ "?A ?c"] exI [of _ "[?c..<?c + n]"]) auto
  then show ?thesis using ex by blast
qed

section \<open>Extending a page\<close>

lemma extends_free_page:
  assumes ok: "page_ok area bsize p nx fs ls ts live" and e: "extends_free area bsize n p nx p' nx'"
    and n: "0 < n" "unat (capacity p) + n \<le> unat (reserved p)"
  shows "\<exists>new. new \<noteq> [] \<and> page_ok area bsize (p'\<lparr>capacity := capacity p' + word_of_nat n\<rparr>) nx' (new @ fs) ls ts live"
proof -
  let ?A = "block_addr area bsize" and ?c = "unat (capacity p)"
  obtain h js where e: "p' = p\<lparr>free := h\<rparr>" "distinct js" "set js = {?c..<?c + n}"
    "\<And>fs. blocks_from nx (free p) fs \<Longrightarrow> set fs \<inter> ?A ` set js = {} \<Longrightarrow> blocks_from nx' h (map ?A js @ fs)"
    "\<And>x. x \<notin> ?A ` set js \<Longrightarrow> nx' x = nx x"
    using e unfolding extends_free_def by blast
  have ao: "area_ok area bsize (unat (reserved p))" using ok by (simp add: page_ok_def)
  have inj: "inj_on ?A {..<?c + n}" using block_addr_inj [OF ao] n(2) by (auto simp: inj_on_def)
  have ap: "?A ` set js \<inter> page_addrs area bsize ?c = {}"
  proof -
    have "?A ` set js \<inter> ?A ` {..<?c} = ?A ` (set js \<inter> {..<?c})"
      by (rule inj_on_image_Int [OF inj, symmetric]) (use e(3) in auto)
    moreover have "set js \<inter> {..<?c} = {}" using e(3) by auto
    ultimately show ?thesis by (simp add: page_addrs_def)
  qed
  have old: "set (fs @ ls @ ts @ live) = page_addrs area bsize ?c" "distinct (fs @ ls @ ts @ live)"
    using ok by (simp_all add: page_ok_def)
  have sub: "set fs \<inter> ?A ` set js = {}" "set ls \<inter> ?A ` set js = {}" "set ts \<inter> ?A ` set js = {}" "set live \<inter> ?A ` set js = {}"
    using ap old(1) by auto
  have cap: "unat (capacity p + word_of_nat n) = ?c + n"
  proof -
    have "?c + n < 2 ^ 16" using n(2) unsigned_less [of "reserved p", where 'a = nat] by simp
    then show ?thesis by (subst unat_add_small) (simp_all add: unat_of_nat_small)
  qed
  have th: "mi_page_thread_free (p\<lparr>free := f, capacity := c\<rparr>) = mi_page_thread_free p" for f c
    by (simp add: mi_page_thread_free_def)
  have ch: "blocks_from nx' h (map ?A js @ fs)" "blocks_from nx' (local_free p) ls" "blocks_from nx' (mi_page_thread_free p) ts"
  proof -
    have o: "blocks_from nx (free p) fs" "blocks_from nx (local_free p) ls" "blocks_from nx (mi_page_thread_free p) ts"
      using ok by (simp_all add: page_ok_def)
    show "blocks_from nx' h (map ?A js @ fs)" by (rule e(4) [OF o(1) sub(1)])
    have fr: "blocks_from nx' q xs" if "blocks_from nx q xs" "set xs \<inter> ?A ` set js = {}" for q xs
      by (rule blocks_from_frame [OF that(1)]) (use that(2) e(5) in blast)
    show "blocks_from nx' (local_free p) ls" by (rule fr [OF o(2) sub(2)])
    show "blocks_from nx' (mi_page_thread_free p) ts" by (rule fr [OF o(3) sub(3)])
  qed
  have "{..<?c + n} = {?c..<?c + n} \<union> {..<?c}" by auto
  then have st: "set ((map ?A js @ fs) @ ls @ ts @ live) = page_addrs area bsize (?c + n)"
    using old(1) e(3) by (auto simp: page_addrs_def image_Un)
  have ds: "distinct ((map ?A js @ fs) @ ls @ ts @ live)"
  proof -
    have "distinct (map ?A js)" using e(2) inj e(3) by (auto simp: distinct_map intro: inj_on_subset)
    then show ?thesis using old(2) sub by auto
  qed
  have "page_ok area bsize (p'\<lparr>capacity := capacity p' + word_of_nat n\<rparr>) nx' (map ?A js @ fs) ls ts live"
    unfolding e(1) page_ok_def using ch st ds cap ao n(2) ok
    by (simp add: th word_le_nat_alt page_ok_def)
  moreover have "map ?A js \<noteq> []" using e(3) n(1) by auto
  ultimately show ?thesis by blast
qed

lemma page_extend_ok:
  assumes ok: "page_ok area bsize p nx fs ls ts live" and bs: "bsize = mi_page_block_size page_size p"
  shows "\<exists>p' nx'. mi_page_extend_free secure r area page_size p nx = Some (p', nx') \<and>
    (if secure \<le> 2 \<and> fs \<noteq> [] \<or> capacity p = reserved p then p' = p \<and> nx' = nx
     else \<exists>new. new \<noteq> [] \<and> page_ok area bsize p' nx' (new @ fs) ls ts live)"
proof (cases "secure \<le> 2 \<and> fs \<noteq> [] \<or> capacity p = reserved p")
  case True
  have "free p = 0 \<longleftrightarrow> fs = []" using ok blocks_from_iff by (auto simp: page_ok_def)
  then show ?thesis using True by (auto simp: mi_page_extend_free_def)
next
  case False
  have fz: "free p = 0 \<longleftrightarrow> fs = []" using ok blocks_from_iff by (auto simp: page_ok_def)
  have le: "capacity p \<le> reserved p" using ok by (simp add: page_ok_def)
  with False have lt: "\<not> capacity p \<ge> reserved p" by auto
  have nf: "\<not> (secure \<le> 2 \<and> free p \<noteq> 0)" using False fz by blast
  define n1 where "n1 = unat (reserved p) - unat (capacity p)"
  define m1 where "m1 = (if unat bsize \<ge> MI_MAX_EXTEND_SIZE then MI_MIN_EXTEND secure else MI_MAX_EXTEND_SIZE div unat (ucast bsize :: u32))"
  define m2 where "m2 = (if m1 < MI_MIN_EXTEND secure then MI_MIN_EXTEND secure else m1)"
  define n where "n = (if n1 > m2 then m2 else n1)"
  have "0 < MI_MIN_EXTEND secure" by (simp add: MI_MIN_EXTEND_def)
  then have "0 < m2" by (auto simp: m2_def)
  moreover have "0 < n1" using lt by (simp add: n1_def word_le_nat_alt)
  ultimately have n: "0 < n" "unat (capacity p) + n \<le> unat (reserved p)" using le by (auto simp: n_def n1_def word_le_nat_alt)
  have ao: "area_ok area bsize (unat (reserved p))" using ok by (simp add: page_ok_def)
  have b: "(if xblock_size p < MI_HUGE_BLOCK_SIZE then ucast (xblock_size p) else page_size) = bsize"
    by (simp add: bs mi_page_block_size_def)
  have ex: "mi_page_extend_free secure r area page_size p nx =
      Option.bind
        (if n < MI_MIN_SLICES \<or> secure = 0 then mi_page_free_list_extend area bsize n p nx
         else mi_page_free_list_extend_secure r area bsize n p nx)
        (\<lambda>(p, nx). Some (p\<lparr>capacity := capacity p + word_of_nat n\<rparr>, nx))"
    unfolding mi_page_extend_free_def if_not_P [OF nf] if_not_P [OF lt] b Let_def
      n1_def [symmetric] m1_def [symmetric] m2_def [symmetric] n_def [symmetric] by (rule refl)
  obtain p1 nx1 where p1: "(if n < MI_MIN_SLICES \<or> secure = 0 then mi_page_free_list_extend area bsize n p nx
      else mi_page_free_list_extend_secure r area bsize n p nx) = Some (p1, nx1)" "extends_free area bsize n p nx p1 nx1"
    using free_list_extend_ok [OF n(1) ao n(2), of nx] free_list_extend_secure_ok [OF n(1) ao n(2), of r nx]
    by (cases "n < MI_MIN_SLICES \<or> secure = 0") auto
  show ?thesis using extends_free_page [OF ok p1(2) n] p1(1) False unfolding ex by auto
qed

section \<open>Properties\<close>

text \<open>
  (C29) A fresh page or a page whose free list is exhausted is extended by new blocks: the call returns for
  every security level and every random number, the new blocks come to the front of the free list, each
  exactly once and in whatever order the randomised variant threads them, and every block of the page is
  still in exactly one list or in use. Otherwise nothing changes.
\<close>

theorem page_extend_new_blocks:
  assumes "page_ok area bsize p nx fs ls ts live" "bsize = mi_page_block_size page_size p"
  shows "\<exists>p' nx'. mi_page_extend_free secure r area page_size p nx = Some (p', nx') \<and>
    (if secure \<le> 2 \<and> fs \<noteq> [] \<or> capacity p = reserved p then p' = p \<and> nx' = nx
     else \<exists>new. new \<noteq> [] \<and> page_ok area bsize p' nx' (new @ fs) ls ts live)"
  using page_extend_ok [OF assms] .

definition example_page :: mi_page_t where
  "example_page =
     \<lparr>slice_count = 1, slice_offset = 0, is_committed = True, is_zero_init = False, capacity = 0, reserved = 64,
      in_full = False, has_aligned = False, free_is_zero = False, retire_expire = 0, free = 0, used = 0,
      xblock_size = 1024, local_free = 0, xthread_free = 0, xheap = 0x1000, page_next = 0, page_prev = 0\<rparr>"

lemma example_page_ok: "page_ok 0x20000 1024 example_page (\<lambda>_. 0) [] [] [] []"
  by (simp add: page_ok_def example_page_def area_ok_def page_addrs_def mi_page_thread_free_def)

theorem page_extend_new_blocks_witness:
  "\<exists>p' nx'. mi_page_extend_free 3 0xABCDEF 0x20000 65536 example_page (\<lambda>_. 0) = Some (p', nx') \<and>
    (\<exists>new. new \<noteq> [] \<and> page_ok 0x20000 1024 p' nx' (new @ []) [] [] [])"
proof -
  have "(1024 :: u64) = mi_page_block_size 65536 example_page"
    by (simp add: mi_page_block_size_def example_page_def MI_HUGE_BLOCK_SIZE_def)
  from page_extend_new_blocks [OF example_page_ok this, of 3 "0xABCDEF"] show ?thesis by (simp add: example_page_def)
qed

text \<open>
  (C28) Taking a block gives the first block of the free list, or nothing exactly if that list is empty; a free
  by the owner puts the block into the local list. A free by another thread, run without interference, puts the block into the
  thread free list, unless the flag asks for delayed frees and the page has a heap: then the block becomes the first of the delayed frees of the heap,
  which the page counts as used until the heap frees it, and the flag is reset so that only one block goes this way.
  In each case every block of the page is afterwards in exactly one list or in use, and the counter \<open>used\<close> is
  the number of blocks that are in use or wait in the thread free list or with the heap.
\<close>

theorem page_blocks_conserved:
  assumes "page_holds area bsize s fs ls ts live"
  shows "(case mi_page_malloc zero (page s) (nxt s) of (r, p, nx) \<Rightarrow>
      (r = None \<longleftrightarrow> fs = []) \<and>
      (\<forall>b fs'. fs = b # fs' \<longrightarrow> (\<exists>z. r = Some (b, z)) \<and> page_ok area bsize p nx fs' ls ts (b # live))) \<and>
    (\<forall>b \<in> set live.
      (case push_local_free b (page s) (nxt s) of (p, nx) \<Rightarrow> page_ok area bsize p nx fs (b # ls) ts (remove1 b live)) \<and>
      (mi_page_thread_free_flag (page s) \<noteq> MI_USE_DELAYED_FREE \<longrightarrow>
        (\<exists>s'. mi_free_block_mt alone never b s = Some s' \<and> page_holds area bsize s' fs ls (b # ts) (remove1 b live))) \<and>
      (mi_page_thread_free_flag (page s) = MI_USE_DELAYED_FREE \<longrightarrow> xheap (page s) \<noteq> 0 \<longrightarrow>
        (\<forall>ds. blocks_from (nxt s) (delayed s) ds \<longrightarrow> b \<notin> set ds \<longrightarrow>
          (\<exists>s'. mi_free_block_mt alone never b s = Some s' \<and> page_holds area bsize s' fs ls ts live \<and>
             blocks_from (nxt s') (delayed s') (b # ds) \<and> mi_page_thread_free_flag (page s') = MI_NO_DELAYED_FREE))))"
proof -
  note ok = assms [unfolded page_holds_def]
  have mt: "\<exists>s'. mi_free_block_mt alone never b s = Some s' \<and> page_holds area bsize s' fs ls (b # ts) (remove1 b live)"
    if "b \<in> set live" "mi_page_thread_free_flag (page s) \<noteq> MI_USE_DELAYED_FREE" for b
    using free_block_mt_thread_list [OF assms that] by blast
  have dl: "\<exists>s'. mi_free_block_mt alone never b s = Some s' \<and> page_holds area bsize s' fs ls ts live \<and>
      blocks_from (nxt s') (delayed s') (b # ds) \<and> mi_page_thread_free_flag (page s') = MI_NO_DELAYED_FREE"
    if "b \<in> set live" "mi_page_thread_free_flag (page s) = MI_USE_DELAYED_FREE" "xheap (page s) \<noteq> 0"
      "blocks_from (nxt s) (delayed s) ds" "b \<notin> set ds" for b ds
    using free_block_mt_delayed [OF assms that] by blast
  have pl: "case push_local_free b (page s) (nxt s) of (p, nx) \<Rightarrow> page_ok area bsize p nx fs (b # ls) ts (remove1 b live)"
    if "b \<in> set live" for b using push_local_free_ok [OF ok that] .
  have ml: "case mi_page_malloc zero (page s) (nxt s) of (r, p, nx) \<Rightarrow>
      (r = None \<longleftrightarrow> fs = []) \<and>
      (\<forall>b fs'. fs = b # fs' \<longrightarrow> (\<exists>z. r = Some (b, z)) \<and> page_ok area bsize p nx fs' ls ts (b # live))"
    using page_malloc_ok [OF ok, of zero] by (cases fs) (auto split: prod.splits)
  show ?thesis by (intro conjI ballI allI impI) (rule ml, erule pl, erule (1) mt, erule (4) dl)
qed

text \<open>A page with one block, which is in use, as left after a delayed free and as a fresh page has its flag.\<close>

definition example_state :: page_state where
  "example_state = \<lparr>clock = 0, page = example_page\<lparr>capacity := 1, used := 1, xthread_free := 2\<rparr>, nxt = (\<lambda>_. 0), delayed = 0\<rparr>"

definition example_fresh :: page_state where
  "example_fresh = \<lparr>clock = 0, page = example_page\<lparr>capacity := 1, used := 1, xthread_free := 0\<rparr>, nxt = (\<lambda>_. 0), delayed = 0\<rparr>"

lemma example_state_holds: "page_holds 0x20000 1024 example_state [] [] [] [0x20000]"
  "page_holds 0x20000 1024 example_fresh [] [] [] [0x20000]"
proof -
  have "page_addrs 0x20000 1024 1 = {0x20000}" by (simp add: page_addrs_def block_addr_def mi_page_block_at_def lessThan_Suc)
  then show "page_holds 0x20000 1024 example_state [] [] [] [0x20000]" "page_holds 0x20000 1024 example_fresh [] [] [] [0x20000]"
    by (simp_all add: page_holds_def example_state_def example_fresh_def page_ok_def example_page_def area_ok_def mi_page_thread_free_def)
qed

theorem page_blocks_conserved_witness:
  "(case push_local_free 0x20000 (page example_state) (nxt example_state) of
      (p, nx) \<Rightarrow> page_ok 0x20000 1024 p nx [] [0x20000] [] []) \<and>
   (\<exists>s'. mi_free_block_mt alone never 0x20000 example_state = Some s' \<and> page_holds 0x20000 1024 s' [] [] [0x20000] []) \<and>
   (\<exists>s'. mi_free_block_mt alone never 0x20000 example_fresh = Some s' \<and> page_holds 0x20000 1024 s' [] [] [] [0x20000] \<and>
      blocks_from (nxt s') (delayed s') [0x20000])"
proof -
  have "mi_page_thread_free_flag (page example_state) \<noteq> MI_USE_DELAYED_FREE"
    by (simp add: mi_page_thread_free_flag_def example_state_def delayed_of_def)
  moreover have "mi_page_thread_free_flag (page example_fresh) = MI_USE_DELAYED_FREE" "xheap (page example_fresh) \<noteq> 0"
    "blocks_from (nxt example_fresh) (delayed example_fresh) []"
    by (simp_all add: mi_page_thread_free_flag_def example_fresh_def example_page_def delayed_of_def)
  ultimately show ?thesis
    using page_blocks_conserved [OF example_state_holds(1), of False] page_blocks_conserved [OF example_state_holds(2), of False] by auto
qed

text \<open>
  (C34) Collecting moves the blocks freed by other threads and by the owner to the free list, in that order,
  without losing one: afterwards the page has a block available exactly if any of its three lists had one.
  A thread free list longer than the page is reported as corrupted and dropped.
\<close>

theorem page_collect_conserves:
  assumes "page_holds area bsize s fs ls ts live"
  shows "(\<exists>s' fs' ls'. mi_page_free_collect alone never force s = Some (None, s') \<and> page_holds area bsize s' fs' ls' [] live \<and>
      (fs', ls') = (if ts @ ls = [] then (fs, []) else if fs = [] then (ts @ ls, [])
                    else if force then (ts @ ls @ fs, []) else (fs, ts @ ls)) \<and>
      (mi_page_immediate_available (page s') \<longleftrightarrow> fs \<noteq> [] \<or> ls \<noteq> [] \<or> ts \<noteq> [])) \<and>
    (\<forall>s ts. blocks_from (nxt s) (mi_page_thread_free (page s)) ts \<longrightarrow> unat (capacity (page s)) < length ts \<longrightarrow>
      (\<exists>s'. mi_page_thread_free_collect alone never s = Some (Some EFAULT, s') \<and> mi_page_thread_free (page s') = 0 \<and>
        local_free (page s') = local_free (page s)))"
proof
  obtain s' where s': "mi_page_free_collect alone never force s = Some (None, s')"
    "page_holds area bsize s' (fst (collected force fs (ts @ ls))) (snd (collected force fs (ts @ ls))) [] live"
    using free_collect_alone [OF assms, of force] by blast
  have "free (page s') = 0 \<longleftrightarrow> fst (collected force fs (ts @ ls)) = []"
    using s'(2) blocks_from_iff by (auto simp: page_holds_def page_ok_def)
  then show "\<exists>s' fs' ls'. mi_page_free_collect alone never force s = Some (None, s') \<and> page_holds area bsize s' fs' ls' [] live \<and>
      (fs', ls') = (if ts @ ls = [] then (fs, []) else if fs = [] then (ts @ ls, [])
                    else if force then (ts @ ls @ fs, []) else (fs, ts @ ls)) \<and>
      (mi_page_immediate_available (page s') \<longleftrightarrow> fs \<noteq> [] \<or> ls \<noteq> [] \<or> ts \<noteq> [])"
    using s' by (intro exI [of _ s'] exI [of _ "fst (collected force fs (ts @ ls))"] exI [of _ "snd (collected force fs (ts @ ls))"])
      (auto simp: collected_def mi_page_immediate_available_def)
  show "\<forall>s ts. blocks_from (nxt s) (mi_page_thread_free (page s)) ts \<longrightarrow> unat (capacity (page s)) < length ts \<longrightarrow>
      (\<exists>s'. mi_page_thread_free_collect alone never s = Some (Some EFAULT, s') \<and> mi_page_thread_free (page s') = 0 \<and>
        local_free (page s') = local_free (page s))"
    using thread_free_collect_corrupted by blast
qed

theorem page_collect_conserves_witness:
  "\<exists>s'. mi_page_free_collect alone never True example_state = Some (None, s') \<and> \<not> mi_page_immediate_available (page s')"
  using page_collect_conserves [OF example_state_holds(1), of True] by auto

section \<open>The delayed-free flag under interference\<close>










end
