(* ===== verification/Mi_Page_Queue.thy ===== *)
theory Mi_Page_Queue
  imports Mi_Page_Extend
begin

text \<open>
  The page queues of a heap of mimalloc, \<^verbatim>\<open>src/page-queue.c\<close> and the functions of \<^verbatim>\<open>src/page.c\<close> and \<^verbatim>\<open>src/alloc.c\<close>
  that move pages between them: size bins, doubly linked queues, the direct table for small sizes,
  full pages and retired pages. Null pointers are \<open>0\<close>; a queue is named by its index in the array \<open>pages\<close> of its
  heap. The build is one for 64-bit platforms with an alignment of 16, so \<open>MI_ALIGN2W\<close> is defined.
\<close>

section \<open>Heaps and queues\<close>

record mi_page_queue_t =
  pq_first :: addr
  pq_last :: addr
  pq_block_size :: size_t

text \<open>Of the fields of a heap those that the queues use.\<close>

record mi_heap_t =
  pages_free_direct :: "addr list"
  pages :: "mi_page_queue_t list"
  page_count :: size_t
  page_retired_min :: nat
  page_retired_max :: nat

record heap_state =
  heap_at :: "addr \<Rightarrow> mi_heap_t"
  page_at :: "addr \<Rightarrow> mi_page_t"
  block_next :: next_map

definition MI_MEDIUM_OBJ_SIZE_MAX :: size_t where
  "MI_MEDIUM_OBJ_SIZE_MAX = 2 ^ (3 + MI_SEGMENT_SLICE_SHIFT) div 4"

definition MI_MEDIUM_OBJ_WSIZE_MAX :: size_t where
  "MI_MEDIUM_OBJ_WSIZE_MAX = MI_MEDIUM_OBJ_SIZE_MAX div 8"

definition MI_SMALL_OBJ_SIZE_MAX :: size_t where
  "MI_SMALL_OBJ_SIZE_MAX = 2 ^ MI_SEGMENT_SLICE_SHIFT div 4"

definition MI_BIN_HUGE :: nat where
  "MI_BIN_HUGE = 73"

definition MI_BIN_FULL :: nat where
  "MI_BIN_FULL = MI_BIN_HUGE + 1"

definition MI_SMALL_WSIZE_MAX :: nat where
  "MI_SMALL_WSIZE_MAX = 128"

definition MI_SMALL_SIZE_MAX :: size_t where
  "MI_SMALL_SIZE_MAX = word_of_nat (MI_SMALL_WSIZE_MAX * 8)"

definition MI_PAGES_DIRECT :: nat where
  "MI_PAGES_DIRECT = MI_SMALL_WSIZE_MAX + 1"

definition QNULL :: "nat \<Rightarrow> mi_page_queue_t" where
  "QNULL sz = \<lparr>pq_first = 0, pq_last = 0, pq_block_size = word_of_nat (sz * 8)\<rparr>"

definition MI_PAGE_QUEUES_EMPTY :: "mi_page_queue_t list" where
  "MI_PAGE_QUEUES_EMPTY = map QNULL
     [1,
      1, 2, 3, 4, 5, 6, 7, 8,
      10, 12, 14, 16, 20, 24, 28, 32,
      40, 48, 56, 64, 80, 96, 112, 128,
      160, 192, 224, 256, 320, 384, 448, 512,
      640, 768, 896, 1024, 1280, 1536, 1792, 2048,
      2560, 3072, 3584, 4096, 5120, 6144, 7168, 8192,
      10240, 12288, 14336, 16384, 20480, 24576, 28672, 32768,
      40960, 49152, 57344, 65536, 81920, 98304, 114688, 131072,
      163840, 196608, 229376, 262144, 327680, 393216, 458752, 524288,
      unat MI_MEDIUM_OBJ_WSIZE_MAX + 1,
      unat MI_MEDIUM_OBJ_WSIZE_MAX + 2]"

section \<open>Queue kinds and bins\<close>

definition mi_page_queue_is_huge :: "mi_page_queue_t \<Rightarrow> bool" where
  "mi_page_queue_is_huge pq \<longleftrightarrow> pq_block_size pq = MI_MEDIUM_OBJ_SIZE_MAX + 8"

definition mi_page_queue_is_full :: "mi_page_queue_t \<Rightarrow> bool" where
  "mi_page_queue_is_full pq \<longleftrightarrow> pq_block_size pq = MI_MEDIUM_OBJ_SIZE_MAX + 2 * 8"

definition mi_page_queue_is_special :: "mi_page_queue_t \<Rightarrow> bool" where
  "mi_page_queue_is_special pq \<longleftrightarrow> pq_block_size pq > MI_MEDIUM_OBJ_SIZE_MAX"

definition mi_bin :: "size_t \<Rightarrow> u8" where
  "mi_bin sz =
     (let wsize = mi_wsize_from_size sz
      in if wsize \<le> 1 then 1
         else if wsize \<le> 8 then ucast ((wsize + 1) AND NOT 1)
         else if wsize > MI_MEDIUM_OBJ_WSIZE_MAX then word_of_nat MI_BIN_HUGE
         else
           (let wsize = wsize - 1;
                b = word_of_nat (mi_bsr wsize) :: u8
            in (push_bit 2 b + (ucast (drop_bit (unat (b - 2)) wsize) AND 0x03)) - 3))"

definition mi_bin_size :: "u8 \<Rightarrow> size_t" where
  "mi_bin_size bin = pq_block_size (MI_PAGE_QUEUES_EMPTY ! unat bin)"

definition mi_good_size :: "size_t \<Rightarrow> size_t \<Rightarrow> size_t" where
  "mi_good_size os_page_size sz =
     (if sz \<le> MI_MEDIUM_OBJ_SIZE_MAX then mi_bin_size (mi_bin sz) else mi_align_up sz os_page_size)"

section \<open>Access to pages and queues\<close>

definition set_page :: "addr \<Rightarrow> (mi_page_t \<Rightarrow> mi_page_t) \<Rightarrow> heap_state \<Rightarrow> heap_state" where
  "set_page p f st = st\<lparr>page_at := (page_at st)(p := f (page_at st p))\<rparr>"

definition set_heap :: "addr \<Rightarrow> (mi_heap_t \<Rightarrow> mi_heap_t) \<Rightarrow> heap_state \<Rightarrow> heap_state" where
  "set_heap h f st = st\<lparr>heap_at := (heap_at st)(h := f (heap_at st h))\<rparr>"

definition the_queue :: "addr \<Rightarrow> nat \<Rightarrow> heap_state \<Rightarrow> mi_page_queue_t" where
  "the_queue h q st = pages (heap_at st h) ! q"

definition set_queue :: "addr \<Rightarrow> nat \<Rightarrow> (mi_page_queue_t \<Rightarrow> mi_page_queue_t) \<Rightarrow> heap_state \<Rightarrow> heap_state" where
  "set_queue h q f = set_heap h (\<lambda>hp. hp\<lparr>pages := (pages hp)[q := f (pages hp ! q)]\<rparr>)"

definition mi_page_set_in_full :: "bool \<Rightarrow> mi_page_t \<Rightarrow> mi_page_t" where
  "mi_page_set_in_full b p = p\<lparr>in_full := b\<rparr>"

definition mi_page_set_has_aligned :: "bool \<Rightarrow> mi_page_t \<Rightarrow> mi_page_t" where
  "mi_page_set_has_aligned b p = p\<lparr>has_aligned := b\<rparr>"

partial_function (option) contains_loop :: "heap_state \<Rightarrow> addr \<Rightarrow> addr \<Rightarrow> bool option" where
  "contains_loop st pg list =
     (if list \<noteq> 0 then (if list = pg then Some True else contains_loop st pg (page_next (page_at st list)))
      else Some (list = pg))"

definition mi_page_queue_contains :: "addr \<Rightarrow> nat \<Rightarrow> addr \<Rightarrow> heap_state \<Rightarrow> bool option" where
  "mi_page_queue_contains h q pg st = contains_loop st pg (pq_first (the_queue h q st))"

definition mi_heap_page_queue_of :: "mi_page_t \<Rightarrow> nat" where
  "mi_heap_page_queue_of p = (if in_full p then MI_BIN_FULL else unat (mi_bin (ucast (xblock_size p))))"

definition mi_page_queue_of :: "mi_page_t \<Rightarrow> addr \<times> nat" where
  "mi_page_queue_of p =
     (let bin = (if in_full p then MI_BIN_FULL else unat (mi_bin (ucast (xblock_size p))));
          heap = xheap p
      in (heap, bin))"

definition mi_page_queue :: "size_t \<Rightarrow> nat" where
  "mi_page_queue sz = unat (mi_bin sz)"

definition mi_heap_get_free_small_page :: "addr \<Rightarrow> size_t \<Rightarrow> heap_state \<Rightarrow> addr" where
  "mi_heap_get_free_small_page h sz st =
     (let idx = unat (mi_wsize_from_size sz) in pages_free_direct (heap_at st h) ! idx)"

section \<open>The direct table\<close>

fun previous_bin :: "mi_page_queue_t list \<Rightarrow> u8 \<Rightarrow> nat \<Rightarrow> nat" where
  "previous_bin qs bin 0 = 0"
| "previous_bin qs bin (Suc prev) =
     (if bin = mi_bin (pq_block_size (qs ! Suc prev)) then previous_bin qs bin prev else Suc prev)"

definition set_direct :: "nat \<Rightarrow> nat \<Rightarrow> addr \<Rightarrow> addr list \<Rightarrow> addr list" where
  "set_direct start idx pg direct = fold (\<lambda>sz d. d[sz := pg]) [start..<idx + 1] direct"

text \<open>\<open>empty_page\<close> is the address of \<open>_mi_page_empty\<close>.\<close>

definition mi_heap_queue_first_update :: "addr \<Rightarrow> addr \<Rightarrow> nat \<Rightarrow> heap_state \<Rightarrow> heap_state" where
  "mi_heap_queue_first_update empty_page h q st =
     (let pq = the_queue h q st; sz = pq_block_size pq
      in if sz > MI_SMALL_SIZE_MAX then st
         else
           (let pg = (if pq_first pq = 0 then empty_page else pq_first pq);
                idx = unat (mi_wsize_from_size sz);
                pages_free = pages_free_direct (heap_at st h)
            in if pages_free ! idx = pg then st
               else
                 (let start =
                    (if idx \<le> 1 then 0
                     else
                       (let bin = mi_bin sz;
                            prev = previous_bin (pages (heap_at st h)) bin (q - 1);
                            start = 1 + unat (mi_wsize_from_size (pq_block_size (pages (heap_at st h) ! prev)))
                        in if start > idx then idx else start))
                  in set_heap h (\<lambda>hp. hp\<lparr>pages_free_direct := set_direct start idx pg pages_free\<rparr>) st)))"

section \<open>Queue operations\<close>

text \<open>Taking a page out of its queue, as \<open>mi_page_queue_remove\<close> and \<open>mi_page_queue_enqueue_from\<close> begin.\<close>

definition unlink_page :: "addr \<Rightarrow> nat \<Rightarrow> addr \<Rightarrow> heap_state \<Rightarrow> heap_state" where
  "unlink_page empty_page q pg st =
     (let heap = xheap (page_at st pg);
          st = (if page_prev (page_at st pg) \<noteq> 0
                then set_page (page_prev (page_at st pg)) (\<lambda>p. p\<lparr>page_next := page_next (page_at st pg)\<rparr>) st else st);
          st = (if page_next (page_at st pg) \<noteq> 0
                then set_page (page_next (page_at st pg)) (\<lambda>p. p\<lparr>page_prev := page_prev (page_at st pg)\<rparr>) st else st);
          st = (if pg = pq_last (the_queue heap q st)
                then set_queue heap q (\<lambda>pq. pq\<lparr>pq_last := page_prev (page_at st pg)\<rparr>) st else st)
      in if pg = pq_first (the_queue heap q st)
         then mi_heap_queue_first_update empty_page heap q
                (set_queue heap q (\<lambda>pq. pq\<lparr>pq_first := page_next (page_at st pg)\<rparr>) st)
         else st)"

definition mi_page_queue_remove :: "addr \<Rightarrow> nat \<Rightarrow> addr \<Rightarrow> heap_state \<Rightarrow> heap_state" where
  "mi_page_queue_remove empty_page q pg st =
     (let heap = xheap (page_at st pg);
          st = unlink_page empty_page q pg st;
          st = set_heap heap (\<lambda>hp. hp\<lparr>page_count := page_count hp - 1\<rparr>) st;
          st = set_page pg (\<lambda>p. p\<lparr>page_next := 0\<rparr>) st;
          st = set_page pg (\<lambda>p. p\<lparr>page_prev := 0\<rparr>) st
      in set_page pg (mi_page_set_in_full False) st)"

definition mi_page_queue_push :: "addr \<Rightarrow> addr \<Rightarrow> nat \<Rightarrow> addr \<Rightarrow> heap_state \<Rightarrow> heap_state" where
  "mi_page_queue_push empty_page heap q pg st =
     (let st = set_page pg (mi_page_set_in_full (mi_page_queue_is_full (the_queue heap q st))) st;
          st = set_page pg (\<lambda>p. p\<lparr>page_next := pq_first (the_queue heap q st)\<rparr>) st;
          st = set_page pg (\<lambda>p. p\<lparr>page_prev := 0\<rparr>) st;
          st = (if pq_first (the_queue heap q st) \<noteq> 0
                then set_queue heap q (\<lambda>pq. pq\<lparr>pq_first := pg\<rparr>)
                       (set_page (pq_first (the_queue heap q st)) (\<lambda>p. p\<lparr>page_prev := pg\<rparr>) st)
                else set_queue heap q (\<lambda>pq. pq\<lparr>pq_first := pg, pq_last := pg\<rparr>) st);
          st = mi_heap_queue_first_update empty_page heap q st
      in set_heap heap (\<lambda>hp. hp\<lparr>page_count := page_count hp + 1\<rparr>) st)"

definition mi_page_queue_enqueue_from :: "addr \<Rightarrow> nat \<Rightarrow> nat \<Rightarrow> addr \<Rightarrow> heap_state \<Rightarrow> heap_state" where
  "mi_page_queue_enqueue_from empty_page to from pg st =
     (let heap = xheap (page_at st pg);
          st = unlink_page empty_page from pg st;
          st = set_page pg (\<lambda>p. p\<lparr>page_prev := pq_last (the_queue heap to st)\<rparr>) st;
          st = set_page pg (\<lambda>p. p\<lparr>page_next := 0\<rparr>) st;
          st = (if pq_last (the_queue heap to st) \<noteq> 0
                then set_queue heap to (\<lambda>pq. pq\<lparr>pq_last := pg\<rparr>)
                       (set_page (pq_last (the_queue heap to st)) (\<lambda>p. p\<lparr>page_next := pg\<rparr>) st)
                else mi_heap_queue_first_update empty_page heap to
                       (set_queue heap to (\<lambda>pq. pq\<lparr>pq_first := pg, pq_last := pg\<rparr>) st))
      in set_page pg (mi_page_set_in_full (mi_page_queue_is_full (the_queue heap to st))) st)"

text \<open>A function of \<open>Mi_Page\<close> on the page at an address, while no other thread runs.\<close>

definition page_view :: "addr \<Rightarrow> heap_state \<Rightarrow> page_state" where
  "page_view p st = \<lparr>clock = 0, page = page_at st p, nxt = block_next st, delayed = 0\<rparr>"

definition page_back :: "addr \<Rightarrow> heap_state \<Rightarrow> page_state \<Rightarrow> heap_state" where
  "page_back p st s = st\<lparr>page_at := (page_at st)(p := page s), block_next := nxt s\<rparr>"

partial_function (option) append_pages :: "addr \<Rightarrow> addr \<Rightarrow> nat \<Rightarrow> heap_state \<Rightarrow> (nat \<times> heap_state) option" where
  "append_pages heap pg cnt st =
     (if pg \<noteq> 0 then
        (let st = set_page pg (mi_page_set_heap heap) st
         in Option.bind (mi_page_use_delayed_free alone never MI_USE_DELAYED_FREE False (page_view pg st))
           (\<lambda>s. let st = page_back pg st s in append_pages heap (page_next (page_at st pg)) (cnt + 1) st))
      else Some (cnt, st))"

text \<open>The pages of queue \<open>q'\<close> of the heap \<open>from\<close> are appended to the queue \<open>q\<close> of \<open>heap\<close>.\<close>

definition mi_page_queue_append :: "addr \<Rightarrow> addr \<Rightarrow> nat \<Rightarrow> addr \<Rightarrow> nat \<Rightarrow> heap_state \<Rightarrow> (nat \<times> heap_state) option" where
  "mi_page_queue_append empty_page heap q from q' st =
     (let append_first = pq_first (the_queue from q' st); append_last = pq_last (the_queue from q' st)
      in if append_first = 0 then Some (0, st)
         else
           Option.bind (append_pages heap append_first 0 st)
             (\<lambda>(cnt, st).
               if pq_last (the_queue heap q st) = 0
               then Some (cnt, mi_heap_queue_first_update empty_page heap q
                      (set_queue heap q (\<lambda>pq. pq\<lparr>pq_first := append_first, pq_last := append_last\<rparr>) st))
               else
                 (let st = set_page (pq_last (the_queue heap q st)) (\<lambda>p. p\<lparr>page_next := append_first\<rparr>) st;
                      st = set_page append_first (\<lambda>p. p\<lparr>page_prev := pq_last (the_queue heap q st)\<rparr>) st
                  in Some (cnt, set_queue heap q (\<lambda>pq. pq\<lparr>pq_last := append_last\<rparr>) st))))"

section \<open>Full and retired pages\<close>

definition mi_page_unfull :: "addr \<Rightarrow> addr \<Rightarrow> heap_state \<Rightarrow> heap_state" where
  "mi_page_unfull empty_page pg st =
     (if \<not> in_full (page_at st pg) then st
      else
        (let st = set_page pg (mi_page_set_in_full False) st;
             pq = mi_heap_page_queue_of (page_at st pg);
             st = set_page pg (mi_page_set_in_full True) st
         in mi_page_queue_enqueue_from empty_page pq MI_BIN_FULL pg st))"

definition mi_page_to_full :: "addr \<Rightarrow> addr \<Rightarrow> nat \<Rightarrow> heap_state \<Rightarrow> heap_state option" where
  "mi_page_to_full empty_page pg pq st =
     (if in_full (page_at st pg) then Some st
      else
        (let st = mi_page_queue_enqueue_from empty_page MI_BIN_FULL pq pg st
         in Option.bind (mi_page_free_collect alone never False (page_view pg st))
           (\<lambda>(_, s). Some (page_back pg st s))))"

text \<open>\<open>segment_page_free\<close> is \<open>_mi_segment_page_free\<close>, which gives the page back to its segment.\<close>

definition mi_page_free :: "(addr \<Rightarrow> bool \<Rightarrow> heap_state \<Rightarrow> heap_state) \<Rightarrow> addr \<Rightarrow> addr \<Rightarrow> nat \<Rightarrow> bool \<Rightarrow> heap_state \<Rightarrow> heap_state" where
  "mi_page_free segment_page_free empty_page pg pq force st =
     (let st = set_page pg (mi_page_set_has_aligned False) st;
          st = mi_page_queue_remove empty_page pq pg st;
          st = set_page pg (mi_page_set_heap 0) st
      in segment_page_free pg force st)"

definition MI_MAX_RETIRE_SIZE :: size_t where
  "MI_MAX_RETIRE_SIZE = MI_MEDIUM_OBJ_SIZE_MAX"

definition MI_RETIRE_CYCLES :: nat where
  "MI_RETIRE_CYCLES = 16"

definition mi_page_retire :: "(addr \<Rightarrow> bool \<Rightarrow> heap_state \<Rightarrow> heap_state) \<Rightarrow> addr \<Rightarrow> addr \<Rightarrow> heap_state \<Rightarrow> heap_state" where
  "mi_page_retire segment_page_free empty_page pg st =
     (let st = set_page pg (mi_page_set_has_aligned False) st;
          (heap, index) = mi_page_queue_of (page_at st pg);
          pq = the_queue heap index st
      in if ucast (xblock_size (page_at st pg)) \<le> MI_MAX_RETIRE_SIZE \<and> \<not> mi_page_queue_is_special pq \<and>
            pq_last pq = pg \<and> pq_first pq = pg
         then
           (let cycles = (if ucast (xblock_size (page_at st pg)) \<le> MI_SMALL_OBJ_SIZE_MAX then MI_RETIRE_CYCLES else MI_RETIRE_CYCLES div 4);
                st = set_page pg (\<lambda>p. p\<lparr>retire_expire := 1 + word_of_nat cycles\<rparr>) st;
                st = (if index < page_retired_min (heap_at st heap) then set_heap heap (\<lambda>hp. hp\<lparr>page_retired_min := index\<rparr>) st else st)
            in if index > page_retired_max (heap_at st heap) then set_heap heap (\<lambda>hp. hp\<lparr>page_retired_max := index\<rparr>) st else st)
         else mi_page_free segment_page_free empty_page pg index False st)"

text \<open>One round of the loop over the bins, with the minimum and maximum found so far.\<close>

definition retired_bin ::
    "(addr \<Rightarrow> bool \<Rightarrow> heap_state \<Rightarrow> heap_state) \<Rightarrow> addr \<Rightarrow> addr \<Rightarrow> bool \<Rightarrow> nat \<Rightarrow> nat \<times> nat \<times> heap_state \<Rightarrow> nat \<times> nat \<times> heap_state" where
  "retired_bin segment_page_free empty_page heap force bin acc =
     (let (mn, mx, st) = acc; pg = pq_first (the_queue heap bin st)
      in if pg \<noteq> 0 \<and> retire_expire (page_at st pg) \<noteq> 0 then
           (if mi_page_all_free (page_at st pg) then
              (let st = set_page pg (\<lambda>p. p\<lparr>retire_expire := retire_expire p - 1\<rparr>) st
               in if force \<or> retire_expire (page_at st pg) = 0
                  then (mn, mx, mi_page_free segment_page_free empty_page (pq_first (the_queue heap bin st)) bin force st)
                  else (if bin < mn then bin else mn, if bin > mx then bin else mx, st))
            else (mn, mx, set_page pg (\<lambda>p. p\<lparr>retire_expire := 0\<rparr>) st))
         else acc)"

definition mi_heap_collect_retired ::
    "(addr \<Rightarrow> bool \<Rightarrow> heap_state \<Rightarrow> heap_state) \<Rightarrow> addr \<Rightarrow> addr \<Rightarrow> bool \<Rightarrow> heap_state \<Rightarrow> heap_state" where
  "mi_heap_collect_retired segment_page_free empty_page heap force st =
     (let (mn, mx, st) = fold (retired_bin segment_page_free empty_page heap force)
            [page_retired_min (heap_at st heap)..<page_retired_max (heap_at st heap) + 1] (MI_BIN_FULL, 0, st)
      in set_heap heap (\<lambda>hp. hp\<lparr>page_retired_min := mn, page_retired_max := mx\<rparr>) st)"

text \<open>A free by the thread that owns the page.\<close>

definition mi_free_block_local ::
    "(addr \<Rightarrow> bool \<Rightarrow> heap_state \<Rightarrow> heap_state) \<Rightarrow> addr \<Rightarrow> addr \<Rightarrow> addr \<Rightarrow> heap_state \<Rightarrow> heap_state" where
  "mi_free_block_local segment_page_free empty_page pg block st =
     (let (p, nx) = push_local_free block (page_at st pg) (block_next st);
          st = st\<lparr>page_at := (page_at st)(pg := p), block_next := nx\<rparr>
      in if mi_page_all_free (page_at st pg) then mi_page_retire segment_page_free empty_page pg st
         else if in_full (page_at st pg) then mi_page_unfull empty_page pg st
         else st)"

end
