(* ===== verification/Mi_Bins.thy ===== *)
theory Mi_Bins
  imports Mi_Page_Queue
begin

text \<open>
  The size bins: the bin of a size is the first whose blocks are large enough, and which sizes share a bin.
\<close>

definition bin_wsizes :: "nat list" where
  "bin_wsizes =
     [1, 1, 2, 3, 4, 5, 6, 7, 8, 10, 12, 14, 16, 20, 24, 28, 32, 40, 48, 56, 64, 80, 96, 112, 128,
      160, 192, 224, 256, 320, 384, 448, 512, 640, 768, 896, 1024, 1280, 1536, 1792, 2048,
      2560, 3072, 3584, 4096, 5120, 6144, 7168, 8192, 10240, 12288, 14336, 16384]"

definition bin_wsize :: "nat \<Rightarrow> nat" where
  "bin_wsize b = bin_wsizes ! b"

lemma medium_max: "MI_MEDIUM_OBJ_SIZE_MAX = 131072" "MI_MEDIUM_OBJ_WSIZE_MAX = 16384"
  by (simp_all add: MI_MEDIUM_OBJ_SIZE_MAX_def MI_MEDIUM_OBJ_WSIZE_MAX_def MI_SEGMENT_SLICE_SHIFT_def)

lemma bin_cases:
  assumes "P 3" "P 4" "P 5" "P 6" "P 7" "P 8" "P 9" "P 10" "P 11" "P 12" "P 13" "3 \<le> k" "k \<le> (13 :: nat)"
  shows "P k"
proof -
  have "k = 3 \<or> k = 4 \<or> k = 5 \<or> k = 6 \<or> k = 7 \<or> k = 8 \<or> k = 9 \<or> k = 10 \<or> k = 11 \<or> k = 12 \<or> k = 13"
    using assms(12,13) by presburger
  then show ?thesis using assms by auto
qed

lemma mi_bin_size_wsize:
  assumes "b \<le> 52" shows "unat (pq_block_size (MI_PAGE_QUEUES_EMPTY ! b)) = 8 * bin_wsize b"
proof -
  have l: "length bin_wsizes = 53" by (simp add: bin_wsizes_def)
  have "take 53 MI_PAGE_QUEUES_EMPTY = map QNULL bin_wsizes" by (simp add: MI_PAGE_QUEUES_EMPTY_def bin_wsizes_def)
  moreover have "b < 53" using assms by simp
  ultimately have "MI_PAGE_QUEUES_EMPTY ! b = QNULL (bin_wsizes ! b)" using l by (metis nth_map nth_take)
  moreover have "bin_wsizes ! b \<le> 16384"
  proof -
    have "\<forall>x \<in> set bin_wsizes. x \<le> 16384" by (simp add: bin_wsizes_def)
    then show ?thesis using l assms by simp
  qed
  ultimately show ?thesis by (simp add: QNULL_def bin_wsize_def unat_of_nat_small del: of_nat_mult)
qed

lemma wsize_nat: "unat sz + 7 < 2 ^ 64 \<Longrightarrow> unat (mi_wsize_from_size sz) = (unat sz + 7) div 8"
proof -
  assume s: "unat sz + 7 < 2 ^ 64"
  have e: "sz + 8 - 1 = sz + 7" by simp
  have "unat (sz + 7) = unat sz + 7" using s by (subst unat_add_small) simp_all
  then show ?thesis unfolding mi_wsize_from_size_def e unat_div by simp
qed

lemma highest_bit_bounds:
  assumes "highest_bit (v :: u64) k" shows "2 ^ k \<le> unat v" "unat v < 2 ^ Suc k"
proof -
  have "bit v k" and hi: "\<And>i. k < i \<Longrightarrow> \<not> bit v i" using assms by (auto simp: highest_bit_def)
  then have "odd (unat v div 2 ^ k)" by (simp add: bit_unat)
  then have "unat v div 2 ^ k \<noteq> 0" by (metis even_zero)
  then show "2 ^ k \<le> unat v" by (simp add: div_eq_0_iff)
  have "v = take_bit (Suc k) v"
    by (rule bit_word_eqI) (metis hi bit_take_bit_iff less_Suc_eq_le not_le)
  then have "unat v = unat v mod 2 ^ Suc k" by (metis take_bit_eq_mask unat_and_mask)
  then show "unat v < 2 ^ Suc k" by (metis mod_less_divisor zero_less_numeral zero_less_power)
qed

lemma mi_bin_large:
  assumes "unat sz + 7 < 2 ^ 64" "w = (unat sz + 7) div 8" "8 < w" "w \<le> 16384"
  shows "\<exists>k j. 3 \<le> k \<and> k \<le> 13 \<and> j < 4 \<and> unat (mi_bin sz) = 4 * k + j - 3 \<and>
    (4 + j) * 2 ^ (k - 2) < w \<and> w \<le> (5 + j) * 2 ^ (k - 2)"
proof -
  let ?v = "mi_wsize_from_size sz - 1"
  have w: "unat (mi_wsize_from_size sz) = w" using wsize_nat [OF assms(1)] assms(2) by simp
  then have v: "unat ?v = w - 1" using assms(3) by (subst unat_diff_small) simp_all
  then have "?v \<noteq> 0" using assms(3) by (metis One_nat_def diff_is_0_eq not_less unsigned_0 Suc_leI zero_less_numeral order.strict_trans one_less_numeral_iff semiring_norm(76))
  then obtain k where k: "highest_bit ?v k" by (rule highest_bit_exists)
  note kb = highest_bit_bounds [OF k, unfolded v]
  have k3: "3 \<le> k"
  proof (rule ccontr)
    assume "\<not> 3 \<le> k"
    then have "(2 :: nat) ^ Suc k \<le> 2 ^ 3" by (intro power_increasing) auto
    then show False using kb(2) assms(3) by simp
  qed
  have k13: "k \<le> 13"
  proof (rule ccontr)
    assume "\<not> k \<le> 13"
    then have "(2 :: nat) ^ 14 \<le> 2 ^ k" by (intro power_increasing) auto
    then show False using kb(1) assms(3,4) by simp
  qed
  define d where "d = (w - 1) div 2 ^ (k - 2)"
  have e: "(2 :: nat) ^ k = 4 * 2 ^ (k - 2)" "(2 :: nat) ^ Suc k = 8 * 2 ^ (k - 2)"
    using k3 power_add [of "2 :: nat" 2 "k - 2"] power_add [of "2 :: nat" 3 "k - 2"] by simp_all
  have d: "4 \<le> d" "d < 8"
    using kb unfolding d_def e by (simp_all add: less_eq_div_iff_mult_less_eq div_less_iff_less_mult)
  have "d * 2 ^ (k - 2) \<le> w - 1" "w - 1 < Suc d * 2 ^ (k - 2)"
    unfolding d_def by (simp_all add: div_times_less_eq_dividend dividend_less_div_times)
  then have ww: "(4 + (d - 4)) * 2 ^ (k - 2) < w" "w \<le> (5 + (d - 4)) * 2 ^ (k - 2)" using d assms(3) by simp_all
  have b: "unat (word_of_nat k :: u8) = k" using k13 by (intro unat_of_nat_small) simp
  have b2: "unat (word_of_nat k - 2 :: u8) = k - 2" using k3 b by (subst unat_diff_small) simp_all
  have "unat (drop_bit (k - 2) ?v) = d" by (simp add: unat_drop_bit v d_def)
  then have dj: "unat (ucast (drop_bit (k - 2) ?v) AND 3 :: u8) = d - 4"
  proof -
    assume u: "unat (drop_bit (k - 2) ?v) = d"
    have "unat (ucast (drop_bit (k - 2) ?v) :: u8) = d" using d u by (simp add: unsigned_ucast_eq take_bit_nat_eq_self)
    then have "unat (ucast (drop_bit (k - 2) ?v) AND 3 :: u8) = d mod 4" by (simp only: unat_and_3)
    then show ?thesis using d by (simp add: le_mod_geq)
  qed
  have p: "unat (push_bit 2 (word_of_nat k) :: u8) = 4 * k" using k13 b by (subst unat_push_bit_small) simp_all
  have bin: "mi_bin sz = (push_bit 2 (word_of_nat k) + (ucast (drop_bit (k - 2) ?v) AND 3)) - 3"
  proof -
    have "\<not> mi_wsize_from_size sz \<le> 1" "\<not> mi_wsize_from_size sz \<le> 8" "\<not> mi_wsize_from_size sz > MI_MEDIUM_OBJ_WSIZE_MAX"
      using w assms(3,4) by (simp_all add: word_le_nat_alt word_less_nat_alt medium_max)
    then show ?thesis unfolding mi_bin_def Let_def by (simp add: mi_bsr_highest [OF k] b2)
  qed
  have s: "unat (push_bit 2 (word_of_nat k) + (ucast (drop_bit (k - 2) ?v) AND 3) :: u8) = 4 * k + (d - 4)"
    using p dj k13 d by (subst unat_add_small) simp_all
  have "unat (mi_bin sz) = 4 * k + (d - 4) - 3" unfolding bin using s k3 by (subst unat_diff_small) simp_all
  then show ?thesis using k3 k13 d ww by (intro exI [of _ k] exI [of _ "d - 4"]) simp
qed

lemma bin_wsize_mid:
  assumes "3 \<le> k" "k \<le> 13" "j < 4"
  shows "bin_wsize (4 * k + j - 3) = (5 + j) * 2 ^ (k - 2)" "bin_wsize (4 * k + j - 4) = (4 + j) * 2 ^ (k - 2)"
proof -
  have j: "j \<in> {0, 1, 2, 3}" using assms(3) by auto
  show "bin_wsize (4 * k + j - 3) = (5 + j) * 2 ^ (k - 2)"
    by (rule bin_cases [where P = "\<lambda>k. bin_wsize (4 * k + j - 3) = (5 + j) * 2 ^ (k - 2)", OF _ _ _ _ _ _ _ _ _ _ _ assms(1,2)])
      (use j in \<open>auto simp: bin_wsize_def bin_wsizes_def\<close>)
  show "bin_wsize (4 * k + j - 4) = (4 + j) * 2 ^ (k - 2)"
    by (rule bin_cases [where P = "\<lambda>k. bin_wsize (4 * k + j - 4) = (4 + j) * 2 ^ (k - 2)", OF _ _ _ _ _ _ _ _ _ _ _ assms(1,2)])
      (use j in \<open>auto simp: bin_wsize_def bin_wsizes_def\<close>)
qed

lemma mi_bin_small:
  assumes "unat sz + 7 < 2 ^ 64" "w = (unat sz + 7) div 8" "w \<le> 8"
  shows "unat (mi_bin sz) = (if w \<le> 1 then 1 else 2 * ((w + 1) div 2))"
proof -
  have w: "unat (mi_wsize_from_size sz) = w" using wsize_nat [OF assms(1)] assms(2) by simp
  have *: "unat (ucast ((word_of_nat w + 1 :: u64) AND NOT 1) :: u8) = 2 * ((w + 1) div 2)" if "1 < w"
  proof -
    have "w = 2 \<or> w = 3 \<or> w = 4 \<or> w = 5 \<or> w = 6 \<or> w = 7 \<or> w = 8" using that assms(3) by presburger
    then show ?thesis by (elim disjE) simp_all
  qed
  have "mi_wsize_from_size sz = word_of_nat w" by (simp flip: w)
  then show ?thesis using * assms(3) w unfolding mi_bin_def Let_def
    by (auto simp: word_le_nat_alt)
qed

text \<open>All sizes up to the largest medium size.\<close>

lemma mi_bin_fits:
  assumes "unat sz \<le> 131072"
  defines "w \<equiv> (unat sz + 7) div 8" and "b \<equiv> unat (mi_bin sz)"
  shows "1 \<le> b" "b \<le> 52" "unat sz \<le> 8 * bin_wsize b" "w \<le> bin_wsize b"
    "8 < w \<Longrightarrow> bin_wsize (b - 1) < w" "8 < w \<Longrightarrow> 4 * bin_wsize b < 5 * w"
    "w \<le> 8 \<Longrightarrow> b = (if w \<le> 1 then 1 else 2 * ((w + 1) div 2))"
proof -
  have s: "unat sz + 7 < 2 ^ 64" using assms(1) by simp
  have w: "w \<le> 16384" "unat sz \<le> 8 * w" using assms(1) by (simp_all add: w_def)
  have wd: "w = (unat sz + 7) div 8" by (simp add: w_def)
  note small = mi_bin_small [OF s wd]
  have all: "1 \<le> b \<and> b \<le> 52 \<and> w \<le> bin_wsize b \<and> (8 < w \<longrightarrow> bin_wsize (b - 1) < w \<and> 4 * bin_wsize b < 5 * w)"
  proof (cases "w \<le> 8")
    case True
    have "w = 0 \<or> w = 1 \<or> w = 2 \<or> w = 3 \<or> w = 4 \<or> w = 5 \<or> w = 6 \<or> w = 7 \<or> w = 8" using True by presburger
    then show ?thesis using small [OF True] unfolding b_def by (elim disjE) (simp_all add: bin_wsize_def bin_wsizes_def)
  next
    case False
    then obtain k j where k: "3 \<le> k" "k \<le> 13" "j < 4" "b = 4 * k + j - 3" "(4 + j) * 2 ^ (k - 2) < w" "w \<le> (5 + j) * 2 ^ (k - 2)"
      using mi_bin_large [OF s wd _ w(1)] unfolding b_def by auto
    have b1: "b - 1 = 4 * k + j - 4" using k by simp
    have "4 * ((5 + j) * 2 ^ (k - 2)) \<le> 5 * ((4 + j) * (2 :: nat) ^ (k - 2))" by (simp add: algebra_simps)
    also have "\<dots> < 5 * w" using k(5) by simp
    finally have q: "4 * bin_wsize b < 5 * w" unfolding k(4) bin_wsize_mid [OF k(1-3)] .
    show ?thesis using k bin_wsize_mid [OF k(1-3)] b1 q by auto
  qed
  then show "1 \<le> b" "b \<le> 52" "w \<le> bin_wsize b" "8 < w \<Longrightarrow> bin_wsize (b - 1) < w" "8 < w \<Longrightarrow> 4 * bin_wsize b < 5 * w"
    by simp_all
  show "unat sz \<le> 8 * bin_wsize b" using all w(2) by linarith
  show "w \<le> 8 \<Longrightarrow> b = (if w \<le> 1 then 1 else 2 * ((w + 1) div 2))" using small unfolding b_def by simp
qed

lemma bin_wsize_mono: "a < b \<Longrightarrow> 1 \<le> a \<Longrightarrow> b \<le> 52 \<Longrightarrow> bin_wsize a < bin_wsize b"
proof -
  assume ab: "a < b" "1 \<le> a" "b \<le> 52"
  have "sorted_wrt (<) (tl bin_wsizes)" by (simp add: bin_wsizes_def)
  moreover have "length (tl bin_wsizes) = 52" by (simp add: bin_wsizes_def)
  ultimately have "tl bin_wsizes ! (a - 1) < tl bin_wsizes ! (b - 1)" using ab by (auto simp: sorted_wrt_iff_nth_less)
  moreover have "tl bin_wsizes ! (c - 1) = bin_wsizes ! c" if "1 \<le> c" "c \<le> 52" for c
    using that by (subst nth_tl) (simp_all add: bin_wsizes_def)
  ultimately show ?thesis using ab by (simp add: bin_wsize_def)
qed

text \<open>Equal bins of small sizes: the words \<open>w\<close> of a bin are an interval.\<close>

definition word_bin :: "nat \<Rightarrow> nat" where
  "word_bin w = unat (mi_bin (word_of_nat (8 * w)))"

lemma word_bin_nat: "w \<le> 16384 \<Longrightarrow> unat (word_of_nat (8 * w) :: u64) = 8 * w"
  by (intro unat_of_nat_small) simp

lemma word_bin_large: "8 < w \<Longrightarrow> w \<le> 16384 \<Longrightarrow> 1 \<le> b \<Longrightarrow> b \<le> 52 \<Longrightarrow> word_bin w = b \<longleftrightarrow> bin_wsize (b - 1) < w \<and> w \<le> bin_wsize b"
proof -
  assume w: "8 < w" "w \<le> 16384" and b: "1 \<le> b" "b \<le> 52"
  let ?s = "word_of_nat (8 * w) :: u64"
  have s: "unat ?s = 8 * w" by (rule word_bin_nat [OF w(2)])
  then have "unat ?s \<le> 131072" using w(2) by simp
  note f = mi_bin_fits [OF this, folded word_bin_def, unfolded s]
  have ww: "(8 * w + 7) div 8 = w" by simp
  note f = f [unfolded ww]
  have nine: "8 < bin_wsize (word_bin w)" using f(4) w(1) by simp
  have b9: "1 < word_bin w"
  proof (rule ccontr)
    assume "\<not> 1 < word_bin w"
    then have "word_bin w = 1" using f(1) by simp
    then show False using nine by (simp add: bin_wsize_def bin_wsizes_def)
  qed
  show ?thesis
  proof
    assume "word_bin w = b"
    then show "bin_wsize (b - 1) < w \<and> w \<le> bin_wsize b" using f w by blast
  next
    assume c: "bin_wsize (b - 1) < w \<and> w \<le> bin_wsize b"
    show "word_bin w = b"
    proof (rule linorder_cases [of "word_bin w" b])
      assume l: "word_bin w < b"
      then have "bin_wsize (word_bin w) \<le> bin_wsize (b - 1)"
        using bin_wsize_mono [of "word_bin w" "b - 1"] f(1) b by (cases "word_bin w = b - 1") (simp_all add: less_imp_le)
      then show ?thesis using f(4) c by simp
    next
      assume l: "b < word_bin w"
      then have "bin_wsize b \<le> bin_wsize (word_bin w - 1)"
        using bin_wsize_mono [of b "word_bin w - 1"] f(2) b by (cases "b = word_bin w - 1") (simp_all add: less_imp_le)
      then show ?thesis using f(5) [OF w(1)] c by simp
    qed
  qed
qed

lemma word_bin_small: "w \<le> 8 \<Longrightarrow> word_bin w = (if w \<le> 1 then 1 else 2 * ((w + 1) div 2))"
proof -
  assume w: "w \<le> 8"
  have s: "unat (word_of_nat (8 * w) :: u64) = 8 * w" using w by (intro word_bin_nat) simp
  have "unat (word_of_nat (8 * w) :: u64) \<le> 131072" using w s by simp
  from mi_bin_fits(7) [OF this, folded word_bin_def, unfolded s] w show ?thesis by simp
qed

section \<open>Properties\<close>

text \<open>
  (C35) A request of up to 128 KiB fits a block of its bin, no smaller bin above 64 bytes would do, and the
  block is less than a quarter larger than the request rounded up to words; the bin of a block size that some
  request leads to is that bin. The comment promises at most about 12.5 percent, but 2049 words get a block
  of 2560.
\<close>

theorem mi_bin_least_fit:
  assumes "unat sz \<le> 131072"
  shows "unat sz \<le> unat (mi_good_size os sz) \<and>
    (64 < unat sz \<longrightarrow> 4 * unat (mi_good_size os sz) < 5 * (8 * ((unat sz + 7) div 8)) \<and>
       unat (mi_bin_size (mi_bin sz - 1)) < unat sz) \<and>
    mi_bin (mi_good_size os sz) = mi_bin sz \<and>
    unat (mi_good_size os (2049 * 8)) = 2560 * 8"
proof -
  let ?b = "unat (mi_bin sz)" and ?w = "(unat sz + 7) div 8"
  note f = mi_bin_fits [OF assms]
  have g: "mi_good_size os x = mi_bin_size (mi_bin x)" if "unat x \<le> 131072" for x
    using that by (simp add: mi_good_size_def medium_max word_le_nat_alt)
  have z: "unat (mi_good_size os sz) = 8 * bin_wsize ?b"
    using mi_bin_size_wsize [OF f(2)] by (simp add: g [OF assms] mi_bin_size_def)
  have p: "unat (mi_bin sz - 1) = ?b - 1" using f(1) by (subst unat_diff_small) simp_all
  have "unat (mi_bin_size (mi_bin sz - 1)) = 8 * bin_wsize (?b - 1)"
    using mi_bin_size_wsize [of "?b - 1"] f(2) by (simp add: mi_bin_size_def p)
  moreover have "8 * bin_wsize (?b - 1) < unat sz" if "64 < unat sz"
  proof -
    have "8 < ?w" using that by simp
    then have "bin_wsize (?b - 1) < ?w" by (rule f(5))
    then show ?thesis by presburger
  qed
  moreover have "4 * bin_wsize ?b < 5 * ?w" if "64 < unat sz" using f(6) that by simp
  moreover have "mi_bin (mi_good_size os sz) = mi_bin sz"
  proof -
    have wm: "bin_wsize ?b \<le> 16384"
    proof -
      have "\<forall>x \<in> set bin_wsizes. x \<le> 16384" "length bin_wsizes = 53" by (simp_all add: bin_wsizes_def)
      then show ?thesis using f(2) by (simp add: bin_wsize_def)
    qed
    have "mi_good_size os sz = word_of_nat (8 * bin_wsize ?b)" by (simp flip: z)
    then have "unat (mi_bin (mi_good_size os sz)) = word_bin (bin_wsize ?b)" by (simp add: word_bin_def)
    also have "\<dots> = ?b"
    proof (cases "?w \<le> 8")
      case True
      then have b: "?b = (if ?w \<le> 1 then 1 else 2 * ((?w + 1) div 2))" by (rule f(7))
      have "?w = 0 \<or> ?w = 1 \<or> ?w = 2 \<or> ?w = 3 \<or> ?w = 4 \<or> ?w = 5 \<or> ?w = 6 \<or> ?w = 7 \<or> ?w = 8" using True by presburger
      then show ?thesis unfolding b by (elim disjE) (simp_all add: bin_wsize_def bin_wsizes_def word_bin_small)
    next
      case False
      then have "8 < bin_wsize ?b" using f(4) by simp
      moreover have "bin_wsize (?b - 1) < bin_wsize ?b" using f(4,5) False by simp
      ultimately show ?thesis using word_bin_large [OF _ wm f(1,2)] by simp
    qed
    finally show ?thesis by (simp add: word_eq_iff_unat)
  qed
  moreover have "unat (mi_good_size os (2049 * 8)) = 2560 * 8"
  proof -
    have "word_bin 2049 = 41" by (subst word_bin_large) (simp_all add: bin_wsize_def bin_wsizes_def)
    then have "unat (mi_bin 16392) = 41" by (simp add: word_bin_def)
    then show ?thesis using mi_bin_size_wsize [of 41] g [of 16392] by (simp add: mi_bin_size_def bin_wsize_def bin_wsizes_def)
  qed
  ultimately show ?thesis using f(3) z by simp
qed

theorem mi_bin_least_fit_witness:
  "100 \<le> unat (mi_good_size 4096 100) \<and> mi_bin (mi_good_size 4096 100) = mi_bin 100"
  using mi_bin_least_fit [of 100 4096] by simp

end
