(* ===== verification/Mi_Queue_Lists.thy ===== *)
theory Mi_Queue_Lists
  imports Mi_Bins
begin

text \<open>
  The queues of a heap as lists of pages: every queue operation is the list operation it stands for, and the
  direct table always holds the first page of the queue that serves the size.
\<close>

section \<open>Doubly linked lists\<close>

definition head0 :: "addr list \<Rightarrow> addr" where
  "head0 xs = (if xs = [] then 0 else hd xs)"

definition last0 :: "addr list \<Rightarrow> addr" where
  "last0 xs = (if xs = [] then 0 else last xs)"

text \<open>\<open>a\<close> is the page before the list and \<open>n\<close> the page after it.\<close>

fun dll :: "(addr \<Rightarrow> mi_page_t) \<Rightarrow> addr \<Rightarrow> addr list \<Rightarrow> addr \<Rightarrow> bool" where
  "dll pa a [] n \<longleftrightarrow> True"
| "dll pa a (x # xs) n \<longleftrightarrow>
     x \<noteq> 0 \<and> page_prev (pa x) = a \<and> page_next (pa x) = (if xs = [] then n else hd xs) \<and> dll pa x xs n"

lemma dll_append:
  "dll pa a (xs @ ys) n \<longleftrightarrow> dll pa a xs (if ys = [] then n else hd ys) \<and> dll pa (if xs = [] then a else last xs) ys n"
  by (induction xs arbitrary: a) auto

lemma dll_frame:
  assumes "dll pa a xs n"
    "\<And>x. x \<in> set xs \<Longrightarrow> page_prev (pa' x) = page_prev (pa x) \<and> page_next (pa' x) = page_next (pa x)"
  shows "dll pa' a xs n"
  using assms by (induction xs arbitrary: a) auto

lemma dll_nonzero: "dll pa a xs n \<Longrightarrow> x \<in> set xs \<Longrightarrow> x \<noteq> 0"
  by (induction xs arbitrary: a) auto

lemma dll_relink_last:
  assumes "dll pa a xs n" "distinct xs" "xs \<noteq> []"
  shows "dll (pa(last xs := (pa (last xs))\<lparr>page_next := m\<rparr>)) a xs m"
proof -
  obtain zs y where e: "xs = zs @ [y]" using assms(3) by (metis rev_exhaust)
  let ?pa = "pa(y := (pa y)\<lparr>page_next := m\<rparr>)"
  have d: "dll pa a zs y" "dll pa (if zs = [] then a else last zs) [y] n" using assms(1) unfolding e dll_append by simp_all
  have "dll ?pa a zs y" using d(1) by (rule dll_frame) (use assms(2) e in auto)
  moreover have "dll ?pa (if zs = [] then a else last zs) [y] m" using d(2) by simp
  ultimately show ?thesis unfolding e dll_append by simp
qed

lemma dll_relink_first:
  assumes "dll pa a (x # xs) n" "distinct (x # xs)"
  shows "dll (pa(x := (pa x)\<lparr>page_prev := m\<rparr>)) m (x # xs) n"
proof -
  have "dll (pa(x := (pa x)\<lparr>page_prev := m\<rparr>)) x xs n"
    by (rule dll_frame [of pa]) (use assms in auto)
  then show ?thesis using assms(1) by simp
qed

lemma contains_loop_dll:
  assumes "dll pa a xs 0" "page_at st = pa" "pg \<noteq> 0"
  shows "contains_loop st pg (head0 xs) = Some (pg \<in> set xs)"
  using assms
proof (induction xs arbitrary: a)
  case Nil
  then show ?case by (subst contains_loop.simps) (simp add: head0_def)
next
  case (Cons x xs)
  then have "contains_loop st pg (head0 xs) = Some (pg \<in> set xs)" by auto
  moreover have "page_next (pa x) = head0 xs" "x \<noteq> 0" using Cons.prems(1) by (auto simp: head0_def)
  ultimately show ?case using Cons.prems by (subst contains_loop.simps) (auto simp: head0_def [of "x # xs"])
qed

section \<open>The queues of a heap\<close>

text \<open>The bins that pages are kept in: with an alignment of two words the bins 3, 5 and 7 stay empty.\<close>

definition real_bin :: "nat \<Rightarrow> bool" where
  "real_bin q \<longleftrightarrow> 1 \<le> q \<and> q \<le> 52 \<and> word_bin (bin_wsize q) = q \<or> q = MI_BIN_HUGE \<or> q = MI_BIN_FULL"

definition queue_lists :: "addr \<Rightarrow> (nat \<Rightarrow> addr list) \<Rightarrow> (addr \<Rightarrow> mi_page_t) \<Rightarrow> mi_page_queue_t list \<Rightarrow> bool" where
  "queue_lists h Q pa qs \<longleftrightarrow>
     map pq_block_size qs = map pq_block_size MI_PAGE_QUEUES_EMPTY \<and>
     (\<forall>q < 75. pq_first (qs ! q) = head0 (Q q) \<and> pq_last (qs ! q) = last0 (Q q) \<and> dll pa 0 (Q q) 0 \<and> distinct (Q q) \<and>
        (Q q \<noteq> [] \<longrightarrow> real_bin q) \<and> (\<forall>p \<in> set (Q q). xheap (pa p) = h \<and> (in_full (pa p) \<longleftrightarrow> q = MI_BIN_FULL))) \<and>
     (\<forall>q < 75. \<forall>r < 75. q \<noteq> r \<longrightarrow> set (Q q) \<inter> set (Q r) = {})"

definition direct_page :: "addr \<Rightarrow> addr list \<Rightarrow> addr" where
  "direct_page e xs = (if xs = [] then e else hd xs)"

definition direct_ok :: "addr \<Rightarrow> (nat \<Rightarrow> addr list) \<Rightarrow> addr list \<Rightarrow> bool" where
  "direct_ok e Q direct \<longleftrightarrow> length direct = MI_PAGES_DIRECT \<and> (\<forall>w \<le> 128. direct ! w = direct_page e (Q (word_bin w)))"

definition heap_lists :: "addr \<Rightarrow> addr \<Rightarrow> (nat \<Rightarrow> addr list) \<Rightarrow> heap_state \<Rightarrow> bool" where
  "heap_lists e h Q st \<longleftrightarrow> queue_lists h Q (page_at st) (pages (heap_at st h)) \<and>
     direct_ok e Q (pages_free_direct (heap_at st h)) \<and> page_count (heap_at st h) = word_of_nat (\<Sum>q<75. length (Q q))"

lemma queues_empty_length: "length MI_PAGE_QUEUES_EMPTY = 75"
  by (simp add: MI_PAGE_QUEUES_EMPTY_def)

lemma pages_length: "queue_lists h Q pa qs \<Longrightarrow> length qs = 75"
proof -
  assume "queue_lists h Q pa qs"
  then have "length (map pq_block_size qs) = length (map pq_block_size MI_PAGE_QUEUES_EMPTY)" unfolding queue_lists_def by metis
  then show ?thesis by (simp add: queues_empty_length)
qed

lemma pages_size: "queue_lists h Q pa qs \<Longrightarrow> q < 75 \<Longrightarrow> pq_block_size (qs ! q) = pq_block_size (MI_PAGE_QUEUES_EMPTY ! q)"
proof -
  assume q: "queue_lists h Q pa qs" "q < 75"
  have "map pq_block_size qs ! q = map pq_block_size MI_PAGE_QUEUES_EMPTY ! q" using q(1) unfolding queue_lists_def by metis
  then show ?thesis using q(2) pages_length [OF q(1)] by (simp add: queues_empty_length)
qed

section \<open>The direct table\<close>

lemma set_direct_nth:
  "idx < length d \<Longrightarrow> length (set_direct start idx pg d) = length d \<and>
    (\<forall>w < length d. set_direct start idx pg d ! w = (if start \<le> w \<and> w \<le> idx then pg else d ! w))"
proof -
  have "length (fold (\<lambda>sz d. d[sz := pg]) xs d) = length d \<and>
      (\<forall>w < length d. fold (\<lambda>sz d. d[sz := pg]) xs d ! w = (if w \<in> set xs then pg else d ! w))" for xs
    by (induction xs arbitrary: d) (auto simp: nth_list_update)
  from this [of "[start..<idx + 1]"] show ?thesis unfolding set_direct_def by auto
qed

lemma bin_wsize_le: "i \<le> j \<Longrightarrow> 1 \<le> i \<Longrightarrow> j \<le> 52 \<Longrightarrow> bin_wsize i \<le> bin_wsize j"
  using bin_wsize_mono [of i j] by (cases "i = j") (auto intro: less_imp_le)

lemma real_bin_cases:
  assumes "real_bin q" "bin_wsize q \<le> 128" "q \<le> 52"
  shows "q = 1 \<or> q = 2 \<or> q = 4 \<or> q = 6 \<or> 8 \<le> q \<and> q \<le> 24"
proof -
  have r: "1 \<le> q" "word_bin (bin_wsize q) = q" using assms(1,3) by (auto simp: real_bin_def MI_BIN_HUGE_def MI_BIN_FULL_def)
  have "q \<le> 24"
  proof (rule ccontr)
    assume "\<not> q \<le> 24"
    then have "bin_wsize 24 < bin_wsize q" using bin_wsize_mono [of 24 q] assms(3) by simp
    then show False using assms(2) by (simp add: bin_wsize_def bin_wsizes_def)
  qed
  moreover have "q \<noteq> 3" "q \<noteq> 5" "q \<noteq> 7" using r(2) by (auto simp: bin_wsize_def bin_wsizes_def word_bin_small)
  ultimately show ?thesis using r(1) by presburger
qed

lemma mi_bin_of_size:
  assumes "queue_lists h Q pa qs" "i \<le> 52"
  shows "mi_bin (pq_block_size (qs ! i)) = word_of_nat (word_bin (bin_wsize i))"
    "unat (mi_wsize_from_size (pq_block_size (qs ! i))) = bin_wsize i" "unat (pq_block_size (qs ! i)) = 8 * bin_wsize i"
proof -
  have u: "unat (pq_block_size (qs ! i)) = 8 * bin_wsize i"
    using pages_size [OF assms(1), of i] mi_bin_size_wsize [OF assms(2)] assms(2) by simp
  have "bin_wsize i \<le> 16384"
  proof -
    have "\<forall>x \<in> set bin_wsizes. x \<le> 16384" "length bin_wsizes = 53" by (simp_all add: bin_wsizes_def)
    then show ?thesis using assms(2) by (simp add: bin_wsize_def)
  qed
  then show "unat (mi_wsize_from_size (pq_block_size (qs ! i))) = bin_wsize i" using u by (subst wsize_nat) simp_all
  have "pq_block_size (qs ! i) = word_of_nat (8 * bin_wsize i)" by (simp flip: u)
  then show "mi_bin (pq_block_size (qs ! i)) = word_of_nat (word_bin (bin_wsize i))" by (simp add: word_bin_def)
  show "unat (pq_block_size (qs ! i)) = 8 * bin_wsize i" by (rule u)
qed

text \<open>The entries that are set are those of the sizes of the bin.\<close>

definition direct_start :: "mi_page_queue_t list \<Rightarrow> nat \<Rightarrow> nat" where
  "direct_start qs q =
     (let idx = unat (mi_wsize_from_size (pq_block_size (qs ! q)))
      in if idx \<le> 1 then 0
         else
           (let prev = previous_bin qs (mi_bin (pq_block_size (qs ! q))) (q - 1);
                start = 1 + unat (mi_wsize_from_size (pq_block_size (qs ! prev)))
            in if start > idx then idx else start))"

lemma previous_bin_unfold:
  "previous_bin qs b i = (if i = 0 then 0 else if b = mi_bin (pq_block_size (qs ! i)) then previous_bin qs b (i - 1) else i)"
  by (cases i) simp_all

lemma small_word: "a < 256 \<Longrightarrow> b < 256 \<Longrightarrow> (word_of_nat a :: u8) = word_of_nat b \<longleftrightarrow> a = b"
proof -
  assume "a < 256" "b < 256"
  then have "unat (word_of_nat a :: u8) = a" "unat (word_of_nat b :: u8) = b" by (simp_all add: unat_of_nat_small)
  then show ?thesis by metis
qed

lemma word_bin_of_bin: "8 \<le> i \<Longrightarrow> i \<le> 52 \<Longrightarrow> word_bin (bin_wsize i) = i"
proof -
  assume i: "8 \<le> i" "i \<le> 52"
  have m: "bin_wsize i \<le> 16384"
  proof -
    have "\<forall>x \<in> set bin_wsizes. x \<le> 16384" "length bin_wsizes = 53" by (simp_all add: bin_wsizes_def)
    then show ?thesis using i by (simp add: bin_wsize_def)
  qed
  show ?thesis
  proof (cases "i = 8")
    case True
    then show ?thesis by (simp add: bin_wsize_def bin_wsizes_def word_bin_small)
  next
    case False
    then have "bin_wsize 8 < bin_wsize i" "bin_wsize (i - 1) < bin_wsize i" using bin_wsize_mono i by simp_all
    moreover have "bin_wsize 8 = 8" by (simp add: bin_wsize_def bin_wsizes_def)
    ultimately show ?thesis using word_bin_large [OF _ m, of i] i by simp
  qed
qed

lemma word_bin_le: "w \<le> 16384 \<Longrightarrow> word_bin w \<le> 52"
proof -
  assume w: "w \<le> 16384"
  have "unat (word_of_nat (8 * w) :: u64) \<le> 131072" using word_bin_nat [OF w] w by simp
  from mi_bin_fits(2) [OF this] show ?thesis by (simp add: word_bin_def)
qed

lemma direct_entries:
  assumes ql: "queue_lists h Q pa qs" and rb: "real_bin q" "q \<le> 52" and sm: "bin_wsize q \<le> 128" and w: "w \<le> 128"
  shows "direct_start qs q \<le> w \<and> w \<le> bin_wsize q \<longleftrightarrow> word_bin w = q"
proof -
  note bs = mi_bin_of_size [OF ql]
  have wq: "word_bin (bin_wsize q) = q" using rb by (auto simp: real_bin_def MI_BIN_HUGE_def MI_BIN_FULL_def)
  have eq: "mi_bin (pq_block_size (qs ! q)) = mi_bin (pq_block_size (qs ! i)) \<longleftrightarrow> word_bin (bin_wsize i) = q"
    if "i \<le> 52" "bin_wsize i \<le> 16384" for i
    using bs(1) [OF that(1)] bs(1) [OF rb(2)] word_bin_le [OF that(2)] rb(2) wq by (auto simp: small_word)
  consider "q = 1" | "q = 2 \<or> q = 4 \<or> q = 6 \<or> q = 8" | "9 \<le> q" "q \<le> 24"
    using real_bin_cases [OF rb(1) sm rb(2)] by linarith
  then show ?thesis
  proof cases
    case 1
    have "bin_wsize 1 = 1" by (simp add: bin_wsize_def bin_wsizes_def)
    then have "direct_start qs q = 0" using bs(2) [OF rb(2)] 1 by (simp add: direct_start_def)
    moreover have "word_bin w \<noteq> 1" if "1 < w"
    proof (cases "w \<le> 8")
      case False
      then have "\<not> word_bin w = 1" using word_bin_large [of w 1] w \<open>bin_wsize 1 = 1\<close> by simp
      then show ?thesis .
    qed (use that in \<open>simp add: word_bin_small\<close>)
    moreover have "word_bin w = 1" if "w \<le> 1" using that by (simp add: word_bin_small)
    ultimately show ?thesis using 1 \<open>bin_wsize 1 = 1\<close> by (cases "w \<le> 1") auto
  next
    case 2
    then have bq: "bin_wsize q = q" "bin_wsize (q - 1) = q - 1" "q \<noteq> 2 \<Longrightarrow> bin_wsize (q - 2) = q - 2"
      by (auto simp: bin_wsize_def bin_wsizes_def)
    have ws: "word_bin (q - 1) = (if q = 2 then 1 else q)" "q \<noteq> 2 \<Longrightarrow> word_bin (q - 2) = q - 2"
      using 2 by (auto simp: word_bin_small)
    have "direct_start qs q = (if q = 2 then 2 else q - 1)"
    proof (cases "q = 2")
      case True
      have "previous_bin qs (mi_bin (pq_block_size (qs ! q))) (q - 1) = q - 1"
        using eq [of "q - 1"] bq ws(1) True by (subst previous_bin_unfold) simp
      then show ?thesis using True bs(2) [of q] bs(2) [of "q - 1"] bq by (simp add: direct_start_def)
    next
      case False
      have q: "2 < q" "q \<le> 8" using 2 False by auto
      have "previous_bin qs (mi_bin (pq_block_size (qs ! q))) (q - 1) = previous_bin qs (mi_bin (pq_block_size (qs ! q))) (q - 2)"
        using eq [of "q - 1"] bq ws(1) False q by (subst previous_bin_unfold) (simp add: numeral_2_eq_2)
      moreover have "previous_bin qs (mi_bin (pq_block_size (qs ! q))) (q - 2) = q - 2"
        using eq [of "q - 2"] bq(3) ws(2) False q by (subst previous_bin_unfold) simp
      ultimately show ?thesis using False q bs(2) [of q] bs(2) [of "q - 2"] bq by (simp add: direct_start_def Let_def) presburger
    qed
    moreover have "word_bin w = q \<longleftrightarrow> (if q = 2 then w = 2 else w = q - 1 \<or> w = q)" if "w \<le> 8"
    proof -
      have "w = 0 \<or> w = 1 \<or> w = 2 \<or> w = 3 \<or> w = 4 \<or> w = 5 \<or> w = 6 \<or> w = 7 \<or> w = 8" using that by presburger
      then show ?thesis using 2 by (elim disjE) (auto simp: word_bin_small)
    qed
    moreover have "word_bin w \<noteq> q" if "8 < w"
      using word_bin_large [OF that, of q] w 2 bq(1) that by auto
    ultimately show ?thesis using 2 bq(1) by (cases "w \<le> 8") auto
  next
    case 3
    have m: "bin_wsize (q - 1) < bin_wsize q" using bin_wsize_mono [of "q - 1" q] 3 by simp
    have nine: "8 \<le> bin_wsize (q - 1)"
    proof -
      have "bin_wsize 8 = 8" by (simp add: bin_wsize_def bin_wsizes_def)
      moreover have "bin_wsize 8 \<le> bin_wsize (q - 1)" by (rule bin_wsize_le) (use 3 in linarith)+
      ultimately show ?thesis by simp
    qed
    have "word_bin (bin_wsize (q - 1)) \<noteq> q" using word_bin_of_bin [of "q - 1"] 3 by simp
    then have "previous_bin qs (mi_bin (pq_block_size (qs ! q))) (q - 1) = q - 1"
      using eq [of "q - 1"] 3 sm m by (subst previous_bin_unfold) simp
    then have "direct_start qs q = 1 + bin_wsize (q - 1)"
      using bs(2) [OF rb(2)] bs(2) [of "q - 1"] 3 m nine by (simp add: direct_start_def)
    moreover have "word_bin w \<noteq> q" if "w \<le> 8"
    proof -
      have "w = 0 \<or> w = 1 \<or> w = 2 \<or> w = 3 \<or> w = 4 \<or> w = 5 \<or> w = 6 \<or> w = 7 \<or> w = 8" using that by presburger
      then have "word_bin w \<le> 8" by (elim disjE) (simp_all add: word_bin_small)
      then show ?thesis using 3 by linarith
    qed
    ultimately show ?thesis using word_bin_large [of w q] w 3 nine by (cases "w \<le> 8") auto
  qed
qed

lemma first_update_unfold:
  "mi_heap_queue_first_update e h q st =
     (let pq = the_queue h q st; pg = (if pq_first pq = 0 then e else pq_first pq);
          idx = unat (mi_wsize_from_size (pq_block_size pq))
      in if pq_block_size pq > MI_SMALL_SIZE_MAX \<or> pages_free_direct (heap_at st h) ! idx = pg then st
         else set_heap h (\<lambda>hp. hp\<lparr>pages_free_direct :=
                set_direct (direct_start (pages (heap_at st h)) q) idx pg (pages_free_direct (heap_at st h))\<rparr>) st)"
  unfolding mi_heap_queue_first_update_def direct_start_def the_queue_def Let_def by simp

lemma queue_size_large:
  assumes "queue_lists h Q pa qs" "real_bin q" "\<not> (q \<le> 52 \<and> bin_wsize q \<le> 128)"
  shows "pq_block_size (qs ! q) > MI_SMALL_SIZE_MAX"
proof (cases "q \<le> 52")
  case True
  then show ?thesis using assms(3) mi_bin_of_size(3) [OF assms(1) True]
    by (simp add: MI_SMALL_SIZE_MAX_def MI_SMALL_WSIZE_MAX_def word_less_nat_alt)
next
  case False
  then have "q = 73 \<or> q = 74" using assms(2) by (simp add: real_bin_def MI_BIN_HUGE_def MI_BIN_FULL_def)
  then show ?thesis using pages_size [OF assms(1), of q]
    by (auto simp: MI_PAGE_QUEUES_EMPTY_def QNULL_def medium_max MI_SMALL_SIZE_MAX_def MI_SMALL_WSIZE_MAX_def)
qed

text \<open>The update after a change of one queue.\<close>

lemma first_update_direct:
  assumes ql: "queue_lists h Q (page_at st) (pages (heap_at st h))" and rb: "real_bin q" and q: "q < 75"
    and d: "direct_ok e Q' (pages_free_direct (heap_at st h))" and same: "\<And>r. r \<noteq> q \<Longrightarrow> Q' r = Q r"
  shows "\<exists>direct. mi_heap_queue_first_update e h q st = set_heap h (\<lambda>hp. hp\<lparr>pages_free_direct := direct\<rparr>) st \<and> direct_ok e Q direct"
proof -
  let ?d = "pages_free_direct (heap_at st h)" and ?qs = "pages (heap_at st h)"
  have id: "st = set_heap h (\<lambda>hp. hp\<lparr>pages_free_direct := ?d\<rparr>) st" by (simp add: set_heap_def)
  have other: "direct_page e (Q' (word_bin w)) = direct_page e (Q (word_bin w))" if "word_bin w \<noteq> q" for w
    using same [OF that] by simp
  have first: "pq_first (?qs ! q) = head0 (Q q)" and dl: "dll (page_at st) 0 (Q q) 0"
    using ql q by (simp_all add: queue_lists_def)
  have nz: "\<forall>x \<in> set (Q q). x \<noteq> 0" using dll_nonzero [OF dl] by blast
  from first nz have pg: "(if pq_first (?qs ! q) = 0 then e else pq_first (?qs ! q)) = direct_page e (Q q)"
    by (auto simp: head0_def direct_page_def)
  show ?thesis
  proof (cases "q \<le> 52 \<and> bin_wsize q \<le> 128")
    case False
    have "word_bin w \<noteq> q" if "w \<le> 128" for w
    proof
      assume wq: "word_bin w = q"
      then have q52: "q \<le> 52" using word_bin_le [of w] that by simp
      then have "bin_wsize q \<le> bin_wsize 24 \<or> 24 < q" using bin_wsize_mono [of q 24] rb
        by (cases "q = 24") (auto simp: real_bin_def MI_BIN_HUGE_def MI_BIN_FULL_def)
      moreover have "bin_wsize 24 = 128" by (simp add: bin_wsize_def bin_wsizes_def)
      ultimately have "24 < q" using False q52 by auto
have "bin_wsize 24 \<le> bin_wsize (q - 1)" by (rule bin_wsize_le) (use \<open>24 < q\<close> q52 in linarith)+
      moreover have "8 < w" using wq word_bin_small [of w] \<open>24 < q\<close> by (cases "w \<le> 8") (auto split: if_splits)
      ultimately show False using word_bin_large [of w q] wq that q52 \<open>24 < q\<close> \<open>bin_wsize 24 = 128\<close> by simp
    qed
    then have "direct_ok e Q ?d" using d other by (simp add: direct_ok_def)
    moreover have "mi_heap_queue_first_update e h q st = st"
      using queue_size_large [OF ql rb False] by (simp add: first_update_unfold the_queue_def Let_def)
    ultimately show ?thesis using id by metis
  next
    case True
    then have q52: "q \<le> 52" and sm: "bin_wsize q \<le> 128" by simp_all
    have idx: "unat (mi_wsize_from_size (pq_block_size (?qs ! q))) = bin_wsize q" by (rule mi_bin_of_size(2) [OF ql q52])
    have wq: "word_bin (bin_wsize q) = q" using rb q52 by (auto simp: real_bin_def MI_BIN_HUGE_def MI_BIN_FULL_def)
    have szs: "\<not> pq_block_size (?qs ! q) > MI_SMALL_SIZE_MAX"
      using mi_bin_of_size(3) [OF ql q52] sm by (simp add: MI_SMALL_SIZE_MAX_def MI_SMALL_WSIZE_MAX_def word_less_nat_alt)
    have len: "length ?d = 129" using d by (simp add: direct_ok_def MI_PAGES_DIRECT_def MI_SMALL_WSIZE_MAX_def)
    show ?thesis
    proof (cases "?d ! bin_wsize q = direct_page e (Q q)")
      case True
      then have "direct_page e (Q' q) = direct_page e (Q q)" using d sm wq by (auto simp: direct_ok_def)
      then have "direct_ok e Q ?d" using d other by (metis direct_ok_def)
      moreover have "mi_heap_queue_first_update e h q st = st"
        using True pg idx by (simp add: first_update_unfold the_queue_def Let_def)
      ultimately show ?thesis using id by metis
    next
      case False
      let ?d' = "set_direct (direct_start ?qs q) (bin_wsize q) (direct_page e (Q q)) ?d"
      have "mi_heap_queue_first_update e h q st = set_heap h (\<lambda>hp. hp\<lparr>pages_free_direct := ?d'\<rparr>) st"
        unfolding first_update_unfold the_queue_def Let_def pg idx using False szs by simp
      moreover have "direct_ok e Q ?d'"
      proof -
        have "?d' ! w = direct_page e (Q (word_bin w))" if "w \<le> 128" for w
        proof -
          have "?d' ! w = (if direct_start ?qs q \<le> w \<and> w \<le> bin_wsize q then direct_page e (Q q) else ?d ! w)"
            using set_direct_nth [of "bin_wsize q" ?d] len sm that by simp
          then show ?thesis using direct_entries [OF ql rb q52 sm that] d that other [of w] by (auto simp: direct_ok_def)
        qed
        moreover have "length ?d' = MI_PAGES_DIRECT" using set_direct_nth [of "bin_wsize q" ?d] len sm d by (simp add: direct_ok_def)
        ultimately show ?thesis by (simp add: direct_ok_def)
      qed
      ultimately show ?thesis by blast
    qed
  qed
qed

section \<open>A heap with its links changed\<close>

definition relinked :: "addr \<Rightarrow> (addr \<Rightarrow> mi_page_t) \<Rightarrow> mi_page_queue_t list \<Rightarrow> addr list \<Rightarrow> heap_state \<Rightarrow> heap_state" where
  "relinked h pa qs d st =
     st\<lparr>page_at := pa, heap_at := (heap_at st)(h := (heap_at st h)\<lparr>pages := qs, pages_free_direct := d\<rparr>)\<rparr>"

lemma relinked_same: "relinked h (page_at st) (pages (heap_at st h)) (pages_free_direct (heap_at st h)) st = st"
  by (simp add: relinked_def)

lemma heap_fields_commute: "hp\<lparr>pages_free_direct := d, pages := qs\<rparr> = hp\<lparr>pages := qs, pages_free_direct := d\<rparr>"
  by (cases hp) simp

lemma relinked_simps:
  "set_page p f (relinked h pa qs d st) = relinked h (pa(p := f (pa p))) qs d st"
  "set_queue h q g (relinked h pa qs d st) = relinked h pa (qs[q := g (qs ! q)]) d st"
  "the_queue h q (relinked h pa qs d st) = qs ! q"
  "page_at (relinked h pa qs d st) = pa"
  "pages (heap_at (relinked h pa qs d st) h) = qs"
  "pages_free_direct (heap_at (relinked h pa qs d st) h) = d"
  "page_count (heap_at (relinked h pa qs d st) h) = page_count (heap_at st h)"
  "set_heap h (\<lambda>hp. hp\<lparr>pages_free_direct := d'\<rparr>) (relinked h pa qs d st) = relinked h pa qs d' st"
  by (simp_all add: relinked_def set_page_def set_queue_def set_heap_def the_queue_def heap_fields_commute)

lemma first_update_relinked:
  assumes "queue_lists h Q pa qs" "real_bin q" "q < 75" "direct_ok e Q' d" "\<And>r. r \<noteq> q \<Longrightarrow> Q' r = Q r"
  shows "\<exists>d'. mi_heap_queue_first_update e h q (relinked h pa qs d st) = relinked h pa qs d' st \<and> direct_ok e Q d'"
  using first_update_direct [of h Q "relinked h pa qs d st" q e Q'] assms by (simp add: relinked_simps)

text \<open>One queue is changed and the others keep their pages.\<close>

lemma queue_lists_update:
  assumes "queue_lists h Q pa qs" "q < 75" "dll pa' 0 zs 0" "distinct zs" "zs \<noteq> [] \<Longrightarrow> real_bin q"
    "\<And>x. x \<in> set zs \<Longrightarrow> xheap (pa' x) = h \<and> (in_full (pa' x) \<longleftrightarrow> q = MI_BIN_FULL)"
    "\<And>r. r < 75 \<Longrightarrow> r \<noteq> q \<Longrightarrow> set zs \<inter> set (Q r) = {}"
    "\<And>r x. r < 75 \<Longrightarrow> r \<noteq> q \<Longrightarrow> x \<in> set (Q r) \<Longrightarrow> pa' x = pa x"
  shows "queue_lists h (Q(q := zs)) pa' (qs[q := (qs ! q)\<lparr>pq_first := head0 zs, pq_last := last0 zs\<rparr>])"
    (is "queue_lists h ?Q pa' ?qs")
proof -
  have len: "length qs = 75" by (rule pages_length [OF assms(1)])
  have old: "pq_first (qs ! r) = head0 (Q r) \<and> pq_last (qs ! r) = last0 (Q r) \<and> dll pa 0 (Q r) 0 \<and> distinct (Q r) \<and>
        (Q r \<noteq> [] \<longrightarrow> real_bin r) \<and> (\<forall>p \<in> set (Q r). xheap (pa p) = h \<and> (in_full (pa p) \<longleftrightarrow> r = MI_BIN_FULL))" if "r < 75" for r
    using assms(1) that unfolding queue_lists_def by blast
  have apart: "set (Q r) \<inter> set (Q s) = {}" if "r < 75" "s < 75" "r \<noteq> s" for r s
    using assms(1) that unfolding queue_lists_def by blast
  have sizes: "map pq_block_size ?qs = map pq_block_size MI_PAGE_QUEUES_EMPTY"
  proof -
    have "map pq_block_size ?qs = map pq_block_size qs"
      by (rule nth_equalityI) (use len assms(2) in \<open>simp_all add: nth_list_update\<close>)
    then show ?thesis using assms(1) by (simp add: queue_lists_def)
  qed
  have each: "pq_first (?qs ! r) = head0 (?Q r) \<and> pq_last (?qs ! r) = last0 (?Q r) \<and> dll pa' 0 (?Q r) 0 \<and> distinct (?Q r) \<and>
        (?Q r \<noteq> [] \<longrightarrow> real_bin r) \<and> (\<forall>p \<in> set (?Q r). xheap (pa' p) = h \<and> (in_full (pa' p) \<longleftrightarrow> r = MI_BIN_FULL))" if r: "r < 75" for r
  proof (cases "r = q")
    case True
    then show ?thesis using assms(2-6) len by simp
  next
    case False
    have same: "\<And>x. x \<in> set (Q r) \<Longrightarrow> pa' x = pa x" using assms(8) [OF r False] .
    have "dll pa 0 (Q r) 0" using old [OF r] by blast
    then have "dll pa' 0 (Q r) 0" by (rule dll_frame) (simp add: same)
    then show ?thesis using old [OF r] False by (simp add: same)
  qed
  have disj: "set (?Q r) \<inter> set (?Q s) = {}" if "r < 75" "s < 75" "r \<noteq> s" for r s
  proof -
    consider "r = q" | "s = q" | "r \<noteq> q" "s \<noteq> q" by blast
    then show ?thesis
    proof cases
      case 1
      then show ?thesis using assms(7) [of s] that by simp
    next
      case 2
      then have "set zs \<inter> set (Q r) = {}" using assms(7) [of r] that by simp
      then show ?thesis using 2 that(3) by (simp add: Int_commute)
    next
      case 3
      then show ?thesis using apart [OF that] by simp
    qed
  qed
  show ?thesis unfolding queue_lists_def using sizes each disj by blast
qed

lemma queue_lists_get:
  assumes "queue_lists h Q pa qs" "q < 75"
  shows "pq_first (qs ! q) = head0 (Q q)" "pq_last (qs ! q) = last0 (Q q)" "dll pa 0 (Q q) 0" "distinct (Q q)"
    "Q q \<noteq> [] \<Longrightarrow> real_bin q" "\<And>x. x \<in> set (Q q) \<Longrightarrow> xheap (pa x) = h"
    "\<And>x. x \<in> set (Q q) \<Longrightarrow> in_full (pa x) \<longleftrightarrow> q = MI_BIN_FULL"
    "\<And>r. r < 75 \<Longrightarrow> r \<noteq> q \<Longrightarrow> set (Q q) \<inter> set (Q r) = {}"
  using assms unfolding queue_lists_def by blast+

section \<open>Taking a page out of its queue\<close>

definition unlinked :: "(addr \<Rightarrow> mi_page_t) \<Rightarrow> addr \<Rightarrow> addr list \<Rightarrow> addr list \<Rightarrow> (addr \<Rightarrow> mi_page_t)" where
  "unlinked pa p xs ys =
     (let pa = (if xs = [] then pa else pa(last xs := (pa (last xs))\<lparr>page_next := head0 ys\<rparr>))
      in if ys = [] then pa else pa(hd ys := (pa (hd ys))\<lparr>page_prev := last0 xs\<rparr>))"

lemma unlinked_frame: "x \<notin> set xs \<union> set ys \<Longrightarrow> unlinked pa p xs ys x = pa x"
  "xheap (unlinked pa p xs ys x) = xheap (pa x)" "in_full (unlinked pa p xs ys x) = in_full (pa x)"
proof -
  assume "x \<notin> set xs \<union> set ys"
  then have "xs \<noteq> [] \<Longrightarrow> x \<noteq> last xs" "ys \<noteq> [] \<Longrightarrow> x \<noteq> hd ys" by (metis UnI1 last_in_set, metis UnI2 hd_in_set)
  then show "unlinked pa p xs ys x = pa x" by (simp add: unlinked_def Let_def)
qed (simp_all add: unlinked_def Let_def)

lemma unlinked_dll:
  assumes "dll pa 0 (xs @ p # ys) 0" "distinct (xs @ p # ys)"
  shows "dll (unlinked pa p xs ys) 0 (xs @ ys) 0"
proof -
  have dx: "dll pa 0 xs p" and dy: "dll pa p ys 0" using assms(1) unfolding dll_append by (auto split: if_splits)
  have apart: "set xs \<inter> set ys = {}" "distinct xs" "distinct ys" using assms(2) by auto
  let ?pa = "if xs = [] then pa else pa(last xs := (pa (last xs))\<lparr>page_next := head0 ys\<rparr>)"
  have dx1: "dll ?pa 0 xs (head0 ys)"
  proof (cases "xs = []")
    case False
    then show ?thesis using dll_relink_last [OF dx apart(2) False] by simp
  next
    case True
    then show ?thesis by simp
  qed
  have "?pa x = pa x" if "x \<in> set ys" for x
  proof (cases "xs = []")
    case False
    then have "x \<noteq> last xs" using that apart(1) last_in_set [of xs] by blast
    then show ?thesis by simp
  qed simp
  then have dy1: "dll ?pa p ys 0" using dy by - (erule dll_frame, simp)
  show ?thesis
  proof (cases ys)
    case Nil
    then have "unlinked pa p xs ys = ?pa" by (simp add: unlinked_def)
    then show ?thesis using dx1 Nil by (simp add: head0_def)
  next
    case (Cons y zs)
    let ?pb = "?pa(y := (?pa y)\<lparr>page_prev := last0 xs\<rparr>)"
    have u: "unlinked pa p xs ys = ?pb" using Cons by (simp add: unlinked_def Let_def)
    have "dll ?pb (last0 xs) (y # zs) 0" by (rule dll_relink_first [of ?pa p]) (use dy1 apart(3) Cons in blast)+
    moreover have "?pb x = ?pa x" if "x \<in> set xs" for x
    proof -
      have "x \<noteq> y" using that apart(1) Cons by auto
      then show ?thesis by simp
    qed
    then have "dll ?pb 0 xs y" using dx1 Cons by - (rule dll_frame [of ?pa], simp_all add: head0_def)
    ultimately show ?thesis unfolding u dll_append using Cons by (simp add: last0_def)
  qed
qed

lemma head0_last0_mem: "xs \<noteq> [] \<Longrightarrow> head0 xs \<in> set xs" "xs \<noteq> [] \<Longrightarrow> last0 xs \<in> set xs"
  by (simp_all add: head0_def last0_def)

lemma dll_at:
  assumes "dll pa 0 (xs @ p # ys) 0"
  shows "page_prev (pa p) = last0 xs" "page_next (pa p) = head0 ys" "p \<noteq> 0"
  using assms unfolding dll_append by (auto simp: last0_def head0_def split: if_splits)


lemma unlink_page_steps:
  assumes "xheap (page_at st p) = h"
    "(if page_prev (page_at st p) \<noteq> 0
      then set_page (page_prev (page_at st p)) (\<lambda>r. r\<lparr>page_next := page_next (page_at st p)\<rparr>) st else st) = s1"
    "(if page_next (page_at s1 p) \<noteq> 0
      then set_page (page_next (page_at s1 p)) (\<lambda>r. r\<lparr>page_prev := page_prev (page_at s1 p)\<rparr>) s1 else s1) = s2"
    "(if p = pq_last (the_queue h q s2)
      then set_queue h q (\<lambda>pq. pq\<lparr>pq_last := page_prev (page_at s2 p)\<rparr>) s2 else s2) = s3"
    "(if p = pq_first (the_queue h q s3)
      then mi_heap_queue_first_update e h q (set_queue h q (\<lambda>pq. pq\<lparr>pq_first := page_next (page_at s3 p)\<rparr>) s3) else s3) = s4"
  shows "unlink_page e q p st = s4"
  unfolding unlink_page_def Let_def assms(1) assms(2) assms(3) assms(4) assms(5) by (rule refl)

text \<open>The first half of \<open>mi_page_queue_remove\<close> and \<open>mi_page_queue_enqueue_from\<close>.\<close>

lemma unlink_lists:
  assumes ql: "queue_lists h Q (page_at st) (pages (heap_at st h))" and q: "q < 75" and Q: "Q q = xs @ p # ys"
    and d: "direct_ok e Q (pages_free_direct (heap_at st h))"
  shows "\<exists>qs d. unlink_page e q p st = relinked h (unlinked (page_at st) p xs ys) qs d st \<and>
    queue_lists h (Q(q := xs @ ys)) (unlinked (page_at st) p xs ys) qs \<and> direct_ok e (Q(q := xs @ ys)) d"
proof -
  let ?pa = "page_at st" and ?qs = "pages (heap_at st h)" and ?d = "pages_free_direct (heap_at st h)"
  let ?Q = "Q(q := xs @ ys)" and ?u = "unlinked (page_at st) p xs ys"
  let ?q = "(?qs ! q)\<lparr>pq_first := head0 (xs @ ys), pq_last := last0 (xs @ ys)\<rparr>"
  note g = queue_lists_get [OF ql q, unfolded Q]
  have at: "page_prev (?pa p) = last0 xs" "page_next (?pa p) = head0 ys" "p \<noteq> 0" using dll_at [OF g(3)] by simp_all
  have dx: "distinct xs" "distinct ys" "p \<notin> set xs" "p \<notin> set ys" "set xs \<inter> set ys = {}" using g(4) by auto
  have nz: "x \<noteq> 0" if "x \<in> set xs \<union> set ys" for x using dll_nonzero [OF g(3), of x] that by auto
  have len: "length ?qs = 75" by (rule pages_length [OF ql])
  have hp: "xheap (?pa p) = h" using g(6) by simp
  have zx: "last0 xs = 0 \<longleftrightarrow> xs = []" using nz [of "last0 xs"] head0_last0_mem(2) [of xs] by (cases "xs = []") (auto simp: last0_def)
  have zy: "head0 ys = 0 \<longleftrightarrow> ys = []" using nz [of "head0 ys"] head0_last0_mem(1) [of ys] by (cases "ys = []") (auto simp: head0_def)
  have px: "xs \<noteq> [] \<Longrightarrow> last xs \<noteq> p" "xs \<noteq> [] \<Longrightarrow> hd xs \<noteq> p" "ys \<noteq> [] \<Longrightarrow> hd ys \<noteq> p" "ys \<noteq> [] \<Longrightarrow> last ys \<noteq> p"
    using dx(3,4) last_in_set [of xs] hd_in_set [of xs] hd_in_set [of ys] last_in_set [of ys] by metis+
  have uq: "queue_lists h ?Q ?u (?qs[q := ?q])"
  proof (rule queue_lists_update [OF ql q])
    show "dll ?u 0 (xs @ ys) 0" by (rule unlinked_dll [OF g(3,4)])
    show "distinct (xs @ ys)" using dx by simp
    show "real_bin q" using g(5) by simp
    show "xheap (?u x) = h \<and> (in_full (?u x) \<longleftrightarrow> q = MI_BIN_FULL)" if "x \<in> set (xs @ ys)" for x
      using g(6,7) [of x] that by (simp add: unlinked_frame(2,3))
    show "set (xs @ ys) \<inter> set (Q r) = {}" if "r < 75" "r \<noteq> q" for r using g(8) [OF that] by auto
    show "?u x = ?pa x" if "r < 75" "r \<noteq> q" "x \<in> set (Q r)" for r x
    proof (rule unlinked_frame(1))
      show "x \<notin> set xs \<union> set ys" using g(8) [OF that(1,2)] that(3) by auto
    qed
  qed
  have rb: "real_bin q" using g(5) by simp
  let ?pre = "\<lambda>qs. relinked h ?u qs ?d st"
  let ?q1 = "if ys = [] then (?qs ! q)\<lparr>pq_last := last0 xs\<rparr> else ?qs ! q"
  let ?p1 = "if xs = [] then ?pa else ?pa(last xs := (?pa (last xs))\<lparr>page_next := head0 ys\<rparr>)"
  let ?s1 = "relinked h ?p1 ?qs ?d st"
  have s1: "(if page_prev (?pa p) \<noteq> 0
      then set_page (page_prev (?pa p)) (\<lambda>r. r\<lparr>page_next := page_next (?pa p)\<rparr>) st else st) = ?s1"
  proof -
    have "set_page a f st = relinked h (?pa(a := f (?pa a))) ?qs ?d st" for a f
      by (subst relinked_same [of h st, symmetric], simp only: relinked_simps)
    then show ?thesis unfolding at zx by (cases "xs = []") (simp_all add: relinked_same last0_def)
  qed
  have p1: "?p1 p = ?pa p" using px(1) by (cases "xs = []") auto
  have s2: "(if page_next (page_at ?s1 p) \<noteq> 0
      then set_page (page_next (page_at ?s1 p)) (\<lambda>r. r\<lparr>page_prev := page_prev (page_at ?s1 p)\<rparr>) ?s1 else ?s1) = ?pre ?qs"
    unfolding relinked_simps p1 at zy unlinked_def Let_def by (cases "ys = []") (simp_all add: head0_def)
  have up: "page_prev (?u p) = last0 xs" "page_next (?u p) = head0 ys"
    using at unlinked_frame(1) [of p xs ys ?pa p] dx by simp_all
  have lq: "p = pq_last (?qs ! q) \<longleftrightarrow> ys = []"
    using g(2) px(4) by (cases "ys = []") (auto simp: last0_def)
  have fq: "p = pq_first (?q1) \<longleftrightarrow> xs = []"
    using g(1) px(2) by (cases "xs = []") (auto simp: head0_def)
  have q1: "(?qs[q := ?q1]) ! q = ?q1" using q len by simp
  have last_step: "(if p = pq_last (the_queue h q (?pre ?qs)) then set_queue h q (\<lambda>pq. pq\<lparr>pq_last := page_prev (page_at (?pre ?qs) p)\<rparr>) (?pre ?qs)
       else ?pre ?qs) = ?pre (?qs[q := ?q1])"
    unfolding relinked_simps lq up using q len by simp
  let ?fin = "if xs = [] then mi_heap_queue_first_update e h q (?pre (?qs[q := ?q1\<lparr>pq_first := head0 ys\<rparr>])) else ?pre (?qs[q := ?q1])"
  have s4: "(if p = pq_first (the_queue h q (?pre (?qs[q := ?q1])))
      then mi_heap_queue_first_update e h q
        (set_queue h q (\<lambda>pq. pq\<lparr>pq_first := page_next (page_at (?pre (?qs[q := ?q1])) p)\<rparr>) (?pre (?qs[q := ?q1])))
      else ?pre (?qs[q := ?q1])) = ?fin"
    unfolding relinked_simps q1 fq up by simp
  have unlink: "unlink_page e q p st = ?fin" by (rule unlink_page_steps [OF hp s1 s2 last_step s4])
  show ?thesis
  proof (cases "xs = []")
    case True
    then have q2: "?q1\<lparr>pq_first := head0 ys\<rparr> = ?q" using g(2) True by (cases "ys = []") (auto simp: last0_def)
    have "\<exists>d. mi_heap_queue_first_update e h q (?pre (?qs[q := ?q])) = relinked h ?u (?qs[q := ?q]) d st \<and> direct_ok e ?Q d"
      by (rule first_update_relinked [OF uq rb q d]) simp
    then show ?thesis using unlink uq True unfolding q2 by auto
  next
    case False
    then have q2: "?q1 = ?q" using g(1,2) by (cases "ys = []") (auto simp: last0_def head0_def)
    have "direct_ok e ?Q ?d" using d False unfolding direct_ok_def by (auto simp: direct_page_def Q)
    then show ?thesis using unlink uq False unfolding q2 by auto
  qed
qed


section \<open>The operations on the lists\<close>

lemma queue_lists_frame:
  assumes "queue_lists h Q pa qs" "\<And>q x. q < 75 \<Longrightarrow> x \<in> set (Q q) \<Longrightarrow> pa' x = pa x"
  shows "queue_lists h Q pa' qs"
proof -
  have each: "pq_first (qs ! q) = head0 (Q q) \<and> pq_last (qs ! q) = last0 (Q q) \<and> dll pa' 0 (Q q) 0 \<and> distinct (Q q) \<and>
        (Q q \<noteq> [] \<longrightarrow> real_bin q) \<and> (\<forall>p \<in> set (Q q). xheap (pa' p) = h \<and> (in_full (pa' p) \<longleftrightarrow> q = MI_BIN_FULL))" if q: "q < 75" for q
  proof -
    note g = queue_lists_get [OF assms(1) q]
    have same: "\<And>x. x \<in> set (Q q) \<Longrightarrow> pa' x = pa x" using assms(2) [OF q] .
    have "dll pa' 0 (Q q) 0" using g(3) by (rule dll_frame) (simp add: same)
    then show ?thesis using g by (simp add: same)
  qed
  have "map pq_block_size qs = map pq_block_size MI_PAGE_QUEUES_EMPTY" "\<forall>q < 75. \<forall>r < 75. q \<noteq> r \<longrightarrow> set (Q q) \<inter> set (Q r) = {}"
    using assms(1) unfolding queue_lists_def by blast+
  with each show ?thesis unfolding queue_lists_def by blast
qed

lemma queue_is_full: "queue_lists h Q pa qs \<Longrightarrow> q < 75 \<Longrightarrow> mi_page_queue_is_full (qs ! q) \<longleftrightarrow> q = MI_BIN_FULL"
proof -
  assume ql: "queue_lists h Q pa qs" "q < 75"
  have "list_all (\<lambda>pq. pq_block_size pq \<noteq> MI_MEDIUM_OBJ_SIZE_MAX + 16) (butlast MI_PAGE_QUEUES_EMPTY)"
    "pq_block_size (last MI_PAGE_QUEUES_EMPTY) = MI_MEDIUM_OBJ_SIZE_MAX + 16"
    by (simp_all add: MI_PAGE_QUEUES_EMPTY_def QNULL_def medium_max)
  moreover have "MI_PAGE_QUEUES_EMPTY ! 74 = last MI_PAGE_QUEUES_EMPTY"
    using queues_empty_length by (subst last_conv_nth) auto
  moreover have "q < 74 \<Longrightarrow> MI_PAGE_QUEUES_EMPTY ! q \<in> set (butlast MI_PAGE_QUEUES_EMPTY)"
    using nth_mem [of q "butlast MI_PAGE_QUEUES_EMPTY"] nth_butlast [of q MI_PAGE_QUEUES_EMPTY] queues_empty_length by simp
  ultimately have "pq_block_size (MI_PAGE_QUEUES_EMPTY ! q) = MI_MEDIUM_OBJ_SIZE_MAX + 16 \<longleftrightarrow> q = 74"
    using ql(2) by (cases "q = 74") (auto simp: list_all_iff)
  then show ?thesis using pages_size [OF ql] by (simp add: mi_page_queue_is_full_def MI_BIN_FULL_def MI_BIN_HUGE_def)
qed

lemma count_change:
  fixes q :: nat
  assumes "q < 75"
  shows "(\<Sum>r<75. length ((Q(q := zs)) r)) + length (Q q) = (\<Sum>r<75. length (Q r)) + length zs"
proof -
  have "(\<Sum>r<75. f r) = f q + (\<Sum>r\<in>{..<75}-{q}. f r)" for f :: "nat \<Rightarrow> nat"
    by (rule sum.remove) (use assms in auto)
  from this [of "\<lambda>r. length ((Q(q := zs)) r)"] this [of "\<lambda>r. length (Q r)"] show ?thesis by simp
qed

lemma count_update:
  fixes q :: nat
  assumes "q < 75" "c = word_of_nat (\<Sum>r<75. length (Q r))"
  shows "length (Q q) = Suc (length zs) \<Longrightarrow> c - 1 = (word_of_nat (\<Sum>r<75. length ((Q(q := zs)) r)) :: size_t)"
    "length zs = Suc (length (Q q)) \<Longrightarrow> c + 1 = (word_of_nat (\<Sum>r<75. length ((Q(q := zs)) r)) :: size_t)"
proof -
  note e = count_change [OF assms(1), of Q zs]
  show "c - 1 = word_of_nat (\<Sum>r<75. length ((Q(q := zs)) r))" if "length (Q q) = Suc (length zs)"
  proof -
    have "(\<Sum>r<75. length (Q r)) = Suc (\<Sum>r<75. length ((Q(q := zs)) r))" using e that by linarith
    then show ?thesis using assms(2) by (simp only: of_nat_Suc add_diff_cancel_left')
  qed
  show "c + 1 = word_of_nat (\<Sum>r<75. length ((Q(q := zs)) r))" if "length zs = Suc (length (Q q))"
  proof -
    have "(\<Sum>r<75. length ((Q(q := zs)) r)) = Suc (\<Sum>r<75. length (Q r))" using e that by linarith
    then show ?thesis using assms(2) by (simp only: of_nat_Suc add.commute)
  qed
qed

lemma remove_lists:
  assumes hl: "heap_lists e h Q st" and q: "q < 75" and p: "p \<in> set (Q q)"
  shows "heap_lists e h (Q(q := remove1 p (Q q))) (mi_page_queue_remove e q p st)"
proof -
  have ql: "queue_lists h Q (page_at st) (pages (heap_at st h))" and d: "direct_ok e Q (pages_free_direct (heap_at st h))"
    and pc: "page_count (heap_at st h) = word_of_nat (\<Sum>q<75. length (Q q))" using hl by (simp_all add: heap_lists_def)
  obtain xs ys where Q: "Q q = xs @ p # ys" using p by (meson split_list)
  note g = queue_lists_get [OF ql q]
  have hp: "xheap (page_at st p) = h" using g(6) p by blast
  have pn: "p \<notin> set xs" "p \<notin> set ys" using g(4) Q by auto
  have rm: "remove1 p (Q q) = xs @ ys" using Q pn by (simp add: remove1_append)
  let ?Q = "Q(q := xs @ ys)" and ?u = "unlinked (page_at st) p xs ys"
  obtain qs d' where u: "unlink_page e q p st = relinked h ?u qs d' st" "queue_lists h ?Q ?u qs" "direct_ok e ?Q d'"
    using unlink_lists [OF ql q Q d] by blast
  let ?v = "?u(p := mi_page_set_in_full False (?u p\<lparr>page_next := 0, page_prev := 0\<rparr>))"
  have st: "mi_page_queue_remove e q p st = set_heap h (\<lambda>hp. hp\<lparr>page_count := page_count hp - 1\<rparr>) (relinked h ?v qs d' st)"
    unfolding mi_page_queue_remove_def hp Let_def u(1)
    by (simp add: set_page_def set_heap_def relinked_def)
  have v: "queue_lists h ?Q ?v qs"
  proof (rule queue_lists_frame [OF u(2)])
    fix r x assume r: "r < 75" "x \<in> set (?Q r)"
    have "p \<notin> set (?Q r)" using pn g(8) [OF r(1)] Q by (cases "r = q") auto
    then have "x \<noteq> p" using r(2) by blast
    then show "?v x = ?u x" by simp
  qed
  have c: "page_count (heap_at st h) - 1 = word_of_nat (\<Sum>r<75. length (?Q r))"
    by (rule count_update(1) [OF q pc]) (simp add: Q)
  show ?thesis unfolding rm heap_lists_def st using v u(3) c by (simp add: set_heap_def relinked_def)
qed

text \<open>The direct table after the update, which the pages themselves do not influence.\<close>

definition new_direct :: "addr \<Rightarrow> mi_page_queue_t list \<Rightarrow> nat \<Rightarrow> addr list \<Rightarrow> addr list" where
  "new_direct e qs q d =
     (let pg = (if pq_first (qs ! q) = 0 then e else pq_first (qs ! q)); idx = unat (mi_wsize_from_size (pq_block_size (qs ! q)))
      in if pq_block_size (qs ! q) > MI_SMALL_SIZE_MAX \<or> d ! idx = pg then d else set_direct (direct_start qs q) idx pg d)"

lemma first_update_new_direct:
  "mi_heap_queue_first_update e h q (relinked h pa qs d st) = relinked h pa qs (new_direct e qs q d) st"
  unfolding first_update_unfold new_direct_def Let_def relinked_simps by simp

lemma new_direct_ok:
  assumes "queue_lists h Q pa qs" "real_bin q" "q < 75" "direct_ok e Q' d" "\<And>r. r \<noteq> q \<Longrightarrow> Q' r = Q r"
  shows "direct_ok e Q (new_direct e qs q d)"
proof -
  fix st
  obtain d' where "relinked h pa qs (new_direct e qs q d) st = relinked h pa qs d' st" "direct_ok e Q d'"
    using first_update_relinked [OF assms, of st] unfolding first_update_new_direct by blast
  then show ?thesis using relinked_simps(6) by metis
qed

lemma push_lists:
  assumes hl: "heap_lists e h Q st" and q: "q < 75" "real_bin q" and p: "p \<noteq> 0" "xheap (page_at st p) = h" "\<forall>r < 75. p \<notin> set (Q r)"
  shows "heap_lists e h (Q(q := p # Q q)) (mi_page_queue_push e h q p st)"
proof -
  let ?pa = "page_at st" and ?qs = "pages (heap_at st h)" and ?d = "pages_free_direct (heap_at st h)" and ?Q = "Q(q := p # Q q)"
  have ql: "queue_lists h Q ?pa ?qs" and d: "direct_ok e Q ?d"
    and pc: "page_count (heap_at st h) = word_of_nat (\<Sum>q<75. length (Q q))" using hl by (simp_all add: heap_lists_def)
  note g = queue_lists_get [OF ql q(1)]
  have len: "length ?qs = 75" by (rule pages_length [OF ql])
  have nz: "x \<in> set (Q q) \<Longrightarrow> x \<noteq> 0" for x using dll_nonzero [OF g(3)] by blast
  have pq: "p \<notin> set (Q q)" using p(3) q(1) by blast
  let ?p1 = "?pa(p := (?pa p)\<lparr>in_full := (q = MI_BIN_FULL), page_next := head0 (Q q), page_prev := 0\<rparr>)"
  let ?p2 = "if Q q = [] then ?p1 else ?p1(hd (Q q) := (?p1 (hd (Q q)))\<lparr>page_prev := p\<rparr>)"
  let ?q2 = "(?qs ! q)\<lparr>pq_first := head0 (p # Q q), pq_last := last0 (p # Q q)\<rparr>"
  have hq: "Q q \<noteq> [] \<Longrightarrow> hd (Q q) \<noteq> p \<and> hd (Q q) \<noteq> 0" using pq nz hd_in_set [of "Q q"] by metis
  have ql2: "queue_lists h ?Q ?p2 (?qs[q := ?q2])"
  proof (rule queue_lists_update [OF ql q(1)])
    show "dll ?p2 0 (p # Q q) 0"
    proof (cases "Q q")
      case Nil
      then show ?thesis using p(1) by (simp add: head0_def)
    next
      case (Cons y zs)
      have "dll ?p1 0 (y # zs) 0" using g(3) unfolding Cons by (rule dll_frame) (use pq Cons in auto)
      then have "dll ?p2 p (y # zs) 0" using dll_relink_first [of ?p1 0 y zs 0 p] g(4) Cons by simp
      then show ?thesis using Cons p(1) pq by (simp add: head0_def)
    qed
    show "distinct (p # Q q)" using g(4) pq by simp
    show "xheap (?p2 x) = h \<and> (in_full (?p2 x) \<longleftrightarrow> q = MI_BIN_FULL)" if "x \<in> set (p # Q q)" for x
      using that g(6,7) [of x] p(2) hq by (cases "Q q = []") auto
    show "set (p # Q q) \<inter> set (Q r) = {}" if "r < 75" "r \<noteq> q" for r using g(8) [OF that] p(3) that(1) by auto
    show "?p2 x = ?pa x" if "r < 75" "r \<noteq> q" "x \<in> set (Q r)" for r x
    proof -
      have "x \<noteq> p" using p(3) that by blast
      moreover have "Q q \<noteq> [] \<Longrightarrow> x \<noteq> hd (Q q)" using g(8) [OF that(1,2)] that(3) hd_in_set [of "Q q"] by blast
      ultimately show ?thesis by simp
    qed
  qed (rule q(2))
  have st: "mi_page_queue_push e h q p st =
      set_heap h (\<lambda>hp. hp\<lparr>page_count := page_count hp + 1\<rparr>) (relinked h ?p2 (?qs[q := ?q2]) (new_direct e (?qs[q := ?q2]) q ?d) st)"
  proof -
    let ?r = "relinked h ?pa ?qs ?d st"
    have f: "pq_first (?qs ! q) = head0 (Q q)" "pq_last (?qs ! q) = last0 (Q q)" "head0 (Q q) \<noteq> 0 \<longleftrightarrow> Q q \<noteq> []"
      using g(1,2) hq by (cases "Q q = []"; simp add: head0_def)+
    have a: "?pa(p := mi_page_set_in_full (q = MI_BIN_FULL) (?pa p)\<lparr>page_next := head0 (Q q), page_prev := 0\<rparr>) = ?p1"
      by (cases "?pa p") (simp add: mi_page_set_in_full_def)
    have "mi_page_queue_push e h q p ?r =
      set_heap h (\<lambda>hp. hp\<lparr>page_count := page_count hp + 1\<rparr>) (relinked h ?p2 (?qs[q := ?q2]) (new_direct e (?qs[q := ?q2]) q ?d) st)"
    proof (cases "Q q = []")
      case True
      have "?qs[q := (?qs ! q)\<lparr>pq_first := p, pq_last := p\<rparr>] = ?qs[q := ?q2]" using True by (simp add: head0_def last0_def)
      then show ?thesis unfolding mi_page_queue_push_def Let_def relinked_simps queue_is_full [OF ql q(1)] f
        using True a first_update_new_direct by (simp add: fun_upd_upd)
    next
      case False
      have "?qs[q := (?qs ! q)\<lparr>pq_first := p\<rparr>] = ?qs[q := ?q2]"
        using False f by (cases "?qs ! q") (simp add: head0_def last0_def)
      moreover have "head0 (Q q) = hd (Q q)" using False by (simp add: head0_def)
      ultimately show ?thesis unfolding mi_page_queue_push_def Let_def relinked_simps queue_is_full [OF ql q(1)] f
        using False a first_update_new_direct by (simp add: fun_upd_upd)
    qed
    then show ?thesis unfolding relinked_same .
  qed
  have dn: "direct_ok e ?Q (new_direct e (?qs[q := ?q2]) q ?d)" by (rule new_direct_ok [OF ql2 q(2,1) d]) simp
  have c: "page_count (heap_at st h) + 1 = word_of_nat (\<Sum>r<75. length (?Q r))" by (rule count_update(2) [OF q(1) pc]) simp
  show ?thesis unfolding heap_lists_def st using ql2 dn c by (simp add: set_heap_def relinked_def)
qed

lemma enqueue_from_lists:
  assumes hl: "heap_lists e h Q st" and q: "from < 75" "to < 75" "real_bin to" "to \<noteq> from" and p: "p \<in> set (Q from)"
  shows "heap_lists e h (Q(from := remove1 p (Q from), to := Q to @ [p])) (mi_page_queue_enqueue_from e to from p st)"
proof -
  let ?pa = "page_at st"
  have ql: "queue_lists h Q ?pa (pages (heap_at st h))" and d: "direct_ok e Q (pages_free_direct (heap_at st h))"
    and pc: "page_count (heap_at st h) = word_of_nat (\<Sum>q<75. length (Q q))" using hl by (simp_all add: heap_lists_def)
  obtain xs ys where Q: "Q from = xs @ p # ys" using p by (meson split_list)
  note g = queue_lists_get [OF ql q(1)]
  have hp: "xheap (?pa p) = h" and p0: "p \<noteq> 0" using g(6) p dll_nonzero [OF g(3)] by blast+
  have pn: "p \<notin> set xs" "p \<notin> set ys" using g(4) Q by auto
  have rm: "remove1 p (Q from) = xs @ ys" using Q pn by (simp add: remove1_append)
  let ?Q = "Q(from := xs @ ys)" and ?u = "unlinked ?pa p xs ys"
  obtain qs d' where u: "unlink_page e from p st = relinked h ?u qs d' st" "queue_lists h ?Q ?u qs" "direct_ok e ?Q d'"
    using unlink_lists [OF ql q(1) Q d] by blast
  have out: "p \<notin> set (?Q r)" if "r < 75" for r using pn g(8) [OF that] Q by (cases "r = from") auto
  have Qto: "?Q to = Q to" using q(4) by simp
  note k = queue_lists_get [OF u(2) q(2), unfolded Qto]
  have len: "length qs = 75" by (rule pages_length [OF u(2)])
  have pt: "p \<notin> set (Q to)" using out [OF q(2)] Qto by simp
  have nz: "Q to \<noteq> [] \<Longrightarrow> last (Q to) \<noteq> p \<and> last (Q to) \<noteq> 0" using dll_nonzero [OF k(3)] pt last_in_set [of "Q to"] by metis
  let ?p1 = "?u(p := (?u p)\<lparr>page_prev := last0 (Q to), page_next := 0\<rparr>)"
  let ?p2 = "if Q to = [] then ?p1 else ?p1(last (Q to) := (?p1 (last (Q to)))\<lparr>page_next := p\<rparr>)"
  let ?p3 = "?p2(p := mi_page_set_in_full (to = MI_BIN_FULL) (?p2 p))"
  let ?q2 = "(qs ! to)\<lparr>pq_first := head0 (Q to @ [p]), pq_last := last0 (Q to @ [p])\<rparr>"
  let ?R = "?Q(to := Q to @ [p])"
  have ql2: "queue_lists h ?R ?p3 (qs[to := ?q2])"
  proof (rule queue_lists_update [OF u(2) q(2)])
    show "dll ?p3 0 (Q to @ [p]) 0"
    proof (cases "Q to = []")
      case True
      then show ?thesis using p0 by (simp add: last0_def mi_page_set_in_full_def)
    next
      case False
      have np: "p \<noteq> last (Q to)" using nz False by blast
      have "dll ?p1 0 (Q to) 0" using k(3) by (rule dll_frame) (use pt in auto)
      then have "dll ?p2 0 (Q to) p" using dll_relink_last [of ?p1 0 "Q to" 0 p] k(4) False by simp
      then have "dll ?p3 0 (Q to) p" by (rule dll_frame) (use pt in auto)
      moreover have "page_prev (?p3 p) = last (Q to) \<and> page_next (?p3 p) = 0"
        using False np by (simp add: last0_def mi_page_set_in_full_def)
      ultimately show ?thesis unfolding dll_append using False p0 np by simp
    qed
    show "distinct (Q to @ [p])" using k(4) pt by simp
    show "xheap (?p3 x) = h \<and> (in_full (?p3 x) \<longleftrightarrow> to = MI_BIN_FULL)" if "x \<in> set (Q to @ [p])" for x
      using that k(6,7) [of x] hp nz by (cases "Q to = []") (auto simp: mi_page_set_in_full_def unlinked_frame(2))
    show "set (Q to @ [p]) \<inter> set (?Q r) = {}" if "r < 75" "r \<noteq> to" for r using k(8) [OF that] out [OF that(1)] by auto
    show "?p3 x = ?u x" if "r < 75" "r \<noteq> to" "x \<in> set (?Q r)" for r x
    proof -
      have "x \<noteq> p" using out that by blast
      moreover have "Q to \<noteq> [] \<Longrightarrow> x \<noteq> last (Q to)" using k(8) [OF that(1,2)] that(3) last_in_set [of "Q to"] by blast
      ultimately show ?thesis by simp
    qed
  qed (rule q(3))
  have f: "pq_last (qs ! to) = last0 (Q to)" "last0 (Q to) \<noteq> 0 \<longleftrightarrow> Q to \<noteq> []" "pq_first (qs ! to) = head0 (Q to)"
    using k(1,2) nz by (cases "Q to = []"; simp add: last0_def)+
  have full: "mi_page_queue_is_full ((qs[to := ?q2]) ! to) \<longleftrightarrow> to = MI_BIN_FULL" by (rule queue_is_full [OF ql2 q(2)])
  let ?d2 = "if Q to = [] then new_direct e (qs[to := ?q2]) to d' else d'"
  have st: "mi_page_queue_enqueue_from e to from p st = relinked h ?p3 (qs[to := ?q2]) ?d2 st"
  proof (cases "Q to = []")
    case True
    have "qs[to := (qs ! to)\<lparr>pq_first := p, pq_last := p\<rparr>] = qs[to := ?q2]" using True by (simp add: head0_def last0_def)
    then show ?thesis unfolding mi_page_queue_enqueue_from_def Let_def hp u(1) relinked_simps f
      using True first_update_new_direct full by (simp add: relinked_simps)
  next
    case False
    have "qs[to := (qs ! to)\<lparr>pq_last := p\<rparr>] = qs[to := ?q2]"
      using False f by (cases "qs ! to") (simp add: head0_def last0_def)
    moreover have "last0 (Q to) = last (Q to)" using False by (simp add: last0_def)
    ultimately show ?thesis unfolding mi_page_queue_enqueue_from_def Let_def hp u(1) relinked_simps f
      using False full by (simp add: relinked_simps)
  qed
  have dn: "direct_ok e ?R ?d2"
  proof (cases "Q to = []")
    case True
    have "direct_ok e ?R (new_direct e (qs[to := ?q2]) to d')" by (rule new_direct_ok [OF ql2 q(3,2) u(3)]) simp
    then show ?thesis using True by simp
  next
    case False
    then have "direct_page e (?R r) = direct_page e (?Q r)" for r using q(4) by (simp add: direct_page_def)
    then have "direct_ok e ?R d'" using u(3) unfolding direct_ok_def by metis
    then show ?thesis using False by (simp only: if_False)
  qed
  have "page_count (heap_at st h) = word_of_nat (\<Sum>r<75. length (?R r))"
  proof -
    have "page_count (heap_at st h) - 1 = word_of_nat (\<Sum>r<75. length (?Q r))" by (rule count_update(1) [OF q(1) pc]) (simp add: Q)
    then have "page_count (heap_at st h) - 1 + 1 = word_of_nat (\<Sum>r<75. length (?R r))"
      by (rule count_update(2) [OF q(2)]) (simp add: q(4))
    then show ?thesis by (simp only: diff_add_cancel)
  qed
  then show ?thesis unfolding rm heap_lists_def st using ql2 dn by (simp add: relinked_def)
qed

section \<open>The bin of a size\<close>

lemma mi_bin_wsize: "unat (mi_wsize_from_size sz) \<le> 16384 \<Longrightarrow> unat (mi_bin sz) = word_bin (unat (mi_wsize_from_size sz))"
proof -
  let ?w = "unat (mi_wsize_from_size sz)"
  assume w: "?w \<le> 16384"
  have "unat (word_of_nat (8 * ?w) :: size_t) = 8 * ?w" by (rule word_bin_nat [OF w])
  then have "unat (mi_wsize_from_size (word_of_nat (8 * ?w))) = ?w" using w by (subst wsize_nat) simp_all
  then have "mi_wsize_from_size (word_of_nat (8 * ?w)) = mi_wsize_from_size sz" by (rule word_unat_eq_iff [THEN iffD2])
  then show ?thesis by (simp only: word_bin_def mi_bin_def)
qed

lemma real_bin_word_bin: "w \<le> 16384 \<Longrightarrow> real_bin (word_bin w)"
proof -
  assume w: "w \<le> 16384"
  show ?thesis
  proof (cases "word_bin w \<le> 7")
    case False
    then show ?thesis using word_bin_le [OF w] word_bin_of_bin [of "word_bin w"] by (simp add: real_bin_def)
  next
    case True
    have "w \<le> 8"
    proof (rule ccontr)
      assume "\<not> w \<le> 8"
      then have "unat (word_of_nat (8 * w) :: size_t) = 8 * w" "8 < w" using w word_bin_nat by simp_all
      then have "\<exists>k j. 3 \<le> k \<and> k \<le> 13 \<and> j < (4 :: nat) \<and> word_bin w = 4 * k + j - 3"
        using mi_bin_large [of "word_of_nat (8 * w)" w] w unfolding word_bin_def by fastforce
      then show False using True by auto
    qed
    then have "w = 0 \<or> w = 1 \<or> w = 2 \<or> w = 3 \<or> w = 4 \<or> w = 5 \<or> w = 6 \<or> w = 7 \<or> w = 8" by presburger
    then show ?thesis by (elim disjE) (simp_all add: word_bin_small real_bin_def bin_wsize_def bin_wsizes_def)
  qed
qed

lemma real_bin_mi_bin: "real_bin (unat (mi_bin sz)) \<and> unat (mi_bin sz) < MI_BIN_FULL"
proof (cases "unat (mi_wsize_from_size sz) \<le> 16384")
  case True
  then show ?thesis using real_bin_word_bin [OF True] word_bin_le [OF True] mi_bin_wsize [OF True]
    by (simp add: MI_BIN_FULL_def MI_BIN_HUGE_def)
next
  case False
  then have "\<not> mi_wsize_from_size sz \<le> 1" "\<not> mi_wsize_from_size sz \<le> 8" "mi_wsize_from_size sz > MI_MEDIUM_OBJ_WSIZE_MAX"
    by (simp_all add: word_le_nat_alt word_less_nat_alt medium_max)
  then have "unat (mi_bin sz) = 73" by (simp add: mi_bin_def Let_def MI_BIN_HUGE_def)
  then show ?thesis by (simp add: real_bin_def MI_BIN_FULL_def MI_BIN_HUGE_def)
qed

section \<open>Runs of queue operations\<close>

datatype page_op = Page_Push nat addr | Page_Remove nat addr | Page_Move nat nat addr | Page_Unfull addr

fun page_op_run :: "addr \<Rightarrow> addr \<Rightarrow> page_op \<Rightarrow> heap_state \<Rightarrow> heap_state" where
  "page_op_run e h (Page_Push q p) st = mi_page_queue_push e h q p st"
| "page_op_run e h (Page_Remove q p) st = mi_page_queue_remove e q p st"
| "page_op_run e h (Page_Move to from p) st = mi_page_queue_enqueue_from e to from p st"
| "page_op_run e h (Page_Unfull p) st = mi_page_unfull e p st"

text \<open>What the callers guarantee.\<close>

fun page_op_ok :: "addr \<Rightarrow> (nat \<Rightarrow> addr list) \<Rightarrow> heap_state \<Rightarrow> page_op \<Rightarrow> bool" where
  "page_op_ok h Q st (Page_Push q p) \<longleftrightarrow>
     q < 75 \<and> real_bin q \<and> p \<noteq> 0 \<and> xheap (page_at st p) = h \<and> (\<forall>r < 75. p \<notin> set (Q r))"
| "page_op_ok h Q st (Page_Remove q p) \<longleftrightarrow> q < 75 \<and> p \<in> set (Q q)"
| "page_op_ok h Q st (Page_Move to from p) \<longleftrightarrow> from < 75 \<and> to < 75 \<and> real_bin to \<and> to \<noteq> from \<and> p \<in> set (Q from)"
| "page_op_ok h Q st (Page_Unfull p) \<longleftrightarrow> p \<in> set (Q MI_BIN_FULL)"

fun page_op_lists :: "heap_state \<Rightarrow> page_op \<Rightarrow> (nat \<Rightarrow> addr list) \<Rightarrow> nat \<Rightarrow> addr list" where
  "page_op_lists st (Page_Push q p) Q = Q(q := p # Q q)"
| "page_op_lists st (Page_Remove q p) Q = Q(q := remove1 p (Q q))"
| "page_op_lists st (Page_Move to from p) Q = Q(from := remove1 p (Q from), to := Q to @ [p])"
| "page_op_lists st (Page_Unfull p) Q =
     (let to = unat (mi_bin (ucast (xblock_size (page_at st p))))
      in Q(MI_BIN_FULL := remove1 p (Q MI_BIN_FULL), to := Q to @ [p]))"

lemma set_page_twice: "set_page p f (set_page p g st) = set_page p (f \<circ> g) st"
  by (simp add: set_page_def)

lemma unfull_lists:
  assumes "heap_lists e h Q st" "p \<in> set (Q MI_BIN_FULL)"
  shows "heap_lists e h (page_op_lists st (Page_Unfull p) Q) (mi_page_unfull e p st)"
proof -
  let ?to = "unat (mi_bin (ucast (xblock_size (page_at st p))))"
  have ql: "queue_lists h Q (page_at st) (pages (heap_at st h))" using assms(1) by (simp add: heap_lists_def)
  have full: "in_full (page_at st p)"
    using queue_lists_get(7) [OF ql _ assms(2)] by (simp add: MI_BIN_FULL_def MI_BIN_HUGE_def)
  have "mi_page_set_in_full True (mi_page_set_in_full False (page_at st p)) = page_at st p"
    using full by (cases "page_at st p") (simp add: mi_page_set_in_full_def)
  then have "set_page p (mi_page_set_in_full True) (set_page p (mi_page_set_in_full False) st) = st"
    unfolding set_page_twice by (simp add: set_page_def)
  moreover have "mi_heap_page_queue_of (page_at (set_page p (mi_page_set_in_full False) st) p) = ?to"
    by (simp add: mi_heap_page_queue_of_def set_page_def mi_page_set_in_full_def)
  ultimately have "mi_page_unfull e p st = mi_page_queue_enqueue_from e ?to MI_BIN_FULL p st"
    using full by (simp add: mi_page_unfull_def Let_def)
  moreover have "heap_lists e h (Q(MI_BIN_FULL := remove1 p (Q MI_BIN_FULL), ?to := Q ?to @ [p])) (mi_page_queue_enqueue_from e ?to MI_BIN_FULL p st)"
    using real_bin_mi_bin [of "ucast (xblock_size (page_at st p))"] assms(2)
    by (intro enqueue_from_lists [OF assms(1)]) (auto simp: MI_BIN_FULL_def MI_BIN_HUGE_def)
  ultimately show ?thesis by (simp add: Let_def)
qed

lemma empty_heap_lists:
  assumes "pages (heap_at st h) = MI_PAGE_QUEUES_EMPTY" "pages_free_direct (heap_at st h) = replicate MI_PAGES_DIRECT e"
    "page_count (heap_at st h) = 0"
  shows "heap_lists e h (\<lambda>_. []) st"
proof -
  have "\<forall>pq \<in> set MI_PAGE_QUEUES_EMPTY. pq_first pq = 0 \<and> pq_last pq = 0" by (auto simp: MI_PAGE_QUEUES_EMPTY_def QNULL_def)
  then have "pq_first (MI_PAGE_QUEUES_EMPTY ! q) = 0 \<and> pq_last (MI_PAGE_QUEUES_EMPTY ! q) = 0" if "q < 75" for q
    using nth_mem [of q MI_PAGE_QUEUES_EMPTY] that queues_empty_length by simp
  then have "queue_lists h (\<lambda>_. []) (page_at st) (pages (heap_at st h))"
    using assms(1) by (simp add: queue_lists_def head0_def last0_def)
  moreover have "direct_ok e (\<lambda>_. []) (pages_free_direct (heap_at st h))"
    using assms(2) by (simp add: direct_ok_def direct_page_def MI_PAGES_DIRECT_def MI_SMALL_WSIZE_MAX_def nth_replicate)
  ultimately show ?thesis using assms(3) by (simp add: heap_lists_def)
qed

lemma page_op_lists_ok:
  assumes "heap_lists e h Q st" "page_op_ok h Q st op"
  shows "heap_lists e h (page_op_lists st op Q) (page_op_run e h op st)"
proof (cases op)
  case (Page_Push q p)
  then show ?thesis using push_lists [OF assms(1)] assms(2) by simp
next
  case (Page_Remove q p)
  then show ?thesis using remove_lists [OF assms(1)] assms(2) by simp
next
  case (Page_Move q r p)
  then show ?thesis using enqueue_from_lists [OF assms(1)] assms(2) by simp
next
  case (Page_Unfull p)
  then show ?thesis using unfull_lists [OF assms(1)] assms(2) by simp
qed

text \<open>
  The heaps that the operations reach from one that was just initialised, with the lists of pages pushed and removed so far. In
  between, the pages may change in everything but the fields that belong to the queues they are in; pages
  outside the queues may change in all fields.
\<close>

inductive heap_run :: "addr \<Rightarrow> addr \<Rightarrow> heap_state \<Rightarrow> (nat \<Rightarrow> addr list) \<Rightarrow> bool" for e h where
  run_init: "pages (heap_at st h) = MI_PAGE_QUEUES_EMPTY \<Longrightarrow> pages_free_direct (heap_at st h) = replicate MI_PAGES_DIRECT e \<Longrightarrow>
     page_count (heap_at st h) = 0 \<Longrightarrow> heap_run e h st (\<lambda>_. [])"
| run_op: "heap_run e h st Q \<Longrightarrow> page_op_ok h Q st op \<Longrightarrow> heap_run e h (page_op_run e h op st) (page_op_lists st op Q)"
| run_pages: "heap_run e h st Q \<Longrightarrow>
     \<forall>q < 75. \<forall>p \<in> set (Q q). page_next (pa p) = page_next (page_at st p) \<and> page_prev (pa p) = page_prev (page_at st p) \<and>
       xheap (pa p) = xheap (page_at st p) \<and> in_full (pa p) = in_full (page_at st p) \<Longrightarrow>
     heap_run e h (st\<lparr>page_at := pa\<rparr>) Q"

lemma heap_run_lists: "heap_run e h st Q \<Longrightarrow> heap_lists e h Q st"
proof (induction rule: heap_run.induct)
  case (run_init st)
  then show ?case by (rule empty_heap_lists)
next
  case (run_op st Q op)
  then show ?case by (rule_tac page_op_lists_ok)
next
  case (run_pages st Q pa)
  have "queue_lists h Q (page_at st) (pages (heap_at st h))" using run_pages.IH by (simp add: heap_lists_def)
  moreover have "dll pa 0 (Q q) 0" if "q < 75" "dll (page_at st) 0 (Q q) 0" for q
    using that(2) by (rule dll_frame) (use run_pages.hyps(2) that(1) in auto)
  ultimately have "queue_lists h Q pa (pages (heap_at st h))" using run_pages.hyps(2) by (simp add: queue_lists_def)
  then show ?case using run_pages.IH by (simp add: heap_lists_def)
qed

section \<open>Properties\<close>

text \<open>
  Every size has a bin below the queue of full pages, and it is one of the bins that pages of that size are kept in:
  the bin of the block size of the bin is the bin itself, huge sizes apart.
\<close>

theorem mi_bin_well_formed: "real_bin (unat (mi_bin sz)) \<and> unat (mi_bin sz) < MI_BIN_FULL"
  by (rule real_bin_mi_bin)

text \<open>
  (C27) Where the queues of a heap hold the lists \<open>Q\<close> of pages, an operation that its caller may run leaves the queues with
  the lists that the operation on lists gives: the links of the pages in both directions, the first and last page of each
  queue, the flag for full pages, the number of pages and the direct table all agree with the new lists.
\<close>

theorem page_queues_refine_lists:
  assumes "heap_lists e h Q st" "page_op_ok h Q st op"
  shows "heap_lists e h (page_op_lists st op Q) (page_op_run e h op st)"
  using assms by (rule page_op_lists_ok)

text \<open>
  (C32) However pages were pushed, removed, moved and taken off the full queue since the heap was initialised: for a small
  size the entry of the direct table is the first page of the queue of the bin of that size, and the empty page where
  that queue has no page, so that the fast path of the allocator and the search in the queue agree.
\<close>

theorem small_page_is_queue_head:
  assumes "heap_run e h st Q" "unat sz \<le> 1024"
  shows "mi_heap_get_free_small_page h sz st =
      (if pq_first (the_queue h (mi_page_queue sz) st) = 0 then e else pq_first (the_queue h (mi_page_queue sz) st)) \<and>
    (pq_first (the_queue h (mi_page_queue sz) st) = 0 \<longleftrightarrow> Q (mi_page_queue sz) = []) \<and>
    (Q (mi_page_queue sz) \<noteq> [] \<longrightarrow> mi_heap_get_free_small_page h sz st = hd (Q (mi_page_queue sz)))"
proof -
  note hl = heap_run_lists [OF assms(1)]
  have w: "unat (mi_wsize_from_size sz) \<le> 128" using assms(2) by (subst wsize_nat) simp_all
  then have b: "mi_page_queue sz = word_bin (unat (mi_wsize_from_size sz))"
    using mi_bin_wsize [of sz] by (simp add: mi_page_queue_def)
  have q: "word_bin (unat (mi_wsize_from_size sz)) < 75" using word_bin_le [of "unat (mi_wsize_from_size sz)"] w by simp
  have "dll (page_at st) 0 (Q (word_bin (unat (mi_wsize_from_size sz)))) 0"
    using hl q by (simp add: heap_lists_def queue_lists_def)
  from dll_nonzero [OF this hd_in_set]
  have "hd (Q (word_bin (unat (mi_wsize_from_size sz)))) \<noteq> 0" if "Q (word_bin (unat (mi_wsize_from_size sz))) \<noteq> []"
    using that by blast
  then show ?thesis using hl w q unfolding b
    by (simp add: heap_lists_def direct_ok_def queue_lists_def mi_heap_get_free_small_page_def direct_page_def the_queue_def head0_def)
qed

text \<open>A heap without pages, and one page that belongs to it.\<close>

definition example_heap :: heap_state where
  "example_heap = \<lparr>heap_at = \<lambda>_. \<lparr>pages_free_direct = replicate MI_PAGES_DIRECT 5, pages = MI_PAGE_QUEUES_EMPTY, page_count = 0,
     page_retired_min = MI_BIN_FULL, page_retired_max = 0\<rparr>, page_at = \<lambda>_. example_page\<lparr>xheap := 7\<rparr>, block_next = \<lambda>_. 0\<rparr>"

lemma example_heap_lists: "heap_lists 5 7 (\<lambda>_. []) example_heap"
  by (rule empty_heap_lists) (simp_all add: example_heap_def)

lemma example_push: "page_op_ok 7 (\<lambda>_. []) example_heap (Page_Push 24 100)"
  by (simp add: example_heap_def real_bin_def word_bin_of_bin)

theorem page_queues_refine_lists_witness:
  "heap_lists 5 7 ((\<lambda>_. [])(24 := [100])) (page_op_run 5 7 (Page_Push 24 100) example_heap)"
  using page_queues_refine_lists [OF example_heap_lists example_push] by simp

theorem small_page_is_queue_head_witness:
  "mi_heap_get_free_small_page 7 1024 (page_op_run 5 7 (Page_Push 24 100) example_heap) = 100"
proof -
  have "heap_run 5 7 example_heap (\<lambda>_. [])" by (rule run_init) (simp_all add: example_heap_def)
  from run_op [OF this example_push]
  have r: "heap_run 5 7 (page_op_run 5 7 (Page_Push 24 100) example_heap) ((\<lambda>_. [])(24 := [100]))" by simp
  have w: "unat (mi_wsize_from_size 1024) = 128" by (subst wsize_nat) simp_all
  have "bin_wsize 24 = 128" by (simp add: bin_wsize_def bin_wsizes_def)
  then have "word_bin 128 = 24" using word_bin_of_bin [of 24] by simp
  then have b: "mi_page_queue 1024 = 24" using mi_bin_wsize [of 1024] w by (simp add: mi_page_queue_def)
  have "((\<lambda>_. [])(24 := [100 :: addr])) (mi_page_queue 1024) = [100]" unfolding b by simp
  then show ?thesis using small_page_is_queue_head [OF r, of 1024, THEN conjunct2, THEN conjunct2] by simp
qed

end
