(* ===== verification/Mi_Commit_Mask.thy ===== *)
theory Mi_Commit_Mask
  imports Mi_Internal
begin

text \<open>
  The commit masks of mimalloc, the first part of \<^verbatim>\<open>src/segment.c\<close>: a segment keeps a bit per chunk of
  \<open>MI_COMMIT_SIZE\<close> bytes. A mask is a list of eight 64-bit fields; \<open>mask_set\<close> reads it as a set of chunk
  numbers, and every operation is shown to be the operation on sets it stands for.
\<close>

section \<open>The operations\<close>

definition MI_COMMIT_SIZE :: size_t where
  "MI_COMMIT_SIZE = MI_SEGMENT_SLICE_SIZE"

definition MI_MINIMAL_COMMIT_SIZE :: size_t where
  "MI_MINIMAL_COMMIT_SIZE = 1 * MI_SEGMENT_SLICE_SIZE"

definition MI_COMMIT_MASK_BITS :: nat where
  "MI_COMMIT_MASK_BITS = unat (MI_SEGMENT_SIZE div MI_COMMIT_SIZE)"

definition MI_COMMIT_MASK_FIELD_BITS :: nat where
  "MI_COMMIT_MASK_FIELD_BITS = 64"

definition mi_commit_mask_all_set :: "mi_commit_mask_t \<Rightarrow> mi_commit_mask_t \<Rightarrow> bool" where
  "mi_commit_mask_all_set commit cm = list_all (\<lambda>i. (commit ! i AND cm ! i) = cm ! i) [0..<MI_COMMIT_MASK_FIELD_COUNT]"

definition mi_commit_mask_any_set :: "mi_commit_mask_t \<Rightarrow> mi_commit_mask_t \<Rightarrow> bool" where
  "mi_commit_mask_any_set commit cm = list_ex (\<lambda>i. (commit ! i AND cm ! i) \<noteq> 0) [0..<MI_COMMIT_MASK_FIELD_COUNT]"

definition mi_commit_mask_create_intersect :: "mi_commit_mask_t \<Rightarrow> mi_commit_mask_t \<Rightarrow> mi_commit_mask_t" where
  "mi_commit_mask_create_intersect commit cm = map (\<lambda>i. commit ! i AND cm ! i) [0..<MI_COMMIT_MASK_FIELD_COUNT]"

definition mi_commit_mask_clear :: "mi_commit_mask_t \<Rightarrow> mi_commit_mask_t \<Rightarrow> mi_commit_mask_t" where
  "mi_commit_mask_clear res cm = map (\<lambda>i. res ! i AND NOT (cm ! i)) [0..<MI_COMMIT_MASK_FIELD_COUNT]"

definition mi_commit_mask_set :: "mi_commit_mask_t \<Rightarrow> mi_commit_mask_t \<Rightarrow> mi_commit_mask_t" where
  "mi_commit_mask_set res cm = map (\<lambda>i. res ! i OR cm ! i) [0..<MI_COMMIT_MASK_FIELD_COUNT]"

function create_loop :: "nat \<Rightarrow> nat \<Rightarrow> nat \<Rightarrow> mi_commit_mask_t \<Rightarrow> mi_commit_mask_t" where
  "create_loop i ofs bitcount cm =
     (if bitcount > 0 then
        (let avail = MI_COMMIT_MASK_FIELD_BITS - ofs;
             cnt = (if bitcount > avail then avail else bitcount);
             msk = (if cnt \<ge> MI_COMMIT_MASK_FIELD_BITS then NOT 0 else push_bit ofs (push_bit cnt 1 - 1))
         in create_loop (i + 1) 0 (bitcount - cnt) (cm[i := msk]))
      else cm)"
  by pat_completeness auto
termination
  by (relation "measure (\<lambda>(i, ofs, bitcount, cm). 2 * bitcount + (if ofs \<ge> 64 then 1 else 0))")
    (auto simp: MI_COMMIT_MASK_FIELD_BITS_def)

definition mi_commit_mask_create :: "nat \<Rightarrow> nat \<Rightarrow> mi_commit_mask_t" where
  "mi_commit_mask_create bitidx bitcount =
     (if bitcount = MI_COMMIT_MASK_BITS then mi_commit_mask_create_full
      else if bitcount = 0 then mi_commit_mask_create_empty
      else create_loop (bitidx div MI_COMMIT_MASK_FIELD_BITS) (bitidx mod MI_COMMIT_MASK_FIELD_BITS) bitcount
             mi_commit_mask_create_empty)"

function count_ones :: "u64 \<Rightarrow> size_t \<Rightarrow> size_t" where
  "count_ones msk cnt =
     (if msk \<noteq> 0 then count_ones (drop_bit 1 msk) (if msk AND 1 \<noteq> 0 then cnt + 1 else cnt) else cnt)"
  by pat_completeness auto
termination
proof (relation "measure (\<lambda>(msk, cnt). unat msk)")
  fix msk :: u64
  assume "msk \<noteq> 0"
  then have "0 < unat msk" by (simp add: unat_gt_0)
  then show "((drop_bit 1 msk, y), msk, cnt) \<in> measure (\<lambda>(msk, cnt). unat msk)" for y cnt
    by (simp add: drop_bit_eq_div unat_div)
qed simp

definition mi_commit_mask_committed_size :: "mi_commit_mask_t \<Rightarrow> size_t \<Rightarrow> size_t" where
  "mi_commit_mask_committed_size cm tot =
     (let cnt = fold (\<lambda>i cnt. let msk = cm ! i
                in if NOT msk = 0 then cnt + word_of_nat MI_COMMIT_MASK_FIELD_BITS else count_ones msk cnt)
              [0..<MI_COMMIT_MASK_FIELD_COUNT] 0
      in (tot div word_of_nat MI_COMMIT_MASK_BITS) * cnt)"

subsection \<open>The next run of ones\<close>

partial_function (option) skip_zeros :: "u64 \<Rightarrow> nat \<Rightarrow> (u64 \<times> nat) option" where
  "skip_zeros msk ofs = (if msk AND 1 = 0 then skip_zeros (drop_bit 1 msk) (ofs + 1) else Some (msk, ofs))"

text \<open>The field, the offset and the shifted field of the first one at or after the offset.\<close>

function find_ones :: "mi_commit_mask_t \<Rightarrow> nat \<Rightarrow> nat \<Rightarrow> u64 \<Rightarrow> (nat \<times> nat \<times> u64) option" where
  "find_ones cm i ofs msk =
     (if i < MI_COMMIT_MASK_FIELD_COUNT then
        (let msk = drop_bit ofs (cm ! i)
         in if msk \<noteq> 0 then Option.bind (skip_zeros msk ofs) (\<lambda>(msk, ofs). Some (i, ofs, msk))
            else find_ones cm (i + 1) 0 msk)
      else Some (i, ofs, msk))"
  by pat_completeness auto
termination
  by (relation "measure (\<lambda>(cm, i, ofs, msk). MI_COMMIT_MASK_FIELD_COUNT - i)") auto

function count_run :: "u64 \<Rightarrow> nat \<Rightarrow> u64 \<times> nat" where
  "count_run msk cnt =
     (let cnt = cnt + 1; msk = drop_bit 1 msk
      in if msk AND 1 = 1 then count_run msk cnt else (msk, cnt))"
  by pat_completeness auto
termination
proof (relation "measure (\<lambda>(msk, cnt). unat msk)")
  fix msk msk' :: u64
  assume m: "msk' = drop_bit 1 msk" "msk' AND 1 = 1"
  then have "msk \<noteq> 0" by auto
  then have "0 < unat msk" by (simp add: unat_gt_0)
  then show "((msk', cnt'), msk, cnt) \<in> measure (\<lambda>(msk, cnt). unat msk)" for cnt cnt'
    using m(1) by (simp add: drop_bit_eq_div unat_div)
qed simp

declare create_loop.simps [simp del] count_ones.simps [simp del] find_ones.simps [simp del] count_run.simps [simp del]

lemma count_run_stops: "fst (count_run msk cnt) AND 1 \<noteq> 1"
proof (induction msk cnt rule: count_run.induct)
  case (1 msk cnt)
  then show ?case by (subst count_run.simps) (simp add: Let_def)
qed

function count_runs :: "mi_commit_mask_t \<Rightarrow> nat \<Rightarrow> nat \<Rightarrow> u64 \<Rightarrow> nat \<Rightarrow> nat" where
  "count_runs cm idx i msk cnt =
     (let (msk, cnt) = count_run msk cnt
      in if (idx + cnt) mod MI_COMMIT_MASK_FIELD_BITS = 0 then
           (let i = i + 1
            in if i \<ge> MI_COMMIT_MASK_FIELD_COUNT then cnt
               else (let msk = cm ! i in if msk AND 1 = 1 then count_runs cm idx i msk cnt else cnt))
         else if msk AND 1 = 1 then count_runs cm idx i msk cnt else cnt)"
  by pat_completeness auto
termination
proof (relation "measure (\<lambda>(cm, idx, i, msk, cnt). MI_COMMIT_MASK_FIELD_COUNT - i)")
  fix cm :: mi_commit_mask_t and idx i cnt cnt' :: nat and msk msk' :: u64 and r
  assume "r = count_run msk cnt" "(msk', cnt') = r" "msk' AND 1 = 1"
  then have False using count_run_stops [of msk cnt] by (metis fst_conv)
  then show "((cm, idx, i, msk', cnt'), cm, idx, i, msk, cnt) \<in> measure (\<lambda>(cm, idx, i, msk, cnt). MI_COMMIT_MASK_FIELD_COUNT - i)" ..
qed auto

declare count_runs.simps [simp del]

text \<open>The result is the number of ones and the new value of \<open>*idx\<close>.\<close>

definition mi_commit_mask_next_run :: "mi_commit_mask_t \<Rightarrow> nat \<Rightarrow> (nat \<times> nat) option" where
  "mi_commit_mask_next_run cm idx =
     Option.bind (find_ones cm (idx div MI_COMMIT_MASK_FIELD_BITS) (idx mod MI_COMMIT_MASK_FIELD_BITS) 0)
       (\<lambda>(i, ofs, msk).
         if i \<ge> MI_COMMIT_MASK_FIELD_COUNT then Some (0, MI_COMMIT_MASK_BITS)
         else (let idx = i * MI_COMMIT_MASK_FIELD_BITS + ofs in Some (count_runs cm idx i msk 0, idx)))"

section \<open>Masks as sets of chunks\<close>

definition mask_set :: "mi_commit_mask_t \<Rightarrow> nat set" where
  "mask_set cm = {i. i < 512 \<and> bit (cm ! (i div 64)) (i mod 64)}"

definition mask_ok :: "mi_commit_mask_t \<Rightarrow> bool" where
  "mask_ok cm \<longleftrightarrow> length cm = MI_COMMIT_MASK_FIELD_COUNT"

lemma mask_bits: "MI_COMMIT_MASK_FIELD_COUNT = 8" "MI_COMMIT_MASK_BITS = 512" "MI_COMMIT_MASK_FIELD_BITS = 64"
  by (simp_all add: MI_COMMIT_MASK_FIELD_COUNT_def MI_COMMIT_MASK_BITS_def MI_COMMIT_MASK_FIELD_BITS_def MI_COMMIT_SIZE_def
      MI_SEGMENT_SIZE_def MI_SEGMENT_SLICE_SIZE_def MI_SEGMENT_SHIFT_def MI_SEGMENT_SLICE_SHIFT_def)

lemma mask_set_iff: "i \<in> mask_set cm \<longleftrightarrow> i < 512 \<and> bit (cm ! (i div 64)) (i mod 64)"
  by (simp add: mask_set_def)

lemma mask_fields:
  assumes "\<And>f. f < 8 \<Longrightarrow> (\<forall>b < 64. bit (cm ! f) b \<longrightarrow> P (64 * f + b))"
  shows "\<forall>i \<in> mask_set cm. P i"
proof
  fix i assume "i \<in> mask_set cm"
  then have "i div 64 < 8" "bit (cm ! (i div 64)) (i mod 64)" "i mod 64 < 64" by (auto simp: mask_set_iff)
  then have "P (64 * (i div 64) + i mod 64)" using assms by blast
  then show "P i" by simp
qed

lemma mask_field_bit: "f < 8 \<Longrightarrow> b < 64 \<Longrightarrow> 64 * f + b \<in> mask_set cm \<longleftrightarrow> bit (cm ! f) b"
  by (simp add: mask_set_iff)

lemma mask_set_eqI:
  assumes "\<And>f b. f < 8 \<Longrightarrow> b < 64 \<Longrightarrow> bit (cm ! f) b \<longleftrightarrow> 64 * f + b \<in> S" "\<And>i. i \<in> S \<Longrightarrow> i < 512"
  shows "mask_set cm = S"
proof (rule set_eqI)
  fix i
  show "i \<in> mask_set cm \<longleftrightarrow> i \<in> S"
  proof (cases "i < 512")
    case True
    then have "i div 64 < 8" "i mod 64 < 64" by auto
    then have "bit (cm ! (i div 64)) (i mod 64) \<longleftrightarrow> 64 * (i div 64) + i mod 64 \<in> S" by (rule assms(1))
    then show ?thesis using True by (simp add: mask_set_iff)
  qed (use assms(2) in \<open>auto simp: mask_set_iff\<close>)
qed

lemma mask_set_bound: "mask_set cm \<subseteq> {..<512}"
  by (auto simp: mask_set_iff)

lemma finite_mask_set: "finite (mask_set cm)"
  using mask_set_bound finite_subset by blast

lemma mask_set_intersect: "mask_set (mi_commit_mask_create_intersect a b) = mask_set a \<inter> mask_set b"
  by (rule mask_set_eqI) (auto simp: mi_commit_mask_create_intersect_def mask_bits mask_set_iff bit_and_iff)

lemma mask_set_clear: "mask_set (mi_commit_mask_clear a b) = mask_set a - mask_set b"
  by (rule mask_set_eqI) (auto simp: mi_commit_mask_clear_def mask_bits mask_set_iff bit_and_iff bit_not_iff)

lemma mask_set_set: "mask_set (mi_commit_mask_set a b) = mask_set a \<union> mask_set b"
  by (rule mask_set_eqI) (auto simp: mi_commit_mask_set_def mask_bits mask_set_iff bit_or_iff)

lemma mask_set_empty: "mask_set mi_commit_mask_create_empty = {}"
  by (rule mask_set_eqI) (simp_all add: mi_commit_mask_create_empty_def mask_bits)

lemma mask_set_full: "mask_set mi_commit_mask_create_full = {..<512}"
  by (rule mask_set_eqI) (simp_all add: mi_commit_mask_create_full_def mask_bits)

lemma mask_ok_ops:
  "mask_ok (mi_commit_mask_create_intersect a b)" "mask_ok (mi_commit_mask_clear a b)" "mask_ok (mi_commit_mask_set a b)"
  "mask_ok mi_commit_mask_create_empty" "mask_ok mi_commit_mask_create_full"
  by (simp_all add: mask_ok_def mi_commit_mask_create_intersect_def mi_commit_mask_clear_def mi_commit_mask_set_def
      mi_commit_mask_create_empty_def mi_commit_mask_create_full_def)

lemma all_fields: "list_all P [0..<MI_COMMIT_MASK_FIELD_COUNT] \<longleftrightarrow> (\<forall>f < 8. P f)"
  by (auto simp: mask_bits list_all_iff)

lemma mask_all_set: "mi_commit_mask_all_set a b \<longleftrightarrow> mask_set b \<subseteq> mask_set a"
proof -
  have "(a ! f AND b ! f) = b ! f \<longleftrightarrow> (\<forall>n < 64. bit (b ! f) n \<longrightarrow> bit (a ! f) n)" for f
    by (auto simp: bit_eq_iff bit_and_iff)
  then have "mi_commit_mask_all_set a b \<longleftrightarrow> (\<forall>f < 8. \<forall>n < 64. bit (b ! f) n \<longrightarrow> bit (a ! f) n)"
    by (simp add: mi_commit_mask_all_set_def all_fields)
  also have "\<dots> \<longleftrightarrow> mask_set b \<subseteq> mask_set a"
  proof
    assume h: "\<forall>f < 8. \<forall>n < 64. bit (b ! f) n \<longrightarrow> bit (a ! f) n"
    show "mask_set b \<subseteq> mask_set a" using h by (auto simp: mask_set_iff)
  next
    assume "mask_set b \<subseteq> mask_set a"
    then show "\<forall>f < 8. \<forall>n < 64. bit (b ! f) n \<longrightarrow> bit (a ! f) n" by (auto simp flip: mask_field_bit)
  qed
  finally show ?thesis .
qed

lemma mask_any_set: "mi_commit_mask_any_set a b \<longleftrightarrow> mask_set a \<inter> mask_set b \<noteq> {}"
proof -
  have "(a ! f AND b ! f) = 0 \<longleftrightarrow> (\<forall>n < 64. \<not> (bit (a ! f) n \<and> bit (b ! f) n))" for f
    by (auto simp: bit_eq_iff bit_and_iff)
  then have "\<not> mi_commit_mask_any_set a b \<longleftrightarrow> (\<forall>f < 8. \<forall>n < 64. \<not> (bit (a ! f) n \<and> bit (b ! f) n))"
    by (auto simp: mi_commit_mask_any_set_def list_ex_iff mask_bits)
  also have "\<dots> \<longleftrightarrow> mask_set a \<inter> mask_set b = {}"
  proof
    assume h: "\<forall>f < 8. \<forall>n < 64. \<not> (bit (a ! f) n \<and> bit (b ! f) n)"
    show "mask_set a \<inter> mask_set b = {}" using h by (auto simp: mask_set_iff)
  next
    assume h: "mask_set a \<inter> mask_set b = {}"
    show "\<forall>f < 8. \<forall>n < 64. \<not> (bit (a ! f) n \<and> bit (b ! f) n)"
    proof (intro allI impI)
      fix f n :: nat assume "f < 8" "n < 64"
      then show "\<not> (bit (a ! f) n \<and> bit (b ! f) n)" using h mask_field_bit [of f n a] mask_field_bit [of f n b] by blast
    qed
  qed
  finally show ?thesis by blast
qed

lemma mask_is_empty: "mi_commit_mask_is_empty cm \<longleftrightarrow> mask_set cm = {}"
proof -
  have "cm ! f = 0 \<longleftrightarrow> (\<forall>n < 64. \<not> bit (cm ! f) n)" for f by (auto simp: bit_eq_iff)
  then have "mi_commit_mask_is_empty cm \<longleftrightarrow> (\<forall>f < 8. \<forall>n < 64. \<not> bit (cm ! f) n)" by (simp add: mi_commit_mask_is_empty_def all_fields)
  also have "\<dots> \<longleftrightarrow> mask_set cm = {}"
  proof
    assume "mask_set cm = {}"
    then show "\<forall>f < 8. \<forall>n < 64. \<not> bit (cm ! f) n" by (simp flip: mask_field_bit)
  qed (auto simp: mask_set_iff)
  finally show ?thesis .
qed

lemma mask_is_full: "mi_commit_mask_is_full cm \<longleftrightarrow> mask_set cm = {..<512}"
proof -
  have "cm ! f = NOT 0 \<longleftrightarrow> (\<forall>n < 64. bit (cm ! f) n)" for f by (auto simp: bit_eq_iff)
  then have "mi_commit_mask_is_full cm \<longleftrightarrow> (\<forall>f < 8. \<forall>n < 64. bit (cm ! f) n)" by (simp add: mi_commit_mask_is_full_def all_fields)
  also have "\<dots> \<longleftrightarrow> mask_set cm = {..<512}"
  proof
    assume "mask_set cm = {..<512}"
    then show "\<forall>f < 8. \<forall>n < 64. bit (cm ! f) n" by (auto simp flip: mask_field_bit)
  qed (auto simp: mask_set_iff)
  finally show ?thesis .
qed

subsection \<open>Ranges\<close>

lemma range_field:
  fixes msk :: u64
  assumes "ofs + cnt \<le> 64" "n < 64"
  shows "bit (if cnt \<ge> 64 then NOT 0 else push_bit ofs (push_bit cnt 1 - 1) :: u64) n \<longleftrightarrow> ofs \<le> n \<and> n < ofs + cnt"
proof (cases "64 \<le> cnt")
  case True
  then show ?thesis using assms by (simp add: bit_not_iff)
next
  case False
  have "(push_bit cnt 1 - 1 :: u64) = mask cnt" by (simp add: mask_eq_exp_minus_1 push_bit_eq_mult)
  then show ?thesis using False assms by (auto simp: bit_push_bit_iff bit_mask_iff)
qed

lemma mask_set_field:
  assumes "length cm = 8" "i < 8" "cm ! i = 0" "lo \<le> 64" "hi \<le> 64" "\<And>n. n < 64 \<Longrightarrow> bit v n \<longleftrightarrow> lo \<le> n \<and> n < hi"
  shows "mask_set (cm[i := v]) = mask_set cm \<union> {64 * i + lo..<64 * i + hi}"
proof (rule mask_set_eqI)
  fix f b :: nat assume fb: "f < 8" "b < 64"
  show "bit (cm[i := v] ! f) b \<longleftrightarrow> 64 * f + b \<in> mask_set cm \<union> {64 * i + lo..<64 * i + hi}"
  proof (cases "f = i")
    case True
    then show ?thesis using fb assms by (simp add: mask_field_bit)
  next
    case False
    have "64 * f + b \<notin> {64 * i + lo..<64 * i + hi}"
    proof
      assume "64 * f + b \<in> {64 * i + lo..<64 * i + hi}"
      then have "64 * i \<le> 64 * f + b" "64 * f + b < 64 * i + 64" using assms(5) by auto
      then show False using fb(2) False by linarith
    qed
    then have "64 * f + b \<in> mask_set cm \<union> {64 * i + lo..<64 * i + hi} \<longleftrightarrow> bit (cm ! f) b"
      using mask_field_bit [OF fb, of cm] by blast
    then show ?thesis using False by simp
  qed
next
  fix j assume "j \<in> mask_set cm \<union> {64 * i + lo..<64 * i + hi}"
  then show "j < 512" using assms(2,5) by (auto simp: mask_set_iff)
qed

lemma create_loop_set:
  assumes "length cm = 8" "ofs < 64" "bitcount > 0 \<Longrightarrow> 64 * i + ofs + bitcount \<le> 512" "\<forall>f. i \<le> f \<and> f < 8 \<longrightarrow> cm ! f = 0"
  shows "mask_set (create_loop i ofs bitcount cm) = mask_set cm \<union> {64 * i + ofs..<64 * i + ofs + bitcount} \<and>
    length (create_loop i ofs bitcount cm) = 8"
  using assms
proof (induction i ofs bitcount cm rule: create_loop.induct)
  case (1 i ofs bitcount cm)
  show ?case
  proof (cases "bitcount > 0")
    case False
    then show ?thesis using 1(2) by (subst (1 2) create_loop.simps) simp
  next
    case True
    let ?cnt = "if bitcount > 64 - ofs then 64 - ofs else bitcount"
    let ?msk = "if ?cnt \<ge> 64 then NOT 0 else push_bit ofs (push_bit ?cnt 1 - 1) :: u64"
    let ?cm = "cm[i := ?msk]"
    have i: "i < 8" "64 * i + ofs + bitcount \<le> 512" using 1(4) True by auto
    have c: "ofs + ?cnt \<le> 64" "0 < ?cnt" using 1(3) True by auto
    have set: "mask_set ?cm = mask_set cm \<union> {64 * i + ofs..<64 * i + (ofs + ?cnt)}"
      by (rule mask_set_field [OF 1(2) i(1)]) (use 1(3,5) i(1) c(1) range_field [of ofs ?cnt] in auto)
    have step: "create_loop i ofs bitcount cm = create_loop (i + 1) 0 (bitcount - ?cnt) ?cm"
      using True by (subst create_loop.simps) (simp add: mask_bits Let_def)
    have IH: "mask_set (create_loop (i + 1) 0 (bitcount - ?cnt) ?cm) = mask_set ?cm \<union> {64 * (i + 1) + 0..<64 * (i + 1) + 0 + (bitcount - ?cnt)} \<and>
      length (create_loop (i + 1) 0 (bitcount - ?cnt) ?cm) = 8"
      by (rule 1(1) [OF True, of "64 - ofs" ?cnt ?msk]) (use 1(2,5) i(2) in \<open>auto simp: mask_bits split: if_splits\<close>)
    have "{64 * i + ofs..<64 * i + (ofs + ?cnt)} \<union> {64 * (i + 1) + 0..<64 * (i + 1) + 0 + (bitcount - ?cnt)} =
        {64 * i + ofs..<64 * i + ofs + bitcount}"
    proof (cases "bitcount > 64 - ofs")
      case gt: True
      have "64 * i + (ofs + ?cnt) = 64 * (i + 1)" "64 * (i + 1) + 0 + (bitcount - ?cnt) = 64 * i + ofs + bitcount"
        using gt 1(3) by simp_all
      moreover have "64 * i + ofs \<le> 64 * (i + 1)" "64 * (i + 1) \<le> 64 * i + ofs + bitcount" using gt 1(3) by simp_all
      ultimately show ?thesis using ivl_disj_un_two(3) by (simp only: add_0_right)
    qed (simp add: add.assoc)
    then show ?thesis unfolding step using IH set by blast
  qed
qed

lemma mask_set_create:
  assumes "idx + cnt \<le> 512"
  shows "mask_set (mi_commit_mask_create idx cnt) = {idx..<idx + cnt}" "mask_ok (mi_commit_mask_create idx cnt)"
proof -
  have "mask_set (mi_commit_mask_create idx cnt) = {idx..<idx + cnt} \<and> mask_ok (mi_commit_mask_create idx cnt)"
  proof (cases "cnt = 512 \<or> cnt = 0")
    case True
    then show ?thesis using assms mask_ok_ops
      by (auto simp: mi_commit_mask_create_def mask_bits mask_set_full mask_set_empty)
  next
    case False
    have "length mi_commit_mask_create_empty = 8" by (simp add: mi_commit_mask_create_empty_def mask_bits)
    then have "mask_set (create_loop (idx div 64) (idx mod 64) cnt mi_commit_mask_create_empty) =
        {} \<union> {64 * (idx div 64) + idx mod 64..<64 * (idx div 64) + idx mod 64 + cnt} \<and>
      length (create_loop (idx div 64) (idx mod 64) cnt mi_commit_mask_create_empty) = 8"
      unfolding mask_set_empty [symmetric]
      by (intro create_loop_set) (use assms in \<open>auto simp: mi_commit_mask_create_empty_def mask_bits\<close>)
    then show ?thesis using False by (simp add: mi_commit_mask_create_def mask_bits mask_ok_def)
  qed
  then show "mask_set (mi_commit_mask_create idx cnt) = {idx..<idx + cnt}" "mask_ok (mi_commit_mask_create idx cnt)" by auto
qed

subsection \<open>Counting\<close>

lemma count_ones_card: "count_ones msk cnt = cnt + word_of_nat (card {n. bit msk n})"
proof (induction msk cnt rule: count_ones.induct)
  case (1 msk cnt)
  show ?case
  proof (cases "msk = 0")
    case True
    then have e: "{n. bit msk n} = {}" by auto
    show ?thesis unfolding e by (subst count_ones.simps) (simp add: True)
  next
    case False
    have fin: "finite {n. bit (drop_bit 1 msk) n}"
    proof (rule finite_subset)
      show "{n. bit (drop_bit 1 msk) n} \<subseteq> {..<64}" using bit_imp_le_length [of "drop_bit 1 msk"] by auto
    qed simp
    have inj: "card (Suc ` {n. bit (drop_bit 1 msk) n}) = card {n. bit (drop_bit 1 msk) n}" by (rule card_image) simp
    have all: "{n. bit msk n} = (if bit msk 0 then {0} else {}) \<union> Suc ` {n. bit (drop_bit 1 msk) n}"
    proof (rule set_eqI)
      fix n
      show "n \<in> {n. bit msk n} \<longleftrightarrow> n \<in> (if bit msk 0 then {0} else {}) \<union> Suc ` {n. bit (drop_bit 1 msk) n}"
        by (cases n) (auto simp: bit_drop_bit_eq)
    qed
    have "card {n. bit msk n} = (if bit msk 0 then 1 else 0) + card {n. bit (drop_bit 1 msk) n}"
      unfolding all by (subst card_Un_disjoint) (use fin inj in auto)
    moreover have "msk AND 1 \<noteq> 0 \<longleftrightarrow> bit msk 0" by (simp add: and_one_eq bit_0 odd_iff_mod_2_eq_one)
    ultimately show ?thesis using 1 [OF False] False by (subst count_ones.simps) simp
  qed
qed

lemma card_mask_set: "card (mask_set cm) = (\<Sum>f<8. card {n. bit (cm ! f) n})"
proof -
  have "mask_set cm = (\<Union>f\<in>{..<8}. (\<lambda>n. 64 * f + n) ` {n. bit (cm ! f) n})" (is "_ = (\<Union>f\<in>_. ?F f)")
  proof (rule set_eqI)
    fix i
    show "i \<in> mask_set cm \<longleftrightarrow> i \<in> (\<Union>f\<in>{..<8}. ?F f)"
    proof
      assume "i \<in> mask_set cm"
      then have "i div 64 < 8" "bit (cm ! (i div 64)) (i mod 64)" "i = 64 * (i div 64) + i mod 64" by (auto simp: mask_set_iff)
      then show "i \<in> (\<Union>f\<in>{..<8}. ?F f)" by blast
    next
      assume "i \<in> (\<Union>f\<in>{..<8}. ?F f)"
      then obtain f n where "f < 8" "bit (cm ! f) n" "i = 64 * f + n" by auto
      moreover then have "n < 64" using bit_imp_le_length [of "cm ! f" n] by simp
      ultimately show "i \<in> mask_set cm" by (simp add: mask_set_iff)
    qed
  qed
  moreover have "finite {n. bit (cm ! f) n}" for f
    by (rule finite_subset [of _ "{..<64}"]) (use bit_imp_le_length [of "cm ! f"] in auto)
  moreover have "?F f \<inter> ?F g = {}" if "f \<noteq> g" for f g
  proof -
    have "n < 64" if "bit (cm ! f) n" for n f using bit_imp_le_length [OF that] by simp
    then have d: "x div 64 = f" if "x \<in> ?F f" for x f using that by fastforce
    show ?thesis
    proof (rule ccontr)
      assume "?F f \<inter> ?F g \<noteq> {}"
      then obtain x where "x \<in> ?F f" "x \<in> ?F g" by blast
      then show False using d [of x f] d [of x g] that by simp
    qed
  qed
  ultimately have "card (mask_set cm) = (\<Sum>f<8. card (?F f))" by (subst card_UN_disjoint [symmetric]) auto
  also have "\<dots> = (\<Sum>f<8. card {n. bit (cm ! f) n})" by (rule sum.cong) (simp_all add: card_image inj_on_def)
  finally show ?thesis .
qed

lemma committed_size_card: "mi_commit_mask_committed_size cm tot = (tot div 512) * word_of_nat (card (mask_set cm))"
proof -
  have all: "card {n. bit (NOT 0 :: u64) n} = 64"
  proof -
    have "{n. bit (NOT 0 :: u64) n} = {..<64}" by (auto simp: bit_not_iff bit_imp_le_length)
    then show ?thesis by simp
  qed
  have one: "(if NOT (v :: u64) = 0 then cnt + word_of_nat 64 else count_ones v cnt) = cnt + word_of_nat (card {n. bit v n})" for v cnt
  proof (cases "NOT v = 0")
    case True
    then have "v = NOT 0" by (metis bit.double_compl)
    then show ?thesis using all by simp
  qed (simp add: count_ones_card)
  have "fold (\<lambda>i cnt. cnt + word_of_nat (card {n. bit (cm ! i) n})) [0..<k] 0 =
      (word_of_nat (\<Sum>f<k. card {n. bit (cm ! f) n}) :: size_t)" for k
    by (induction k) (simp_all add: algebra_simps)
  from this [of 8] show ?thesis
    unfolding mi_commit_mask_committed_size_def mask_bits Let_def one card_mask_set by simp
qed

subsection \<open>Runs\<close>

lemma split64: "j = 64 * i + r \<Longrightarrow> r < 64 \<Longrightarrow> j div 64 = i \<and> j mod 64 = (r :: nat)"
  by simp

lemma skip_zeros_bit:
  "msk \<noteq> 0 \<Longrightarrow> \<exists>k. skip_zeros msk ofs = Some (drop_bit k msk, ofs + k) \<and> bit msk k \<and> (\<forall>j < k. \<not> bit msk j)"
proof (induction "unat msk" arbitrary: msk ofs rule: less_induct)
  case less
  show ?case
  proof (cases "bit msk 0")
    case True
    then have "msk AND 1 \<noteq> 0" by (simp add: and_one_eq bit_0 odd_iff_mod_2_eq_one)
    then have "skip_zeros msk ofs = Some (drop_bit 0 msk, ofs + 0)" by (subst skip_zeros.simps) simp
    then show ?thesis using True by blast
  next
    case False
    then have a: "msk AND 1 = 0" by (simp add: and_one_eq bit_0 even_iff_mod_2_eq_zero)
    have nz: "drop_bit 1 msk \<noteq> 0"
    proof
      assume z: "drop_bit 1 msk = 0"
      have "\<not> bit msk n" for n
      proof (cases n)
        case (Suc m)
        have "bit (drop_bit 1 msk) m = bit msk n" using Suc by (simp add: bit_drop_bit_eq)
        then show ?thesis using z by simp
      qed (use False in simp)
      then show False using less.prems by (simp add: bit_eq_iff)
    qed
    have "unat (drop_bit 1 msk) < unat msk" using less.prems by (simp add: drop_bit_eq_div unat_div unat_gt_0)
    from less.hyps [OF this nz, of "ofs + 1"]
    obtain k where k: "skip_zeros (drop_bit 1 msk) (ofs + 1) = Some (drop_bit k (drop_bit 1 msk), ofs + 1 + k)"
      "bit (drop_bit 1 msk) k" "\<forall>j < k. \<not> bit (drop_bit 1 msk) j" by blast
    have "skip_zeros msk ofs = Some (drop_bit (Suc k) msk, ofs + Suc k)" using k(1) a by (subst skip_zeros.simps) simp
    moreover have "bit msk (Suc k)" using k(2) by (simp add: bit_drop_bit_eq)
    moreover have "\<not> bit msk j" if "j < Suc k" for j using that False k(3) by (cases j) (auto simp: bit_drop_bit_eq)
    ultimately show ?thesis by blast
  qed
qed

lemma count_run_bits:
  "\<exists>k \<ge> 1. count_run msk cnt = (drop_bit k msk, cnt + k) \<and> (\<forall>j. 1 \<le> j \<and> j < k \<longrightarrow> bit msk j) \<and> \<not> bit msk k"
proof (induction msk cnt rule: count_run.induct)
  case (1 msk cnt)
  have b: "drop_bit 1 msk AND 1 = 1 \<longleftrightarrow> bit msk 1" by (simp add: and_one_eq bit_iff_odd_drop_bit odd_iff_mod_2_eq_one)
  show ?case
  proof (cases "bit msk 1")
    case False
    then have "count_run msk cnt = (drop_bit 1 msk, cnt + 1)" using b by (subst count_run.simps) (simp add: Let_def)
    then show ?thesis using False by (intro exI [of _ 1]) auto
  next
    case True
    then obtain k where k: "1 \<le> k" "count_run (drop_bit 1 msk) (cnt + 1) = (drop_bit k (drop_bit 1 msk), cnt + 1 + k)"
      "\<forall>j. 1 \<le> j \<and> j < k \<longrightarrow> bit (drop_bit 1 msk) j" "\<not> bit (drop_bit 1 msk) k"
      using 1 [OF refl refl] b by blast
    have "count_run msk cnt = (drop_bit (Suc k) msk, cnt + Suc k)" using k(2) True b by (subst count_run.simps) (simp add: Let_def)
    moreover have "bit msk j" if "1 \<le> j" "j < Suc k" for j
    proof (cases "j = 1")
      case False
      then have "1 \<le> j - 1 \<and> j - 1 < k" using that by linarith
      then have "bit (drop_bit 1 msk) (j - 1)" using k(3) by blast
      then show ?thesis using that by (simp add: bit_drop_bit_eq)
    qed (use True in simp)
    moreover have "\<not> bit msk (Suc k)" using k(4) by (simp add: bit_drop_bit_eq)
    ultimately show ?thesis by (intro exI [of _ "Suc k"]) auto
  qed
qed

lemma find_ones_first:
  assumes "i \<le> 8" "ofs < 64"
  shows "\<exists>i' ofs' msk'. find_ones cm i ofs msk = Some (i', ofs', msk') \<and>
    (8 \<le> i' \<and> (\<forall>j \<in> mask_set cm. j < 64 * i + ofs) \<or>
     i' < 8 \<and> ofs' < 64 \<and> msk' = drop_bit ofs' (cm ! i') \<and> bit msk' 0 \<and> 64 * i + ofs \<le> 64 * i' + ofs' \<and>
     (\<forall>j. 64 * i + ofs \<le> j \<and> j < 64 * i' + ofs' \<longrightarrow> j \<notin> mask_set cm))"
  using assms
proof (induction cm i ofs msk rule: find_ones.induct)
  case (1 cm i ofs msk)
  show ?case
  proof (cases "i < 8")
    case False
    then have "\<forall>j \<in> mask_set cm. j < 64 * i + ofs" by (auto simp: mask_set_iff)
    then show ?thesis using False by (subst find_ones.simps) (simp add: mask_bits)
  next
    case True
    let ?m = "drop_bit ofs (cm ! i)"
    show ?thesis
    proof (cases "?m = 0")
      case z: True
      have low: "j \<notin> mask_set cm" if "64 * i + ofs \<le> j" "j < 64 * (i + 1)" for j
      proof -
        have "j = 64 * i + (j - 64 * i)" "j - 64 * i < 64" using that by auto
        then have "j div 64 = i \<and> j mod 64 = j - 64 * i" by (rule split64)
        then have j: "j div 64 = i" "ofs \<le> j mod 64" using that by auto
        have "bit ?m (j mod 64 - ofs) \<longleftrightarrow> bit (cm ! i) (j mod 64)" using j(2) by (simp add: bit_drop_bit_eq)
        then show ?thesis using z j(1) by (simp add: mask_set_iff)
      qed
      have "find_ones cm i ofs msk = find_ones cm (i + 1) 0 ?m" using True z by (subst find_ones.simps) (simp add: mask_bits)
      obtain i' ofs' msk' where f: "find_ones cm (i + 1) 0 ?m = Some (i', ofs', msk')"
        "8 \<le> i' \<and> (\<forall>j \<in> mask_set cm. j < 64 * (i + 1) + 0) \<or>
         i' < 8 \<and> ofs' < 64 \<and> msk' = drop_bit ofs' (cm ! i') \<and> bit msk' 0 \<and> 64 * (i + 1) + 0 \<le> 64 * i' + ofs' \<and>
         (\<forall>j. 64 * (i + 1) + 0 \<le> j \<and> j < 64 * i' + ofs' \<longrightarrow> j \<notin> mask_set cm)"
        using 1(1) [of ?m] True z by (auto simp: mask_bits)
      have "\<forall>j \<in> mask_set cm. j < 64 * i + ofs" if "\<forall>j \<in> mask_set cm. j < 64 * (i + 1) + 0" using that low by (metis add_0_right not_less)
      moreover have "\<forall>j. 64 * i + ofs \<le> j \<and> j < 64 * i' + ofs' \<longrightarrow> j \<notin> mask_set cm"
        if "\<forall>j. 64 * (i + 1) + 0 \<le> j \<and> j < 64 * i' + ofs' \<longrightarrow> j \<notin> mask_set cm" using that low by (metis add_0_right not_less)
      moreover have "64 * i + ofs \<le> 64 * i' + ofs'" if "64 * (i + 1) + 0 \<le> 64 * i' + ofs'" using that 1(3) by simp
      ultimately have "8 \<le> i' \<and> (\<forall>j \<in> mask_set cm. j < 64 * i + ofs) \<or>
         i' < 8 \<and> ofs' < 64 \<and> msk' = drop_bit ofs' (cm ! i') \<and> bit msk' 0 \<and> 64 * i + ofs \<le> 64 * i' + ofs' \<and>
         (\<forall>j. 64 * i + ofs \<le> j \<and> j < 64 * i' + ofs' \<longrightarrow> j \<notin> mask_set cm)"
        using f(2) by blast
      then show ?thesis using \<open>find_ones cm i ofs msk = find_ones cm (i + 1) 0 ?m\<close> f(1) by simp
    next
      case nz: False
      obtain k where k: "skip_zeros ?m ofs = Some (drop_bit k ?m, ofs + k)" "bit ?m k" "\<forall>j < k. \<not> bit ?m j"
        using skip_zeros_bit [OF nz] by blast
      have ofs: "ofs + k < 64" using k(2) bit_imp_le_length [of "cm ! i" "ofs + k"] by (simp add: bit_drop_bit_eq)
      have "find_ones cm i ofs msk = Some (i, ofs + k, drop_bit (ofs + k) (cm ! i))"
        using True nz k(1) by (subst find_ones.simps) (simp add: mask_bits drop_bit_drop_bit add.commute)
      moreover have "bit (drop_bit (ofs + k) (cm ! i)) 0" using k(2) by (simp add: bit_drop_bit_eq)
      moreover have "j \<notin> mask_set cm" if "64 * i + ofs \<le> j" "j < 64 * i + (ofs + k)" for j
      proof -
        have "j = 64 * i + (j - 64 * i)" "j - 64 * i < 64" using that ofs by auto
        then have "j div 64 = i \<and> j mod 64 = j - 64 * i" by (rule split64)
        then have j: "j div 64 = i" "ofs \<le> j mod 64" "j mod 64 - ofs < k" using that by auto
        then have "\<not> bit ?m (j mod 64 - ofs)" using k(3) by blast
        then show ?thesis using j by (simp add: mask_set_iff bit_drop_bit_eq)
      qed
      ultimately show ?thesis using True ofs by auto
    qed
  qed
qed

lemma count_runs_end:
  assumes "i = (idx + cnt) div 64" "i < 8" "msk = drop_bit ((idx + cnt) mod 64) (cm ! i)" "bit msk 0"
  shows "cnt < count_runs cm idx i msk cnt \<and> idx + count_runs cm idx i msk cnt \<le> 512 \<and>
    {idx + cnt..<idx + count_runs cm idx i msk cnt} \<subseteq> mask_set cm \<and> idx + count_runs cm idx i msk cnt \<notin> mask_set cm"
  using assms
proof (induction cm idx i msk cnt rule: count_runs.induct)
  case (1 cm idx i msk cnt)
  let ?p = "idx + cnt"
  define r where "r = ?p mod 64"
  have mr: "msk = drop_bit r (cm ! i)" using 1(5) by (simp add: r_def)
  obtain k where k: "1 \<le> k" "count_run msk cnt = (drop_bit k msk, cnt + k)" "\<forall>j. 1 \<le> j \<and> j < k \<longrightarrow> bit msk j" "\<not> bit msk k"
    using count_run_bits [of msk cnt] by blast
  have on: "bit msk j" if "j < k" for j using that k(3) 1(6) by (cases j) auto
  have le: "r + k \<le> 64"
  proof -
    have "bit (cm ! i) (r + (k - 1))" using on [of "k - 1"] k(1) mr by (simp add: bit_drop_bit_eq)
    then have "r + (k - 1) < 64" using bit_imp_le_length by force
    then show ?thesis using k(1) by linarith
  qed
  have p: "?p = 64 * i + r" using 1(3) by (simp add: r_def)
  have run: "{?p..<?p + k} \<subseteq> mask_set cm"
  proof
    fix j assume "j \<in> {?p..<?p + k}"
    then have j: "j - ?p < k" "?p \<le> j" by auto
    have "j = 64 * i + (r + (j - ?p))" "r + (j - ?p) < 64" using j le p by linarith+
    then have d: "j div 64 = i" "j mod 64 = r + (j - ?p)" using split64 by blast+
    then show "j \<in> mask_set cm" using on [OF j(1)] 1(4) mr by (simp add: mask_set_iff bit_drop_bit_eq)
  qed
  show ?case
  proof (cases "(?p + k) mod 64 = 0")
    case False
    have pk: "?p + k = 64 * i + (r + k)" using p by linarith
    have "r + k \<noteq> 64"
    proof
      assume "r + k = 64"
      then have "?p + k = 64 * i + 64" using pk by simp
      then show False using False by simp
    qed
    then have "r + k < 64" using le by linarith
    then have d: "(?p + k) div 64 = i" "(?p + k) mod 64 = r + k" "?p + k < 512"
      using split64 [OF pk] pk 1(4) by linarith+
    have c: "count_runs cm idx i msk cnt = cnt + k"
    proof -
      have "drop_bit k msk AND 1 \<noteq> 1" using k(4) by (simp add: and_one_eq bit_iff_odd_drop_bit odd_iff_mod_2_eq_one)
      then show ?thesis using False k(2) by (subst count_runs.simps) (simp add: mask_bits add.assoc)
    qed
    have "?p + k \<notin> mask_set cm" using d k(4) mr by (simp add: mask_set_iff bit_drop_bit_eq)
    then show ?thesis using c run d(3) k(1) by (simp add: add.assoc)
  next
    case True
    have pk: "?p + k = 64 * i + (r + k)" using p by linarith
    have "\<not> r + k < 64"
    proof
      assume "r + k < 64"
      then have "(?p + k) mod 64 = r + k" using split64 [OF pk] by blast
      then show False using True k(1) by simp
    qed
    then have d: "?p + k = 64 * (i + 1)" "(?p + k) div 64 = i + 1" using pk le by auto
    show ?thesis
    proof (cases "i + 1 < 8 \<and> bit (cm ! (i + 1)) 0")
      case False
      have "cm ! (i + 1) AND 1 = 1 \<longleftrightarrow> bit (cm ! (i + 1)) 0" by (simp add: and_one_eq bit_0 odd_iff_mod_2_eq_one)
      then have c: "count_runs cm idx i msk cnt = cnt + k"
        using True False k(2) by (subst count_runs.simps) (auto simp: mask_bits add.assoc Let_def)
      have "?p + k \<notin> mask_set cm" using False d(1,2) by (auto simp: mask_set_iff)
      then show ?thesis using c run d(1) k(1) 1(4) by (simp add: add.assoc)
    next
      case again: True
      have a1: "cm ! (i + 1) AND 1 = 1" using again by (simp add: and_one_eq bit_0 odd_iff_mod_2_eq_one)
      have c: "count_runs cm idx i msk cnt = count_runs cm idx (i + 1) (cm ! (i + 1)) (cnt + k)"
        using True again a1 k(2) by (subst count_runs.simps) (simp add: mask_bits add.assoc Let_def)
      have IH: "cnt + k < count_runs cm idx (i + 1) (cm ! (i + 1)) (cnt + k) \<and> idx + count_runs cm idx (i + 1) (cm ! (i + 1)) (cnt + k) \<le> 512 \<and>
        {idx + (cnt + k)..<idx + count_runs cm idx (i + 1) (cm ! (i + 1)) (cnt + k)} \<subseteq> mask_set cm \<and>
        idx + count_runs cm idx (i + 1) (cm ! (i + 1)) (cnt + k) \<notin> mask_set cm"
        by (rule 1(1)) (use True again a1 k(2) d in \<open>auto simp: mask_bits add.assoc\<close>)
      let ?e = "idx + count_runs cm idx (i + 1) (cm ! (i + 1)) (cnt + k)"
      have "{?p..<?e} \<subseteq> {?p..<?p + k} \<union> {idx + (cnt + k)..<?e}" by (auto simp: add.assoc)
      then have "{?p..<?e} \<subseteq> mask_set cm" using run IH by blast
      then show ?thesis using IH unfolding c by simp
    qed
  qed
qed

lemma next_run:
  assumes "idx \<le> 512"
  obtains (none) "mi_commit_mask_next_run cm idx = Some (0, 512)" "\<forall>j \<in> mask_set cm. j < idx"
  | (run) cnt i where "mi_commit_mask_next_run cm idx = Some (cnt, i)" "0 < cnt" "idx \<le> i" "i + cnt \<le> 512"
      "{i..<i + cnt} \<subseteq> mask_set cm" "{idx..<i} \<inter> mask_set cm = {}" "i + cnt \<notin> mask_set cm"
proof -
  have e: "64 * (idx div 64) + idx mod 64 = idx" by simp
  have b: "idx div 64 \<le> 8" "idx mod 64 < 64" using assms by auto
  obtain i' ofs' msk' where f: "find_ones cm (idx div 64) (idx mod 64) 0 = Some (i', ofs', msk')"
    "8 \<le> i' \<and> (\<forall>j \<in> mask_set cm. j < idx) \<or>
     i' < 8 \<and> ofs' < 64 \<and> msk' = drop_bit ofs' (cm ! i') \<and> bit msk' 0 \<and> idx \<le> 64 * i' + ofs' \<and>
     (\<forall>j. idx \<le> j \<and> j < 64 * i' + ofs' \<longrightarrow> j \<notin> mask_set cm)"
    using find_ones_first [OF b, of cm 0, unfolded e] by blast
  show ?thesis
  proof (cases "8 \<le> i'")
    case True
    then have "mi_commit_mask_next_run cm idx = Some (0, 512)" using f(1) by (simp add: mi_commit_mask_next_run_def mask_bits)
    moreover have "\<forall>j \<in> mask_set cm. j < idx" using f(2) True by auto
    ultimately show ?thesis by (rule none)
  next
    case False
    let ?i = "64 * i' + ofs'"
    let ?c = "count_runs cm ?i i' msk' 0"
    have g: "ofs' < 64" "msk' = drop_bit ofs' (cm ! i')" "bit msk' 0" "idx \<le> ?i" "\<forall>j. idx \<le> j \<and> j < ?i \<longrightarrow> j \<notin> mask_set cm"
      using f(2) False by auto
    have c: "0 < ?c \<and> ?i + ?c \<le> 512 \<and> {?i + 0..<?i + ?c} \<subseteq> mask_set cm \<and> ?i + ?c \<notin> mask_set cm"
      by (rule count_runs_end) (use g False in auto)
    have "mi_commit_mask_next_run cm idx = Some (?c, ?i)"
      using f(1) False by (simp add: mi_commit_mask_next_run_def mask_bits mult.commute Let_def)
    then show ?thesis by (rule run) (use c g in auto)
  qed
qed

section \<open>Properties\<close>

text \<open>
  (C40) The operations on commit masks are those on sets of chunks: intersection, difference, union, inclusion and overlap
  tests, the empty and the full mask, and a mask created for a range holds exactly the chunks of the range, whatever fields
  it crosses; the committed size is the size of a chunk times the number of chunks.
\<close>

theorem commit_masks_are_sets:
  assumes "idx + cnt \<le> 512"
  shows "mask_set (mi_commit_mask_create idx cnt) = {idx..<idx + cnt} \<and>
    mask_set (mi_commit_mask_create_intersect a b) = mask_set a \<inter> mask_set b \<and>
    mask_set (mi_commit_mask_clear a b) = mask_set a - mask_set b \<and>
    mask_set (mi_commit_mask_set a b) = mask_set a \<union> mask_set b \<and>
    mi_commit_mask_all_set a b = (mask_set b \<subseteq> mask_set a) \<and>
    mi_commit_mask_any_set a b = (mask_set a \<inter> mask_set b \<noteq> {}) \<and>
    mi_commit_mask_is_empty a = (mask_set a = {}) \<and> mi_commit_mask_is_full a = (mask_set a = {..<512}) \<and>
    mi_commit_mask_committed_size a tot = (tot div 512) * word_of_nat (card (mask_set a))"
  by (intro conjI mask_set_create [OF assms] mask_set_intersect mask_set_clear mask_set_set mask_all_set mask_any_set
      mask_is_empty mask_is_full committed_size_card)

theorem commit_masks_are_sets_witness:
  "mask_set (mi_commit_mask_create 60 10) = {60..<70}"
  using commit_masks_are_sets [of 60 10 mi_commit_mask_create_empty mi_commit_mask_create_empty 0] by simp

text \<open>
  The search for the next run always returns: it gives the first chunk of the mask at or after the index together with
  the length of the maximal run that starts there, across the boundaries of fields, or the end of the mask if no chunk is left.
\<close>

theorem next_run_maximal:
  assumes "idx \<le> 512"
  shows "\<exists>cnt i. mi_commit_mask_next_run cm idx = Some (cnt, i) \<and>
    (if mask_set cm \<inter> {idx..} = {} then cnt = 0 \<and> i = 512
     else 0 < cnt \<and> idx \<le> i \<and> mask_set cm \<inter> {idx..<i} = {} \<and> {i..<i + cnt} \<subseteq> mask_set cm \<and> i + cnt \<notin> mask_set cm)"
proof (rule next_run [OF assms, of cm])
  assume "mi_commit_mask_next_run cm idx = Some (0, 512)" "\<forall>j \<in> mask_set cm. j < idx"
  then show ?thesis by force
next
  fix cnt i
  assume r: "mi_commit_mask_next_run cm idx = Some (cnt, i)" "0 < cnt" "idx \<le> i" "i + cnt \<le> 512"
      "{i..<i + cnt} \<subseteq> mask_set cm" "{idx..<i} \<inter> mask_set cm = {}" "i + cnt \<notin> mask_set cm"
  have "i \<in> mask_set cm \<inter> {idx..}" using r(2,3,5) by auto
  then show ?thesis using r by (intro exI [of _ cnt] exI [of _ i]) (auto simp: Int_commute)
qed

theorem next_run_maximal_witness:
  "\<exists>cnt i. mi_commit_mask_next_run (mi_commit_mask_create 60 10) 0 = Some (cnt, i) \<and> 0 < cnt"
proof -
  have s: "mask_set (mi_commit_mask_create 60 10) = {60..<70}" using mask_set_create [of 60 10] by simp
  then have "mask_set (mi_commit_mask_create 60 10) \<inter> {0..} \<noteq> {}" by auto
  then show ?thesis using next_run_maximal [of 0 "mi_commit_mask_create 60 10"] by (auto split: if_splits)
qed

end
