(* ===== verification/Mi_Segment.thy ===== *)
theory Mi_Segment
  imports Mi_Page Mi_Commit_Mask
begin

text \<open>
  The segments of mimalloc, \<^verbatim>\<open>src/segment.c\<close>: slices, span queues, committing and purging of ranges, the allocation and release of
  spans, and the creation of segments. A slice is a page structure in the array at the start of its segment
  and is named by its address; the sizes in this array are those of a 64-bit build without encoded free lists. The layers below, the
  system and the arenas, are an oracle: it answers the calls to commit and to purge, gives the memory of new segments and tells the
  time; its calls are logged, which tells what memory is committed. The lists of abandoned segments, which the threads share, are part of
  the state. A function that runs a loop of no fixed length has an option result.
\<close>

section \<open>Segments\<close>

datatype mi_segment_kind_t = MI_SEGMENT_NORMAL | MI_SEGMENT_HUGE

text \<open>The fields of a segment that these functions use, without the array of slices. Times are in milliseconds.\<close>

record mi_segment_t =
  sg_memid :: mi_memid_t
  allow_decommit :: bool
  allow_purge :: bool
  purge_expire :: int
  purge_mask :: mi_commit_mask_t
  commit_mask :: mi_commit_mask_t
  sg_abandoned :: size_t
  sg_used :: size_t
  segment_slices :: size_t
  segment_info_slices :: size_t
  sg_kind :: mi_segment_kind_t
  slice_entries :: size_t
  thread_id :: size_t
  abandoned_next :: addr
  abandoned_visits :: size_t

record mi_span_queue_t =
  sq_first :: addr
  sq_last :: addr
  sq_slice_count :: size_t

text \<open>
  The calls to the layers below: the last argument of a commit tells whether it succeeded, that of a purge whether the memory
  was decommitted, and that of an allocation whether the memory is committed from the start.
\<close>

datatype os_call =
    Os_Commit addr size_t bool
  | Os_Purge addr size_t bool
  | Os_Reset addr size_t
  | Os_Protect addr size_t
  | Os_Unprotect addr size_t
  | Arena_Alloc addr size_t bool
  | Arena_Free addr size_t size_t

text \<open>
  \<open>spans\<close> to \<open>tld_peak_size\<close> are the fields of \<open>mi_segments_tld_t\<close>, \<open>abandoned\<close> to \<open>abandoned_readers\<close> the global variables of the lists of
  abandoned segments. \<open>ticks\<close> counts the readings of the clock and the atomic accesses.
\<close>

record segs_state =
  segment_at :: "addr \<Rightarrow> mi_segment_t"
  slice_at :: "addr \<Rightarrow> mi_page_t"
  spans :: "mi_span_queue_t list"
  tld_count :: size_t
  tld_peak_count :: size_t
  tld_current_size :: size_t
  tld_peak_size :: size_t
  abandoned :: addr
  abandoned_visited :: addr
  abandoned_count :: size_t
  abandoned_visited_count :: size_t
  abandoned_readers :: size_t
  os_log :: "os_call list"
  ticks :: nat

text \<open>
  What the layers below answer, the time, the options, the running thread, and \<open>MI_SECURE\<close>. The number given to an oracle is that
  of the calls so far. \<open>seg_others\<close> is what the other threads do before an atomic access, \<open>seg_spurious\<close> tells which weak exchanges
  fail without reason.
\<close>

record os_env =
  os_commit_ok :: "nat \<Rightarrow> bool"
  os_decommits :: "nat \<Rightarrow> bool"
  os_now :: "nat \<Rightarrow> int"
  purge_delay :: int
  purge_extend_delay :: int
  page_reset :: bool
  arena_alloc :: "nat \<Rightarrow> size_t \<Rightarrow> size_t \<Rightarrow> size_t \<Rightarrow> bool \<Rightarrow> bool \<Rightarrow> int \<Rightarrow> addr \<times> mi_memid_t"
  os_page_size :: size_t
  mi_secure :: nat
  thread_count :: nat
  current_thread :: size_t
  eager_commit :: bool
  eager_commit_delay :: size_t
  abandoned_page_purge :: bool
  max_segment_reclaim :: int
  seg_others :: "nat \<Rightarrow> segs_state \<Rightarrow> segs_state"
  seg_spurious :: "nat \<Rightarrow> bool"

definition mi_clock_now :: "os_env \<Rightarrow> segs_state \<Rightarrow> int \<times> segs_state" where
  "mi_clock_now env st = (os_now env (ticks st), st\<lparr>ticks := ticks st + 1\<rparr>)"

definition mi_os_commit :: "os_env \<Rightarrow> addr \<Rightarrow> size_t \<Rightarrow> segs_state \<Rightarrow> bool \<times> segs_state" where
  "mi_os_commit env p sz st =
     (let ok = os_commit_ok env (length (os_log st)) in (ok, st\<lparr>os_log := Os_Commit p sz ok # os_log st\<rparr>))"

definition mi_os_purge :: "os_env \<Rightarrow> addr \<Rightarrow> size_t \<Rightarrow> segs_state \<Rightarrow> bool \<times> segs_state" where
  "mi_os_purge env p sz st =
     (let decommitted = os_decommits env (length (os_log st)) in (decommitted, st\<lparr>os_log := Os_Purge p sz decommitted # os_log st\<rparr>))"

definition mi_os_reset :: "addr \<Rightarrow> size_t \<Rightarrow> segs_state \<Rightarrow> segs_state" where
  "mi_os_reset p sz st = st\<lparr>os_log := Os_Reset p sz # os_log st\<rparr>"

definition mi_os_protect :: "addr \<Rightarrow> size_t \<Rightarrow> segs_state \<Rightarrow> segs_state" where
  "mi_os_protect p sz st = st\<lparr>os_log := Os_Protect p sz # os_log st\<rparr>"

definition mi_os_unprotect :: "addr \<Rightarrow> size_t \<Rightarrow> segs_state \<Rightarrow> segs_state" where
  "mi_os_unprotect p sz st = st\<lparr>os_log := Os_Unprotect p sz # os_log st\<rparr>"

definition mi_arena_free :: "addr \<Rightarrow> size_t \<Rightarrow> size_t \<Rightarrow> segs_state \<Rightarrow> segs_state" where
  "mi_arena_free p sz committed_size st = st\<lparr>os_log := Arena_Free p sz committed_size # os_log st\<rparr>"

definition MI_SLICES_PER_SEGMENT :: nat where
  "MI_SLICES_PER_SEGMENT = unat (MI_SEGMENT_SIZE div MI_SEGMENT_SLICE_SIZE)"

definition MI_ALIGNMENT_MAX :: size_t where
  "MI_ALIGNMENT_MAX = drop_bit 1 MI_SEGMENT_SIZE"

definition MI_MAX_SLICE_OFFSET :: nat where
  "MI_MAX_SLICE_OFFSET = unat (MI_ALIGNMENT_MAX div MI_SEGMENT_SLICE_SIZE) - 1"

definition MI_SEGMENT_BIN_MAX :: nat where
  "MI_SEGMENT_BIN_MAX = 35"

definition SQNULL :: "nat \<Rightarrow> mi_span_queue_t" where
  "SQNULL sz = \<lparr>sq_first = 0, sq_last = 0, sq_slice_count = word_of_nat sz\<rparr>"

definition MI_SEGMENT_SPAN_QUEUES_EMPTY :: "mi_span_queue_t list" where
  "MI_SEGMENT_SPAN_QUEUES_EMPTY = map SQNULL
     [1,
      1, 2, 3, 4, 5, 6, 7, 10,
      12, 14, 16, 20, 24, 28, 32, 40,
      48, 56, 64, 80, 96, 112, 128, 160,
      192, 224, 256, 320, 384, 448, 512, 640,
      768, 896, 1024]"

section \<open>Slices\<close>

definition sizeof_mi_slice_t :: size_t where
  "sizeof_mi_slice_t = 80"

definition offsetof_slices :: size_t where
  "offsetof_slices = 264"

text \<open>\<open>&segment->slices[i]\<close>\<close>

definition slice_addr :: "addr \<Rightarrow> size_t \<Rightarrow> addr" where
  "slice_addr segment i = segment + offsetof_slices + sizeof_mi_slice_t * i"

definition set_slice :: "addr \<Rightarrow> (mi_page_t \<Rightarrow> mi_page_t) \<Rightarrow> segs_state \<Rightarrow> segs_state" where
  "set_slice s f st = st\<lparr>slice_at := (slice_at st)(s := f (slice_at st s))\<rparr>"

definition set_segment :: "addr \<Rightarrow> (mi_segment_t \<Rightarrow> mi_segment_t) \<Rightarrow> segs_state \<Rightarrow> segs_state" where
  "set_segment s f st = st\<lparr>segment_at := (segment_at st)(s := f (segment_at st s))\<rparr>"

definition set_span :: "nat \<Rightarrow> (mi_span_queue_t \<Rightarrow> mi_span_queue_t) \<Rightarrow> segs_state \<Rightarrow> segs_state" where
  "set_span q f st = st\<lparr>spans := (spans st)[q := f (spans st ! q)]\<rparr>"

definition mi_segment_slices_end :: "addr \<Rightarrow> segs_state \<Rightarrow> addr" where
  "mi_segment_slices_end segment st = slice_addr segment (slice_entries (segment_at st segment))"

definition mi_slice_index :: "addr \<Rightarrow> size_t" where
  "mi_slice_index slc = (slc - (mi_ptr_segment slc + offsetof_slices)) div sizeof_mi_slice_t"

definition mi_slice_start :: "addr \<Rightarrow> addr" where
  "mi_slice_start slc =
     (let segment = mi_ptr_segment slc
      in segment + ((slc - (segment + offsetof_slices)) div sizeof_mi_slice_t) * MI_SEGMENT_SLICE_SIZE)"

definition mi_slice_first :: "addr \<Rightarrow> segs_state \<Rightarrow> addr" where
  "mi_slice_first slc st = slc - ucast (slice_offset (slice_at st slc))"

definition mi_segment_page_of :: "addr \<Rightarrow> addr \<Rightarrow> segs_state \<Rightarrow> addr" where
  "mi_segment_page_of segment p st =
     (let diff = p - segment;
          idx = drop_bit MI_SEGMENT_SLICE_SHIFT diff;
          slice0 = slice_addr segment idx
      in mi_slice_first slice0 st)"

definition mi_ptr_page :: "addr \<Rightarrow> segs_state \<Rightarrow> addr" where
  "mi_ptr_page p st = mi_segment_page_of (mi_ptr_segment p) p st"

section \<open>Bins and span queues\<close>

definition mi_slice_bin8 :: "size_t \<Rightarrow> size_t" where
  "mi_slice_bin8 slice_cnt =
     (if slice_cnt \<le> 1 then slice_cnt
      else
        (let slice_cnt = slice_cnt - 1;
             s = word_of_nat (mi_bsr slice_cnt) :: size_t
         in if s \<le> 2 then slice_cnt + 1
            else (push_bit 2 s OR (drop_bit (unat (s - 2)) slice_cnt AND 0x03)) - 4))"

definition mi_slice_bin :: "size_t \<Rightarrow> size_t" where
  "mi_slice_bin slice_cnt = mi_slice_bin8 slice_cnt"

definition mi_span_queue_push :: "nat \<Rightarrow> addr \<Rightarrow> segs_state \<Rightarrow> segs_state" where
  "mi_span_queue_push sq slc st =
     (let st = set_slice slc (\<lambda>s. s\<lparr>page_prev := 0\<rparr>) st;
          st = set_slice slc (\<lambda>s. s\<lparr>page_next := sq_first (spans st ! sq)\<rparr>) st;
          st = set_span sq (\<lambda>q. q\<lparr>sq_first := slc\<rparr>) st;
          st = (if page_next (slice_at st slc) \<noteq> 0
                then set_slice (page_next (slice_at st slc)) (\<lambda>s. s\<lparr>page_prev := slc\<rparr>) st
                else set_span sq (\<lambda>q. q\<lparr>sq_last := slc\<rparr>) st)
      in set_slice slc (\<lambda>s. s\<lparr>xblock_size := 0\<rparr>) st)"

definition mi_span_queue_for :: "size_t \<Rightarrow> nat" where
  "mi_span_queue_for slice_cnt = unat (mi_slice_bin slice_cnt)"

definition mi_span_queue_delete :: "nat \<Rightarrow> addr \<Rightarrow> segs_state \<Rightarrow> segs_state" where
  "mi_span_queue_delete sq slc st =
     (let st = (if page_prev (slice_at st slc) \<noteq> 0
                then set_slice (page_prev (slice_at st slc)) (\<lambda>s. s\<lparr>page_next := page_next (slice_at st slc)\<rparr>) st else st);
          st = (if slc = sq_first (spans st ! sq)
                then set_span sq (\<lambda>q. q\<lparr>sq_first := page_next (slice_at st slc)\<rparr>) st else st);
          st = (if page_next (slice_at st slc) \<noteq> 0
                then set_slice (page_next (slice_at st slc)) (\<lambda>s. s\<lparr>page_prev := page_prev (slice_at st slc)\<rparr>) st else st);
          st = (if slc = sq_last (spans st ! sq)
                then set_span sq (\<lambda>q. q\<lparr>sq_last := page_prev (slice_at st slc)\<rparr>) st else st);
          st = set_slice slc (\<lambda>s. s\<lparr>page_prev := 0\<rparr>) st;
          st = set_slice slc (\<lambda>s. s\<lparr>page_next := 0\<rparr>) st
      in set_slice slc (\<lambda>s. s\<lparr>xblock_size := 1\<rparr>) st)"

definition mi_slice_is_used :: "mi_page_t \<Rightarrow> bool" where
  "mi_slice_is_used slc \<longleftrightarrow> xblock_size slc > 0"

section \<open>Sizes\<close>

definition mi_segment_info_size :: "mi_segment_t \<Rightarrow> size_t" where
  "mi_segment_info_size sg = segment_info_slices sg * MI_SEGMENT_SLICE_SIZE"

definition mi_segment_size :: "mi_segment_t \<Rightarrow> size_t" where
  "mi_segment_size sg = segment_slices sg * MI_SEGMENT_SLICE_SIZE"

text \<open>The start of the page and the value of \<open>*page_size\<close>.\<close>

definition mi_segment_page_start_from_slice :: "addr \<Rightarrow> addr \<Rightarrow> size_t \<Rightarrow> segs_state \<Rightarrow> addr \<times> size_t" where
  "mi_segment_page_start_from_slice segment slc block_size st =
     (let idx = (slc - (segment + offsetof_slices)) div sizeof_mi_slice_t;
          psize = ucast (slice_count (slice_at st slc)) * MI_SEGMENT_SLICE_SIZE;
          start_offset =
            (if block_size \<ge> 8
             then (if block_size \<le> 64 then 3 * block_size else if block_size \<le> 512 then block_size else 0)
             else 0)
      in (segment + (idx * MI_SEGMENT_SLICE_SIZE + start_offset), psize - start_offset))"

definition mi_segment_page_start :: "addr \<Rightarrow> addr \<Rightarrow> segs_state \<Rightarrow> addr \<times> size_t" where
  "mi_segment_page_start segment pg st =
     mi_segment_page_start_from_slice segment pg (ucast (xblock_size (slice_at st pg))) st"

text \<open>
  \<open>secure\<close> is \<open>MI_SECURE\<close> and \<open>sizeof_segment\<close> is \<open>sizeof(mi_segment_t)\<close>. The results are the slices of the segment, \<open>*pre_size\<close> and
  \<open>*info_slices\<close>.
\<close>

definition mi_segment_calculate_slices :: "nat \<Rightarrow> size_t \<Rightarrow> size_t \<Rightarrow> size_t \<Rightarrow> size_t \<times> size_t \<times> size_t" where
  "mi_segment_calculate_slices secure page_size sizeof_segment required =
     (let isize = mi_align_up sizeof_segment page_size;
          guardsize = (if secure > 0 then page_size else 0);
          required = (if secure > 0 \<and> required > 0 then mi_align_up required MI_SEGMENT_SLICE_SIZE + page_size else required);
          pre_size = isize;
          isize = mi_align_up (isize + guardsize) MI_SEGMENT_SLICE_SIZE;
          info_slices = isize div MI_SEGMENT_SLICE_SIZE;
          segment_size = (if required = 0 then MI_SEGMENT_SIZE else mi_align_up (required + isize + guardsize) MI_SEGMENT_SLICE_SIZE)
      in (segment_size div MI_SEGMENT_SLICE_SIZE, pre_size, info_slices))"

text \<open>\<open>long\<close> has 64 bits; the sign of the argument tells whether a segment comes or goes.\<close>

definition mi_segments_track_size :: "64 word \<Rightarrow> segs_state \<Rightarrow> segs_state" where
  "mi_segments_track_size sz st =
     (let st = st\<lparr>tld_count := tld_count st + (if sint sz \<ge> 0 then 1 else - 1)\<rparr>;
          st = (if tld_count st > tld_peak_count st then st\<lparr>tld_peak_count := tld_count st\<rparr> else st);
          st = st\<lparr>tld_current_size := tld_current_size st + sz\<rparr>
      in if tld_current_size st > tld_peak_size st then st\<lparr>tld_peak_size := tld_current_size st\<rparr> else st)"

section \<open>Committing and purging\<close>

text \<open>The results are \<open>*start_p\<close>, \<open>*full_size\<close> and the mask; the callers pass a null pointer and zero in.\<close>

definition mi_segment_commit_mask :: "addr \<Rightarrow> mi_segment_t \<Rightarrow> bool \<Rightarrow> addr \<Rightarrow> size_t \<Rightarrow> addr \<times> size_t \<times> mi_commit_mask_t" where
  "mi_segment_commit_mask segment sg conservative p sz =
     (if sz = 0 \<or> sz > MI_SEGMENT_SIZE \<or> sg_kind sg = MI_SEGMENT_HUGE then (0, 0, mi_commit_mask_create_empty)
      else
        (let segstart = mi_segment_info_size sg;
             segsize = mi_segment_size sg
         in if p \<ge> segment + segsize then (0, 0, mi_commit_mask_create_empty)
            else
              (let pstart = p - segment;
                   start = (if conservative then mi_align_up pstart MI_COMMIT_SIZE else mi_align_down pstart MI_MINIMAL_COMMIT_SIZE);
                   end_ofs = (if conservative then mi_align_down (pstart + sz) MI_COMMIT_SIZE
                              else mi_align_up (pstart + sz) MI_MINIMAL_COMMIT_SIZE);
                   start = (if pstart \<ge> segstart \<and> start < segstart then segstart else start);
                   end_ofs = (if end_ofs > segsize then segsize else end_ofs);
                   full_size = (if end_ofs > start then end_ofs - start else 0)
               in if full_size = 0 then (segment + start, full_size, mi_commit_mask_create_empty)
                  else
                    (let bitidx = unat (start div MI_COMMIT_SIZE);
                         bitcount = unat (full_size div MI_COMMIT_SIZE)
                     in (segment + start, full_size, mi_commit_mask_create bitidx bitcount)))))"

definition mi_segment_commit :: "os_env \<Rightarrow> addr \<Rightarrow> addr \<Rightarrow> size_t \<Rightarrow> segs_state \<Rightarrow> bool \<times> segs_state" where
  "mi_segment_commit env segment p sz st =
     (let (start, full_size, msk) = mi_segment_commit_mask segment (segment_at st segment) False p sz
      in if mi_commit_mask_is_empty msk \<or> full_size = 0 then (True, st)
         else
           (let (ok, st) =
              (if \<not> mi_commit_mask_all_set (commit_mask (segment_at st segment)) msk then
                 (let (ok, st) = mi_os_commit env start full_size st
                  in if \<not> ok then (False, st)
                     else (True, set_segment segment (\<lambda>sg. sg\<lparr>commit_mask := mi_commit_mask_set (commit_mask sg) msk\<rparr>) st))
               else (True, st))
            in if \<not> ok then (False, st)
               else
                 (let st =
                    (if mi_commit_mask_any_set (purge_mask (segment_at st segment)) msk then
                       (let (now, st) = mi_clock_now env st
                        in set_segment segment (\<lambda>sg. sg\<lparr>purge_expire := now + purge_delay env\<rparr>) st)
                     else st)
                  in (True, set_segment segment (\<lambda>sg. sg\<lparr>purge_mask := mi_commit_mask_clear (purge_mask sg) msk\<rparr>) st))))"

definition mi_segment_ensure_committed :: "os_env \<Rightarrow> addr \<Rightarrow> addr \<Rightarrow> size_t \<Rightarrow> segs_state \<Rightarrow> bool \<times> segs_state" where
  "mi_segment_ensure_committed env segment p sz st =
     (if mi_commit_mask_is_full (commit_mask (segment_at st segment)) \<and> mi_commit_mask_is_empty (purge_mask (segment_at st segment))
      then (True, st)
      else mi_segment_commit env segment p sz st)"

text \<open>The result of \<open>mi_segment_purge\<close> is always true.\<close>

definition mi_segment_purge :: "os_env \<Rightarrow> addr \<Rightarrow> addr \<Rightarrow> size_t \<Rightarrow> segs_state \<Rightarrow> segs_state" where
  "mi_segment_purge env segment p sz st =
     (if \<not> allow_purge (segment_at st segment) then st
      else
        (let (start, full_size, msk) = mi_segment_commit_mask segment (segment_at st segment) True p sz
         in if mi_commit_mask_is_empty msk \<or> full_size = 0 then st
            else
              (let st =
                 (if mi_commit_mask_any_set (commit_mask (segment_at st segment)) msk then
                    (let (decommitted, st) = mi_os_purge env start full_size st
                     in if decommitted
                        then set_segment segment (\<lambda>sg. sg\<lparr>commit_mask := mi_commit_mask_clear (commit_mask sg) msk\<rparr>) st
                        else st)
                  else st)
               in set_segment segment (\<lambda>sg. sg\<lparr>purge_mask := mi_commit_mask_clear (purge_mask sg) msk\<rparr>) st)))"

text \<open>The loop over the runs of the mask.\<close>

partial_function (option) purge_runs :: "os_env \<Rightarrow> addr \<Rightarrow> mi_commit_mask_t \<Rightarrow> nat \<Rightarrow> segs_state \<Rightarrow> segs_state option" where
  "purge_runs env segment msk idx st =
     Option.bind (mi_commit_mask_next_run msk idx)
       (\<lambda>(cnt, idx).
         if cnt > 0 then
           (let p = segment + word_of_nat idx * MI_COMMIT_SIZE;
                sz = word_of_nat cnt * MI_COMMIT_SIZE;
                st = mi_segment_purge env segment p sz st
            in purge_runs env segment msk (idx + cnt) st)
         else Some st)"

definition mi_segment_try_purge :: "os_env \<Rightarrow> addr \<Rightarrow> bool \<Rightarrow> segs_state \<Rightarrow> segs_state option" where
  "mi_segment_try_purge env segment force st =
     (if \<not> allow_purge (segment_at st segment) \<or> mi_commit_mask_is_empty (purge_mask (segment_at st segment)) then Some st
      else
        (let (now, st) = mi_clock_now env st
         in if \<not> force \<and> now < purge_expire (segment_at st segment) then Some st
            else
              (let msk = purge_mask (segment_at st segment);
                   st = set_segment segment (\<lambda>sg. sg\<lparr>purge_expire := 0\<rparr>) st;
                   st = set_segment segment (\<lambda>sg. sg\<lparr>purge_mask := mi_commit_mask_create_empty\<rparr>) st
               in purge_runs env segment msk 0 st)))"

definition mi_segment_schedule_purge :: "os_env \<Rightarrow> addr \<Rightarrow> addr \<Rightarrow> size_t \<Rightarrow> segs_state \<Rightarrow> segs_state option" where
  "mi_segment_schedule_purge env segment p sz st =
     (if \<not> allow_purge (segment_at st segment) then Some st
      else if purge_delay env = 0 then Some (mi_segment_purge env segment p sz st)
      else
        (let (start, full_size, msk) = mi_segment_commit_mask segment (segment_at st segment) True p sz
         in if mi_commit_mask_is_empty msk \<or> full_size = 0 then Some st
            else
              (let cmask = mi_commit_mask_create_intersect (commit_mask (segment_at st segment)) msk;
                   st = set_segment segment (\<lambda>sg. sg\<lparr>purge_mask := mi_commit_mask_set (purge_mask sg) cmask\<rparr>) st;
                   (now, st) = mi_clock_now env st;
                   expire = purge_expire (segment_at st segment)
               in if expire = 0
                  then Some (set_segment segment (\<lambda>sg. sg\<lparr>purge_expire := now + purge_delay env\<rparr>) st)
                  else if expire \<le> now then
                    (if expire + purge_extend_delay env \<le> now then mi_segment_try_purge env segment True st
                     else Some (set_segment segment (\<lambda>sg. sg\<lparr>purge_expire := now + purge_extend_delay env\<rparr>) st))
                  else Some (set_segment segment (\<lambda>sg. sg\<lparr>purge_expire := purge_expire sg + purge_extend_delay env\<rparr>) st))))"

section \<open>Freeing spans\<close>

definition mi_segment_is_abandoned :: "mi_segment_t \<Rightarrow> bool" where
  "mi_segment_is_abandoned sg \<longleftrightarrow> thread_id sg = 0"

definition mi_segment_span_free :: "os_env \<Rightarrow> addr \<Rightarrow> size_t \<Rightarrow> size_t \<Rightarrow> bool \<Rightarrow> segs_state \<Rightarrow> segs_state option" where
  "mi_segment_span_free env segment slice_index slice_cnt purge st =
     (let sq = (if sg_kind (segment_at st segment) = MI_SEGMENT_HUGE \<or> mi_segment_is_abandoned (segment_at st segment)
                then None else Some (mi_span_queue_for slice_cnt));
          slice_cnt = (if slice_cnt = 0 then 1 else slice_cnt);
          slc = slice_addr segment slice_index;
          st = set_slice slc (\<lambda>s. s\<lparr>slice_count := ucast slice_cnt\<rparr>) st;
          st = set_slice slc (\<lambda>s. s\<lparr>slice_offset := 0\<rparr>) st;
          st = (if slice_cnt > 1
                then set_slice (slice_addr segment (slice_index + slice_cnt - 1))
                       (\<lambda>s. s\<lparr>slice_count := 0, slice_offset := ucast (sizeof_mi_slice_t * (slice_cnt - 1)), xblock_size := 0\<rparr>) st
                else st)
      in Option.bind
        (if purge then mi_segment_schedule_purge env segment (mi_slice_start slc) (slice_cnt * MI_SEGMENT_SLICE_SIZE) st else Some st)
        (\<lambda>st. Some (case sq of
            Some sq \<Rightarrow> mi_span_queue_push sq slc st
          | None \<Rightarrow> set_slice slc (\<lambda>s. s\<lparr>xblock_size := 0\<rparr>) st)))"

definition mi_segment_span_remove_from_queue :: "addr \<Rightarrow> segs_state \<Rightarrow> segs_state" where
  "mi_segment_span_remove_from_queue slc st =
     (let sq = mi_span_queue_for (ucast (slice_count (slice_at st slc))) in mi_span_queue_delete sq slc st)"

definition mi_segment_span_free_coalesce :: "os_env \<Rightarrow> addr \<Rightarrow> segs_state \<Rightarrow> (addr \<times> segs_state) option" where
  "mi_segment_span_free_coalesce env slc st =
     (let segment = mi_ptr_segment slc;
          is_abandoned = mi_segment_is_abandoned (segment_at st segment)
      in if sg_kind (segment_at st segment) = MI_SEGMENT_HUGE
         then Some (slc, set_slice slc (\<lambda>s. s\<lparr>xblock_size := 0\<rparr>) st)
         else
           (let slice_cnt = ucast (slice_count (slice_at st slc)) :: size_t;
                next = slc + sizeof_mi_slice_t * slice_cnt;
                (slice_cnt, st) =
                  (if next < mi_segment_slices_end segment st \<and> xblock_size (slice_at st next) = 0
                   then (slice_cnt + ucast (slice_count (slice_at st next)),
                         if \<not> is_abandoned then mi_segment_span_remove_from_queue next st else st)
                   else (slice_cnt, st));
                (slc, slice_cnt, st) =
                  (if slc > slice_addr segment 0 then
                     (let prev = mi_slice_first (slc - sizeof_mi_slice_t) st
                      in if xblock_size (slice_at st prev) = 0
                         then (prev, slice_cnt + ucast (slice_count (slice_at st prev)),
                               if \<not> is_abandoned then mi_segment_span_remove_from_queue prev st else st)
                         else (slc, slice_cnt, st))
                   else (slc, slice_cnt, st))
            in Option.bind (mi_segment_span_free env segment (mi_slice_index slc) slice_cnt True st)
              (\<lambda>st. Some (slc, st))))"

section \<open>Allocating spans\<close>

text \<open>The null pointer is returned if the memory could not be committed.\<close>

definition mi_segment_span_allocate :: "os_env \<Rightarrow> addr \<Rightarrow> size_t \<Rightarrow> size_t \<Rightarrow> segs_state \<Rightarrow> addr \<times> segs_state" where
  "mi_segment_span_allocate env segment slice_index slice_cnt st =
     (let slc = slice_addr segment slice_index;
          (ok, st) = mi_segment_ensure_committed env segment (fst (mi_segment_page_start_from_slice segment slc 0 st))
                       (slice_cnt * MI_SEGMENT_SLICE_SIZE) st
      in if \<not> ok then (0, st)
         else
           (let st = set_slice slc (\<lambda>s. s\<lparr>slice_offset := 0\<rparr>) st;
                st = set_slice slc (\<lambda>s. s\<lparr>slice_count := ucast slice_cnt\<rparr>) st;
                bsize = slice_cnt * MI_SEGMENT_SLICE_SIZE;
                st = set_slice slc (\<lambda>s. s\<lparr>xblock_size := (if bsize \<ge> ucast MI_HUGE_BLOCK_SIZE then MI_HUGE_BLOCK_SIZE else ucast bsize)\<rparr>) st;
                extra = slice_cnt - 1;
                extra = (if extra > word_of_nat MI_MAX_SLICE_OFFSET then word_of_nat MI_MAX_SLICE_OFFSET else extra);
                entries = slice_entries (segment_at st segment);
                extra = (if slice_index + extra \<ge> entries then entries - slice_index - 1 else extra);
                st = fold (\<lambda>i. set_slice (slc + sizeof_mi_slice_t * word_of_nat i)
                            (\<lambda>s. s\<lparr>slice_offset := ucast (sizeof_mi_slice_t * word_of_nat i), slice_count := 0, xblock_size := 1\<rparr>))
                       [1..<unat extra + 1] st;
                last_slice = slc + sizeof_mi_slice_t * (slice_cnt - 1);
                end_slice = mi_segment_slices_end segment st;
                last_slice = (if last_slice > end_slice then end_slice else last_slice);
                st = (if last_slice > slc
                      then set_slice last_slice (\<lambda>s. s\<lparr>slice_offset := ucast (last_slice - slc), slice_count := 0, xblock_size := 1\<rparr>) st
                      else st);
                st = set_slice slc (\<lambda>s. s\<lparr>is_committed := True\<rparr>) st;
                st = set_segment segment (\<lambda>sg. sg\<lparr>sg_used := sg_used sg + 1\<rparr>) st
            in (slc, st)))"

definition mi_segment_slice_split :: "os_env \<Rightarrow> addr \<Rightarrow> addr \<Rightarrow> size_t \<Rightarrow> segs_state \<Rightarrow> segs_state option" where
  "mi_segment_slice_split env segment slc slice_cnt st =
     (if ucast (slice_count (slice_at st slc)) \<le> slice_cnt then Some st
      else
        (let next_index = mi_slice_index slc + slice_cnt;
             next_count = ucast (slice_count (slice_at st slc)) - slice_cnt
         in Option.bind (mi_segment_span_free env segment next_index next_count False st)
           (\<lambda>st. Some (set_slice slc (\<lambda>s. s\<lparr>slice_count := ucast slice_cnt\<rparr>) st))))"

definition mi_arena_id_is_suitable :: "int \<Rightarrow> bool \<Rightarrow> int \<Rightarrow> bool" where
  "mi_arena_id_is_suitable arena_id arena_is_exclusive req_arena_id \<longleftrightarrow>
     \<not> arena_is_exclusive \<and> req_arena_id = 0 \<or> arena_id = req_arena_id"

definition mi_arena_memid_is_suitable :: "mi_memid_t \<Rightarrow> int \<Rightarrow> bool" where
  "mi_arena_memid_is_suitable memid request_arena_id =
     (case (memkind memid, mem memid) of
        (MI_MEM_ARENA, Arena_info _ aid excl) \<Rightarrow> mi_arena_id_is_suitable aid excl request_arena_id
      | _ \<Rightarrow> mi_arena_id_is_suitable 0 False request_arena_id)"

text \<open>The walk along one queue; the inner result is the slice that was found.\<close>

partial_function (option) find_in_queue :: "size_t \<Rightarrow> int \<Rightarrow> addr \<Rightarrow> segs_state \<Rightarrow> addr option" where
  "find_in_queue slice_cnt req_arena_id slc st =
     (if slc = 0 then Some 0
      else if ucast (slice_count (slice_at st slc)) \<ge> slice_cnt \<and>
              mi_arena_memid_is_suitable (sg_memid (segment_at st (mi_ptr_segment slc))) req_arena_id
           then Some slc
           else find_in_queue slice_cnt req_arena_id (page_next (slice_at st slc)) st)"

definition allocate_found :: "os_env \<Rightarrow> size_t \<Rightarrow> nat \<Rightarrow> addr \<Rightarrow> segs_state \<Rightarrow> (addr \<times> segs_state) option" where
  "allocate_found env slice_cnt sq slc st =
     (let segment = mi_ptr_segment slc;
          st = mi_span_queue_delete sq slc st
      in Option.bind
        (if ucast (slice_count (slice_at st slc)) > slice_cnt then mi_segment_slice_split env segment slc slice_cnt st else Some st)
        (\<lambda>st. let (pg, st) = mi_segment_span_allocate env segment (mi_slice_index slc) (ucast (slice_count (slice_at st slc))) st
               in if pg = 0 then Option.bind (mi_segment_span_free_coalesce env slc st) (\<lambda>(_, st). Some (0, st))
                  else Some (pg, st)))"

text \<open>The queues from \<open>sq\<close> on; the first argument counts the queues that are left.\<close>

fun find_from_queue :: "nat \<Rightarrow> os_env \<Rightarrow> size_t \<Rightarrow> int \<Rightarrow> nat \<Rightarrow> segs_state \<Rightarrow> (addr \<times> segs_state) option" where
  "find_from_queue 0 env slice_cnt req_arena_id sq st = Some (0, st)"
| "find_from_queue (Suc n) env slice_cnt req_arena_id sq st =
     Option.bind (find_in_queue slice_cnt req_arena_id (sq_first (spans st ! sq)) st)
       (\<lambda>slc. if slc \<noteq> 0 then allocate_found env slice_cnt sq slc st
                 else find_from_queue n env slice_cnt req_arena_id (sq + 1) st)"

definition mi_segments_page_find_and_allocate :: "os_env \<Rightarrow> size_t \<Rightarrow> int \<Rightarrow> segs_state \<Rightarrow> (addr \<times> segs_state) option" where
  "mi_segments_page_find_and_allocate env slice_cnt req_arena_id st =
     (let sq = mi_span_queue_for slice_cnt;
          slice_cnt = (if slice_cnt = 0 then 1 else slice_cnt)
      in find_from_queue (MI_SEGMENT_BIN_MAX + 1 - sq) env slice_cnt req_arena_id sq st)"

section \<open>Allocating segments\<close>

definition sizeof_mi_segment_t :: size_t where
  "sizeof_mi_segment_t = offsetof_slices + sizeof_mi_slice_t * (word_of_nat MI_SLICES_PER_SEGMENT + 1)"

definition zero_slice :: mi_page_t where
  "zero_slice =
     \<lparr>slice_count = 0, slice_offset = 0, is_committed = False, is_zero_init = False, capacity = 0, reserved = 0, in_full = False,
      has_aligned = False, free_is_zero = False, retire_expire = 0, free = 0, used = 0, xblock_size = 0, local_free = 0,
      xthread_free = 0, xheap = 0, page_next = 0, page_prev = 0\<rparr>"

text \<open>The fields behind the commit mask and the slices 0 to \<open>n\<close> are zero.\<close>

definition zero_segment :: "addr \<Rightarrow> nat \<Rightarrow> segs_state \<Rightarrow> segs_state" where
  "zero_segment segment n st =
     fold (\<lambda>i. set_slice (slice_addr segment (word_of_nat i)) (\<lambda>_. zero_slice)) [0..<n + 1]
       (set_segment segment
         (\<lambda>sg. sg\<lparr>sg_abandoned := 0, abandoned_visits := 0, sg_used := 0, segment_slices := 0, segment_info_slices := 0,
            sg_kind := MI_SEGMENT_NORMAL, slice_entries := 0, thread_id := 0\<rparr>) st)"

definition mi_arena_alloc_aligned ::
    "os_env \<Rightarrow> size_t \<Rightarrow> size_t \<Rightarrow> size_t \<Rightarrow> bool \<Rightarrow> bool \<Rightarrow> int \<Rightarrow> segs_state \<Rightarrow> addr \<times> mi_memid_t \<times> segs_state" where
  "mi_arena_alloc_aligned env sz alignment align_offset commit allow_large req_arena_id st =
     (let (p, memid) = arena_alloc env (length (os_log st)) sz alignment align_offset commit allow_large req_arena_id;
          st = st\<lparr>os_log := Arena_Alloc p sz (p \<noteq> 0 \<and> initially_committed memid) # os_log st\<rparr>
      in (p, memid, if p \<noteq> 0 \<and> initially_zero memid then zero_segment p (unat (sz div MI_SEGMENT_SLICE_SIZE)) st else st))"

text \<open>The segment or null, the number of slices, \<open>pre_size\<close> and \<open>info_slices\<close>.\<close>

definition mi_segment_os_alloc ::
    "os_env \<Rightarrow> size_t \<Rightarrow> size_t \<Rightarrow> bool \<Rightarrow> int \<Rightarrow> size_t \<Rightarrow> size_t \<Rightarrow> size_t \<Rightarrow> bool \<Rightarrow> segs_state \<Rightarrow>
     addr \<times> size_t \<times> size_t \<times> size_t \<times> segs_state" where
  "mi_segment_os_alloc env required page_alignment eager_delayed req_arena_id slices pre_size info_slices commit st =
     (let allow_large = (\<not> eager_delayed \<and> mi_secure env = 0);
          (alignment, align_offset, slices, pre_size, info_slices) =
            (if page_alignment > 0 then
               (let info_size = info_slices * MI_SEGMENT_SLICE_SIZE;
                    align_offset = mi_align_up info_size MI_SEGMENT_SIZE;
                    extra = align_offset - info_size;
                    (slices, pre_size, info_slices) =
                      mi_segment_calculate_slices (mi_secure env) (os_page_size env) sizeof_mi_segment_t (required + extra)
                in (page_alignment, align_offset, slices, pre_size, info_slices))
             else (MI_SEGMENT_SIZE, 0, slices, pre_size, info_slices));
          segment_size = slices * MI_SEGMENT_SLICE_SIZE;
          (segment, memid, st) = mi_arena_alloc_aligned env segment_size alignment align_offset commit allow_large req_arena_id st
      in if segment = 0 then (0, slices, pre_size, info_slices, st)
         else
           (let (ok, cmask, st) =
              (if initially_committed memid then (True, mi_commit_mask_create_full, st)
               else
                 (let commit_needed = mi_divide_up (info_slices * MI_SEGMENT_SLICE_SIZE) MI_COMMIT_SIZE;
                      cmask = mi_commit_mask_create 0 (unat commit_needed);
                      (ok, st) = mi_os_commit env segment (commit_needed * MI_COMMIT_SIZE) st
                  in (ok, cmask, if ok then st else mi_arena_free segment segment_size 0 st)))
            in if \<not> ok then (0, slices, pre_size, info_slices, st)
               else
                 (let st = set_segment segment
                        (\<lambda>sg. sg\<lparr>sg_memid := memid, allow_decommit := \<not> is_pinned memid,
                           allow_purge := (\<not> is_pinned memid \<and> purge_delay env \<ge> 0),
                           commit_mask := cmask, purge_expire := 0, purge_mask := mi_commit_mask_create_empty, abandoned_next := 0\<rparr>) st
                  in (segment, slices, pre_size, info_slices, mi_segments_track_size segment_size st))))"

text \<open>The segment or null, and \<open>*huge_page\<close>.\<close>

definition mi_segment_alloc :: "os_env \<Rightarrow> size_t \<Rightarrow> size_t \<Rightarrow> int \<Rightarrow> segs_state \<Rightarrow> (addr \<times> addr \<times> segs_state) option" where
  "mi_segment_alloc env required page_alignment req_arena_id st =
     (let (slices, pre_size, info_slices) = mi_segment_calculate_slices (mi_secure env) (os_page_size env) sizeof_mi_segment_t required;
          eager_delay = (thread_count env > 1 \<and> tld_count st < eager_commit_delay env);
          eager = (\<not> eager_delay \<and> eager_commit env);
          commit = (eager \<or> required > 0);
          (segment, slices, pre_size, info_slices, st) =
            mi_segment_os_alloc env required page_alignment eager_delay req_arena_id slices pre_size info_slices commit st
      in if segment = 0 then Some (0, 0, st)
         else
           (let st = (if \<not> initially_zero (sg_memid (segment_at st segment)) then zero_segment segment (unat slices) st else st);
                entries = (if slices > word_of_nat MI_SLICES_PER_SEGMENT then word_of_nat MI_SLICES_PER_SEGMENT else slices);
                st = set_segment segment
                       (\<lambda>sg. sg\<lparr>segment_slices := slices, segment_info_slices := info_slices, thread_id := current_thread env,
                          slice_entries := entries, sg_kind := (if required = 0 then MI_SEGMENT_NORMAL else MI_SEGMENT_HUGE)\<rparr>) st;
                (guard_slices, st) =
                  (if mi_secure env > 0 then
                     (let st = mi_os_protect (segment + mi_segment_info_size (segment_at st segment) - os_page_size env) (os_page_size env) st;
                          end_addr = segment + mi_segment_size (segment_at st segment) - os_page_size env;
                          (_, st) = mi_segment_ensure_committed env segment end_addr (os_page_size env) st;
                          st = mi_os_protect end_addr (os_page_size env) st;
                          st = (if entries = slices then set_segment segment (\<lambda>sg. sg\<lparr>slice_entries := slice_entries sg - 1\<rparr>) st else st)
                      in (1, st))
                   else (0, st));
                (page0, st) = mi_segment_span_allocate env segment 0 info_slices st
            in if page0 = 0 then Some (0, 0, st)
               else
                 (let st = set_segment segment (\<lambda>sg. sg\<lparr>sg_used := 0\<rparr>) st
                  in if sg_kind (segment_at st segment) = MI_SEGMENT_NORMAL
                     then Option.bind
                       (mi_segment_span_free env segment info_slices (slice_entries (segment_at st segment) - info_slices) False st)
                       (\<lambda>st. Some (segment, 0, st))
                     else
                       (let (huge_page, st) = mi_segment_span_allocate env segment info_slices (slices - info_slices - guard_slices) st
                        in Some (segment, huge_page, st)))))"

section \<open>Clearing pages\<close>

definition cleared_page :: "mi_page_t \<Rightarrow> mi_page_t" where
  "cleared_page p =
     \<lparr>slice_count = slice_count p, slice_offset = slice_offset p, is_committed = is_committed p, is_zero_init = False,
      capacity = 0, reserved = 0, in_full = False, has_aligned = False, free_is_zero = False, retire_expire = 0,
      free = 0, used = 0, xblock_size = 1, local_free = 0, xthread_free = 0, xheap = 0, page_next = 0, page_prev = 0\<rparr>"

definition mi_segment_page_clear :: "os_env \<Rightarrow> addr \<Rightarrow> segs_state \<Rightarrow> (addr \<times> segs_state) option" where
  "mi_segment_page_clear env pg st =
     (let segment = mi_ptr_segment pg;
          st = (if allow_decommit (segment_at st segment) \<and> page_reset env
                then (let (start, psize) = mi_segment_page_start segment pg st in mi_os_reset start psize st) else st);
          st = set_slice pg cleared_page st
      in Option.bind (mi_segment_span_free_coalesce env pg st)
        (\<lambda>(slc, st). Some (slc, set_segment segment (\<lambda>sg. sg\<lparr>sg_used := sg_used sg - 1\<rparr>) st)))"

end
