(* ===== verification/Mi_Segment_Bins.thy ===== *)
theory Mi_Segment_Bins
  imports Mi_Segment Mi_Queue_Lists
begin

text \<open>
  The bins of the span queues of mimalloc: the queue of a number of slices is the first one whose bound is
  large enough.
\<close>

definition span_bound :: "nat \<Rightarrow> nat" where
  "span_bound q = unat (sq_slice_count (MI_SEGMENT_SPAN_QUEUES_EMPTY ! q))"

lemma slice_bin_large:
  assumes "8 < n" "n \<le> 512"
  shows "\<exists>k j. 3 \<le> k \<and> k \<le> 8 \<and> j < 4 \<and> mi_span_queue_for (word_of_nat n) = 4 * k + j - 4 \<and>
    (4 + j) * 2 ^ (k - 2) < n \<and> n \<le> (5 + j) * 2 ^ (k - 2)"
proof -
  let ?c = "word_of_nat n :: size_t" and ?v = "word_of_nat n - 1 :: size_t"
  have c: "unat ?c = n" using assms(2) by (intro unat_of_nat_small) simp
  then have v: "unat ?v = n - 1" using assms(1) by (subst unat_diff_small) simp_all
  then have "?v \<noteq> 0" using assms(1) by auto
  then obtain k where k: "highest_bit ?v k" by (rule highest_bit_exists)
  note kb = highest_bit_bounds [OF k, unfolded v]
  have k3: "3 \<le> k"
  proof (rule ccontr)
    assume "\<not> 3 \<le> k"
    then have "(2 :: nat) ^ Suc k \<le> 2 ^ 3" by (intro power_increasing) auto
    then show False using kb(2) assms(1) by simp
  qed
  have k8: "k \<le> 8"
  proof (rule ccontr)
    assume "\<not> k \<le> 8"
    then have "(2 :: nat) ^ 9 \<le> 2 ^ k" by (intro power_increasing) auto
    then show False using kb(1) assms by simp
  qed
  define d where "d = (n - 1) div 2 ^ (k - 2)"
  have e: "(2 :: nat) ^ k = 4 * 2 ^ (k - 2)" "(2 :: nat) ^ Suc k = 8 * 2 ^ (k - 2)"
    using k3 power_add [of "2 :: nat" 2 "k - 2"] power_add [of "2 :: nat" 3 "k - 2"] by simp_all
  have d: "4 \<le> d" "d < 8"
    using kb unfolding d_def e by (simp_all add: less_eq_div_iff_mult_less_eq div_less_iff_less_mult)
  have "d * 2 ^ (k - 2) \<le> n - 1" "n - 1 < Suc d * 2 ^ (k - 2)"
    unfolding d_def by (simp_all add: div_times_less_eq_dividend dividend_less_div_times)
  then have nn: "(4 + (d - 4)) * 2 ^ (k - 2) < n" "n \<le> (5 + (d - 4)) * 2 ^ (k - 2)" using d assms(1) by simp_all
  have b: "unat (word_of_nat k :: size_t) = k" using k8 by (intro unat_of_nat_small) simp
  have b2: "unat (word_of_nat k - 2 :: size_t) = k - 2" using k3 b by (subst unat_diff_small) simp_all
  have kk: "\<not> (word_of_nat k :: size_t) \<le> 2" using b k3 by (simp add: word_le_nat_alt)
  have "unat (drop_bit (k - 2) ?v) = d" by (simp add: unat_drop_bit v d_def)
  then have dj: "unat (drop_bit (k - 2) ?v AND 3) = d - 4"
  proof -
    assume u: "unat (drop_bit (k - 2) ?v) = d"
    have "unat (drop_bit (k - 2) ?v AND 3) = d mod 4" using u by (simp only: unat_and_3)
    then show ?thesis using d by (simp add: le_mod_geq)
  qed
  have p: "unat (push_bit 2 (word_of_nat k) :: size_t) = 4 * k" using k8 b by (subst unat_push_bit_small) simp_all
  have or_add: "push_bit 2 x OR (y AND 3) = push_bit 2 x + (y AND 3)" for x y :: size_t
  proof (rule disjunctive_add [symmetric])
    fix i
    show "\<not> bit (push_bit 2 x) i \<or> \<not> bit (y AND 3) i"
    proof (cases "i < 2")
      case False
      have "(3 :: size_t) = mask 2" by (simp add: mask_eq_exp_minus_1)
      moreover have "\<not> bit (mask 2 :: size_t) i" using False by (simp only: bit_mask_iff simp_thms)
      ultimately have "\<not> bit (3 :: size_t) i" by metis
      then show ?thesis by (simp add: bit_and_iff)
    qed (simp add: bit_push_bit_iff)
  qed
  have bin: "mi_slice_bin ?c = (push_bit 2 (word_of_nat k) + (drop_bit (k - 2) ?v AND 3)) - 4"
  proof -
    have "\<not> ?c \<le> 1" using c assms(1) by (simp add: word_le_nat_alt)
    then show ?thesis unfolding mi_slice_bin_def mi_slice_bin8_def Let_def
      by (simp only: mi_bsr_highest [OF k] b2 kk if_False or_add)
  qed
  have s: "unat (push_bit 2 (word_of_nat k) + (drop_bit (k - 2) ?v AND 3) :: size_t) = 4 * k + (d - 4)"
    using p dj k8 d by (subst unat_add_small) simp_all
  have "unat (mi_slice_bin ?c) = 4 * k + (d - 4) - 4" unfolding bin using s k3 by (subst unat_diff_small) simp_all
  then show ?thesis using k3 k8 d nn unfolding mi_span_queue_for_def by (intro exI [of _ k] exI [of _ "d - 4"]) simp
qed

lemma slice_bin_small: "n \<le> 8 \<Longrightarrow> mi_span_queue_for (word_of_nat n) = n"
proof -
  assume "n \<le> 8"
  then have "n = 0 \<or> n = 1 \<or> n = 2 \<or> n = 3 \<or> n = 4 \<or> n = 5 \<or> n = 6 \<or> n = 7 \<or> n = 8" by presburger
  moreover have "\<forall>i \<in> {0, 1, 2, 3, 4, 5, 6, 7, 8}. mi_span_queue_for (word_of_nat i) = i" by code_simp
  ultimately show ?thesis by (elim disjE) simp_all
qed

lemma span_bounds:
  assumes "3 \<le> k" "k \<le> 8" "j < 4"
  shows "span_bound (4 * k + j - 4) = (5 + j) * 2 ^ (k - 2)" "8 < 4 * k + j - 4 \<Longrightarrow> span_bound (4 * k + j - 5) = (4 + j) * 2 ^ (k - 2)"
proof -
  have k: "k = 3 \<or> k = 4 \<or> k = 5 \<or> k = 6 \<or> k = 7 \<or> k = 8" using assms(1,2) by presburger
  have j: "j = 0 \<or> j = 1 \<or> j = 2 \<or> j = 3" using assms(3) by presburger
  show "span_bound (4 * k + j - 4) = (5 + j) * 2 ^ (k - 2)"
    using k j by (elim disjE) (simp_all add: span_bound_def MI_SEGMENT_SPAN_QUEUES_EMPTY_def SQNULL_def)
  show "8 < 4 * k + j - 4 \<Longrightarrow> span_bound (4 * k + j - 5) = (4 + j) * 2 ^ (k - 2)"
    using k j by (elim disjE) (simp_all add: span_bound_def MI_SEGMENT_SPAN_QUEUES_EMPTY_def SQNULL_def)
qed

lemma span_queue_fits:
  assumes "n \<le> 512" "q = mi_span_queue_for (word_of_nat n)"
  shows "q \<le> 31" "n \<le> span_bound q" "2 \<le> q \<Longrightarrow> span_bound (q - 1) < n" "1 \<le> n \<Longrightarrow> 1 \<le> q"
proof -
  have "q \<le> 31 \<and> n \<le> span_bound q \<and> (2 \<le> q \<longrightarrow> span_bound (q - 1) < n) \<and> (1 \<le> n \<longrightarrow> 1 \<le> q)"
  proof (cases "n \<le> 8")
    case True
    then have "n = 0 \<or> n = 1 \<or> n = 2 \<or> n = 3 \<or> n = 4 \<or> n = 5 \<or> n = 6 \<or> n = 7 \<or> n = 8" by presburger
    then show ?thesis unfolding assms(2) slice_bin_small [OF True]
      by (elim disjE) (simp_all add: span_bound_def MI_SEGMENT_SPAN_QUEUES_EMPTY_def SQNULL_def)
  next
    case False
    then obtain k j where k: "3 \<le> k" "k \<le> 8" "j < 4" "q = 4 * k + j - 4" "(4 + j) * 2 ^ (k - 2) < n" "n \<le> (5 + j) * 2 ^ (k - 2)"
      using slice_bin_large [of n] assms by auto
    have q: "8 \<le> q" "q \<le> 31" using k(1-4) by linarith+
    have "span_bound (q - 1) < n"
    proof (cases "q = 8")
      case True
      have "span_bound 7 = 7" by (simp add: span_bound_def MI_SEGMENT_SPAN_QUEUES_EMPTY_def SQNULL_def)
      then show ?thesis using False True by simp
    next
      case big: False
      have "q - 1 = 4 * k + j - 5" using k(1,4) by linarith
      then show ?thesis using span_bounds(2) [OF k(1-3)] k(4,5) q(1) big by simp
    qed
    then show ?thesis using span_bounds(1) [OF k(1-3)] k(4,6) q by simp
  qed
  then show "q \<le> 31" "n \<le> span_bound q" "2 \<le> q \<Longrightarrow> span_bound (q - 1) < n" "1 \<le> n \<Longrightarrow> 1 \<le> q" by simp_all
qed

text \<open>
  The queue of a span of up to 512 slices is the first one whose bound is at least the number of slices: every span in
  a later queue is large enough for a request. The last queue that is used is 31, while the comment at
  \<open>MI_SEGMENT_BIN_MAX\<close> says that a whole segment has bin 35.
\<close>

theorem span_queue_least_fit:
  assumes "1 \<le> n" "n \<le> 512"
  shows "mi_span_queue_for (word_of_nat n) \<le> 31 \<and> n \<le> span_bound (mi_span_queue_for (word_of_nat n)) \<and>
    (2 \<le> mi_span_queue_for (word_of_nat n) \<longrightarrow> span_bound (mi_span_queue_for (word_of_nat n) - 1) < n) \<and>
    mi_span_queue_for (word_of_nat MI_SLICES_PER_SEGMENT) = 31"
proof -
  have "MI_SLICES_PER_SEGMENT = 512"
    by (simp add: MI_SLICES_PER_SEGMENT_def MI_SEGMENT_SIZE_def MI_SEGMENT_SLICE_SIZE_def MI_SEGMENT_SHIFT_def MI_SEGMENT_SLICE_SHIFT_def)
  moreover have "\<forall>i \<in> {512}. mi_span_queue_for (word_of_nat i) = 31" by code_simp
  ultimately show ?thesis using span_queue_fits [OF assms(2) refl] assms(1) by simp
qed

theorem span_queue_least_fit_witness: "100 \<le> span_bound (mi_span_queue_for (word_of_nat 100))"
  using span_queue_least_fit [of 100] by simp

end
