(* ===== verification/Mi_Segment_Commit.thy ===== *)
theory Mi_Segment_Commit
  imports Mi_Segment Mi_Page_Extend
begin

text \<open>
  The commit mask of a segment is sound: a chunk that the mask holds is committed memory according to the calls that were made to
  the system. Chunks are the units of 64 KiB, whose numbers the masks hold.
\<close>

section \<open>Rounding to chunks\<close>

lemma and_not_low: "unat (x AND NOT (mask n) :: u64) = unat x div 2 ^ n * 2 ^ n"
proof -
  have "x AND NOT (mask n) = push_bit n (drop_bit n x)"
    by (rule bit_word_eqI) (auto simp: bit_and_iff bit_not_iff bit_mask_iff bit_push_bit_iff bit_drop_bit_eq)
  moreover have "unat (push_bit n (drop_bit n x)) = unat x div 2 ^ n * 2 ^ n"
  proof -
    have "unat x div 2 ^ n * 2 ^ n \<le> unat x" by (rule div_times_less_eq_dividend)
    also have "\<dots> < 2 ^ 64" using unsigned_less [of x] by simp
    finally have "unat (drop_bit n x) * 2 ^ n < 2 ^ 64" by (simp add: unat_drop_bit)
    then show ?thesis using unat_push_bit_small [of "drop_bit n x" n] by (simp add: unat_drop_bit mult.commute)
  qed
  ultimately show ?thesis by simp
qed

lemma commit_size: "MI_COMMIT_SIZE = 0x10000" "MI_MINIMAL_COMMIT_SIZE = 0x10000" "MI_SEGMENT_SLICE_SIZE = 0x10000" "MI_SEGMENT_SIZE = 0x2000000"
  by (simp_all add: MI_COMMIT_SIZE_def MI_MINIMAL_COMMIT_SIZE_def MI_SEGMENT_SLICE_SIZE_def MI_SEGMENT_SIZE_def
      MI_SEGMENT_SLICE_SHIFT_def MI_SEGMENT_SHIFT_def)

lemma low_mask: "(0xFFFF :: u64) = mask 16"
  by (simp add: mask_eq_exp_minus_1)

lemma align_down_chunk: "unat (mi_align_down x 0x10000) = unat x div 65536 * 65536"
proof -
  have "mi_align_down x 0x10000 = x AND NOT (mask 16)" unfolding low_mask [symmetric] by (simp add: mi_align_down_def)
  then show ?thesis using and_not_low [of x 16] by simp
qed

lemma align_up_chunk: "unat x + 65535 < 2 ^ 64 \<Longrightarrow> unat (mi_align_up x 0x10000) = (unat x + 65535) div 65536 * 65536"
proof -
  assume "unat x + 65535 < 2 ^ 64"
  then have "unat (x + 0xFFFF) = unat x + 65535" by (subst unat_add_small) simp_all
  moreover have "mi_align_up x 0x10000 = (x + 0xFFFF) AND NOT (mask 16)" unfolding low_mask [symmetric] by (simp add: mi_align_up_def)
  ultimately show ?thesis using and_not_low [of "x + 0xFFFF" 16] by simp
qed

section \<open>Committed memory\<close>

text \<open>The addresses that are committed after the calls of a log, latest call first, if \<open>B\<close> was committed before.\<close>

definition bytes :: "addr \<Rightarrow> size_t \<Rightarrow> nat set" where
  "bytes p sz = {unat p..<unat p + unat sz}"

fun committed_bytes :: "os_call list \<Rightarrow> nat set \<Rightarrow> nat set" where
  "committed_bytes [] B = B"
| "committed_bytes (Os_Commit p sz ok # log) B = (if ok then committed_bytes log B \<union> bytes p sz else committed_bytes log B)"
| "committed_bytes (Os_Purge p sz dec # log) B = (if dec then committed_bytes log B - bytes p sz else committed_bytes log B)"
| "committed_bytes (Os_Reset p sz # log) B = committed_bytes log B"
| "committed_bytes (Os_Protect p sz # log) B = committed_bytes log B"
| "committed_bytes (Os_Unprotect p sz # log) B = committed_bytes log B"
| "committed_bytes (Arena_Alloc p sz com # log) B = (if com then committed_bytes log B \<union> bytes p sz else committed_bytes log B)"
| "committed_bytes (Arena_Free p sz com # log) B = committed_bytes log B - bytes p sz"

definition chunks :: "addr \<Rightarrow> nat set \<Rightarrow> nat set" where
  "chunks seg cs = (\<Union>c\<in>cs. {unat seg + c * 65536..<unat seg + (c + 1) * 65536})"

text \<open>A normal segment, of 512 slices, whose memory does not wrap around.\<close>

definition segment_fits :: "addr \<Rightarrow> mi_segment_t \<Rightarrow> bool" where
  "segment_fits seg sg \<longleftrightarrow> sg_kind sg = MI_SEGMENT_NORMAL \<and> unat seg + 2 ^ 25 < 2 ^ 64 \<and>
     segment_slices sg = 512 \<and> unat (segment_info_slices sg) \<le> 512"

definition mask_sound :: "nat set \<Rightarrow> addr \<Rightarrow> segs_state \<Rightarrow> bool" where
  "mask_sound B seg st \<longleftrightarrow> segment_fits seg (segment_at st seg) \<and>
     mask_set (purge_mask (segment_at st seg)) \<subseteq> mask_set (commit_mask (segment_at st seg)) \<and>
     chunks seg (mask_set (commit_mask (segment_at st seg))) \<subseteq> committed_bytes (os_log st) B"

lemma chunks_mono: "cs \<subseteq> ds \<Longrightarrow> chunks seg cs \<subseteq> chunks seg ds"
  by (auto simp: chunks_def)

lemma chunks_Un: "chunks seg (cs \<union> ds) = chunks seg cs \<union> chunks seg ds"
  by (auto simp: chunks_def)

lemma chunks_range: "a \<le> b \<Longrightarrow> chunks seg {a..<b} = {unat seg + a * 65536..<unat seg + b * 65536}"
proof (induction b)
  case (Suc b)
  show ?case
  proof (cases "a = Suc b")
    case False
    then have "a \<le> b" using Suc.prems by simp
    then have "{a..<Suc b} = {a..<b} \<union> {b}" by auto
    moreover have "chunks seg {b} = {unat seg + b * 65536..<unat seg + (b + 1) * 65536}" by (simp add: chunks_def)
    ultimately have "chunks seg {a..<Suc b} = {unat seg + a * 65536..<unat seg + b * 65536} \<union>
        {unat seg + b * 65536..<unat seg + (b + 1) * 65536}"
      using chunks_Un [of seg "{a..<b}" "{b}"] Suc.IH [OF \<open>a \<le> b\<close>] by (simp only:)
    moreover have "unat seg + a * 65536 \<le> unat seg + b * 65536" using \<open>a \<le> b\<close> by simp
    moreover have "unat seg + b * 65536 \<le> unat seg + (b + 1) * 65536" by simp
    ultimately show ?thesis using ivl_disj_un_two(3) by (metis Suc_eq_plus1)
  qed (simp add: chunks_def)
qed (simp add: chunks_def)

lemma chunks_disjoint: "cs \<inter> ds = {} \<Longrightarrow> chunks seg cs \<inter> chunks seg ds = {}"
proof -
  assume d: "cs \<inter> ds = {}"
  have c: "(n - unat seg) div 65536 = c" if "n \<in> {unat seg + c * 65536..<unat seg + (c + 1) * 65536}" for n c
  proof -
    have "n - unat seg = (n - unat seg - c * 65536) + c * 65536" "n - unat seg - c * 65536 < 65536" using that by auto
    then show ?thesis by (metis add.commute div_less div_mult_self3 add.right_neutral zero_neq_numeral)
  qed
  have "(n - unat seg) div 65536 \<in> cs" if "n \<in> chunks seg cs" for n cs
    using that c unfolding chunks_def by blast
  then show ?thesis using d by blast
qed

text \<open>The chunks that a range of the segment touches, and those inside it.\<close>

definition outer :: "nat \<Rightarrow> nat \<Rightarrow> nat set" where
  "outer ofs sz = {ofs div 65536..<(ofs + sz + 65535) div 65536}"

definition inner :: "nat \<Rightarrow> nat \<Rightarrow> nat set" where
  "inner ofs sz = {(ofs + 65535) div 65536..<(ofs + sz) div 65536}"

text \<open>A range of bytes that lies in the segment.\<close>

definition in_segment :: "addr \<Rightarrow> addr \<Rightarrow> size_t \<Rightarrow> bool" where
  "in_segment seg p sz \<longleftrightarrow> unat seg \<le> unat p \<and> unat p + unat sz \<le> unat seg + 2 ^ 25 \<and> 0 < unat sz"

lemma chunk_bytes:
  assumes "unat seg + 2 ^ 25 < 2 ^ 64" "a < b" "b \<le> 512"
  shows "bytes (seg + word_of_nat (a * 65536)) (word_of_nat ((b - a) * 65536)) = chunks seg {a..<b}"
proof -
  have "unat (word_of_nat (a * 65536) :: u64) = a * 65536" "unat (word_of_nat ((b - a) * 65536) :: u64) = (b - a) * 65536"
    using assms(2,3) by (intro unat_of_nat_small; simp)+
  moreover then have "unat (seg + word_of_nat (a * 65536)) = unat seg + a * 65536"
    using assms by (subst unat_add_small) simp_all
  moreover have "a * 65536 + (b - a) * 65536 = b * 65536" using assms(2) by (simp flip: distrib_right)
  ultimately show ?thesis using chunks_range [of a b seg] assms(2) by (simp add: bytes_def add.assoc)
qed

lemma commit_mask_range:
  fixes cons :: bool
  assumes f: "segment_fits seg sg" and r: "in_segment seg p sz"
  defines "cs \<equiv> if cons then inner (unat p - unat seg) (unat sz) else outer (unat p - unat seg) (unat sz)"
  shows "\<exists>start full msk. mi_segment_commit_mask seg sg cons p sz = (start, full, msk) \<and> mask_set msk = cs \<and>
    (full = 0 \<longleftrightarrow> cs = {}) \<and> bytes start full = chunks seg cs"
proof -
  let ?o = "unat p - unat seg" and ?n = "unat sz"
  define a where "a = (if cons then (?o + 65535) div 65536 else ?o div 65536)"
  define b where "b = (if cons then (?o + ?n) div 65536 else (?o + ?n + 65535) div 65536)"
  have cs: "cs = {a..<b}" by (simp add: cs_def a_def b_def inner_def outer_def)
  have on: "?o + ?n \<le> 2 ^ 25" "0 < ?n" "unat seg \<le> unat p" using r by (auto simp: in_segment_def)
  then have b: "b \<le> 512" "a \<le> 512" by (auto simp: b_def a_def)
  have seg: "unat seg + 2 ^ 25 < 2 ^ 64" "segment_slices sg = 512" "unat (segment_info_slices sg) \<le> 512"
    "sg_kind sg = MI_SEGMENT_NORMAL" using f by (auto simp: segment_fits_def)
  have pst: "unat (p - seg) = ?o" using on(3) by (rule unat_diff_small)
  have psz: "unat (p - seg + sz) = ?o + ?n" using on(1) pst by (subst unat_add_small) simp_all
  have size: "mi_segment_size sg = 0x2000000" using seg(2) by (simp add: mi_segment_size_def commit_size)
  have info: "unat (mi_segment_info_size sg) = unat (segment_info_slices sg) * 65536"
    using seg(3) by (subst mi_segment_info_size_def, subst unat_mult_small) (simp_all add: commit_size)
  let ?st = "if cons then mi_align_up (p - seg) MI_COMMIT_SIZE else mi_align_down (p - seg) MI_MINIMAL_COMMIT_SIZE"
  let ?en = "if cons then mi_align_down (p - seg + sz) MI_COMMIT_SIZE else mi_align_up (p - seg + sz) MI_MINIMAL_COMMIT_SIZE"
  have st: "unat ?st = a * 65536" using pst on(1) by (simp add: commit_size align_up_chunk align_down_chunk a_def)
  have en: "unat ?en = b * 65536" using psz on(1) by (simp add: commit_size align_up_chunk align_down_chunk b_def)
  have nst: "\<not> (p - seg \<ge> mi_segment_info_size sg \<and> ?st < mi_segment_info_size sg)"
  proof
    assume "p - seg \<ge> mi_segment_info_size sg \<and> ?st < mi_segment_info_size sg"
    then have "unat (segment_info_slices sg) * 65536 \<le> ?o" "a * 65536 < unat (segment_info_slices sg) * 65536"
      using pst st info by (auto simp: word_le_nat_alt word_less_nat_alt)
    moreover have "?o div 65536 \<le> a" by (simp add: a_def div_le_mono)
    ultimately show False by (simp add: less_eq_div_iff_mult_less_eq leD)
  qed
  have nen: "\<not> ?en > mi_segment_size sg" using en b(1) by (simp add: size word_less_nat_alt)
  have plt: "\<not> p \<ge> seg + mi_segment_size sg"
  proof -
    have "unat (seg + 0x2000000) = unat seg + 2 ^ 25" using seg(1) by (subst unat_add_small) simp_all
    then show ?thesis using on by (simp add: size word_le_nat_alt)
  qed
  have gt: "?en > ?st \<longleftrightarrow> a < b" using st en by (simp add: word_less_nat_alt)
  have fl: "unat (if ?en > ?st then ?en - ?st else 0) = (b - a) * 65536"
  proof (cases "a < b")
    case True
    then have "unat (?en - ?st) = b * 65536 - a * 65536" using st en by (subst unat_diff_small) simp_all
    then show ?thesis using gt True by (simp add: diff_mult_distrib)
  qed (use gt in simp)
  let ?fl = "if ?en > ?st then ?en - ?st else 0"
  have fz: "?fl = 0 \<longleftrightarrow> \<not> a < b" using fl by (auto simp: unat_eq_0 [symmetric] simp del: unat_eq_0)
  have szle: "\<not> sz > MI_SEGMENT_SIZE" "sz \<noteq> 0" using on by (auto simp: commit_size word_less_nat_alt)
  then have guard: "\<not> (sz = 0 \<or> sz > MI_SEGMENT_SIZE \<or> sg_kind sg = MI_SEGMENT_HUGE)" using seg(4) by simp
  have res: "mi_segment_commit_mask seg sg cons p sz =
     (seg + ?st, ?fl, if a < b then mi_commit_mask_create (unat (?st div MI_COMMIT_SIZE)) (unat (?fl div MI_COMMIT_SIZE))
      else mi_commit_mask_create_empty)"
    unfolding mi_segment_commit_mask_def Let_def if_not_P [OF guard] if_not_P [OF plt] if_not_P [OF nst] if_not_P [OF nen] fz
    by (cases "a < b") (simp_all only: if_True if_False not_True_eq_False not_False_eq_True)
  have div: "unat (?st div MI_COMMIT_SIZE) = a" "unat (?fl div MI_COMMIT_SIZE) = b - a"
    using st fl by (simp_all add: commit_size unat_div)
  have "mask_set (if a < b then mi_commit_mask_create (unat (?st div MI_COMMIT_SIZE)) (unat (?fl div MI_COMMIT_SIZE))
      else mi_commit_mask_create_empty) = cs"
    unfolding div cs using mask_set_create(1) [of a "b - a"] b by (simp add: mask_set_empty)
  moreover have "bytes (seg + ?st) ?fl = chunks seg cs"
  proof (cases "a < b")
    case True
    have w: "word_of_nat (unat x) = x" for x :: u64 by simp
    show ?thesis using chunk_bytes [OF seg(1) True b(1)] w [of ?st, unfolded st] w [of ?fl, unfolded fl] unfolding cs by (simp only:)
  next
    case False
    then have "cs = {}" "?fl = 0" using fz by (auto simp: cs)
    then show ?thesis by (simp add: bytes_def chunks_def)
  qed
  moreover have "?fl = 0 \<longleftrightarrow> cs = {}" using fz by (simp add: cs)
  ultimately show ?thesis using res by blast
qed

section \<open>Committing\<close>

text \<open>What the operations of this section leave alone.\<close>

definition no_masks :: "mi_segment_t \<Rightarrow> mi_segment_t" where
  "no_masks sg = sg\<lparr>purge_expire := 0, purge_mask := [], commit_mask := []\<rparr>"

definition lists_state :: "segs_state \<Rightarrow> addr \<times> addr \<times> size_t \<times> size_t \<times> size_t" where
  "lists_state st = (abandoned st, abandoned_visited st, abandoned_count st, abandoned_visited_count st, abandoned_readers st)"

declare lists_state_def [simp]

definition same_but_masks :: "addr \<Rightarrow> segs_state \<Rightarrow> segs_state \<Rightarrow> bool" where
  "same_but_masks seg st st' \<longleftrightarrow> slice_at st' = slice_at st \<and> spans st' = spans st \<and> lists_state st' = lists_state st \<and>
     (\<forall>s. s \<noteq> seg \<longrightarrow> segment_at st' s = segment_at st s) \<and>
     no_masks (segment_at st' seg) = no_masks (segment_at st seg)"

lemma same_refl: "same_but_masks seg st st"
  by (simp add: same_but_masks_def)

lemma same_trans: "same_but_masks seg st st' \<Longrightarrow> same_but_masks seg st' st'' \<Longrightarrow> same_but_masks seg st st''"
  by (simp add: same_but_masks_def)

lemma same_steps:
  "same_but_masks seg st (set_segment seg (\<lambda>sg. sg\<lparr>commit_mask := f sg\<rparr>) st)"
  "same_but_masks seg st (set_segment seg (\<lambda>sg. sg\<lparr>purge_mask := f sg\<rparr>) st)"
  "same_but_masks seg st (set_segment seg (\<lambda>sg. sg\<lparr>purge_expire := g sg\<rparr>) st)"
  "same_but_masks seg st (st\<lparr>os_log := l\<rparr>)"
  "same_but_masks seg st (st\<lparr>ticks := k\<rparr>)"
  by (simp_all add: same_but_masks_def set_segment_def no_masks_def)

lemma same_fields:
  assumes "same_but_masks seg st st'"
  shows "sg_kind (segment_at st' s) = sg_kind (segment_at st s)" "slice_entries (segment_at st' s) = slice_entries (segment_at st s)"
    "thread_id (segment_at st' s) = thread_id (segment_at st s)" "segment_slices (segment_at st' s) = segment_slices (segment_at st s)"
    "segment_info_slices (segment_at st' s) = segment_info_slices (segment_at st s)" "sg_used (segment_at st' s) = sg_used (segment_at st s)"
    "allow_purge (segment_at st' s) = allow_purge (segment_at st s)" "sg_memid (segment_at st' s) = sg_memid (segment_at st s)"
    "sg_abandoned (segment_at st' s) = sg_abandoned (segment_at st s)"
proof -
  have e: "no_masks (segment_at st' s) = no_masks (segment_at st s)" using assms by (cases "s = seg") (simp_all add: same_but_masks_def)
  have k: "sg_kind (no_masks sg) = sg_kind sg" "slice_entries (no_masks sg) = slice_entries sg" "thread_id (no_masks sg) = thread_id sg"
    "segment_slices (no_masks sg) = segment_slices sg" "segment_info_slices (no_masks sg) = segment_info_slices sg"
    "sg_used (no_masks sg) = sg_used sg" "allow_purge (no_masks sg) = allow_purge sg" "sg_memid (no_masks sg) = sg_memid sg"
    "sg_abandoned (no_masks sg) = sg_abandoned sg" for sg
    by (simp_all add: no_masks_def)
  show "sg_kind (segment_at st' s) = sg_kind (segment_at st s)" "slice_entries (segment_at st' s) = slice_entries (segment_at st s)"
    "thread_id (segment_at st' s) = thread_id (segment_at st s)" "segment_slices (segment_at st' s) = segment_slices (segment_at st s)"
    "segment_info_slices (segment_at st' s) = segment_info_slices (segment_at st s)" "sg_used (segment_at st' s) = sg_used (segment_at st s)"
    "allow_purge (segment_at st' s) = allow_purge (segment_at st s)" "sg_memid (segment_at st' s) = sg_memid (segment_at st s)"
    "sg_abandoned (segment_at st' s) = sg_abandoned (segment_at st s)"
    using e k by metis+
qed

lemma same_fits: "same_but_masks seg st st' \<Longrightarrow> segment_fits s (segment_at st' s) = segment_fits s (segment_at st s)"
  by (simp add: segment_fits_def same_fields)

lemma segment_commit_sound:
  assumes s: "mask_sound B seg st" and r: "in_segment seg p sz"
  shows "\<exists>ok st'. mi_segment_commit env seg p sz st = (ok, st') \<and> mask_sound B seg st' \<and> same_but_masks seg st st' \<and>
    committed_bytes (os_log st) B \<subseteq> committed_bytes (os_log st') B \<and>
    mask_set (commit_mask (segment_at st seg)) \<subseteq> mask_set (commit_mask (segment_at st' seg)) \<and>
    (ok \<longrightarrow> outer (unat p - unat seg) (unat sz) \<subseteq> mask_set (commit_mask (segment_at st' seg)) \<and>
       outer (unat p - unat seg) (unat sz) \<inter> mask_set (purge_mask (segment_at st' seg)) = {})"
proof -
  let ?cs = "outer (unat p - unat seg) (unat sz)" and ?sg = "segment_at st seg"
  obtain start full msk where m: "mi_segment_commit_mask seg ?sg False p sz = (start, full, msk)" "mask_set msk = ?cs"
    "full = 0 \<longleftrightarrow> ?cs = {}" "bytes start full = chunks seg ?cs"
    using commit_mask_range [OF _ r, of ?sg False] s by (auto simp: mask_sound_def)
  show ?thesis
  proof (cases "?cs = {}")
    case True
    then have "mi_segment_commit env seg p sz st = (True, st)" using m by (simp add: mi_segment_commit_def)
    then show ?thesis using s True by (intro exI [of _ True] exI [of _ st]) (simp add: same_refl)
  next
    case False
    then have guard: "\<not> (mi_commit_mask_is_empty msk \<or> full = 0)" using m by (simp add: mask_is_empty)
    define part where "part = (if \<not> mi_commit_mask_all_set (commit_mask ?sg) msk then
        (let (ok, st) = mi_os_commit env start full st
         in if \<not> ok then (False, st)
            else (True, set_segment seg (\<lambda>sg. sg\<lparr>commit_mask := mi_commit_mask_set (commit_mask sg) msk\<rparr>) st))
        else (True, st))"
    obtain ok st1 where p1: "part = (ok, st1)" by (cases part)
    have part: "mask_sound B seg st1 \<and> same_but_masks seg st st1 \<and> committed_bytes (os_log st) B \<subseteq> committed_bytes (os_log st1) B \<and>
        mask_set (commit_mask ?sg) \<subseteq> mask_set (commit_mask (segment_at st1 seg)) \<and>
        purge_mask (segment_at st1 seg) = purge_mask ?sg \<and>
        (ok \<longrightarrow> ?cs \<subseteq> mask_set (commit_mask (segment_at st1 seg)))"
    proof (cases "mi_commit_mask_all_set (commit_mask ?sg) msk")
      case True
      then have "ok = True" "st1 = st" using p1 by (simp_all add: part_def)
      then show ?thesis using s True m(2) by (simp add: same_refl mask_all_set)
    next
      case nall: False
      let ?log = "Os_Commit start full (os_commit_ok env (length (os_log st))) # os_log st"
      show ?thesis
      proof (cases "os_commit_ok env (length (os_log st))")
        case False
        then have "ok = False" "st1 = st\<lparr>os_log := ?log\<rparr>" using p1 nall by (simp_all add: part_def mi_os_commit_def Let_def)
        then show ?thesis using s False by (simp add: same_steps mask_sound_def)
      next
        case True
        then have e: "ok = True" "st1 = set_segment seg (\<lambda>sg. sg\<lparr>commit_mask := mi_commit_mask_set (commit_mask sg) msk\<rparr>) (st\<lparr>os_log := ?log\<rparr>)"
          using p1 nall by (simp_all add: part_def mi_os_commit_def Let_def)
        have same: "same_but_masks seg st st1" unfolding e(2) by (rule same_trans [OF same_steps(4) same_steps(1)])
        have cm: "mask_set (commit_mask (segment_at st1 seg)) = mask_set (commit_mask ?sg) \<union> ?cs"
          "purge_mask (segment_at st1 seg) = purge_mask ?sg" "committed_bytes (os_log st1) B = committed_bytes (os_log st) B \<union> chunks seg ?cs"
          using m(2,4) True by (simp_all add: e(2) set_segment_def mask_set_set)
        have "mask_sound B seg st1"
          using s same_fits [OF same, of seg] unfolding mask_sound_def cm chunks_Un by blast
        then show ?thesis using same cm by blast
      qed
    qed
    show ?thesis
    proof (cases ok)
      case False
      then have "mi_segment_commit env seg p sz st = (False, st1)"
        using p1 unfolding part_def by (simp add: mi_segment_commit_def m(1) guard)
      then show ?thesis using part by (intro exI [of _ False] exI [of _ st1]) simp
    next
      case True
      define st2 where "st2 = (if mi_commit_mask_any_set (purge_mask (segment_at st1 seg)) msk then
          (let (now, st) = mi_clock_now env st1 in set_segment seg (\<lambda>sg. sg\<lparr>purge_expire := now + purge_delay env\<rparr>) st) else st1)"
      have st2: "same_but_masks seg st1 st2 \<and> os_log st2 = os_log st1 \<and> commit_mask (segment_at st2 seg) = commit_mask (segment_at st1 seg) \<and>
          purge_mask (segment_at st2 seg) = purge_mask (segment_at st1 seg)"
        using same_trans [OF same_steps(5) same_steps(3), of seg st1 "\<lambda>_. os_now env (ticks st1) + purge_delay env" "ticks st1 + 1"]
        by (simp add: st2_def mi_clock_now_def set_segment_def same_refl)
      let ?st3 = "set_segment seg (\<lambda>sg. sg\<lparr>purge_mask := mi_commit_mask_clear (purge_mask sg) msk\<rparr>) st2"
      have run: "mi_segment_commit env seg p sz st = (True, ?st3)"
        using p1 True unfolding part_def st2_def by (simp add: mi_segment_commit_def m(1) guard)
      have same: "same_but_masks seg st ?st3" by (rule same_trans [OF same_trans same_steps(2)]) (use part st2 in blast)+
      have f: "commit_mask (segment_at ?st3 seg) = commit_mask (segment_at st1 seg)"
        "mask_set (purge_mask (segment_at ?st3 seg)) = mask_set (purge_mask ?sg) - ?cs" "os_log ?st3 = os_log st1"
        using st2 part m(2) by (simp_all add: set_segment_def mask_set_clear)
      have "mask_sound B seg ?st3"
        using part same_fits [OF same, of seg] s unfolding mask_sound_def f by blast
      then show ?thesis using run same f part True by (intro exI [of _ True] exI [of _ ?st3]) auto
    qed
  qed
qed

lemma ensure_committed_sound:
  assumes s: "mask_sound B seg st" and r: "in_segment seg p sz"
  shows "\<exists>ok st'. mi_segment_ensure_committed env seg p sz st = (ok, st') \<and> mask_sound B seg st' \<and> same_but_masks seg st st' \<and>
    committed_bytes (os_log st) B \<subseteq> committed_bytes (os_log st') B \<and>
    (ok \<longrightarrow> outer (unat p - unat seg) (unat sz) \<subseteq> mask_set (commit_mask (segment_at st' seg)) \<and>
       outer (unat p - unat seg) (unat sz) \<inter> mask_set (purge_mask (segment_at st' seg)) = {})"
proof (cases "mi_commit_mask_is_full (commit_mask (segment_at st seg)) \<and> mi_commit_mask_is_empty (purge_mask (segment_at st seg))")
  case True
  then have "mi_segment_ensure_committed env seg p sz st = (True, st)" by (simp add: mi_segment_ensure_committed_def)
  moreover have "outer (unat p - unat seg) (unat sz) \<subseteq> {..<512}" using r by (auto simp: outer_def in_segment_def)
  ultimately show ?thesis using s True
    by (intro exI [of _ True] exI [of _ st]) (simp add: same_refl mask_is_full mask_is_empty)
next
  case False
  then have "mi_segment_ensure_committed env seg p sz st = mi_segment_commit env seg p sz st"
    by (auto simp: mi_segment_ensure_committed_def)
  then show ?thesis using segment_commit_sound [OF s r, of env] by auto
qed

section \<open>Purging\<close>

lemma inner_bytes:
  assumes "in_segment seg p sz" "unat seg + 2 ^ 25 < 2 ^ 64"
  shows "chunks seg (inner (unat p - unat seg) (unat sz)) \<subseteq> bytes p sz"
proof
  fix n assume "n \<in> chunks seg (inner (unat p - unat seg) (unat sz))"
  then obtain c where c: "(unat p - unat seg + 65535) div 65536 \<le> c" "c < (unat p - unat seg + unat sz) div 65536"
    "unat seg + c * 65536 \<le> n" "n < unat seg + (c + 1) * 65536"
    by (auto simp: chunks_def inner_def)
  have "unat p - unat seg \<le> c * 65536" using c(1) by linarith
  moreover have "(c + 1) * 65536 \<le> unat p - unat seg + unat sz"
    using c(2) less_eq_div_iff_mult_less_eq [of 65536 "c + 1" "unat p - unat seg + unat sz"] by simp
  ultimately show "n \<in> bytes p sz" using c(3,4) assms(1) by (auto simp: bytes_def in_segment_def)
qed

lemma segment_purge_sound:
  assumes s: "mask_sound B seg st" and r: "in_segment seg p sz"
  defines "cs \<equiv> inner (unat p - unat seg) (unat sz)"
  shows "mask_sound B seg (mi_segment_purge env seg p sz st) \<and> same_but_masks seg st (mi_segment_purge env seg p sz st) \<and>
    committed_bytes (os_log st) B - chunks seg cs \<subseteq> committed_bytes (os_log (mi_segment_purge env seg p sz st)) B \<and>
    mask_set (commit_mask (segment_at st seg)) - cs \<subseteq> mask_set (commit_mask (segment_at (mi_segment_purge env seg p sz st) seg)) \<and>
    mask_set (purge_mask (segment_at (mi_segment_purge env seg p sz st) seg)) \<subseteq> mask_set (purge_mask (segment_at st seg))"
    (is "?goal (mi_segment_purge env seg p sz st)")
proof (cases "allow_purge (segment_at st seg)")
  case False
  then have "mi_segment_purge env seg p sz st = st" by (simp add: mi_segment_purge_def)
  then show ?thesis using s by (auto simp: same_refl)
next
  case allow: True
  let ?sg = "segment_at st seg"
  obtain start full msk where m: "mi_segment_commit_mask seg ?sg True p sz = (start, full, msk)" "mask_set msk = cs"
    "full = 0 \<longleftrightarrow> cs = {}" "bytes start full = chunks seg cs"
    using commit_mask_range [OF _ r, of ?sg True] s by (auto simp: mask_sound_def cs_def)
  show ?thesis
  proof (cases "cs = {}")
    case True
    then have "mi_segment_purge env seg p sz st = st" using m allow by (simp add: mi_segment_purge_def)
    then show ?thesis using s by (auto simp: same_refl)
  next
    case False
    then have guard: "\<not> (mi_commit_mask_is_empty msk \<or> full = 0)" using m by (simp add: mask_is_empty)
    define st1 where "st1 = (if mi_commit_mask_any_set (commit_mask ?sg) msk then
        (let (decommitted, st) = mi_os_purge env start full st
         in if decommitted then set_segment seg (\<lambda>sg. sg\<lparr>commit_mask := mi_commit_mask_clear (commit_mask sg) msk\<rparr>) st else st)
        else st)"
    let ?st2 = "set_segment seg (\<lambda>sg. sg\<lparr>purge_mask := mi_commit_mask_clear (purge_mask sg) msk\<rparr>) st1"
    have run: "mi_segment_purge env seg p sz st = ?st2"
      using allow guard by (simp add: mi_segment_purge_def m(1) st1_def)
    have st1: "same_but_masks seg st st1 \<and> purge_mask (segment_at st1 seg) = purge_mask ?sg \<and>
        committed_bytes (os_log st) B - chunks seg cs \<subseteq> committed_bytes (os_log st1) B \<and>
        mask_set (commit_mask ?sg) - cs \<subseteq> mask_set (commit_mask (segment_at st1 seg)) \<and>
        chunks seg (mask_set (commit_mask (segment_at st1 seg))) \<subseteq> committed_bytes (os_log st1) B"
    proof (cases "mi_commit_mask_any_set (commit_mask ?sg) msk")
      case False
      then have "st1 = st" by (simp add: st1_def)
      then show ?thesis using s by (auto simp: same_refl mask_sound_def)
    next
      case any: True
      let ?log = "Os_Purge start full (os_decommits env (length (os_log st))) # os_log st"
      show ?thesis
      proof (cases "os_decommits env (length (os_log st))")
        case False
        then have "st1 = st\<lparr>os_log := ?log\<rparr>" using any by (simp add: st1_def mi_os_purge_def Let_def)
        then show ?thesis using s False by (auto simp: same_steps mask_sound_def)
      next
        case True
        then have e: "st1 = set_segment seg (\<lambda>sg. sg\<lparr>commit_mask := mi_commit_mask_clear (commit_mask sg) msk\<rparr>) (st\<lparr>os_log := ?log\<rparr>)"
          using any by (simp add: st1_def mi_os_purge_def Let_def)
        have cm: "mask_set (commit_mask (segment_at st1 seg)) = mask_set (commit_mask ?sg) - cs"
          "purge_mask (segment_at st1 seg) = purge_mask ?sg" "committed_bytes (os_log st1) B = committed_bytes (os_log st) B - chunks seg cs"
          using m(2,4) True by (simp_all add: e set_segment_def mask_set_clear)
        have "chunks seg (mask_set (commit_mask ?sg) - cs) \<inter> chunks seg cs = {}" by (rule chunks_disjoint) blast
        moreover have "chunks seg (mask_set (commit_mask ?sg) - cs) \<subseteq> chunks seg (mask_set (commit_mask ?sg))" by (rule chunks_mono) blast
        moreover have "chunks seg (mask_set (commit_mask ?sg)) \<subseteq> committed_bytes (os_log st) B" using s by (simp add: mask_sound_def)
        ultimately have "chunks seg (mask_set (commit_mask ?sg) - cs) \<subseteq> committed_bytes (os_log st) B - chunks seg cs" by blast
        moreover have "same_but_masks seg st st1" unfolding e by (rule same_trans [OF same_steps(4) same_steps(1)])
        ultimately show ?thesis unfolding cm by blast
      qed
    qed
    have same: "same_but_masks seg st ?st2" by (rule same_trans [OF _ same_steps(2)]) (use st1 in blast)
    have f: "commit_mask (segment_at ?st2 seg) = commit_mask (segment_at st1 seg)"
      "mask_set (purge_mask (segment_at ?st2 seg)) = mask_set (purge_mask ?sg) - cs" "os_log ?st2 = os_log st1"
      using st1 m(2) by (simp_all add: set_segment_def mask_set_clear)
    have "mask_set (purge_mask ?sg) - cs \<subseteq> mask_set (commit_mask (segment_at st1 seg))"
      using s st1 unfolding mask_sound_def by blast
    then have "mask_sound B seg ?st2"
      using s st1 same_fits [OF same, of seg] unfolding mask_sound_def f by blast
    then show ?thesis using same st1 unfolding run f by blast
  qed
qed

lemma run_in_segment:
  assumes "unat seg + 2 ^ 25 < 2 ^ 64" "0 < cnt" "i + cnt \<le> 512"
  defines "p \<equiv> seg + word_of_nat i * MI_COMMIT_SIZE" and "sz \<equiv> word_of_nat cnt * MI_COMMIT_SIZE"
  shows "in_segment seg p sz" "inner (unat p - unat seg) (unat sz) = {i..<i + cnt}"
proof -
  have i: "unat (word_of_nat i * MI_COMMIT_SIZE) = i * 65536"
    using assms(3) by (subst unat_mult_small) (simp_all add: commit_size unat_of_nat_small)
  have z: "unat sz = cnt * 65536"
    unfolding sz_def using assms(3) by (subst unat_mult_small) (simp_all add: commit_size unat_of_nat_small)
  have "(i + cnt) * 65536 \<le> 512 * 65536" using assms(3) by (rule mult_le_mono1)
  then have "i * 65536 + cnt * 65536 \<le> 2 ^ 25" by (simp add: distrib_right)
  moreover then have p: "unat p = unat seg + i * 65536" unfolding p_def using assms(1) i by (subst unat_add_small) simp_all
  ultimately show "in_segment seg p sz" using z assms(2) by (simp add: in_segment_def)
  show "inner (unat p - unat seg) (unat sz) = {i..<i + cnt}"
  proof -
    have e: "i * 65536 + cnt * 65536 = (i + cnt) * 65536" by (simp add: distrib_right)
    have "(i * 65536 + 65535) div 65536 = i" "(i * 65536 + cnt * 65536) div 65536 = i + cnt" unfolding e by simp_all
    then show ?thesis by (simp add: p z inner_def)
  qed
qed

text \<open>The loop over the runs of a mask ends, and gives back at most the chunks of the mask.\<close>

lemma purge_runs_sound:
  assumes "mask_sound B seg st" "idx \<le> 512"
  shows "\<exists>st'. purge_runs env seg msk idx st = Some st' \<and> mask_sound B seg st' \<and> same_but_masks seg st st' \<and>
    committed_bytes (os_log st) B - chunks seg (mask_set msk) \<subseteq> committed_bytes (os_log st') B \<and>
    mask_set (commit_mask (segment_at st seg)) - mask_set msk \<subseteq> mask_set (commit_mask (segment_at st' seg)) \<and>
    mask_set (purge_mask (segment_at st' seg)) \<subseteq> mask_set (purge_mask (segment_at st seg))"
  using assms
proof (induction "512 - idx" arbitrary: idx st rule: less_induct)
  case less
  show ?case
  proof (rule next_run [OF less.prems(2), of msk])
    assume "mi_commit_mask_next_run msk idx = Some (0, 512)"
    then have "purge_runs env seg msk idx st = Some st" by (subst purge_runs.simps) simp
    then show ?thesis using less.prems(1) by (auto simp: same_refl)
  next
    fix cnt i
    assume r: "mi_commit_mask_next_run msk idx = Some (cnt, i)" "0 < cnt" "idx \<le> i" "i + cnt \<le> 512"
      "{i..<i + cnt} \<subseteq> mask_set msk"
    let ?p = "seg + word_of_nat i * MI_COMMIT_SIZE" and ?sz = "word_of_nat cnt * MI_COMMIT_SIZE"
    let ?st = "mi_segment_purge env seg ?p ?sz st"
    have fit: "unat seg + 2 ^ 25 < 2 ^ 64" using less.prems(1) by (simp add: mask_sound_def segment_fits_def)
    note in_seg = run_in_segment [OF fit r(2,4)]
    note pu = segment_purge_sound [OF less.prems(1) in_seg(1), of env, unfolded in_seg(2)]
    have c: "chunks seg {i..<i + cnt} \<subseteq> chunks seg (mask_set msk)" by (rule chunks_mono [OF r(5)])
    have "512 - (i + cnt) < 512 - idx" using r(2-4) by linarith
    from less.hyps [OF this, of ?st] pu r(4) obtain st' where st':
      "purge_runs env seg msk (i + cnt) ?st = Some st'" "mask_sound B seg st'" "same_but_masks seg ?st st'"
      "committed_bytes (os_log ?st) B - chunks seg (mask_set msk) \<subseteq> committed_bytes (os_log st') B"
      "mask_set (commit_mask (segment_at ?st seg)) - mask_set msk \<subseteq> mask_set (commit_mask (segment_at st' seg))"
      "mask_set (purge_mask (segment_at st' seg)) \<subseteq> mask_set (purge_mask (segment_at ?st seg))" by blast
    have "purge_runs env seg msk idx st = Some st'" using r(1,2) st'(1) by (subst purge_runs.simps) (simp add: Let_def)
    moreover have "same_but_masks seg st st'" using pu st'(3) same_trans by blast
    ultimately show ?thesis using pu st' c r(5) by blast
  qed
qed

lemma try_purge_sound:
  assumes s: "mask_sound B seg st"
  shows "\<exists>st'. mi_segment_try_purge env seg force st = Some st' \<and> mask_sound B seg st' \<and> same_but_masks seg st st' \<and>
    committed_bytes (os_log st) B - chunks seg (mask_set (purge_mask (segment_at st seg))) \<subseteq> committed_bytes (os_log st') B \<and>
    mask_set (commit_mask (segment_at st seg)) - mask_set (purge_mask (segment_at st seg)) \<subseteq> mask_set (commit_mask (segment_at st' seg))"
proof (cases "\<not> allow_purge (segment_at st seg) \<or> mi_commit_mask_is_empty (purge_mask (segment_at st seg))")
  case True
  then have "mi_segment_try_purge env seg force st = Some st" by (simp add: mi_segment_try_purge_def)
  then show ?thesis using s by (auto simp: same_refl)
next
  case ne: False
  let ?st = "st\<lparr>ticks := ticks st + 1\<rparr>"
  show ?thesis
  proof (cases "\<not> force \<and> os_now env (ticks st) < purge_expire (segment_at st seg)")
    case True
    then have "mi_segment_try_purge env seg force st = Some ?st" using ne by (simp add: mi_segment_try_purge_def mi_clock_now_def)
    then show ?thesis using s by (auto simp: same_steps mask_sound_def)
  next
    case False
    let ?s2 = "set_segment seg (\<lambda>sg. sg\<lparr>purge_mask := mi_commit_mask_create_empty\<rparr>)
       (set_segment seg (\<lambda>sg. sg\<lparr>purge_expire := 0\<rparr>) ?st)"
    have run: "mi_segment_try_purge env seg force st = purge_runs env seg (purge_mask (segment_at st seg)) 0 ?s2"
      using ne False unfolding mi_segment_try_purge_def mi_clock_now_def Let_def by auto
    have same: "same_but_masks seg st ?s2"
      by (rule same_trans [OF same_trans [OF same_steps(5) same_steps(3)] same_steps(2)])
    have f: "os_log ?s2 = os_log st" "commit_mask (segment_at ?s2 seg) = commit_mask (segment_at st seg)"
      "mask_set (purge_mask (segment_at ?s2 seg)) = {}" by (simp_all add: set_segment_def mask_set_empty)
    have "mask_sound B seg ?s2" using s same_fits [OF same, of seg] unfolding mask_sound_def f by blast
    from purge_runs_sound [OF this, of 0 env "purge_mask (segment_at st seg)", unfolded f] show ?thesis
      unfolding run using same same_trans by auto
  qed
qed

lemma schedule_purge_sound:
  assumes s: "mask_sound B seg st" and r: "in_segment seg p sz"
  shows "\<exists>st'. mi_segment_schedule_purge env seg p sz st = Some st' \<and> mask_sound B seg st' \<and> same_but_masks seg st st' \<and>
    committed_bytes (os_log st) B - bytes p sz - chunks seg (mask_set (purge_mask (segment_at st seg))) \<subseteq> committed_bytes (os_log st') B"
proof -
  let ?sg = "segment_at st seg" and ?cs = "inner (unat p - unat seg) (unat sz)"
  have fit: "unat seg + 2 ^ 25 < 2 ^ 64" using s by (simp add: mask_sound_def segment_fits_def)
  have ib: "chunks seg ?cs \<subseteq> bytes p sz" by (rule inner_bytes [OF r fit])
  obtain start full msk where m: "mi_segment_commit_mask seg ?sg True p sz = (start, full, msk)" "mask_set msk = ?cs"
    using commit_mask_range [OF _ r, of ?sg True] s by (auto simp: mask_sound_def)
  consider "\<not> allow_purge ?sg \<or> purge_delay env \<noteq> 0 \<and> (mi_commit_mask_is_empty msk \<or> full = 0)" | "allow_purge ?sg" "purge_delay env = 0"
    | "allow_purge ?sg" "purge_delay env \<noteq> 0" "\<not> (mi_commit_mask_is_empty msk \<or> full = 0)" by blast
  then show ?thesis
  proof cases
    case 1
    then have "mi_segment_schedule_purge env seg p sz st = Some st" by (auto simp: mi_segment_schedule_purge_def m(1))
    then show ?thesis using s by (auto simp: same_refl)
  next
    case 2
    then have "mi_segment_schedule_purge env seg p sz st = Some (mi_segment_purge env seg p sz st)"
      by (simp add: mi_segment_schedule_purge_def)
    then show ?thesis using segment_purge_sound [OF s r, of env] ib by blast
  next
    case 3
    let ?cm = "mi_commit_mask_create_intersect (commit_mask ?sg) msk"
    let ?s1 = "set_segment seg (\<lambda>sg. sg\<lparr>purge_mask := mi_commit_mask_set (purge_mask sg) ?cm\<rparr>) st"
    let ?s2 = "?s1\<lparr>ticks := ticks st + 1\<rparr>" and ?now = "os_now env (ticks st)"
    have same2: "same_but_masks seg st ?s2" by (rule same_trans [OF same_steps(2) same_steps(5)])
    have f: "os_log ?s2 = os_log st" "commit_mask (segment_at ?s2 seg) = commit_mask ?sg"
      "mask_set (purge_mask (segment_at ?s2 seg)) = mask_set (purge_mask ?sg) \<union> (mask_set (commit_mask ?sg) \<inter> ?cs)"
      "purge_expire (segment_at ?s2 seg) = purge_expire ?sg"
      using m(2) by (simp_all add: set_segment_def mask_set_set mask_set_intersect)
    have s2: "mask_sound B seg ?s2" using s same_fits [OF same2, of seg] unfolding mask_sound_def f by blast
    have ticks1: "ticks ?s1 = ticks st" by (simp add: set_segment_def)
    define st4 where "st4 = (\<lambda>e. set_segment seg (\<lambda>sg. sg\<lparr>purge_expire := e sg\<rparr>) ?s2)"
    have st4: "mask_sound B seg (st4 e) \<and> same_but_masks seg st (st4 e) \<and> os_log (st4 e) = os_log st" for e
    proof -
      have same: "same_but_masks seg ?s2 (st4 e)" unfolding st4_def by (rule same_steps(3))
      have g: "os_log (st4 e) = os_log ?s2" "commit_mask (segment_at (st4 e) seg) = commit_mask (segment_at ?s2 seg)"
        "purge_mask (segment_at (st4 e) seg) = purge_mask (segment_at ?s2 seg)" by (simp_all add: st4_def set_segment_def)
      have "mask_sound B seg (st4 e)" using s2 same_fits [OF same, of seg] unfolding mask_sound_def g by blast
      then show ?thesis using same_trans [OF same2 same] g(1) f(1) by simp
    qed
    have run: "mi_segment_schedule_purge env seg p sz st =
        (if purge_expire ?sg = 0 then Some (st4 (\<lambda>_. ?now + purge_delay env))
         else if purge_expire ?sg \<le> ?now then
           (if purge_expire ?sg + purge_extend_delay env \<le> ?now then mi_segment_try_purge env seg True ?s2
            else Some (st4 (\<lambda>_. ?now + purge_extend_delay env)))
         else Some (st4 (\<lambda>sg. purge_expire sg + purge_extend_delay env)))"
      unfolding mi_segment_schedule_purge_def m(1) st4_def using 3
      by (simp add: Let_def mi_clock_now_def set_segment_def)
    obtain st' where st': "mi_segment_try_purge env seg True ?s2 = Some st'" "mask_sound B seg st'" "same_but_masks seg ?s2 st'"
      "committed_bytes (os_log st) B - chunks seg (mask_set (purge_mask (segment_at ?s2 seg))) \<subseteq> committed_bytes (os_log st') B"
      using try_purge_sound [OF s2, of env True, unfolded f(1)] by blast
    have "chunks seg (mask_set (purge_mask (segment_at ?s2 seg))) \<subseteq> chunks seg (mask_set (purge_mask ?sg)) \<union> bytes p sz"
    proof -
      have "chunks seg (mask_set (commit_mask ?sg) \<inter> ?cs) \<subseteq> chunks seg ?cs" by (rule chunks_mono) blast
      then show ?thesis unfolding f(3) chunks_Un using ib by blast
    qed
    then have b: "committed_bytes (os_log st) B - bytes p sz - chunks seg (mask_set (purge_mask ?sg)) \<subseteq> committed_bytes (os_log st') B"
      using st'(4) by blast
    have same': "same_but_masks seg st st'" by (rule same_trans [OF same2 st'(3)])
    show ?thesis
    proof (cases "purge_expire ?sg \<noteq> 0 \<and> purge_expire ?sg \<le> ?now \<and> purge_expire ?sg + purge_extend_delay env \<le> ?now")
      case True
      then have "mi_segment_schedule_purge env seg p sz st = Some st'" using run st'(1) by simp
      then show ?thesis using st'(2) same' b by blast
    next
      case False
      have "\<exists>e. mi_segment_schedule_purge env seg p sz st = Some (st4 e)"
      proof (cases "purge_expire ?sg = 0")
        case True
        then have "mi_segment_schedule_purge env seg p sz st = Some (st4 (\<lambda>_. ?now + purge_delay env))" unfolding run by (rule if_P)
        then show ?thesis by blast
      next
        case nz: False
        show ?thesis
        proof (cases "purge_expire ?sg \<le> ?now")
          case True
          then have "\<not> purge_expire ?sg + purge_extend_delay env \<le> ?now" using False nz by blast
          then have "mi_segment_schedule_purge env seg p sz st = Some (st4 (\<lambda>_. ?now + purge_extend_delay env))"
            unfolding run if_not_P [OF nz] if_P [OF True] by (rule if_not_P)
          then show ?thesis by blast
        next
          case late: False
          show ?thesis unfolding run if_not_P [OF nz] if_not_P [OF late] by blast
        qed
      qed
      then show ?thesis using st4 by auto
    qed
  qed
qed

section \<open>Properties\<close>

text \<open>
  (C39) The commit mask never claims memory that is not committed: committing keeps this, whatever the system answers, and if
  it reports success every byte of the range is committed, and none of its chunks waits to be purged. No memory is given back.
\<close>

theorem commit_covers_range:
  assumes "mask_sound B seg st" "in_segment seg p sz"
  shows "\<exists>ok st'. mi_segment_ensure_committed env seg p sz st = (ok, st') \<and> mask_sound B seg st' \<and>
    committed_bytes (os_log st) B \<subseteq> committed_bytes (os_log st') B \<and>
    (ok \<longrightarrow> bytes p sz \<subseteq> committed_bytes (os_log st') B \<and>
       outer (unat p - unat seg) (unat sz) \<inter> mask_set (purge_mask (segment_at st' seg)) = {})"
proof -
  obtain ok st' where e: "mi_segment_ensure_committed env seg p sz st = (ok, st')" "mask_sound B seg st'"
    "committed_bytes (os_log st) B \<subseteq> committed_bytes (os_log st') B"
    "ok \<longrightarrow> outer (unat p - unat seg) (unat sz) \<subseteq> mask_set (commit_mask (segment_at st' seg)) \<and>
       outer (unat p - unat seg) (unat sz) \<inter> mask_set (purge_mask (segment_at st' seg)) = {}"
    using ensure_committed_sound [OF assms, of env] by blast
  have "bytes p sz \<subseteq> chunks seg (outer (unat p - unat seg) (unat sz))"
  proof
    fix n assume "n \<in> bytes p sz"
    then have n: "unat p - unat seg \<le> n - unat seg" "n - unat seg < unat p - unat seg + unat sz" "unat seg \<le> n"
      using assms(2) by (auto simp: bytes_def in_segment_def)
    let ?c = "(n - unat seg) div 65536"
    have "(unat p - unat seg) div 65536 \<le> ?c" by (rule div_le_mono [OF n(1)])
    moreover have "?c < (unat p - unat seg + unat sz + 65535) div 65536" using n(2) by linarith
    moreover have "unat seg + ?c * 65536 \<le> n" "n < unat seg + (?c + 1) * 65536"
      using n(3) div_times_less_eq_dividend [of "n - unat seg" 65536] dividend_less_div_times [of 65536 "n - unat seg"]
      by (simp_all add: distrib_right)
    ultimately show "n \<in> chunks seg (outer (unat p - unat seg) (unat sz))" unfolding chunks_def outer_def by auto
  qed
  then have "ok \<longrightarrow> bytes p sz \<subseteq> committed_bytes (os_log st') B"
    using e(2,4) chunks_mono [of "outer (unat p - unat seg) (unat sz)" _ seg] unfolding mask_sound_def by blast
  then show ?thesis using e by blast
qed

text \<open>
  (C38) Purging gives back only memory inside the range that is freed, or memory that an earlier call scheduled for purging, and
  keeps the commit mask sound, whatever the system answers and whenever it is called; scheduling a purge always returns,
  also when it runs the purges whose time has come.
\<close>

theorem purge_stays_in_range:
  assumes "mask_sound B seg st" "in_segment seg p sz"
  shows "mask_sound B seg (mi_segment_purge env seg p sz st) \<and>
    committed_bytes (os_log st) B - bytes p sz \<subseteq> committed_bytes (os_log (mi_segment_purge env seg p sz st)) B \<and>
    (\<exists>st'. mi_segment_schedule_purge env seg p sz st = Some st' \<and> mask_sound B seg st' \<and>
       committed_bytes (os_log st) B - bytes p sz - chunks seg (mask_set (purge_mask (segment_at st seg)))
         \<subseteq> committed_bytes (os_log st') B)"
proof -
  have "unat seg + 2 ^ 25 < 2 ^ 64" using assms(1) by (simp add: mask_sound_def segment_fits_def)
  note ib = inner_bytes [OF assms(2) this]
  show ?thesis using segment_purge_sound [OF assms, of env] schedule_purge_sound [OF assms, of env] ib by blast
qed

text \<open>A segment with its first four chunks committed.\<close>

definition example_segs :: segs_state where
  "example_segs = \<lparr>segment_at = \<lambda>_. \<lparr>sg_memid = mi_memid_none, allow_decommit = True, allow_purge = True, purge_expire = 0,
       purge_mask = mi_commit_mask_create_empty, commit_mask = mi_commit_mask_create 0 4, sg_abandoned = 0, sg_used = 0,
       segment_slices = 512, segment_info_slices = 1, sg_kind = MI_SEGMENT_NORMAL, slice_entries = 512, thread_id = 1,
       abandoned_next = 0, abandoned_visits = 0\<rparr>,
     slice_at = \<lambda>_. example_page, spans = MI_SEGMENT_SPAN_QUEUES_EMPTY, tld_count = 1, tld_peak_count = 1, tld_current_size = 0x2000000,
     tld_peak_size = 0x2000000, abandoned = 0, abandoned_visited = 0, abandoned_count = 0, abandoned_visited_count = 0, abandoned_readers = 0,
     os_log = [], ticks = 0\<rparr>"

definition example_os :: os_env where
  "example_os = \<lparr>os_commit_ok = \<lambda>_. True, os_decommits = \<lambda>_. True, os_now = int, purge_delay = 10, purge_extend_delay = 1, page_reset = True,
     arena_alloc = \<lambda>k sz al ofs commit large req. (if req = 0 then 0x4000000 else 0, mi_memid_none\<lparr>initially_zero := True\<rparr>), os_page_size = 4096, mi_secure = 0,
     thread_count = 1, current_thread = 1, eager_commit = True, eager_commit_delay = 1, abandoned_page_purge = False,
     max_segment_reclaim = 8, seg_others = \<lambda>_ st. st, seg_spurious = \<lambda>_. False\<rparr>"

lemma example_sound: "mask_sound {0x2000000..<0x2040000} 0x2000000 example_segs"
proof -
  have "chunks 0x2000000 {0..<4} = {0x2000000..<0x2040000}" using chunks_range [of 0 4 "0x2000000"] by simp
  then show ?thesis using mask_set_create(1) [of 0 4]
    by (simp add: mask_sound_def segment_fits_def example_segs_def mask_set_empty)
qed

theorem commit_covers_range_witness:
  "\<exists>ok st'. mi_segment_ensure_committed example_os 0x2000000 0x2050000 0x10000 example_segs = (ok, st') \<and>
     (ok \<longrightarrow> bytes 0x2050000 0x10000 \<subseteq> committed_bytes (os_log st') {0x2000000..<0x2040000})"
  using commit_covers_range [OF example_sound, of "0x2050000" "0x10000" example_os] by (auto simp: in_segment_def)

theorem purge_stays_in_range_witness:
  "committed_bytes [] {0x2000000..<0x2040000} - bytes 0x2010000 0x10000
     \<subseteq> committed_bytes (os_log (mi_segment_purge example_os 0x2000000 0x2010000 0x10000 example_segs)) {0x2000000..<0x2040000}"
  using purge_stays_in_range [OF example_sound, of "0x2010000" "0x10000" example_os] by (simp add: in_segment_def example_segs_def)

end
