(* ===== verification/Mi_Span_Queues.thy ===== *)
theory Mi_Span_Queues
  imports Mi_Segment_Bins Mi_Segment_Commit Mi_Queue_Lists
begin

text \<open>
  The addresses of the slices of a segment, and the span queues as lists of slices: pushing and deleting a span are the
  list operations, and the search in a queue finds the first span that fits.
\<close>

section \<open>The addresses of slices\<close>

definition seg_base :: "addr \<Rightarrow> bool" where
  "seg_base seg \<longleftrightarrow> seg AND MI_SEGMENT_MASK = 0 \<and> unat seg + 2 ^ 25 < 2 ^ 64"

definition sa :: "addr \<Rightarrow> nat \<Rightarrow> addr" where
  "sa seg i = slice_addr seg (word_of_nat i)"

lemma seg_mask: "MI_SEGMENT_MASK = mask 25"
  by (simp add: MI_SEGMENT_MASK_def MI_SEGMENT_SIZE_def MI_SEGMENT_SHIFT_def MI_SEGMENT_SLICE_SHIFT_def mask_eq_exp_minus_1)

lemma ptr_segment:
  assumes "seg_base seg" "unat seg < unat p" "unat p \<le> unat seg + 2 ^ 25"
  shows "mi_ptr_segment p = seg"
proof -
  have m: "unat seg mod 2 ^ 25 = 0"
  proof -
    have "unat (take_bit 25 seg) = 0" using assms(1) by (simp add: seg_base_def seg_mask take_bit_eq_mask)
    moreover have "unat (take_bit 25 seg) = take_bit 25 (unat seg)" by (rule unsigned_take_bit_eq)
    ultimately have "take_bit 25 (unat seg) = 0" by (rule trans [OF sym, rotated])
    then show ?thesis unfolding take_bit_eq_mod .
  qed
  have "unat (p - 1) = unat p - 1" using assms(2) by (subst unat_diff_small) simp_all
  moreover have "(unat p - 1) div 2 ^ 25 * 2 ^ 25 = unat seg"
  proof -
    obtain k where k: "unat seg = k * 2 ^ 25" using m by (metis mod_0_imp_dvd dvdE mult.commute)
    have "unat p - 1 = k * 2 ^ 25 + (unat p - 1 - unat seg)" "unat p - 1 - unat seg < 2 ^ 25" using assms(2,3) k by auto
    then have "(unat p - 1) div 2 ^ 25 = k" by (metis div_mult_self3 div_less add.commute add.right_neutral zero_less_numeral zero_less_power less_numeral_extra(3))
    then show ?thesis using k by simp
  qed
  ultimately have "unat (mi_ptr_segment p) = unat seg" using and_not_low [of "p - 1" 25] by (simp add: mi_ptr_segment_def seg_mask)
  then show ?thesis by (rule word_unat_eq_iff [THEN iffD2])
qed

lemma slice_addr_nat:
  assumes "unat seg + 2 ^ 25 < 2 ^ 64" "i \<le> 512"
  shows "unat (sa seg i) = unat seg + 264 + 80 * i"
proof -
  have a: "unat (sizeof_mi_slice_t * word_of_nat i :: u64) = 80 * i"
    using assms(2) by (subst unat_mult_small) (simp_all add: sizeof_mi_slice_t_def unat_of_nat_small)
  have b: "unat (seg + offsetof_slices) = unat seg + 264"
    using assms(1) by (subst unat_add_small) (simp_all add: offsetof_slices_def)
  have "unat (seg + offsetof_slices) + unat (sizeof_mi_slice_t * word_of_nat i :: u64) < 2 ^ LENGTH(64)"
    using assms a b by simp
  then have "unat (sa seg i) = unat (seg + offsetof_slices) + unat (sizeof_mi_slice_t * word_of_nat i :: u64)"
    unfolding sa_def slice_addr_def by (rule unat_add_small)
  then show ?thesis using a b by simp
qed

lemma slice_addr_inj:
  assumes "unat seg + 2 ^ 25 < 2 ^ 64" "i \<le> 512" "j \<le> 512"
  shows "sa seg i = sa seg j \<longleftrightarrow> i = j"
proof
  assume "sa seg i = sa seg j"
  then have "unat (sa seg i) = unat (sa seg j)" by (rule arg_cong)
  then show "i = j" unfolding slice_addr_nat [OF assms(1,2)] slice_addr_nat [OF assms(1,3)] by presburger
qed (rule arg_cong)

lemma slice_addr_less:
  assumes "unat seg + 2 ^ 25 < 2 ^ 64" "i \<le> 512" "j \<le> 512"
  shows "sa seg i < sa seg j \<longleftrightarrow> i < j"
  unfolding word_less_nat_alt slice_addr_nat [OF assms(1,2)] slice_addr_nat [OF assms(1,3)] by presburger

lemma slice_addr_nonzero: "unat seg + 2 ^ 25 < 2 ^ 64 \<Longrightarrow> i \<le> 512 \<Longrightarrow> sa seg i \<noteq> 0"
proof
  assume a: "unat seg + 2 ^ 25 < 2 ^ 64" "i \<le> 512" "sa seg i = 0"
  then have "unat (sa seg i) = 0" by simp
  then show False unfolding slice_addr_nat [OF a(1,2)] by presburger
qed

lemma slice_addr_segment: "seg_base seg \<Longrightarrow> i \<le> 512 \<Longrightarrow> mi_ptr_segment (sa seg i) = seg"
  by (rule ptr_segment) (unfold seg_base_def, simp_all add: slice_addr_nat)

lemma slice_addr_index:
  assumes "seg_base seg" "i \<le> 512"
  shows "mi_slice_index (sa seg i) = word_of_nat i" "mi_slice_start (sa seg i) = seg + word_of_nat i * MI_SEGMENT_SLICE_SIZE"
proof -
  have "sa seg i - (seg + offsetof_slices) = sizeof_mi_slice_t * word_of_nat i" by (simp add: sa_def slice_addr_def)
  moreover have "(sizeof_mi_slice_t * word_of_nat i) div sizeof_mi_slice_t = (word_of_nat i :: u64)"
  proof -
    have "unat (sizeof_mi_slice_t * word_of_nat i :: u64) = 80 * i"
      using assms(2) by (subst unat_mult_small) (simp_all add: sizeof_mi_slice_t_def unat_of_nat_small)
    then have "unat ((sizeof_mi_slice_t * word_of_nat i :: u64) div sizeof_mi_slice_t) = i" by (simp add: unat_div sizeof_mi_slice_t_def)
    then show ?thesis by (metis word_nat_cases unat_of_nat_small assms(2) word_unat_eq_iff unsigned_of_nat)
  qed
  ultimately show "mi_slice_index (sa seg i) = word_of_nat i" "mi_slice_start (sa seg i) = seg + word_of_nat i * MI_SEGMENT_SLICE_SIZE"
    using slice_addr_segment [OF assms] by (simp_all add: mi_slice_index_def mi_slice_start_def)
qed

lemma slice_addr_step: "sa seg i + sizeof_mi_slice_t * word_of_nat k = sa seg (i + k)"
  "k \<le> i \<Longrightarrow> sa seg i - sizeof_mi_slice_t * word_of_nat k = sa seg (i - k)"
  by (simp_all add: sa_def slice_addr_def algebra_simps of_nat_diff)

section \<open>The span queues as lists\<close>

definition span_lists :: "(nat \<Rightarrow> addr list) \<Rightarrow> (addr \<Rightarrow> mi_page_t) \<Rightarrow> mi_span_queue_t list \<Rightarrow> bool" where
  "span_lists Q pa sqs \<longleftrightarrow> length sqs = 36 \<and>
     (\<forall>q < 36. sq_first (sqs ! q) = head0 (Q q) \<and> sq_last (sqs ! q) = last0 (Q q) \<and> dll pa 0 (Q q) 0 \<and> distinct (Q q)) \<and>
     (\<forall>q < 36. \<forall>r < 36. q \<noteq> r \<longrightarrow> set (Q q) \<inter> set (Q r) = {})"

lemma span_lists_get:
  assumes "span_lists Q pa sqs" "q < 36"
  shows "sq_first (sqs ! q) = head0 (Q q)" "sq_last (sqs ! q) = last0 (Q q)" "dll pa 0 (Q q) 0" "distinct (Q q)"
    "length sqs = 36" "r < 36 \<Longrightarrow> r \<noteq> q \<Longrightarrow> set (Q q) \<inter> set (Q r) = {}"
  using assms unfolding span_lists_def by blast+

lemma span_lists_update:
  assumes sl: "span_lists Q pa sqs" and q: "q < 36"
    and new: "sq_first sq = head0 zs" "sq_last sq = last0 zs" "dll pa' 0 zs 0" "distinct zs"
    and apart: "\<And>r. r < 36 \<Longrightarrow> r \<noteq> q \<Longrightarrow> set zs \<inter> set (Q r) = {}"
    and same: "\<And>r y. r < 36 \<Longrightarrow> r \<noteq> q \<Longrightarrow> y \<in> set (Q r) \<Longrightarrow>
      page_prev (pa' y) = page_prev (pa y) \<and> page_next (pa' y) = page_next (pa y)"
  shows "span_lists (Q(q := zs)) pa' (sqs[q := sq])"
proof -
  have len: "length sqs = 36" by (rule span_lists_get(5) [OF sl q])
  have old: "dll pa' 0 (Q r) 0" if "r < 36" "r \<noteq> q" for r
    by (rule dll_frame [OF span_lists_get(3) [OF sl that(1)] same [OF that]])
  have lists: "sq_first (sqs[q := sq] ! r) = head0 ((Q(q := zs)) r) \<and> sq_last (sqs[q := sq] ! r) = last0 ((Q(q := zs)) r) \<and>
      dll pa' 0 ((Q(q := zs)) r) 0 \<and> distinct ((Q(q := zs)) r)" if "r < 36" for r
    using new old [OF that] span_lists_get [OF sl that] len that by (cases "r = q") simp_all
  have disjoint: "set ((Q(q := zs)) r) \<inter> set ((Q(q := zs)) r') = {}" if "r < 36" "r' < 36" "r \<noteq> r'" for r r'
  proof -
    consider "r = q" | "r' = q" | "r \<noteq> q" "r' \<noteq> q" by blast
    then show ?thesis
    proof cases
      case 1
      then show ?thesis using apart [of r'] that by simp
    next
      case 2
      then show ?thesis using apart [of r] that by (simp add: Int_commute)
    next
      case 3
      then show ?thesis using span_lists_get(6) [OF sl that(1), of r'] that by simp
    qed
  qed
  show ?thesis unfolding span_lists_def using lists disjoint len by simp
qed

text \<open>The fields of the slices that the queue operations do not use as links.\<close>

definition same_spans :: "(addr \<Rightarrow> mi_page_t) \<Rightarrow> (addr \<Rightarrow> mi_page_t) \<Rightarrow> bool" where
  "same_spans pa pa' \<longleftrightarrow> (\<forall>y. slice_count (pa' y) = slice_count (pa y) \<and> slice_offset (pa' y) = slice_offset (pa y))"

definition queue_moved :: "segs_state \<Rightarrow> addr \<Rightarrow> u32 \<Rightarrow> (nat \<Rightarrow> addr list) \<Rightarrow> segs_state \<Rightarrow> bool" where
  "queue_moved st x b Q st' \<longleftrightarrow> (\<exists>pa sqs. st' = st\<lparr>slice_at := pa, spans := sqs\<rparr> \<and> span_lists Q pa sqs \<and> same_spans (slice_at st) pa \<and>
     (\<forall>y. xblock_size (pa y) = (if y = x then b else xblock_size (slice_at st y))))"

lemma queue_movedI:
  "st' = st\<lparr>slice_at := pa, spans := sqs\<rparr> \<Longrightarrow> span_lists Q pa sqs \<Longrightarrow> same_spans (slice_at st) pa \<Longrightarrow>
    (\<And>y. xblock_size (pa y) = (if y = x then b else xblock_size (slice_at st y))) \<Longrightarrow> queue_moved st x b Q st'"
  unfolding queue_moved_def by blast

lemma span_queue_push_lists:
  assumes sl: "span_lists Q (slice_at st) (spans st)" and q: "q < 36" and x: "x \<noteq> 0" "\<And>r. r < 36 \<Longrightarrow> x \<notin> set (Q r)"
  shows "queue_moved st x 0 (Q(q := x # Q q)) (mi_span_queue_push q x st)"
proof -
  note g = span_lists_get [OF sl q]
  let ?pa = "slice_at st" and ?sqs = "spans st"
  let ?p1 = "?pa(x := (?pa x)\<lparr>page_prev := 0, page_next := head0 (Q q)\<rparr>)"
  show ?thesis
  proof (cases "Q q")
    case Nil
    let ?p2 = "?pa(x := (?pa x)\<lparr>page_prev := 0, page_next := 0, xblock_size := 0\<rparr>)" and ?sq = "(?sqs ! q)\<lparr>sq_first := x, sq_last := x\<rparr>"
    have "mi_span_queue_push q x st = st\<lparr>slice_at := ?p2, spans := ?sqs[q := ?sq]\<rparr>"
      using g(1,5) q Nil by (simp add: mi_span_queue_push_def set_slice_def set_span_def head0_def Let_def)
    moreover have "span_lists (Q(q := [x])) ?p2 (?sqs[q := ?sq])"
      by (rule span_lists_update [OF sl q]) (use x in \<open>auto simp: head0_def last0_def\<close>)
    ultimately show ?thesis unfolding Nil by (rule queue_movedI) (simp_all add: same_spans_def)
  next
    case (Cons y ys)
    have y: "y \<noteq> x" "y \<noteq> 0" using x(2) [OF q] Cons dll_nonzero [OF g(3), of y] by auto
    let ?p2 = "?p1(y := (?pa y)\<lparr>page_prev := x\<rparr>)"
    let ?p3 = "?p2(x := (?p1 x)\<lparr>xblock_size := 0\<rparr>)" and ?sq = "(?sqs ! q)\<lparr>sq_first := x\<rparr>"
    have st: "mi_span_queue_push q x st = st\<lparr>slice_at := ?p3, spans := ?sqs[q := ?sq]\<rparr>"
      using g(1,5) q Cons y by (simp add: mi_span_queue_push_def set_slice_def set_span_def head0_def Let_def fun_upd_twist)
    have nx: "x \<notin> set (y # ys)" using x(2) [OF q] Cons by simp
    have "dll ?pa 0 (y # ys) 0" "distinct (y # ys)" using g(3,4) Cons by simp_all
    then have "dll (?pa(y := (?pa y)\<lparr>page_prev := x\<rparr>)) x (y # ys) 0" by (rule dll_relink_first)
    then have "dll ?p3 x (y # ys) 0" by (rule dll_frame) (use nx y in auto)
    then have d: "dll ?p3 0 (x # y # ys) 0" using x(1) y Cons by (simp add: head0_def)
    have "span_lists (Q(q := x # y # ys)) ?p3 (?sqs[q := ?sq])"
    proof (rule span_lists_update [OF sl q _ _ d])
      show "sq_first ?sq = head0 (x # y # ys)" "sq_last ?sq = last0 (x # y # ys)" using g(2) Cons by (simp_all add: head0_def last0_def)
      show "distinct (x # y # ys)" using nx g(4) Cons by simp
      fix r assume r: "r < 36" "r \<noteq> q"
      show apart: "set (x # y # ys) \<inter> set (Q r) = {}" using x(2) [OF r(1)] g(6) [OF r] Cons by auto
      fix z assume "z \<in> set (Q r)"
      then have "z \<noteq> x" "z \<noteq> y" using apart by auto
      then show "page_prev (?p3 z) = page_prev (?pa z) \<and> page_next (?p3 z) = page_next (?pa z)" by simp
    qed
    then show ?thesis unfolding st Cons by (rule queue_movedI [OF refl]) (use y in \<open>simp_all add: same_spans_def\<close>)
  qed
qed

lemma span_queue_delete_lists:
  assumes sl: "span_lists Q (slice_at st) (spans st)" and q: "q < 36" and Q: "Q q = xs @ p # ys"
  shows "queue_moved st p 1 (Q(q := xs @ ys)) (mi_span_queue_delete q p st)"
proof -
  note g = span_lists_get [OF sl q, unfolded Q]
  let ?pa = "slice_at st" and ?sqs = "spans st"
  let ?u = "unlinked ?pa p xs ys"
  let ?p = "?u(p := (?pa p)\<lparr>page_prev := 0, page_next := 0, xblock_size := 1\<rparr>)"
  let ?sq = "(?sqs ! q)\<lparr>sq_first := head0 (xs @ ys), sq_last := last0 (xs @ ys)\<rparr>"
  note at = dll_at [OF g(3)]
  have nz: "x \<in> set (xs @ p # ys) \<Longrightarrow> x \<noteq> 0" for x by (rule dll_nonzero [OF g(3)])
  have np: "p \<notin> set xs" "p \<notin> set ys" "set xs \<inter> set ys = {}" using g(4) by auto
  have first: "p = head0 (xs @ p # ys) \<longleftrightarrow> xs = []" using np by (cases xs) (auto simp: head0_def)
  have last: "p = last0 (xs @ p # ys) \<longleftrightarrow> ys = []"
  proof (cases "ys = []")
    case False
    then have "last ys \<noteq> p" using np last_in_set [OF False] by auto
    then show ?thesis using False by (simp add: last0_def)
  qed (simp add: last0_def)
  obtain c where sq: "?sqs ! q = \<lparr>sq_first = head0 (xs @ p # ys), sq_last = last0 (xs @ p # ys), sq_slice_count = c\<rparr>"
    using g(1,2) by (cases "?sqs ! q") auto
  have same: "?sqs[q := \<lparr>sq_first = head0 (xs @ p # ys), sq_last = last0 (xs @ p # ys), sq_slice_count = c\<rparr>] = ?sqs"
    using list_update_id [of ?sqs q] unfolding sq .
  have st: "mi_span_queue_delete q p st = st\<lparr>slice_at := ?p, spans := ?sqs[q := ?sq]\<rparr>"
  proof (cases xs rule: rev_cases)
    case Nil
    then show ?thesis using at g(5) q sq same first last np nz
      by (cases "ys = []") (auto simp: mi_span_queue_delete_def set_slice_def set_span_def unlinked_def Let_def head0_def last0_def)
  next
    case (snoc zs z)
    then show ?thesis using at g(5) q sq same first last np nz
      by (cases "ys = []") (auto simp: mi_span_queue_delete_def set_slice_def set_span_def unlinked_def Let_def head0_def last0_def hd_append)
  qed
  have d: "dll ?p 0 (xs @ ys) 0" by (rule dll_frame [OF unlinked_dll [OF g(3,4)]]) (use np in auto)
  have u: "?u y = ?pa y" if "y \<notin> set xs \<union> set ys" for y by (rule unlinked_frame(1) [OF that])
  have "span_lists (Q(q := xs @ ys)) ?p (?sqs[q := ?sq])"
  proof (rule span_lists_update [OF sl q _ _ d])
    show "distinct (xs @ ys)" using g(4) by simp
    fix r assume r: "r < 36" "r \<noteq> q"
    show apart: "set (xs @ ys) \<inter> set (Q r) = {}" using g(6) [OF r] by auto
    fix z assume z: "z \<in> set (Q r)"
    then have "z \<noteq> p" "z \<notin> set xs \<union> set ys" using g(6) [OF r] by auto
    then show "page_prev (?p z) = page_prev (?pa z) \<and> page_next (?p z) = page_next (?pa z)" using u by simp
  qed simp_all
  moreover have "same_spans ?pa ?p" by (simp add: same_spans_def unlinked_def Let_def)
  moreover have "\<forall>y. xblock_size (?p y) = (if y = p then 1 else xblock_size (?pa y))" by (simp add: unlinked_def Let_def)
  ultimately show ?thesis unfolding st queue_moved_def by blast
qed

text \<open>The search stops at the first span that is large enough in a segment of a suitable arena.\<close>

definition span_suits :: "size_t \<Rightarrow> int \<Rightarrow> segs_state \<Rightarrow> addr \<Rightarrow> bool" where
  "span_suits n req st s \<longleftrightarrow> n \<le> ucast (slice_count (slice_at st s)) \<and>
     mi_arena_memid_is_suitable (sg_memid (segment_at st (mi_ptr_segment s))) req"

lemma find_in_queue_first:
  assumes "dll (slice_at st) a xs 0"
  shows "find_in_queue n req (head0 xs) st = Some (head0 (filter (span_suits n req st) xs))"
  using assms
proof (induction xs arbitrary: a)
  case Nil
  then show ?case by (subst find_in_queue.simps) (simp add: head0_def)
next
  case (Cons x xs)
  then have "find_in_queue n req (head0 xs) st = Some (head0 (filter (span_suits n req st) xs))" by auto
  moreover have "page_next (slice_at st x) = head0 xs" "x \<noteq> 0" using Cons.prems(1) by (auto simp: head0_def)
  moreover have "head0 (x # ys) = x" for ys by (simp add: head0_def)
  ultimately show ?case by (subst find_in_queue.simps) (auto simp: span_suits_def)
qed

end
