(* ===== verification/Mi_Span_Steps.thy ===== *)
theory Mi_Span_Steps
  imports Mi_Span_Queues
begin

text \<open>
  The steps of the operations on spans: a free span leaves its queue, a range of slices becomes a free span or a page,
  a span is merged with its free neighbours. The spans that are known are given as a set for each segment of the thread.
\<close>

section \<open>Spans\<close>

text \<open>The first slice, the number of slices, and whether the span is free.\<close>

type_synonym span_t = "nat \<times> nat \<times> bool"

definition span_range :: "span_t \<Rightarrow> nat set" where
  "span_range s = {fst s..<fst s + fst (snd s)}"

definition span_ok :: "span_t \<Rightarrow> bool" where
  "span_ok s \<longleftrightarrow> 1 \<le> fst (snd s) \<and> fst s + fst (snd s) \<le> 512"

definition slice_back :: "nat \<Rightarrow> u32" where
  "slice_back k = word_of_nat (80 * k)"

text \<open>The slices of a span: the offsets of a used span lead back to its first slice from the slices below \<open>MI_ALIGNMENT_MAX\<close> and the last.\<close>

fun span_at :: "addr \<Rightarrow> (addr \<Rightarrow> mi_page_t) \<Rightarrow> span_t \<Rightarrow> bool" where
  "span_at seg pa (i, n, f) \<longleftrightarrow> slice_count (pa (sa seg i)) = word_of_nat n \<and> (xblock_size (pa (sa seg i)) = 0 \<longleftrightarrow> f) \<and>
     slice_offset (pa (sa seg i)) = 0 \<and> slice_offset (pa (sa seg (i + n - 1))) = slice_back (n - 1) \<and>
     (\<not> f \<longrightarrow> (\<forall>k < min n 256. slice_offset (pa (sa seg (i + k))) = slice_back k))"

definition slice_data :: "mi_page_t \<Rightarrow> u32 \<times> u32 \<times> u32" where
  "slice_data p = (slice_count p, slice_offset p, xblock_size p)"

lemma span_at_frame:
  assumes "span_at seg pa s" "span_ok s" "\<And>k. k \<in> span_range s \<Longrightarrow> slice_data (pa' (sa seg k)) = slice_data (pa (sa seg k))"
  shows "span_at seg pa' s"
proof -
  obtain i n f where s: "s = (i, n, f)" by (cases s)
  have d: "slice_count (pa' (sa seg k)) = slice_count (pa (sa seg k)) \<and> slice_offset (pa' (sa seg k)) = slice_offset (pa (sa seg k)) \<and>
      xblock_size (pa' (sa seg k)) = xblock_size (pa (sa seg k))" if "i \<le> k" "k < i + n" for k
    using assms(3) [of k] that by (simp add: s span_range_def slice_data_def)
  have "1 \<le> n" using assms(2) by (simp add: s span_ok_def)
  then have o: "slice_offset (pa' (sa seg (i + k))) = slice_offset (pa (sa seg (i + k)))" if "k < n" for k
    using d [of "i + k"] that by simp
  have l: "slice_offset (pa' (sa seg (i + n - 1))) = slice_offset (pa (sa seg (i + n - 1)))"
    using d [of "i + n - 1"] \<open>1 \<le> n\<close> by simp
  have "\<forall>k < min n 256. slice_offset (pa' (sa seg (i + k))) = slice_offset (pa (sa seg (i + k)))" using o by simp
  then show ?thesis using assms(1) d [of i] l \<open>1 \<le> n\<close> unfolding s span_at.simps by auto
qed

definition spans_apart :: "span_t set \<Rightarrow> bool" where
  "spans_apart S \<longleftrightarrow> (\<forall>s \<in> S. \<forall>t \<in> S. s \<noteq> t \<longrightarrow> span_range s \<inter> span_range t = {})"

lemma spans_apart_first:
  assumes "spans_apart S" "s \<in> S" "t \<in> S" "span_ok s" "span_ok t" "fst s = fst t"
  shows "s = t"
proof (rule ccontr)
  assume "s \<noteq> t"
  then have "span_range s \<inter> span_range t = {}" using assms(1-3) by (auto simp: spans_apart_def)
  moreover have "fst s \<in> span_range s" "fst s \<in> span_range t" using assms(4-6) by (simp_all add: span_range_def span_ok_def)
  ultimately show False by blast
qed

lemma spans_apart_insert:
  "spans_apart S \<Longrightarrow> (\<And>t. t \<in> S \<Longrightarrow> span_range t \<inter> span_range s = {}) \<Longrightarrow> spans_apart (insert s S)"
  unfolding spans_apart_def by (metis Int_commute insert_iff)

lemma spans_apart_mono: "spans_apart S \<Longrightarrow> T \<subseteq> S \<Longrightarrow> spans_apart T"
  unfolding spans_apart_def by (meson subsetD)

section \<open>The segments of a thread\<close>

lemma seg_fits: "seg_base seg \<Longrightarrow> unat seg + 2 ^ 25 < 2 ^ 64"
  by (simp add: seg_base_def)

lemma slice_addr_eq:
  assumes "seg_base s" "seg_base t" "i \<le> 512" "j \<le> 512"
  shows "sa s i = sa t j \<longleftrightarrow> s = t \<and> i = j"
proof
  assume e: "sa s i = sa t j"
  then have "s = t" using slice_addr_segment [OF assms(1,3)] slice_addr_segment [OF assms(2,4)] by simp
  then show "s = t \<and> i = j" using slice_addr_inj [OF seg_fits [OF assms(1)] assms(3,4)] e by simp
qed simp

definition segs_ok :: "addr set \<Rightarrow> nat set \<Rightarrow> segs_state \<Rightarrow> bool" where
  "segs_ok G B st \<longleftrightarrow> (\<forall>seg \<in> G. seg_base seg \<and> mask_sound B seg st \<and> slice_entries (segment_at st seg) = 512 \<and>
     thread_id (segment_at st seg) \<noteq> 0)"

definition spans_ok :: "addr set \<Rightarrow> (addr \<Rightarrow> span_t set) \<Rightarrow> (addr \<Rightarrow> mi_page_t) \<Rightarrow> bool" where
  "spans_ok G K pa \<longleftrightarrow> (\<forall>seg \<in> G. spans_apart (K seg) \<and> (\<forall>s \<in> K seg. span_ok s \<and> span_at seg pa s))"

definition free_heads :: "addr set \<Rightarrow> (addr \<Rightarrow> span_t set) \<Rightarrow> nat \<Rightarrow> addr set" where
  "free_heads G K q = {sa seg i | seg i n. seg \<in> G \<and> (i, n, True) \<in> K seg \<and> mi_span_queue_for (word_of_nat n) = q}"

text \<open>The spans of \<open>K\<close> are there, and the queues hold the free ones.\<close>

definition known_spans :: "addr set \<Rightarrow> nat set \<Rightarrow> (addr \<Rightarrow> span_t set) \<Rightarrow> (nat \<Rightarrow> addr list) \<Rightarrow> segs_state \<Rightarrow> bool" where
  "known_spans G B K Q st \<longleftrightarrow> segs_ok G B st \<and> spans_ok G K (slice_at st) \<and> span_lists Q (slice_at st) (spans st) \<and>
     (\<forall>q < 36. set (Q q) = free_heads G K q)"

lemma span_queue_less: "span_ok (i, n, f) \<Longrightarrow> mi_span_queue_for (word_of_nat n) < 36"
  using span_queue_fits [of n, OF _ refl] by (simp add: span_ok_def)

lemma known_spans_get:
  assumes "known_spans G B K Q st" "seg \<in> G"
  shows "seg_base seg" "mask_sound B seg st" "slice_entries (segment_at st seg) = 512" "thread_id (segment_at st seg) \<noteq> 0"
    "sg_kind (segment_at st seg) = MI_SEGMENT_NORMAL" "spans_apart (K seg)"
    "s \<in> K seg \<Longrightarrow> span_ok s" "s \<in> K seg \<Longrightarrow> span_at seg (slice_at st) s"
    "span_lists Q (slice_at st) (spans st)" "q < 36 \<Longrightarrow> set (Q q) = free_heads G K q"
  using assms by (auto simp: known_spans_def segs_ok_def spans_ok_def mask_sound_def segment_fits_def)

text \<open>What the operations on spans keep of the segments.\<close>

definition segments_kept :: "segs_state \<Rightarrow> segs_state \<Rightarrow> bool" where
  "segments_kept st st' \<longleftrightarrow> (\<forall>s. no_masks (segment_at st' s) = no_masks (segment_at st s)) \<and> lists_state st' = lists_state st"

lemma segments_kept_trans: "segments_kept a b \<Longrightarrow> segments_kept b c \<Longrightarrow> segments_kept a c"
  by (simp add: segments_kept_def)

lemma segs_ok_cong: "segs_ok G B st \<Longrightarrow> segment_at st' = segment_at st \<Longrightarrow> os_log st' = os_log st \<Longrightarrow> segs_ok G B st'"
  by (simp add: segs_ok_def mask_sound_def)

text \<open>Slices that no known span has may change.\<close>

lemma spans_ok_frame:
  assumes ok: "spans_ok G K pa" "\<And>seg. seg \<in> G \<Longrightarrow> seg_base seg" "g \<in> G"
    and R: "\<And>s. s \<in> K g \<Longrightarrow> span_range s \<inter> R = {}" "R \<subseteq> {..512}"
    and kept: "\<And>y. y \<notin> sa g ` R \<Longrightarrow> slice_data (pa' y) = slice_data (pa y)"
  shows "spans_ok G K pa'"
  unfolding spans_ok_def
proof (intro ballI conjI)
  fix seg assume seg: "seg \<in> G"
  then show "spans_apart (K seg)" using ok(1) by (simp add: spans_ok_def)
  fix s assume s: "s \<in> K seg"
  then show sok: "span_ok s" using ok(1) seg by (simp add: spans_ok_def)
  have "slice_data (pa' (sa seg k)) = slice_data (pa (sa seg k))" if k: "k \<in> span_range s" for k
  proof (rule kept)
    show "sa seg k \<notin> sa g ` R"
    proof
      assume "sa seg k \<in> sa g ` R"
      then obtain j where j: "j \<in> R" "sa seg k = sa g j" by blast
      have "k \<le> 512" using k sok by (auto simp: span_range_def span_ok_def)
      moreover have "j \<le> 512" using j(1) R(2) by auto
      ultimately have "seg = g" "k = j" using slice_addr_eq [of seg g k j] ok(2) seg ok(3) j(2) by blast+
      then show False using R(1) [of s] s k j(1) by blast
    qed
  qed
  then show "span_at seg pa' s" using ok(1) seg s sok span_at_frame by (metis spans_ok_def)
qed

lemma spans_ok_less: "spans_ok G K pa \<Longrightarrow> K' g \<subseteq> K g \<Longrightarrow> (\<And>s. s \<noteq> g \<Longrightarrow> K' s = K s) \<Longrightarrow> spans_ok G K' pa"
  unfolding spans_ok_def by (metis spans_apart_mono subsetD)

lemma spans_ok_insert:
  assumes "spans_ok G K pa" "g \<in> G" "span_ok s" "span_at g pa s" "\<And>t. t \<in> K g \<Longrightarrow> span_range t \<inter> span_range s = {}"
  shows "spans_ok G (K(g := insert s (K g))) pa"
  unfolding spans_ok_def
proof (intro ballI conjI)
  fix seg assume seg: "seg \<in> G"
  then have a: "spans_apart (K seg)" using assms(1) by (simp add: spans_ok_def)
  show "spans_apart ((K(g := insert s (K g))) seg)"
  proof (cases "seg = g")
    case True
    then show ?thesis using spans_apart_insert [of "K g" s] a assms(5) by simp
  qed (use a in simp)
  fix t assume t: "t \<in> (K(g := insert s (K g))) seg"
  then consider "seg = g" "t = s" | "t \<in> K seg" by (auto split: if_splits)
  then show "span_ok t" "span_at seg pa t" using assms(1,3,4) seg by (auto simp: spans_ok_def)
qed

lemma free_heads_mem:
  assumes "known_spans G B K Q st" "g \<in> G" "span_ok (i, n, f)" "q < 36"
  shows "sa g i \<in> set (Q q) \<longleftrightarrow> (\<exists>m. (i, m, True) \<in> K g \<and> mi_span_queue_for (word_of_nat m) = q)"
proof -
  have "seg = g \<and> j = i" if "seg \<in> G" "(j, m, True) \<in> K seg" "sa g i = sa seg j" for seg j m
  proof -
    have "span_ok (j, m, True)" by (rule known_spans_get(7) [OF assms(1) that(1,2)])
    then show ?thesis using slice_addr_eq [of g seg i j] known_spans_get(1) [OF assms(1)] that(1,3) assms(2,3)
      by (auto simp: span_ok_def)
  qed
  then show ?thesis unfolding known_spans_get(10) [OF assms(1,2,4)] free_heads_def using assms(2) by blast
qed

lemma word64_nat: "m < 2 ^ 32 \<Longrightarrow> ucast (word_of_nat m :: u32) = (word_of_nat m :: u64)"
  by (rule word_unat_eq_iff [THEN iffD2]) (simp add: unsigned_ucast_eq unat_of_nat_small take_bit_nat_eq_self)

lemma count_word: "n \<le> 512 \<Longrightarrow> ucast (word_of_nat n :: u32) = (word_of_nat n :: u64)"
  by (rule word64_nat) simp

lemma free_heads_remove:
  assumes known: "known_spans G B K Q st" and g: "g \<in> G" and s: "(i, n, True) \<in> K g"
  shows "free_heads G (K(g := K g - {(i, n, True)})) r =
    (if r = mi_span_queue_for (word_of_nat n) then free_heads G K r - {sa g i} else free_heads G K r)"
proof -
  let ?K = "K(g := K g - {(i, n, True)})" and ?q = "mi_span_queue_for (word_of_nat n)"
  note k = known_spans_get [OF known g]
  have ok: "span_ok (i, n, True)" by (rule k(7) [OF s])
  have same: "seg = g \<and> j = i \<and> m = n" if "seg \<in> G" "(j, m, True) \<in> K seg" "sa seg j = sa g i" for seg j m
  proof -
    have o: "span_ok (j, m, True)" by (rule known_spans_get(7) [OF known that(1,2)])
    then have e: "seg = g" "j = i" using slice_addr_eq [of seg g j i] known_spans_get(1) [OF known] that(1,3) g ok
      by (auto simp: span_ok_def)
    then show ?thesis using spans_apart_first [OF k(6), of "(j, m, True)" "(i, n, True)"] that(2) s o ok by simp
  qed
  have mem: "x \<in> free_heads G ?K r \<longleftrightarrow> x \<in> free_heads G K r \<and> \<not> (r = ?q \<and> x = sa g i)" for x
  proof
    assume "x \<in> free_heads G ?K r"
    then obtain seg j m where j: "x = sa seg j" "seg \<in> G" "(j, m, True) \<in> ?K seg" "mi_span_queue_for (word_of_nat m) = r"
      unfolding free_heads_def by blast
    then have m: "(j, m, True) \<in> K seg" by (simp split: if_splits)
    moreover have "\<not> (r = ?q \<and> x = sa g i)"
    proof
      assume "r = ?q \<and> x = sa g i"
      then show False using same [OF j(2) m] j(1,3) by simp
    qed
    ultimately show "x \<in> free_heads G K r \<and> \<not> (r = ?q \<and> x = sa g i)" using j unfolding free_heads_def by blast
  next
    assume x: "x \<in> free_heads G K r \<and> \<not> (r = ?q \<and> x = sa g i)"
    then obtain seg j m where j: "x = sa seg j" "seg \<in> G" "(j, m, True) \<in> K seg" "mi_span_queue_for (word_of_nat m) = r"
      unfolding free_heads_def by blast
    then have "(j, m, True) \<in> ?K seg" using x by auto
    then show "x \<in> free_heads G ?K r" using j unfolding free_heads_def by blast
  qed
  show ?thesis by (rule set_eqI) (simp add: mem)
qed

text \<open>A free span leaves its queue; its slices are then not known.\<close>

lemma remove_from_queue_step:
  assumes known: "known_spans G B K Q st" and g: "g \<in> G" and s: "(i, n, True) \<in> K g"
  shows "\<exists>Q'. queue_moved st (sa g i) 1 Q' (mi_segment_span_remove_from_queue (sa g i) st) \<and>
    known_spans G B (K(g := K g - {(i, n, True)})) Q' (mi_segment_span_remove_from_queue (sa g i) st)"
proof -
  note k = known_spans_get [OF known g]
  have ok: "span_ok (i, n, True)" by (rule k(7) [OF s])
  let ?q = "mi_span_queue_for (word_of_nat n)"
  have q: "?q < 36" by (rule span_queue_less [OF ok])
  have "sa g i \<in> set (Q ?q)" using free_heads_mem [OF known g ok q] s by blast
  then obtain xs ys where Q: "Q ?q = xs @ sa g i # ys" by (meson split_list)
  let ?Q = "Q(?q := xs @ ys)" and ?K = "K(g := K g - {(i, n, True)})"
  have "ucast (slice_count (slice_at st (sa g i))) = (word_of_nat n :: size_t)"
    using k(8) [OF s] ok count_word [of n] by (simp add: span_ok_def)
  then have d: "mi_segment_span_remove_from_queue (sa g i) st = mi_span_queue_delete ?q (sa g i) st"
    by (simp add: mi_segment_span_remove_from_queue_def)
  note mv = span_queue_delete_lists [OF k(9) q Q]
  then obtain pa sqs where st': "mi_span_queue_delete ?q (sa g i) st = st\<lparr>slice_at := pa, spans := sqs\<rparr>" "span_lists ?Q pa sqs"
      "same_spans (slice_at st) pa" "\<forall>y. xblock_size (pa y) = (if y = sa g i then 1 else xblock_size (slice_at st y))"
    unfolding queue_moved_def by blast
  have "spans_ok G ?K (slice_at st)" using known spans_ok_less [of G K "slice_at st" ?K g] by (simp add: known_spans_def)
  then have so: "spans_ok G ?K pa"
  proof (rule spans_ok_frame [where R = "{i}"])
    show "{i} \<subseteq> {..512}" using ok by (simp add: span_ok_def)
    fix t assume t: "t \<in> ?K g"
    have "span_range t \<inter> span_range (i, n, True) = {}" using k(6) t s by (simp add: spans_apart_def)
    then show "span_range t \<inter> {i} = {}" using ok by (auto simp: span_range_def span_ok_def)
  next
    fix y assume "y \<notin> sa g ` {i}"
    then show "slice_data (pa y) = slice_data (slice_at st y)" using st'(3,4) by (simp add: same_spans_def slice_data_def)
  qed (use known_spans_get(1) [OF known] g in blast)+
  have heads: "set (?Q r) = free_heads G ?K r" if r: "r < 36" for r
  proof -
    note new = free_heads_remove [OF known g s, of r]
    have "sa g i \<notin> set xs \<union> set ys" using span_lists_get(4) [OF k(9) q] Q by simp
    then have "set (xs @ sa g i # ys) - {sa g i} = set (xs @ ys)" by auto
    moreover have "free_heads G K ?q = set (xs @ sa g i # ys)" using k(10) [OF q] Q by simp
    ultimately show ?thesis unfolding new using k(10) [OF r] by simp
  qed
  have "segs_ok G B (st\<lparr>slice_at := pa, spans := sqs\<rparr>)" using known by (auto simp: known_spans_def intro: segs_ok_cong)
  then have "known_spans G B ?K ?Q (mi_span_queue_delete ?q (sa g i) st)"
    using so st'(2) heads unfolding known_spans_def st'(1) by simp
  then show ?thesis using mv unfolding d by blast
qed

text \<open>What happens to the memory of one segment leaves the other segments alone.\<close>

lemma segments_apart:
  assumes "seg_base s" "seg_base t" "s \<noteq> t"
  shows "{unat s..<unat s + 2 ^ 25} \<inter> {unat t..<unat t + 2 ^ 25} = {}"
proof (rule ccontr)
  assume "\<not> ?thesis"
  then obtain x where x: "unat s \<le> x" "x < unat s + 2 ^ 25" "unat t \<le> x" "x < unat t + 2 ^ 25"
    unfolding disjoint_iff atLeastLessThan_iff by blast
  have "x + 1 < 2 ^ LENGTH(64)" using x(2) assms(1) by (simp add: seg_base_def)
  then have u: "unat (word_of_nat (x + 1) :: u64) = x + 1" by (rule unat_of_nat_small)
  have "mi_ptr_segment (word_of_nat (x + 1)) = s" by (rule ptr_segment [OF assms(1)]) (unfold u, use x in simp_all)
  moreover have "mi_ptr_segment (word_of_nat (x + 1)) = t" by (rule ptr_segment [OF assms(2)]) (unfold u, use x in simp_all)
  ultimately show False using assms(3) by simp
qed

lemma chunks_inside: "chunks seg (mask_set m) \<subseteq> {unat seg..<unat seg + 2 ^ 25}"
proof
  fix x assume "x \<in> chunks seg (mask_set m)"
  then obtain c where c: "c \<in> mask_set m" "x \<in> {unat seg + c * 65536..<unat seg + (c + 1) * 65536}" by (auto simp: chunks_def)
  have "c < 512" using c(1) by (simp add: mask_set_def)
  then have "(c + 1) * 65536 \<le> 2 ^ 25" by simp
  then show "x \<in> {unat seg..<unat seg + 2 ^ 25}" using c(2) by auto
qed

lemma segs_ok_step:
  assumes ok: "segs_ok G B st" and g: "g \<in> G" and new: "mask_sound B g st'" "same_but_masks g st st'"
    and mem: "committed_bytes (os_log st) B - {unat g..<unat g + 2 ^ 25} \<subseteq> committed_bytes (os_log st') B"
  shows "segs_ok G B st'"
  unfolding segs_ok_def
proof (intro ballI conjI)
  fix seg assume seg: "seg \<in> G"
  then have o: "seg_base seg" "mask_sound B seg st" "slice_entries (segment_at st seg) = 512" "thread_id (segment_at st seg) \<noteq> 0"
    "seg_base g" using ok g by (auto simp: segs_ok_def)
  show "seg_base seg" by (rule o(1))
  show "slice_entries (segment_at st' seg) = 512" "thread_id (segment_at st' seg) \<noteq> 0" using o(3,4) same_fields [OF new(2)] by simp_all
  show "mask_sound B seg st'"
  proof (cases "seg = g")
    case False
    have s: "segment_at st' seg = segment_at st seg" using new(2) False by (simp add: same_but_masks_def)
    have "chunks seg (mask_set (commit_mask (segment_at st seg))) \<subseteq> committed_bytes (os_log st') B"
      using o(2) chunks_inside [of seg "commit_mask (segment_at st seg)"] segments_apart [OF o(1,5) False] mem
      unfolding mask_sound_def by blast
    then show ?thesis using o(2) by (simp add: mask_sound_def s)
  qed (use new(1) in simp)
qed

section \<open>Freeing a span\<close>

definition free_slices :: "addr \<Rightarrow> nat \<Rightarrow> nat \<Rightarrow> (addr \<Rightarrow> mi_page_t) \<Rightarrow> addr \<Rightarrow> mi_page_t" where
  "free_slices g i n pa =
     (let pa = pa(sa g i := (pa (sa g i))\<lparr>slice_count := word_of_nat n, slice_offset := 0\<rparr>)
      in if 1 < n
         then pa(sa g (i + n - 1) := (pa (sa g (i + n - 1)))\<lparr>slice_count := 0, slice_offset := slice_back (n - 1), xblock_size := 0\<rparr>)
         else pa)"

lemma word32_nat: "ucast (word_of_nat m :: u64) = (word_of_nat m :: u32)"
proof (rule word_unat_eq_iff [THEN iffD2])
  have "take_bit 32 (take_bit 64 m) = take_bit 32 m" by (simp add: take_bit_take_bit)
  then show "unat (ucast (word_of_nat m :: u64) :: u32) = unat (word_of_nat m :: u32)" by (simp add: unsigned_ucast_eq unsigned_of_nat)
qed

lemma back_word: "1 \<le> n \<Longrightarrow> n \<le> 512 \<Longrightarrow> ucast (sizeof_mi_slice_t * (word_of_nat n - 1)) = slice_back (n - 1)"
proof -
  assume n: "1 \<le> n" "n \<le> 512"
  then have "sizeof_mi_slice_t * (word_of_nat n - 1) = word_of_nat (80 * (n - 1))" by (simp add: sizeof_mi_slice_t_def of_nat_diff)
  then show ?thesis unfolding slice_back_def by (simp only: word32_nat)
qed

lemma span_free_unfold:
  assumes known: "known_spans G B K Q st" and g: "g \<in> G" and ok: "span_ok (i, n, f)"
  shows "mi_segment_span_free env g (word_of_nat i) (word_of_nat n) purge st =
    Option.bind
      (if purge then mi_segment_schedule_purge env g (g + word_of_nat i * MI_COMMIT_SIZE) (word_of_nat n * MI_COMMIT_SIZE)
         (st\<lparr>slice_at := free_slices g i n (slice_at st)\<rparr>)
       else Some (st\<lparr>slice_at := free_slices g i n (slice_at st)\<rparr>))
      (\<lambda>st. Some (mi_span_queue_push (mi_span_queue_for (word_of_nat n)) (sa g i) st))"
proof -
  note k = known_spans_get [OF known g]
  have n: "1 \<le> n" "i + n \<le> 512" using ok by (simp_all add: span_ok_def)
  have u: "unat (word_of_nat n :: u64) = n" using n by (intro unat_of_nat_small) simp
  have n0: "word_of_nat n \<noteq> (0 :: u64)" using u n(1) by (metis unsigned_0 not_one_le_zero)
  have n1: "1 < (word_of_nat n :: u64) \<longleftrightarrow> 1 < n" by (simp add: word_less_nat_alt u)
  have "word_of_nat i + word_of_nat n - 1 = (word_of_nat (i + n - 1) :: u64)" using n(1) by (simp add: of_nat_diff)
  then have l: "slice_addr g (word_of_nat i + word_of_nat n - 1) = sa g (i + n - 1)" by (simp add: sa_def)
  have s: "mi_slice_start (sa g i) = g + word_of_nat i * MI_COMMIT_SIZE" using slice_addr_index(2) [OF k(1), of i] n
    by (simp add: MI_COMMIT_SIZE_def)
  note c = word32_nat [of n]
  have st: "(if 1 < (word_of_nat n :: u64) then set_slice (slice_addr g (word_of_nat i + word_of_nat n - 1))
       (\<lambda>s. s\<lparr>slice_count := 0, slice_offset := ucast (sizeof_mi_slice_t * (word_of_nat n - 1)), xblock_size := 0\<rparr>)
       (set_slice (sa g i) (\<lambda>s. s\<lparr>slice_offset := 0\<rparr>) (set_slice (sa g i) (\<lambda>s. s\<lparr>slice_count := ucast (word_of_nat n :: u64)\<rparr>) st))
     else set_slice (sa g i) (\<lambda>s. s\<lparr>slice_offset := 0\<rparr>) (set_slice (sa g i) (\<lambda>s. s\<lparr>slice_count := ucast (word_of_nat n :: u64)\<rparr>) st)) =
     st\<lparr>slice_at := free_slices g i n (slice_at st)\<rparr>"
    unfolding n1 l c using back_word [OF n(1)] n by (simp add: set_slice_def free_slices_def)
  show ?thesis unfolding mi_segment_span_free_def Let_def if_not_P [OF n0] sa_def [symmetric] st s MI_COMMIT_SIZE_def [symmetric]
    using k(4,5) by (simp add: mi_segment_is_abandoned_def)
qed

lemma free_slices_kept:
  assumes "1 \<le> n"
  shows "y \<notin> sa g ` {i..<i + n} \<Longrightarrow> free_slices g i n pa y = pa y"
    "page_prev (free_slices g i n pa y) = page_prev (pa y)" "page_next (free_slices g i n pa y) = page_next (pa y)"
proof -
  assume "y \<notin> sa g ` {i..<i + n}"
  then have "y \<noteq> sa g i" "y \<noteq> sa g (i + n - 1)" using assms by auto
  then show "free_slices g i n pa y = pa y" by (simp add: free_slices_def Let_def)
qed (simp_all add: free_slices_def Let_def)

lemma free_slices_span:
  assumes "seg_base g" "1 \<le> n" "i + n \<le> 512"
  shows "slice_count (free_slices g i n pa (sa g i)) = word_of_nat n" "slice_offset (free_slices g i n pa (sa g i)) = 0"
    "slice_offset (free_slices g i n pa (sa g (i + n - 1))) = slice_back (n - 1)"
proof -
  have "sa g i = sa g (i + n - 1) \<longleftrightarrow> i = i + n - 1" by (rule slice_addr_inj [OF seg_fits [OF assms(1)]]) (use assms(2,3) in simp_all)
  then show "slice_count (free_slices g i n pa (sa g i)) = word_of_nat n" "slice_offset (free_slices g i n pa (sa g i)) = 0"
    "slice_offset (free_slices g i n pa (sa g (i + n - 1))) = slice_back (n - 1)"
    using assms(2) by (auto simp: free_slices_def Let_def slice_back_def)
qed

lemma free_heads_insert:
  assumes "g \<in> G"
  shows "free_heads G (K(g := insert (i, n, True) (K g))) r =
    (if r = mi_span_queue_for (word_of_nat n) then insert (sa g i) (free_heads G K r) else free_heads G K r)"
proof (rule set_eqI)
  fix x
  have "(j, m, True) \<in> (K(g := insert (i, n, True) (K g))) seg \<longleftrightarrow> (j, m, True) \<in> K seg \<or> seg = g \<and> j = i \<and> m = n" for seg j m
    by auto
  then have "x \<in> free_heads G (K(g := insert (i, n, True) (K g))) r \<longleftrightarrow>
      x \<in> free_heads G K r \<or> r = mi_span_queue_for (word_of_nat n) \<and> x = sa g i"
    unfolding free_heads_def using assms by blast
  then show "x \<in> free_heads G (K(g := insert (i, n, True) (K g))) r \<longleftrightarrow>
      x \<in> (if r = mi_span_queue_for (word_of_nat n) then insert (sa g i) (free_heads G K r) else free_heads G K r)" by auto
qed

lemma free_heads_used: "free_heads G (K(g := insert (i, n, False) (K g))) r = free_heads G K r"
proof -
  have "(j, m, True) \<in> (K(g := insert (i, n, False) (K g))) seg \<longleftrightarrow> (j, m, True) \<in> K seg" for seg j m by auto
  then show ?thesis unfolding free_heads_def by blast
qed

text \<open>A range of slices that are not known becomes a free span.\<close>

lemma span_free_step:
  assumes known: "known_spans G B K Q st" and g: "g \<in> G" and ok: "span_ok (i, n, True)"
    and gap: "\<And>t. t \<in> K g \<Longrightarrow> span_range t \<inter> {i..<i + n} = {}"
  shows "\<exists>st' Q'. mi_segment_span_free env g (word_of_nat i) (word_of_nat n) purge st = Some st' \<and>
    known_spans G B (K(g := insert (i, n, True) (K g))) Q' st' \<and> segments_kept st st' \<and>
    (\<forall>y. y \<notin> sa g ` {i..<i + n} \<longrightarrow> slice_data (slice_at st' y) = slice_data (slice_at st y))"
proof -
  note k = known_spans_get [OF known g]
  have n: "1 \<le> n" "i + n \<le> 512" using ok by (simp_all add: span_ok_def)
  let ?pa = "free_slices g i n (slice_at st)" and ?q = "mi_span_queue_for (word_of_nat n)"
  let ?p = "g + word_of_nat i * MI_COMMIT_SIZE" and ?sz = "word_of_nat n * MI_COMMIT_SIZE"
  let ?s1 = "st\<lparr>slice_at := ?pa\<rparr>"
  have seg: "in_segment g ?p ?sz" by (rule run_in_segment(1) [OF seg_fits [OF k(1)]]) (use n in simp_all)
  have s1: "segs_ok G B ?s1" using known by (auto simp: known_spans_def intro: segs_ok_cong)
  obtain st2 where st2: "(if purge then mi_segment_schedule_purge env g ?p ?sz ?s1 else Some ?s1) = Some st2"
    "same_but_masks g ?s1 st2" "segs_ok G B st2"
  proof (cases purge)
    case False
    then show ?thesis using that [of ?s1] s1 by (simp add: same_refl)
  next
    case True
    have ms: "mask_sound B g ?s1" using k(2) by (simp add: mask_sound_def)
    obtain st2 where st2: "mi_segment_schedule_purge env g ?p ?sz ?s1 = Some st2" "mask_sound B g st2" "same_but_masks g ?s1 st2"
      "committed_bytes (os_log ?s1) B - bytes ?p ?sz - chunks g (mask_set (purge_mask (segment_at ?s1 g))) \<subseteq> committed_bytes (os_log st2) B"
      using schedule_purge_sound [OF ms seg, of env] by blast
    have "bytes ?p ?sz \<subseteq> {unat g..<unat g + 2 ^ 25}" using seg by (auto simp: bytes_def in_segment_def)
    then have "committed_bytes (os_log ?s1) B - {unat g..<unat g + 2 ^ 25} \<subseteq> committed_bytes (os_log st2) B"
      using st2(4) chunks_inside [of g "purge_mask (segment_at ?s1 g)"] by blast
    then show ?thesis using that [of st2] st2 segs_ok_step [OF s1 g st2(2,3)] True by simp
  qed
  have same2: "slice_at st2 = ?pa" "spans st2 = spans st" using st2(2) by (simp_all add: same_but_masks_def)
  have q: "?q < 36" by (rule span_queue_less [OF ok])
  have sl: "span_lists Q (slice_at st2) (spans st2)"
  proof -
    have "dll ?pa 0 (Q r) 0" if "r < 36" for r
      by (rule dll_frame [OF span_lists_get(3) [OF k(9) that]]) (simp add: free_slices_kept(2,3) [OF n(1)])
    then show ?thesis using k(9) unfolding same2 span_lists_def by blast
  qed
  have fresh: "sa g i \<notin> set (Q r)" if r: "r < 36" for r
  proof
    assume "sa g i \<in> set (Q r)"
    then obtain m where m: "(i, m, True) \<in> K g" using free_heads_mem [OF known g ok r] by blast
    then have "i \<in> span_range (i, m, True)" using k(7) [OF m] by (simp add: span_range_def span_ok_def)
    then show False using gap [OF m] n(1) by auto
  qed
  let ?Q = "Q(?q := sa g i # Q ?q)" and ?K = "K(g := insert (i, n, True) (K g))"
  have "sa g i \<noteq> 0" by (rule slice_addr_nonzero [OF seg_fits [OF k(1)]]) (use n in simp)
  from span_queue_push_lists [OF sl q this fresh] obtain pa sqs where push:
    "mi_span_queue_push ?q (sa g i) st2 = st2\<lparr>slice_at := pa, spans := sqs\<rparr>" "span_lists ?Q pa sqs" "same_spans ?pa pa"
    "\<forall>y. xblock_size (pa y) = (if y = sa g i then 0 else xblock_size (?pa y))"
    unfolding queue_moved_def same2 by blast
  have run: "mi_segment_span_free env g (word_of_nat i) (word_of_nat n) purge st = Some (st2\<lparr>slice_at := pa, spans := sqs\<rparr>)"
    unfolding span_free_unfold [OF known g ok] st2(1) by (simp add: push(1))
  have kept: "slice_data (pa y) = slice_data (slice_at st y)" if "y \<notin> sa g ` {i..<i + n}" for y
  proof -
    have "y \<noteq> sa g i" using that n(1) by auto
    then show ?thesis using push(3,4) free_slices_kept(1) [OF n(1) that] by (simp add: same_spans_def slice_data_def)
  qed
  have old: "spans_ok G K pa"
  proof (rule spans_ok_frame [OF _ _ g gap _ kept])
    show "spans_ok G K (slice_at st)" using known by (simp add: known_spans_def)
    show "{i..<i + n} \<subseteq> {..512}" using n(2) by auto
  qed (rule known_spans_get(1) [OF known])
  have new: "span_at g pa (i, n, True)"
    using push(3,4) free_slices_span [OF k(1) n, of "slice_at st"] by (simp add: same_spans_def)
  have "spans_ok G ?K pa"
    by (rule spans_ok_insert [OF old g ok new]) (use gap in \<open>simp add: span_range_def\<close>)
  moreover have "segs_ok G B (st2\<lparr>slice_at := pa, spans := sqs\<rparr>)" by (rule segs_ok_cong [OF st2(3)]) simp_all
  moreover have "set (?Q r) = free_heads G ?K r" if "r < 36" for r
    unfolding free_heads_insert [OF g] using k(10) [OF that] k(10) [OF q] by simp
  ultimately have "known_spans G B ?K ?Q (st2\<lparr>slice_at := pa, spans := sqs\<rparr>)"
    using push(2) by (simp add: known_spans_def)
  moreover have "segments_kept st (st2\<lparr>slice_at := pa, spans := sqs\<rparr>)"
    using st2(2) by (auto simp: segments_kept_def same_but_masks_def)
  ultimately show ?thesis using run kept by auto
qed

section \<open>Merging a span with its neighbours\<close>

text \<open>The spans of a list follow each other from the slice \<open>a\<close> to the slice \<open>b\<close>.\<close>

fun tiling :: "nat \<Rightarrow> span_t list \<Rightarrow> nat \<Rightarrow> bool" where
  "tiling a [] b \<longleftrightarrow> a = b"
| "tiling a (s # L) b \<longleftrightarrow> fst s = a \<and> 1 \<le> fst (snd s) \<and> tiling (a + fst (snd s)) L b"

lemma tiling_append: "tiling a (A @ L) b \<longleftrightarrow> (\<exists>m. tiling a A m \<and> tiling m L b)"
  by (induction A arbitrary: a) auto

lemma tiling_bounds: "tiling a L b \<Longrightarrow> a \<le> b \<and> (\<forall>s \<in> set L. a \<le> fst s \<and> fst s + fst (snd s) \<le> b)"
proof (induction L arbitrary: a)
  case (Cons s L)
  then have s: "tiling (a + fst (snd s)) L b" "fst s = a" by simp_all
  from Cons.IH [OF s(1)] show ?case using s(2) by fastforce
qed simp

lemma tiling_gap:
  assumes "tiling 0 A i" "tiling (i + n) C b" "t \<in> set A \<union> set C"
  shows "span_range t \<inter> {i..<i + n} = {}"
  using tiling_bounds [OF assms(1)] tiling_bounds [OF assms(2)] assms(3) by (auto simp: span_range_def dest!: bspec)

fun merge_next :: "nat \<Rightarrow> span_t list \<Rightarrow> nat \<times> span_t list" where
  "merge_next n ((j, m, True) # C) = (n + m, C)"
| "merge_next n C = (n, C)"

fun merge_prev :: "span_t list \<Rightarrow> nat \<Rightarrow> nat \<Rightarrow> span_t list \<times> nat \<times> nat" where
  "merge_prev A i n =
     (if A \<noteq> [] \<and> snd (snd (last A)) then (butlast A, fst (last A), n + fst (snd (last A))) else (A, i, n))"

definition merged :: "span_t list \<Rightarrow> nat \<Rightarrow> nat \<Rightarrow> span_t list \<Rightarrow> nat \<times> span_t list" where
  "merged A i n C =
     (let (n, C) = merge_next n C; (A, i, n) = merge_prev A i n in (i, A @ (i, n, True) # C))"

lemma back_addr: "k \<le> j \<Longrightarrow> j \<le> 512 \<Longrightarrow> sa g j - ucast (slice_back k) = sa g (j - k)"
proof -
  assume k: "k \<le> j" "j \<le> 512"
  have "ucast (slice_back k) = (word_of_nat (80 * k) :: u64)" unfolding slice_back_def by (rule word64_nat) (use k in simp)
  then show ?thesis using slice_addr_step(2) [OF k(1), of g] by (simp add: sizeof_mi_slice_t_def)
qed

text \<open>The two halves of \<open>mi_segment_span_free_coalesce\<close>: the span behind and the span before are taken in.\<close>

lemma coalesce_next:
  assumes known: "known_spans G B (K(g := set A \<union> set C)) Q st" and g: "g \<in> G"
    and til: "tiling 0 A i" "1 \<le> n" "tiling (i + n) C 512"
  shows "\<exists>st' Q' m C'. merge_next n C = (m, C') \<and>
    (if sa g (i + n) < mi_segment_slices_end g st \<and> xblock_size (slice_at st (sa g (i + n))) = 0
     then (word_of_nat n + ucast (slice_count (slice_at st (sa g (i + n)))), mi_segment_span_remove_from_queue (sa g (i + n)) st)
     else (word_of_nat n, st)) = (word_of_nat m :: size_t, st') \<and>
    known_spans G B (K(g := set A \<union> set C')) Q' st' \<and> segments_kept st st' \<and> tiling (i + m) C' 512 \<and> 1 \<le> m"
proof -
  note k = known_spans_get [OF known g]
  have in512: "i + n \<le> 512" using tiling_bounds [OF til(3)] by simp
  have e: "mi_segment_slices_end g st = sa g 512" using k(3) by (simp add: mi_segment_slices_end_def sa_def)
  have less: "sa g (i + n) < sa g 512 \<longleftrightarrow> i + n < 512" by (rule slice_addr_less [OF seg_fits [OF k(1)] in512]) simp
  show ?thesis
  proof (cases C)
    case Nil
    then have "\<not> i + n < 512" using til(3) by simp
    then show ?thesis unfolding e less using known til Nil by (auto simp: segments_kept_def)
  next
    case (Cons s D)
    obtain j m f where s: "s = (j, m, f)" by (cases s)
    have j: "j = i + n" "1 \<le> m" "tiling (i + n + m) D 512" using til(3) Cons s by simp_all
    have mem: "(j, m, f) \<in> (K(g := set A \<union> set C)) g" using Cons s by simp
    have lt: "i + n < 512" using tiling_bounds [OF j(3)] j(2) by simp
    have at: "span_at g (slice_at st) (j, m, f)" by (rule k(8) [OF mem])
    show ?thesis
    proof (cases f)
      case False
      then show ?thesis unfolding e less using known til Cons s at j(1) lt by (auto simp: segments_kept_def)
    next
      case f: True
      then have f: "f = True" by simp
      have m: "m \<le> 512" using tiling_bounds [OF j(3)] by simp
      have cnt: "ucast (slice_count (slice_at st (sa g (i + n)))) = (word_of_nat m :: size_t)" using at j(1) count_word [OF m] by simp
      obtain Q' where r: "queue_moved st (sa g j) 1 Q' (mi_segment_span_remove_from_queue (sa g j) st)"
        "known_spans G B ((K(g := set A \<union> set C))(g := (K(g := set A \<union> set C)) g - {(j, m, True)})) Q' (mi_segment_span_remove_from_queue (sa g j) st)"
        using remove_from_queue_step [OF known g mem [unfolded f]] by blast
      have "(j, m, True) \<notin> set A \<union> set D"
        using tiling_gap [of A i n C 512 "(j, m, True)"] tiling_bounds [OF til(1)] tiling_bounds [OF j(3)] j(1,2) til(2)
        by (auto dest!: bspec)
      then have K: "(K(g := set A \<union> set C))(g := (K(g := set A \<union> set C)) g - {(j, m, True)}) = K(g := set A \<union> set D)"
        using Cons s f by auto
      have sk: "segments_kept st (mi_segment_span_remove_from_queue (sa g j) st)" using r(1) by (auto simp: queue_moved_def segments_kept_def)
      have "merge_next n C = (n + m, D)" using Cons s f by simp
      then show ?thesis unfolding e less using r(2) sk lt at cnt j f unfolding K by (auto simp: add.assoc)
    qed
  qed
qed

lemma coalesce_prev:
  assumes known: "known_spans G B (K(g := set A \<union> set C)) Q st" and g: "g \<in> G"
    and til: "tiling 0 A i" "1 \<le> n" "tiling (i + n) C 512"
  shows "\<exists>st' Q' m A' i'. merge_prev A i n = (A', i', m) \<and>
    (if sa g i > slice_addr g 0 then
       (let prev = mi_slice_first (sa g i - sizeof_mi_slice_t) st
        in if xblock_size (slice_at st prev) = 0
           then (prev, word_of_nat n + ucast (slice_count (slice_at st prev)), mi_segment_span_remove_from_queue prev st)
           else (sa g i, word_of_nat n, st))
     else (sa g i, word_of_nat n, st)) = (sa g i', word_of_nat m :: size_t, st') \<and>
    known_spans G B (K(g := set A' \<union> set C)) Q' st' \<and> segments_kept st st' \<and> tiling 0 A' i' \<and> i' + m = i + n \<and> 1 \<le> m"
proof -
  note k = known_spans_get [OF known g]
  have in512: "i + n \<le> 512" using tiling_bounds [OF til(3)] by simp
  have z: "slice_addr g 0 = sa g 0" by (simp add: sa_def)
  have less: "sa g 0 < sa g i \<longleftrightarrow> 0 < i" by (rule slice_addr_less [OF seg_fits [OF k(1)]]) (use in512 in simp_all)
  show ?thesis
  proof (cases A rule: rev_cases)
    case Nil
    then have "i = 0" using til(1) by simp
    then show ?thesis unfolding z less using known til Nil by (auto simp: segments_kept_def)
  next
    case (snoc D s)
    obtain j m f where s: "s = (j, m, f)" by (cases s)
    have j: "tiling 0 D j" "1 \<le> m" "i = j + m" using til(1) unfolding snoc s tiling_append by auto
    have mem: "(j, m, f) \<in> (K(g := set A \<union> set C)) g" using snoc s by simp
    have at: "span_at g (slice_at st) (j, m, f)" by (rule k(8) [OF mem])
    have m: "m \<le> 512" using j(3) in512 by simp
    have "sa g i - sizeof_mi_slice_t = sa g (j + m - 1)" using slice_addr_step(2) [of 1 i g] j(2,3) by simp
    moreover have "mi_slice_first (sa g (j + m - 1)) st = sa g j"
    proof -
      have "j + m - 1 - (m - 1) = j" using j(2) by simp
      then show ?thesis using at back_addr [of "m - 1" "j + m - 1" g] j in512 by (simp add: mi_slice_first_def)
    qed
    ultimately have first: "mi_slice_first (sa g i - sizeof_mi_slice_t) st = sa g j" by simp
    show ?thesis
    proof (cases f)
      case False
      then show ?thesis unfolding z less first using known til snoc s at by (auto simp: segments_kept_def)
    next
      case f: True
      then have f: "f = True" by simp
      have cnt: "ucast (slice_count (slice_at st (sa g j))) = (word_of_nat m :: size_t)" using at count_word [OF m] by simp
      obtain Q' where r: "queue_moved st (sa g j) 1 Q' (mi_segment_span_remove_from_queue (sa g j) st)"
        "known_spans G B ((K(g := set A \<union> set C))(g := (K(g := set A \<union> set C)) g - {(j, m, True)})) Q' (mi_segment_span_remove_from_queue (sa g j) st)"
        using remove_from_queue_step [OF known g mem [unfolded f]] by blast
      have "(j, m, True) \<notin> set D \<union> set C"
        using tiling_bounds [OF j(1)] tiling_bounds [OF til(3)] j(2,3) til(2) by (auto dest!: bspec)
      then have K: "(K(g := set A \<union> set C))(g := (K(g := set A \<union> set C)) g - {(j, m, True)}) = K(g := set D \<union> set C)"
        using snoc s f by auto
      have sk: "segments_kept st (mi_segment_span_remove_from_queue (sa g j) st)" using r(1) by (auto simp: queue_moved_def segments_kept_def)
      have "merge_prev A i n = (D, j, n + m)" using snoc s f by simp
      moreover have "0 < i" using j(2,3) by simp
      ultimately show ?thesis unfolding z less first using r(2) sk at cnt j f unfolding K by (auto simp: Let_def)
    qed
  qed
qed

lemma same_kept: "segments_kept st st' \<Longrightarrow> sg_kind (segment_at st' s) = sg_kind (segment_at st s) \<and>
    thread_id (segment_at st' s) = thread_id (segment_at st s) \<and> sg_used (segment_at st' s) = sg_used (segment_at st s) \<and>
    sg_memid (segment_at st' s) = sg_memid (segment_at st s) \<and>
    sg_abandoned (segment_at st' s) = sg_abandoned (segment_at st s) \<and> abandoned_next (segment_at st' s) = abandoned_next (segment_at st s)"
proof -
  assume "segments_kept st st'"
  then have "no_masks (segment_at st' s) = no_masks (segment_at st s)" by (simp add: segments_kept_def)
  moreover have "sg_kind (no_masks sg) = sg_kind sg" "thread_id (no_masks sg) = thread_id sg" "sg_used (no_masks sg) = sg_used sg"
    "sg_memid (no_masks sg) = sg_memid sg" "sg_abandoned (no_masks sg) = sg_abandoned sg"
    "abandoned_next (no_masks sg) = abandoned_next sg" for sg by (simp_all add: no_masks_def)
  ultimately show ?thesis by metis
qed

text \<open>A range of slices becomes a free span together with its free neighbours.\<close>

lemma coalesce_step:
  assumes known: "known_spans G B (K(g := set A \<union> set C)) Q st" and g: "g \<in> G"
    and til: "tiling 0 A i" "1 \<le> n" "tiling (i + n) C 512" and cnt: "slice_count (slice_at st (sa g i)) = word_of_nat n"
  shows "\<exists>st' Q'. mi_segment_span_free_coalesce env (sa g i) st = Some (sa g (fst (merged A i n C)), st') \<and>
    known_spans G B (K(g := set (snd (merged A i n C)))) Q' st' \<and> segments_kept st st' \<and> tiling 0 (snd (merged A i n C)) 512"
proof -
  note k = known_spans_get [OF known g]
  have in512: "i + n \<le> 512" using tiling_bounds [OF til(3)] by simp
  have sg: "mi_ptr_segment (sa g i) = g" by (rule slice_addr_segment [OF k(1)]) (use in512 in simp)
  have c: "ucast (slice_count (slice_at st (sa g i))) = (word_of_nat n :: size_t)" using cnt count_word [of n] in512 by simp
  have next_addr: "sa g i + sizeof_mi_slice_t * word_of_nat n = sa g (i + n)" by (rule slice_addr_step(1))
  obtain st1 Q1 m1 C1 where s1: "merge_next n C = (m1, C1)"
    "(if sa g (i + n) < mi_segment_slices_end g st \<and> xblock_size (slice_at st (sa g (i + n))) = 0
     then (word_of_nat n + ucast (slice_count (slice_at st (sa g (i + n)))), mi_segment_span_remove_from_queue (sa g (i + n)) st)
     else (word_of_nat n, st)) = (word_of_nat m1 :: size_t, st1)"
    "known_spans G B (K(g := set A \<union> set C1)) Q1 st1" "segments_kept st st1" "tiling (i + m1) C1 512" "1 \<le> m1"
    using coalesce_next [OF known g til] by blast
  obtain st2 Q2 m A1 i1 where s2: "merge_prev A i m1 = (A1, i1, m)"
    "(if sa g i > slice_addr g 0 then
       (let prev = mi_slice_first (sa g i - sizeof_mi_slice_t) st1
        in if xblock_size (slice_at st1 prev) = 0
           then (prev, word_of_nat m1 + ucast (slice_count (slice_at st1 prev)), mi_segment_span_remove_from_queue prev st1)
           else (sa g i, word_of_nat m1, st1))
     else (sa g i, word_of_nat m1, st1)) = (sa g i1, word_of_nat m :: size_t, st2)"
    "known_spans G B (K(g := set A1 \<union> set C1)) Q2 st2" "segments_kept st1 st2" "tiling 0 A1 i1" "i1 + m = i + m1" "1 \<le> m"
    using coalesce_prev [OF s1(3) g til(1) s1(6,5)] by blast
  have til1: "tiling (i1 + m) C1 512" using s1(5) s2(6) by simp
  have ok: "span_ok (i1, m, True)" using s2(7) tiling_bounds [OF til1] by (simp add: span_ok_def)
  have gap: "span_range t \<inter> {i1..<i1 + m} = {}" if "t \<in> (K(g := set A1 \<union> set C1)) g" for t
    using tiling_gap [OF s2(5) til1, of t] that by simp
  have idx: "mi_slice_index (sa g i1) = word_of_nat i1" by (rule slice_addr_index(1) [OF k(1)]) (use ok in \<open>simp add: span_ok_def\<close>)
  obtain st3 Q3 where s3: "mi_segment_span_free env g (word_of_nat i1) (word_of_nat m) True st2 = Some st3"
    "known_spans G B ((K(g := set A1 \<union> set C1))(g := insert (i1, m, True) ((K(g := set A1 \<union> set C1)) g))) Q3 st3" "segments_kept st2 st3"
    using span_free_step [OF s2(3) g ok gap, of env True] by blast
  have mg: "merged A i n C = (i1, A1 @ (i1, m, True) # C1)" by (simp add: merged_def s1(1) s2(1) del: merge_prev.simps)
  have ab: "mi_segment_is_abandoned (segment_at st g) = False" and kd: "(sg_kind (segment_at st g) = MI_SEGMENT_HUGE) = False"
    using k(4,5) by (simp_all add: mi_segment_is_abandoned_def)
  have run: "mi_segment_span_free_coalesce env (sa g i) st = Some (sa g i1, st3)"
    by (simp only: mi_segment_span_free_coalesce_def Let_def sg c next_addr ab kd if_False if_True not_False_eq_True s1(2) prod.case
        s2(2) [unfolded Let_def] idx s3(1) Option.bind.simps)
  have "(K(g := set A1 \<union> set C1))(g := insert (i1, m, True) ((K(g := set A1 \<union> set C1)) g)) = K(g := set (A1 @ (i1, m, True) # C1))"
    by auto
  then have "known_spans G B (K(g := set (A1 @ (i1, m, True) # C1))) Q3 st3" using s3(2) by simp
  moreover have "tiling 0 (A1 @ (i1, m, True) # C1) 512" unfolding tiling_append using s2(5,7) til1 by auto
  moreover have "segments_kept st st3" using s1(4) s2(4) s3(3) segments_kept_trans by blast
  ultimately show ?thesis using run mg by auto
qed

section \<open>Allocating a span\<close>

lemma back_offset_word: "ucast (sizeof_mi_slice_t * word_of_nat k) = slice_back k"
proof -
  have "sizeof_mi_slice_t * word_of_nat k = word_of_nat (80 * k)" by (simp add: sizeof_mi_slice_t_def)
  then show ?thesis unfolding slice_back_def by (simp only: word32_nat)
qed

text \<open>The loop over the back offsets.\<close>

definition set_backs :: "addr \<Rightarrow> nat \<Rightarrow> nat \<Rightarrow> segs_state \<Rightarrow> segs_state" where
  "set_backs g i m = fold (\<lambda>k. set_slice (sa g i + sizeof_mi_slice_t * word_of_nat k)
     (\<lambda>s. s\<lparr>slice_offset := ucast (sizeof_mi_slice_t * word_of_nat k), slice_count := 0, xblock_size := 1\<rparr>)) [1..<m]"

lemma set_backs_slices:
  assumes "seg_base g" "i + m \<le> 512"
  shows "\<exists>pa. set_backs g i m st = st\<lparr>slice_at := pa\<rparr> \<and> (\<forall>y. y \<notin> sa g ` {i + 1..<i + m} \<longrightarrow> pa y = slice_at st y) \<and>
    (\<forall>k. 1 \<le> k \<and> k < m \<longrightarrow> slice_offset (pa (sa g (i + k))) = slice_back k) \<and>
    (\<forall>y. page_prev (pa y) = page_prev (slice_at st y) \<and> page_next (pa y) = page_next (slice_at st y))"
  using assms(2)
proof (induction m)
  case 0
  then show ?case by (intro exI [of _ "slice_at st"]) (simp add: set_backs_def)
next
  case (Suc m)
  then obtain pa where pa: "set_backs g i m st = st\<lparr>slice_at := pa\<rparr>" "\<forall>y. y \<notin> sa g ` {i + 1..<i + m} \<longrightarrow> pa y = slice_at st y"
    "\<forall>k. 1 \<le> k \<and> k < m \<longrightarrow> slice_offset (pa (sa g (i + k))) = slice_back k"
    "\<forall>y. page_prev (pa y) = page_prev (slice_at st y) \<and> page_next (pa y) = page_next (slice_at st y)" by auto
  show ?case
  proof (cases "1 \<le> m")
    case False
    then have "m = 0" by simp
    then show ?thesis by (intro exI [of _ "slice_at st"]) (auto simp: set_backs_def)
  next
    case True
    let ?a = "sa g (i + m)"
    let ?pa = "pa(?a := (pa ?a)\<lparr>slice_offset := slice_back m, slice_count := 0, xblock_size := 1\<rparr>)"
    have "[1..<Suc m] = [1..<m] @ [m]" using True by simp
    then have "set_backs g i (Suc m) st = st\<lparr>slice_at := ?pa\<rparr>"
      using pa(1) by (simp add: set_backs_def set_slice_def slice_addr_step back_offset_word)
    moreover have "?pa y = slice_at st y" if "y \<notin> sa g ` {i + 1..<i + Suc m}" for y
    proof -
      have "y \<notin> sa g ` {i + 1..<i + m}" "y \<noteq> ?a" using that True by auto
      then show ?thesis using pa(2) by simp
    qed
    moreover have "slice_offset (?pa (sa g (i + k))) = slice_back k" if "1 \<le> k" "k < Suc m" for k
    proof (cases "k = m")
      case False
      have "sa g (i + k) \<noteq> ?a" using slice_addr_inj [OF seg_fits [OF assms(1)], of "i + k" "i + m"] Suc.prems that False by simp
      then show ?thesis using pa(3) that False by simp
    qed simp
    moreover have "page_prev (?pa y) = page_prev (slice_at st y) \<and> page_next (?pa y) = page_next (slice_at st y)" for y using pa(4) by simp
    ultimately show ?thesis by blast
  qed
qed

text \<open>The slices of a page that is made of \<open>n\<close> slices.\<close>

definition page_slices :: "addr \<Rightarrow> nat \<Rightarrow> nat \<Rightarrow> segs_state \<Rightarrow> segs_state" where
  "page_slices g i n st =
     (let st = set_slice (sa g i) (\<lambda>s. s\<lparr>slice_offset := 0\<rparr>) st;
          st = set_slice (sa g i) (\<lambda>s. s\<lparr>slice_count := word_of_nat n\<rparr>) st;
          st = set_slice (sa g i) (\<lambda>s. s\<lparr>xblock_size := word_of_nat (n * 65536)\<rparr>) st;
          st = set_backs g i (min n 256) st;
          st = (if 1 < n
                then set_slice (sa g (i + n - 1)) (\<lambda>s. s\<lparr>slice_offset := slice_back (n - 1), slice_count := 0, xblock_size := 1\<rparr>) st
                else st)
      in set_slice (sa g i) (\<lambda>s. s\<lparr>is_committed := True\<rparr>) st)"

lemma page_slices_span:
  assumes "seg_base g" "1 \<le> n" "i + n \<le> 512"
  shows "\<exists>pa. page_slices g i n st = st\<lparr>slice_at := pa\<rparr> \<and> span_at g pa (i, n, False) \<and>
    (\<forall>y. y \<notin> sa g ` {i..<i + n} \<longrightarrow> pa y = slice_at st y) \<and>
    (\<forall>y. page_prev (pa y) = page_prev (slice_at st y) \<and> page_next (pa y) = page_next (slice_at st y))"
proof -
  let ?h = "(slice_at st (sa g i))\<lparr>slice_offset := 0, slice_count := word_of_nat n, xblock_size := word_of_nat (n * 65536)\<rparr>"
  let ?s1 = "st\<lparr>slice_at := (slice_at st)(sa g i := ?h)\<rparr>"
  have s1: "set_slice (sa g i) (\<lambda>s. s\<lparr>xblock_size := word_of_nat (n * 65536)\<rparr>) (set_slice (sa g i) (\<lambda>s. s\<lparr>slice_count := word_of_nat n\<rparr>)
      (set_slice (sa g i) (\<lambda>s. s\<lparr>slice_offset := 0\<rparr>) st)) = ?s1" by (simp add: set_slice_def)
  have m: "i + min n 256 \<le> 512" using assms(3) by simp
  obtain pa where pa: "set_backs g i (min n 256) ?s1 = ?s1\<lparr>slice_at := pa\<rparr>"
    "\<forall>y. y \<notin> sa g ` {i + 1..<i + min n 256} \<longrightarrow> pa y = slice_at ?s1 y"
    "\<forall>k. 1 \<le> k \<and> k < min n 256 \<longrightarrow> slice_offset (pa (sa g (i + k))) = slice_back k"
    "\<forall>y. page_prev (pa y) = page_prev (slice_at ?s1 y) \<and> page_next (pa y) = page_next (slice_at ?s1 y)"
    using set_backs_slices [OF assms(1) m, of ?s1] by blast
  note inj = slice_addr_inj [OF seg_fits [OF assms(1)]]
  let ?l = "sa g (i + n - 1)"
  let ?pl = "if 1 < n then pa(?l := (pa ?l)\<lparr>slice_offset := slice_back (n - 1), slice_count := 0, xblock_size := 1\<rparr>) else pa"
  let ?p = "?pl(sa g i := (?pl (sa g i))\<lparr>is_committed := True\<rparr>)"
  have run: "page_slices g i n st = st\<lparr>slice_at := ?p\<rparr>" unfolding page_slices_def Let_def s1 pa(1) by (simp add: set_slice_def)
  have il: "?l = sa g i \<longleftrightarrow> n = 1" using inj [of "i + n - 1" i] assms(2,3) by auto
  have "sa g i \<notin> sa g ` {i + 1..<i + min n 256}"
  proof
    assume "sa g i \<in> sa g ` {i + 1..<i + min n 256}"
    then obtain k where k: "k \<in> {i + 1..<i + min n 256}" "sa g i = sa g k" by blast
    then have "i < k" "k < i + n" by auto
    then show False using inj [of i k] assms(3) k(2) by simp
  qed
  then have h: "pa (sa g i) = ?h" using pa(2) by simp
  have x: "word_of_nat (n * 65536) \<noteq> (0 :: u32)"
  proof
    assume "word_of_nat (n * 65536) = (0 :: u32)"
    moreover have "unat (word_of_nat (n * 65536) :: u32) = n * 65536" by (rule unat_of_nat_small) (use assms(3) in simp)
    ultimately show False using assms(2) by (metis unsigned_0 mult_eq_0_iff not_one_le_zero zero_neq_numeral)
  qed
  have head: "slice_count (?p (sa g i)) = word_of_nat n \<and> slice_offset (?p (sa g i)) = 0 \<and> xblock_size (?p (sa g i)) = word_of_nat (n * 65536)"
    using il h by auto
  have offs: "slice_offset (?p (sa g (i + k))) = slice_back k" if k: "k < min n 256" for k
  proof (cases "k = 0")
    case True
    then show ?thesis using head by (simp add: slice_back_def)
  next
    case False
    have "sa g (i + k) \<noteq> sa g i" using inj [of "i + k" i] k False assms(3) by simp
    moreover have "?l = sa g (i + k) \<longleftrightarrow> k = n - 1" using inj [of "i + n - 1" "i + k"] k assms(3) by auto
    ultimately show ?thesis using pa(3) k False by auto
  qed
  have "slice_offset (?p ?l) = slice_back (n - 1)" using il h assms(2) by (cases "n = 1") (simp_all add: slice_back_def)
  then have "span_at g ?p (i, n, False)" unfolding span_at.simps using head x offs by simp
  moreover have "?p y = slice_at st y" if y: "y \<notin> sa g ` {i..<i + n}" for y
  proof -
    have "y \<noteq> sa g i" "y \<noteq> ?l" "y \<notin> sa g ` {i + 1..<i + min n 256}" using y assms(2) by auto
    then show ?thesis using pa(2) by simp
  qed
  moreover have "page_prev (?p y) = page_prev (slice_at st y) \<and> page_next (?p y) = page_next (slice_at st y)" for y
    using pa(4) by auto
  ultimately show ?thesis using run by blast
qed

lemma segment_at_slices [simp]: "segment_at (set_slice s f st) = segment_at st" "segment_at (set_backs g i m st) = segment_at st"
proof -
  show s: "segment_at (set_slice s f st) = segment_at st" for s f st by (simp add: set_slice_def)
  have "segment_at (fold (\<lambda>k. set_slice (a k) (h k)) ks st) = segment_at st" for a h ks
    by (induction ks arbitrary: st) (simp_all add: s)
  then show "segment_at (set_backs g i m st) = segment_at st" unfolding set_backs_def .
qed

lemma span_allocate_unfold:
  assumes known: "known_spans G B K Q st" and g: "g \<in> G" and ok: "span_ok (i, n, f)"
    and c: "mi_segment_ensure_committed env g (g + word_of_nat i * MI_COMMIT_SIZE) (word_of_nat n * MI_COMMIT_SIZE) st = (okay, st1)"
    and same: "same_but_masks g st st1"
  shows "mi_segment_span_allocate env g (word_of_nat i) (word_of_nat n) st =
    (if okay then (sa g i, set_segment g (\<lambda>sg. sg\<lparr>sg_used := sg_used sg + 1\<rparr>) (page_slices g i n st1)) else (0, st1))"
proof -
  note k = known_spans_get [OF known g]
  have n: "1 \<le> n" "i + n \<le> 512" using ok by (simp_all add: span_ok_def)
  have sa: "slice_addr g (word_of_nat i) = sa g i" by (simp add: sa_def)
  have "(sa g i - (g + offsetof_slices)) div sizeof_mi_slice_t = word_of_nat i"
    using slice_addr_index(1) [OF k(1), of i] slice_addr_segment [OF k(1), of i] n by (simp add: mi_slice_index_def)
  then have start: "fst (mi_segment_page_start_from_slice g (sa g i) 0 st) = g + word_of_nat i * MI_COMMIT_SIZE"
    by (simp add: mi_segment_page_start_from_slice_def Let_def MI_COMMIT_SIZE_def)
  have u: "unat (word_of_nat n :: u64) = n" "unat (word_of_nat i :: u64) = i" using n by (simp_all add: unat_of_nat_small)
  have b: "unat (word_of_nat n * MI_SEGMENT_SLICE_SIZE :: u64) = n * 65536"
    using n(2) u by (subst unat_mult_small) (simp_all add: commit_size)
  have x: "(if ucast MI_HUGE_BLOCK_SIZE \<le> word_of_nat n * MI_SEGMENT_SLICE_SIZE then MI_HUGE_BLOCK_SIZE
      else ucast (word_of_nat n * MI_SEGMENT_SLICE_SIZE)) = word_of_nat (n * 65536)"
  proof -
    have "unat (ucast MI_HUGE_BLOCK_SIZE :: u64) = 2147483648" by (simp add: MI_HUGE_BLOCK_SIZE_def)
    then have "\<not> ucast MI_HUGE_BLOCK_SIZE \<le> word_of_nat n * MI_SEGMENT_SLICE_SIZE"
      unfolding word_le_nat_alt b using n(2) by simp
    moreover have "word_of_nat n * MI_SEGMENT_SLICE_SIZE = word_of_nat (n * 65536)" by (simp add: commit_size)
    ultimately show ?thesis by (simp only: if_False word32_nat)
  qed
  have ent: "slice_entries (segment_at st1 g) = 512" using k(3) same_fields(2) [OF same, of g] by simp
  have extra: "(if word_of_nat MI_MAX_SLICE_OFFSET < (word_of_nat n - 1 :: u64) then word_of_nat MI_MAX_SLICE_OFFSET else word_of_nat n - 1) =
      (word_of_nat (min (n - 1) 255) :: u64)"
  proof -
    have m: "MI_MAX_SLICE_OFFSET = 255"
      by (simp add: MI_MAX_SLICE_OFFSET_def MI_ALIGNMENT_MAX_def commit_size)
    have w: "word_of_nat n - 1 = (word_of_nat (n - 1) :: u64)" using n(1) by (simp add: of_nat_diff)
    have "unat (word_of_nat (n - 1) :: u64) = n - 1" "unat (word_of_nat 255 :: u64) = 255" using n by (intro unat_of_nat_small; simp)+
    then have l: "(word_of_nat 255 :: u64) < word_of_nat (n - 1) \<longleftrightarrow> 255 < n - 1" by (simp only: word_less_nat_alt)
    show ?thesis unfolding m w l by (cases "255 < n - 1") (simp_all only: if_True if_False min_def split: if_splits, simp_all)
  qed
  have ue: "unat (word_of_nat (min (n - 1) 255) :: u64) = min (n - 1) 255" by (rule unat_of_nat_small) simp
  have clip: "(512 \<le> (word_of_nat i + word_of_nat (min (n - 1) 255) :: u64)) = False"
  proof -
    have "unat (word_of_nat i + word_of_nat (min (n - 1) 255) :: u64) = i + min (n - 1) 255"
      using ue u(2) n by (subst unat_add_small) simp_all
    then show ?thesis using n by (simp add: word_le_nat_alt)
  qed
  have "min (n - 1) 255 + 1 = min n 256" using n(1) by linarith
  then have backs: "unat (word_of_nat (min (n - 1) 255) :: u64) + 1 = min n 256" unfolding ue .
  have last_addr: "sa g i + sizeof_mi_slice_t * (word_of_nat n - 1) = sa g (i + n - 1)"
    using slice_addr_step(1) [of g i "n - 1"] n(1) by (simp add: of_nat_diff)
  have end_addr: "mi_segment_slices_end g s = sa g 512" if "segment_at s = segment_at st1" for s
    using ent that by (simp add: mi_segment_slices_end_def sa_def)
  note less = slice_addr_less [OF seg_fits [OF k(1)]]
  have l1: "(sa g 512 < sa g (i + n - 1)) = False" and l2: "(sa g i < sa g (i + n - 1)) = (1 < n)"
    using less [of 512 "i + n - 1"] less [of i "i + n - 1"] n by auto
  have back_ofs: "ucast (sa g (i + n - 1) - sa g i) = slice_back (n - 1)"
  proof -
    have "sa g (i + n - 1) - sa g i = sizeof_mi_slice_t * word_of_nat (n - 1)" using last_addr n(1)
      by (simp add: of_nat_diff algebra_simps)
    then show ?thesis using back_offset_word [of "n - 1"] by simp
  qed
  show ?thesis
    by (simp only: mi_segment_span_allocate_def Let_def sa start MI_COMMIT_SIZE_def [symmetric] c prod.case x [unfolded MI_COMMIT_SIZE_def [symmetric]]
        word32_nat extra segment_at_slices ent clip if_False backs last_addr set_backs_def [symmetric] end_addr l1 l2 back_ofs page_slices_def
        if_not_P not_False_eq_True cong: if_cong) (cases okay; simp only: if_True if_False not_True_eq_False not_False_eq_True)
qed

text \<open>A range of slices becomes a page; its memory is committed. If that fails, only the commit state has changed.\<close>

definition span_bytes :: "addr \<Rightarrow> nat \<Rightarrow> nat \<Rightarrow> nat set" where
  "span_bytes g i n = {unat g + i * 65536..<unat g + (i + n) * 65536}"

text \<open>The memory of the span is committed and none of it is scheduled to be purged.\<close>

definition span_ready :: "nat set \<Rightarrow> addr \<Rightarrow> nat \<Rightarrow> nat \<Rightarrow> segs_state \<Rightarrow> bool" where
  "span_ready B g i n st \<longleftrightarrow> span_bytes g i n \<subseteq> committed_bytes (os_log st) B \<and> {i..<i + n} \<inter> mask_set (purge_mask (segment_at st g)) = {}"

lemma span_allocate_step:
  assumes known: "known_spans G B K Q st" and g: "g \<in> G" and ok: "span_ok (i, n, False)"
    and gap: "\<And>t. t \<in> K g \<Longrightarrow> span_range t \<inter> {i..<i + n} = {}"
  shows "\<exists>okay st1 st'. mi_segment_ensure_committed env g (g + word_of_nat i * MI_COMMIT_SIZE) (word_of_nat n * MI_COMMIT_SIZE) st = (okay, st1) \<and>
    mi_segment_span_allocate env g (word_of_nat i) (word_of_nat n) st = (if okay then sa g i else 0, st') \<and>
    (if okay then known_spans G B (K(g := insert (i, n, False) (K g))) Q st' \<and>
       segments_kept (set_segment g (\<lambda>sg. sg\<lparr>sg_used := sg_used sg + 1\<rparr>) st) st' \<and>
       span_ready B g i n st'
     else known_spans G B K Q st' \<and> segments_kept st st' \<and> slice_at st' = slice_at st)"
proof -
  note k = known_spans_get [OF known g]
  have n: "1 \<le> n" "i + n \<le> 512" using ok by (simp_all add: span_ok_def)
  let ?p = "g + word_of_nat i * MI_COMMIT_SIZE" and ?sz = "word_of_nat n * MI_COMMIT_SIZE"
  have pos: "0 < n" using n(1) by simp
  note seg = run_in_segment [OF seg_fits [OF k(1)] pos n(2)]
  obtain okay st1 where e: "mi_segment_ensure_committed env g ?p ?sz st = (okay, st1)" "mask_sound B g st1" "same_but_masks g st st1"
    "committed_bytes (os_log st) B \<subseteq> committed_bytes (os_log st1) B"
    "okay \<longrightarrow> outer (unat ?p - unat g) (unat ?sz) \<subseteq> mask_set (commit_mask (segment_at st1 g)) \<and>
       outer (unat ?p - unat g) (unat ?sz) \<inter> mask_set (purge_mask (segment_at st1 g)) = {}"
    using ensure_committed_sound [OF k(2) seg(1), of env] by blast
  have s1: "segs_ok G B st1" using known e(4) by (intro segs_ok_step [OF _ g e(2,3)]) (auto simp: known_spans_def)
  have same1: "slice_at st1 = slice_at st" "spans st1 = spans st" using e(3) by (simp_all add: same_but_masks_def)
  have known1: "known_spans G B K Q st1" using known s1 by (simp add: known_spans_def same1)
  have kept1: "segments_kept st st1" using e(3) unfolding segments_kept_def same_but_masks_def by metis
  note run = span_allocate_unfold [OF known g ok e(1,3)]
  show ?thesis
  proof (cases okay)
    case False
    then show ?thesis using e(1) run known1 kept1 same1 by auto
  next
    case True
    obtain pa where pa: "page_slices g i n st1 = st1\<lparr>slice_at := pa\<rparr>" "span_at g pa (i, n, False)"
      "\<forall>y. y \<notin> sa g ` {i..<i + n} \<longrightarrow> pa y = slice_at st1 y"
      "\<forall>y. page_prev (pa y) = page_prev (slice_at st1 y) \<and> page_next (pa y) = page_next (slice_at st1 y)"
      using page_slices_span [OF k(1) n] by blast
    let ?st = "set_segment g (\<lambda>sg. sg\<lparr>sg_used := sg_used sg + 1\<rparr>) (st1\<lparr>slice_at := pa\<rparr>)"
    have st: "slice_at ?st = pa" "spans ?st = spans st" "os_log ?st = os_log st1" by (simp_all add: set_segment_def same1)
    have old: "spans_ok G K pa"
    proof (rule spans_ok_frame [OF _ _ g gap])
      show "spans_ok G K (slice_at st)" using known by (simp add: known_spans_def)
      show "{i..<i + n} \<subseteq> {..512}" using n(2) by auto
      show "slice_data (pa y) = slice_data (slice_at st y)" if "y \<notin> sa g ` {i..<i + n}" for y using pa(3) that by (simp add: same1)
    qed (rule known_spans_get(1) [OF known])
    have "spans_ok G (K(g := insert (i, n, False) (K g))) pa"
      by (rule spans_ok_insert [OF old g ok pa(2)]) (use gap in \<open>simp add: span_range_def\<close>)
    moreover have "segs_ok G B ?st"
      using s1 by (auto simp: segs_ok_def mask_sound_def segment_fits_def set_segment_def)
    moreover have "span_lists Q pa (spans st)"
    proof -
      have "dll pa 0 (Q r) 0" if "r < 36" for r
        by (rule dll_frame [OF span_lists_get(3) [OF k(9) that]]) (use pa(4) in \<open>simp add: same1\<close>)
      then show ?thesis using k(9) unfolding span_lists_def by blast
    qed
    ultimately have kn: "known_spans G B (K(g := insert (i, n, False) (K g))) Q ?st"
      using k(10) unfolding known_spans_def st free_heads_used by blast
    have "inner ofs sz \<subseteq> outer ofs sz" for ofs sz
    proof -
      have "ofs div 65536 \<le> (ofs + 65535) div 65536" "(ofs + sz) div 65536 \<le> (ofs + sz + 65535) div 65536" by (simp_all add: div_le_mono)
      then show ?thesis by (auto simp: inner_def outer_def)
    qed
    then have "{i..<i + n} \<subseteq> mask_set (commit_mask (segment_at st1 g))" "{i..<i + n} \<inter> mask_set (purge_mask (segment_at st1 g)) = {}"
      using e(5) True seg(2) by blast+
    then have "chunks g {i..<i + n} \<subseteq> committed_bytes (os_log st1) B"
      using chunks_mono e(2) unfolding mask_sound_def by blast
    then have "span_bytes g i n \<subseteq> committed_bytes (os_log ?st) B"
      unfolding st span_bytes_def using chunks_range [of i "i + n" g] by simp
    then have mem: "span_ready B g i n ?st"
      using \<open>{i..<i + n} \<inter> mask_set (purge_mask (segment_at st1 g)) = {}\<close> by (simp add: span_ready_def set_segment_def)
    have "no_masks (sg\<lparr>sg_used := sg_used sg + 1\<rparr>) = (no_masks sg)\<lparr>sg_used := sg_used (no_masks sg) + 1\<rparr>" for sg by (simp add: no_masks_def)
    then have "segments_kept (set_segment g (\<lambda>sg. sg\<lparr>sg_used := sg_used sg + 1\<rparr>) st) ?st"
      using kept1 by (simp add: segments_kept_def set_segment_def)
    then show ?thesis using e(1) run kn mem True unfolding pa(1) by auto
  qed
qed

end
