(* ===== verification/Mi_Spans.thy ===== *)
theory Mi_Spans
  imports Mi_Span_Steps
begin

text \<open>
  The slices of the segments of a thread as lists of spans: every operation on spans is the list operation it stands for,
  the back offsets lead from every slice that can be asked for to the first slice of its span, the span queues hold
  exactly the free spans, and the commit masks stay true to the memory that is committed.
\<close>

section \<open>The segments as lists of spans\<close>

text \<open>No two neighbours are free, and a segment counts its used spans without the one that holds the segment itself.\<close>

definition compact :: "span_t list \<Rightarrow> bool" where
  "compact L \<longleftrightarrow> successively (\<lambda>s t. \<not> (snd (snd s) \<and> snd (snd t))) L"

definition used_spans :: "span_t list \<Rightarrow> nat" where
  "used_spans L = length (filter (\<lambda>s. \<not> snd (snd s)) L)"

definition heap_spans :: "addr set \<Rightarrow> nat set \<Rightarrow> (addr \<Rightarrow> span_t list) \<Rightarrow> (nat \<Rightarrow> addr list) \<Rightarrow> segs_state \<Rightarrow> bool" where
  "heap_spans G B L Q st \<longleftrightarrow> known_spans G B (\<lambda>seg. set (L seg)) Q st \<and>
     (\<forall>seg \<in> G. tiling 0 (L seg) 512 \<and> compact (L seg) \<and> sg_used (segment_at st seg) + 1 = word_of_nat (used_spans (L seg)))"

lemma compact_simps:
  "compact (A @ s # C) \<longleftrightarrow> compact A \<and> compact C \<and> (A \<noteq> [] \<and> snd (snd (last A)) \<longrightarrow> \<not> snd (snd s)) \<and>
     (C \<noteq> [] \<and> snd (snd (hd C)) \<longrightarrow> \<not> snd (snd s))"
  by (auto simp: compact_def successively_append_iff successively_Cons)

lemma used_spans_simps:
  "used_spans (A @ C) = used_spans A + used_spans C" "used_spans [] = 0"
  "used_spans ((i, n, True) # C) = used_spans C" "used_spans ((i, n, False) # C) = Suc (used_spans C)"
  by (simp_all add: used_spans_def)

lemma merged_shape:
  assumes "compact A" "compact C"
  shows "compact (snd (merged A i n C)) \<and> used_spans (snd (merged A i n C)) = used_spans A + used_spans C"
proof -
  obtain m D where d: "merge_next n C = (m, D)" by (cases "merge_next n C")
  have D: "compact D" "D \<noteq> [] \<Longrightarrow> \<not> snd (snd (hd D))" "used_spans D = used_spans C"
  proof -
    have "compact D \<and> (D \<noteq> [] \<longrightarrow> \<not> snd (snd (hd D))) \<and> used_spans D = used_spans C"
    proof (cases C)
      case Nil
      then show ?thesis using d by (simp add: compact_def)
    next
      case (Cons s E)
      obtain j l f where s: "s = (j, l, f)" by (cases s)
      show ?thesis using d Cons s assms(2) by (cases f) (auto simp: compact_def successively_Cons used_spans_simps)
    qed
    then show "compact D" "D \<noteq> [] \<Longrightarrow> \<not> snd (snd (hd D))" "used_spans D = used_spans C" by blast+
  qed
  obtain A' i' m' where a: "merge_prev A i m = (A', i', m')" by (cases "merge_prev A i m") auto
  have A: "compact A'" "A' \<noteq> [] \<Longrightarrow> \<not> snd (snd (last A'))" "used_spans A' = used_spans A"
  proof -
    have "compact A' \<and> (A' \<noteq> [] \<longrightarrow> \<not> snd (snd (last A'))) \<and> used_spans A' = used_spans A"
    proof (cases A rule: rev_cases)
      case Nil
      then show ?thesis using a by (simp add: compact_def)
    next
      case (snoc E s)
      obtain j l f where s: "s = (j, l, f)" by (cases s)
      have "compact (E @ s # [])" using assms(1) snoc by simp
      note c = this [unfolded compact_simps]
      show ?thesis using a snoc s c assms(1) by (cases f) (auto simp: used_spans_simps)
    qed
    then show "compact A'" "A' \<noteq> [] \<Longrightarrow> \<not> snd (snd (last A'))" "used_spans A' = used_spans A" by blast+
  qed
  have "snd (merged A i n C) = A' @ (i', m', True) # D" by (simp add: merged_def d a del: merge_prev.simps)
  then show ?thesis using A D by (auto simp: compact_simps used_spans_simps)
qed

lemma heap_spans_get:
  assumes "heap_spans G B L Q st" "g \<in> G"
  shows "known_spans G B (\<lambda>seg. set (L seg)) Q st" "tiling 0 (L g) 512" "compact (L g)"
    "sg_used (segment_at st g) + 1 = word_of_nat (used_spans (L g))"
  using assms by (simp_all add: heap_spans_def)

text \<open>One segment has changed.\<close>

lemma heap_spans_update:
  assumes hs: "heap_spans G B L Q st" and g: "g \<in> G"
    and known: "known_spans G B ((\<lambda>seg. set (L seg))(g := set M)) Q' st'" and til: "tiling 0 M 512" and c: "compact M"
    and used: "sg_used (segment_at st' g) + 1 = word_of_nat (used_spans M)"
    and others: "\<And>s. s \<in> G \<Longrightarrow> s \<noteq> g \<Longrightarrow> sg_used (segment_at st' s) = sg_used (segment_at st s)"
  shows "heap_spans G B (L(g := M)) Q' st'"
proof -
  have e: "(\<lambda>seg. set (L seg))(g := set M) = (\<lambda>seg. set ((L(g := M)) seg))" by (rule ext) simp
  show ?thesis unfolding heap_spans_def
  proof (intro conjI ballI)
    show "known_spans G B (\<lambda>seg. set ((L(g := M)) seg)) Q' st'" using known unfolding e .
    fix seg assume seg: "seg \<in> G"
    note h = heap_spans_get [OF hs seg]
    show "tiling 0 ((L(g := M)) seg) 512" using til h(2) by simp
    show "compact ((L(g := M)) seg)" using c h(3) by simp
    show "sg_used (segment_at st' seg) + 1 = word_of_nat (used_spans ((L(g := M)) seg))"
      using used others [OF seg] h(4) by simp
  qed
qed

lemma tiling_split: "tiling 0 (A @ (i, n, f) # C) 512 \<longleftrightarrow> tiling 0 A i \<and> 1 \<le> n \<and> tiling (i + n) C 512"
  by (auto simp: tiling_append)

lemma list_split_known:
  assumes "L g = A @ s # C"
  shows "(\<lambda>seg. set (L seg)) = (\<lambda>seg. set (L seg))(g := insert s (set A \<union> set C))"
  using assms by (intro ext) simp

text \<open>The slices of a used span are not known any more.\<close>

lemma forget_span:
  assumes hs: "heap_spans G B L Q st" and g: "g \<in> G" and L: "L g = A @ (i, n, False) # C"
  shows "known_spans G B ((\<lambda>seg. set (L seg))(g := set A \<union> set C)) Q st"
proof -
  let ?K = "(\<lambda>seg. set (L seg))(g := set A \<union> set C)"
  note known = heap_spans_get(1) [OF hs g]
  have "spans_ok G ?K (slice_at st)"
    using known L spans_ok_less [of G "\<lambda>seg. set (L seg)" "slice_at st" ?K g] by (auto simp: known_spans_def)
  moreover have "free_heads G ?K r = free_heads G (\<lambda>seg. set (L seg)) r" for r
    using free_heads_used [of G ?K g i n r] list_split_known [of L g A "(i, n, False)" C, OF L] by simp
  ultimately show ?thesis using known unfolding known_spans_def by simp
qed

text \<open>Slices in a gap may be written, with their links.\<close>

lemma gap_write:
  assumes known: "known_spans G B K Q st" and g: "g \<in> G" and i: "i < 512" and gap: "\<And>t. t \<in> K g \<Longrightarrow> i \<notin> span_range t"
  shows "known_spans G B K Q (set_slice (sa g i) f st)"
proof -
  let ?pa = "(slice_at st)(sa g i := f (slice_at st (sa g i)))"
  note k = known_spans_get [OF known g]
  have "spans_ok G K ?pa"
  proof (rule spans_ok_frame [where R = "{i}"])
    show "spans_ok G K (slice_at st)" using known by (simp add: known_spans_def)
  qed (use known_spans_get(1) [OF known] g gap i in auto)
  moreover have "span_lists Q ?pa (spans st)"
  proof -
    have "sa g i \<notin> set (Q r)" if r: "r < 36" for r
    proof
      have ok: "span_ok (i, 1, True)" using i by (simp add: span_ok_def)
      assume "sa g i \<in> set (Q r)"
      then obtain m where m: "(i, m, True) \<in> K g" using free_heads_mem [OF known g ok r] by blast
      then show False using gap [OF m] k(7) [OF m] by (simp add: span_range_def span_ok_def)
    qed
    then have "dll ?pa 0 (Q r) 0" if "r < 36" for r
      using that by (intro dll_frame [OF span_lists_get(3) [OF k(9) that]]) auto
    then show ?thesis using k(9) unfolding span_lists_def by blast
  qed
  moreover have "segs_ok G B (st\<lparr>slice_at := ?pa\<rparr>)" using known by (auto simp: known_spans_def intro: segs_ok_cong)
  ultimately show ?thesis using known by (simp add: known_spans_def set_slice_def)
qed

text \<open>Resetting the memory of a page leaves it committed.\<close>

lemma reset_spans: "heap_spans G B L Q st \<Longrightarrow> heap_spans G B L Q (mi_os_reset p sz st)"
  by (auto simp: heap_spans_def known_spans_def segs_ok_def mask_sound_def mi_os_reset_def)

definition lists_kept :: "segs_state \<Rightarrow> segs_state \<Rightarrow> bool" where
  "lists_kept st st' \<longleftrightarrow> lists_state st' = lists_state st \<and>
     (\<forall>s. abandoned_next (segment_at st' s) = abandoned_next (segment_at st s) \<and> sg_memid (segment_at st' s) = sg_memid (segment_at st s))"

lemma lists_kept_trans: "lists_kept a b \<Longrightarrow> lists_kept b c \<Longrightarrow> lists_kept a c"
  by (simp add: lists_kept_def)

lemma kept_lists: "segments_kept st st' \<Longrightarrow> lists_kept st st'"
  using same_kept by (auto simp: lists_kept_def segments_kept_def)

text \<open>What clearing a page keeps: the segment counts one page less, and the lists of abandoned segments are as before.\<close>

definition cleared_kept :: "addr \<Rightarrow> segs_state \<Rightarrow> segs_state \<Rightarrow> bool" where
  "cleared_kept g st st' \<longleftrightarrow> lists_kept st st' \<and> (\<forall>s. sg_abandoned (segment_at st' s) = sg_abandoned (segment_at st s) \<and>
     sg_used (segment_at st' s) = (if s = g then sg_used (segment_at st s) - 1 else sg_used (segment_at st s)))"

lemma cleared_spans:
  assumes hs: "heap_spans G B L Q st" and g: "g \<in> G" and L: "L g = A @ (i, n, False) # C"
  shows "\<exists>st' Q'. Option.bind (mi_segment_span_free_coalesce env (sa g i) (set_slice (sa g i) cleared_page st))
      (\<lambda>(slc, st). Some (slc, set_segment g (\<lambda>sg. sg\<lparr>sg_used := sg_used sg - 1\<rparr>) st)) = Some (sa g (fst (merged A i n C)), st') \<and>
    heap_spans G B (L(g := snd (merged A i n C))) Q' st' \<and> cleared_kept g st st'"
proof -
  let ?K = "(\<lambda>seg. set (L seg))(g := set A \<union> set C)"
  note h = heap_spans_get [OF hs g, unfolded L] and k = known_spans_get [OF heap_spans_get(1) [OF hs g] g]
  have til: "tiling 0 A i" "1 \<le> n" "tiling (i + n) C 512" using h(2) unfolding tiling_split by blast+
  have i: "i < 512" using til(2) tiling_bounds [OF til(3)] by simp
  have at: "span_at g (slice_at st) (i, n, False)" using k(8) [of "(i, n, False)"] L by simp
  let ?st = "set_slice (sa g i) cleared_page st"
  have known: "known_spans G B ?K Q ?st"
    by (rule gap_write [OF forget_span [OF hs g L] g i]) (use tiling_gap [OF til(1,3)] til(2) in fastforce)
  have cnt: "slice_count (slice_at ?st (sa g i)) = word_of_nat n" using at by (simp add: set_slice_def cleared_page_def)
  obtain st1 Q1 where r: "mi_segment_span_free_coalesce env (sa g i) ?st = Some (sa g (fst (merged A i n C)), st1)"
    "known_spans G B ((\<lambda>seg. set (L seg))(g := set (snd (merged A i n C)))) Q1 st1" "segments_kept ?st st1"
    "tiling 0 (snd (merged A i n C)) 512"
    using coalesce_step [OF known g til cnt] by blast
  let ?st' = "set_segment g (\<lambda>sg. sg\<lparr>sg_used := sg_used sg - 1\<rparr>) st1"
  note run = r(1)
  have known': "known_spans G B ((\<lambda>seg. set (L seg))(g := set (snd (merged A i n C)))) Q1 ?st'"
    using r(2) by (auto simp: known_spans_def segs_ok_def mask_sound_def segment_fits_def set_segment_def)
  have used: "sg_used (segment_at st1 s) = sg_used (segment_at st s)" for s using same_kept [OF r(3)] by simp
  have c: "compact A" "compact C" using h(3) by (simp_all add: compact_simps)
  note sh = merged_shape [OF c, of i n]
  have "sg_used (segment_at st g) = word_of_nat (used_spans A + used_spans C)"
    using h(4) by (simp add: used_spans_simps)
  then have "sg_used (segment_at ?st' g) + 1 = word_of_nat (used_spans (snd (merged A i n C)))"
    using used sh by (simp add: set_segment_def)
  then have "heap_spans G B (L(g := snd (merged A i n C))) Q1 ?st'"
    using heap_spans_update [OF hs g known' r(4)] sh used by (simp add: set_segment_def)
  moreover have "cleared_kept g st ?st'"
    unfolding cleared_kept_def lists_kept_def using r(3) same_kept [OF r(3)] by (auto simp: set_segment_def segments_kept_def set_slice_def)
  ultimately show ?thesis unfolding run by auto
qed

lemma page_clear_spans:
  assumes hs: "heap_spans G B L Q st" and g: "g \<in> G" and L: "L g = A @ (i, n, False) # C"
  shows "\<exists>st' Q'. mi_segment_page_clear env (sa g i) st = Some (sa g (fst (merged A i n C)), st') \<and>
    heap_spans G B (L(g := snd (merged A i n C))) Q' st' \<and> cleared_kept g st st'"
proof -
  note k = known_spans_get [OF heap_spans_get(1) [OF hs g] g]
  have "i \<le> 512" using k(7) [of "(i, n, False)"] L by (simp add: span_ok_def)
  then have sg: "mi_ptr_segment (sa g i) = g" by (rule slice_addr_segment [OF k(1)])
  obtain start psize where ps: "mi_segment_page_start g (sa g i) st = (start, psize)" by (cases "mi_segment_page_start g (sa g i) st")
  let ?st = "if allow_decommit (segment_at st g) \<and> page_reset env then mi_os_reset start psize st else st"
  have hs': "heap_spans G B L Q ?st" using hs reset_spans by simp
  have ab: "cleared_kept g ?st = cleared_kept g st" by (intro ext) (simp add: mi_os_reset_def cleared_kept_def lists_kept_def)
  from cleared_spans [where env = env, OF hs' g L] show ?thesis unfolding mi_segment_page_clear_def Let_def sg ps prod.case ab .
qed

section \<open>Finding a span\<close>

lemma commit_refused:
  assumes "mi_segment_ensure_committed env g p sz st = (False, st')"
  shows "\<exists>k. \<not> os_commit_ok env k"
proof (rule ccontr)
  assume "\<not> ?thesis"
  then have "\<And>k. os_commit_ok env k" by simp
  then show False using assms
    by (auto simp: mi_segment_ensure_committed_def mi_segment_commit_def mi_os_commit_def Let_def split: if_splits prod.splits)
qed

text \<open>The spans after a free span of \<open>m\<close> slices at slice \<open>i\<close> has given \<open>n\<close> of them to a page.\<close>

definition rest_span :: "nat \<Rightarrow> nat \<Rightarrow> nat \<Rightarrow> span_t list" where
  "rest_span i n m = (if n < m then [(i + n, m - n, True)] else [])"

lemma slice_split_step:
  assumes known: "known_spans G B (K(g := set A \<union> set C)) Q st" and g: "g \<in> G"
    and til: "tiling 0 A i" "tiling (i + m) C 512" "1 \<le> n" "n \<le> m" and cnt: "slice_count (slice_at st (sa g i)) = word_of_nat m"
  shows "\<exists>st' Q'. (if word_of_nat n < (ucast (slice_count (slice_at st (sa g i))) :: size_t)
      then mi_segment_slice_split env g (sa g i) (word_of_nat n) st else Some st) = Some st' \<and>
    known_spans G B (K(g := set A \<union> set (rest_span i n m @ C))) Q' st' \<and> segments_kept st st' \<and>
    slice_count (slice_at st' (sa g i)) = word_of_nat n"
proof -
  note k = known_spans_get [OF known g]
  have m: "i + m \<le> 512" using tiling_bounds [OF til(2)] by simp
  have c: "ucast (slice_count (slice_at st (sa g i))) = (word_of_nat m :: size_t)" using cnt count_word [of m] m by simp
  have "unat (word_of_nat n :: u64) = n" "unat (word_of_nat m :: u64) = m" using m til(4) by (intro unat_of_nat_small; simp)+
  then have lt: "(word_of_nat n :: u64) < word_of_nat m \<longleftrightarrow> n < m" by (simp add: word_less_nat_alt)
  show ?thesis
  proof (cases "n < m")
    case False
    then show ?thesis unfolding c lt using known cnt til(4) by (auto simp: rest_span_def segments_kept_def)
  next
    case True
    have idx: "mi_slice_index (sa g i) + word_of_nat n = word_of_nat (i + n)" using slice_addr_index(1) [OF k(1), of i] m by simp
    have num: "word_of_nat m - word_of_nat n = (word_of_nat (m - n) :: u64)" using True by (simp add: of_nat_diff)
    have le: "((word_of_nat m :: u64) \<le> word_of_nat n) = False" using lt True by (simp add: not_le)
    have ok: "span_ok (i + n, m - n, True)" using True m by (simp add: span_ok_def)
    have gap: "span_range t \<inter> {i + n..<i + n + (m - n)} = {}" if "t \<in> (K(g := set A \<union> set C)) g" for t
      using tiling_gap [OF til(1,2), of t] that True by auto
    obtain st1 Q1 where s1: "mi_segment_span_free env g (word_of_nat (i + n)) (word_of_nat (m - n)) False st = Some st1"
      "known_spans G B ((K(g := set A \<union> set C))(g := insert (i + n, m - n, True) ((K(g := set A \<union> set C)) g))) Q1 st1" "segments_kept st st1"
      using span_free_step [OF known g ok gap, of env False] by blast
    have K: "(K(g := set A \<union> set C))(g := insert (i + n, m - n, True) ((K(g := set A \<union> set C)) g)) = K(g := set A \<union> set (rest_span i n m @ C))"
      using True by (auto simp: rest_span_def)
    let ?st = "set_slice (sa g i) (\<lambda>s. s\<lparr>slice_count := word_of_nat n\<rparr>) st1"
    have "i \<notin> span_range t" if t: "t \<in> (K(g := set A \<union> set (rest_span i n m @ C))) g" for t
    proof -
      consider "t \<in> set A \<union> set C" | "t = (i + n, m - n, True)" using t True by (auto simp: rest_span_def)
      then show ?thesis
      proof cases
        case 1
        then show ?thesis using tiling_gap [OF til(1,2) 1] til(3,4) by auto
      next
        case 2
        then show ?thesis using til(3) by (simp add: span_range_def)
      qed
    qed
    then have "known_spans G B (K(g := set A \<union> set (rest_span i n m @ C))) Q1 ?st"
      using gap_write [OF s1(2) [unfolded K] g, of i] m til(3,4) by simp
    moreover have "mi_segment_slice_split env g (sa g i) (word_of_nat n) st = Some ?st"
      unfolding mi_segment_slice_split_def Let_def c le idx num s1(1) word32_nat by simp
    moreover have "segments_kept st ?st" using s1(3) by (simp add: segments_kept_def set_slice_def)
    moreover have "slice_count (slice_at ?st (sa g i)) = word_of_nat n" by (simp add: set_slice_def)
    ultimately show ?thesis unfolding c lt using True by auto
  qed
qed

lemma merged_rest:
  assumes "compact (A @ (i, m, True) # C)" "n \<le> m"
  shows "merged A i n (rest_span i n m @ C) = (i, A @ (i, m, True) # C)"
proof -
  have A: "\<not> (A \<noteq> [] \<and> snd (snd (last A)))" and C: "\<not> (C \<noteq> [] \<and> snd (snd (hd C)))"
    using assms(1) unfolding compact_simps by auto
  have "merge_next m C = (m, C)"
  proof (cases C)
    case (Cons s D)
    obtain j l f where "s = (j, l, f)" by (cases s)
    then show ?thesis using C Cons by (cases f) simp_all
  qed simp
  then have "merge_next n (rest_span i n m @ C) = (m, C)" using assms(2) by (auto simp: rest_span_def)
  then show ?thesis using A by (auto simp: merged_def)
qed

lemma allocate_found_spans:
  assumes hs: "heap_spans G B L Q st" and g: "g \<in> G" and L: "L g = A @ (i, m, True) # C" and n: "1 \<le> n" "n \<le> m"
    and q: "q = mi_span_queue_for (word_of_nat m)"
  shows "\<exists>pg st' L' Q'. allocate_found env (word_of_nat n) q (sa g i) st = Some (pg, st') \<and> heap_spans G B L' Q' st' \<and> lists_kept st st' \<and>
    (if pg = 0 then L' = L \<and> (\<exists>k. \<not> os_commit_ok env k)
     else pg = sa g i \<and> L' = L(g := A @ (i, n, False) # rest_span i n m @ C) \<and> span_ready B g i n st')"
proof -
  let ?L = "\<lambda>seg. set (L seg)"
  note h = heap_spans_get [OF hs g, unfolded L] and known = heap_spans_get(1) [OF hs g]
  note k = known_spans_get [OF known g]
  have til: "tiling 0 A i" "1 \<le> m" "tiling (i + m) C 512" using h(2) unfolding tiling_split by blast+
  have m: "i + m \<le> 512" using tiling_bounds [OF til(3)] by simp
  have sg: "mi_ptr_segment (sa g i) = g" by (rule slice_addr_segment [OF k(1)]) (use m in simp)
  have mem: "(i, m, True) \<in> ?L g" using L by simp
  have at: "span_at g (slice_at st) (i, m, True)" by (rule k(8) [OF mem])
  have cw: "ucast (slice_count (slice_at st (sa g i))) = (word_of_nat m :: size_t)" using at count_word [of m] m by simp
  have del: "mi_span_queue_delete q (sa g i) st = mi_segment_span_remove_from_queue (sa g i) st"
    by (simp add: mi_segment_span_remove_from_queue_def cw q)
  obtain Q1 where d: "queue_moved st (sa g i) 1 Q1 (mi_segment_span_remove_from_queue (sa g i) st)"
    "known_spans G B (?L(g := ?L g - {(i, m, True)})) Q1 (mi_segment_span_remove_from_queue (sa g i) st)"
    using remove_from_queue_step [OF known g mem] by blast
  let ?s1 = "mi_segment_span_remove_from_queue (sa g i) st"
  have "(i, m, True) \<notin> set A \<union> set C"
    using tiling_bounds [OF til(1)] tiling_bounds [OF til(3)] til(2) by (auto dest!: bspec)
  then have K: "?L(g := ?L g - {(i, m, True)}) = ?L(g := set A \<union> set C)" using L by auto
  have s1: "segments_kept st ?s1" "slice_count (slice_at ?s1 (sa g i)) = word_of_nat m"
    using d(1) at by (auto simp: queue_moved_def segments_kept_def same_spans_def)
  obtain st2 Q2 where s2: "(if word_of_nat n < (ucast (slice_count (slice_at ?s1 (sa g i))) :: size_t)
      then mi_segment_slice_split env g (sa g i) (word_of_nat n) ?s1 else Some ?s1) = Some st2"
    "known_spans G B (?L(g := set A \<union> set (rest_span i n m @ C))) Q2 st2" "segments_kept ?s1 st2"
    "slice_count (slice_at st2 (sa g i)) = word_of_nat n"
    using slice_split_step [OF d(2) [unfolded K] g til(1,3) n s1(2)] by blast
  have til2: "tiling (i + n) (rest_span i n m @ C) 512"
    using til(3) n by (cases "n < m") (simp_all add: rest_span_def)
  have ok: "span_ok (i, n, False)" using n m by (simp add: span_ok_def)
  have gap: "span_range t \<inter> {i..<i + n} = {}" if "t \<in> (?L(g := set A \<union> set (rest_span i n m @ C))) g" for t
    using tiling_gap [OF til(1) til2, of t] that by simp
  have cw2: "ucast (slice_count (slice_at st2 (sa g i))) = (word_of_nat n :: size_t)" using s2(4) count_word [of n] n m by simp
  have idx: "mi_slice_index (sa g i) = word_of_nat i" by (rule slice_addr_index(1) [OF k(1)]) (use m in simp)
  have nz: "sa g i \<noteq> 0" by (rule slice_addr_nonzero [OF seg_fits [OF k(1)]]) (use m in simp)
  obtain okay st3 st' where s3: "mi_segment_ensure_committed env g (g + word_of_nat i * MI_COMMIT_SIZE) (word_of_nat n * MI_COMMIT_SIZE) st2 = (okay, st3)"
    "mi_segment_span_allocate env g (word_of_nat i) (word_of_nat n) st2 = (if okay then sa g i else 0, st')"
    "if okay then known_spans G B ((?L(g := set A \<union> set (rest_span i n m @ C)))(g := insert (i, n, False) ((?L(g := set A \<union> set (rest_span i n m @ C))) g))) Q2 st' \<and>
       segments_kept (set_segment g (\<lambda>sg. sg\<lparr>sg_used := sg_used sg + 1\<rparr>) st2) st' \<and> span_ready B g i n st'
     else known_spans G B (?L(g := set A \<union> set (rest_span i n m @ C))) Q2 st' \<and> segments_kept st2 st' \<and> slice_at st' = slice_at st2"
    using span_allocate_step [OF s2(2) g ok gap, of env] by blast
  have kept2: "segments_kept st st2" using s1(1) s2(3) segments_kept_trans by blast
  have run: "allocate_found env (word_of_nat n) q (sa g i) st =
    (if okay then Some (sa g i, st') else Option.bind (mi_segment_span_free_coalesce env (sa g i) st') (\<lambda>(_, st). Some (0, st)))"
    using nz unfolding allocate_found_def Let_def sg del s2(1) by (simp add: idx cw2 s3(2))
  show ?thesis
  proof (cases okay)
    case True
    let ?M = "A @ (i, n, False) # rest_span i n m @ C"
    have e: "(?L(g := set A \<union> set (rest_span i n m @ C)))(g := insert (i, n, False) ((?L(g := set A \<union> set (rest_span i n m @ C))) g)) = ?L(g := set ?M)"
      by auto
    have known': "known_spans G B (?L(g := set ?M)) Q2 st'" using s3(3) True unfolding e by simp
    have used: "sg_used (segment_at st' s) = sg_used (segment_at st s) + (if s = g then 1 else 0)" for s
    proof -
      have "segments_kept (set_segment g (\<lambda>sg. sg\<lparr>sg_used := sg_used sg + 1\<rparr>) st2) st'" using s3(3) True by simp
      from same_kept [OF this, of s] same_kept [OF kept2, of s] show ?thesis by (cases "s = g") (simp_all add: set_segment_def)
    qed
    have "tiling 0 ?M 512" using til(1) til2 n(1) by (simp add: tiling_split)
    moreover have "compact ?M"
    proof -
      have c: "compact A" "compact C" "C = [] \<or> \<not> snd (snd (hd C))" using h(3) by (auto simp: compact_simps)
      have "compact ([] @ (i + n, m - n, True) # C)" unfolding compact_simps using c by (auto simp: compact_def)
      then have "compact (rest_span i n m @ C)" using c(2) by (simp add: rest_span_def)
      then show ?thesis using c(1) by (simp add: compact_simps)
    qed
    moreover have "sg_used (segment_at st' g) + 1 = word_of_nat (used_spans ?M)"
      using used [of g] h(4) by (auto simp: used_spans_simps rest_span_def algebra_simps)
    ultimately have "heap_spans G B (L(g := ?M)) Q2 st'" using heap_spans_update [OF hs g known'] used by simp
    moreover have "lists_kept st st'"
    proof -
      have "lists_kept (set_segment g (\<lambda>sg. sg\<lparr>sg_used := sg_used sg + 1\<rparr>) st2) st'" using s3(3) True kept_lists by simp
      then show ?thesis using kept_lists [OF kept2] by (auto simp: lists_kept_def set_segment_def split: if_splits)
    qed
    ultimately show ?thesis using run s3(3) True nz by auto
  next
    case False
    have st': "known_spans G B (?L(g := set A \<union> set (rest_span i n m @ C))) Q2 st'" "segments_kept st2 st'" "slice_at st' = slice_at st2"
      using s3(3) False by simp_all
    have "slice_count (slice_at st' (sa g i)) = word_of_nat n" using s2(4) st'(3) by simp
    from coalesce_step [OF st'(1) g til(1) n(1) til2 this, of env] merged_rest [OF h(3) n(2)]
    obtain st4 Q4 where s4: "mi_segment_span_free_coalesce env (sa g i) st' = Some (sa g i, st4)"
      "known_spans G B (?L(g := set (A @ (i, m, True) # C))) Q4 st4" "segments_kept st' st4" by auto
    have kept4: "segments_kept st st4" using kept2 st'(2) s4(3) segments_kept_trans by blast
    then have used: "sg_used (segment_at st4 s) = sg_used (segment_at st s)" for s using same_kept by blast
    have "heap_spans G B (L(g := A @ (i, m, True) # C)) Q4 st4"
      using heap_spans_update [OF hs g s4(2)] h used by simp
    moreover have "L(g := A @ (i, m, True) # C) = L" using L by auto
    ultimately have "heap_spans G B L Q4 st4" by simp
    moreover have "\<exists>k. \<not> os_commit_ok env k" using s3(1) False by (simp add: commit_refused)
    ultimately show ?thesis using run s4(1) False kept_lists [OF kept4] by auto
  qed
qed

text \<open>A larger span is never kept in an earlier queue.\<close>

lemma span_bound_mono: "1 \<le> q \<Longrightarrow> q \<le> r \<Longrightarrow> r \<le> 31 \<Longrightarrow> span_bound q \<le> span_bound r"
proof -
  have "sorted_wrt (\<le>) (map span_bound [1..<32])" by code_simp
  moreover assume "1 \<le> q" "q \<le> r" "r \<le> 31"
  ultimately show ?thesis using sorted_nth_mono [of "map span_bound [1..<32]" "q - 1" "r - 1"] by simp
qed

lemma span_queue_mono:
  assumes "1 \<le> n" "n \<le> m" "m \<le> 512"
  shows "mi_span_queue_for (word_of_nat n) \<le> mi_span_queue_for (word_of_nat m)" (is "?q n \<le> ?q m")
proof (rule ccontr)
  assume lt: "\<not> ?q n \<le> ?q m"
  have "n \<le> 512" using assms by simp
  note fn = span_queue_fits [OF this refl] and fm = span_queue_fits [OF assms(3) refl]
  have "1 \<le> ?q m" using fm(4) assms by simp
  moreover then have "span_bound (?q n - 1) < n" using fn(3) lt by simp
  ultimately have "span_bound (?q n - 1) < n" "span_bound (?q m) \<le> span_bound (?q n - 1)"
    using span_bound_mono [of "?q m" "?q n - 1"] lt fn(1) by simp_all
  then show False using fm(2) assms(2) by simp
qed

definition arena_suits :: "int \<Rightarrow> segs_state \<Rightarrow> addr \<Rightarrow> bool" where
  "arena_suits req st g \<longleftrightarrow> mi_arena_memid_is_suitable (sg_memid (segment_at st g)) req"

lemma span_suits_span:
  assumes hs: "heap_spans G B L Q st" and g: "g \<in> G" and s: "(i, m, True) \<in> set (L g)" and n: "n \<le> 512"
  shows "span_suits (word_of_nat n) req st (sa g i) \<longleftrightarrow> n \<le> m \<and> arena_suits req st g"
proof -
  note k = known_spans_get [OF heap_spans_get(1) [OF hs g] g]
  have m: "i + m \<le> 512" using k(7) [OF s] by (simp add: span_ok_def)
  have sg: "mi_ptr_segment (sa g i) = g" by (rule slice_addr_segment [OF k(1)]) (use m in simp)
  have cw: "ucast (slice_count (slice_at st (sa g i))) = (word_of_nat m :: size_t)" using k(8) [OF s] count_word [of m] m by simp
  have "unat (word_of_nat n :: u64) = n" "unat (word_of_nat m :: u64) = m" using m n by (intro unat_of_nat_small; simp)+
  then show ?thesis unfolding span_suits_def cw sg arena_suits_def by (simp add: word_le_nat_alt)
qed

lemma find_from_queue_spans:
  assumes hs: "heap_spans G B L Q st" and n: "1 \<le> n" "n \<le> 512" and q: "q + c = 36"
  shows "\<exists>pg st' L' Q'. find_from_queue c env (word_of_nat n) req q st = Some (pg, st') \<and> heap_spans G B L' Q' st' \<and> lists_kept st st' \<and>
    (if pg = 0 then L' = L \<and>
       ((\<forall>r. q \<le> r \<and> r < 36 \<longrightarrow> (\<forall>x \<in> set (Q r). \<not> span_suits (word_of_nat n) req st x)) \<or> (\<exists>k. \<not> os_commit_ok env k))
     else \<exists>g \<in> G. \<exists>A i m C. pg = sa g i \<and> L g = A @ (i, m, True) # C \<and> n \<le> m \<and> arena_suits req st g \<and>
       L' = L(g := A @ (i, n, False) # rest_span i n m @ C) \<and> span_ready B g i n st')"
  using q
proof (induction c arbitrary: q)
  case 0
  have "find_from_queue 0 env (word_of_nat n) req q st = Some (0, st)" by simp
  moreover have "\<forall>r. q \<le> r \<and> r < 36 \<longrightarrow> (\<forall>x \<in> set (Q r). \<not> span_suits (word_of_nat n) req st x)" using 0 by auto
  ultimately show ?case using hs by (intro exI [of _ 0] exI [of _ st] exI [of _ L] exI [of _ Q]) (simp add: lists_kept_def)
next
  case (Suc c)
  have q: "q < 36" using Suc.prems by simp
  have sl: "span_lists Q (slice_at st) (spans st)" using hs by (simp add: heap_spans_def known_spans_def)
  note g = span_lists_get [OF sl q]
  let ?fs = "filter (span_suits (word_of_nat n) req st) (Q q)"
  have f: "find_in_queue (word_of_nat n) req (sq_first (spans st ! q)) st = Some (head0 ?fs)"
    unfolding g(1) by (rule find_in_queue_first [OF g(3)])
  show ?case
  proof (cases "?fs = []")
    case True
    then have no: "\<forall>x \<in> set (Q q). \<not> span_suits (word_of_nat n) req st x" by (simp add: filter_empty_conv)
    have run: "find_from_queue (Suc c) env (word_of_nat n) req q st = find_from_queue c env (word_of_nat n) req (q + 1) st"
      using f True by (simp add: head0_def)
    have "(\<forall>r. q + 1 \<le> r \<and> r < 36 \<longrightarrow> (\<forall>x \<in> set (Q r). \<not> span_suits (word_of_nat n) req st x)) \<Longrightarrow>
        (\<forall>r. q \<le> r \<and> r < 36 \<longrightarrow> (\<forall>x \<in> set (Q r). \<not> span_suits (word_of_nat n) req st x))"
      using no by (metis le_neq_implies_less Suc_eq_plus1 Suc_leI)
    moreover have "q + 1 + c = 36" using Suc.prems by simp
    ultimately show ?thesis unfolding run using Suc.IH [of "q + 1"] by (metis (no_types, lifting))
  next
    case False
    let ?x = "hd ?fs"
    have x: "?x \<in> set (Q q)" "span_suits (word_of_nat n) req st ?x" using hd_in_set [OF False] by simp_all
    have "set (Q q) = free_heads G (\<lambda>seg. set (L seg)) q" using hs q by (simp add: heap_spans_def known_spans_def)
    then obtain s i m where s: "?x = sa s i" "s \<in> G" "(i, m, True) \<in> set (L s)" "mi_span_queue_for (word_of_nat m) = q"
      using x(1) unfolding free_heads_def by blast
    have suits: "n \<le> m" "arena_suits req st s" using span_suits_span [OF hs s(2,3) n(2), of req] x(2) s(1) by simp_all
    obtain A C where L: "L s = A @ (i, m, True) # C" using s(3) by (meson split_list)
    have "sa s i \<noteq> 0" using dll_nonzero [OF g(3) x(1)] s(1) by simp
    then have run: "find_from_queue (Suc c) env (word_of_nat n) req q st = allocate_found env (word_of_nat n) q (sa s i) st"
      using f False s(1) by (simp add: head0_def)
    show ?thesis unfolding run using allocate_found_spans [OF hs s(2) L n(1) suits(1) s(4) [symmetric], of env] s(2) L suits
      by (metis (no_types, lifting))
  qed
qed

lemma find_and_allocate_result:
  assumes "heap_spans G B L Q st" "1 \<le> n" "n \<le> 512"
  shows "\<exists>pg st' L' Q'. mi_segments_page_find_and_allocate env (word_of_nat n) req st = Some (pg, st') \<and> heap_spans G B L' Q' st' \<and> lists_kept st st' \<and>
    (if pg = 0 then L' = L \<and>
       ((\<forall>g \<in> G. arena_suits req st g \<longrightarrow> (\<forall>i m. (i, m, True) \<in> set (L g) \<longrightarrow> m < n)) \<or> (\<exists>k. \<not> os_commit_ok env k))
     else \<exists>g \<in> G. \<exists>A i m C. pg = sa g i \<and> L g = A @ (i, m, True) # C \<and> n \<le> m \<and> arena_suits req st g \<and>
       L' = L(g := A @ (i, n, False) # rest_span i n m @ C) \<and> span_ready B g i n st')"
proof -
  let ?q = "mi_span_queue_for (word_of_nat n)"
  have q: "?q \<le> 31" by (rule span_queue_fits(1) [OF assms(3) refl])
  have "unat (word_of_nat n :: u64) = n" by (rule unat_of_nat_small) (use assms(3) in simp)
  then have n0: "word_of_nat n \<noteq> (0 :: u64)" using assms(2) by (metis unsigned_0 not_one_le_zero)
  have run: "mi_segments_page_find_and_allocate env (word_of_nat n) req st = find_from_queue (36 - ?q) env (word_of_nat n) req ?q st"
    using n0 by (simp add: mi_segments_page_find_and_allocate_def MI_SEGMENT_BIN_MAX_def Let_def)
  have none: "m < n" if no: "\<forall>r. ?q \<le> r \<and> r < 36 \<longrightarrow> (\<forall>x \<in> set (Q r). \<not> span_suits (word_of_nat n) req st x)"
    and s: "g \<in> G" "arena_suits req st g" "(i, m, True) \<in> set (L g)" for g i m
  proof (rule ccontr)
    assume "\<not> m < n"
    then have m: "n \<le> m" by simp
    note known = heap_spans_get(1) [OF assms(1) s(1)]
    have ok: "span_ok (i, m, True)" by (rule known_spans_get(7) [OF known s(1,3)])
    let ?r = "mi_span_queue_for (word_of_nat m)"
    have r: "?q \<le> ?r" "?r < 36" using span_queue_mono [OF assms(2) m] ok span_queue_less [OF ok] by (simp_all add: span_ok_def)
    have "sa g i \<in> set (Q ?r)" using free_heads_mem [OF known s(1) ok r(2)] s(3) by blast
    moreover have "span_suits (word_of_nat n) req st (sa g i)" using span_suits_span [OF assms(1) s(1,3) assms(3)] m s(2) by simp
    ultimately show False using no r by blast
  qed
  have "?q + (36 - ?q) = 36" using q by simp
  from find_from_queue_spans [OF assms this, of env req] show ?thesis unfolding run using none by (metis (no_types, lifting))
qed

section \<open>Properties\<close>

text \<open>
  (C20) The page of a pointer: every address in a used span, as far as its first 256 slices of 64 KiB, leads through the
  slice it lies in and the offset stored there to the page of the span, so a block is freed into the page it came from.
\<close>

theorem page_of_pointer:
  assumes hs: "heap_spans G B L Q st" and g: "g \<in> G" and s: "(i, n, False) \<in> set (L g)" and k: "k < n" "k < 256"
    and p: "unat g < unat p" "unat g + (i + k) * 65536 \<le> unat p" "unat p < unat g + (i + k + 1) * 65536"
  shows "mi_ptr_page p st = sa g i"
proof -
  note kn = known_spans_get [OF heap_spans_get(1) [OF hs g] g]
  have at: "span_at g (slice_at st) (i, n, False)" and ok: "span_ok (i, n, False)" using kn(7,8) [OF s] by blast+
  have ik: "i + k < 512" using ok k(1) by (simp add: span_ok_def)
  then have "(i + k + 1) * 65536 \<le> 2 ^ 25" by simp
  then have seg: "mi_ptr_segment p = g" using ptr_segment [OF kn(1) p(1)] p(3) by simp
  have "unat (p - g) = unat p - unat g" by (rule unat_diff_small) (use p(1) in simp)
  moreover have "(unat p - unat g) div 2 ^ 16 = i + k"
  proof -
    have "(i + k) * 65536 \<le> unat p - unat g" "unat p - unat g < (i + k + 1) * 65536" using p by simp_all
    then show ?thesis using div_nat_eqI [of 65536 "i + k" "unat p - unat g"] by (simp add: mult.commute)
  qed
  moreover have sh: "MI_SEGMENT_SLICE_SHIFT = 16" by (simp add: MI_SEGMENT_SLICE_SHIFT_def)
  ultimately have "unat (drop_bit MI_SEGMENT_SLICE_SHIFT (p - g)) = i + k" by (simp only: unat_drop_bit)
  then have idx: "drop_bit MI_SEGMENT_SLICE_SHIFT (p - g) = word_of_nat (i + k)" by (metis unat_of_nat_small word_nat_cases unsigned_of_nat word_unat_eq_iff)
  have "slice_offset (slice_at st (sa g (i + k))) = slice_back k" using at k by simp
  then have "mi_slice_first (sa g (i + k)) st = sa g i" using back_addr [of k "i + k" g] ik by (simp add: mi_slice_first_def)
  then show ?thesis unfolding mi_ptr_page_def seg mi_segment_page_of_def Let_def idx by (simp add: sa_def)
qed

text \<open>A segment with a used span of two slices and a free span behind it.\<close>

definition example_slice :: "nat \<Rightarrow> nat \<Rightarrow> u32 \<Rightarrow> mi_page_t" where
  "example_slice n k b = example_page\<lparr>slice_count := word_of_nat n, slice_offset := slice_back k, xblock_size := b, page_next := 0, page_prev := 0\<rparr>"

definition example_spans :: segs_state where
  "example_spans = example_segs
     \<lparr>segment_at := \<lambda>s. (segment_at example_segs s)\<lparr>sg_used := 1\<rparr>,
      slice_at := (\<lambda>_. example_slice 0 0 1)(sa 0x2000000 0 := example_slice 1 0 1, sa 0x2000000 1 := example_slice 2 0 1,
        sa 0x2000000 2 := example_slice 0 1 1, sa 0x2000000 3 := example_slice 509 0 0, sa 0x2000000 511 := example_slice 0 508 0),
      spans := MI_SEGMENT_SPAN_QUEUES_EMPTY[31 := \<lparr>sq_first = sa 0x2000000 3, sq_last = sa 0x2000000 3, sq_slice_count = 512\<rparr>]\<rparr>"

definition example_list :: "addr \<Rightarrow> span_t list" where
  "example_list = (\<lambda>_. [(0, 1, False), (1, 2, False), (3, 509, True)])"

definition example_queues :: "nat \<Rightarrow> addr list" where
  "example_queues = (\<lambda>_. [])(31 := [sa 0x2000000 3])"

lemma example_base: "seg_base 0x2000000"
  by (simp add: seg_base_def MI_SEGMENT_MASK_def MI_SEGMENT_SIZE_def MI_SEGMENT_SHIFT_def MI_SEGMENT_SLICE_SHIFT_def)

lemma example_heap_spans: "heap_spans {0x2000000} {0x2000000..<0x2040000} example_list example_queues example_spans"
proof -
  note inj = slice_addr_inj [OF seg_fits [OF example_base]]
  have ne: "i \<le> 512 \<Longrightarrow> j \<le> 512 \<Longrightarrow> sa 0x2000000 i = sa 0x2000000 j \<longleftrightarrow> i = j" for i j by (rule inj)
  have nz: "sa 0x2000000 3 \<noteq> 0" by (rule slice_addr_nonzero [OF seg_fits [OF example_base]]) simp
  have q: "mi_span_queue_for (word_of_nat 509) = 31" by code_simp
  have "segs_ok {0x2000000} {0x2000000..<0x2040000} example_spans"
    using example_base example_sound by (simp add: segs_ok_def example_spans_def mask_sound_def segment_fits_def example_segs_def)
  moreover have "spans_ok {0x2000000} (\<lambda>s. set (example_list s)) (slice_at example_spans)"
  proof -
    have "spans_apart (set (example_list 0x2000000))"
      by (auto simp: spans_apart_def example_list_def span_range_def)
    moreover have "span_ok s \<and> span_at 0x2000000 (slice_at example_spans) s" if s: "s \<in> set (example_list 0x2000000)" for s
    proof -
      have back0: "slice_back 0 = 0" by (simp add: slice_back_def)
      have two: "k < 2 \<Longrightarrow> k = 0 \<or> k = 1" for k :: nat by presburger
      consider "s = (0, 1, False)" | "s = (1, 2, False)" | "s = (3, 509, True)" using s by (auto simp: example_list_def)
      then show ?thesis
        by cases (auto simp: span_ok_def example_spans_def example_slice_def ne back0 dest!: two)
    qed
    ultimately show ?thesis by (simp add: spans_ok_def)
  qed
  moreover have "span_lists example_queues (slice_at example_spans) (spans example_spans)"
  proof -
    let ?E = MI_SEGMENT_SPAN_QUEUES_EMPTY
    have len: "length ?E = 36" by (simp add: MI_SEGMENT_SPAN_QUEUES_EMPTY_def)
    have "\<forall>sq \<in> set ?E. sq_first sq = 0 \<and> sq_last sq = 0" by (simp add: MI_SEGMENT_SPAN_QUEUES_EMPTY_def SQNULL_def)
    then have e: "sq_first (?E ! r) = 0 \<and> sq_last (?E ! r) = 0" if "r < 36" for r using nth_mem [of r ?E] len that by simp
    have "slice_at example_spans (sa 0x2000000 3) = example_slice 509 0 0" by (simp add: example_spans_def ne)
    then show ?thesis using len e nz
      by (auto simp: span_lists_def example_queues_def example_spans_def example_slice_def head0_def last0_def nth_list_update)
  qed
  moreover have "set (example_queues r) = free_heads {0x2000000} (\<lambda>s. set (example_list s)) r" for r
    using q by (auto simp: example_queues_def free_heads_def example_list_def)
  ultimately have "known_spans {0x2000000} {0x2000000..<0x2040000} (\<lambda>s. set (example_list s)) example_queues example_spans"
    by (simp add: known_spans_def)
  then show ?thesis
    by (simp add: heap_spans_def example_list_def compact_def used_spans_def example_spans_def)
qed

theorem page_of_pointer_witness: "mi_ptr_page 0x2020010 example_spans = sa 0x2000000 1"
  using page_of_pointer [OF example_heap_spans, of "0x2000000" 1 2 1 "0x2020010"] by (simp add: example_list_def)

text \<open>
  (C22) Clearing a page refines the lists of spans: its slices become a free span together with the free spans directly
  before and behind it, in the queue of their number of slices, whether they are purged now, later or never; no two free
  spans are neighbours, the segment counts one page less, and the commit masks stay true to the committed memory.
\<close>

theorem page_clear_merges:
  assumes "heap_spans G B L Q st" "g \<in> G" "L g = A @ (i, n, False) # C"
  shows "\<exists>st' Q'. mi_segment_page_clear env (sa g i) st = Some (sa g (fst (merged A i n C)), st') \<and>
    heap_spans G B (L(g := snd (merged A i n C))) Q' st'"
  using page_clear_spans [OF assms] by blast

theorem page_clear_merges_witness:
  "\<exists>st' Q'. mi_segment_page_clear example_os (sa 0x2000000 1) example_spans = Some (sa 0x2000000 1, st') \<and>
    heap_spans {0x2000000} {0x2000000..<0x2040000} (example_list(0x2000000 := [(0, 1, False), (1, 511, True)])) Q' st'"
  using page_clear_merges [OF example_heap_spans, of "0x2000000" "[(0, 1, False)]" 1 2 "[(3, 509, True)]" example_os]
  by (simp add: example_list_def merged_def)

text \<open>
  (C21) The search for a span always returns. It hands out the first slices of a free span that is large enough, in a segment
  of a suitable arena, with its memory committed and not scheduled to be purged; the rest of the span stays free. It fails only if there is no such span or the
  system refuses memory, and then every span is as it was.
\<close>

theorem page_find_and_allocate_spans:
  assumes "heap_spans G B L Q st" "1 \<le> n" "n \<le> 512"
  shows "\<exists>pg st' L' Q'. mi_segments_page_find_and_allocate env (word_of_nat n) req st = Some (pg, st') \<and> heap_spans G B L' Q' st' \<and>
    (if pg = 0 then L' = L \<and>
       ((\<forall>g \<in> G. arena_suits req st g \<longrightarrow> (\<forall>i m. (i, m, True) \<in> set (L g) \<longrightarrow> m < n)) \<or> (\<exists>k. \<not> os_commit_ok env k))
     else \<exists>g \<in> G. \<exists>A i m C. pg = sa g i \<and> L g = A @ (i, m, True) # C \<and> n \<le> m \<and> arena_suits req st g \<and>
       L' = L(g := A @ (i, n, False) # rest_span i n m @ C) \<and> span_ready B g i n st')"
  using find_and_allocate_result [OF assms, of env req] by (metis (no_types, lifting))

theorem page_find_and_allocate_spans_witness:
  "\<exists>pg st' L' Q'. mi_segments_page_find_and_allocate example_os (word_of_nat 4) 0 example_spans = Some (pg, st') \<and>
     heap_spans {0x2000000} {0x2000000..<0x2040000} L' Q' st' \<and> pg \<noteq> 0"
proof -
  have fit: "(3, 509, True) \<in> set (example_list 0x2000000)" by (simp add: example_list_def)
  have suits: "arena_suits 0 example_spans 0x2000000"
    by (simp add: arena_suits_def example_spans_def example_segs_def mi_arena_memid_is_suitable_def mi_memid_none_def mi_memid_create_def
        mi_arena_id_is_suitable_def)
  have "\<And>k. os_commit_ok example_os k" by (simp add: example_os_def)
  then show ?thesis using page_find_and_allocate_spans [OF example_heap_spans, of 4 example_os 0] fit suits by fastforce
qed

end
