(* ===== verification/Mi_Segment_Alloc.thy ===== *)
theory Mi_Segment_Alloc
  imports Mi_Spans
begin

text \<open>
  A new segment of a thread: it starts as the span of its own slice and one free span. What the arenas and the system
  answer decides whether there is one.
\<close>

section \<open>Work on one segment outside the set\<close>

text \<open>Only the segment \<open>p\<close>, its slices, its memory and the counters of the thread may have changed.\<close>

definition only_segment :: "addr \<Rightarrow> nat set \<Rightarrow> segs_state \<Rightarrow> segs_state \<Rightarrow> bool" where
  "only_segment p B st st' \<longleftrightarrow> lists_state st' = lists_state st \<and> (\<forall>s. s \<noteq> p \<longrightarrow> segment_at st' s = segment_at st s) \<and>
     (\<forall>y. y \<notin> sa p ` {..512} \<longrightarrow> slice_at st' y = slice_at st y) \<and> spans st' = spans st \<and>
     committed_bytes (os_log st) B - {unat p..<unat p + 2 ^ 25} \<subseteq> committed_bytes (os_log st') B"

lemma only_segment_trans: "only_segment p B a b \<Longrightarrow> only_segment p B b c \<Longrightarrow> only_segment p B a c"
proof -
  assume a: "only_segment p B a b" "only_segment p B b c"
  have "committed_bytes (os_log a) B - {unat p..<unat p + 2 ^ 25} \<subseteq> committed_bytes (os_log c) B"
    using a unfolding only_segment_def by blast
  then show "only_segment p B a c" using a unfolding only_segment_def by simp
qed

lemma only_segment_steps:
  "only_segment p B st (set_segment p f st)" "i \<le> 512 \<Longrightarrow> only_segment p B st (set_slice (sa p i) h st)"
  "only_segment p B st (mi_segments_track_size sz st)"
  by (auto simp: only_segment_def set_segment_def set_slice_def mi_segments_track_size_def Let_def)

lemma only_segment_log:
  "committed_bytes (os_log st) B - {unat p..<unat p + 2 ^ 25} \<subseteq> committed_bytes (c # os_log st) B \<Longrightarrow>
     only_segment p B st (st\<lparr>os_log := c # os_log st\<rparr>)"
  by (simp add: only_segment_def)

lemma heap_spans_outside:
  assumes hs: "heap_spans G B L Q st" and p: "seg_base p" "p \<notin> G" and only: "only_segment p B st st'"
  shows "heap_spans G B L Q st'"
proof -
  have segs: "segment_at st' s = segment_at st s" if "s \<in> G" for s using only p(2) that unfolding only_segment_def by metis
  have known: "known_spans G B (\<lambda>s. set (L s)) Q st" using hs by (simp add: heap_spans_def)
  have base: "seg_base s" if "s \<in> G" for s by (rule known_spans_get(1) [OF known that])
  have slices: "slice_at st' (sa s i) = slice_at st (sa s i)" if "s \<in> G" "i \<le> 512" for s i
  proof -
    have "sa s i \<notin> sa p ` {..512}" using slice_addr_eq [OF base [OF that(1)] p(1) that(2)] that(1) p(2) by auto
    then show ?thesis using only by (simp add: only_segment_def)
  qed
  have "segs_ok G B st'" unfolding segs_ok_def
  proof (intro ballI conjI)
    fix s assume s: "s \<in> G"
    note k = known_spans_get [OF known s]
    show "seg_base s" "slice_entries (segment_at st' s) = 512" "thread_id (segment_at st' s) \<noteq> 0" using k segs [OF s] by simp_all
    have "chunks s (mask_set (commit_mask (segment_at st s))) \<subseteq> committed_bytes (os_log st') B"
    proof -
      have "s \<noteq> p" using s p(2) by blast
      then show ?thesis
        using k(2) chunks_inside [of s "commit_mask (segment_at st s)"] segments_apart [OF k(1) p(1)] only
        unfolding mask_sound_def only_segment_def by blast
    qed
    then show "mask_sound B s st'" using k(2) segs [OF s] by (simp add: mask_sound_def)
  qed
  moreover have "spans_ok G (\<lambda>s. set (L s)) (slice_at st')" unfolding spans_ok_def
  proof (intro ballI conjI)
    fix s assume s: "s \<in> G"
    note k = known_spans_get [OF known s]
    show "spans_apart (set (L s))" by (rule k(6))
    fix t assume t: "t \<in> set (L s)"
    show "span_ok t" by (rule k(7) [OF t])
    show "span_at s (slice_at st') t"
      by (rule span_at_frame [OF k(8) [OF t] k(7) [OF t]])
        (use slices [OF s] k(7) [OF t] in \<open>auto simp: span_range_def span_ok_def\<close>)
  qed
  moreover have "span_lists Q (slice_at st') (spans st')"
  proof -
    have sl: "span_lists Q (slice_at st) (spans st)" using known by (simp add: known_spans_def)
    have "dll (slice_at st') 0 (Q r) 0" if r: "r < 36" for r
    proof (rule dll_frame [OF span_lists_get(3) [OF sl r]])
      fix x assume "x \<in> set (Q r)"
      then have "x \<in> free_heads G (\<lambda>s. set (L s)) r" using known r by (simp add: known_spans_def)
      then obtain s i n where s: "x = sa s i" "s \<in> G" "(i, n, True) \<in> set (L s)" unfolding free_heads_def by blast
      then have "i \<le> 512" using known_spans_get(7) [OF known s(2,3)] by (simp add: span_ok_def)
      then show "page_prev (slice_at st' x) = page_prev (slice_at st x) \<and> page_next (slice_at st' x) = page_next (slice_at st x)"
        using slices s(1,2) by simp
    qed
    then show ?thesis using sl only unfolding span_lists_def only_segment_def by metis
  qed
  ultimately show ?thesis using hs segs by (simp add: heap_spans_def known_spans_def)
qed

lemma zero_segment_only:
  assumes "n \<le> 512"
  shows "only_segment p B st (zero_segment p n st)"
    "segment_at (zero_segment p n st) p = (segment_at st p)\<lparr>sg_abandoned := 0, abandoned_visits := 0, sg_used := 0, segment_slices := 0,
       segment_info_slices := 0, sg_kind := MI_SEGMENT_NORMAL, slice_entries := 0, thread_id := 0\<rparr>"
    "os_log (zero_segment p n st) = os_log st"
proof -
  have f: "only_segment p B s (fold (\<lambda>i. set_slice (slice_addr p (word_of_nat i)) (\<lambda>_. zero_slice)) xs s) \<and>
      segment_at (fold (\<lambda>i. set_slice (slice_addr p (word_of_nat i)) (\<lambda>_. zero_slice)) xs s) = segment_at s \<and>
      os_log (fold (\<lambda>i. set_slice (slice_addr p (word_of_nat i)) (\<lambda>_. zero_slice)) xs s) = os_log s" if "\<forall>i \<in> set xs. i \<le> 512" for xs s
    using that
  proof (induction xs arbitrary: s)
    case Nil
    then show ?case by (simp add: only_segment_def)
  next
    case (Cons i xs)
    have st: "only_segment p B s (set_slice (sa p i) (\<lambda>_. zero_slice) s)" using Cons.prems by (intro only_segment_steps(2)) simp
    have "os_log (set_slice (sa p i) (\<lambda>_. zero_slice) s) = os_log s" by (simp add: set_slice_def)
    then show ?case using Cons.IH [of "set_slice (sa p i) (\<lambda>_. zero_slice) s"] Cons.prems only_segment_trans [OF st] by (simp add: sa_def)
  qed
  have r: "\<forall>i \<in> set [0..<n + 1]. i \<le> 512" using assms by auto
  note z = f [OF r]
  show "only_segment p B st (zero_segment p n st)" unfolding zero_segment_def using z only_segment_steps(1) only_segment_trans by blast
  show "segment_at (zero_segment p n st) p = (segment_at st p)\<lparr>sg_abandoned := 0, abandoned_visits := 0, sg_used := 0, segment_slices := 0,
       segment_info_slices := 0, sg_kind := MI_SEGMENT_NORMAL, slice_entries := 0, thread_id := 0\<rparr>"
    unfolding zero_segment_def z [THEN conjunct2, THEN conjunct1] by (simp add: set_segment_def)
  show "os_log (zero_segment p n st) = os_log st"
    unfolding zero_segment_def z [THEN conjunct2, THEN conjunct2] by (simp add: set_segment_def)
qed

section \<open>A new segment\<close>

definition page_sizes :: "size_t set" where
  "page_sizes = {0x1000, 0x2000, 0x4000, 0x8000, 0x10000}"

lemma new_segment_slices: "ps \<in> page_sizes \<Longrightarrow> \<exists>pre. mi_segment_calculate_slices 0 ps sizeof_mi_segment_t 0 = (512, pre, 1)"
proof -
  assume "ps \<in> page_sizes"
  moreover have "\<forall>ps \<in> {0x1000, 0x2000, 0x4000, 0x8000, 0x10000}.
      fst (mi_segment_calculate_slices 0 ps sizeof_mi_segment_t 0) = 512 \<and> snd (snd (mi_segment_calculate_slices 0 ps sizeof_mi_segment_t 0)) = 1"
    by code_simp
  ultimately have "fst (mi_segment_calculate_slices 0 ps sizeof_mi_segment_t 0) = 512 \<and>
      snd (snd (mi_segment_calculate_slices 0 ps sizeof_mi_segment_t 0)) = 1" unfolding page_sizes_def by blast
  then show ?thesis by (metis prod.collapse)
qed

text \<open>What is committed already is not asked for again.\<close>

lemma ensure_committed_covered:
  assumes "segment_fits g (segment_at st g)" "in_segment g p sz"
    "outer (unat p - unat g) (unat sz) \<subseteq> mask_set (commit_mask (segment_at st g))"
  shows "\<exists>st'. mi_segment_ensure_committed env g p sz st = (True, st')"
proof (cases "mi_commit_mask_is_full (commit_mask (segment_at st g)) \<and> mi_commit_mask_is_empty (purge_mask (segment_at st g))")
  case True
  then show ?thesis by (simp add: mi_segment_ensure_committed_def)
next
  case False
  obtain start full msk where m: "mi_segment_commit_mask g (segment_at st g) False p sz = (start, full, msk)"
    "mask_set msk = outer (unat p - unat g) (unat sz)"
    using commit_mask_range [OF assms(1,2), of False] by auto
  then have "mi_commit_mask_all_set (commit_mask (segment_at st g)) msk" using mask_all_set assms(3) by simp
  then have "\<exists>st'. mi_segment_commit env g p sz st = (True, st')" by (simp add: mi_segment_commit_def m(1) Let_def)
  then show ?thesis using False by (auto simp: mi_segment_ensure_committed_def)
qed

text \<open>What the arenas promise: a segment they give is aligned, does not wrap around, is none of those in use, and suits the request.\<close>

definition arena_gives_segments :: "addr set \<Rightarrow> os_env \<Rightarrow> bool" where
  "arena_gives_segments G env \<longleftrightarrow> (\<forall>k ofs commit large req p memid.
     arena_alloc env k MI_SEGMENT_SIZE MI_SEGMENT_SIZE ofs commit large req = (p, memid) \<and> p \<noteq> 0 \<longrightarrow>
     seg_base p \<and> p \<notin> G \<and> mi_arena_memid_is_suitable memid req)"

text \<open>The commit state of a segment that was just allocated.\<close>

definition fresh_commit :: "int \<Rightarrow> addr \<Rightarrow> nat set \<Rightarrow> segs_state \<Rightarrow> bool" where
  "fresh_commit req p B st \<longleftrightarrow> 0 \<in> mask_set (commit_mask (segment_at st p)) \<and> mask_set (purge_mask (segment_at st p)) = {} \<and>
     chunks p (mask_set (commit_mask (segment_at st p))) \<subseteq> committed_bytes (os_log st) B \<and> arena_suits req st p"

lemma segment_bytes: "bytes p 0x2000000 = {unat p..<unat p + 2 ^ 25}"
  by (simp add: bytes_def)

lemma arena_alloc_segment:
  assumes "arena_alloc env (length (os_log st)) MI_SEGMENT_SIZE MI_SEGMENT_SIZE 0 commit large req = (p, memid)" "p \<noteq> 0"
  shows "\<exists>st'. mi_arena_alloc_aligned env MI_SEGMENT_SIZE MI_SEGMENT_SIZE 0 commit large req st = (p, memid, st') \<and> only_segment p B st st' \<and>
    (initially_committed memid \<longrightarrow> {unat p..<unat p + 2 ^ 25} \<subseteq> committed_bytes (os_log st') B) \<and>
    os_log st' = Arena_Alloc p MI_SEGMENT_SIZE (initially_committed memid) # os_log st"
proof -
  let ?s = "st\<lparr>os_log := Arena_Alloc p MI_SEGMENT_SIZE (initially_committed memid) # os_log st\<rparr>"
  have n: "unat (MI_SEGMENT_SIZE div MI_SEGMENT_SLICE_SIZE) = 512" by (simp add: commit_size)
  have s: "only_segment p B st ?s" by (rule only_segment_log) auto
  have c: "initially_committed memid \<longrightarrow> {unat p..<unat p + 2 ^ 25} \<subseteq> committed_bytes (os_log ?s) B"
    by (auto simp: commit_size(4) segment_bytes)
  have run: "mi_arena_alloc_aligned env MI_SEGMENT_SIZE MI_SEGMENT_SIZE 0 commit large req st =
      (p, memid, if initially_zero memid then zero_segment p 512 ?s else ?s)"
    unfolding mi_arena_alloc_aligned_def assms(1) Let_def prod.case n using assms(2) by simp
  show ?thesis
  proof (cases "initially_zero memid")
    case True
    have "only_segment p B st (zero_segment p 512 ?s)" using s zero_segment_only(1) only_segment_trans by blast
    moreover have l: "os_log (zero_segment p 512 ?s) = os_log ?s" by (rule zero_segment_only(3)) simp
    ultimately show ?thesis
      by (intro exI [of _ "zero_segment p 512 ?s"]) (use run True c in \<open>simp only: l if_True simp_thms\<close>, simp)
  next
    case False
    then show ?thesis using run s c by simp
  qed
qed

lemma log_spans:
  assumes "heap_spans G B L Q st" "committed_bytes (c # os_log st) B = committed_bytes (os_log st) B"
  shows "heap_spans G B L Q (st\<lparr>os_log := c # os_log st\<rparr>)"
  using assms by (auto simp: heap_spans_def known_spans_def segs_ok_def mask_sound_def)

text \<open>
  The one request that the allocation of a segment makes to the arenas, and what follows from the answer: null if the arenas give
  nothing; null after the memory was given back, if it was not committed and the system refuses to commit the first chunk; the
  memory otherwise.
\<close>

definition segment_request :: "os_env \<Rightarrow> int \<Rightarrow> segs_state \<Rightarrow> addr \<times> mi_memid_t" where
  "segment_request env req st =
     (let eager_delay = (thread_count env > 1 \<and> tld_count st < eager_commit_delay env)
      in arena_alloc env (length (os_log st)) MI_SEGMENT_SIZE MI_SEGMENT_SIZE 0 (\<not> eager_delay \<and> eager_commit env) (\<not> eager_delay) req)"

definition segment_memory :: "os_env \<Rightarrow> addr \<times> mi_memid_t \<Rightarrow> segs_state \<Rightarrow> addr \<Rightarrow> segs_state \<Rightarrow> bool" where
  "segment_memory env answer st p st' \<longleftrightarrow>
     (case answer of (a, memid) \<Rightarrow>
        if a = 0 then p = 0 \<and> os_log st' = Arena_Alloc 0 MI_SEGMENT_SIZE False # os_log st
        else if \<not> initially_committed memid \<and> \<not> os_commit_ok env (Suc (length (os_log st)))
        then p = 0 \<and> os_log st' =
          Arena_Free a MI_SEGMENT_SIZE 0 # Os_Commit a MI_COMMIT_SIZE False # Arena_Alloc a MI_SEGMENT_SIZE False # os_log st
        else p = a)"

lemma segment_os_alloc_new:
  assumes arena: "arena_gives_segments G env" and sec: "mi_secure env = 0"
  shows "\<exists>p st'. mi_segment_os_alloc env 0 0 eager_delay req 512 pre 1 commit st = (p, 512, pre, 1, st') \<and>
    segment_memory env (arena_alloc env (length (os_log st)) MI_SEGMENT_SIZE MI_SEGMENT_SIZE 0 commit (\<not> eager_delay) req) st p st' \<and>
    (if p = 0 then lists_state st' = lists_state st \<and> (\<forall>L Q. heap_spans G B L Q st \<longrightarrow> heap_spans G B L Q st')
     else seg_base p \<and> p \<notin> G \<and> only_segment p B st st' \<and> fresh_commit req p B st')"
proof -
  obtain p memid where a: "arena_alloc env (length (os_log st)) MI_SEGMENT_SIZE MI_SEGMENT_SIZE 0 commit (\<not> eager_delay) req = (p, memid)"
    by (cases "arena_alloc env (length (os_log st)) MI_SEGMENT_SIZE MI_SEGMENT_SIZE 0 commit (\<not> eager_delay) req")
  have size: "512 * MI_SEGMENT_SLICE_SIZE = MI_SEGMENT_SIZE" by (simp add: commit_size)
  have large: "(\<not> eager_delay \<and> mi_secure env = 0) = (\<not> eager_delay)" using sec by simp
  have z: "(0 < (0 :: u64)) = False" by simp
  show ?thesis
  proof (cases "p = 0")
    case True
    have "mi_arena_alloc_aligned env MI_SEGMENT_SIZE MI_SEGMENT_SIZE 0 commit (\<not> eager_delay) req st =
        (0, memid, st\<lparr>os_log := Arena_Alloc 0 MI_SEGMENT_SIZE False # os_log st\<rparr>)"
      unfolding mi_arena_alloc_aligned_def a Let_def prod.case using True by simp
    then have run: "mi_segment_os_alloc env 0 0 eager_delay req 512 pre 1 commit st =
        (0, 512, pre, 1, st\<lparr>os_log := Arena_Alloc 0 MI_SEGMENT_SIZE False # os_log st\<rparr>)"
      by (simp only: mi_segment_os_alloc_def Let_def large z if_False prod.case size if_True simp_thms)
    have "heap_spans G B L Q st \<Longrightarrow> heap_spans G B L Q (st\<lparr>os_log := Arena_Alloc 0 MI_SEGMENT_SIZE False # os_log st\<rparr>)" for L Q
      by (rule log_spans) simp_all
    then show ?thesis using run True unfolding a by (simp add: segment_memory_def)
  next
    case False
    have p: "seg_base p" "p \<notin> G" and suits: "mi_arena_memid_is_suitable memid req"
      using arena a False unfolding arena_gives_segments_def by blast+
    obtain s1 where s1: "mi_arena_alloc_aligned env MI_SEGMENT_SIZE MI_SEGMENT_SIZE 0 commit (\<not> eager_delay) req st = (p, memid, s1)"
      "only_segment p B st s1" "initially_committed memid \<longrightarrow> {unat p..<unat p + 2 ^ 25} \<subseteq> committed_bytes (os_log s1) B"
      "os_log s1 = Arena_Alloc p MI_SEGMENT_SIZE (initially_committed memid) # os_log st"
      using arena_alloc_segment [OF a False] by blast
    have p0: "(p = 0) = False" using False by simp
    have needed: "mi_divide_up (1 * MI_SEGMENT_SLICE_SIZE) MI_COMMIT_SIZE = 1" by (simp add: mi_divide_up_def commit_size)
    let ?new = "\<lambda>cm. set_segment p (\<lambda>sg. sg\<lparr>sg_memid := memid, allow_decommit := \<not> is_pinned memid,
        allow_purge := (\<not> is_pinned memid \<and> purge_delay env \<ge> 0), commit_mask := cm, purge_expire := 0, purge_mask := mi_commit_mask_create_empty,
        abandoned_next := 0\<rparr>)"
    define cm where "cm = (if initially_committed memid then mi_commit_mask_create_full else mi_commit_mask_create 0 1)"
    define s2 where "s2 = (if initially_committed memid then s1 else snd (mi_os_commit env p (1 * MI_COMMIT_SIZE) s1))"
    define ok where "ok \<longleftrightarrow> initially_committed memid \<or> os_commit_ok env (length (os_log s1))"
    have run: "mi_segment_os_alloc env 0 0 eager_delay req 512 pre 1 commit st =
      (if ok then (p, 512, pre, 1, mi_segments_track_size MI_SEGMENT_SIZE (?new cm s2))
       else (0, 512, pre, 1, mi_arena_free p MI_SEGMENT_SIZE 0 s2))"
    proof (cases "initially_committed memid")
      case True
      then show ?thesis
        by (simp only: mi_segment_os_alloc_def Let_def large z if_False prod.case size s1(1) p0 if_True simp_thms cm_def s2_def ok_def)
    next
      case False
      have u: "unat (1 :: u64) = 1" by simp
      obtain b s where c: "mi_os_commit env p (1 * MI_COMMIT_SIZE) s1 = (b, s)" by (cases "mi_os_commit env p (1 * MI_COMMIT_SIZE) s1")
      have b: "os_commit_ok env (length (os_log s1)) = b" using c by (auto simp: mi_os_commit_def Let_def)
      show ?thesis using False
        by (cases b) (simp_all only: mi_segment_os_alloc_def Let_def large z if_False prod.case size s1(1) p0 if_True simp_thms cm_def s2_def ok_def
            needed u c b snd_conv)
    qed
    have commit: "snd (mi_os_commit env p (1 * MI_COMMIT_SIZE) s1) =
        s1\<lparr>os_log := Os_Commit p (1 * MI_COMMIT_SIZE) (os_commit_ok env (length (os_log s1))) # os_log s1\<rparr>"
      by (simp add: mi_os_commit_def Let_def)
    have only2: "only_segment p B s1 s2"
    proof (cases "initially_committed memid")
      case False
      then show ?thesis unfolding s2_def by (simp only: if_False commit) (rule only_segment_log, auto)
    qed (simp add: s2_def only_segment_def)
    have mem: "ok \<Longrightarrow> chunks p (mask_set cm) \<subseteq> committed_bytes (os_log s2) B \<and> 0 \<in> mask_set cm"
    proof (cases "initially_committed memid")
      case True
      have m: "mask_set cm = {..<512}" using mask_is_full [of cm] True by (simp add: cm_def mask_set_full)
      then show ?thesis using chunks_inside [of p cm] s1(3) True unfolding s2_def by auto
    next
      case False
      assume ok
      then have b: "os_commit_ok env (length (os_log s1))" using False by (simp add: ok_def)
      have m: "mask_set cm = {0..<1}" using mask_set_create(1) [of 0 1] False by (simp add: cm_def)
      have "chunks p {0..<1} = bytes p (1 * MI_COMMIT_SIZE)" using chunks_range [of 0 1 p] by (simp add: bytes_def commit_size)
      then show ?thesis unfolding m s2_def if_not_P [OF False] commit using b by simp
    qed
    show ?thesis
    proof (cases ok)
      case True
      let ?st = "mi_segments_track_size MI_SEGMENT_SIZE (?new cm s2)"
      have "only_segment p B st ?st"
        by (rule only_segment_trans [OF s1(2) only_segment_trans [OF only2 only_segment_trans [OF only_segment_steps(1) only_segment_steps(3)]]])
      moreover have "fresh_commit req p B ?st"
        using mem [OF True] suits by (simp add: fresh_commit_def mi_segments_track_size_def Let_def set_segment_def mask_set_empty arena_suits_def)
      ultimately show ?thesis using run True False p unfolding a by (auto simp: segment_memory_def ok_def s1(4))
    next
      case nok: False
      let ?st = "mi_arena_free p MI_SEGMENT_SIZE 0 s2"
      have "only_segment p B s2 ?st" unfolding mi_arena_free_def by (rule only_segment_log) (auto simp: commit_size(4) segment_bytes)
      then have "only_segment p B st ?st" using s1(2) only2 only_segment_trans by blast
      moreover have "os_log ?st = Arena_Free p MI_SEGMENT_SIZE 0 # Os_Commit p MI_COMMIT_SIZE False # Arena_Alloc p MI_SEGMENT_SIZE False # os_log st"
      proof -
        have n: "\<not> initially_committed memid" "\<not> os_commit_ok env (length (os_log s1))" using nok by (simp_all add: ok_def)
        show ?thesis unfolding mi_arena_free_def s2_def if_not_P [OF n(1)] commit using n by (simp add: s1(4))
      qed
      ultimately show ?thesis using run nok False heap_spans_outside [OF _ p] unfolding a
        by (auto simp: only_segment_def segment_memory_def ok_def s1(4))
    qed
  qed
qed

text \<open>A segment with its fields set joins the others with its two spans.\<close>

lemma join_segment:
  assumes hs: "heap_spans G B L Q st" and p: "seg_base p" "p \<notin> G" and fresh: "fresh_commit req p B st" and t: "thread_id (segment_at st p) \<noteq> 0"
    and sg: "sg_kind (segment_at st p) = MI_SEGMENT_NORMAL" "segment_slices (segment_at st p) = 512" "segment_info_slices (segment_at st p) = 1"
      "slice_entries (segment_at st p) = 512"
  shows "\<exists>s1 s2 Q'. mi_segment_span_allocate env p 0 1 st = (sa p 0, s1) \<and> sg_kind (segment_at s1 p) = MI_SEGMENT_NORMAL \<and>
    slice_entries (segment_at s1 p) = 512 \<and>
    mi_segment_span_free env p 1 511 False (set_segment p (\<lambda>sg. sg\<lparr>sg_used := 0\<rparr>) s1) = Some s2 \<and>
    heap_spans (insert p G) B (L(p := [(0, 1, False), (1, 511, True)])) Q' s2 \<and> lists_state s2 = lists_state st \<and> arena_suits req s2 p"
proof -
  let ?G = "insert p G" and ?K = "(\<lambda>s. set (L s))(p := {})"
  have known0: "known_spans G B (\<lambda>s. set (L s)) Q st" using hs by (simp add: heap_spans_def)
  have ms: "mask_sound B p st" using fresh p(1) sg by (simp add: mask_sound_def segment_fits_def fresh_commit_def seg_base_def)
  have "segs_ok ?G B st" using known0 p ms sg(4) t by (auto simp: known_spans_def segs_ok_def)
  moreover have "spans_ok ?G ?K (slice_at st)" using known0 p(2) by (auto simp: known_spans_def spans_ok_def spans_apart_def)
  moreover have "free_heads ?G ?K r = free_heads G (\<lambda>s. set (L s)) r" for r
  proof -
    have "s \<in> ?G \<and> (j, m, True) \<in> ?K s \<longleftrightarrow> s \<in> G \<and> (j, m, True) \<in> set (L s)" for s j m using p(2) by auto
    then show ?thesis unfolding free_heads_def by (metis (no_types, lifting))
  qed
  ultimately have known: "known_spans ?G B ?K Q st" using known0 by (simp add: known_spans_def)
  have g: "p \<in> ?G" by simp
  have ok0: "span_ok (0, 1, False)" and ok1: "span_ok (1, 511, True)" by (simp_all add: span_ok_def)
  have gap0: "t \<in> ?K p \<Longrightarrow> span_range t \<inter> {0..<0 + 1} = {}" for t by simp
  obtain okay s0 s1 where s1: "mi_segment_ensure_committed env p (p + word_of_nat 0 * MI_COMMIT_SIZE) (word_of_nat 1 * MI_COMMIT_SIZE) st = (okay, s0)"
    "mi_segment_span_allocate env p (word_of_nat 0) (word_of_nat 1) st = (if okay then sa p 0 else 0, s1)"
    "if okay then known_spans ?G B (?K(p := insert (0, 1, False) (?K p))) Q s1 \<and>
       segments_kept (set_segment p (\<lambda>sg. sg\<lparr>sg_used := sg_used sg + 1\<rparr>) st) s1 \<and> span_ready B p 0 1 s1
     else known_spans ?G B ?K Q s1 \<and> segments_kept st s1 \<and> slice_at s1 = slice_at st"
    using span_allocate_step [OF known g ok0 gap0, of env] by blast
  have okay
  proof -
    have fits: "segment_fits p (segment_at st p)" using ms by (simp add: mask_sound_def)
    have in_seg: "in_segment p (p + word_of_nat 0 * MI_COMMIT_SIZE) (word_of_nat 1 * MI_COMMIT_SIZE)"
      by (rule run_in_segment(1) [OF seg_fits [OF p(1)]]) simp_all
    have "outer (unat (p + word_of_nat 0 * MI_COMMIT_SIZE) - unat p) (unat (word_of_nat 1 * MI_COMMIT_SIZE :: u64)) = {0}"
      by (auto simp: outer_def commit_size)
    then show ?thesis using ensure_committed_covered [OF fits in_seg, of env] fresh s1(1) by (simp add: fresh_commit_def)
  qed
  then have run1: "mi_segment_span_allocate env p 0 1 st = (sa p 0, s1)" using s1(2) by simp
  have kn1: "known_spans ?G B (?K(p := {(0, 1, False)})) Q s1"
    and kept1: "segments_kept (set_segment p (\<lambda>sg. sg\<lparr>sg_used := sg_used sg + 1\<rparr>) st) s1" using s1(3) \<open>okay\<close> by simp_all
  let ?s = "set_segment p (\<lambda>sg. sg\<lparr>sg_used := 0\<rparr>) s1"
  have kn: "known_spans ?G B (?K(p := {(0, 1, False)})) Q ?s"
    using kn1 by (auto simp: known_spans_def segs_ok_def mask_sound_def segment_fits_def set_segment_def)
  have gap1: "t \<in> (?K(p := {(0, 1, False)})) p \<Longrightarrow> span_range t \<inter> {1..<1 + 511} = {}" for t by (auto simp: span_range_def)
  obtain s2 Q2 where s2: "mi_segment_span_free env p (word_of_nat 1) (word_of_nat 511) False ?s = Some s2"
    "known_spans ?G B ((?K(p := {(0, 1, False)}))(p := insert (1, 511, True) ((?K(p := {(0, 1, False)})) p))) Q2 s2" "segments_kept ?s s2"
    using span_free_step [OF kn g ok1 gap1, of env False] by blast
  let ?M = "[(0, 1, False), (1, 511, True)] :: span_t list"
  have e: "(?K(p := {(0, 1, False)}))(p := insert (1, 511, True) ((?K(p := {(0, 1, False)})) p)) = (\<lambda>s. set ((L(p := ?M)) s))"
    by (rule ext) auto
  have used: "sg_used (segment_at s2 s) = (if s = p then 0 else sg_used (segment_at st s))" for s
    using same_kept [OF s2(3), of s] same_kept [OF kept1, of s] by (auto simp: set_segment_def)
  have "heap_spans ?G B (L(p := ?M)) Q2 s2" unfolding heap_spans_def
  proof (intro conjI ballI)
    show "known_spans ?G B (\<lambda>s. set ((L(p := ?M)) s)) Q2 s2" using s2(2) unfolding e .
    fix s assume s: "s \<in> ?G"
    show "tiling 0 ((L(p := ?M)) s) 512" "compact ((L(p := ?M)) s)"
      "sg_used (segment_at s2 s) + 1 = word_of_nat (used_spans ((L(p := ?M)) s))"
      using s heap_spans_get [OF hs, of s] used [of s] by (auto simp: compact_def used_spans_def)
  qed
  moreover have "lists_state s2 = lists_state st" using s2(3) kept1 by (auto simp: segments_kept_def set_segment_def)
  moreover have "arena_suits req s2 p"
    using fresh same_kept [OF s2(3), of p] same_kept [OF kept1, of p] by (simp add: fresh_commit_def arena_suits_def set_segment_def)
  moreover have "sg_kind (segment_at s1 p) = MI_SEGMENT_NORMAL" "slice_entries (segment_at s1 p) = 512"
    using known_spans_get(3,5) [OF kn1 g] by simp_all
  ultimately show ?thesis using run1 s2(1) by auto
qed

lemma segment_alloc_new:
  assumes hs: "heap_spans G B L Q st" and arena: "arena_gives_segments G env" and sec: "mi_secure env = 0"
    and env: "os_page_size env \<in> page_sizes" "current_thread env \<noteq> 0"
  shows "\<exists>p st' Q'. mi_segment_alloc env 0 0 req st = Some (p, 0, st') \<and>
    lists_state st' = lists_state st \<and> segment_memory env (segment_request env req st) st p st' \<and>
    (if p = 0 then heap_spans G B L Q st'
     else p \<notin> G \<and> heap_spans (insert p G) B (L(p := [(0, 1, False), (1, 511, True)])) Q' st' \<and> arena_suits req st' p)"
proof -
  obtain pre where calc: "mi_segment_calculate_slices 0 (os_page_size env) sizeof_mi_segment_t 0 = (512, pre, 1)"
    using new_segment_slices [OF env(1)] by blast
  let ?eager_delay = "1 < thread_count env \<and> tld_count st < eager_commit_delay env"
  let ?commit = "\<not> ?eager_delay \<and> eager_commit env \<or> (0 :: u64) < 0"
  obtain p s1 where s1: "mi_segment_os_alloc env 0 0 ?eager_delay req 512 pre 1 ?commit st = (p, 512, pre, 1, s1)"
    "segment_memory env (segment_request env req st) st p s1"
    "if p = 0 then lists_state s1 = lists_state st \<and> (\<forall>L Q. heap_spans G B L Q st \<longrightarrow> heap_spans G B L Q s1)
     else seg_base p \<and> p \<notin> G \<and> only_segment p B st s1 \<and> fresh_commit req p B s1"
    using segment_os_alloc_new [OF arena sec, of ?eager_delay req pre ?commit st B] unfolding segment_request_def Let_def by auto
  show ?thesis
  proof (cases "p = 0")
    case True
    then have "mi_segment_alloc env 0 0 req st = Some (0, 0, s1)"
      by (simp only: mi_segment_alloc_def Let_def sec calc prod.case s1(1) if_True simp_thms)
    then show ?thesis using s1(2,3) True hs by simp
  next
    case False
    have p: "seg_base p" "p \<notin> G" and only1: "only_segment p B st s1" and fresh: "fresh_commit req p B s1" using s1(3) False by simp_all
    have n: "unat (512 :: u64) = 512" by simp
    define s2 where "s2 = (if \<not> initially_zero (sg_memid (segment_at s1 p)) then zero_segment p 512 s1 else s1)"
    have only2: "only_segment p B s1 s2" unfolding s2_def using zero_segment_only(1) by (simp add: only_segment_def)
    have fresh2: "fresh_commit req p B s2"
      unfolding s2_def using fresh zero_segment_only(2,3) [of 512 p s1] by (simp add: fresh_commit_def arena_suits_def)
    define s3 where "s3 = set_segment p (\<lambda>sg. sg\<lparr>segment_slices := 512, segment_info_slices := 1, thread_id := current_thread env,
        slice_entries := 512, sg_kind := MI_SEGMENT_NORMAL\<rparr>) s2"
    have only: "only_segment p B st s3" unfolding s3_def
      by (rule only_segment_trans [OF only1 only_segment_trans [OF only2 only_segment_steps(1)]])
    have hs3: "heap_spans G B L Q s3" by (rule heap_spans_outside [OF hs p only])
    have fresh3: "fresh_commit req p B s3" using fresh2 by (simp add: fresh_commit_def arena_suits_def s3_def set_segment_def)
    have sg3: "thread_id (segment_at s3 p) \<noteq> 0" "sg_kind (segment_at s3 p) = MI_SEGMENT_NORMAL" "segment_slices (segment_at s3 p) = 512"
      "segment_info_slices (segment_at s3 p) = 1" "slice_entries (segment_at s3 p) = 512"
      using env(2) by (simp_all add: s3_def set_segment_def)
    obtain s4 s5 Q' where j: "mi_segment_span_allocate env p 0 1 s3 = (sa p 0, s4)" "sg_kind (segment_at s4 p) = MI_SEGMENT_NORMAL"
      "slice_entries (segment_at s4 p) = 512"
      "mi_segment_span_free env p 1 511 False (set_segment p (\<lambda>sg. sg\<lparr>sg_used := 0\<rparr>) s4) = Some s5"
      "heap_spans (insert p G) B (L(p := [(0, 1, False), (1, 511, True)])) Q' s5" "lists_state s5 = lists_state s3" "arena_suits req s5 p"
      using join_segment [OF hs3 p fresh3 sg3(1-4) sg3(5), of env] by blast
    have nz: "(sa p 0 = 0) = False" using slice_addr_nonzero [OF seg_fits [OF p(1)], of 0] by simp
    have p0: "(p = 0) = False" using False by simp
    have ent: "(if word_of_nat MI_SLICES_PER_SEGMENT < (512 :: u64) then word_of_nat MI_SLICES_PER_SEGMENT else 512) = (512 :: u64)"
      by (simp add: MI_SLICES_PER_SEGMENT_def commit_size)
    have z: "(0 < (0 :: nat)) = False" by simp
    have m: "(512 :: u64) - 1 = 511" by simp
    let ?s = "set_segment p (\<lambda>sg. sg\<lparr>sg_used := 0\<rparr>) s4"
    have seg4: "sg_kind (segment_at ?s p) = MI_SEGMENT_NORMAL" "slice_entries (segment_at ?s p) = 512" using j(2,3) by (simp_all add: set_segment_def)
    have run: "mi_segment_alloc env 0 0 req st = Some (p, 0, s5)"
      by (simp only: mi_segment_alloc_def Let_def sec calc prod.case s1(1) p0 if_False if_True simp_thms n s2_def [symmetric] ent
          s3_def [symmetric] z j(1) nz seg4 m j(4) Option.bind.simps)
    have "lists_state s3 = lists_state st" using only by (simp only: only_segment_def)
    moreover have "segment_memory env (segment_request env req st) st p s5"
      using s1(2) False by (auto simp: segment_memory_def split: prod.splits if_splits)
    ultimately show ?thesis using run j(5-7) False p(2) by auto
  qed
qed

section \<open>Properties\<close>

lemma example_arena: "arena_gives_segments {0x2000000} example_os"
  by (auto simp: arena_gives_segments_def example_os_def seg_base_def mi_arena_memid_is_suitable_def mi_memid_none_def mi_memid_create_def
      mi_arena_id_is_suitable_def MI_SEGMENT_MASK_def MI_SEGMENT_SIZE_def MI_SEGMENT_SHIFT_def
      MI_SEGMENT_SLICE_SHIFT_def)

text \<open>
  (C23) Allocating a segment for pages always returns, and makes one request to the arenas. If they give nothing the result is null; if
  they give memory that is not committed and the system refuses to commit its first chunk, the memory is given back and the
  result is null; in both cases every span is as it was. Otherwise the result is the memory the arenas gave, as a
  segment that joins those in use: it starts as the used span of its own slice, committed, and one free span
  of the other 511 slices, which is in its span queue, and it counts no pages. The other segments keep their spans.
\<close>

theorem segment_alloc_spans:
  assumes "heap_spans G B L Q st" "arena_gives_segments G env" "mi_secure env = 0" "os_page_size env \<in> page_sizes" "current_thread env \<noteq> 0"
  shows "\<exists>p st' Q'. mi_segment_alloc env 0 0 req st = Some (p, 0, st') \<and> segment_memory env (segment_request env req st) st p st' \<and>
    (if p = 0 then heap_spans G B L Q st'
     else p \<notin> G \<and> heap_spans (insert p G) B (L(p := [(0, 1, False), (1, 511, True)])) Q' st')"
  using segment_alloc_new [OF assms, of req] by (metis (no_types, lifting))

theorem segment_alloc_spans_witness:
  "\<exists>p st' Q'. mi_segment_alloc example_os 0 0 0 example_spans = Some (p, 0, st') \<and>
    segment_memory example_os (segment_request example_os 0 example_spans) example_spans p st' \<and>
    (if p = 0 then heap_spans {0x2000000} {0x2000000..<0x2040000} example_list example_queues st'
     else p \<notin> {0x2000000} \<and>
       heap_spans (insert p {0x2000000}) {0x2000000..<0x2040000} (example_list(p := [(0, 1, False), (1, 511, True)])) Q' st')"
proof -
  have "mi_secure example_os = 0" "os_page_size example_os \<in> page_sizes" "current_thread example_os \<noteq> 0"
    by (simp_all add: example_os_def page_sizes_def)
  from segment_alloc_spans [OF example_heap_spans example_arena this] show ?thesis .
qed

end
