(* ===== verification/Mi_Abandoned_List.thy ===== *)
theory Mi_Abandoned_List
  imports Mi_Segment
begin

text \<open>
  The global lists of abandoned segments, \<^verbatim>\<open>src/segment.c\<close>. The segments are linked through \<open>abandoned_next\<close>; the head of the
  list \<open>abandoned\<close> carries a tag in its low bits, which changes with every update. Before every atomic access the other
  threads may take steps. Run alone, the operations are those of two stacks.
\<close>

section \<open>Atomic accesses\<close>

definition seg_step :: "os_env \<Rightarrow> segs_state \<Rightarrow> segs_state" where
  "seg_step env st = (seg_others env (ticks st) st)\<lparr>ticks := Suc (ticks st)\<rparr>"

definition abandoned_cas :: "os_env \<Rightarrow> bool \<Rightarrow> addr \<Rightarrow> addr \<Rightarrow> segs_state \<Rightarrow> bool \<times> addr \<times> segs_state" where
  "abandoned_cas env weak expected desired st =
     (let st' = seg_step env st
      in if abandoned st' = expected \<and> \<not> (weak \<and> seg_spurious env (ticks st))
         then (True, expected, st'\<lparr>abandoned := desired\<rparr>) else (False, abandoned st', st'))"

definition visited_cas_weak :: "os_env \<Rightarrow> addr \<Rightarrow> addr \<Rightarrow> segs_state \<Rightarrow> bool \<times> addr \<times> segs_state" where
  "visited_cas_weak env expected desired st =
     (let st' = seg_step env st
      in if abandoned_visited st' = expected \<and> \<not> seg_spurious env (ticks st)
         then (True, expected, st'\<lparr>abandoned_visited := desired\<rparr>) else (False, abandoned_visited st', st'))"

definition next_store :: "os_env \<Rightarrow> addr \<Rightarrow> addr \<Rightarrow> segs_state \<Rightarrow> segs_state" where
  "next_store env segment v st = set_segment segment (\<lambda>sg. sg\<lparr>abandoned_next := v\<rparr>) (seg_step env st)"

definition abandoned_add :: "os_env \<Rightarrow> size_t \<Rightarrow> segs_state \<Rightarrow> segs_state" where
  "abandoned_add env n st = (let st = seg_step env st in st\<lparr>abandoned_count := abandoned_count st + n\<rparr>)"

definition visited_add :: "os_env \<Rightarrow> size_t \<Rightarrow> segs_state \<Rightarrow> segs_state" where
  "visited_add env n st = (let st = seg_step env st in st\<lparr>abandoned_visited_count := abandoned_visited_count st + n\<rparr>)"

definition readers_add :: "os_env \<Rightarrow> size_t \<Rightarrow> segs_state \<Rightarrow> segs_state" where
  "readers_add env n st = (let st = seg_step env st in st\<lparr>abandoned_readers := abandoned_readers st + n\<rparr>)"

section \<open>The lists\<close>

definition MI_TAGGED_MASK :: addr where
  "MI_TAGGED_MASK = MI_SEGMENT_MASK"

definition mi_tagged_segment_ptr :: "addr \<Rightarrow> addr" where
  "mi_tagged_segment_ptr ts = ts AND NOT MI_TAGGED_MASK"

definition mi_tagged_segment :: "addr \<Rightarrow> addr \<Rightarrow> addr" where
  "mi_tagged_segment segment ts = (let tag = ((ts AND MI_TAGGED_MASK) + 1) AND MI_TAGGED_MASK in segment OR tag)"

partial_function (option) visited_push_loop :: "os_env \<Rightarrow> addr \<Rightarrow> addr \<Rightarrow> segs_state \<Rightarrow> segs_state option" where
  "visited_push_loop env segment anext st =
     (let st = next_store env segment anext st;
          (ok, anext, st) = visited_cas_weak env anext segment st
      in if \<not> ok then visited_push_loop env segment anext st else Some st)"

definition mi_abandoned_visited_push :: "os_env \<Rightarrow> addr \<Rightarrow> segs_state \<Rightarrow> segs_state option" where
  "mi_abandoned_visited_push env segment st =
     (let st = seg_step env st; anext = abandoned_visited st
      in Option.bind (visited_push_loop env segment anext st) (\<lambda>st. Some (visited_add env 1 st)))"

partial_function (option) find_last :: "os_env \<Rightarrow> addr \<Rightarrow> segs_state \<Rightarrow> (addr \<times> segs_state) option" where
  "find_last env segment st =
     (let st = seg_step env st; next = abandoned_next (segment_at st segment)
      in if next \<noteq> 0 then find_last env next st else Some (segment, st))"

text \<open>The count of visited segments that was read last, and the state.\<close>

partial_function (option) prepend_visited :: "os_env \<Rightarrow> addr \<Rightarrow> addr \<Rightarrow> addr \<Rightarrow> segs_state \<Rightarrow> (size_t \<times> segs_state) option" where
  "prepend_visited env head_seg last_seg anext st =
     (let st = seg_step env st;
          count = abandoned_visited_count st;
          st = next_store env last_seg (mi_tagged_segment_ptr anext) st;
          afirst = mi_tagged_segment head_seg anext;
          (ok, anext, st) = abandoned_cas env True anext afirst st
      in if \<not> ok then prepend_visited env head_seg last_seg anext st else Some (count, st))"

definition mi_abandoned_visited_revisit :: "os_env \<Rightarrow> segs_state \<Rightarrow> (bool \<times> segs_state) option" where
  "mi_abandoned_visited_revisit env st =
     (let st = seg_step env st
      in if abandoned_visited st = 0 then Some (False, st)
         else
           (let st = seg_step env st;
                first = abandoned_visited st;
                st = st\<lparr>abandoned_visited := 0\<rparr>
            in if first = 0 then Some (False, st)
               else
                 (let st = seg_step env st;
                      ts = abandoned st;
                      (swapped, st) =
                        (if mi_tagged_segment_ptr ts = 0 then
                           (let st = seg_step env st;
                                count = abandoned_visited_count st;
                                (ok, _, st) = abandoned_cas env False ts (mi_tagged_segment first ts) st
                            in if ok then (True, visited_add env (- count) (abandoned_add env count st)) else (False, st))
                         else (False, st))
                  in if swapped then Some (True, st)
                     else
                       Option.bind (find_last env first st)
                         (\<lambda>(last_seg, st).
                           let st = seg_step env st; anext = abandoned st
                           in Option.bind (prepend_visited env first last_seg anext st)
                             (\<lambda>(count, st). Some (True, visited_add env (- count) (abandoned_add env count st)))))))"

partial_function (option) abandoned_push_loop :: "os_env \<Rightarrow> addr \<Rightarrow> addr \<Rightarrow> segs_state \<Rightarrow> segs_state option" where
  "abandoned_push_loop env segment ts st =
     (let st = next_store env segment (mi_tagged_segment_ptr ts) st;
          next = mi_tagged_segment segment ts;
          (ok, ts, st) = abandoned_cas env True ts next st
      in if \<not> ok then abandoned_push_loop env segment ts st else Some st)"

definition mi_abandoned_push :: "os_env \<Rightarrow> addr \<Rightarrow> segs_state \<Rightarrow> segs_state option" where
  "mi_abandoned_push env segment st =
     (let st = seg_step env st; ts = abandoned st
      in Option.bind (abandoned_push_loop env segment ts st) (\<lambda>st. Some (abandoned_add env 1 st)))"

partial_function (option) mi_abandoned_await_readers :: "os_env \<Rightarrow> segs_state \<Rightarrow> segs_state option" where
  "mi_abandoned_await_readers env st =
     (let st = seg_step env st; n = abandoned_readers st
      in if n \<noteq> 0 then mi_abandoned_await_readers env st else Some st)"

partial_function (option) abandoned_pop_loop :: "os_env \<Rightarrow> addr \<Rightarrow> segs_state \<Rightarrow> (addr \<times> segs_state) option" where
  "abandoned_pop_loop env ts st =
     (let segment = mi_tagged_segment_ptr ts
      in if segment = 0 then Some (0, st)
         else
           (let st = seg_step env st;
                anext = abandoned_next (segment_at st segment);
                next = mi_tagged_segment anext ts;
                (ok, ts, st) = abandoned_cas env True ts next st
            in if \<not> ok then abandoned_pop_loop env ts st else Some (segment, st)))"

text \<open>The pop itself, under the count of the readers.\<close>

definition pop_counted :: "os_env \<Rightarrow> segs_state \<Rightarrow> (addr \<times> segs_state) option" where
  "pop_counted env st =
     (let st = readers_add env 1 st;
          st = seg_step env st;
          ts = abandoned st
      in Option.bind (abandoned_pop_loop env ts st)
        (\<lambda>(segment, st).
          let st = readers_add env (- 1) st
          in if segment \<noteq> 0 then Some (segment, abandoned_add env (- 1) (next_store env segment 0 st)) else Some (0, st)))"

definition mi_abandoned_pop :: "os_env \<Rightarrow> segs_state \<Rightarrow> (addr \<times> segs_state) option" where
  "mi_abandoned_pop env st =
     (let st = seg_step env st;
          ts = abandoned st;
          segment = mi_tagged_segment_ptr ts
      in Option.bind (if segment = 0 then mi_abandoned_visited_revisit env st else Some (True, st))
        (\<lambda>(more, st). if \<not> more then Some (0, st) else pop_counted env st))"

end
