(* ===== verification/Mi_Segment_Pages.thy ===== *)
theory Mi_Segment_Pages
  imports Mi_Abandoned_List Mi_Page_Queue
begin

text \<open>
  Pages and segments of a thread, \<^verbatim>\<open>src/segment.c\<close>: the release of pages and segments, abandoning a segment when its thread ends,
  reclaiming abandoned segments, and the allocation of pages of all kinds. The functions of \<open>Mi_Page\<close> and
  \<open>Mi_Page_Queue\<close> are applied to the pages, which are the slices of the segments.
\<close>

section \<open>Releasing segments and pages\<close>

partial_function (option) remove_free_spans :: "addr \<Rightarrow> addr \<Rightarrow> segs_state \<Rightarrow> segs_state option" where
  "remove_free_spans seg slc st =
     (if slc < mi_segment_slices_end seg st then
        (let st = (if xblock_size (slice_at st slc) = 0 \<and> sg_kind (segment_at st seg) \<noteq> MI_SEGMENT_HUGE
                   then mi_segment_span_remove_from_queue slc st else st)
         in remove_free_spans seg (slc + sizeof_mi_slice_t * ucast (slice_count (slice_at st slc))) st)
      else Some st)"

definition mi_segment_os_free :: "os_env \<Rightarrow> addr \<Rightarrow> segs_state \<Rightarrow> segs_state option" where
  "mi_segment_os_free env seg st =
     (let st = set_segment seg (\<lambda>sg. sg\<lparr>thread_id := 0\<rparr>) st;
          size = mi_segment_size (segment_at st seg);
          st = mi_segments_track_size (- size) st;
          st = (if mi_secure env > 0
                then mi_os_unprotect (seg + size - os_page_size env) (os_page_size env)
                       (mi_os_unprotect (seg + mi_segment_info_size (segment_at st seg) - os_page_size env) (os_page_size env) st)
                else st);
          csize = mi_commit_mask_committed_size (commit_mask (segment_at st seg)) size
      in Option.bind (mi_abandoned_await_readers env st) (\<lambda>st. Some (mi_arena_free seg size csize st)))"

definition mi_segment_free :: "os_env \<Rightarrow> addr \<Rightarrow> segs_state \<Rightarrow> segs_state option" where
  "mi_segment_free env seg st =
     Option.bind (remove_free_spans seg (slice_addr seg 0) st) (mi_segment_os_free env seg)"

partial_function (option) unqueue_free_spans :: "addr \<Rightarrow> addr \<Rightarrow> segs_state \<Rightarrow> segs_state option" where
  "unqueue_free_spans seg slc st =
     (if slc < mi_segment_slices_end seg st then
        (let st = (if xblock_size (slice_at st slc) = 0
                   then set_slice slc (\<lambda>s. s\<lparr>xblock_size := 0\<rparr>) (mi_segment_span_remove_from_queue slc st) else st)
         in unqueue_free_spans seg (slc + sizeof_mi_slice_t * ucast (slice_count (slice_at st slc))) st)
      else Some st)"

definition mi_segment_abandon :: "os_env \<Rightarrow> addr \<Rightarrow> segs_state \<Rightarrow> segs_state option" where
  "mi_segment_abandon env seg st =
     Option.bind (unqueue_free_spans seg (slice_addr seg 0) st)
       (\<lambda>st. Option.bind (mi_segment_try_purge env seg (abandoned_page_purge env) st)
         (\<lambda>st.
           let st = mi_segments_track_size (- mi_segment_size (segment_at st seg)) st;
               st = set_segment seg (\<lambda>sg. sg\<lparr>thread_id := 0\<rparr>) st;
               st = next_store env seg 0 st;
               st = set_segment seg (\<lambda>sg. sg\<lparr>abandoned_visits := 1\<rparr>) st
           in mi_abandoned_push env seg st))"

definition mi_segment_page_free :: "os_env \<Rightarrow> addr \<Rightarrow> segs_state \<Rightarrow> segs_state option" where
  "mi_segment_page_free env pg st =
     (let seg = mi_ptr_segment pg
      in Option.bind (mi_segment_page_clear env pg st)
        (\<lambda>(_, st).
          if sg_used (segment_at st seg) = 0 then mi_segment_free env seg st
          else if sg_used (segment_at st seg) = sg_abandoned (segment_at st seg) then mi_segment_abandon env seg st
          else Some st))"

definition mi_segment_page_abandon :: "os_env \<Rightarrow> addr \<Rightarrow> segs_state \<Rightarrow> segs_state option" where
  "mi_segment_page_abandon env pg st =
     (let seg = mi_ptr_segment pg;
          st = set_segment seg (\<lambda>sg. sg\<lparr>sg_abandoned := sg_abandoned sg + 1\<rparr>) st
      in if sg_used (segment_at st seg) = sg_abandoned (segment_at st seg) then mi_segment_abandon env seg st
         else Some st)"

section \<open>The heap of a thread\<close>

text \<open>The segments, the links in the blocks, and the heaps; the pages of \<open>Mi_Page_Queue\<close> are the slices.\<close>

record thread_state =
  ts_segs :: segs_state
  ts_blocks :: next_map
  ts_heaps :: "addr \<Rightarrow> mi_heap_t"

definition heap_view :: "thread_state \<Rightarrow> heap_state" where
  "heap_view t = \<lparr>heap_at = ts_heaps t, page_at = slice_at (ts_segs t), block_next = ts_blocks t\<rparr>"

definition heap_back :: "heap_state \<Rightarrow> thread_state \<Rightarrow> thread_state" where
  "heap_back h t = t\<lparr>ts_segs := (ts_segs t)\<lparr>slice_at := page_at h\<rparr>, ts_blocks := block_next h, ts_heaps := heap_at h\<rparr>"

definition on_segs :: "(segs_state \<Rightarrow> segs_state) \<Rightarrow> thread_state \<Rightarrow> thread_state" where
  "on_segs f t = t\<lparr>ts_segs := f (ts_segs t)\<rparr>"

definition segs_result :: "(segs_state \<Rightarrow> ('a \<times> segs_state) option) \<Rightarrow> thread_state \<Rightarrow> ('a \<times> thread_state) option" where
  "segs_result f t = Option.bind (f (ts_segs t)) (\<lambda>(x, st). Some (x, t\<lparr>ts_segs := st\<rparr>))"

definition segs_run :: "(segs_state \<Rightarrow> segs_state option) \<Rightarrow> thread_state \<Rightarrow> thread_state option" where
  "segs_run f t = Option.bind (f (ts_segs t)) (\<lambda>st. Some (t\<lparr>ts_segs := st\<rparr>))"

definition page_at_slice :: "addr \<Rightarrow> thread_state \<Rightarrow> mi_page_t" where
  "page_at_slice pg t = slice_at (ts_segs t) pg"

definition collect_page :: "addr \<Rightarrow> thread_state \<Rightarrow> thread_state option" where
  "collect_page pg t =
     Option.bind (mi_page_free_collect alone never False (page_view pg (heap_view t)))
       (\<lambda>(_, s). Some (heap_back (page_back pg (heap_view t) s) t))"

definition allow_delayed_free :: "addr \<Rightarrow> thread_state \<Rightarrow> thread_state option" where
  "allow_delayed_free pg t =
     Option.bind (mi_page_use_delayed_free alone never MI_USE_DELAYED_FREE True (page_view pg (heap_view t)))
       (\<lambda>s. Some (heap_back (page_back pg (heap_view t) s) t))"

definition mi_page_reclaim :: "addr \<Rightarrow> addr \<Rightarrow> addr \<Rightarrow> thread_state \<Rightarrow> thread_state" where
  "mi_page_reclaim empty_page heap pg t =
     (let psize = snd (mi_segment_page_start (mi_ptr_segment pg) pg (ts_segs t));
          pq = mi_page_queue (mi_page_block_size psize (page_at_slice pg t))
      in heap_back (mi_page_queue_push empty_page heap pq pg (heap_view t)) t)"

section \<open>Reclaiming abandoned segments\<close>

definition mi_slices_start_iterate :: "addr \<Rightarrow> segs_state \<Rightarrow> addr \<times> addr" where
  "mi_slices_start_iterate seg st =
     (let slc = slice_addr seg 0
      in (slc + sizeof_mi_slice_t * ucast (slice_count (slice_at st slc)), mi_segment_slices_end seg st))"

definition slice_after :: "addr \<Rightarrow> thread_state \<Rightarrow> addr" where
  "slice_after slc t = slc + sizeof_mi_slice_t * ucast (slice_count (page_at_slice slc t))"

definition less_abandoned :: "addr \<Rightarrow> thread_state \<Rightarrow> thread_state" where
  "less_abandoned seg = on_segs (set_segment seg (\<lambda>sg. sg\<lparr>sg_abandoned := sg_abandoned sg - 1\<rparr>))"

partial_function (option) check_slices ::
    "os_env \<Rightarrow> addr \<Rightarrow> size_t \<Rightarrow> size_t \<Rightarrow> addr \<Rightarrow> addr \<Rightarrow> bool \<Rightarrow> thread_state \<Rightarrow> (bool \<times> thread_state) option" where
  "check_slices env seg slices_needed block_size end_slice slc has_page t =
     (if slc < end_slice then
        (if mi_slice_is_used (page_at_slice slc t) then
           Option.bind (collect_page slc t)
             (\<lambda>t. if mi_page_all_free (page_at_slice slc t) then
                Option.bind (segs_result (mi_segment_page_clear env slc) (less_abandoned seg t))
                  (\<lambda>(slc, t). check_slices env seg slices_needed block_size end_slice (slice_after slc t)
                     (has_page \<or> ucast (slice_count (page_at_slice slc t)) \<ge> slices_needed) t)
              else check_slices env seg slices_needed block_size end_slice (slice_after slc t)
                     (has_page \<or> ucast (xblock_size (page_at_slice slc t)) = block_size \<and> mi_page_has_any_available (page_at_slice slc t)) t)
         else check_slices env seg slices_needed block_size end_slice (slice_after slc t)
                (has_page \<or> ucast (slice_count (page_at_slice slc t)) \<ge> slices_needed) t)
      else Some (has_page, t))"

definition mi_segment_check_free :: "os_env \<Rightarrow> addr \<Rightarrow> size_t \<Rightarrow> size_t \<Rightarrow> thread_state \<Rightarrow> (bool \<times> thread_state) option" where
  "mi_segment_check_free env seg slices_needed block_size t =
     (let (slc, end_slice) = mi_slices_start_iterate seg (ts_segs t)
      in check_slices env seg slices_needed block_size end_slice slc False t)"

text \<open>The result is whether a page of the requested block size with free blocks was reclaimed.\<close>

partial_function (option) reclaim_slices ::
    "os_env \<Rightarrow> addr \<Rightarrow> addr \<Rightarrow> addr \<Rightarrow> size_t \<Rightarrow> addr \<Rightarrow> addr \<Rightarrow> bool \<Rightarrow> thread_state \<Rightarrow> (bool \<times> thread_state) option" where
  "reclaim_slices env empty_page heap seg requested_block_size end_slice slc right_page t =
     (if slc < end_slice then
        (if mi_slice_is_used (page_at_slice slc t) then
           (let t = less_abandoned seg t;
                t = on_segs (set_slice slc (mi_page_set_heap heap)) t
            in Option.bind (allow_delayed_free slc t)
              (\<lambda>t. Option.bind (collect_page slc t)
                (\<lambda>t. if mi_page_all_free (page_at_slice slc t) then
                   Option.bind (segs_result (mi_segment_page_clear env slc) t)
                     (\<lambda>(slc, t). reclaim_slices env empty_page heap seg requested_block_size end_slice (slice_after slc t) right_page t)
                 else
                   (let t = mi_page_reclaim empty_page heap slc t
                    in reclaim_slices env empty_page heap seg requested_block_size end_slice (slice_after slc t)
                         (right_page \<or> requested_block_size = ucast (xblock_size (page_at_slice slc t)) \<and>
                            mi_page_has_any_available (page_at_slice slc t)) t))))
         else
           Option.bind (segs_result (mi_segment_span_free_coalesce env slc) t)
             (\<lambda>(slc, t). reclaim_slices env empty_page heap seg requested_block_size end_slice (slice_after slc t) right_page t))
      else Some (right_page, t))"

text \<open>The segment, or null if it was freed, and \<open>*right_page_reclaimed\<close>.\<close>

definition mi_segment_reclaim ::
    "os_env \<Rightarrow> addr \<Rightarrow> addr \<Rightarrow> addr \<Rightarrow> size_t \<Rightarrow> thread_state \<Rightarrow> (addr \<times> bool \<times> thread_state) option" where
  "mi_segment_reclaim env empty_page seg heap requested_block_size t =
     (let t = on_segs (set_segment seg (\<lambda>sg. sg\<lparr>thread_id := current_thread env\<rparr>)) t;
          t = on_segs (set_segment seg (\<lambda>sg. sg\<lparr>abandoned_visits := 0\<rparr>)) t;
          t = on_segs (\<lambda>st. mi_segments_track_size (mi_segment_size (segment_at st seg)) st) t;
          (slc, end_slice) = mi_slices_start_iterate seg (ts_segs t)
      in Option.bind (reclaim_slices env empty_page heap seg requested_block_size end_slice slc False t)
        (\<lambda>(right_page, t).
          if sg_used (segment_at (ts_segs t) seg) = 0
          then Option.bind (segs_run (mi_segment_free env seg) t) (\<lambda>t. Some (0, right_page, t))
          else Some (seg, right_page, t)))"

partial_function (option) mi_abandoned_reclaim_all :: "os_env \<Rightarrow> addr \<Rightarrow> addr \<Rightarrow> thread_state \<Rightarrow> thread_state option" where
  "mi_abandoned_reclaim_all env empty_page heap t =
     Option.bind (segs_result (mi_abandoned_pop env) t)
       (\<lambda>(seg, t).
         if seg \<noteq> 0
         then Option.bind (mi_segment_reclaim env empty_page seg heap 0 t) (\<lambda>(_, _, t). mi_abandoned_reclaim_all env empty_page heap t)
         else Some t)"

text \<open>The first argument counts the tries that are left. The results are the segment or null and \<open>*reclaimed\<close>.\<close>

fun reclaim_tries ::
    "nat \<Rightarrow> os_env \<Rightarrow> addr \<Rightarrow> int \<Rightarrow> addr \<Rightarrow> size_t \<Rightarrow> size_t \<Rightarrow> thread_state \<Rightarrow> (addr \<times> bool \<times> thread_state) option" where
  "reclaim_tries 0 env empty_page arena_id heap needed_slices block_size t = Some (0, False, t)"
| "reclaim_tries (Suc n) env empty_page arena_id heap needed_slices block_size t =
     Option.bind (segs_result (mi_abandoned_pop env) t)
       (\<lambda>(seg, t).
         if seg = 0 then Some (0, False, t)
         else
           (let t = on_segs (set_segment seg (\<lambda>sg. sg\<lparr>abandoned_visits := abandoned_visits sg + 1\<rparr>)) t;
                is_suitable = mi_arena_memid_is_suitable (sg_memid (segment_at (ts_segs t) seg)) arena_id
            in Option.bind (mi_segment_check_free env seg needed_slices block_size t)
              (\<lambda>(has_page, t).
                if sg_used (segment_at (ts_segs t) seg) = 0 then
                  Option.bind (mi_segment_reclaim env empty_page seg heap 0 t)
                    (\<lambda>(_, _, t). reclaim_tries n env empty_page arena_id heap needed_slices block_size t)
                else if has_page \<and> is_suitable then mi_segment_reclaim env empty_page seg heap block_size t
                else if abandoned_visits (segment_at (ts_segs t) seg) > 3 \<and> is_suitable then
                  Option.bind (mi_segment_reclaim env empty_page seg heap 0 t)
                    (\<lambda>(_, _, t). reclaim_tries n env empty_page arena_id heap needed_slices block_size t)
                else
                  Option.bind (segs_run (mi_segment_try_purge env seg True) t)
                    (\<lambda>t. Option.bind (segs_run (mi_abandoned_visited_push env seg) t)
                      (\<lambda>t. reclaim_tries n env empty_page arena_id heap needed_slices block_size t)))))"

text \<open>\<open>mi_option_get_clamp\<close>\<close>

definition mi_option_clamp :: "int \<Rightarrow> int \<Rightarrow> int \<Rightarrow> int" where
  "mi_option_clamp x mn mx = (if x < mn then mn else if x > mx then mx else x)"

definition mi_segment_try_reclaim ::
    "os_env \<Rightarrow> addr \<Rightarrow> int \<Rightarrow> addr \<Rightarrow> size_t \<Rightarrow> size_t \<Rightarrow> thread_state \<Rightarrow> (addr \<times> bool \<times> thread_state) option" where
  "mi_segment_try_reclaim env empty_page arena_id heap needed_slices block_size t =
     (let max_tries = nat (mi_option_clamp (max_segment_reclaim env) 8 1024)
      in reclaim_tries max_tries env empty_page arena_id heap needed_slices block_size t)"

fun collect_tries :: "nat \<Rightarrow> os_env \<Rightarrow> addr \<Rightarrow> addr \<Rightarrow> bool \<Rightarrow> thread_state \<Rightarrow> thread_state option" where
  "collect_tries 0 env empty_page heap force t = Some t"
| "collect_tries (Suc n) env empty_page heap force t =
     Option.bind (segs_result (mi_abandoned_pop env) t)
       (\<lambda>(seg, t).
         if seg = 0 then Some t
         else
           Option.bind (mi_segment_check_free env seg 0 0 t)
             (\<lambda>(_, t).
               if sg_used (segment_at (ts_segs t) seg) = 0 then
                 Option.bind (mi_segment_reclaim env empty_page seg heap 0 t) (\<lambda>(_, _, t). collect_tries n env empty_page heap force t)
               else
                 Option.bind (segs_run (mi_segment_try_purge env seg force) t)
                   (\<lambda>t. Option.bind (segs_run (mi_abandoned_visited_push env seg) t)
                     (\<lambda>t. collect_tries n env empty_page heap force t))))"

definition mi_abandoned_collect :: "os_env \<Rightarrow> addr \<Rightarrow> addr \<Rightarrow> bool \<Rightarrow> thread_state \<Rightarrow> thread_state option" where
  "mi_abandoned_collect env empty_page heap force t =
     (let max_tries = (if force then 16 * 1024 else 1024)
      in Option.bind (if force then segs_result (mi_abandoned_visited_revisit env) t else Some (False, t))
        (\<lambda>(_, t). collect_tries max_tries env empty_page heap force t))"

definition mi_segment_reclaim_or_alloc ::
    "os_env \<Rightarrow> addr \<Rightarrow> int \<Rightarrow> addr \<Rightarrow> size_t \<Rightarrow> size_t \<Rightarrow> thread_state \<Rightarrow> (addr \<times> thread_state) option" where
  "mi_segment_reclaim_or_alloc env empty_page arena_id heap needed_slices block_size t =
     Option.bind (mi_segment_try_reclaim env empty_page arena_id heap needed_slices block_size t)
       (\<lambda>(seg, reclaimed, t).
         if reclaimed then Some (0, t)
         else if seg \<noteq> 0 then Some (seg, t)
         else Option.bind (mi_segment_alloc env 0 0 arena_id (ts_segs t)) (\<lambda>(seg, _, st). Some (seg, t\<lparr>ts_segs := st\<rparr>)))"

section \<open>Allocating pages\<close>

definition MI_MEDIUM_PAGE_SIZE :: size_t where
  "MI_MEDIUM_PAGE_SIZE = push_bit (3 + MI_SEGMENT_SLICE_SHIFT) 1"

definition MI_LARGE_OBJ_SIZE_MAX :: size_t where
  "MI_LARGE_OBJ_SIZE_MAX = MI_SEGMENT_SIZE div 2"

partial_function (option) mi_segments_page_alloc ::
    "os_env \<Rightarrow> addr \<Rightarrow> int \<Rightarrow> addr \<Rightarrow> size_t \<Rightarrow> size_t \<Rightarrow> thread_state \<Rightarrow> (addr \<times> thread_state) option" where
  "mi_segments_page_alloc env empty_page arena_id heap required block_size t =
     (let page_size = mi_align_up required (if required > MI_MEDIUM_PAGE_SIZE then MI_MEDIUM_PAGE_SIZE else MI_SEGMENT_SLICE_SIZE);
          slices_needed = page_size div MI_SEGMENT_SLICE_SIZE
      in Option.bind (segs_result (mi_segments_page_find_and_allocate env slices_needed arena_id) t)
        (\<lambda>(pg, t).
          if pg = 0 then
            Option.bind (mi_segment_reclaim_or_alloc env empty_page arena_id heap slices_needed block_size t)
              (\<lambda>(seg, t).
                if seg = 0 then Some (0, t)
                else mi_segments_page_alloc env empty_page arena_id heap required block_size t)
          else
            Option.bind (segs_run (mi_segment_try_purge env (mi_ptr_segment pg) False) t) (\<lambda>t. Some (pg, t))))"

text \<open>In a build where huge pages stay with their thread.\<close>

definition mi_segment_huge_page_alloc :: "os_env \<Rightarrow> size_t \<Rightarrow> size_t \<Rightarrow> int \<Rightarrow> segs_state \<Rightarrow> (addr \<times> segs_state) option" where
  "mi_segment_huge_page_alloc env sz page_alignment req_arena_id st =
     Option.bind (mi_segment_alloc env sz page_alignment req_arena_id st)
       (\<lambda>(seg, pg, st).
         if seg = 0 \<or> pg = 0 then Some (0, st)
         else
           (let (start, psize) = mi_segment_page_start seg pg st;
                st = set_slice pg (\<lambda>s. s\<lparr>xblock_size := (if psize > ucast MI_HUGE_BLOCK_SIZE then MI_HUGE_BLOCK_SIZE else ucast psize)\<rparr>) st
            in if page_alignment > 0 \<and> allow_decommit (segment_at st seg) then
                 (let aligned_p = mi_align_up start page_alignment;
                      decommit_start = start + 8;
                      decommit_size = aligned_p - decommit_start
                  in Some (pg, mi_os_reset decommit_start decommit_size st))
               else Some (pg, st)))"

text \<open>\<open>usable\<close> is \<open>mi_usable_size(block)\<close>.\<close>

definition mi_segment_huge_page_reset :: "addr \<Rightarrow> size_t \<Rightarrow> addr \<Rightarrow> segs_state \<Rightarrow> segs_state" where
  "mi_segment_huge_page_reset seg usable block st =
     (if allow_decommit (segment_at st seg) then
        (if usable > 8 then mi_os_reset (block + 8) (usable - 8) st else st)
      else st)"

definition mi_segment_page_alloc ::
    "os_env \<Rightarrow> addr \<Rightarrow> int \<Rightarrow> addr \<Rightarrow> size_t \<Rightarrow> size_t \<Rightarrow> thread_state \<Rightarrow> (addr \<times> thread_state) option" where
  "mi_segment_page_alloc env empty_page arena_id heap block_size page_alignment t =
     (if page_alignment > MI_ALIGNMENT_MAX then
        (let page_alignment = (if page_alignment < MI_SEGMENT_SIZE then MI_SEGMENT_SIZE else page_alignment)
         in segs_result (mi_segment_huge_page_alloc env block_size page_alignment arena_id) t)
      else if block_size \<le> MI_SMALL_OBJ_SIZE_MAX then mi_segments_page_alloc env empty_page arena_id heap block_size block_size t
      else if block_size \<le> MI_MEDIUM_OBJ_SIZE_MAX then mi_segments_page_alloc env empty_page arena_id heap MI_MEDIUM_PAGE_SIZE block_size t
      else if block_size \<le> MI_LARGE_OBJ_SIZE_MAX then mi_segments_page_alloc env empty_page arena_id heap block_size block_size t
      else segs_result (mi_segment_huge_page_alloc env block_size page_alignment arena_id) t)"

end
