(* ===== verification/Mi_Abandoned_Stacks.thy ===== *)
theory Mi_Abandoned_Stacks
  imports Mi_Abandoned_List Mi_Span_Queues
begin

text \<open>
  The lists of abandoned segments as two stacks. While a thread runs alone, its operations on the lists return, push and
  pop segments, move the visited segments over when the first list is empty, and change nothing but the links.
\<close>

section \<open>Tagged pointers\<close>

lemma tagged_ptr: "s AND MI_SEGMENT_MASK = 0 \<Longrightarrow> mi_tagged_segment_ptr (mi_tagged_segment s ts) = s"
proof -
  assume a: "s AND MI_SEGMENT_MASK = 0"
  have "(s OR (x AND MI_SEGMENT_MASK)) AND NOT MI_SEGMENT_MASK = s AND NOT MI_SEGMENT_MASK" for x
    by (auto simp: bit_eq_iff bit_simps)
  moreover have "s AND NOT MI_SEGMENT_MASK = s" using a by (auto simp: bit_eq_iff bit_simps)
  ultimately show ?thesis by (simp add: mi_tagged_segment_ptr_def mi_tagged_segment_def MI_TAGGED_MASK_def Let_def)
qed

lemma tagged_next:
  assumes "s AND MI_SEGMENT_MASK = 0" shows "mi_tagged_segment s ts \<noteq> ts"
proof -
  let ?t = "ts AND mask 25"
  have "\<not> bit (s AND mask 25) 0" using assms by (simp add: seg_mask)
  then have "\<not> bit s 0" by (simp add: bit_simps)
  moreover have "bit (?t + 1) 0 \<longleftrightarrow> \<not> bit ?t 0" unfolding bit_0 by simp
  ultimately have "bit (mi_tagged_segment s ts) 0 \<longleftrightarrow> \<not> bit ts 0"
    by (simp add: mi_tagged_segment_def MI_TAGGED_MASK_def seg_mask Let_def bit_or_iff bit_and_iff bit_mask_iff del: bit_0)
  then show ?thesis by auto
qed

text \<open>The tag of the list head; every update counts it up.\<close>

definition head_tag :: "segs_state \<Rightarrow> addr" where
  "head_tag st = abandoned st AND MI_TAGGED_MASK"

definition tag_after :: "addr \<Rightarrow> addr" where
  "tag_after x = (x + 1) AND MI_TAGGED_MASK"

lemma tagged_tag: "s AND MI_SEGMENT_MASK = 0 \<Longrightarrow> mi_tagged_segment s ts AND MI_TAGGED_MASK = tag_after (ts AND MI_TAGGED_MASK)"
proof -
  assume a: "s AND MI_SEGMENT_MASK = 0"
  have "(s OR (x AND MI_SEGMENT_MASK)) AND MI_SEGMENT_MASK = (s AND MI_SEGMENT_MASK) OR (x AND MI_SEGMENT_MASK)" for x
    by (auto simp: bit_eq_iff bit_simps)
  then show ?thesis using a by (simp add: mi_tagged_segment_def MI_TAGGED_MASK_def tag_after_def Let_def)
qed

section \<open>The lists\<close>

fun seg_chain :: "segs_state \<Rightarrow> addr \<Rightarrow> addr list \<Rightarrow> bool" where
  "seg_chain st p [] \<longleftrightarrow> p = 0"
| "seg_chain st p (s # L) \<longleftrightarrow> p = s \<and> s \<noteq> 0 \<and> seg_chain st (abandoned_next (segment_at st s)) L"

definition abandoned_lists :: "addr list \<Rightarrow> addr list \<Rightarrow> segs_state \<Rightarrow> bool" where
  "abandoned_lists A V st \<longleftrightarrow> seg_chain st (mi_tagged_segment_ptr (abandoned st)) A \<and> seg_chain st (abandoned_visited st) V \<and>
     distinct (A @ V) \<and> (\<forall>s \<in> set (A @ V). s AND MI_SEGMENT_MASK = 0) \<and>
     abandoned_count st = word_of_nat (length A) \<and> abandoned_visited_count st = word_of_nat (length V)"

text \<open>Only the links, the lists and the clock may differ.\<close>

definition only_lists :: "segs_state \<Rightarrow> segs_state \<Rightarrow> bool" where
  "only_lists st st' \<longleftrightarrow> (\<forall>s. (segment_at st' s)\<lparr>abandoned_next := 0\<rparr> = (segment_at st s)\<lparr>abandoned_next := 0\<rparr>) \<and> slice_at st' = slice_at st \<and>
     spans st' = spans st \<and> os_log st' = os_log st \<and> abandoned_readers st' = abandoned_readers st"

definition runs_alone :: "os_env \<Rightarrow> bool" where
  "runs_alone env \<longleftrightarrow> seg_others env = (\<lambda>_ st. st) \<and> seg_spurious env = (\<lambda>_. False)"

lemma seg_chain_frame:
  "seg_chain st p L \<Longrightarrow> (\<And>s. s \<in> set L \<Longrightarrow> abandoned_next (segment_at st' s) = abandoned_next (segment_at st s)) \<Longrightarrow> seg_chain st' p L"
  by (induction L arbitrary: p) auto

lemma seg_chain_append:
  assumes "seg_chain st p V" "V \<noteq> []" "seg_chain st q A" "distinct (A @ V)"
  shows "seg_chain (set_segment (last V) (\<lambda>sg. sg\<lparr>abandoned_next := q\<rparr>) st) p (V @ A)"
  using assms
proof (induction V arbitrary: p)
  case (Cons s V)
  show ?case
  proof (cases V)
    case Nil
    then show ?thesis using Cons.prems by (auto simp: set_segment_def intro: seg_chain_frame)
  next
    case (Cons s' V')
    then have "last V \<noteq> s" using Cons.prems(4) by (metis distinct.simps(2) distinct_append last_in_set list.distinct(1))
    moreover have "seg_chain (set_segment (last V) (\<lambda>sg. sg\<lparr>abandoned_next := q\<rparr>) st) (abandoned_next (segment_at st s)) (V @ A)"
      using Cons.IH Cons.prems Cons by simp
    ultimately show ?thesis using Cons.prems(1) Cons by (simp add: set_segment_def)
  qed
qed simp

lemma seg_step_alone: "runs_alone env \<Longrightarrow> seg_step env st = st\<lparr>ticks := Suc (ticks st)\<rparr>"
  by (simp add: seg_step_def runs_alone_def)

lemma cas_alone:
  assumes "runs_alone env"
  shows "abandoned_cas env weak expected desired st =
      (if abandoned st = expected then (True, expected, st\<lparr>ticks := Suc (ticks st), abandoned := desired\<rparr>)
       else (False, abandoned st, st\<lparr>ticks := Suc (ticks st)\<rparr>))"
    "visited_cas_weak env expected desired st =
      (if abandoned_visited st = expected then (True, expected, st\<lparr>ticks := Suc (ticks st), abandoned_visited := desired\<rparr>)
       else (False, abandoned_visited st, st\<lparr>ticks := Suc (ticks st)\<rparr>))"
  using assms by (simp_all add: abandoned_cas_def visited_cas_weak_def seg_step_alone Let_def, simp_all add: runs_alone_def)

lemma adds_alone:
  assumes "runs_alone env"
  shows "next_store env s v st = set_segment s (\<lambda>sg. sg\<lparr>abandoned_next := v\<rparr>) (st\<lparr>ticks := Suc (ticks st)\<rparr>)"
    "abandoned_add env n st = st\<lparr>ticks := Suc (ticks st), abandoned_count := abandoned_count st + n\<rparr>"
    "visited_add env n st = st\<lparr>ticks := Suc (ticks st), abandoned_visited_count := abandoned_visited_count st + n\<rparr>"
    "readers_add env n st = st\<lparr>ticks := Suc (ticks st), abandoned_readers := abandoned_readers st + n\<rparr>"
  using assms by (simp_all add: next_store_def abandoned_add_def visited_add_def readers_add_def seg_step_alone Let_def)

lemmas alone_simps = seg_step_alone cas_alone adds_alone Let_def set_segment_def

lemma only_lists_refl: "only_lists st st"
  by (simp add: only_lists_def)

lemma only_lists_trans: "only_lists a b \<Longrightarrow> only_lists b c \<Longrightarrow> only_lists a c"
  by (simp add: only_lists_def)

lemma push_alone:
  assumes "runs_alone env"
  shows "mi_abandoned_push env s st = Some (st\<lparr>segment_at := (segment_at st)(s := (segment_at st s)\<lparr>abandoned_next := mi_tagged_segment_ptr (abandoned st)\<rparr>),
      abandoned := mi_tagged_segment s (abandoned st), ticks := Suc (Suc (Suc (Suc (ticks st)))), abandoned_count := abandoned_count st + 1\<rparr>)"
  using assms by (simp add: mi_abandoned_push_def abandoned_push_loop.simps alone_simps)

lemma visited_push_alone:
  assumes "runs_alone env"
  shows "mi_abandoned_visited_push env s st = Some (st\<lparr>segment_at := (segment_at st)(s := (segment_at st s)\<lparr>abandoned_next := abandoned_visited st\<rparr>),
      abandoned_visited := s, ticks := Suc (Suc (Suc (Suc (ticks st)))), abandoned_visited_count := abandoned_visited_count st + 1\<rparr>)"
  using assms by (simp add: mi_abandoned_visited_push_def visited_push_loop.simps alone_simps)

lemma find_last_alone:
  assumes "runs_alone env" "seg_chain st p V" "V \<noteq> []"
  shows "\<exists>n. find_last env p st = Some (last V, st\<lparr>ticks := n\<rparr>)"
  using assms(2,3)
proof (induction V arbitrary: p st)
  case (Cons s V)
  show ?case
  proof (cases V)
    case Nil
    then have "find_last env p st = Some (last (s # V), st\<lparr>ticks := Suc (ticks st)\<rparr>)"
      using Cons.prems assms(1) by (subst find_last.simps) (simp add: alone_simps)
    then show ?thesis by blast
  next
    case (Cons s' V')
    let ?st = "st\<lparr>ticks := Suc (ticks st)\<rparr>"
    have "seg_chain ?st (abandoned_next (segment_at st s)) V" using Cons.prems(1) by (auto intro: seg_chain_frame)
    then obtain n where "find_last env (abandoned_next (segment_at st s)) ?st = Some (last V, ?st\<lparr>ticks := n\<rparr>)"
      using Cons.IH [of ?st] Cons by blast
    moreover have "abandoned_next (segment_at st s) \<noteq> 0" "p = s" using Cons.prems(1) Cons by simp_all
    ultimately have "find_last env p st = Some (last (s # V), st\<lparr>ticks := n\<rparr>)"
      using assms(1) Cons by (subst find_last.simps) (simp add: alone_simps)
    then show ?thesis by blast
  qed
qed simp

lemma abandoned_lists_ticks: "abandoned_lists A V (st\<lparr>ticks := n\<rparr>) \<longleftrightarrow> abandoned_lists A V st"
  by (auto simp: abandoned_lists_def intro: seg_chain_frame)

lemma chain_head: "seg_chain st p V \<Longrightarrow> p = (if V = [] then 0 else hd V)"
  by (cases V) simp_all

lemma chain_null: "seg_chain st p V \<Longrightarrow> (p = 0) = (V = [])"
  by (cases V) simp_all

lemma abandon_push_lists:
  assumes "runs_alone env" "abandoned_lists A V st" "s \<noteq> 0" "s AND MI_SEGMENT_MASK = 0" "s \<notin> set (A @ V)"
  shows "\<exists>st'. mi_abandoned_push env s st = Some st' \<and> abandoned_lists (s # A) V st' \<and> only_lists st st' \<and> head_tag st' = tag_after (head_tag st)"
    "\<exists>st'. mi_abandoned_visited_push env s st = Some st' \<and> abandoned_lists A (s # V) st' \<and> only_lists st st' \<and> head_tag st' = head_tag st"
  unfolding push_alone [OF assms(1)] visited_push_alone [OF assms(1)] using assms(2-)
  by (auto simp: abandoned_lists_def only_lists_def head_tag_def tagged_tag tagged_ptr add.commute intro: seg_chain_frame)

lemma revisit_lists:
  assumes "runs_alone env" "abandoned_lists A V st"
  shows "\<exists>st'. mi_abandoned_visited_revisit env st = Some (V \<noteq> [], st') \<and> abandoned_lists (V @ A) [] st' \<and> only_lists st st' \<and>
    head_tag st' = (if V = [] then head_tag st else tag_after (head_tag st))"
proof -
  have ch: "seg_chain st (mi_tagged_segment_ptr (abandoned st)) A" "seg_chain st (abandoned_visited st) V" "distinct (A @ V)"
    "\<forall>s \<in> set (A @ V). s AND MI_SEGMENT_MASK = 0" and cnt: "abandoned_count st = word_of_nat (length A)" "abandoned_visited_count st = word_of_nat (length V)"
    using assms(2) by (simp_all add: abandoned_lists_def)
  note null = chain_null [OF ch(1)] chain_null [OF ch(2)]
  show ?thesis
  proof (cases V)
    case Nil
    then have "mi_abandoned_visited_revisit env st = Some (V \<noteq> [], st\<lparr>ticks := Suc (ticks st)\<rparr>)"
      using null(2) assms(1) by (simp add: mi_abandoned_visited_revisit_def alone_simps)
    then show ?thesis using Nil assms(2) by (simp add: abandoned_lists_ticks) (simp add: only_lists_def head_tag_def)
  next
    case (Cons v V')
    have v: "abandoned_visited st = v" "v \<noteq> 0" "v AND MI_SEGMENT_MASK = 0" using ch(2,4) Cons by simp_all
    let ?t = "mi_tagged_segment_ptr (abandoned st)"
    have tag: "head_tag st' = tag_after (head_tag st)" if "abandoned st' = mi_tagged_segment v (abandoned st)" for st'
      using v(3) that by (simp add: head_tag_def tagged_tag)
    show ?thesis
    proof (cases A)
      case Nil
      then have "?t = 0" using null(1) by simp
      then have "\<exists>st'. mi_abandoned_visited_revisit env st = Some (True, st') \<and> abandoned st' = mi_tagged_segment v (abandoned st) \<and>
          abandoned_visited st' = 0 \<and> segment_at st' = segment_at st \<and> slice_at st' = slice_at st \<and> spans st' = spans st \<and>
          os_log st' = os_log st \<and> abandoned_readers st' = abandoned_readers st \<and>
          abandoned_count st' = abandoned_count st + abandoned_visited_count st \<and> abandoned_visited_count st' = 0"
        using v assms(1) by (simp add: mi_abandoned_visited_revisit_def alone_simps)
      then obtain st' where st': "mi_abandoned_visited_revisit env st = Some (True, st')" "abandoned st' = mi_tagged_segment v (abandoned st)"
        "abandoned_visited st' = 0" "segment_at st' = segment_at st" "slice_at st' = slice_at st" "spans st' = spans st"
        "os_log st' = os_log st" "abandoned_readers st' = abandoned_readers st"
        "abandoned_count st' = abandoned_count st + abandoned_visited_count st" "abandoned_visited_count st' = 0"
        by blast
      have "seg_chain st' v V" by (rule seg_chain_frame) (use ch(2) v(1) st'(4) in auto)
      then have "abandoned_lists (V @ A) [] st'" using ch(3,4) cnt Nil st' v(3) by (simp add: abandoned_lists_def tagged_ptr)
      then show ?thesis using st' Cons tag by (auto simp: only_lists_def)
    next
      case (Cons a A')
      then have t: "?t \<noteq> 0" using null(1) by simp
      let ?s2 = "st\<lparr>abandoned_visited := 0, ticks := Suc (Suc (Suc (ticks st)))\<rparr>"
      have "seg_chain ?s2 v V" by (rule seg_chain_frame) (use ch(2) v(1) in auto)
      then obtain n where l: "find_last env v ?s2 = Some (last V, ?s2\<lparr>ticks := n\<rparr>)"
        using find_last_alone [OF assms(1)] \<open>V = v # V'\<close> by blast
      have "\<exists>st'. mi_abandoned_visited_revisit env st = Some (True, st') \<and> abandoned st' = mi_tagged_segment v (abandoned st) \<and>
          abandoned_visited st' = 0 \<and> segment_at st' = segment_at (set_segment (last V) (\<lambda>sg. sg\<lparr>abandoned_next := ?t\<rparr>) st) \<and>
          slice_at st' = slice_at st \<and> spans st' = spans st \<and>
          os_log st' = os_log st \<and> abandoned_readers st' = abandoned_readers st \<and>
          abandoned_count st' = abandoned_count st + abandoned_visited_count st \<and> abandoned_visited_count st' = 0"
        using v t l assms(1) by (simp add: mi_abandoned_visited_revisit_def prepend_visited.simps alone_simps)
      then obtain st' where st': "mi_abandoned_visited_revisit env st = Some (True, st')" "abandoned st' = mi_tagged_segment v (abandoned st)"
        "abandoned_visited st' = 0" "segment_at st' = segment_at (set_segment (last V) (\<lambda>sg. sg\<lparr>abandoned_next := ?t\<rparr>) st)"
        "slice_at st' = slice_at st" "spans st' = spans st" "os_log st' = os_log st" "abandoned_readers st' = abandoned_readers st"
        "abandoned_count st' = abandoned_count st + abandoned_visited_count st" "abandoned_visited_count st' = 0"
        by blast
      have "seg_chain (set_segment (last V) (\<lambda>sg. sg\<lparr>abandoned_next := ?t\<rparr>) st) v (V @ A)"
        using seg_chain_append [OF _ _ ch(1), of v V] ch(2,3) v(1) \<open>V = v # V'\<close> by simp
      then have "seg_chain st' v (V @ A)" using st'(4) by (auto intro: seg_chain_frame)
      then have "abandoned_lists (V @ A) [] st'" using ch(3,4) cnt st' v(3) by (auto simp: abandoned_lists_def tagged_ptr)
      moreover have "only_lists st st'" using st' by (auto simp: only_lists_def set_segment_def)
      ultimately show ?thesis using st'(1,2) \<open>V = v # V'\<close> tag by auto
    qed
  qed
qed

lemma pop_rest:
  assumes "runs_alone env" "abandoned_lists (s # B) V st"
  shows "\<exists>st'. pop_counted env st = Some (s, st') \<and>
    abandoned_lists B V st' \<and> only_lists st st' \<and> head_tag st' = tag_after (head_tag st)"
proof -
  have ch: "mi_tagged_segment_ptr (abandoned st) = s" "s \<noteq> 0" "seg_chain st (abandoned_next (segment_at st s)) B" "seg_chain st (abandoned_visited st) V"
    "distinct (s # B @ V)" "\<forall>s \<in> set (s # B @ V). s AND MI_SEGMENT_MASK = 0"
    and cnt: "abandoned_count st = word_of_nat (Suc (length B))" "abandoned_visited_count st = word_of_nat (length V)"
    using assms(2) by (simp_all add: abandoned_lists_def)
  let ?n = "abandoned_next (segment_at st s)"
  have next_mask: "?n AND MI_SEGMENT_MASK = 0" using chain_head [OF ch(3)] ch(6) by (cases B) auto
  note ptr = tagged_ptr [OF this, of "abandoned st"] and tag = tagged_tag [OF this, of "abandoned st"]
  have "\<exists>st'. pop_counted env st = Some (s, st') \<and>
      abandoned st' = mi_tagged_segment ?n (abandoned st) \<and> abandoned_visited st' = abandoned_visited st \<and>
      segment_at st' = segment_at (set_segment s (\<lambda>sg. sg\<lparr>abandoned_next := 0\<rparr>) st) \<and> slice_at st' = slice_at st \<and> spans st' = spans st \<and>
      os_log st' = os_log st \<and> abandoned_readers st' = abandoned_readers st \<and>
      abandoned_count st' = abandoned_count st - 1 \<and> abandoned_visited_count st' = abandoned_visited_count st"
    using ch(1,2) assms(1) by (simp add: pop_counted_def abandoned_pop_loop.simps alone_simps)
  then obtain st' where run: "pop_counted env st = Some (s, st')"
    and st': "abandoned st' = mi_tagged_segment ?n (abandoned st)" "abandoned_visited st' = abandoned_visited st"
      "segment_at st' = segment_at (set_segment s (\<lambda>sg. sg\<lparr>abandoned_next := 0\<rparr>) st)" "slice_at st' = slice_at st" "spans st' = spans st"
      "os_log st' = os_log st" "abandoned_readers st' = abandoned_readers st"
      "abandoned_count st' = abandoned_count st - 1" "abandoned_visited_count st' = abandoned_visited_count st"
    by blast
  have "seg_chain st' ?n B" "seg_chain st' (abandoned_visited st) V"
    using ch(3-5) by (auto intro!: seg_chain_frame [where st = st] simp: st'(3) set_segment_def)
  then have "abandoned_lists B V st'" using ch(5,6) cnt st' ptr by (auto simp: abandoned_lists_def)
  moreover have "only_lists st st'" using st' by (auto simp: only_lists_def set_segment_def)
  moreover have "head_tag st' = tag_after (head_tag st)" using tag st'(1) by (simp add: head_tag_def)
  ultimately show ?thesis using run by blast
qed

lemma pop_lists:
  assumes "runs_alone env" "abandoned_lists A V st"
  shows "\<exists>st'. mi_abandoned_pop env st = Some (if A @ V = [] then 0 else hd (A @ V), st') \<and>
    (if A = [] then abandoned_lists (tl V) [] st' else abandoned_lists (tl A) V st') \<and> only_lists st st' \<and>
    head_tag st' = (if A @ V = [] then head_tag st else if A = [] then tag_after (tag_after (head_tag st)) else tag_after (head_tag st))"
proof (cases A)
  case Nil
  then have z: "mi_tagged_segment_ptr (abandoned st) = 0" using assms(2) by (simp add: abandoned_lists_def)
  have lists: "abandoned_lists A V (st\<lparr>ticks := Suc (ticks st)\<rparr>)" using assms(2) by (simp add: abandoned_lists_ticks)
  obtain st1 where r: "mi_abandoned_visited_revisit env (st\<lparr>ticks := Suc (ticks st)\<rparr>) = Some (V \<noteq> [], st1)" "abandoned_lists V [] st1"
    "only_lists (st\<lparr>ticks := Suc (ticks st)\<rparr>) st1" "head_tag st1 = (if V = [] then head_tag st else tag_after (head_tag st))"
    using revisit_lists [OF assms(1) lists] Nil by (auto simp: head_tag_def)
  have only: "only_lists st st1" using r(3) by (simp add: only_lists_def)
  show ?thesis
  proof (cases V)
    case Nil
    then show ?thesis using z r only \<open>A = []\<close> assms(1) by (simp add: mi_abandoned_pop_def seg_step_alone Let_def)
  next
    case (Cons v V')
    then obtain st' where "pop_counted env st1 = Some (v, st')"
      "abandoned_lists V' [] st'" "only_lists st1 st'" "head_tag st' = tag_after (head_tag st1)" using pop_rest [OF assms(1)] r(2) by blast
    then show ?thesis using z r(1,4) only_lists_trans [OF only] Cons \<open>A = []\<close> seg_step_alone [OF assms(1), of st] by (simp add: mi_abandoned_pop_def)
  qed
next
  case (Cons a A')
  then have z: "mi_tagged_segment_ptr (abandoned st) \<noteq> 0" using assms(2) by (simp add: abandoned_lists_def)
  have lists: "abandoned_lists A V (st\<lparr>ticks := Suc (ticks st)\<rparr>)" using assms(2) by (simp add: abandoned_lists_ticks)
  obtain st' where "pop_counted env (st\<lparr>ticks := Suc (ticks st)\<rparr>) = Some (a, st')"
    "abandoned_lists A' V st'" "only_lists (st\<lparr>ticks := Suc (ticks st)\<rparr>) st'" "head_tag st' = tag_after (head_tag (st\<lparr>ticks := Suc (ticks st)\<rparr>))"
    using pop_rest [OF assms(1)] lists Cons by blast
  then show ?thesis using z Cons seg_step_alone [OF assms(1), of st] by (simp add: mi_abandoned_pop_def only_lists_def head_tag_def)
qed

section \<open>Property\<close>

text \<open>
  (C25) While a thread runs alone, the lists of abandoned segments are two stacks with exact counts: a push puts a segment before
  the others, the visited segments are moved before the abandoned ones, and a pop takes the first abandoned segment, or, if there is
  none, the first visited one after moving them all. Every operation returns and changes nothing else of the segments, and every
  update of the first list counts up the tag of its head by which other threads notice it.
\<close>

theorem abandoned_lists_refine:
  assumes "runs_alone env" "abandoned_lists A V st" "s \<noteq> 0" "s AND MI_SEGMENT_MASK = 0" "s \<notin> set (A @ V)"
  shows "(\<exists>st'. mi_abandoned_push env s st = Some st' \<and> abandoned_lists (s # A) V st' \<and> only_lists st st' \<and>
      head_tag st' = tag_after (head_tag st)) \<and>
    (\<exists>st'. mi_abandoned_visited_push env s st = Some st' \<and> abandoned_lists A (s # V) st' \<and> only_lists st st' \<and>
      head_tag st' = head_tag st) \<and>
    (\<exists>st'. mi_abandoned_visited_revisit env st = Some (V \<noteq> [], st') \<and> abandoned_lists (V @ A) [] st' \<and> only_lists st st' \<and>
      head_tag st' = (if V = [] then head_tag st else tag_after (head_tag st))) \<and>
    (\<exists>st'. mi_abandoned_pop env st = Some (if A @ V = [] then 0 else hd (A @ V), st') \<and>
       (if A = [] then abandoned_lists (tl V) [] st' else abandoned_lists (tl A) V st') \<and> only_lists st st' \<and>
       head_tag st' = (if A @ V = [] then head_tag st else if A = [] then tag_after (tag_after (head_tag st)) else tag_after (head_tag st)))"
  using abandon_push_lists [OF assms] revisit_lists [OF assms(1,2)] pop_lists [OF assms(1,2)] by (intro conjI)

theorem abandoned_lists_refine_witness:
  "\<exists>st'. mi_abandoned_push example_os 0x2000000 example_segs = Some st' \<and> abandoned_lists [0x2000000] [] st'"
proof -
  have "runs_alone example_os" by (simp add: runs_alone_def example_os_def)
  moreover have "abandoned_lists [] [] example_segs" by (simp add: abandoned_lists_def example_segs_def mi_tagged_segment_ptr_def)
  ultimately show ?thesis
    using abandoned_lists_refine [of example_os "[]" "[]" example_segs "0x2000000"]
    by (simp add: MI_SEGMENT_MASK_def MI_SEGMENT_SIZE_def MI_SEGMENT_SHIFT_def MI_SEGMENT_SLICE_SHIFT_def) blast
qed

end
