(* ===== verification/Mi_Segment_Free.thy ===== *)
theory Mi_Segment_Free
  imports Mi_Segment_Alloc Mi_Segment_Pages Mi_Abandoned_Stacks
begin

text \<open>
  Segments leave: the segment whose last page is freed leaves the span queues and its memory goes back to the arenas; a segment that
  has only abandoned pages leaves the queues and joins the list of abandoned segments, its slices still telling its spans.
\<close>

section \<open>What does not touch the spans\<close>

text \<open>The links and visits of segments do not matter for the spans, nor do the lists of abandoned segments.\<close>

definition unlinked_segment :: "mi_segment_t \<Rightarrow> mi_segment_t" where
  "unlinked_segment sg = sg\<lparr>abandoned_next := 0, abandoned_visits := 0\<rparr>"

lemma unlinked_fields:
  assumes "unlinked_segment x = unlinked_segment y"
  shows "sg_memid x = sg_memid y" "allow_purge x = allow_purge y" "purge_mask x = purge_mask y" "commit_mask x = commit_mask y"
    "sg_used x = sg_used y" "sg_abandoned x = sg_abandoned y" "segment_slices x = segment_slices y" "segment_info_slices x = segment_info_slices y"
    "sg_kind x = sg_kind y" "slice_entries x = slice_entries y" "thread_id x = thread_id y"
proof -
  have f: "sg_memid (unlinked_segment z) = sg_memid z" "allow_purge (unlinked_segment z) = allow_purge z"
    "purge_mask (unlinked_segment z) = purge_mask z" "commit_mask (unlinked_segment z) = commit_mask z"
    "sg_used (unlinked_segment z) = sg_used z" "sg_abandoned (unlinked_segment z) = sg_abandoned z"
    "segment_slices (unlinked_segment z) = segment_slices z" "segment_info_slices (unlinked_segment z) = segment_info_slices z"
    "sg_kind (unlinked_segment z) = sg_kind z" "slice_entries (unlinked_segment z) = slice_entries z"
    "thread_id (unlinked_segment z) = thread_id z" for z by (simp_all add: unlinked_segment_def)
  show "sg_memid x = sg_memid y" "allow_purge x = allow_purge y" "purge_mask x = purge_mask y" "commit_mask x = commit_mask y"
    "sg_used x = sg_used y" "sg_abandoned x = sg_abandoned y" "segment_slices x = segment_slices y" "segment_info_slices x = segment_info_slices y"
    "sg_kind x = sg_kind y" "slice_entries x = slice_entries y" "thread_id x = thread_id y"
    using assms by (metis f)+
qed

lemma only_lists_unlinked: "only_lists st st' \<Longrightarrow> unlinked_segment (segment_at st' s) = unlinked_segment (segment_at st s)"
proof -
  assume "only_lists st st'"
  then have "(segment_at st' s)\<lparr>abandoned_next := 0\<rparr> = (segment_at st s)\<lparr>abandoned_next := 0\<rparr>" by (simp add: only_lists_def)
  then have "(segment_at st' s)\<lparr>abandoned_next := 0\<rparr>\<lparr>abandoned_visits := 0\<rparr> = (segment_at st s)\<lparr>abandoned_next := 0\<rparr>\<lparr>abandoned_visits := 0\<rparr>" by (rule arg_cong)
  then show ?thesis by (simp add: unlinked_segment_def)
qed

lemma mask_sound_same:
  assumes "mask_sound B s st" "os_log st' = os_log st" "unlinked_segment (segment_at st' s) = unlinked_segment (segment_at st s)"
  shows "mask_sound B s st'"
  using assms(1) unfolding mask_sound_def segment_fits_def unlinked_fields [OF assms(3)] assms(2) .

lemma heap_spans_same:
  assumes "heap_spans G B L Q st" "slice_at st' = slice_at st" "spans st' = spans st" "os_log st' = os_log st"
    "\<forall>s \<in> G. unlinked_segment (segment_at st' s) = unlinked_segment (segment_at st s)"
  shows "heap_spans G B L Q st'"
proof -
  have kn: "known_spans G B (\<lambda>s. set (L s)) Q st" using assms(1) by (simp add: heap_spans_def)
  have "segs_ok G B st'" unfolding segs_ok_def
  proof (intro ballI conjI)
    fix s assume s: "s \<in> G"
    then have u: "unlinked_segment (segment_at st' s) = unlinked_segment (segment_at st s)" using assms(5) by blast
    note k = known_spans_get [OF kn s]
    show "seg_base s" by (rule k(1))
    show "mask_sound B s st'" by (rule mask_sound_same [OF k(2) assms(4) u])
    show "slice_entries (segment_at st' s) = 512" "thread_id (segment_at st' s) \<noteq> 0" using k(3,4) unfolding unlinked_fields(10,11) [OF u] .
  qed
  then have known: "known_spans G B (\<lambda>s. set (L s)) Q st'" using kn assms(2,3) by (simp add: known_spans_def)
  have used: "sg_used (segment_at st' s) = sg_used (segment_at st s)" if "s \<in> G" for s by (rule unlinked_fields(5)) (use assms(5) that in blast)
  show ?thesis using assms(1) known used by (simp add: heap_spans_def)
qed

lemma heap_spans_lists:
  assumes "heap_spans G B L Q st" "only_lists st st'"
  shows "heap_spans G B L Q st'"
proof (rule heap_spans_same [OF assms(1)])
  show "slice_at st' = slice_at st" "spans st' = spans st" "os_log st' = os_log st" using assms(2) by (simp_all add: only_lists_def)
  show "\<forall>s \<in> G. unlinked_segment (segment_at st' s) = unlinked_segment (segment_at st s)" using only_lists_unlinked [OF assms(2)] by blast
qed

lemma abandoned_lists_frame:
  assumes "abandoned_lists A V st" "lists_state st' = lists_state st"
    "\<And>s. s \<in> set (A @ V) \<Longrightarrow> abandoned_next (segment_at st' s) = abandoned_next (segment_at st s)"
  shows "abandoned_lists A V st'"
  using assms by (auto simp: abandoned_lists_def intro: seg_chain_frame)



section \<open>Giving a segment back\<close>



lemma spans_without:
  assumes hs: "heap_spans G B L Q st" and kn: "known_spans G B ((\<lambda>s. set (L s))(g := {} \<union> {s \<in> set (L g). \<not> snd (snd s)})) Q1 s1"
    and seg: "segment_at s1 = segment_at st"
  shows "heap_spans (G - {g}) B L Q1 s1"
proof -
  let ?L = "\<lambda>s. set (L s)" and ?U = "{s \<in> set (L g). \<not> snd (snd s)}"
  have "free_heads (G - {g}) ?L r = free_heads G (?L(g := {} \<union> ?U)) r" for r
  proof -
    have "s \<in> G - {g} \<and> (j, m, True) \<in> ?L s \<longleftrightarrow> s \<in> G \<and> (j, m, True) \<in> (?L(g := {} \<union> ?U)) s" for s j m by auto
    then show ?thesis unfolding free_heads_def by (metis (no_types, lifting))
  qed
  moreover have "segs_ok (G - {g}) B s1" using kn by (simp add: known_spans_def segs_ok_def)
  moreover have "spans_ok (G - {g}) ?L (slice_at s1)" using kn by (auto simp: known_spans_def spans_ok_def)
  ultimately have "known_spans (G - {g}) B ?L Q1 s1" using kn by (simp add: known_spans_def)
  then show ?thesis using hs seg by (simp add: heap_spans_def)
qed


section \<open>Abandoning a segment\<close>

text \<open>The slices tell the same spans, and only they and the queues have changed.\<close>

definition slices_kept :: "segs_state \<Rightarrow> segs_state \<Rightarrow> bool" where
  "slices_kept st st' \<longleftrightarrow> segment_at st' = segment_at st \<and> os_log st' = os_log st \<and> lists_state st' = lists_state st \<and>
     (\<forall>y. slice_data (slice_at st' y) = slice_data (slice_at st y))"

lemma unqueue_free_spans_known:
  assumes "known_spans G B (K(g := U \<union> set M)) Q st" "g \<in> G" "tiling i M 512" "\<forall>s \<in> U. \<not> snd (snd s)"
    "\<forall>s \<in> U. span_range s \<inter> {i..<512} = {}"
  shows "\<exists>st' Q'. unqueue_free_spans g (sa g i) st = Some st' \<and>
    known_spans G B (K(g := U \<union> {s \<in> set M. \<not> snd (snd s)})) Q' st' \<and> slices_kept st st'"
  using assms
proof (induction M arbitrary: i U Q st)
  case Nil
  note k = known_spans_get [OF Nil.prems(1,2)]
  have e: "mi_segment_slices_end g st = sa g 512" using k(3) by (simp add: mi_segment_slices_end_def sa_def)
  have "i = 512" using Nil.prems(3) by simp
  then have "unqueue_free_spans g (sa g i) st = Some st" by (subst unqueue_free_spans.simps) (simp add: e)
  then show ?case using Nil.prems(1) by (auto simp: slices_kept_def)
next
  case (Cons s M)
  note known = Cons.prems(1) and g = Cons.prems(2)
  note k = known_spans_get [OF known g]
  obtain j m f where s: "s = (j, m, f)" by (cases s)
  have til: "j = i" "1 \<le> m" "tiling (i + m) M 512" using Cons.prems(3) s by simp_all
  have m: "i + m \<le> 512" using tiling_bounds [OF til(3)] by simp
  have mem: "(i, m, f) \<in> (K(g := U \<union> set (s # M))) g" using s til(1) by simp
  have at: "span_at g (slice_at st) (i, m, f)" by (rule k(8) [OF mem])
  have e: "mi_segment_slices_end g st' = sa g 512" if "segment_at st' = segment_at st" for st'
    using k(3) that by (simp add: mi_segment_slices_end_def sa_def)
  have less: "sa g i < sa g 512" using slice_addr_less [OF seg_fits [OF k(1)], of i 512] m til(2) by simp
  have nxt: "sa g i + sizeof_mi_slice_t * word_of_nat m = sa g (i + m)" by (rule slice_addr_step(1))
  have m512: "m \<le> 512" using m by simp
  have far: "\<forall>s \<in> U. span_range s \<inter> {i + m..<512} = {}" using Cons.prems(5) by fastforce
  show ?case
  proof (cases f)
    case False
    then have f: "f = False" by simp
    have "U \<union> set (s # M) = insert s U \<union> set M" by auto
    then have known': "known_spans G B (K(g := insert s U \<union> set M)) Q st" using known by (simp only:)
    have U: "\<forall>s \<in> insert s U. \<not> snd (snd s)" using Cons.prems(4) s f by simp
    have far': "\<forall>s \<in> insert s U. span_range s \<inter> {i + m..<512} = {}" using far s til(1) by (auto simp: span_range_def)
    obtain st' Q' where r: "unqueue_free_spans g (sa g (i + m)) st = Some st'"
      "known_spans G B (K(g := insert s U \<union> {s \<in> set M. \<not> snd (snd s)})) Q' st'" "slices_kept st st'"
      using Cons.IH [OF known' g til(3) U far'] by blast
    have "ucast (slice_count (slice_at st (sa g i))) = (word_of_nat m :: size_t)" using at count_word [OF m512] by simp
    then have "unqueue_free_spans g (sa g i) st = Some st'"
      using less at f r(1) by (subst unqueue_free_spans.simps) (simp add: e nxt)
    moreover have "insert s U \<union> {s \<in> set M. \<not> snd (snd s)} = U \<union> {t \<in> set (s # M). \<not> snd (snd t)}" using s f by auto
    ultimately show ?thesis using r(2,3) by (metis (no_types, lifting))
  next
    case True
    then have f: "f = True" by simp
    let ?s1 = "mi_segment_span_remove_from_queue (sa g i) st"
    let ?st = "set_slice (sa g i) (\<lambda>s. s\<lparr>xblock_size := 0\<rparr>) ?s1"
    obtain Q1 where d: "queue_moved st (sa g i) 1 Q1 ?s1"
      "known_spans G B ((K(g := U \<union> set (s # M)))(g := (K(g := U \<union> set (s # M))) g - {(i, m, True)})) Q1 ?s1"
      using remove_from_queue_step [OF known g mem [unfolded f]] by blast
    have nM: "(i, m, True) \<notin> set M" using tiling_bounds [OF til(3)] til(2) by (auto dest!: bspec)
    moreover have "(i, m, True) \<notin> U" using Cons.prems(4) by auto
    ultimately have "(K(g := U \<union> set (s # M)))(g := (K(g := U \<union> set (s # M))) g - {(i, m, True)}) = K(g := U \<union> set M)"
      using s til(1) f by auto
    then have known1: "known_spans G B (K(g := U \<union> set M)) Q1 ?s1" using d(2) by (simp only:)
    have gap: "i \<notin> span_range t" if "t \<in> (K(g := U \<union> set M)) g" for t
    proof -
      consider "t \<in> U" | "t \<in> set M" using \<open>t \<in> (K(g := U \<union> set M)) g\<close> by auto
      then show ?thesis
      proof cases
        case 1
        then show ?thesis using Cons.prems(5) m til(2) by fastforce
      next
        case 2
        then show ?thesis using tiling_bounds [OF til(3)] til(2) by (cases t) (auto simp: span_range_def dest!: bspec)
      qed
    qed
    have known': "known_spans G B (K(g := U \<union> set M)) Q1 ?st"
      by (rule gap_write [OF known1 g]) (use m til(2) gap in simp_all)
    have same: "slices_kept st ?st" "slice_count (slice_at ?st (sa g i)) = word_of_nat m"
      using d(1) at f by (auto simp: queue_moved_def same_spans_def slices_kept_def slice_data_def set_slice_def)
    obtain st' Q' where r: "unqueue_free_spans g (sa g (i + m)) ?st = Some st'"
      "known_spans G B (K(g := U \<union> {s \<in> set M. \<not> snd (snd s)})) Q' st'" "slices_kept ?st st'"
      using Cons.IH [OF known' g til(3) Cons.prems(4) far] by blast
    have "ucast (slice_count (slice_at ?st (sa g i))) = (word_of_nat m :: size_t)" using same(2) count_word [OF m512] by simp
    then have "unqueue_free_spans g (sa g i) st = Some st'"
      using less at f r(1) by (subst unqueue_free_spans.simps) (simp add: e nxt)
    moreover have "U \<union> {s \<in> set M. \<not> snd (snd s)} = U \<union> {t \<in> set (s # M). \<not> snd (snd t)}" using s f by auto
    moreover have "slices_kept st st'" using same(1) r(3) by (simp add: slices_kept_def)
    ultimately show ?thesis using r(2) by (metis (no_types, lifting))
  qed
qed

text \<open>An abandoned segment: its slices tell its spans, and what its commit mask says is true.\<close>

definition abandoned_segment :: "nat set \<Rightarrow> addr \<Rightarrow> span_t list \<Rightarrow> segs_state \<Rightarrow> bool" where
  "abandoned_segment B g M st \<longleftrightarrow> (\<forall>s \<in> set M. span_ok s \<and> span_at g (slice_at st) s) \<and> mask_sound B g st \<and>
     slice_entries (segment_at st g) = 512 \<and> thread_id (segment_at st g) = 0 \<and> abandoned_visits (segment_at st g) = 1"

lemma masks_only:
  assumes "same_but_masks g st st'"
    "committed_bytes (os_log st) B - chunks g (mask_set (purge_mask (segment_at st g))) \<subseteq> committed_bytes (os_log st') B"
  shows "only_segment g B st st'"
proof -
  have "committed_bytes (os_log st) B - {unat g..<unat g + 2 ^ 25} \<subseteq> committed_bytes (os_log st') B"
    using assms(2) chunks_inside [of g "purge_mask (segment_at st g)"] by blast
  then show ?thesis using assms(1) by (simp add: only_segment_def same_but_masks_def)
qed

lemma segment_abandon_spans:
  assumes hs: "heap_spans G B L Q st" and g: "g \<in> G" "g \<noteq> 0" and al: "runs_alone env"
    and lists: "abandoned_lists A V st" "g \<notin> set (A @ V)"
  shows "\<exists>st' Q'. mi_segment_abandon env g st = Some st' \<and> heap_spans (G - {g}) B L Q' st' \<and> abandoned_lists (g # A) V st' \<and>
    abandoned_segment B g (L g) st'"
proof -
  let ?L = "\<lambda>s. set (L s)" and ?U = "{s \<in> set (L g). \<not> snd (snd s)}"
  note known = heap_spans_get(1) [OF hs g(1)] and til = heap_spans_get(2) [OF hs g(1)]
  note k = known_spans_get [OF known g(1)]
  have "?L(g := {} \<union> set (L g)) = ?L" by auto
  then have known': "known_spans G B (?L(g := {} \<union> set (L g))) Q st" using known by simp
  obtain s1 Q1 where s1: "unqueue_free_spans g (sa g 0) st = Some s1" "known_spans G B (?L(g := {} \<union> ?U)) Q1 s1" "slices_kept st s1"
    using unqueue_free_spans_known [OF known' g(1) til] by blast
  have seg1: "segment_at s1 = segment_at st" using s1(3) by (simp add: slices_kept_def)
  have hs1: "heap_spans (G - {g}) B L Q1 s1" by (rule spans_without [OF hs s1(2) seg1])
  have ms1: "mask_sound B g s1" using known_spans_get(2) [OF s1(2) g(1)] .
  obtain s2 where s2: "mi_segment_try_purge env g (abandoned_page_purge env) s1 = Some s2" "mask_sound B g s2" "same_but_masks g s1 s2"
    "committed_bytes (os_log s1) B - chunks g (mask_set (purge_mask (segment_at s1 g))) \<subseteq> committed_bytes (os_log s2) B"
    using try_purge_sound [OF ms1] by blast
  have only2: "only_segment g B s1 s2" by (rule masks_only [OF s2(3,4)])
  let ?t = "set_segment g (\<lambda>sg. sg\<lparr>thread_id := 0\<rparr>) (mi_segments_track_size (- mi_segment_size (segment_at s2 g)) s2)"
  define s3 where "s3 = set_segment g (\<lambda>sg. sg\<lparr>abandoned_visits := 1\<rparr>) (next_store env g 0 ?t)"
  have t: "only_segment g B s2 ?t" by (rule only_segment_trans [OF only_segment_steps(3) only_segment_steps(1)])
  have nx: "only_segment g B s (next_store env g 0 s)" for s
    unfolding adds_alone(1) [OF al] by (rule only_segment_trans [OF _ only_segment_steps(1)]) (simp add: only_segment_def)
  have only3: "only_segment g B s2 s3"
    unfolding s3_def by (rule only_segment_trans [OF t only_segment_trans [OF nx only_segment_steps(1)]])
  have only: "only_segment g B s1 s3" by (rule only_segment_trans [OF only2 only3])
  have seg3: "segment_at s3 g = (segment_at s2 g)\<lparr>thread_id := 0, abandoned_next := 0, abandoned_visits := 1\<rparr>" "os_log s3 = os_log s2"
    "slice_at s3 = slice_at s2"
    by (simp_all add: s3_def adds_alone [OF al] set_segment_def mi_segments_track_size_def Let_def)
  have "lists_state s3 = lists_state st" using only s1(3) by (simp add: only_segment_def slices_kept_def)
  moreover have "segment_at s3 s = segment_at st s" if "s \<in> set (A @ V)" for s
  proof -
    have "s \<noteq> g" using lists(2) that by blast
    then have "segment_at s3 s = segment_at s1 s" using only unfolding only_segment_def by blast
    then show ?thesis by (simp only: seg1)
  qed
  ultimately have lists3: "abandoned_lists A V s3" by (intro abandoned_lists_frame [OF lists(1)]) simp_all
  have "g AND MI_SEGMENT_MASK = 0" using k(1) by (simp add: seg_base_def)
  then obtain s4 where s4: "mi_abandoned_push env g s3 = Some s4" "abandoned_lists (g # A) V s4" "only_lists s3 s4"
    using abandon_push_lists(1) [OF al lists3 g(2) _ lists(2)] by blast
  have "mi_segment_abandon env g st = Some s4"
    using s1(1) s2(1) s4(1) unfolding s3_def by (simp add: mi_segment_abandon_def Let_def sa_def)
  moreover have "heap_spans (G - {g}) B L Q1 s4"
    using heap_spans_lists [OF heap_spans_outside [OF hs1 k(1) _ only] s4(3)] by simp
  moreover have "abandoned_segment B g (L g) s4"
  proof -
    have u: "unlinked_segment (segment_at s4 g) = unlinked_segment (segment_at s3 g)" by (rule only_lists_unlinked [OF s4(3)])
    have log: "os_log s4 = os_log s3" and sl: "slice_at s4 = slice_at s1"
      using s4(3) seg3(3) s2(3) by (simp_all add: only_lists_def same_but_masks_def)
    have "mask_sound B g s3" using s2(2) seg3 by (simp add: mask_sound_def segment_fits_def)
    then have "mask_sound B g s4" by (rule mask_sound_same [OF _ log u])
    moreover have "slice_entries (segment_at s4 g) = 512" "thread_id (segment_at s4 g) = 0"
      unfolding unlinked_fields(10,11) [OF u] using seg3(1) same_fields(2) [OF s2(3), of g] k(3) seg1 by simp_all
    moreover have "abandoned_visits (segment_at s4 g) = 1"
    proof -
      have "(segment_at s4 g)\<lparr>abandoned_next := 0\<rparr> = (segment_at s3 g)\<lparr>abandoned_next := 0\<rparr>" using s4(3) by (simp add: only_lists_def)
      then have "abandoned_visits ((segment_at s4 g)\<lparr>abandoned_next := 0\<rparr>) = abandoned_visits ((segment_at s3 g)\<lparr>abandoned_next := 0\<rparr>)" by (rule arg_cong)
      then show ?thesis using seg3(1) by simp
    qed
    moreover have "span_at g (slice_at s4) s" if "s \<in> set (L g)" for s
      using span_at_frame [OF k(8) [OF that] k(7) [OF that]] s1(3) by (simp add: sl slices_kept_def)
    ultimately show ?thesis using k(7) by (simp add: abandoned_segment_def)
  qed
  ultimately show ?thesis using s4(2) by blast
qed

section \<open>Freeing and abandoning a page\<close>


lemma page_abandon_result:
  assumes hs: "heap_spans G B L Q st" and g: "g \<in> G" "g \<noteq> 0" and s: "(i, n, False) \<in> set (L g)"
    and al: "runs_alone env" and lists: "abandoned_lists X V st" "g \<notin> set (X @ V)"
  shows "\<exists>st' Q'. mi_segment_page_abandon env (sa g i) st = Some st' \<and>
    (if sg_abandoned (segment_at st g) + 2 = word_of_nat (used_spans (L g))
     then heap_spans (G - {g}) B L Q' st' \<and> abandoned_lists (g # X) V st' \<and> abandoned_segment B g (L g) st'
     else heap_spans G B L Q' st' \<and> abandoned_lists X V st' \<and> sg_abandoned (segment_at st' g) = sg_abandoned (segment_at st g) + 1)"
proof -
  note h = heap_spans_get [OF hs g(1)] and k = known_spans_get [OF heap_spans_get(1) [OF hs g(1)] g(1)]
  have "i \<le> 512" using k(7) [OF s] by (simp add: span_ok_def)
  then have sg: "mi_ptr_segment (sa g i) = g" by (rule slice_addr_segment [OF k(1)])
  let ?st = "set_segment g (\<lambda>sg. sg\<lparr>sg_abandoned := sg_abandoned sg + 1\<rparr>) st"
  have hs': "heap_spans G B L Q ?st"
    using hs by (auto simp: heap_spans_def known_spans_def segs_ok_def mask_sound_def segment_fits_def set_segment_def)
  have lists': "abandoned_lists X V ?st"
    by (rule abandoned_lists_frame [OF lists(1)]) (simp_all add: set_segment_def)
  have w: "(sg_used (segment_at ?st g) = sg_abandoned (segment_at ?st g)) = (sg_abandoned (segment_at st g) + 2 = word_of_nat (used_spans (L g)))"
    unfolding h(4) [symmetric] by (auto simp: set_segment_def add.commute)
  have run: "mi_segment_page_abandon env (sa g i) st =
      (if sg_used (segment_at ?st g) = sg_abandoned (segment_at ?st g) then mi_segment_abandon env g ?st else Some ?st)"
    unfolding mi_segment_page_abandon_def Let_def sg ..
  show ?thesis
  proof (cases "sg_abandoned (segment_at st g) + 2 = word_of_nat (used_spans (L g))")
    case True
    then show ?thesis unfolding run w using segment_abandon_spans [OF hs' g al lists' lists(2)] by simp
  next
    case False
    then show ?thesis unfolding run w using hs' lists' by (auto simp: set_segment_def)
  qed
qed

section \<open>Properties\<close>

lemma example_lists: "abandoned_lists [] [] example_spans" "abandoned_readers example_spans = 0" "runs_alone example_os"
  by (simp_all add: abandoned_lists_def example_spans_def example_segs_def mi_tagged_segment_ptr_def runs_alone_def example_os_def)



text \<open>
  When the thread that owns a page ends, the page is counted as abandoned. With the last of its pages the segment leaves the
  span queues and is pushed on the abandoned list, unowned, with its spans and a true commit mask; until then nothing else
  changes.
\<close>

theorem page_abandon_spans:
  assumes "heap_spans G B L Q st" "g \<in> G" "g \<noteq> 0" "(i, n, False) \<in> set (L g)" "runs_alone env" "abandoned_lists X V st" "g \<notin> set (X @ V)"
  shows "\<exists>st' Q'. mi_segment_page_abandon env (sa g i) st = Some st' \<and>
    (if sg_abandoned (segment_at st g) + 2 = word_of_nat (used_spans (L g))
     then heap_spans (G - {g}) B L Q' st' \<and> abandoned_lists (g # X) V st' \<and> abandoned_segment B g (L g) st'
     else heap_spans G B L Q' st' \<and> abandoned_lists X V st' \<and> sg_abandoned (segment_at st' g) = sg_abandoned (segment_at st g) + 1)"
  by (rule page_abandon_result [OF assms])

theorem page_abandon_spans_witness:
  "\<exists>st' Q'. mi_segment_page_abandon example_os (sa 0x2000000 1) example_spans = Some st' \<and>
    heap_spans {} {0x2000000..<0x2040000} example_list Q' st' \<and> abandoned_lists [0x2000000] [] st'"
proof -
  have "(1, 2, False) \<in> set (example_list 0x2000000)" by (simp add: example_list_def)
  moreover have "sg_abandoned (segment_at example_spans 0x2000000) + 2 = word_of_nat (used_spans (example_list 0x2000000))"
    by (simp add: example_spans_def example_segs_def example_list_def used_spans_def)
  ultimately show ?thesis using page_abandon_spans [OF example_heap_spans, of "0x2000000" 1 2 example_os "[]" "[]"] example_lists by auto
qed

end
