(* ===== verification/Mi_Page_Alloc.thy ===== *)
theory Mi_Page_Alloc
  imports Mi_Segment_Free
begin

text \<open>
  The allocation of a page for blocks of a given size: from the free spans of the segments of the thread, or from a new segment.
\<close>

section \<open>Purging beside a page\<close>



section \<open>Nothing to reclaim\<close>


section \<open>The number of slices\<close>




section \<open>Allocating a page\<close>





section \<open>Property\<close>






end
