(* ===== verification/Spec2Isabelle.thy ===== *)
theory Spec2Isabelle
  imports Allocator_Warmup Mi_Random Mi_Bitmap_Shared Mi_Queue_Lists Mi_Page_Alloc
begin

text \<open>
  A verification of smmalloc, the general purpose allocator in \<^verbatim>\<open>src/SmMalloc\<close>, and of the core of mimalloc, which
  the repository carries under \<^verbatim>\<open>src/extern/mimalloc\<close>. The model is that of the x64 release build: machine integers
  are words of their width, assertions are not executed, and code under \<^verbatim>\<open>#if\<close> is taken for 64 bits.

  \<^bold>\<open>The program.\<close> smmalloc cuts one buffer into up to 62 buckets of equal size; a bucket hands out elements of one size
  class from a lock-free list, whose links are kept in the free elements. In front of every bucket each thread keeps a cache of
  two levels (seven offsets in the thread local storage and a stack in a bucket element). Requests that no bucket serves go to a generic
  allocator, which puts a header before the blocks of \<^verbatim>\<open>std::malloc\<close>. \<open>Allocator::Alloc\<close> asks the cache, then up to four buckets,
  then the generic allocator; \<open>Free\<close> finds the bucket by a division of the address. mimalloc serves small requests from
  pages of equal blocks; pages are kept in queues by size, are made of slices of 64 KiB inside segments of 32 MiB, and
  memory is committed and purged in chunks of a segment.

  \<^bold>\<open>Shared theories.\<close> \<open>SMM_Prelude\<close> holds the integer types, lemmas on words and the result type of operations that may fault (division by
  zero, access through null, no return). \<open>Machine_Memory\<close> is the memory: bytes at 64-bit addresses with little-endian loads and
  stores; free lists, cache stacks, headers and client data all live in it, so aliasing is part of the model.

  \<^bold>\<open>smmalloc.\<close>
  \<^item> \<open>Partitioning\<close> (\<^verbatim>\<open>smmalloc.h\<close>): alignment helpers and the three size class schemes. The locale \<open>size_classes\<close> states
    what a scheme promises; it is interpreted for each of them. A request fits the bucket chosen for it and no earlier one,
    and the search for the next aligned bucket ends.
  \<^item> \<open>Tagged_Pool\<close> (\<open>PoolBucket\<close>): creation, \<open>Alloc\<close> and \<open>FreeInterval\<close> as sequential functions on memory, and their
    refinement to a list of offsets (locale \<open>lifo_pool\<close>). The loops of the code are partial functions into an option; that they return is proved.
  \<^item> \<open>Pool_Concurrency\<close>: the same two operations as a step relation for any number of threads, one step per atomic access, with
    sequentially consistent memory. Below \<open>2 ^ 32\<close> tags no block is in two places, each step refines a step of a plain stack, and a
    thread that runs alone completes; a reachable state shows that runs given back by a cache break exclusivity.
  \<^item> \<open>Thread_Cache\<close> (\<open>TlsPoolBucket\<close>): allocation from the cache, release into it and return of its older half to the pool.
  \<^item> \<open>Generic_Heap\<close> (\<^verbatim>\<open>smmalloc_generic.cpp\<close>): the header and the rounding around \<^verbatim>\<open>std::malloc\<close>. Where a raw block is placed
    is a parameter; that it does not overlap live blocks is checked when it is used.
  \<^item> \<open>Allocator\<close>, \<open>Cache_Lifecycle\<close>: the operations of \<open>sm::Allocator\<close> with their statistics, \<open>Init\<close>, the creation and
    destruction of thread caches, and the C functions. The state \<open>world\<close> is heap, allocator and the caches of all threads.
  \<^item> \<open>World_Invariant\<close>, \<open>Allocator_Invariant\<close>, \<open>Allocator_Start\<close>, \<open>Allocator_Blocks\<close>, \<open>Allocator_Correct\<close>, \<open>Allocator_Realloc\<close>,
    \<open>Allocator_Properties\<close>: the invariant that every block is free, in one cache, or held. \<open>Init\<close> establishes it, and \<open>Alloc\<close>, \<open>Free\<close> and
    \<open>Realloc\<close> keep it. For the client this is the locale \<open>block_store\<close>: held blocks are disjoint and keep their bytes over all
    sequences of legal requests.
  \<^item> \<open>Allocator_Caches\<close>, \<open>Allocator_Warmup\<close>: creating the caches of a thread, with any warm-up, and destroying them keep the invariant too.
    The options are at least two elements, as the code asserts; how many blocks a warm-up finds is not stated.

  \<^bold>\<open>mimalloc.\<close>
  \<^item> \<open>Mi_Internal\<close> (\<^verbatim>\<open>internal.h\<close>, \<^verbatim>\<open>types.h\<close>): rounding, overflow checks, bit scans, pointer encoding, memory ids.
  \<^item> \<open>Mi_Random\<close> (\<^verbatim>\<open>random.c\<close>): ChaCha20 and the contexts built on it, with the test vectors of \<open>chacha_test\<close>.
  \<^item> \<open>Mi_Bitmap\<close>, \<open>Mi_Bitmap_Search\<close>, \<open>Mi_Bitmap_Shared\<close> (\<^verbatim>\<open>bitmap.c\<close>): every atomic access is preceded by a step of the other threads, a
    parameter of the functions. Claims are exchanges of bits that are zero at that moment; run alone, the searches are complete; among
    threads that keep to their own bits a search across fields leaves nothing behind when it fails. The locales \<open>claim_map\<close>
    and \<open>field_try\<close> are shared by the versions within a field and across fields.
  \<^item> \<open>Mi_Page\<close>, \<open>Mi_Page_Lists\<close>, \<open>Mi_Page_Extend\<close> (\<^verbatim>\<open>page.c\<close>, \<^verbatim>\<open>alloc.c\<close>): the three free lists of a page, the delayed-free
    flag and the extension in random order. Every block below the capacity is in one list or in use, or waits with the heap. The changes of the
    flag are proved under interference, the other operations of a page for a thread that runs alone.
  \<^item> \<open>Mi_Page_Queue\<close>, \<open>Mi_Bins\<close>, \<open>Mi_Queue_Lists\<close> (\<^verbatim>\<open>page-queue.c\<close>): size bins, doubly linked queues and the direct table as lists of pages.
  \<^item> \<open>Mi_Commit_Mask\<close>, \<open>Mi_Segment\<close>, \<open>Mi_Segment_Bins\<close>, \<open>Mi_Segment_Commit\<close> (\<^verbatim>\<open>segment.c\<close>): commit masks as sets, the bins of spans, and the
    commit state: a chunk in the mask is committed according to the log of calls to the system.
  \<^item> \<open>Mi_Span_Queues\<close>, \<open>Mi_Span_Steps\<close>, \<open>Mi_Spans\<close>: the segments of a thread as lists of spans. Finding and clearing a page refine the lists, with
    queues, back offsets, counters and commit masks; every pointer into the first 16 MiB of a page leads back to the page.
  \<^item> \<open>Mi_Segment_Alloc\<close>: a new segment is the span of its own slice and one free span; there is none exactly if memory is refused.
  \<^item> \<open>Mi_Abandoned_List\<close>, \<open>Mi_Abandoned_Stacks\<close>: the two global lists of abandoned segments, with a step of the other threads before every
    atomic access; for a thread that runs alone they are stacks, and each update counts up the tag of the head.
  \<^item> \<open>Mi_Segment_Pages\<close>, \<open>Mi_Segment_Free\<close>, \<open>Mi_Page_Alloc\<close>: pages and segments are given back, abandoned, reclaimed and allocated. The
    segment of the last page that is freed leaves the span queues and its memory goes back to the arenas; a segment that has only abandoned pages
    joins the abandoned list; a page is allocated from a free span or a new segment while no segment is abandoned. Reclaiming is
    modelled, and what it does to the pages has no theorem.

  \<^bold>\<open>Loops and fuel.\<close> Loops that count down a word or walk a list of fixed length are recursive functions with a measure. Loops
  that only an invariant bounds (walks along free lists and queues, retries of an exchange, the linking of blocks) are partial functions into an
  option, and the theorems state that they return. The search over the span queues takes the number of
  queues left as its fuel, which is exactly the bound of the loop in the code.

  \<^bold>\<open>Parameters.\<close> The placement of \<^verbatim>\<open>std::malloc\<close>, the entropy, the answers of the system to commit and purge, the memory that
  the arenas give (the hypothesis \<open>arena_gives_segments\<close> states that it is aligned, not in use and of the arena asked for), the clock, the options, the steps of other
  threads and spurious failures of weak exchanges are arguments of the definitions that use them.

  \<^bold>\<open>Not modelled.\<close> Weak memory orderings: atomic accesses are sequentially consistent, and the allocator as a whole runs one operation at a
  time, the pool alone is interleaved. Times are integers without bound where the code has 64 bits. Of mimalloc: arenas, heaps, aligned
  allocation, options, statistics, the layer to the operating system and debug checks; they mostly call the system or print. The
  other allocators under \<^verbatim>\<open>src/extern\<close> are linked by the benchmarks only, and tests and benchmarks are drivers.
\<close>

end
